(* ===== verification/Prelude.thy ===== *)
theory Prelude
  imports Main "HOL-Library.Word" "HOL-Library.Monad_Syntax"
begin

text \<open>
  Shared vocabulary of the development.

  A C function that can dereference a pointer, fail an assertion or loop is modelled by a HOL
  function into \<open>'a option\<close>: \<open>Some r\<close> is a run that returns \<open>r\<close>, and \<open>None\<close> is
  a run that does not return normally, because it dereferences \<open>NULL\<close> or a freed object, stops
  in \<open>assert\<close>, \<open>abort\<close> or \<open>exit\<close>, or never ends.  A theorem that a function
  yields \<open>Some\<close> is therefore a theorem of memory safety and termination.

  Integers: object ids and hash values are \<open>64 word\<close>; the counters and sizes that the code
  keeps in \<open>int64_t\<close> and \<open>int32_t\<close> are \<open>int\<close> (signed overflow is undefined in C and no
  counter of the program is meant to reach it), and every narrowing conversion the code writes
  is written out with the conversions below.
\<close>

section \<open>Types\<close>

type_synonym addr = nat
type_synonym ptr = "addr option"
type_synonym obj_id_t = "64 word"

abbreviation NULL :: ptr where
  "NULL \<equiv> None"

section \<open>Integer conversions\<close>

text \<open>The value an \<open>int64_t\<close> keeps when it is converted to \<open>int32_t\<close>.\<close>

definition to_int32 :: "int \<Rightarrow> int" where
  "to_int32 x = sint (word_of_int x :: 32 word)"

definition to_uint32 :: "int \<Rightarrow> 32 word" where
  "to_uint32 x = word_of_int x"

lemma to_int32_id: "- (2 ^ 31) \<le> x \<Longrightarrow> x < 2 ^ 31 \<Longrightarrow> to_int32 x = x"
  by (simp add: to_int32_def sint_sbintrunc' signed_take_bit_int_eq_self)

section \<open>Collections of facts\<close>

named_theorems dll_simps "simplification rules for queues in the object store"
named_theorems frame_intros "operations that leave a part of the state unchanged"
named_theorems model_defs "definitions of the modelled operations"

section \<open>Options\<close>

lemma bind_SomeE [elim]:
  assumes "Option.bind m f = Some r"
  obtains x where "m = Some x" "f x = Some r"
  using assms by (cases m) auto

lemma map_option_eq_SomeD:
  "map_option f x = map_option f y \<Longrightarrow> y = Some b \<Longrightarrow> \<exists>a. x = Some a \<and> f a = f b"
  by (cases x) auto

section \<open>Lists\<close>

lemma split_list_nth_last:
  "xs \<noteq> [] \<Longrightarrow> \<exists>ys y. xs = ys @ [y]"
  by (cases xs rule: rev_cases) auto

lemma sum_list_remove_mid:
  "sum_list (map f (xs @ a # ys)) = f a + sum_list (map f (xs @ ys) :: int list)"
  by simp

lemma sum_list_map_cong_set:
  "(\<And>x. x \<in> set xs \<Longrightarrow> f x = g x) \<Longrightarrow> sum_list (map f xs) = sum_list (map g xs)"
  by (metis map_cong)

lemma sum_list_nonneg_int:
  "(\<And>x. x \<in> set xs \<Longrightarrow> 0 \<le> (f x :: int)) \<Longrightarrow> 0 \<le> sum_list (map f xs)"
  by (induction xs) auto

lemma find_Some_mem: "find P xs = Some x \<Longrightarrow> x \<in> set xs \<and> P x"
  by (induction xs) (auto split: if_splits)

lemma find_map: "find P (map f xs) = map_option f (find (\<lambda>x. P (f x)) xs)"
  by (induction xs) auto

lemma find_SomeD_split:
  "find P xs = Some x \<Longrightarrow> \<exists>ys zs. xs = ys @ x # zs \<and> P x \<and> (\<forall>y \<in> set ys. \<not> P y)"
proof (induction xs)
  case (Cons y ys)
  show ?case
  proof (cases "P y")
    case True
    with Cons.prems show ?thesis by (intro exI [of _ "[]"] exI [of _ ys]) simp
  next
    case False
    with Cons obtain us vs where "ys = us @ x # vs" "P x" "\<forall>z \<in> set us. \<not> P z" by auto
    with False show ?thesis by (intro exI [of _ "y # us"] exI [of _ vs]) simp
  qed
qed simp

lemma if_None_eq_Some: "((if b then None else x) = Some y) = (\<not> b \<and> x = Some y)"
  by simp

end
