(* ===== verification/Cache_Obj.thy ===== *)
theory Cache_Obj
  imports Prelude
begin

text \<open>
  Requests (\<open>request.h\<close>), cached objects and the intrusive doubly linked list every queue
  of the library is made of (\<open>cacheObj.h\<close>).

  The objects live in an object store, a map from addresses to \<open>cache_obj\<close> records, because
  one object is reached from the hash table's chain and from a queue at the same time.  The list
  operations are translated assignment by assignment, in the order of the code.  The second half
  of the theory relates them to plain lists: \<open>dll h qh qt xs\<close> says that the store \<open>h\<close>
  holds, between the head cell \<open>qh\<close> and the tail cell \<open>qt\<close>, a well-formed queue whose
  addresses are \<open>xs\<close> from head to tail.
\<close>

section \<open>Requests\<close>

text \<open>
  The operation of a request is read from a trace, where it can be any number: \<open>OP_OTHER\<close> holds
  the numbers that the enumeration does not name.
\<close>

datatype req_op_e = OP_NOP | OP_GET | OP_GETS | OP_SET | OP_ADD | OP_CAS | OP_REPLACE
  | OP_APPEND | OP_PREPEND | OP_DELETE | OP_INCR | OP_DECR | OP_READ | OP_WRITE | OP_UPDATE
  | OP_INVALID | OP_OTHER int

record request =
  req_clock_time :: int
  req_hv :: "64 word"
  req_obj_id :: obj_id_t
  req_obj_size :: int
  req_obj_cost :: int
  req_ttl :: int
  req_op :: req_op_e
  req_tenant_id :: int
  req_n_req :: "64 word"
  req_next_access_vtime :: int
  req_key_size :: int
  req_val_size :: int
  req_ns :: int
  req_n_features :: int
  req_features :: "int list"
  req_valid :: bool

definition new_request :: request where
  "new_request = \<lparr>req_clock_time = 0, req_hv = 0, req_obj_id = 0, req_obj_size = 1,
     req_obj_cost = 1, req_ttl = 0, req_op = OP_NOP, req_tenant_id = 0, req_n_req = 0,
     req_next_access_vtime = -2, req_key_size = 0, req_val_size = 0, req_ns = 0, req_n_features = 0,
     req_features = replicate 16 0, req_valid = True\<rparr>"

section \<open>Cached objects\<close>

text \<open>
  The members of the metadata union that the modelled algorithms use are separate fields; no
  modelled algorithm reads a member that another one wrote.
\<close>

record cache_obj =
  hash_next :: ptr
  obj_id :: obj_id_t
  obj_size :: int
  q_prev :: ptr
  q_next :: ptr
  next_access_vtime :: int
  freq :: int
  cost :: int
  exp_time :: "32 word"
  lfu_freq :: int
  clock_freq :: int
  sieve_freq :: int
  S3FIFO_freq :: int
  SLRU_lru_id :: nat
  pq_node :: ptr
  Belady_next_access_vtime :: int

type_synonym heap = "addr \<rightharpoonup> cache_obj"

text \<open>The object after \<open>memset(cache_obj, 0, sizeof(cache_obj_t))\<close>.\<close>

definition zero_obj :: cache_obj where
  "zero_obj = \<lparr>hash_next = NULL, obj_id = 0, obj_size = 0, q_prev = NULL, q_next = NULL,
     next_access_vtime = 0, freq = 0, cost = 0, exp_time = 0, lfu_freq = 0, clock_freq = 0,
     sieve_freq = 0, S3FIFO_freq = 0, SLRU_lru_id = 0, pq_node = NULL, Belady_next_access_vtime = 0\<rparr>"

definition copy_cache_obj_to_request :: "request \<Rightarrow> cache_obj \<Rightarrow> request" where
  "copy_cache_obj_to_request req_dest ob = req_dest\<lparr>req_obj_id := obj_id ob,
     req_obj_size := obj_size ob, req_next_access_vtime := next_access_vtime ob,
     req_obj_cost := cost ob, req_valid := True\<rparr>"

text \<open>\<open>ttl\<close> is true in a build with \<open>SUPPORT_TTL\<close>.\<close>

definition copy_request_to_cache_obj :: "bool \<Rightarrow> cache_obj \<Rightarrow> request \<Rightarrow> cache_obj" where
  "copy_request_to_cache_obj ttl ob req =
    (let ob = ob\<lparr>obj_size := req_obj_size req\<rparr>;
         ob = (if ttl then (if req_ttl req \<noteq> 0
                 then ob\<lparr>exp_time := to_uint32 (req_clock_time req + req_ttl req)\<rparr>
                 else ob\<lparr>exp_time := 0\<rparr>) else ob);
         ob = ob\<lparr>obj_id := req_obj_id req\<rparr>
     in ob\<lparr>cost := to_int32 (req_obj_cost req)\<rparr>)"

text \<open>
  \<open>my_malloc\<close> hands out the address \<open>brk\<close>, which no live object has; the caller moves
  \<open>brk\<close> on.
\<close>

definition create_cache_obj_from_request ::
    "bool \<Rightarrow> heap \<Rightarrow> addr \<Rightarrow> request \<Rightarrow> heap \<times> addr \<times> ptr" where
  "create_cache_obj_from_request ttl h brk req =
    (h(brk \<mapsto> copy_request_to_cache_obj ttl zero_obj req), Suc brk, Some brk)"

section \<open>Reading and writing through a pointer\<close>

definition deref :: "heap \<Rightarrow> ptr \<Rightarrow> cache_obj option" where
  "deref h p = Option.bind p h"

definition upd_obj :: "heap \<Rightarrow> ptr \<Rightarrow> (cache_obj \<Rightarrow> cache_obj) \<Rightarrow> heap option" where
  "upd_obj h p f = do { a \<leftarrow> p; ob \<leftarrow> h a; Some (h(a \<mapsto> f ob)) }"

abbreviation set_prev :: "heap \<Rightarrow> ptr \<Rightarrow> ptr \<Rightarrow> heap option" where
  "set_prev h p v \<equiv> upd_obj h p (\<lambda>ob. ob\<lparr>q_prev := v\<rparr>)"

abbreviation set_next :: "heap \<Rightarrow> ptr \<Rightarrow> ptr \<Rightarrow> heap option" where
  "set_next h p v \<equiv> upd_obj h p (\<lambda>ob. ob\<lparr>q_next := v\<rparr>)"

section \<open>The doubly linked list\<close>

definition remove_obj_from_list ::
    "heap \<Rightarrow> ptr \<Rightarrow> ptr \<Rightarrow> ptr \<Rightarrow> (heap \<times> ptr \<times> ptr) option" where
  "remove_obj_from_list h head tail p = do {
     (h, head) \<leftarrow> (if p = head then do {
         ob \<leftarrow> deref h p;
         h \<leftarrow> (if q_next ob \<noteq> NULL then set_prev h (q_next ob) NULL else Some h);
         Some (h, q_next ob) }
       else Some (h, head));
     (h, tail) \<leftarrow> (if p = tail then do {
         ob \<leftarrow> deref h p;
         h \<leftarrow> (if q_prev ob \<noteq> NULL then set_next h (q_prev ob) NULL else Some h);
         Some (h, q_prev ob) }
       else Some (h, tail));
     ob \<leftarrow> deref h p;
     h \<leftarrow> (if q_prev ob \<noteq> NULL then set_next h (q_prev ob) (q_next ob) else Some h);
     ob \<leftarrow> deref h p;
     h \<leftarrow> (if q_next ob \<noteq> NULL then set_prev h (q_next ob) (q_prev ob) else Some h);
     h \<leftarrow> set_prev h p NULL;
     h \<leftarrow> set_next h p NULL;
     Some (h, head, tail) }"

definition move_obj_to_tail ::
    "heap \<Rightarrow> ptr \<Rightarrow> ptr \<Rightarrow> ptr \<Rightarrow> (heap \<times> ptr \<times> ptr) option" where
  "move_obj_to_tail h head tail p =
    (if head = tail then Some (h, head, tail)
     else if p = head then do {
       ob \<leftarrow> deref h p;
       let head = q_next ob;
       h \<leftarrow> set_prev h (q_next ob) NULL;
       h \<leftarrow> set_next h tail p;
       h \<leftarrow> set_next h p NULL;
       h \<leftarrow> set_prev h p tail;
       Some (h, head, p) }
     else if p = tail then Some (h, head, tail)
     else do {
       ob \<leftarrow> deref h p;
       h \<leftarrow> set_next h (q_prev ob) (q_next ob);
       ob \<leftarrow> deref h p;
       h \<leftarrow> set_prev h (q_next ob) (q_prev ob);
       h \<leftarrow> set_next h tail p;
       h \<leftarrow> set_next h p NULL;
       h \<leftarrow> set_prev h p tail;
       Some (h, head, p) })"

definition move_obj_to_head ::
    "heap \<Rightarrow> ptr \<Rightarrow> ptr \<Rightarrow> ptr \<Rightarrow> (heap \<times> ptr \<times> ptr) option" where
  "move_obj_to_head h head tail p =
    (if head = tail then Some (h, head, tail)
     else if p = head then Some (h, head, tail)
     else if p = tail then do {
       ob \<leftarrow> deref h p;
       h \<leftarrow> set_next h (q_prev ob) (q_next ob);
       ob \<leftarrow> deref h p;
       let tail = q_prev ob;
       h \<leftarrow> set_prev h head p;
       h \<leftarrow> set_prev h p NULL;
       h \<leftarrow> set_next h p head;
       Some (h, p, tail) }
     else do {
       ob \<leftarrow> deref h p;
       h \<leftarrow> set_next h (q_prev ob) (q_next ob);
       ob \<leftarrow> deref h p;
       h \<leftarrow> set_prev h (q_next ob) (q_prev ob);
       h \<leftarrow> set_prev h head p;
       h \<leftarrow> set_prev h p NULL;
       h \<leftarrow> set_next h p head;
       Some (h, p, tail) })"

definition prepend_obj_to_head ::
    "heap \<Rightarrow> ptr \<Rightarrow> ptr \<Rightarrow> ptr \<Rightarrow> (heap \<times> ptr \<times> ptr) option" where
  "prepend_obj_to_head h head tail p = do {
     h \<leftarrow> set_prev h p NULL;
     h \<leftarrow> set_next h p head;
     let tail = (if tail = NULL then p else tail);
     h \<leftarrow> (if head \<noteq> NULL then set_prev h head p else Some h);
     Some (h, p, tail) }"

definition append_obj_to_tail ::
    "heap \<Rightarrow> ptr \<Rightarrow> ptr \<Rightarrow> ptr \<Rightarrow> (heap \<times> ptr \<times> ptr) option" where
  "append_obj_to_tail h head tail p = do {
     h \<leftarrow> set_next h p NULL;
     h \<leftarrow> set_prev h p tail;
     let head = (if head = NULL then p else head);
     h \<leftarrow> (if tail \<noteq> NULL then set_next h tail p else Some h);
     Some (h, head, p) }"

text \<open>The search of \<open>prev_obj_in_slist\<close> never ends on a cyclic list.\<close>

partial_function (option) prev_obj_in_slist :: "heap \<Rightarrow> ptr \<Rightarrow> ptr \<Rightarrow> ptr option" where
  "prev_obj_in_slist h head p =
    (if head = NULL then Some NULL
     else Option.bind (deref h head) (\<lambda>ob.
       if q_next ob \<noteq> p then prev_obj_in_slist h (q_next ob) p else Some head))"

section \<open>Eviction pinning\<close>

text \<open>
  The per-thread predicate \<open>g_cache_pin_pred\<close>: \<open>None\<close> when no predicate is installed.
\<close>

type_synonym pin_pred = "(obj_id_t \<Rightarrow> bool) option"

definition cache_pinning_active :: "pin_pred \<Rightarrow> bool" where
  "cache_pinning_active pin = (pin \<noteq> None)"

definition cache_obj_is_pinned :: "pin_pred \<Rightarrow> cache_obj \<Rightarrow> bool" where
  "cache_obj_is_pinned pin ob = (case pin of None \<Rightarrow> False | Some f \<Rightarrow> f (obj_id ob))"

partial_function (option) skip_pinned_loop :: "pin_pred \<Rightarrow> heap \<Rightarrow> ptr \<Rightarrow> ptr option" where
  "skip_pinned_loop pin h p =
    (if p = NULL then Some NULL
     else Option.bind (deref h p) (\<lambda>ob.
       if cache_obj_is_pinned pin ob then skip_pinned_loop pin h (q_prev ob) else Some p))"

definition cache_skip_pinned :: "pin_pred \<Rightarrow> heap \<Rightarrow> ptr \<Rightarrow> ptr option" where
  "cache_skip_pinned pin h candidate =
    (if pin = None then Some candidate
     else do {
       p \<leftarrow> skip_pinned_loop pin h candidate;
       Some (if p \<noteq> NULL then p else candidate) })"

section \<open>Queues in the store\<close>

definition firstp :: "addr list \<Rightarrow> ptr \<Rightarrow> ptr" where
  "firstp xs n = (case xs of [] \<Rightarrow> n | y # _ \<Rightarrow> Some y)"

definition lastp :: "addr list \<Rightarrow> ptr \<Rightarrow> ptr" where
  "lastp xs p = (if xs = [] then p else Some (last xs))"

text \<open>
  A segment of a queue: the objects \<open>xs\<close> are in the store and linked to each other both
  ways, the first one's \<open>prev\<close> is \<open>p\<close> and the last one's \<open>next\<close> is \<open>n\<close>.
\<close>

primrec dseg :: "heap \<Rightarrow> ptr \<Rightarrow> addr list \<Rightarrow> ptr \<Rightarrow> bool" where
  "dseg h p [] n = True"
| "dseg h p (x # xs) n =
     (\<exists>ob. h x = Some ob \<and> q_prev ob = p \<and> q_next ob = firstp xs n \<and> dseg h (Some x) xs n)"

definition dll :: "heap \<Rightarrow> ptr \<Rightarrow> ptr \<Rightarrow> addr list \<Rightarrow> bool" where
  "dll h head tail xs \<longleftrightarrow> distinct xs \<and> head = firstp xs NULL \<and> tail = lastp xs NULL
     \<and> dseg h NULL xs NULL"

text \<open>
  What a list operation on the queue \<open>S\<close> leaves alone: every object outside \<open>S\<close>, and all
  the fields of the objects of \<open>S\<close> but the two queue pointers.
\<close>

definition noq :: "cache_obj \<Rightarrow> cache_obj" where
  "noq ob = ob\<lparr>q_prev := NULL, q_next := NULL\<rparr>"

definition qframe :: "addr set \<Rightarrow> heap \<Rightarrow> heap \<Rightarrow> bool" where
  "qframe S h h' \<longleftrightarrow> (\<forall>b. b \<notin> S \<longrightarrow> h' b = h b)
     \<and> (\<forall>b. map_option noq (h' b) = map_option noq (h b))"

subsection \<open>Segments\<close>

lemma firstp_simps [simp, dll_simps]:
  "firstp [] n = n" "firstp (x # xs) n = Some x"
  by (simp_all add: firstp_def)

lemma firstp_append [simp, dll_simps]: "firstp (xs @ ys) n = firstp xs (firstp ys n)"
  by (cases xs) simp_all

lemma lastp_simps [simp, dll_simps]:
  "lastp [] p = p" "lastp (xs @ [x]) p = Some x" "lastp (x # xs) p = lastp xs (Some x)"
  by (simp_all add: lastp_def)

lemma lastp_append [simp, dll_simps]: "lastp (xs @ ys) p = lastp ys (lastp xs p)"
  by (simp add: lastp_def)

lemma lastp_Some: "lastp xs (Some a) = Some (last (a # xs))"
  by (simp add: lastp_def)

lemma firstp_eq_NULL [simp]: "firstp xs NULL = NULL \<longleftrightarrow> xs = []"
  by (cases xs) simp_all

lemma lastp_eq_NULL [simp]: "lastp xs NULL = NULL \<longleftrightarrow> xs = []"
  by (cases xs rule: rev_cases) simp_all

lemma firstp_Some_neq [simp]:
  "firstp xs (Some u) \<noteq> NULL" "NULL \<noteq> firstp xs (Some u)"
  "a \<notin> set xs \<Longrightarrow> a \<noteq> u \<Longrightarrow> firstp xs (Some u) \<noteq> Some a"
  "a \<notin> set xs \<Longrightarrow> a \<noteq> u \<Longrightarrow> Some a \<noteq> firstp xs (Some u)"
  by (cases xs; auto)+

lemma lastp_Some_neq [simp]:
  "lastp xs (Some u) \<noteq> NULL" "NULL \<noteq> lastp xs (Some u)"
  "a \<notin> set xs \<Longrightarrow> a \<noteq> u \<Longrightarrow> lastp xs (Some u) \<noteq> Some a"
  "a \<notin> set xs \<Longrightarrow> a \<noteq> u \<Longrightarrow> Some a \<noteq> lastp xs (Some u)"
  by (cases xs rule: rev_cases; auto)+

lemma dseg_append [simp, dll_simps]:
  "dseg h p (xs @ ys) n \<longleftrightarrow> dseg h p xs (firstp ys n) \<and> dseg h (lastp xs p) ys n"
  by (induction xs arbitrary: p) auto

lemma dseg_upd_other [simp, dll_simps]:
  "a \<notin> set xs \<Longrightarrow> dseg (h(a := v)) p xs n = dseg h p xs n"
  by (induction xs arbitrary: p) auto

lemma dseg_cong:
  "(\<And>a. a \<in> set xs \<Longrightarrow> map_option (\<lambda>ob. (q_prev ob, q_next ob)) (h' a)
       = map_option (\<lambda>ob. (q_prev ob, q_next ob)) (h a)) \<Longrightarrow> dseg h p xs n \<Longrightarrow> dseg h' p xs n"
proof (induction xs arbitrary: p)
  case (Cons x xs)
  from Cons.prems(2) obtain ob where ob: "h x = Some ob" "q_prev ob = p" "q_next ob = firstp xs n"
    and tl: "dseg h (Some x) xs n" by auto
  from Cons.prems(1)[of x] ob(1) obtain ob' where
    "h' x = Some ob'" "(q_prev ob', q_next ob') = (q_prev ob, q_next ob)"
    by (auto dest: map_option_eq_SomeD)
  moreover have "dseg h' (Some x) xs n" using Cons.IH[OF _ tl] Cons.prems(1) by simp
  ultimately show ?case using ob by simp
qed simp

lemma dseg_live: "dseg h p xs n \<Longrightarrow> a \<in> set xs \<Longrightarrow> \<exists>ob. h a = Some ob"
  by (induction xs arbitrary: p) auto

lemma dll_live: "dll h head tail xs \<Longrightarrow> a \<in> set xs \<Longrightarrow> \<exists>ob. h a = Some ob"
  by (auto simp: dll_def dest: dseg_live)

lemma dll_cong:
  "(\<And>a. a \<in> set xs \<Longrightarrow> map_option (\<lambda>ob. (q_prev ob, q_next ob)) (h' a)
       = map_option (\<lambda>ob. (q_prev ob, q_next ob)) (h a)) \<Longrightarrow> dll h head tail xs
     \<Longrightarrow> dll h' head tail xs"
  by (auto simp: dll_def intro: dseg_cong)

lemma dll_unique_head_tail:
  "dll h qh qt xs \<Longrightarrow> qh = firstp xs NULL" "dll h qh qt xs \<Longrightarrow> qt = lastp xs NULL"
  by (simp_all add: dll_def)

lemma dll_distinct: "dll h qh qt xs \<Longrightarrow> distinct xs"
  by (simp add: dll_def)

lemma dll_empty [simp]: "dll h NULL NULL []"
  by (simp add: dll_def)

text \<open>A queue determines its list of objects: the links from the head spell it out.\<close>

lemma dseg_unique:
  "dseg h p xs NULL \<Longrightarrow> dseg h p' ys NULL \<Longrightarrow> firstp xs NULL = firstp ys NULL \<Longrightarrow> xs = ys"
proof (induction xs arbitrary: p p' ys)
  case Nil
  then show ?case by (cases ys) auto
next
  case (Cons x xs)
  from Cons.prems(3) obtain zs where ys: "ys = x # zs" by (cases ys) auto
  with Cons.prems have "dseg h (Some x) xs NULL" "dseg h (Some x) zs NULL"
    "firstp xs NULL = firstp zs NULL" by auto
  then show ?case using Cons.IH ys by blast
qed

lemma dll_unique: "dll h qh qt xs \<Longrightarrow> dll h qh qt' ys \<Longrightarrow> xs = ys"
  by (auto simp: dll_def dest: dseg_unique)

subsection \<open>Frames\<close>

lemma upd_obj_Some [simp]:
  "h a = Some ob \<Longrightarrow> upd_obj h (Some a) f = Some (h(a \<mapsto> f ob))"
  by (simp add: upd_obj_def)

lemma upd_obj_NULL [simp]: "upd_obj h NULL f = None"
  by (simp add: upd_obj_def)

lemma deref_simps [simp]: "deref h NULL = None" "deref h (Some a) = h a"
  by (simp_all add: deref_def)

lemma noq_simps [simp]:
  "hash_next (noq ob) = hash_next ob" "obj_id (noq ob) = obj_id ob"
  "obj_size (noq ob) = obj_size ob" "next_access_vtime (noq ob) = next_access_vtime ob"
  "freq (noq ob) = freq ob" "cost (noq ob) = cost ob" "exp_time (noq ob) = exp_time ob"
  "lfu_freq (noq ob) = lfu_freq ob" "clock_freq (noq ob) = clock_freq ob"
  "sieve_freq (noq ob) = sieve_freq ob" "S3FIFO_freq (noq ob) = S3FIFO_freq ob"
  "SLRU_lru_id (noq ob) = SLRU_lru_id ob" "pq_node (noq ob) = pq_node ob"
  "Belady_next_access_vtime (noq ob) = Belady_next_access_vtime ob"
  "noq (ob\<lparr>q_prev := p\<rparr>) = noq ob" "noq (ob\<lparr>q_next := p\<rparr>) = noq ob"
  by (simp_all add: noq_def)

lemma qframe_refl [simp]: "qframe S h h"
  by (simp add: qframe_def)

lemma qframe_trans: "qframe S h h' \<Longrightarrow> qframe T h' h'' \<Longrightarrow> qframe (S \<union> T) h h''"
  by (simp add: qframe_def)

lemma qframe_mono: "qframe S h h' \<Longrightarrow> S \<subseteq> T \<Longrightarrow> qframe T h h'"
  by (auto simp: qframe_def)

lemma qframe_upd:
  "qframe S h h' \<Longrightarrow> a \<in> S \<Longrightarrow> h' a = Some ob' \<Longrightarrow> noq ob = noq ob' \<Longrightarrow> qframe S h (h'(a \<mapsto> ob))"
  unfolding qframe_def by (metis fun_upd_apply option.map(2))

lemma qframe_dom:
  assumes "qframe S h h'"
  shows "dom h' = dom h"
proof -
  have "map_option noq (h' b) = map_option noq (h b)" for b
    using assms by (simp add: qframe_def)
  then have "(h' b = None) = (h b = None)" for b
    by (metis map_option_is_None)
  then show ?thesis by (auto simp: dom_def)
qed

lemma qframe_obj: "qframe S h h' \<Longrightarrow> h a = Some ob \<Longrightarrow> \<exists>ob'. h' a = Some ob' \<and> noq ob' = noq ob"
  by (metis (no_types, lifting) map_option_eq_SomeD qframe_def)

lemma qframe_the: "qframe S h h' \<Longrightarrow> a \<in> dom h \<Longrightarrow> noq (the (h' a)) = noq (the (h a))"
  by (auto dest: qframe_obj)

lemma qframe_other: "qframe S h h' \<Longrightarrow> a \<notin> S \<Longrightarrow> h' a = h a"
  by (simp add: qframe_def)

lemma qframe_dll_other:
  "qframe S h h' \<Longrightarrow> S \<inter> set ys = {} \<Longrightarrow> dll h qh qt ys \<Longrightarrow> dll h' qh qt ys"
  by (rule dll_cong, subst qframe_other) auto

subsection \<open>The operations act on queues as on lists\<close>

lemma split_last_addr: "xs = [] \<or> (\<exists>ys y. xs = ys @ [y])"
  by (cases xs rule: rev_cases) auto

lemma remove_obj_from_list_dll:
  assumes "dll h qh qt (xs @ a # ys)"
  shows "\<exists>h' qh' qt'. remove_obj_from_list h qh qt (Some a) = Some (h', qh', qt')
    \<and> dll h' qh' qt' (xs @ ys) \<and> qframe (set (xs @ a # ys)) h h'"
proof -
  have "xs = [] \<or> (\<exists>us u. xs = us @ [u])" by (rule split_last_addr)
  moreover have "ys = [] \<or> (\<exists>v vs. ys = v # vs)" by (cases ys) auto
  ultimately show ?thesis using assms
    by (elim disjE exE)
      (auto simp: remove_obj_from_list_def dll_def intro!: qframe_upd split: if_splits)
qed

lemma prepend_obj_to_head_dll:
  assumes "dll h qh qt xs" and "h a = Some ob" and "a \<notin> set xs"
  shows "\<exists>h' qh' qt'. prepend_obj_to_head h qh qt (Some a) = Some (h', qh', qt')
    \<and> dll h' qh' qt' (a # xs) \<and> qframe (set (a # xs)) h h'"
  using assms
  by (cases xs) (auto simp: prepend_obj_to_head_def dll_def intro!: qframe_upd)

lemma append_obj_to_tail_dll:
  assumes "dll h qh qt xs" and "h a = Some ob" and "a \<notin> set xs"
  shows "\<exists>h' qh' qt'. append_obj_to_tail h qh qt (Some a) = Some (h', qh', qt')
    \<and> dll h' qh' qt' (xs @ [a]) \<and> qframe (set (a # xs)) h h'"
  using assms
  by (cases xs rule: rev_cases)
    (auto simp: append_obj_to_tail_def dll_def intro!: qframe_upd)

lemma split_ends_addr: "xs = [] \<or> (\<exists>u. xs = [u]) \<or> (\<exists>w us u. xs = w # us @ [u])"
  by (cases xs; cases "tl xs" rule: rev_cases) auto

lemma move_obj_to_head_dll:
  assumes "dll h qh qt (xs @ a # ys)"
  shows "\<exists>h' qh' qt'. move_obj_to_head h qh qt (Some a) = Some (h', qh', qt')
    \<and> dll h' qh' qt' (a # xs @ ys) \<and> qframe (set (xs @ a # ys)) h h'"
proof -
  have "ys = [] \<or> (\<exists>v vs. ys = v # vs)" by (cases ys) auto
  then show ?thesis using split_ends_addr [of xs] assms
    by (elim disjE exE)
      (auto simp: move_obj_to_head_def dll_def intro!: qframe_upd)
qed

lemma move_obj_to_tail_dll:
  assumes "dll h qh qt (xs @ a # ys)"
  shows "\<exists>h' qh' qt'. move_obj_to_tail h qh qt (Some a) = Some (h', qh', qt')
    \<and> dll h' qh' qt' (xs @ ys @ [a]) \<and> qframe (set (xs @ a # ys)) h h'"
proof -
  have "xs = [] \<or> (\<exists>us u. xs = us @ [u])" by (rule split_last_addr)
  then show ?thesis using split_ends_addr [of ys] assms
    by (elim disjE exE)
      (auto simp: move_obj_to_tail_def dll_def intro!: qframe_upd)
qed

lemma prev_obj_in_slist_dseg:
  "dseg h p (xs @ [b]) (Some a) \<Longrightarrow> a \<notin> set (xs @ [b]) \<Longrightarrow>
     prev_obj_in_slist h (firstp (xs @ [b]) NULL) (Some a) = Some (Some b)"
proof (induction xs arbitrary: p)
  case Nil
  then show ?case by (auto simp: prev_obj_in_slist.simps)
next
  case (Cons x xs)
  then have "prev_obj_in_slist h (firstp (xs @ [b]) NULL) (Some a) = Some (Some b)" by auto
  with Cons.prems show ?case
    by (auto simp: prev_obj_in_slist.simps [of h "Some x"])
qed

subsection \<open>Skipping pinned objects\<close>

text \<open>
  The victim the pinning rule names: the object nearest to the tail that is not pinned, and the
  tail itself when every object is pinned.
\<close>

definition unpinned_victim :: "pin_pred \<Rightarrow> heap \<Rightarrow> addr list \<Rightarrow> addr" where
  "unpinned_victim pin h xs =
    (case find (\<lambda>a. \<not> cache_obj_is_pinned pin (the (h a))) (rev xs) of
       None \<Rightarrow> last xs | Some a \<Rightarrow> a)"

lemma skip_pinned_loop_dseg:
  "dseg h NULL xs n \<Longrightarrow> skip_pinned_loop pin h (lastp xs NULL)
     = Some (find (\<lambda>a. \<not> cache_obj_is_pinned pin (the (h a))) (rev xs))"
  by (induction xs arbitrary: n rule: rev_induct) (auto simp: skip_pinned_loop.simps)

lemma cache_skip_pinned_dll:
  "dll h qh qt xs \<Longrightarrow> xs \<noteq> [] \<Longrightarrow> cache_skip_pinned pin h qt = Some (Some (unpinned_victim pin h xs))"
  by (cases xs rule: rev_cases)
    (auto simp: cache_skip_pinned_def dll_def unpinned_victim_def skip_pinned_loop_dseg
       cache_obj_is_pinned_def skip_pinned_loop_dseg [of h "_ @ [_]" NULL, simplified]
       split: option.splits)

lemma unpinned_victim_mem: "xs \<noteq> [] \<Longrightarrow> unpinned_victim pin h xs \<in> set xs"
  by (auto simp: unpinned_victim_def find_Some_iff split: option.splits)
    (metis length_rev nth_mem set_rev)

lemma unpinned_victim_None [simp]: "xs \<noteq> [] \<Longrightarrow> unpinned_victim None h xs = last xs"
  by (cases xs rule: rev_cases) (auto simp: unpinned_victim_def cache_obj_is_pinned_def)

lemma unpinned_victim_pinned:
  assumes "xs \<noteq> []" and "cache_obj_is_pinned pin (the (h (unpinned_victim pin h xs)))"
  shows "\<forall>a \<in> set xs. cache_obj_is_pinned pin (the (h a))"
  using assms
  by (auto simp: unpinned_victim_def find_None_iff find_Some_iff split: option.splits)

section \<open>Properties\<close>

lemma dseg_determined:
  "dseg h1 p xs n \<Longrightarrow> dseg h2 p xs n \<Longrightarrow> a \<in> set xs \<Longrightarrow>
     map_option noq (h1 a) = map_option noq (h2 a) \<Longrightarrow> h1 a = h2 a"
proof (induction xs arbitrary: p)
  case (Cons x xs)
  show ?case
  proof (cases "a = x")
    case True
    with Cons.prems obtain o1 o2 where "h1 a = Some o1" "h2 a = Some o2" "q_prev o1 = q_prev o2"
      "q_next o1 = q_next o2" "noq o1 = noq o2" by auto
    then show ?thesis by (cases o1; cases o2) (simp add: noq_def)
  next
    case False
    with Cons show ?thesis by auto
  qed
qed simp

lemma dll_determined:
  assumes "dll h1 qh1 qt1 xs" and "dll h2 qh2 qt2 xs" and "qframe S h h1" and "qframe T h h2"
    and "S \<subseteq> set xs" and "T \<subseteq> set xs"
  shows "(h1, qh1, qt1) = (h2, qh2, qt2)"
proof -
  have "h1 a = h2 a" for a
  proof (cases "a \<in> set xs")
    case True
    moreover have "map_option noq (h1 a) = map_option noq (h2 a)"
      using assms(3,4) by (simp add: qframe_def)
    ultimately show ?thesis using assms(1,2) dseg_determined by (auto simp: dll_def)
  next
    case False
    with assms(3-6) show ?thesis by (metis qframe_other subsetD)
  qed
  then show ?thesis using assms(1,2) by (auto simp: dll_def)
qed

text \<open>
  Moving an object of a queue to the head with the hand-written \<open>move_obj_to_head\<close> leaves
  exactly the store, the head and the tail that removing it from the queue and prepending it
  leaves, wherever in the queue the object is.
\<close>

theorem move_to_head_is_remove_prepend:
  assumes "dll h qh qt xs" and "a \<in> set xs"
  shows "\<exists>r. move_obj_to_head h qh qt (Some a) = Some r
    \<and> Option.bind (remove_obj_from_list h qh qt (Some a))
        (\<lambda>(h, qh, qt). prepend_obj_to_head h qh qt (Some a)) = Some r"
proof -
  from assms(2) obtain us vs where xs: "xs = us @ a # vs" by (auto dest: split_list)
  note d = assms(1) [unfolded xs]
  from move_obj_to_head_dll [OF d] obtain h1 qh1 qt1 where
    m: "move_obj_to_head h qh qt (Some a) = Some (h1, qh1, qt1)" "dll h1 qh1 qt1 (a # us @ vs)"
    "qframe (set (us @ a # vs)) h h1" by blast
  from remove_obj_from_list_dll [OF d] obtain h2 qh2 qt2 where
    r: "remove_obj_from_list h qh qt (Some a) = Some (h2, qh2, qt2)" "dll h2 qh2 qt2 (us @ vs)"
    "qframe (set (us @ a # vs)) h h2" by blast
  from dll_live [OF d, of a] qframe_dom [OF r(3)] obtain ob where "h2 a = Some ob" by auto
  moreover have "a \<notin> set (us @ vs)" using dll_distinct [OF d] by simp
  ultimately obtain h3 qh3 qt3 where
    p: "prepend_obj_to_head h2 qh2 qt2 (Some a) = Some (h3, qh3, qt3)" "dll h3 qh3 qt3 (a # us @ vs)"
    "qframe (set (a # us @ vs)) h2 h3" using prepend_obj_to_head_dll [OF r(2)] by blast
  have "(h1, qh1, qt1) = (h3, qh3, qt3)"
    by (rule dll_determined [OF m(2) p(2) m(3) qframe_trans [OF r(3) p(3)]]) auto
  with m(1) r(1) p(1) show ?thesis by simp
qed

text \<open>A queue of three objects, the middle one moved.\<close>

definition three_queue :: heap where
  "three_queue = [0 \<mapsto> zero_obj\<lparr>obj_id := 7, q_next := Some 1\<rparr>,
     1 \<mapsto> zero_obj\<lparr>obj_id := 8, q_prev := Some 0, q_next := Some 2\<rparr>,
     2 \<mapsto> zero_obj\<lparr>obj_id := 9, q_prev := Some 1\<rparr>]"

lemma three_queue_dll: "dll three_queue (Some 0) (Some 2) [0, 1, 2]"
  by (simp add: dll_def three_queue_def zero_obj_def)

theorem move_to_head_is_remove_prepend_witness:
  "\<exists>r. move_obj_to_head three_queue (Some 0) (Some 2) (Some 1) = Some r
    \<and> Option.bind (remove_obj_from_list three_queue (Some 0) (Some 2) (Some 1))
        (\<lambda>(h, qh, qt). prepend_obj_to_head h qh qt (Some 1)) = Some r"
  by (rule move_to_head_is_remove_prepend [OF three_queue_dll]) simp

text \<open>
  Skipping pinned objects from the tail of a queue names the object nearest to the tail that
  is not pinned; it names a pinned object, the tail itself, only when every object of the queue is
  pinned, and it always ends.
\<close>

theorem skip_pinned_correct:
  assumes "dll h qh qt xs" and "xs \<noteq> []"
  shows "\<exists>a ob us vs. cache_skip_pinned pn h qt = Some (Some a) \<and> xs = us @ a # vs \<and> h a = Some ob
    \<and> (if \<forall>b \<in> set xs. cache_obj_is_pinned pn (the (h b)) then vs = []
       else \<not> cache_obj_is_pinned pn ob \<and> (\<forall>b \<in> set vs. cache_obj_is_pinned pn (the (h b))))"
proof (cases "find (\<lambda>a. \<not> cache_obj_is_pinned pn (the (h a))) (rev xs)")
  case None
  with assms(2) have "unpinned_victim pn h xs = last xs" by (simp add: unpinned_victim_def)
  moreover from None have "\<forall>b \<in> set xs. cache_obj_is_pinned pn (the (h b))"
    by (simp add: find_None_iff)
  moreover obtain us a where us: "xs = us @ [a]" using assms(2) by (cases xs rule: rev_cases) auto
  moreover obtain ob where "h a = Some ob" using dll_live [OF assms(1), of a] us by auto
  ultimately show ?thesis using cache_skip_pinned_dll [OF assms, of pn] by auto
next
  case (Some a)
  then have v: "unpinned_victim pn h xs = a" by (simp add: unpinned_victim_def)
  from Some obtain ys zs where r: "rev xs = ys @ a # zs" "\<forall>b \<in> set ys. cache_obj_is_pinned pn (the (h b))"
    "\<not> cache_obj_is_pinned pn (the (h a))"
    by (auto simp: find_Some_iff2 dest: find_SomeD_split)
  then have xs: "xs = rev zs @ a # rev ys" by (metis append.assoc append_Cons append_Nil rev.simps(2)
      rev_append rev_rev_ident)
  obtain ob where ob: "h a = Some ob" using dll_live [OF assms(1), of a] xs by auto
  have "\<not> (\<forall>b \<in> set xs. cache_obj_is_pinned pn (the (h b)))" using r(3) xs by auto
  with r ob v xs cache_skip_pinned_dll [OF assms, of pn] show ?thesis
    by (intro exI [of _ a] exI [of _ ob] exI [of _ "rev zs"] exI [of _ "rev ys"]) simp
qed

theorem skip_pinned_correct_witness:
  "\<exists>a. cache_skip_pinned (Some (\<lambda>i. i = 9)) three_queue (Some 2) = Some (Some a)"
  using skip_pinned_correct [OF three_queue_dll, of "Some (\<lambda>i. i = 9)"] by blast

end
