(* ===== verification/Hash_Table.thy ===== *)
theory Hash_Table
  imports Cache_Obj
begin

text \<open>
  The chained hash table that owns the cached objects
  (\<open>dataStructure/hashtable/chainedHashTableV2.c\<close>): an array of \<open>2 ^ hashpower\<close> bucket
  heads and, through \<open>hash_next\<close>, one singly linked chain per bucket.

  \<open>table_ok E W h ht A\<close> is the table's invariant: the live objects of the table are exactly
  \<open>A\<close>, each one in the chain its id hashes to and no id twice.  The lemmas give the contract the
  cache relies on: a lookup returns the object with the id or \<open>NULL\<close>, an insertion (which may
  double the array and rehash every chain) adds one fresh object, a deletion frees one.

  \<open>chained_hashtable_delete_v2\<close> walks the chain and, past 64 objects, prints a diagnostic that
  copies the ids of each bucket into an array of 64 entries.  That array overruns exactly in the
  case in which the diagnostic is printed (\<open>delete_long_chain_overruns\<close>), so the contract of
  the deletion is stated for tables whose chains are short enough: \<open>W\<close> names the ids the trace
  uses and a lower bound of \<open>hashpower\<close>, and \<open>spread E W\<close> says that the hash function puts at
  most 65 of those ids in one bucket.
\<close>

section \<open>Model\<close>

text \<open>
  What is fixed by the build and by the calling thread: the hash function behind
  \<open>get_hash_value_int_64\<close> (any function; the build selects one of several vendored ones), the
  \<open>SUPPORT_TTL\<close> switch and the thread's pin predicate.
\<close>

record env =
  hash64 :: "obj_id_t \<Rightarrow> 64 word"
  support_ttl :: bool
  pin :: pin_pred

record hashtable_t =
  ptr_table :: "ptr list"
  ht_n_obj :: nat
  hashpower :: nat
  external_obj :: bool

definition hashsize :: "nat \<Rightarrow> nat" where
  "hashsize n = 2 ^ n"

unbundle bit_operations_syntax

definition hashmask :: "nat \<Rightarrow> 64 word" where
  "hashmask n = push_bit n 1 - 1"

definition hash_index :: "env \<Rightarrow> nat \<Rightarrow> obj_id_t \<Rightarrow> nat" where
  "hash_index E hp i = unat (hash64 E i AND hashmask hp)"

text \<open>Reading the bucket array; out of range is undefined behaviour.\<close>

definition bucket :: "ptr list \<Rightarrow> nat \<Rightarrow> ptr option" where
  "bucket tbl i = (if i < length tbl then Some (tbl ! i) else None)"

abbreviation set_hash_next :: "heap \<Rightarrow> ptr \<Rightarrow> ptr \<Rightarrow> heap option" where
  "set_hash_next h p v \<equiv> upd_obj h p (\<lambda>ob. ob\<lparr>hash_next := v\<rparr>)"

definition free_cache_obj :: "heap \<Rightarrow> ptr \<Rightarrow> heap" where
  "free_cache_obj h p = (case p of None \<Rightarrow> h | Some a \<Rightarrow> h(a := None))"

definition add_to_table :: "env \<Rightarrow> nat \<Rightarrow> heap \<Rightarrow> ptr list \<Rightarrow> ptr \<Rightarrow> (heap \<times> ptr list) option" where
  "add_to_table E hp h tbl p = do {
     ob \<leftarrow> deref h p;
     let hv = hash_index E hp (obj_id ob);
     head_ptr \<leftarrow> bucket tbl hv;
     if head_ptr = NULL then Some (h, tbl[hv := p])
     else do {
       h \<leftarrow> set_hash_next h p head_ptr;
       Some (h, tbl[hv := p]) } }"

definition create_chained_hashtable_v2 :: "nat \<Rightarrow> hashtable_t" where
  "create_chained_hashtable_v2 hp = \<lparr>ptr_table = replicate (hashsize hp) NULL, ht_n_obj = 0,
     hashpower = hp, external_obj = False\<rparr>"

partial_function (option) find_in_chain :: "heap \<Rightarrow> ptr \<Rightarrow> obj_id_t \<Rightarrow> ptr option" where
  "find_in_chain h p i =
    (if p = NULL then Some NULL
     else Option.bind (deref h p) (\<lambda>ob.
       if obj_id ob = i then Some p else find_in_chain h (hash_next ob) i))"

definition chained_hashtable_find_obj_id_v2 ::
    "env \<Rightarrow> heap \<Rightarrow> hashtable_t \<Rightarrow> obj_id_t \<Rightarrow> ptr option" where
  "chained_hashtable_find_obj_id_v2 E h ht i = do {
     let hv = hash_index E (hashpower ht) i;
     p \<leftarrow> bucket (ptr_table ht) hv;
     find_in_chain h p i }"

definition chained_hashtable_find_v2 ::
    "env \<Rightarrow> heap \<Rightarrow> hashtable_t \<Rightarrow> request \<Rightarrow> ptr option" where
  "chained_hashtable_find_v2 E h ht req = chained_hashtable_find_obj_id_v2 E h ht (req_obj_id req)"

definition chained_hashtable_find_obj_v2 ::
    "env \<Rightarrow> heap \<Rightarrow> hashtable_t \<Rightarrow> ptr \<Rightarrow> ptr option" where
  "chained_hashtable_find_obj_v2 E h ht p = do {
     ob \<leftarrow> deref h p;
     chained_hashtable_find_obj_id_v2 E h ht (obj_id ob) }"

text \<open>Rehashing: the inner loop of \<open>_copy_entries\<close> over one chain, then all old buckets.\<close>

partial_function (option) copy_chain ::
    "env \<Rightarrow> nat \<Rightarrow> heap \<Rightarrow> ptr list \<Rightarrow> ptr \<Rightarrow> (heap \<times> ptr list) option" where
  "copy_chain E hp h tbl cur_obj =
    (if cur_obj = NULL then Some (h, tbl)
     else Option.bind (deref h cur_obj) (\<lambda>ob.
       Option.bind (set_hash_next h cur_obj NULL) (\<lambda>h.
       Option.bind (add_to_table E hp h tbl cur_obj) (\<lambda>(h, tbl).
         copy_chain E hp h tbl (hash_next ob)))))"

fun copy_entries :: "env \<Rightarrow> nat \<Rightarrow> heap \<Rightarrow> ptr list \<Rightarrow> ptr list \<Rightarrow> (heap \<times> ptr list) option" where
  "copy_entries E hp h tbl [] = Some (h, tbl)"
| "copy_entries E hp h tbl (cur_obj # old_table) = do {
     (h, tbl) \<leftarrow> copy_chain E hp h tbl cur_obj;
     copy_entries E hp h tbl old_table }"

definition chained_hashtable_expand_v2 ::
    "env \<Rightarrow> heap \<Rightarrow> hashtable_t \<Rightarrow> (heap \<times> hashtable_t) option" where
  "chained_hashtable_expand_v2 E h ht = do {
     let old_table = ptr_table ht;
     let hp = Suc (hashpower ht);
     let tbl = replicate (hashsize hp) NULL;
     (h, tbl) \<leftarrow> copy_entries E hp h tbl (take (hashsize (hp - 1)) old_table);
     Some (h, ht\<lparr>hashpower := hp, ptr_table := tbl\<rparr>) }"

definition chained_hashtable_shrink_v2 ::
    "env \<Rightarrow> heap \<Rightarrow> hashtable_t \<Rightarrow> (heap \<times> hashtable_t) option" where
  "chained_hashtable_shrink_v2 E h ht = do {
     let old_table = ptr_table ht;
     let hp = hashpower ht - 1;
     let tbl = replicate (hashsize hp) NULL;
     (h, tbl) \<leftarrow> copy_entries E hp h tbl (take (hashsize (hp + 1)) old_table);
     Some (h, ht\<lparr>hashpower := hp, ptr_table := tbl\<rparr>) }"

definition CHAINED_HASHTABLE_EXPAND_THRESHOLD :: nat where
  "CHAINED_HASHTABLE_EXPAND_THRESHOLD = 2"

text \<open>Inserting allocates the object; the object store's next free address is \<open>brk\<close>.\<close>

definition chained_hashtable_insert_v2 ::
    "env \<Rightarrow> heap \<Rightarrow> addr \<Rightarrow> hashtable_t \<Rightarrow> request \<Rightarrow> (heap \<times> addr \<times> hashtable_t \<times> ptr) option"
  where
  "chained_hashtable_insert_v2 E h brk ht req = do {
     (h, ht) \<leftarrow> (if ht_n_obj ht > hashsize (hashpower ht) * CHAINED_HASHTABLE_EXPAND_THRESHOLD
       then chained_hashtable_expand_v2 E h ht else Some (h, ht));
     let (h, brk, new_cache_obj) = create_cache_obj_from_request (support_ttl E) h brk req;
     (h, tbl) \<leftarrow> add_to_table E (hashpower ht) h (ptr_table ht) new_cache_obj;
     Some (h, brk, ht\<lparr>ptr_table := tbl, ht_n_obj := ht_n_obj ht + 1\<rparr>, new_cache_obj) }"

definition chained_hashtable_insert_obj_v2 ::
    "env \<Rightarrow> heap \<Rightarrow> hashtable_t \<Rightarrow> ptr \<Rightarrow> (heap \<times> hashtable_t \<times> ptr) option" where
  "chained_hashtable_insert_obj_v2 E h ht cache_obj = do {
     (h, ht) \<leftarrow> (if ht_n_obj ht > hashsize (hashpower ht) * CHAINED_HASHTABLE_EXPAND_THRESHOLD
       then chained_hashtable_expand_v2 E h ht else Some (h, ht));
     (h, tbl) \<leftarrow> add_to_table E (hashpower ht) h (ptr_table ht) cache_obj;
     Some (h, ht\<lparr>ptr_table := tbl, ht_n_obj := ht_n_obj ht + 1\<rparr>, cache_obj) }"

text \<open>
  The diagnostic of the deletion.  \<open>obj_id_arr\<close> has 64 entries; the 65th write is out of bounds.
  A duplicated id makes it \<open>abort\<close>.
\<close>

partial_function (option) count_n_obj_in_bucket ::
    "heap \<Rightarrow> ptr \<Rightarrow> obj_id_t list \<Rightarrow> nat option" where
  "count_n_obj_in_bucket h curr_obj obj_id_arr =
    (if curr_obj = NULL then Some (length obj_id_arr)
     else Option.bind (deref h curr_obj) (\<lambda>ob.
       if length obj_id_arr \<ge> 64 then None
       else if obj_id ob \<in> set obj_id_arr then None
       else count_n_obj_in_bucket h (hash_next ob) (obj_id_arr @ [obj_id ob])))"

fun print_hashbucket_item_distribution :: "heap \<Rightarrow> ptr list \<Rightarrow> nat option" where
  "print_hashbucket_item_distribution h [] = Some 0"
| "print_hashbucket_item_distribution h (p # tbl) = do {
     chain_len \<leftarrow> count_n_obj_in_bucket h p [];
     n_obj \<leftarrow> print_hashbucket_item_distribution h tbl;
     Some (chain_len + n_obj) }"

text \<open>
  The walk to the predecessor of an object in its chain, with the number of steps.  The static
  \<open>max_chain_len\<close> is 64 until the diagnostic has run once.
\<close>

partial_function (option) find_pred ::
    "heap \<Rightarrow> ptr \<Rightarrow> ptr \<Rightarrow> nat \<Rightarrow> (ptr \<times> nat) option" where
  "find_pred h cur_obj p chain_len =
    (if cur_obj = NULL then Some (NULL, chain_len)
     else Option.bind (deref h cur_obj) (\<lambda>ob.
       if hash_next ob \<noteq> p then find_pred h (hash_next ob) p (chain_len + 1)
       else Some (cur_obj, chain_len)))"

definition chained_hashtable_delete_v2 ::
    "env \<Rightarrow> heap \<Rightarrow> hashtable_t \<Rightarrow> ptr \<Rightarrow> (heap \<times> hashtable_t) option" where
  "chained_hashtable_delete_v2 E h ht cache_obj = do {
     let ht = ht\<lparr>ht_n_obj := ht_n_obj ht - 1\<rparr>;
     ob \<leftarrow> deref h cache_obj;
     let hv = hash_index E (hashpower ht) (obj_id ob);
     p \<leftarrow> bucket (ptr_table ht) hv;
     if p = cache_obj then
       Some (if \<not> external_obj ht then free_cache_obj h cache_obj else h,
             ht\<lparr>ptr_table := (ptr_table ht)[hv := hash_next ob]\<rparr>)
     else do {
       (cur_obj, chain_len) \<leftarrow> find_pred h p cache_obj 1;
       _ \<leftarrow> (if chain_len > 64 then print_hashbucket_item_distribution h (ptr_table ht)
             else Some 0);
       h \<leftarrow> set_hash_next h cur_obj (hash_next ob);
       Some (if \<not> external_obj ht then free_cache_obj h cache_obj else h, ht) } }"

definition chained_hashtable_try_delete_v2 ::
    "env \<Rightarrow> heap \<Rightarrow> hashtable_t \<Rightarrow> ptr \<Rightarrow> (heap \<times> hashtable_t \<times> bool) option" where
  "chained_hashtable_try_delete_v2 E h ht cache_obj = do {
     ob \<leftarrow> deref h cache_obj;
     let hv = hash_index E (hashpower ht) (obj_id ob);
     p \<leftarrow> bucket (ptr_table ht) hv;
     if p = cache_obj then
       Some (if \<not> external_obj ht then free_cache_obj h cache_obj else h,
             ht\<lparr>ptr_table := (ptr_table ht)[hv := hash_next ob], ht_n_obj := ht_n_obj ht - 1\<rparr>,
             True)
     else do {
       (cur_obj, chain_len) \<leftarrow> find_pred h p cache_obj 1;
       if cur_obj \<noteq> NULL then do {
         h \<leftarrow> set_hash_next h cur_obj (hash_next ob);
         Some (if \<not> external_obj ht then free_cache_obj h cache_obj else h,
               ht\<lparr>ht_n_obj := ht_n_obj ht - 1\<rparr>, True) }
       else Some (h, ht, False) } }"

text \<open>The \<open>do\<close>-loop of the deletion by id: the predecessor and the object found, or \<open>NULL\<close>.\<close>

partial_function (option) find_pred_id ::
    "heap \<Rightarrow> ptr \<Rightarrow> obj_id_t \<Rightarrow> (ptr \<times> ptr) option" where
  "find_pred_id h cur_obj i =
    Option.bind (deref h cur_obj) (\<lambda>ob.
      if hash_next ob = NULL then Some (cur_obj, NULL)
      else Option.bind (deref h (hash_next ob)) (\<lambda>nx.
        if obj_id nx \<noteq> i then find_pred_id h (hash_next ob) i
        else Some (cur_obj, hash_next ob)))"

definition chained_hashtable_delete_obj_id_v2 ::
    "env \<Rightarrow> heap \<Rightarrow> hashtable_t \<Rightarrow> obj_id_t \<Rightarrow> (heap \<times> hashtable_t \<times> bool) option" where
  "chained_hashtable_delete_obj_id_v2 E h ht i = do {
     let hv = hash_index E (hashpower ht) i;
     cur_obj \<leftarrow> bucket (ptr_table ht) hv;
     if cur_obj = NULL then Some (h, ht, False)
     else do {
       ob \<leftarrow> deref h cur_obj;
       if obj_id ob = i then
         Some (if \<not> external_obj ht then free_cache_obj h cur_obj else h,
               ht\<lparr>ptr_table := (ptr_table ht)[hv := hash_next ob], ht_n_obj := ht_n_obj ht - 1\<rparr>,
               True)
       else do {
         (prev_obj, cur_obj) \<leftarrow> find_pred_id h cur_obj i;
         if cur_obj \<noteq> NULL then do {
           ob \<leftarrow> deref h cur_obj;
           h \<leftarrow> set_hash_next h prev_obj (hash_next ob);
           Some (if \<not> external_obj ht then free_cache_obj h cur_obj else h,
                 ht\<lparr>ht_n_obj := ht_n_obj ht - 1\<rparr>, True) }
         else Some (h, ht, False) } } }"

section \<open>Invariant\<close>

primrec chain :: "heap \<Rightarrow> ptr \<Rightarrow> addr list \<Rightarrow> bool" where
  "chain h p [] = (p = NULL)"
| "chain h p (a # as) = (p = Some a \<and> (\<exists>ob. h a = Some ob \<and> chain h (hash_next ob) as))"

definition obj_index :: "env \<Rightarrow> nat \<Rightarrow> heap \<Rightarrow> addr \<Rightarrow> nat" where
  "obj_index E hp h a = hash_index E hp (obj_id (the (h a)))"

text \<open>Every object of \<open>A\<close> is in the chain of its bucket, and nothing else is in a chain.\<close>

definition buckets :: "env \<Rightarrow> heap \<Rightarrow> nat \<Rightarrow> ptr list \<Rightarrow> addr set \<Rightarrow> bool" where
  "buckets E h hp tbl A \<longleftrightarrow> length tbl = hashsize hp
     \<and> (\<forall>i < hashsize hp. \<exists>as. chain h (tbl ! i) as \<and> set as = {a \<in> A. obj_index E hp h a = i})"

text \<open>The ids a trace uses and the least \<open>hashpower\<close> of its tables.\<close>

type_synonym trace_ids = "obj_id_t set \<times> nat"

definition spread :: "env \<Rightarrow> trace_ids \<Rightarrow> bool" where
  "spread E W \<longleftrightarrow> (\<forall>hp i. snd W \<le> hp \<longrightarrow> finite {x \<in> fst W. hash_index E hp x = i}
     \<and> card {x \<in> fst W. hash_index E hp x = i} \<le> 65)"

definition table_ok :: "env \<Rightarrow> trace_ids \<Rightarrow> heap \<Rightarrow> hashtable_t \<Rightarrow> addr set \<Rightarrow> bool" where
  "table_ok E W h ht A \<longleftrightarrow> finite A \<and> A \<subseteq> dom h \<and> inj_on (\<lambda>a. obj_id (the (h a))) A
     \<and> (\<lambda>a. obj_id (the (h a))) ` A \<subseteq> fst W \<and> snd W \<le> hashpower ht
     \<and> ht_n_obj ht = card A \<and> \<not> external_obj ht
     \<and> buckets E h (hashpower ht) (ptr_table ht) A"

text \<open>What a table operation on the objects \<open>S\<close> leaves alone: all but their \<open>hash_next\<close>.\<close>

definition nohash :: "cache_obj \<Rightarrow> cache_obj" where
  "nohash ob = ob\<lparr>hash_next := NULL\<rparr>"

definition hframe :: "addr set \<Rightarrow> heap \<Rightarrow> heap \<Rightarrow> bool" where
  "hframe S h h' \<longleftrightarrow> (\<forall>b. b \<notin> S \<longrightarrow> h' b = h b)
     \<and> (\<forall>b. map_option nohash (h' b) = map_option nohash (h b))"

section \<open>Lemmas\<close>

subsection \<open>Indices\<close>

lemma hash_index_less: "hash_index E hp i < hashsize hp"
proof -
  have "hashmask hp = mask hp"
    by (simp add: hashmask_def mask_eq_exp_minus_1 push_bit_of_1)
  then have "hash_index E hp i = take_bit hp (unat (hash64 E i))"
    by (simp add: hash_index_def flip: take_bit_eq_mask) (simp add: unsigned_take_bit_eq)
  then show ?thesis by (simp add: hashsize_def)
qed

lemma obj_index_less: "obj_index E hp h a < hashsize hp"
  by (simp add: obj_index_def hash_index_less)

lemma bucket_Some [simp]: "i < length tbl \<Longrightarrow> bucket tbl i = Some (tbl ! i)"
  by (simp add: bucket_def)

subsection \<open>Chains\<close>

lemma chain_NULL [simp]: "chain h NULL as \<longleftrightarrow> as = []"
  by (cases as) auto

lemma chain_Some:
  "chain h (Some a) as \<longleftrightarrow> (\<exists>bs ob. as = a # bs \<and> h a = Some ob \<and> chain h (hash_next ob) bs)"
  by (cases as) auto

lemma chain_upd_other [simp]: "a \<notin> set as \<Longrightarrow> chain (h(a := v)) p as = chain h p as"
  by (induction as arbitrary: p) auto

lemma chain_cong:
  "(\<And>a. a \<in> set as \<Longrightarrow> map_option hash_next (h' a) = map_option hash_next (h a))
     \<Longrightarrow> chain h p as \<Longrightarrow> chain h' p as"
proof (induction as arbitrary: p)
  case (Cons a as)
  from Cons.prems(2) obtain ob where p: "p = Some a" and ob: "h a = Some ob"
    and tl: "chain h (hash_next ob) as" by auto
  from Cons.prems(1)[of a] ob obtain ob' where "h' a = Some ob'" "hash_next ob' = hash_next ob"
    by (auto dest: map_option_eq_SomeD)
  moreover have "chain h' (hash_next ob) as" using Cons.IH[OF _ tl] Cons.prems(1) by simp
  ultimately show ?case using p by simp
qed simp

lemma chain_unique: "chain h p as \<Longrightarrow> chain h p bs \<Longrightarrow> as = bs"
  by (induction as arbitrary: p bs) (auto simp: chain_Some)

lemma chain_suffix: "chain h p (as @ bs) \<Longrightarrow> \<exists>q. chain h q bs"
  by (induction as arbitrary: p) auto

lemma chain_distinct: "chain h p as \<Longrightarrow> distinct as"
proof (induction as arbitrary: p)
  case (Cons a as)
  then obtain ob where ob: "h a = Some ob" "chain h (hash_next ob) as" by auto
  have "a \<notin> set as"
  proof
    assume "a \<in> set as"
    then obtain us vs where as: "as = us @ a # vs" by (auto dest: split_list)
    with ob(2) obtain q where "chain h q (a # vs)" by (auto dest: chain_suffix)
    with ob have "chain h (hash_next ob) vs" by simp
    with ob(2) have "as = vs" by (rule chain_unique)
    with as show False by simp
  qed
  with Cons.IH ob show ?case by auto
qed simp

lemma chain_live: "chain h p as \<Longrightarrow> a \<in> set as \<Longrightarrow> \<exists>ob. h a = Some ob"
  by (induction as arbitrary: p) auto

lemma chain_append:
  "chain h p (as @ b # bs) \<Longrightarrow> h b = Some ob \<Longrightarrow> chain h (hash_next ob) bs"
  by (induction as arbitrary: p) auto

lemma chain_remove:
  "chain h p (as @ c # a # bs) \<Longrightarrow> h a = Some ob \<Longrightarrow> h c = Some oc \<Longrightarrow>
     distinct (as @ c # a # bs) \<Longrightarrow>
     chain (h(c \<mapsto> oc\<lparr>hash_next := hash_next ob\<rparr>)) p (as @ c # bs)"
  by (induction as arbitrary: p) auto

lemma find_in_chain_correct:
  "chain h p as \<Longrightarrow>
     find_in_chain h p i = Some (find (\<lambda>a. obj_id (the (h a)) = i) as)"
  by (induction as arbitrary: p) (auto simp: find_in_chain.simps)

lemma find_pred_correct:
  "chain h p (as @ c # a # bs) \<Longrightarrow> distinct (as @ c # a # bs) \<Longrightarrow>
     find_pred h p (Some a) n = Some (Some c, n + length as)"
proof (induction as arbitrary: p n)
  case Nil
  then show ?case by (auto simp: find_pred.simps)
next
  case (Cons x xs)
  then obtain ob where ob: "p = Some x" "h x = Some ob" "chain h (hash_next ob) (xs @ c # a # bs)"
    by auto
  moreover from ob Cons.prems have "hash_next ob \<noteq> Some a" by (cases xs) auto
  ultimately show ?case using Cons.IH[of "hash_next ob" "n + 1"] Cons.prems
    by (auto simp: find_pred.simps [of h "Some x"])
qed

lemma find_pred_absent:
  "chain h p as \<Longrightarrow> a \<notin> set as \<Longrightarrow> find_pred h p (Some a) n = Some (NULL, n + length as)"
proof (induction as arbitrary: p n)
  case Nil
  then show ?case by (auto simp: find_pred.simps)
next
  case (Cons x xs)
  then obtain ob where ob: "p = Some x" "h x = Some ob" "chain h (hash_next ob) xs"
    by auto
  moreover from ob Cons.prems have "hash_next ob \<noteq> Some a" by (cases xs) auto
  ultimately show ?case using Cons.IH[of "hash_next ob" "n + 1"] Cons.prems
    by (auto simp: find_pred.simps [of h "Some x"])
qed

subsection \<open>Frames\<close>

lemma nohash_simps [simp]:
  "obj_id (nohash ob) = obj_id ob" "obj_size (nohash ob) = obj_size ob"
  "q_prev (nohash ob) = q_prev ob" "q_next (nohash ob) = q_next ob"
  "nohash (ob\<lparr>hash_next := p\<rparr>) = nohash ob"
  by (simp_all add: nohash_def)

lemma hframe_refl [simp]: "hframe S h h"
  by (simp add: hframe_def)

lemma hframe_trans: "hframe S h h' \<Longrightarrow> hframe T h' h'' \<Longrightarrow> hframe (S \<union> T) h h''"
  by (simp add: hframe_def)

lemma hframe_mono: "hframe S h h' \<Longrightarrow> S \<subseteq> T \<Longrightarrow> hframe T h h'"
  by (auto simp: hframe_def)

lemma hframe_upd: "h a = Some ob \<Longrightarrow> hframe {a} h (h(a \<mapsto> ob\<lparr>hash_next := p\<rparr>))"
  by (auto simp: hframe_def)

lemma hframe_other: "hframe S h h' \<Longrightarrow> a \<notin> S \<Longrightarrow> h' a = h a"
  by (simp add: hframe_def)

lemma hframe_obj: "hframe S h h' \<Longrightarrow> h a = Some ob \<Longrightarrow> \<exists>ob'. h' a = Some ob' \<and> nohash ob' = nohash ob"
  by (metis (no_types, lifting) map_option_eq_SomeD hframe_def)

lemma hframe_dom:
  assumes "hframe S h h'"
  shows "dom h' = dom h"
proof -
  have "map_option nohash (h' b) = map_option nohash (h b)" for b
    using assms by (simp add: hframe_def)
  then have "(h' b = None) = (h b = None)" for b
    by (metis map_option_is_None)
  then show ?thesis by (auto simp: dom_def)
qed

lemma hframe_field:
  assumes "hframe S h h'" and "\<And>ob. f (nohash ob) = f ob"
  shows "map_option f (h' a) = map_option f (h a)"
proof -
  have "map_option nohash (h' a) = map_option nohash (h a)"
    using assms(1) by (simp add: hframe_def)
  then have "map_option f (map_option nohash (h' a)) = map_option f (map_option nohash (h a))"
    by simp
  then show ?thesis by (simp add: option.map_comp comp_def assms(2))
qed

lemma hframe_the:
  assumes "hframe S h h'" and "\<And>ob. f (nohash ob) = f ob" and "a \<in> dom h"
  shows "f (the (h' a)) = f (the (h a))"
  using hframe_field [where f = f and a = a, OF assms(1) assms(2)] assms(3) hframe_dom [OF assms(1)]
  by (cases "h a"; cases "h' a") auto

lemma hframe_dll: "hframe S h h' \<Longrightarrow> dll h qh qt xs \<Longrightarrow> dll h' qh qt xs"
  by (rule dll_cong, rule hframe_field) auto

subsection \<open>Buckets\<close>

lemma buckets_chain:
  assumes "buckets E h hp tbl A" and "i < hashsize hp"
  obtains as where "chain h (tbl ! i) as" "set as = {a \<in> A. obj_index E hp h a = i}" "distinct as"
  using assms chain_distinct unfolding buckets_def by blast

lemma buckets_length: "buckets E h hp tbl A \<Longrightarrow> length tbl = hashsize hp"
  by (simp add: buckets_def)

lemma buckets_empty: "buckets E h hp (replicate (hashsize hp) NULL) {}"
  by (simp add: buckets_def)

lemma buckets_cong:
  assumes "buckets E h hp tbl A"
    and "\<And>a. a \<in> A \<Longrightarrow> map_option (\<lambda>ob. (hash_next ob, obj_id ob)) (h' a)
       = map_option (\<lambda>ob. (hash_next ob, obj_id ob)) (h a)"
    and "A \<subseteq> dom h"
  shows "buckets E h' hp tbl A"
proof -
  have idx: "obj_index E hp h' a = obj_index E hp h a" if "a \<in> A" for a
    using assms(2,3) that by (force simp: obj_index_def dom_def dest: map_option_eq_SomeD)
  have nx: "map_option hash_next (h' a) = map_option hash_next (h a)" if "a \<in> A" for a
    using arg_cong [OF assms(2) [OF that], of "map_option fst"]
    by (simp add: option.map_comp comp_def)
  show ?thesis unfolding buckets_def
  proof (intro conjI allI impI)
    fix i assume i: "i < hashsize hp"
    obtain as where as: "chain h (tbl ! i) as" "set as = {a \<in> A. obj_index E hp h a = i}"
      using assms(1) i by (rule buckets_chain)
    have "chain h' (tbl ! i) as" by (rule chain_cong [OF _ as(1)]) (simp add: as(2) nx)
    moreover have "set as = {a \<in> A. obj_index E hp h' a = i}" using as(2) idx by auto
    ultimately show "\<exists>as. chain h' (tbl ! i) as \<and> set as = {a \<in> A. obj_index E hp h' a = i}"
      by blast
  qed (rule buckets_length [OF assms(1)])
qed

lemma obj_index_upd: "obj_index E hp (h(a \<mapsto> ob)) b =
    (if b = a then hash_index E hp (obj_id ob) else obj_index E hp h b)"
  by (simp add: obj_index_def)

lemma add_to_table_correct:
  assumes "buckets E h hp tbl A" and "a \<notin> A" and "h a = Some ob" and "hash_next ob = NULL"
  shows "\<exists>x tbl'. add_to_table E hp h tbl (Some a) = Some (h(a \<mapsto> ob\<lparr>hash_next := x\<rparr>), tbl')
    \<and> buckets E (h(a \<mapsto> ob\<lparr>hash_next := x\<rparr>)) hp tbl' (insert a A)"
proof -
  let ?hv = "hash_index E hp (obj_id ob)"
  let ?x = "tbl ! ?hv"
  let ?h = "h(a \<mapsto> ob\<lparr>hash_next := ?x\<rparr>)"
  have hv: "?hv < hashsize hp" by (rule hash_index_less)
  have len: "length tbl = hashsize hp" by (rule buckets_length [OF assms(1)])
  have "add_to_table E hp h tbl (Some a) = Some (?h, tbl[?hv := Some a])"
  proof (cases "?x = NULL")
    case True
    with assms(4) have "ob\<lparr>hash_next := ?x\<rparr> = ob" by simp
    then have "?h = h" using assms(3) by auto
    with True assms(3) hv len show ?thesis by (simp add: add_to_table_def Let_def)
  qed (use assms(3) hv len in \<open>auto simp: add_to_table_def Let_def\<close>)
  moreover have "buckets E ?h hp (tbl[?hv := Some a]) (insert a A)"
    unfolding buckets_def
  proof (intro conjI allI impI)
    fix i assume i: "i < hashsize hp"
    obtain as where as: "chain h (tbl ! i) as" "set as = {b \<in> A. obj_index E hp h b = i}"
      using assms(1) i by (rule buckets_chain)
    with assms(2) have "a \<notin> set as" by auto
    with as(1) have ch: "chain ?h (tbl ! i) as" by simp
    show "\<exists>as. chain ?h (tbl[?hv := Some a] ! i) as
       \<and> set as = {b \<in> insert a A. obj_index E hp ?h b = i}"
    proof (cases "i = ?hv")
      case True
      with ch len i have "chain ?h (tbl[?hv := Some a] ! i) (a # as)" by simp
      moreover have "set (a # as) = {b \<in> insert a A. obj_index E hp ?h b = i}"
        using True as(2) assms(2) by (auto simp: obj_index_upd)
      ultimately show ?thesis by blast
    next
      case False
      with ch have "chain ?h (tbl[?hv := Some a] ! i) as" by simp
      moreover have "set as = {b \<in> insert a A. obj_index E hp ?h b = i}"
        using False as(2) assms(2) by (auto simp: obj_index_upd)
      ultimately show ?thesis by blast
    qed
  qed (simp add: len)
  ultimately show ?thesis by blast
qed

text \<open>Moving one chain into the new array.\<close>

lemma copy_chain_correct:
  "chain h p as \<Longrightarrow> distinct as \<Longrightarrow> set as \<inter> A = {} \<Longrightarrow> A \<subseteq> dom h \<Longrightarrow> buckets E h hp tbl A \<Longrightarrow>
    \<exists>h' tbl'. copy_chain E hp h tbl p = Some (h', tbl')
      \<and> buckets E h' hp tbl' (A \<union> set as) \<and> hframe (set as) h h'"
proof (induction as arbitrary: p h tbl A)
  case Nil
  then show ?case by (simp add: copy_chain.simps)
next
  case (Cons a as)
  then obtain ob where ob: "p = Some a" "h a = Some ob" "chain h (hash_next ob) as" by auto
  let ?h1 = "h(a \<mapsto> ob\<lparr>hash_next := NULL\<rparr>)"
  have a: "a \<notin> A" "a \<notin> set as" using Cons.prems by auto
  have "buckets E ?h1 hp tbl A"
    by (rule buckets_cong [OF Cons.prems(5)]) (use a Cons.prems(4) in auto)
  from add_to_table_correct [OF this a(1), of "ob\<lparr>hash_next := NULL\<rparr>"]
  obtain x tbl1 where add: "add_to_table E hp ?h1 tbl (Some a) = Some (?h1(a \<mapsto> ob\<lparr>hash_next := x\<rparr>), tbl1)"
    and b: "buckets E (?h1(a \<mapsto> ob\<lparr>hash_next := x\<rparr>)) hp tbl1 (insert a A)" by auto
  let ?h2 = "h(a \<mapsto> ob\<lparr>hash_next := x\<rparr>)"
  have eq: "?h1(a \<mapsto> ob\<lparr>hash_next := x\<rparr>) = ?h2" by simp
  have ch: "chain ?h2 (hash_next ob) as" using ob(3) a(2) by simp
  have side: "distinct as" "set as \<inter> insert a A = {}" "insert a A \<subseteq> dom ?h2"
    using Cons.prems a by auto
  from Cons.IH [OF ch side b [unfolded eq]] obtain h' tbl' where IH: "copy_chain E hp ?h2 tbl1 (hash_next ob) = Some (h', tbl')"
    "buckets E h' hp tbl' (insert a A \<union> set as)" "hframe (set as) ?h2 h'"
    by blast
  have "copy_chain E hp h tbl p = Some (h', tbl')"
    using add unfolding eq ob(1)
    by (subst copy_chain.simps) (simp add: ob(2) IH(1))
  moreover have "hframe ({a} \<union> set as) h h'"
    using hframe_trans [OF hframe_upd [of h a ob x, OF ob(2)] IH(3)] .
  ultimately show ?case using IH(2) by auto
qed

lemma chain_hframe:
  assumes "hframe S h h'" and "S \<inter> set as = {}" and "chain h p as"
  shows "chain h' p as"
proof (rule chain_cong [OF _ assms(3)])
  fix a assume "a \<in> set as"
  with assms(2) have "a \<notin> S" by auto
  with assms(1) show "map_option hash_next (h' a) = map_option hash_next (h a)"
    by (simp add: hframe_other)
qed

lemma copy_entries_correct:
  "list_all2 (chain h) ps ass \<Longrightarrow> distinct (concat ass) \<Longrightarrow> set (concat ass) \<inter> A = {} \<Longrightarrow>
    A \<subseteq> dom h \<Longrightarrow> buckets E h hp tbl A \<Longrightarrow>
    \<exists>h' tbl'. copy_entries E hp h tbl ps = Some (h', tbl')
      \<and> buckets E h' hp tbl' (A \<union> set (concat ass)) \<and> hframe (set (concat ass)) h h'"
proof (induction ass arbitrary: ps h tbl A)
  case Nil
  then show ?case by simp
next
  case (Cons as ass)
  from Cons.prems(1) obtain p qs where ps: "ps = p # qs" "chain h p as" "list_all2 (chain h) qs ass"
    by (cases ps) auto
  have d: "distinct as" "set as \<inter> A = {}" "distinct (concat ass)" "set as \<inter> set (concat ass) = {}"
    "set (concat ass) \<inter> A = {}"
    using Cons.prems(2,3) by auto
  from copy_chain_correct [OF ps(2) d(1,2) Cons.prems(4,5)] obtain h1 tbl1 where
    c: "copy_chain E hp h tbl p = Some (h1, tbl1)" "buckets E h1 hp tbl1 (A \<union> set as)"
    "hframe (set as) h h1" by blast
  have "chain h q bs \<Longrightarrow> bs \<in> set ass \<Longrightarrow> chain h1 q bs" for q bs
    by (rule chain_hframe [OF c(3)]) (use d(4) in auto)
  then have "list_all2 (chain h1) qs ass"
    using ps(3) by (auto simp: list_all2_conv_all_nth)
  moreover have "A \<union> set as \<subseteq> dom h1"
    using hframe_dom [OF c(3)] Cons.prems(4) chain_live [OF ps(2)] by auto
  moreover have "set (concat ass) \<inter> (A \<union> set as) = {}" using d by auto
  ultimately obtain h' tbl' where IH: "copy_entries E hp h1 tbl1 qs = Some (h', tbl')"
    "buckets E h' hp tbl' (A \<union> set as \<union> set (concat ass))" "hframe (set (concat ass)) h1 h'"
    using Cons.IH [OF _ d(3) _ _ c(2)] by blast
  then show ?case
    using ps(1) c(1) hframe_trans [OF c(3) IH(3)] by (simp add: Un_assoc)
qed

lemma table_chains:
  assumes "buckets E h hp tbl A"
  shows "\<exists>ass. list_all2 (chain h) tbl ass \<and> distinct (concat ass) \<and> set (concat ass) = A"
proof -
  define f where "f i = (SOME as. chain h (tbl ! i) as \<and> set as = {a \<in> A. obj_index E hp h a = i})" for i
  have f: "chain h (tbl ! i) (f i)" "set (f i) = {a \<in> A. obj_index E hp h a = i}"
    if "i < hashsize hp" for i
    using assms that someI_ex [of "\<lambda>as. chain h (tbl ! i) as \<and> set as = {a \<in> A. obj_index E hp h a = i}"]
    by (auto simp: f_def buckets_def)
  let ?ass = "map f [0..<hashsize hp]"
  have "list_all2 (chain h) tbl ?ass"
    using f(1) buckets_length [OF assms] by (simp add: list_all2_conv_all_nth)
  moreover have "distinct (concat ?ass)"
  proof -
    have "distinct (concat (map f [0..<n]))" if "n \<le> hashsize hp" for n
      using that
    proof (induction n)
      case (Suc n)
      have "distinct (f n)" using f(1) [of n] Suc.prems by (auto dest: chain_distinct)
      moreover have "set (f m) \<inter> set (f n) = {}" if "m < n" for m
        using f(2) [of m] f(2) [of n] that Suc.prems by auto
      ultimately show ?case using Suc by (auto simp: disjoint_iff)
    qed simp
    then show ?thesis by blast
  qed
  moreover have "set (concat ?ass) = A"
  proof -
    have "set (concat ?ass) = (\<Union>i < hashsize hp. {a \<in> A. obj_index E hp h a = i})"
      using f(2) by auto
    also have "\<dots> = A" using obj_index_less by auto
    finally show ?thesis .
  qed
  ultimately show ?thesis by blast
qed

subsection \<open>The contract of the table\<close>

lemma table_okD:
  assumes "table_ok E W h ht A"
  shows "finite A" "A \<subseteq> dom h" "inj_on (\<lambda>a. obj_id (the (h a))) A"
    "(\<lambda>a. obj_id (the (h a))) ` A \<subseteq> fst W" "snd W \<le> hashpower ht" "ht_n_obj ht = card A"
    "\<not> external_obj ht" "buckets E h (hashpower ht) (ptr_table ht) A"
  using assms by (simp_all add: table_ok_def)

lemma table_ok_cong:
  assumes "table_ok E W h ht A"
    and "\<And>a. a \<in> A \<Longrightarrow> map_option (\<lambda>ob. (hash_next ob, obj_id ob)) (h' a)
       = map_option (\<lambda>ob. (hash_next ob, obj_id ob)) (h a)"
  shows "table_ok E W h' ht A"
proof -
  note ok = table_okD [OF assms(1)]
  have live: "\<exists>ob ob'. h a = Some ob \<and> h' a = Some ob' \<and> obj_id ob' = obj_id ob" if "a \<in> A" for a
    using assms(2) [OF that] ok(2) that by (force dest: map_option_eq_SomeD)
  then have ids: "obj_id (the (h' a)) = obj_id (the (h a))" if "a \<in> A" for a using that by force
  have "inj_on (\<lambda>a. obj_id (the (h' a))) A" using ok(3) ids by (simp add: inj_on_def)
  moreover have "(\<lambda>a. obj_id (the (h' a))) ` A \<subseteq> fst W" using ok(4) ids by auto
  moreover have "A \<subseteq> dom h'" using live by blast
  moreover have "buckets E h' (hashpower ht) (ptr_table ht) A"
    by (rule buckets_cong [OF ok(8)]) (use assms(2) ok(2) in auto)
  ultimately show ?thesis using ok by (simp add: table_ok_def)
qed

lemma spread_small:
  assumes "finite (fst W)" and "card (fst W) \<le> 65"
  shows "spread E W"
proof -
  have "card {x \<in> fst W. hash_index E hp x = i} \<le> card (fst W)" for hp i
    by (rule card_mono [OF assms(1)]) auto
  then show ?thesis using assms order_trans unfolding spread_def by fastforce
qed

lemma create_table_ok:
  "snd W \<le> hp \<Longrightarrow> table_ok E W h (create_chained_hashtable_v2 hp) {}"
  by (simp add: table_ok_def create_chained_hashtable_v2_def buckets_empty)

lemma find_obj_id_correct:
  assumes "table_ok E W h ht A"
  shows "chained_hashtable_find_obj_id_v2 E h ht i =
    Some (if \<exists>a \<in> A. obj_id (the (h a)) = i
          then Some (THE a. a \<in> A \<and> obj_id (the (h a)) = i) else NULL)"
proof -
  note ok = table_okD [OF assms]
  let ?hv = "hash_index E (hashpower ht) i"
  have hv: "?hv < hashsize (hashpower ht)" by (rule hash_index_less)
  obtain as where as: "chain h (ptr_table ht ! ?hv) as"
    "set as = {a \<in> A. obj_index E (hashpower ht) h a = ?hv}"
    using ok(8) hv by (rule buckets_chain)
  have mem: "a \<in> set as \<longleftrightarrow> a \<in> A" if "obj_id (the (h a)) = i" for a
    using that as(2) by (simp add: obj_index_def)
  have "chained_hashtable_find_obj_id_v2 E h ht i
      = Some (find (\<lambda>a. obj_id (the (h a)) = i) as)"
    using find_in_chain_correct [OF as(1)] hv buckets_length [OF ok(8)]
    by (simp add: chained_hashtable_find_obj_id_v2_def Let_def)
  moreover have "find (\<lambda>a. obj_id (the (h a)) = i) as =
    (if \<exists>a \<in> A. obj_id (the (h a)) = i
     then Some (THE a. a \<in> A \<and> obj_id (the (h a)) = i) else NULL)"
  proof (cases "find (\<lambda>a. obj_id (the (h a)) = i) as")
    case None
    with mem show ?thesis by (auto simp: find_None_iff)
  next
    case (Some a)
    then have a: "a \<in> set as" "obj_id (the (h a)) = i" by (auto simp: find_Some_iff)
    with mem have "a \<in> A" by simp
    moreover have "(THE a. a \<in> A \<and> obj_id (the (h a)) = i) = a"
      using \<open>a \<in> A\<close> a(2) ok(3) by (intro the_equality) (auto dest: inj_onD)
    ultimately show ?thesis using Some a(2) by auto
  qed
  ultimately show ?thesis by simp
qed

lemma find_hit:
  assumes "table_ok E W h ht A" and "a \<in> A" and "obj_id (the (h a)) = i"
  shows "chained_hashtable_find_obj_id_v2 E h ht i = Some (Some a)"
proof -
  have "(THE a. a \<in> A \<and> obj_id (the (h a)) = i) = a"
    using assms(2,3) table_okD(3) [OF assms(1)] by (intro the_equality) (auto dest: inj_onD)
  then show ?thesis using assms find_obj_id_correct [OF assms(1)] by auto
qed

lemma find_miss:
  "table_ok E W h ht A \<Longrightarrow> \<forall>a \<in> A. obj_id (the (h a)) \<noteq> i \<Longrightarrow>
     chained_hashtable_find_obj_id_v2 E h ht i = Some NULL"
  by (auto simp: find_obj_id_correct)

lemma table_ok_rehash:
  assumes "table_ok E W h ht A" and "snd W \<le> hp'"
    and "copy_entries E hp' h (replicate (hashsize hp') NULL) (ptr_table ht) = Some (h', tbl')"
    and "buckets E h' hp' tbl' A" and "hframe A h h'"
  shows "table_ok E W h' (ht\<lparr>hashpower := hp', ptr_table := tbl'\<rparr>) A"
proof -
  note ok = table_okD [OF assms(1)]
  have ids: "obj_id (the (h' a)) = obj_id (the (h a))" if "a \<in> A" for a
    using hframe_the [where f = obj_id and a = a, OF assms(5)] that ok(2) by auto
  have "inj_on (\<lambda>a. obj_id (the (h' a))) A" using ok(3) ids by (simp add: inj_on_def)
  moreover have "(\<lambda>a. obj_id (the (h' a))) ` A \<subseteq> fst W" using ok(4) ids by auto
  moreover have "A \<subseteq> dom h'" using ok(2) hframe_dom [OF assms(5)] by simp
  ultimately show ?thesis using ok assms(2,4) by (simp add: table_ok_def)
qed

lemma rehash_correct:
  assumes "table_ok E W h ht A" and "snd W \<le> hp'"
  shows "\<exists>h' tbl'. copy_entries E hp' h (replicate (hashsize hp') NULL) (ptr_table ht) = Some (h', tbl')
    \<and> table_ok E W h' (ht\<lparr>hashpower := hp', ptr_table := tbl'\<rparr>) A \<and> hframe A h h'"
proof -
  from table_chains [OF table_okD(8) [OF assms(1)]] obtain ass where
    ass: "list_all2 (chain h) (ptr_table ht) ass" "distinct (concat ass)" "set (concat ass) = A"
    by blast
  have "set (concat ass) \<inter> {} = {}" "{} \<subseteq> dom h" by simp_all
  from copy_entries_correct [OF ass(1,2) this buckets_empty [of E h hp']] obtain h' tbl' where
    "copy_entries E hp' h (replicate (hashsize hp') NULL) (ptr_table ht) = Some (h', tbl')"
    "buckets E h' hp' tbl' A" "hframe A h h'"
    using ass(3) by auto
  with table_ok_rehash [OF assms] show ?thesis by blast
qed

lemma expand_correct:
  assumes "table_ok E W h ht A"
  shows "\<exists>h' ht'. chained_hashtable_expand_v2 E h ht = Some (h', ht')
    \<and> table_ok E W h' ht' A \<and> hframe A h h' \<and> hashpower ht' = Suc (hashpower ht)"
proof -
  have "snd W \<le> Suc (hashpower ht)" using table_okD(5) [OF assms] by simp
  from rehash_correct [OF assms this] buckets_length [OF table_okD(8) [OF assms]] show ?thesis
    by (fastforce simp: chained_hashtable_expand_v2_def Let_def)
qed

lemma shrink_correct:
  assumes "table_ok E W h ht A" and "snd W < hashpower ht"
  shows "\<exists>h' ht'. chained_hashtable_shrink_v2 E h ht = Some (h', ht')
    \<and> table_ok E W h' ht' A \<and> hframe A h h' \<and> hashpower ht' = hashpower ht - 1"
proof -
  have "snd W \<le> hashpower ht - 1" using assms(2) by simp
  from rehash_correct [OF assms(1) this] buckets_length [OF table_okD(8) [OF assms(1)]] assms(2)
  show ?thesis
    by (fastforce simp: chained_hashtable_shrink_v2_def Let_def)
qed

text \<open>Linking one more object into a table.\<close>

lemma table_ok_add:
  assumes "table_ok E W h ht A" and "h a = Some ob" and "a \<notin> A" and "hash_next ob = NULL"
    and "obj_id ob \<in> fst W" and "\<forall>b \<in> A. obj_id (the (h b)) \<noteq> obj_id ob"
  shows "\<exists>x tbl'. add_to_table E (hashpower ht) h (ptr_table ht) (Some a)
      = Some (h(a \<mapsto> ob\<lparr>hash_next := x\<rparr>), tbl')
    \<and> table_ok E W (h(a \<mapsto> ob\<lparr>hash_next := x\<rparr>))
        (ht\<lparr>ptr_table := tbl', ht_n_obj := ht_n_obj ht + 1\<rparr>) (insert a A)"
proof -
  note ok = table_okD [OF assms(1)]
  from add_to_table_correct [OF ok(8) assms(3,2,4)] obtain x tbl' where
    add: "add_to_table E (hashpower ht) h (ptr_table ht) (Some a)
      = Some (h(a \<mapsto> ob\<lparr>hash_next := x\<rparr>), tbl')"
    and b: "buckets E (h(a \<mapsto> ob\<lparr>hash_next := x\<rparr>)) (hashpower ht) tbl' (insert a A)" by blast
  have "inj_on (\<lambda>c. obj_id (the ((h(a \<mapsto> ob\<lparr>hash_next := x\<rparr>)) c))) (insert a A)"
    using ok(3) assms(3,6) by (auto simp: inj_on_def)
  moreover have "(\<lambda>c. obj_id (the ((h(a \<mapsto> ob\<lparr>hash_next := x\<rparr>)) c))) ` insert a A \<subseteq> fst W"
    using ok(4) assms(5) by auto
  moreover have "card (insert a A) = card A + 1" using ok(1) assms(3) by simp
  ultimately show ?thesis using add b ok assms(2)
    by (auto simp: table_ok_def)
qed

lemma insert_correct:
  assumes "table_ok E W h ht A" and "brk \<notin> dom h" and "req_obj_id req \<in> fst W"
    and "\<forall>b \<in> A. obj_id (the (h b)) \<noteq> req_obj_id req"
  shows "\<exists>h' ht' ob. chained_hashtable_insert_v2 E h brk ht req = Some (h', Suc brk, ht', Some brk)
    \<and> table_ok E W h' ht' (insert brk A) \<and> h' brk = Some ob
    \<and> nohash ob = copy_request_to_cache_obj (support_ttl E) zero_obj req
    \<and> hframe A h (h'(brk := None))"
proof -
  let ?new = "copy_request_to_cache_obj (support_ttl E) zero_obj req"
  let ?big = "ht_n_obj ht > hashsize (hashpower ht) * CHAINED_HASHTABLE_EXPAND_THRESHOLD"
  obtain h1 ht1 where ex: "(if ?big then chained_hashtable_expand_v2 E h ht else Some (h, ht)) = Some (h1, ht1)"
    and ok1: "table_ok E W h1 ht1 A" and fr: "hframe A h h1"
    using expand_correct [OF assms(1)] assms(1) by (cases ?big) auto
  have new: "obj_id ?new = req_obj_id req" "hash_next ?new = NULL" "nohash ?new = ?new"
    by (simp_all add: copy_request_to_cache_obj_def zero_obj_def nohash_def Let_def)
  have brk: "brk \<notin> A" "brk \<notin> dom h1"
    using assms(2) table_okD(2) [OF assms(1)] hframe_dom [OF fr] by auto
  let ?h2 = "h1(brk \<mapsto> ?new)"
  have ok2: "table_ok E W ?h2 ht1 A"
    by (rule table_ok_cong [OF ok1]) (use brk(1) in auto)
  have ids: "\<forall>b \<in> A. obj_id (the (?h2 b)) \<noteq> obj_id ?new"
    using assms(4) hframe_the [where f = obj_id, OF fr] table_okD(2) [OF assms(1)] brk(1) new(1)
    by (metis fun_upd_other nohash_simps(1) subsetD)
  have n2: "?h2 brk = Some ?new" by simp
  have idW: "obj_id ?new \<in> fst W" using assms(3) new(1) by simp
  obtain x tbl' where add: "add_to_table E (hashpower ht1) ?h2 (ptr_table ht1) (Some brk)
      = Some (h1(brk \<mapsto> ?new\<lparr>hash_next := x\<rparr>), tbl')"
    and ok3: "table_ok E W (h1(brk \<mapsto> ?new\<lparr>hash_next := x\<rparr>))
        (ht1\<lparr>ptr_table := tbl', ht_n_obj := ht_n_obj ht1 + 1\<rparr>) (insert brk A)"
    using table_ok_add [OF ok2 n2 brk(1) new(2) idW ids] unfolding fun_upd_upd by blast
  have "h1(brk := None) = h1" using brk(2) by (auto simp: fun_eq_iff domIff)
  with fr have "hframe A h ((h1(brk \<mapsto> ?new\<lparr>hash_next := x\<rparr>))(brk := None))" by simp
  then show ?thesis using ex add ok3 new(3)
    by (simp add: chained_hashtable_insert_v2_def create_cache_obj_from_request_def)
qed

text \<open>Unlinking the object \<open>a\<close> from the chain of its bucket and freeing it.\<close>

lemma buckets_unlink:
  assumes "buckets E h hp tbl A" and "A \<subseteq> dom h" and "a \<in> A" and "hv = obj_index E hp h a"
    and "chain h (tbl ! hv) (us @ a # vs)" and "hframe (set us) h h1" and "chain h1 p (us @ vs)"
  shows "buckets E (h1(a := None)) hp (tbl[hv := p]) (A - {a})"
  unfolding buckets_def
proof (intro conjI allI impI)
  have len: "length tbl = hashsize hp" by (rule buckets_length [OF assms(1)])
  have hv: "hv < hashsize hp" using assms(4) obj_index_less by simp
  obtain xs where xs: "chain h (tbl ! hv) xs" "set xs = {b \<in> A. obj_index E hp h b = hv}"
    using assms(1) hv by (rule buckets_chain)
  have eq: "xs = us @ a # vs" using xs(1) assms(5) by (rule chain_unique)
  have idx: "obj_index E hp (h1(a := None)) b = obj_index E hp h b" if "b \<in> A - {a}" for b
    using hframe_the [where f = obj_id and a = b, OF assms(6)] that subsetD [OF assms(2), of b]
    by (simp add: obj_index_def)
  show "length (tbl[hv := p]) = hashsize hp" by (simp add: len)
  fix i assume i: "i < hashsize hp"
  obtain as where as: "chain h (tbl ! i) as" "set as = {b \<in> A. obj_index E hp h b = i}"
    using assms(1) i by (rule buckets_chain)
  show "\<exists>as. chain (h1(a := None)) (tbl[hv := p] ! i) as
      \<and> set as = {b \<in> A - {a}. obj_index E hp (h1(a := None)) b = i}"
  proof (cases "i = hv")
    case True
    have d: "distinct (us @ a # vs)" using assms(5) by (rule chain_distinct)
    then have "chain (h1(a := None)) (tbl[hv := p] ! i) (us @ vs)"
      using assms(7) True i len by simp
    moreover have "set (us @ vs) = set xs - {a}" using eq d by auto
    moreover have "set xs - {a} = {b \<in> A - {a}. obj_index E hp (h1(a := None)) b = i}"
      using xs(2) True idx by (auto simp del: fun_upd_apply)
    ultimately show ?thesis by blast
  next
    case False
    have "set as \<inter> set xs = {}" using as(2) xs(2) False by auto
    then have "set us \<inter> set as = {}" "a \<notin> set as" using eq by auto
    then have "chain (h1(a := None)) (tbl[hv := p] ! i) as"
      using chain_hframe [OF assms(6) _ as(1)] False by simp
    moreover have "set as = {b \<in> A - {a}. obj_index E hp (h1(a := None)) b = i}"
      using as(2) idx False assms(4) by auto
    ultimately show ?thesis by blast
  qed
qed

lemma chain_short:
  assumes "spread E W" and "table_ok E W h ht A" and "i < hashsize (hashpower ht)"
    and "chain h (ptr_table ht ! i) as"
  shows "length as \<le> 65"
proof -
  note ok = table_okD [OF assms(2)]
  let ?B = "{x \<in> fst W. hash_index E (hashpower ht) x = i}"
  obtain bs where bs: "chain h (ptr_table ht ! i) bs"
    "set bs = {a \<in> A. obj_index E (hashpower ht) h a = i}"
    using ok(8) assms(3) by (rule buckets_chain)
  have "as = bs" using assms(4) bs(1) by (rule chain_unique)
  have inj: "inj_on (\<lambda>a. obj_id (the (h a))) (set bs)"
    using ok(3) bs(2) by (auto intro: inj_on_subset)
  have sub: "(\<lambda>a. obj_id (the (h a))) ` set bs \<subseteq> ?B"
    using ok(4) bs(2) by (auto simp: obj_index_def)
  have "length bs = card (set bs)" using chain_distinct [OF bs(1)] by (simp add: distinct_card)
  also have "\<dots> = card ((\<lambda>a. obj_id (the (h a))) ` set bs)" using inj by (simp add: card_image)
  also have "\<dots> \<le> card ?B" using sub assms(1) ok(5) by (auto simp: spread_def intro: card_mono)
  also have "\<dots> \<le> 65" using assms(1) ok(5) by (simp add: spread_def)
  finally show ?thesis using \<open>as = bs\<close> by simp
qed

lemma table_ok_unlink:
  assumes "table_ok E W h ht A" and "a \<in> A" and "buckets E (h1(a := None)) (hashpower ht) tbl (A - {a})"
    and "hframe A h h1"
  shows "table_ok E W (h1(a := None)) (ht\<lparr>ptr_table := tbl, ht_n_obj := ht_n_obj ht - 1\<rparr>) (A - {a})"
proof -
  note ok = table_okD [OF assms(1)]
  have ids: "obj_id (the ((h1(a := None)) b)) = obj_id (the (h b))" if "b \<in> A - {a}" for b
    using hframe_the [where f = obj_id and a = b, OF assms(4)] that ok(2) by auto
  have "inj_on (\<lambda>b. obj_id (the ((h1(a := None)) b))) (A - {a})"
    using ok(3) ids by (simp add: inj_on_def)
  moreover have "(\<lambda>b. obj_id (the ((h1(a := None)) b))) ` (A - {a}) \<subseteq> fst W"
    using ok(4) ids by auto
  moreover have "A - {a} \<subseteq> dom (h1(a := None))" using ok(2) hframe_dom [OF assms(4)] by auto
  ultimately show ?thesis using ok assms(2,3) by (simp add: table_ok_def card_Diff_singleton)
qed

lemma delete_correct:
  assumes "spread E W" and "table_ok E W h ht A" and "a \<in> A"
  shows "\<exists>h' ht'. chained_hashtable_delete_v2 E h ht (Some a) = Some (h', ht')
    \<and> table_ok E W h' ht' (A - {a}) \<and> h' a = None \<and> hframe (A - {a}) (h(a := None)) h'"
proof -
  note ok = table_okD [OF assms(2)]
  obtain ob where ob: "h a = Some ob" using ok(2) assms(3) by blast
  let ?hv = "obj_index E (hashpower ht) h a"
  have hv: "?hv < hashsize (hashpower ht)" by (rule obj_index_less)
  have ix: "hash_index E (hashpower ht) (obj_id ob) = ?hv" by (simp add: obj_index_def ob)
  have len: "length (ptr_table ht) = hashsize (hashpower ht)" by (rule buckets_length [OF ok(8)])
  obtain as where as: "chain h (ptr_table ht ! ?hv) as"
    "set as = {b \<in> A. obj_index E (hashpower ht) h b = ?hv}" "distinct as"
    using ok(8) hv by (rule buckets_chain)
  have "a \<in> set as" using as(2) assms(3) by simp
  then obtain us vs where us: "as = us @ a # vs" by (auto dest: split_list)
  have sub: "set us \<subseteq> A - {a}" using as us by auto
  show ?thesis
  proof (cases us rule: rev_cases)
    case Nil
    then have p: "ptr_table ht ! ?hv = Some a" "chain h (hash_next ob) vs"
      using as(1) us ob by auto
    have "buckets E (h(a := None)) (hashpower ht) ((ptr_table ht)[?hv := hash_next ob]) (A - {a})"
      by (rule buckets_unlink [OF ok(8) ok(2) assms(3) refl, of us vs h]) (use as(1) us p Nil in auto)
    from table_ok_unlink [OF assms(2,3) this] show ?thesis
      using p ob ok(7) len hv
      by (simp add: chained_hashtable_delete_v2_def Let_def ix free_cache_obj_def table_ok_def)
  next
    case (snoc ws c)
    obtain oc where oc: "h c = Some oc" using chain_live [OF as(1), of c] us snoc by auto
    let ?h1 = "h(c \<mapsto> oc\<lparr>hash_next := hash_next ob\<rparr>)"
    have d: "distinct (ws @ c # a # vs)" using as(3) us snoc by simp
    have ch: "chain h (ptr_table ht ! ?hv) (ws @ c # a # vs)" using as(1) us snoc by simp
    have ch1: "chain ?h1 (ptr_table ht ! ?hv) (us @ vs)"
      using chain_remove [OF ch ob oc d] snoc by simp
    have np: "ptr_table ht ! ?hv \<noteq> Some a" using ch d by (cases ws) auto
    have fr: "hframe {c} h ?h1" using oc by (rule hframe_upd)
    have "buckets E (?h1(a := None)) (hashpower ht) ((ptr_table ht)[?hv := ptr_table ht ! ?hv]) (A - {a})"
      by (rule buckets_unlink [OF ok(8) ok(2) assms(3) refl, of us vs])
        (use as(1) us ch1 snoc hframe_mono [OF fr] in auto)
    then have b: "buckets E (?h1(a := None)) (hashpower ht) (ptr_table ht) (A - {a})" by simp
    have "length as \<le> 65" using chain_short [OF assms(1,2) hv as(1)] .
    then have short: "\<not> 1 + length ws > 64" using us snoc by simp
    have "hframe (A - {a}) h ?h1" using sub snoc by (intro hframe_mono [OF fr]) auto
    then have "hframe A h ?h1" "hframe (A - {a}) (h(a := None)) (?h1(a := None))"
      by (auto simp: hframe_def)
    with table_ok_unlink [OF assms(2,3) b] np short find_pred_correct [OF ch d, of 1] ob oc ok(7) len hv
    show ?thesis
      by (simp add: chained_hashtable_delete_v2_def Let_def ix free_cache_obj_def)
  qed
qed

lemma find_pred_id_correct:
  "chain h p (c # as) \<Longrightarrow>
    find_pred_id h p i = Some (case dropWhile (\<lambda>a. obj_id (the (h a)) \<noteq> i) as of
       [] \<Rightarrow> (Some (last (c # as)), NULL)
     | a # _ \<Rightarrow> (Some (last (c # takeWhile (\<lambda>a. obj_id (the (h a)) \<noteq> i) as)), Some a))"
proof (induction as arbitrary: p c)
  case Nil
  then show ?case by (auto simp: find_pred_id.simps)
next
  case (Cons a as)
  then obtain oc oa where "p = Some c" "h c = Some oc" "hash_next oc = Some a" "h a = Some oa"
    "chain h (Some a) (a # as)" by auto
  with Cons.IH [of "Some a" a] show ?case
    by (subst find_pred_id.simps, cases "dropWhile (\<lambda>a. obj_id (the (h a)) \<noteq> i) as")
      (simp_all del: dropWhile_eq_Nil_conv takeWhile_eq_Nil_iff)
qed

lemma delete_obj_id_correct:
  assumes "table_ok E W h ht A" and "a \<in> A" and "obj_id (the (h a)) = i"
  shows "\<exists>h' ht'. chained_hashtable_delete_obj_id_v2 E h ht i = Some (h', ht', True)
    \<and> table_ok E W h' ht' (A - {a}) \<and> h' a = None \<and> hframe (A - {a}) (h(a := None)) h'"
proof -
  note ok = table_okD [OF assms(1)]
  obtain ob where ob: "h a = Some ob" using ok(2) assms(2) by blast
  let ?hv = "obj_index E (hashpower ht) h a"
  have hv: "?hv < hashsize (hashpower ht)" by (rule obj_index_less)
  have ix: "hash_index E (hashpower ht) i = ?hv" by (simp add: obj_index_def assms(3))
  have len: "length (ptr_table ht) = hashsize (hashpower ht)" by (rule buckets_length [OF ok(8)])
  obtain as where as: "chain h (ptr_table ht ! ?hv) as"
    "set as = {b \<in> A. obj_index E (hashpower ht) h b = ?hv}" "distinct as"
    using ok(8) hv by (rule buckets_chain)
  have "a \<in> set as" using as(2) assms(2) by simp
  then obtain us vs where us: "as = us @ a # vs" by (auto dest: split_list)
  have sub: "set us \<subseteq> A - {a}" using as us by auto
  then have ids: "obj_id (the (h b)) \<noteq> i" if "b \<in> set us" for b
    using ok(3) assms(2,3) that by (auto dest: inj_onD)
  show ?thesis
  proof (cases us)
    case Nil
    then have p: "ptr_table ht ! ?hv = Some a" "chain h (hash_next ob) vs"
      using as(1) us ob by auto
    have "buckets E (h(a := None)) (hashpower ht) ((ptr_table ht)[?hv := hash_next ob]) (A - {a})"
      by (rule buckets_unlink [OF ok(8) ok(2) assms(2) refl, of us vs h]) (use as(1) us p Nil in auto)
    from table_ok_unlink [OF assms(1,2) this] show ?thesis
      using p ob ok(7) len hv assms(3)
      by (simp add: chained_hashtable_delete_obj_id_v2_def Let_def ix free_cache_obj_def)
  next
    case (Cons b ws)
    let ?c = "last us"
    obtain zs where zs: "us = zs @ [?c]" using Cons by (metis append_butlast_last_id list.discI)
    obtain oc where oc: "h ?c = Some oc" using chain_live [OF as(1), of ?c] us zs
      by (metis UnI1 in_set_conv_decomp set_append)
    obtain obb where obb: "h b = Some obb" "ptr_table ht ! ?hv = Some b"
      using as(1) us Cons by auto
    let ?h1 = "h(?c \<mapsto> oc\<lparr>hash_next := hash_next ob\<rparr>)"
    have d: "distinct (zs @ ?c # a # vs)" using as(3) us zs by (metis append.assoc append_Cons append_Nil)
    have ch: "chain h (ptr_table ht ! ?hv) (zs @ ?c # a # vs)"
      using as(1) us zs by (metis append.assoc append_Cons append_Nil)
    have ch1: "chain ?h1 (ptr_table ht ! ?hv) (us @ vs)"
      using chain_remove [OF ch ob oc d] zs by (metis append.assoc append_Cons append_Nil)
    have fr: "hframe {?c} h ?h1" using oc by (rule hframe_upd)
    have cin: "?c \<in> set us" using Cons by simp
    have "buckets E (?h1(a := None)) (hashpower ht) ((ptr_table ht)[?hv := ptr_table ht ! ?hv]) (A - {a})"
      by (rule buckets_unlink [OF ok(8) ok(2) assms(2) refl, of us vs])
        (use as(1) us ch1 cin hframe_mono [OF fr, of "set us"] in auto)
    then have b: "buckets E (?h1(a := None)) (hashpower ht) (ptr_table ht) (A - {a})" by simp
    have "hframe (A - {a}) h ?h1" using sub cin by (intro hframe_mono [OF fr]) auto
    then have h1: "hframe A h ?h1" and h2: "hframe (A - {a}) (h(a := None)) (?h1(a := None))"
      by (auto simp: hframe_def)
    have bs: "obj_id obb \<noteq> i" using ids [of b] Cons obb by simp
    have tw: "takeWhile (\<lambda>a. obj_id (the (h a)) \<noteq> i) (ws @ a # vs) = ws"
      "dropWhile (\<lambda>a. obj_id (the (h a)) \<noteq> i) (ws @ a # vs) = a # vs"
      using ids Cons assms(3) by (auto simp: takeWhile_append dropWhile_append)
    have "chain h (Some b) (b # ws @ a # vs)" using as(1) us Cons obb by simp
    from find_pred_id_correct [OF this, of i] have "find_pred_id h (Some b) i = Some (Some ?c, Some a)"
      using tw Cons by simp
    with table_ok_unlink [OF assms(1,2) b h1] h2 bs obb ob oc ok(7) len hv show ?thesis
      by (simp add: chained_hashtable_delete_obj_id_v2_def Let_def ix free_cache_obj_def)
  qed
qed

lemma delete_obj_id_absent:
  assumes "table_ok E W h ht A" and "\<forall>a \<in> A. obj_id (the (h a)) \<noteq> i"
  shows "chained_hashtable_delete_obj_id_v2 E h ht i = Some (h, ht, False)"
proof -
  note ok = table_okD [OF assms(1)]
  let ?hv = "hash_index E (hashpower ht) i"
  have hv: "?hv < hashsize (hashpower ht)" by (rule hash_index_less)
  obtain as where as: "chain h (ptr_table ht ! ?hv) as"
    "set as = {b \<in> A. obj_index E (hashpower ht) h b = ?hv}"
    using ok(8) hv by (rule buckets_chain)
  show ?thesis
  proof (cases as)
    case Nil
    with as(1) hv buckets_length [OF ok(8)] show ?thesis
      by (simp add: chained_hashtable_delete_obj_id_v2_def Let_def)
  next
    case (Cons b bs)
    have ids: "obj_id (the (h c)) \<noteq> i" if "c \<in> set as" for c using as(2) assms(2) that by auto
    then have dw: "dropWhile (\<lambda>a. obj_id (the (h a)) \<noteq> i) bs = []" using Cons by simp
    have ch: "chain h (ptr_table ht ! ?hv) (b # bs)" using as(1) Cons by simp
    from find_pred_id_correct [OF this, of i] dw have
      "find_pred_id h (ptr_table ht ! ?hv) i = Some (Some (last (b # bs)), NULL)" by simp
    with ch ids [of b] Cons hv buckets_length [OF ok(8)] show ?thesis
      by (auto simp: chained_hashtable_delete_obj_id_v2_def Let_def)
  qed
qed

lemma try_delete_present:
  assumes "table_ok E W h ht A" and "a \<in> A"
  shows "\<exists>h' ht'. chained_hashtable_try_delete_v2 E h ht (Some a) = Some (h', ht', True)
    \<and> table_ok E W h' ht' (A - {a}) \<and> h' a = None"
proof -
  note ok = table_okD [OF assms(1)]
  obtain ob where ob: "h a = Some ob" using ok(2) assms(2) by blast
  let ?hv = "obj_index E (hashpower ht) h a"
  have hv: "?hv < hashsize (hashpower ht)" by (rule obj_index_less)
  have ix: "hash_index E (hashpower ht) (obj_id ob) = ?hv" by (simp add: obj_index_def ob)
  have len: "length (ptr_table ht) = hashsize (hashpower ht)" by (rule buckets_length [OF ok(8)])
  obtain as where as: "chain h (ptr_table ht ! ?hv) as"
    "set as = {b \<in> A. obj_index E (hashpower ht) h b = ?hv}" "distinct as"
    using ok(8) hv by (rule buckets_chain)
  have "a \<in> set as" using as(2) assms(2) by simp
  then obtain us vs where us: "as = us @ a # vs" by (auto dest: split_list)
  have sub: "set us \<subseteq> A - {a}" using as us by auto
  show ?thesis
  proof (cases us rule: rev_cases)
    case Nil
    then have p: "ptr_table ht ! ?hv = Some a" "chain h (hash_next ob) vs"
      using as(1) us ob by auto
    have "buckets E (h(a := None)) (hashpower ht) ((ptr_table ht)[?hv := hash_next ob]) (A - {a})"
      by (rule buckets_unlink [OF ok(8) ok(2) assms(2) refl, of us vs h]) (use as(1) us p Nil in auto)
    from table_ok_unlink [OF assms this] show ?thesis
      using p ob ok(7) len hv
      by (simp add: chained_hashtable_try_delete_v2_def Let_def ix free_cache_obj_def)
  next
    case (snoc ws c)
    obtain oc where oc: "h c = Some oc" using chain_live [OF as(1), of c] us snoc by auto
    let ?h1 = "h(c \<mapsto> oc\<lparr>hash_next := hash_next ob\<rparr>)"
    have d: "distinct (ws @ c # a # vs)" using as(3) us snoc by simp
    have ch: "chain h (ptr_table ht ! ?hv) (ws @ c # a # vs)" using as(1) us snoc by simp
    have ch1: "chain ?h1 (ptr_table ht ! ?hv) (us @ vs)"
      using chain_remove [OF ch ob oc d] snoc by simp
    have np: "ptr_table ht ! ?hv \<noteq> Some a" using ch d by (cases ws) auto
    have fr: "hframe {c} h ?h1" using oc by (rule hframe_upd)
    have "buckets E (?h1(a := None)) (hashpower ht) ((ptr_table ht)[?hv := ptr_table ht ! ?hv]) (A - {a})"
      by (rule buckets_unlink [OF ok(8) ok(2) assms(2) refl, of us vs])
        (use as(1) us ch1 snoc hframe_mono [OF fr] in auto)
    then have b: "buckets E (?h1(a := None)) (hashpower ht) (ptr_table ht) (A - {a})" by simp
    have "hframe A h ?h1" using sub snoc by (intro hframe_mono [OF fr]) auto
    with table_ok_unlink [OF assms b] np find_pred_correct [OF ch d, of 1] ob oc ok(7) len hv
    show ?thesis
      by (simp add: chained_hashtable_try_delete_v2_def Let_def ix free_cache_obj_def)
  qed
qed

text \<open>The diagnostic overruns its array of 64 ids on every longer chain.\<close>

lemma count_n_obj_overrun:
  "chain h p as \<Longrightarrow> length arr + length as > 64 \<Longrightarrow> length arr \<le> 64 \<Longrightarrow>
     count_n_obj_in_bucket h p arr = None"
proof (induction as arbitrary: p arr)
  case (Cons a as)
  then obtain ob where "p = Some a" "h a = Some ob" "chain h (hash_next ob) as" by auto
  with Cons.IH [of "hash_next ob" "arr @ [obj_id ob]"] Cons.prems(2) show ?case
    by (subst count_n_obj_in_bucket.simps) simp
qed simp

lemma count_n_obj_in_bucket_exact:
  "chain h p as \<Longrightarrow> length arr + length as \<le> 64 \<Longrightarrow>
   distinct (arr @ map (\<lambda>a. obj_id (the (h a))) as) \<Longrightarrow>
     count_n_obj_in_bucket h p arr = Some (length arr + length as)"
proof (induction as arbitrary: p arr)
  case (Cons a as)
  then obtain ob where "p = Some a" "h a = Some ob" "chain h (hash_next ob) as" by auto
  with Cons.IH [of "hash_next ob" "arr @ [obj_id ob]"] Cons.prems(2,3) show ?case
    by (subst count_n_obj_in_bucket.simps) auto
qed (simp add: count_n_obj_in_bucket.simps)

lemma print_distribution_overrun:
  "p \<in> set tbl \<Longrightarrow> count_n_obj_in_bucket h p [] = None \<Longrightarrow>
     print_hashbucket_item_distribution h tbl = None"
  by (induction tbl) (auto simp: bind_eq_None_conv)

section \<open>The table as the cache sees it\<close>

text \<open>
  What \<open>cache.c\<close> relies on, whatever the table's representation: lookups by id, insertion of a
  fresh object, deletion of a live one, over an invariant that names the live objects.
\<close>

locale object_table =
  fixes find_op :: "'h \<Rightarrow> 't \<Rightarrow> obj_id_t \<Rightarrow> ptr option"
    and insert_op :: "'h \<Rightarrow> addr \<Rightarrow> 't \<Rightarrow> request \<Rightarrow> ('h \<times> addr \<times> 't \<times> ptr) option"
    and delete_op :: "'h \<Rightarrow> 't \<Rightarrow> ptr \<Rightarrow> ('h \<times> 't) option"
    and inv :: "'h \<Rightarrow> 't \<Rightarrow> addr set \<Rightarrow> bool"
    and id_of :: "'h \<Rightarrow> addr \<Rightarrow> obj_id_t"
    and fresh :: "'h \<Rightarrow> addr \<Rightarrow> bool"
    and admissible :: "obj_id_t \<Rightarrow> bool"
  assumes lookup_present: "inv h t A \<Longrightarrow> a \<in> A \<Longrightarrow> find_op h t (id_of h a) = Some (Some a)"
    and lookup_absent: "inv h t A \<Longrightarrow> i \<notin> id_of h ` A \<Longrightarrow> find_op h t i = Some NULL"
    and insert_law: "inv h t A \<Longrightarrow> fresh h b \<Longrightarrow> req_obj_id req \<notin> id_of h ` A \<Longrightarrow>
        admissible (req_obj_id req) \<Longrightarrow>
        \<exists>h' t'. insert_op h b t req = Some (h', Suc b, t', Some b) \<and> inv h' t' (insert b A)
          \<and> id_of h' b = req_obj_id req \<and> (\<forall>a \<in> A. id_of h' a = id_of h a) \<and> b \<notin> A"
    and delete_law: "inv h t A \<Longrightarrow> a \<in> A \<Longrightarrow>
        \<exists>h' t'. delete_op h t (Some a) = Some (h', t') \<and> inv h' t' (A - {a})
          \<and> (\<forall>b \<in> A - {a}. id_of h' b = id_of h b)"
    and ids_distinct: "inv h t A \<Longrightarrow> inj_on (id_of h) A"
begin

lemma lookup_iff:
  assumes "inv h t A"
  shows "find_op h t i = Some NULL \<longleftrightarrow> i \<notin> id_of h ` A"
  using lookup_present [OF assms] lookup_absent [OF assms] by force

lemma lookup_after_insert:
  assumes "inv h t A" and "fresh h b" and "req_obj_id req \<notin> id_of h ` A"
    and "admissible (req_obj_id req)"
  shows "\<exists>h' t'. insert_op h b t req = Some (h', Suc b, t', Some b) \<and> inv h' t' (insert b A)
    \<and> find_op h' t' (req_obj_id req) = Some (Some b)
    \<and> (\<forall>i. i \<noteq> req_obj_id req \<longrightarrow> find_op h' t' i = find_op h t i)"
proof -
  from insert_law [OF assms] obtain h' t' where
    ins: "insert_op h b t req = Some (h', Suc b, t', Some b)" "inv h' t' (insert b A)"
    and idb: "id_of h' b = req_obj_id req" and ids: "\<forall>a \<in> A. id_of h' a = id_of h a" by blast
  have "find_op h' t' (req_obj_id req) = Some (Some b)"
    using lookup_present [OF ins(2), of b] idb by simp
  moreover have "find_op h' t' i = find_op h t i" if "i \<noteq> req_obj_id req" for i
  proof (cases "i \<in> id_of h ` A")
    case True
    then obtain a where a: "a \<in> A" "i = id_of h a" by blast
    have "find_op h' t' (id_of h' a) = Some (Some a)"
      by (rule lookup_present [OF ins(2)]) (simp add: a)
    moreover have "find_op h t i = Some (Some a)"
      unfolding a(2) by (rule lookup_present [OF assms(1) a(1)])
    ultimately show ?thesis using a ids by simp
  next
    case False
    then have "i \<notin> id_of h' ` insert b A" using ids idb that by auto
    then show ?thesis using lookup_absent [OF assms(1) False] lookup_absent [OF ins(2)] by simp
  qed
  ultimately show ?thesis using ins by blast
qed

lemma lookup_after_delete:
  assumes "inv h t A" and "a \<in> A"
  shows "\<exists>h' t'. delete_op h t (Some a) = Some (h', t') \<and> inv h' t' (A - {a})
    \<and> find_op h' t' (id_of h a) = Some NULL
    \<and> (\<forall>i. i \<noteq> id_of h a \<longrightarrow> find_op h' t' i = find_op h t i)"
proof -
  from delete_law [OF assms] obtain h' t' where
    del: "delete_op h t (Some a) = Some (h', t')" "inv h' t' (A - {a})"
    and ids: "\<forall>b \<in> A - {a}. id_of h' b = id_of h b" by blast
  have img: "id_of h' ` (A - {a}) = id_of h ` A - {id_of h a}"
  proof -
    have "id_of h' ` (A - {a}) = id_of h ` (A - {a})" using ids by (auto simp: image_iff)
    also have "\<dots> = id_of h ` A - {id_of h a}"
      using ids_distinct [OF assms(1)] assms(2) by (auto simp: inj_on_def)
    finally show ?thesis .
  qed
  have "find_op h' t' (id_of h a) = Some NULL"
    by (rule lookup_absent [OF del(2)]) (simp add: img)
  moreover have "find_op h' t' i = find_op h t i" if "i \<noteq> id_of h a" for i
  proof (cases "i \<in> id_of h ` A")
    case True
    then obtain b where b: "b \<in> A" "i = id_of h b" by blast
    with that have ba: "b \<in> A - {a}" by blast
    have "find_op h' t' (id_of h' b) = Some (Some b)"
      by (rule lookup_present [OF del(2) ba])
    moreover have "find_op h t i = Some (Some b)"
      unfolding b(2) by (rule lookup_present [OF assms(1) b(1)])
    ultimately show ?thesis using b ba ids by simp
  next
    case False
    then show ?thesis using lookup_absent [OF assms(1) False] lookup_absent [OF del(2), of i] img by simp
  qed
  ultimately show ?thesis using del by blast
qed

end

text \<open>The chained table of the repository is such a table, for every hash function that spreads.\<close>

definition chained_inv :: "env \<Rightarrow> trace_ids \<Rightarrow> heap \<Rightarrow> hashtable_t \<Rightarrow> addr set \<Rightarrow> bool" where
  "chained_inv E W h ht A \<longleftrightarrow> spread E W \<and> table_ok E W h ht A"

interpretation chained: object_table "chained_hashtable_find_obj_id_v2 E"
  "chained_hashtable_insert_v2 E" "chained_hashtable_delete_v2 E" "chained_inv E W"
  "\<lambda>h a. obj_id (the (h a))" "\<lambda>h b. b \<notin> dom h" "\<lambda>i. i \<in> fst W"
  for E W
proof (unfold_locales, unfold chained_inv_def, goal_cases)
  case (1 h t A a)
  then show ?case by (auto intro: find_hit)
next
  case (2 h t A i)
  then show ?case by (intro find_miss) (auto simp: image_iff)
next
  case (3 h t A b req)
  then have ok: "table_ok E W h t A" by simp
  from 3 have "\<forall>b \<in> A. obj_id (the (h b)) \<noteq> req_obj_id req" by force
  from insert_correct [OF ok 3(2,4) this] obtain h' ht' ob where
    i: "chained_hashtable_insert_v2 E h b t req = Some (h', Suc b, ht', Some b)"
    "table_ok E W h' ht' (insert b A)" "h' b = Some ob"
    "nohash ob = copy_request_to_cache_obj (support_ttl E) zero_obj req"
    "hframe A h (h'(b := None))" by blast
  have "b \<notin> A" using table_okD(2) [OF ok] 3(2) by blast
  moreover have "obj_id (the (h' b)) = req_obj_id req"
    using i(3) arg_cong [OF i(4), of obj_id]
    by (simp add: copy_request_to_cache_obj_def Let_def)
  moreover have "obj_id (the (h' a)) = obj_id (the (h a))" if "a \<in> A" for a
    using hframe_the [where f = obj_id and a = a, OF i(5)] subsetD [OF table_okD(2) [OF ok] that]
      \<open>b \<notin> A\<close> that by (metis fun_upd_other nohash_simps(1))
  ultimately show ?case using i(1,2) 3(1) by blast
next
  case (4 h t A a)
  then have ok: "table_ok E W h t A" and sp: "spread E W" by simp_all
  from delete_correct [OF sp ok 4(2)] obtain h' ht' where
    d: "chained_hashtable_delete_v2 E h t (Some a) = Some (h', ht')" "table_ok E W h' ht' (A - {a})"
    "hframe (A - {a}) (h(a := None)) h'" by blast
  have "obj_id (the (h' b)) = obj_id (the (h b))" if "b \<in> A - {a}" for b
    using hframe_the [where f = obj_id and a = b, OF d(3)] that table_okD(2) [OF ok] by auto
  with d sp show ?case by blast
next
  case (5 h t A)
  then show ?case by (blast intro: table_okD(3))
qed

section \<open>Properties\<close>

text \<open>
  C17: after the insertion of a new object, which may expand the table, a lookup of its id finds
  that object and every other lookup answers as before.
\<close>

theorem insert_lookup:
  assumes "spread E W" and "table_ok E W h ht A" and "b \<notin> dom h" and "req_obj_id req \<in> fst W"
    and "req_obj_id req \<notin> (\<lambda>a. obj_id (the (h a))) ` A"
  shows "\<exists>h' ht'. chained_hashtable_insert_v2 E h b ht req = Some (h', Suc b, ht', Some b)
    \<and> table_ok E W h' ht' (insert b A)
    \<and> chained_hashtable_find_obj_id_v2 E h' ht' (req_obj_id req) = Some (Some b)
    \<and> (\<forall>i. i \<noteq> req_obj_id req \<longrightarrow>
         chained_hashtable_find_obj_id_v2 E h' ht' i = chained_hashtable_find_obj_id_v2 E h ht i)"
  using chained.lookup_after_insert [of E W h ht A b req] assms by (auto simp: chained_inv_def)

theorem insert_lookup_witness:
  "\<exists>h' ht'. chained_hashtable_insert_v2 \<lparr>hash64 = \<lambda>i. i, support_ttl = False, pin = None\<rparr>
       Map.empty 0 (create_chained_hashtable_v2 2) (new_request\<lparr>req_obj_id := 5\<rparr>)
       = Some (h', 1, ht', Some 0)
     \<and> chained_hashtable_find_obj_id_v2 \<lparr>hash64 = \<lambda>i. i, support_ttl = False, pin = None\<rparr> h' ht' 5
       = Some (Some 0)"
  using insert_lookup [of "\<lparr>hash64 = \<lambda>i. i, support_ttl = False, pin = None\<rparr>" "({5, 6}, 2)" Map.empty
      "create_chained_hashtable_v2 2" "{}" 0 "new_request\<lparr>req_obj_id := 5\<rparr>"]
    create_table_ok [of "({5, 6}, 2)" 2] spread_small [of "({5, 6}, 2)"]
  by (auto simp: card_insert_if)

text \<open>
  C18: after the deletion of an object its id is not found, every other lookup answers as before,
  and the object has been freed.
\<close>

theorem delete_lookup:
  assumes "spread E W" and "table_ok E W h ht A" and "a \<in> A"
  shows "\<exists>h' ht'. chained_hashtable_delete_v2 E h ht (Some a) = Some (h', ht')
    \<and> table_ok E W h' ht' (A - {a}) \<and> h' a = None
    \<and> chained_hashtable_find_obj_id_v2 E h' ht' (obj_id (the (h a))) = Some NULL
    \<and> (\<forall>i. i \<noteq> obj_id (the (h a)) \<longrightarrow>
         chained_hashtable_find_obj_id_v2 E h' ht' i = chained_hashtable_find_obj_id_v2 E h ht i)"
proof -
  from chained.lookup_after_delete [of E W h ht A a] assms obtain h' ht' where
    "chained_hashtable_delete_v2 E h ht (Some a) = Some (h', ht')" "table_ok E W h' ht' (A - {a})"
    "chained_hashtable_find_obj_id_v2 E h' ht' (obj_id (the (h a))) = Some NULL"
    "\<forall>i. i \<noteq> obj_id (the (h a)) \<longrightarrow>
         chained_hashtable_find_obj_id_v2 E h' ht' i = chained_hashtable_find_obj_id_v2 E h ht i"
    by (auto simp: chained_inv_def)
  moreover from this delete_correct [OF assms] have "h' a = None" by auto
  ultimately show ?thesis by blast
qed

theorem delete_lookup_witness:
  "\<exists>h ht h' ht'. chained_hashtable_insert_v2 \<lparr>hash64 = \<lambda>i. i, support_ttl = False, pin = None\<rparr>
       Map.empty 0 (create_chained_hashtable_v2 2) (new_request\<lparr>req_obj_id := 5\<rparr>)
       = Some (h, 1, ht, Some 0)
     \<and> chained_hashtable_delete_v2 \<lparr>hash64 = \<lambda>i. i, support_ttl = False, pin = None\<rparr> h ht (Some 0)
       = Some (h', ht') \<and> h' 0 = None"
proof -
  let ?E = "\<lparr>hash64 = \<lambda>i. i, support_ttl = False, pin = None\<rparr>"
  let ?W = "({5, 6}, 2)"
  have sp: "spread ?E ?W" by (rule spread_small) (simp_all add: card_insert_if)
  have "table_ok ?E ?W Map.empty (create_chained_hashtable_v2 2) {}"
    by (rule create_table_ok) simp
  from insert_correct [OF this, of 0 "new_request\<lparr>req_obj_id := 5\<rparr>"] obtain h ht where
    "chained_hashtable_insert_v2 ?E Map.empty 0 (create_chained_hashtable_v2 2)
      (new_request\<lparr>req_obj_id := 5\<rparr>) = Some (h, Suc 0, ht, Some 0)"
    "table_ok ?E ?W h ht {0}" by auto
  with delete_lookup [OF sp, of h ht "{0}" 0] show ?thesis by fastforce
qed

text \<open>
  C19: doubling the table keeps every object, frees none, and changes the answer of no lookup.
\<close>

theorem expand_lookup:
  assumes "table_ok E W h ht A"
  shows "\<exists>h' ht'. chained_hashtable_expand_v2 E h ht = Some (h', ht')
    \<and> table_ok E W h' ht' A \<and> hashpower ht' = Suc (hashpower ht) \<and> dom h' = dom h
    \<and> (\<forall>i. chained_hashtable_find_obj_id_v2 E h' ht' i = chained_hashtable_find_obj_id_v2 E h ht i)"
proof -
  from expand_correct [OF assms] obtain h' ht' where
    e: "chained_hashtable_expand_v2 E h ht = Some (h', ht')" "table_ok E W h' ht' A"
    "hframe A h h'" "hashpower ht' = Suc (hashpower ht)" by blast
  have "chained_hashtable_find_obj_id_v2 E h' ht' i = chained_hashtable_find_obj_id_v2 E h ht i" for i
  proof (cases "\<exists>a \<in> A. obj_id (the (h a)) = i")
    case True
    then obtain a where a: "a \<in> A" "obj_id (the (h a)) = i" by blast
    moreover have "obj_id (the (h' a)) = i"
      using hframe_the [where f = obj_id and a = a, OF e(3)] a table_okD(2) [OF assms] by auto
    ultimately show ?thesis using find_hit [OF e(2)] find_hit [OF assms] by simp
  next
    case False
    moreover have "\<forall>a \<in> A. obj_id (the (h' a)) = obj_id (the (h a))"
      using hframe_the [where f = obj_id, OF e(3)] table_okD(2) [OF assms] by (simp add: subset_iff)
    ultimately show ?thesis using find_miss [OF e(2)] find_miss [OF assms] by simp
  qed
  with e hframe_dom [OF e(3)] show ?thesis by blast
qed

theorem expand_lookup_witness:
  "\<exists>h' ht'. chained_hashtable_expand_v2 \<lparr>hash64 = \<lambda>i. i, support_ttl = False, pin = None\<rparr>
       Map.empty (create_chained_hashtable_v2 2) = Some (h', ht') \<and> hashpower ht' = 3"
  using expand_lookup [OF create_table_ok [of "({5, 6}, 2)" 2
      "\<lparr>hash64 = \<lambda>i. i, support_ttl = False, pin = None\<rparr>" Map.empty]]
  by (auto simp: create_chained_hashtable_v2_def)

text \<open>
  C20: the deletion of an object behind more than 64 others in its chain fails: the diagnostic
  that the deletion runs then writes past the end of its array of 64 ids.  The hypothesis
  \<open>spread\<close> of the other theorems excludes such chains.
\<close>

theorem delete_long_chain_overruns:
  assumes "chain h (ptr_table ht ! i) as" and "i < length (ptr_table ht)"
    and "k < length as" and "64 < k" and "h (as ! k) = Some ob"
    and "hash_index E (hashpower ht) (obj_id ob) = i"
  shows "chained_hashtable_delete_v2 E h ht (Some (as ! k)) = None"
proof -
  let ?ws = "take (k - 1) as" and ?c = "as ! (k - 1)" and ?a = "as ! k" and ?vs = "drop (Suc k) as"
  have sp: "as = ?ws @ ?c # ?a # ?vs"
    using assms(3,4) id_take_nth_drop [of "k - 1" as] Cons_nth_drop_Suc [of k as] by simp
  have d: "distinct (?ws @ ?c # ?a # ?vs)" using chain_distinct [OF assms(1)] sp by simp
  have ch: "chain h (ptr_table ht ! i) (?ws @ ?c # ?a # ?vs)" using assms(1) sp by simp
  have "length ?ws = k - 1" using assms(3) by simp
  then have pr: "find_pred h (ptr_table ht ! i) (Some ?a) 1 = Some (Some ?c, k)"
    using find_pred_correct [OF ch d, of 1] assms(4) by simp
  have "ptr_table ht ! i \<noteq> Some ?a" using ch d by (cases ?ws) auto
  moreover have "count_n_obj_in_bucket h (ptr_table ht ! i) [] = None"
    by (rule count_n_obj_overrun [OF assms(1)]) (use assms(3,4) in simp_all)
  then have "print_hashbucket_item_distribution h (ptr_table ht) = None"
    using assms(2) by (intro print_distribution_overrun [of "ptr_table ht ! i"]) simp_all
  ultimately show ?thesis
    using assms(2,4,5,6) pr by (simp add: chained_hashtable_delete_v2_def Let_def)
qed

text \<open>A chain of 66 objects in the only bucket of a table.\<close>

definition long_chain :: heap where
  "long_chain a = (if a < 66 then Some (zero_obj\<lparr>obj_id := word_of_nat a,
     hash_next := (if a < 65 then Some (Suc a) else NULL)\<rparr>) else None)"

lemma long_chain_from: "n \<le> 65 \<Longrightarrow> chain long_chain (Some (65 - n)) [65 - n..<66]"
proof (induction n)
  case 0
  then show ?case by (simp add: long_chain_def)
next
  case (Suc n)
  have "65 - n = Suc (65 - Suc n)" using Suc.prems by simp
  with Suc have "chain long_chain (Some (Suc (65 - Suc n))) [Suc (65 - Suc n)..<66]" by simp
  moreover have "[65 - Suc n..<66] = (65 - Suc n) # [Suc (65 - Suc n)..<66]"
    using Suc.prems by (intro upt_conv_Cons) simp
  ultimately show ?case using Suc.prems by (simp add: long_chain_def [of "64 - n"])
qed

theorem delete_long_chain_overruns_witness:
  "chained_hashtable_delete_v2 \<lparr>hash64 = \<lambda>i. i, support_ttl = False, pin = None\<rparr> long_chain
     \<lparr>ptr_table = [Some 0], ht_n_obj = 66, hashpower = 0, external_obj = False\<rparr> (Some 65) = None"
proof -
  have nth: "[0..<66] ! 65 = (65 :: nat)" by (simp add: nth_upt)
  show ?thesis
    using delete_long_chain_overruns [of long_chain
        "\<lparr>ptr_table = [Some 0], ht_n_obj = 66, hashpower = 0, external_obj = False\<rparr>" 0 "[0..<66]" 65
        "zero_obj\<lparr>obj_id := word_of_nat 65, hash_next := NULL\<rparr>"
        "\<lparr>hash64 = \<lambda>i. i, support_ttl = False, pin = None\<rparr>"] long_chain_from [of 65]
    by (simp add: nth long_chain_def hash_index_def hashmask_def del: upt_rec_numeral)
qed

end
