(* ===== verification/Cache_Base.thy ===== *)
theory Cache_Base
  imports Hash_Table
begin

text \<open>
  The cache structure and the functions every eviction algorithm is built from
  (\<open>include/libCacheSim/cache.h\<close>, \<open>cache/cache.c\<close>).

  A \<open>cache_t\<close> carries its hash table, the store of the objects the table owns, the accounting
  counters and the algorithm's own parameters.  The function pointers of the C structure are a
  record of operations, \<open>cache_ops\<close>, which \<open>cache_get_base\<close> takes as an argument; the
  prefetcher's call-backs, which receive the cache itself, are another.

  \<open>cache_ok E W c A\<close> is the invariant of the base functions: the live objects are exactly \<open>A\<close>,
  they are the table's objects, no object leaks, and \<open>n_obj\<close> and \<open>occupied_byte\<close> count them.
\<close>

section \<open>Model\<close>

record common_cache_params_t =
  ccp_cache_size :: int
  ccp_default_ttl :: int
  ccp_hashpower :: int
  ccp_consider_obj_metadata :: bool
  ccp_n_total_req :: int

text \<open>
  An admission algorithm: two function pointers over its parameters, the string it was created
  from (\<open>None\<close> is \<open>NULL\<close>) and its name.
\<close>

record 'a admissioner_t =
  adm_admit :: "'a \<Rightarrow> request \<Rightarrow> bool \<times> 'a"
  adm_update :: "('a \<Rightarrow> request \<Rightarrow> int \<Rightarrow> 'a) option"
  adm_params :: 'a
  adm_init_params :: "string option"
  admissioner_name :: string

record ('a, 'f, 'p) cache_t =
  hashtable :: hashtable_t
  store :: heap
  brk :: addr
  admissioner :: "'a admissioner_t option"
  prefetcher_params :: 'f
  eviction_params :: 'p
  n_req :: int
  n_obj :: int
  occupied_byte :: int
  to_evict_candidate :: ptr
  to_evict_candidate_gen_vtime :: int
  cache_size :: int
  default_ttl :: int
  obj_md_size :: int
  n_total_req :: int
  cache_name :: string
  init_params :: string

record 'c prefetcher_t =
  pf_prefetch :: "('c \<Rightarrow> request \<Rightarrow> 'c option) option"
  pf_handle_find :: "('c \<Rightarrow> request \<Rightarrow> bool \<Rightarrow> 'c option) option"
  pf_handle_evict :: "('c \<Rightarrow> request \<Rightarrow> 'c option) option"

text \<open>The function pointers of \<open>struct cache\<close> that \<open>cache.c\<close> and the simulator call.\<close>

record 'c cache_ops =
  op_find :: "'c \<Rightarrow> request \<Rightarrow> bool \<Rightarrow> ('c \<times> ptr) option"
  op_can_insert :: "'c \<Rightarrow> request \<Rightarrow> ('c \<times> bool) option"
  op_insert :: "'c \<Rightarrow> request \<Rightarrow> ('c \<times> ptr) option"
  op_evict :: "'c \<Rightarrow> request \<Rightarrow> 'c option"
  op_remove :: "'c \<Rightarrow> obj_id_t \<Rightarrow> ('c \<times> bool) option"
  op_to_evict :: "'c \<Rightarrow> request \<Rightarrow> ('c \<times> ptr) option"
  op_get_occupied_byte :: "'c \<Rightarrow> int"
  op_get_n_obj :: "'c \<Rightarrow> int"

definition default_common_cache_params :: common_cache_params_t where
  "default_common_cache_params = \<lparr>ccp_cache_size = 1073741824, ccp_default_ttl = 364 * 86400,
     ccp_hashpower = 20, ccp_consider_obj_metadata = False, ccp_n_total_req = 0\<rparr>"

definition HASH_POWER_DEFAULT :: int where
  "HASH_POWER_DEFAULT = 23"

text \<open>
  \<open>strncpy\<close> keeps 63 characters of the name and 255 of the parameters; without parameters
  (a \<open>NULL\<close> argument) the field stays the empty string of the \<open>memset\<close>.
\<close>

definition cache_struct_init ::
    "string \<Rightarrow> common_cache_params_t \<Rightarrow> string option \<Rightarrow> 'f \<Rightarrow> 'p \<Rightarrow> ('a, 'f, 'p) cache_t" where
  "cache_struct_init name params init pf0 ep0 =
    (let hash_power = (if ccp_hashpower params > 0 \<and> ccp_hashpower params < 40
                       then ccp_hashpower params else HASH_POWER_DEFAULT)
     in \<lparr>hashtable = create_chained_hashtable_v2 (nat hash_power), store = Map.empty, brk = 0,
         admissioner = None, prefetcher_params = pf0, eviction_params = ep0, n_req = 0, n_obj = 0,
         occupied_byte = 0, to_evict_candidate = NULL, to_evict_candidate_gen_vtime = -1,
         cache_size = ccp_cache_size params, default_ttl = ccp_default_ttl params,
         obj_md_size = 0, n_total_req = ccp_n_total_req params, cache_name = take 63 name,
         init_params = (case init of None \<Rightarrow> '''' | Some s \<Rightarrow> take 255 s)\<rparr>)"

definition cc_params_of :: "('a, 'f, 'p) cache_t \<Rightarrow> int \<Rightarrow> common_cache_params_t" where
  "cc_params_of old_cache new_size =
    \<lparr>ccp_cache_size = new_size, ccp_default_ttl = default_ttl old_cache,
     ccp_hashpower = int (hashpower (hashtable old_cache)),
     ccp_consider_obj_metadata = (if obj_md_size old_cache = 0 then False else True),
     ccp_n_total_req = n_total_req old_cache\<rparr>"

text \<open>
  \<open>init\<close> is the cache's \<open>cache_init\<close> pointer and \<open>clone_adm\<close> the admissioner's
  \<open>clone\<close>, \<open>clone_pf\<close> the prefetcher's.
\<close>

definition clone_cache ::
    "(common_cache_params_t \<Rightarrow> string option \<Rightarrow> ('a, 'f, 'p) cache_t) \<Rightarrow>
     ('a admissioner_t \<Rightarrow> 'a admissioner_t) \<Rightarrow> ('a, 'f, 'p) cache_t \<Rightarrow> ('a, 'f, 'p) cache_t" where
  "clone_cache init clone_adm old_cache =
    (let cache = init (cc_params_of old_cache (cache_size old_cache)) (Some (init_params old_cache))
     in (case admissioner old_cache of None \<Rightarrow> cache
         | Some ad \<Rightarrow> cache\<lparr>admissioner := Some (clone_adm ad)\<rparr>))"

definition create_cache_with_new_size ::
    "(common_cache_params_t \<Rightarrow> string option \<Rightarrow> ('a, 'f, 'p) cache_t) \<Rightarrow>
     ('a admissioner_t \<Rightarrow> 'a admissioner_t) \<Rightarrow> ('f \<Rightarrow> int \<Rightarrow> 'f) option \<Rightarrow>
     ('a, 'f, 'p) cache_t \<Rightarrow> int \<Rightarrow> ('a, 'f, 'p) cache_t" where
  "create_cache_with_new_size init clone_adm clone_pf old_cache new_size =
    (let cache = init (cc_params_of old_cache new_size) (Some (init_params old_cache));
         cache = (case admissioner old_cache of None \<Rightarrow> cache
           | Some ad \<Rightarrow> cache\<lparr>admissioner := Some (clone_adm ad)\<rparr>)
     in (case clone_pf of None \<Rightarrow> cache
         | Some f \<Rightarrow> cache\<lparr>prefetcher_params := f (prefetcher_params old_cache) new_size\<rparr>))"

definition cache_get_occupied_byte_default :: "('a, 'f, 'p) cache_t \<Rightarrow> int" where
  "cache_get_occupied_byte_default c = occupied_byte c"

definition cache_get_n_obj_default :: "('a, 'f, 'p) cache_t \<Rightarrow> int" where
  "cache_get_n_obj_default c = n_obj c"

definition req_cost_or_one :: "request \<Rightarrow> int" where
  "req_cost_or_one req = (if req_obj_cost req > 0 then to_int32 (req_obj_cost req) else 1)"

definition cache_can_insert_default ::
    "('a, 'f, 'p) cache_t \<Rightarrow> request \<Rightarrow> (('a, 'f, 'p) cache_t \<times> bool) option" where
  "cache_can_insert_default c req =
    (case admissioner c of
       None \<Rightarrow> Some (c, \<not> (req_obj_size req + obj_md_size c > cache_size c))
     | Some ad \<Rightarrow>
         (let (ok, ps) = adm_admit ad (adm_params ad) req;
              c = c\<lparr>admissioner := Some (ad\<lparr>adm_params := ps\<rparr>)\<rparr>
          in if \<not> ok then Some (c, False)
             else Some (c, \<not> (req_obj_size req + obj_md_size c > cache_size c))))"

text \<open>
  \<open>rm\<close> is the cache's \<open>remove\<close> pointer, called for an expired object in a build with
  \<open>SUPPORT_TTL\<close>.
\<close>

definition cache_find_base ::
    "env \<Rightarrow> ('a, 'f, 'p) cache_t prefetcher_t option \<Rightarrow>
     (('a, 'f, 'p) cache_t \<Rightarrow> obj_id_t \<Rightarrow> (('a, 'f, 'p) cache_t \<times> bool) option) \<Rightarrow>
     ('a, 'f, 'p) cache_t \<Rightarrow> request \<Rightarrow> bool \<Rightarrow> (('a, 'f, 'p) cache_t \<times> ptr) option" where
  "cache_find_base E pf rm c req update_cache = do {
     cache_obj \<leftarrow> chained_hashtable_find_v2 E (store c) (hashtable c) req;
     c \<leftarrow> (case Option.bind pf pf_handle_find of
             Some f \<Rightarrow> (if update_cache then f c req (cache_obj \<noteq> NULL) else Some c)
           | None \<Rightarrow> Some c);
     if cache_obj = NULL then Some (c, NULL)
     else do {
       ob \<leftarrow> deref (store c) cache_obj;
       (c, cache_obj) \<leftarrow>
         (if support_ttl E \<and> exp_time ob \<noteq> 0 \<and> uint (exp_time ob) < req_clock_time req
          then do {
            c \<leftarrow> (if update_cache then map_option fst (rm c (obj_id ob)) else Some c);
            Some (c, NULL) }
          else Some (c, cache_obj));
       if update_cache then do {
         h \<leftarrow> upd_obj (store c) cache_obj (\<lambda>ob. ob\<lparr>next_access_vtime := req_next_access_vtime req,
                freq := freq ob + 1, cost := req_cost_or_one req\<rparr>);
         Some (c\<lparr>store := h\<rparr>, cache_obj) }
       else Some (c, cache_obj) } }"

text \<open>The loop of \<open>cache_get_base\<close> that evicts until the object fits.\<close>

partial_function (option) evict_until_fits ::
    "('a, 'f, 'p) cache_t cache_ops \<Rightarrow> ('a, 'f, 'p) cache_t \<Rightarrow> request \<Rightarrow> ('a, 'f, 'p) cache_t option"
  where
  "evict_until_fits ops c req =
    (if op_get_occupied_byte ops c + req_obj_size req + obj_md_size c > cache_size c
     then Option.bind (op_evict ops c req) (\<lambda>c. evict_until_fits ops c req)
     else Some c)"

definition call_admissioner_update :: "('a, 'f, 'p) cache_t \<Rightarrow> request \<Rightarrow> ('a, 'f, 'p) cache_t" where
  "call_admissioner_update c req =
    (case admissioner c of None \<Rightarrow> c
     | Some ad \<Rightarrow> (case adm_update ad of None \<Rightarrow> c
         | Some f \<Rightarrow> c\<lparr>admissioner := Some (ad\<lparr>adm_params := f (adm_params ad) req (cache_size c)\<rparr>)\<rparr>))"

definition cache_get_base ::
    "('a, 'f, 'p) cache_t cache_ops \<Rightarrow> ('a, 'f, 'p) cache_t prefetcher_t option \<Rightarrow>
     ('a, 'f, 'p) cache_t \<Rightarrow> request \<Rightarrow> (('a, 'f, 'p) cache_t \<times> bool) option" where
  "cache_get_base ops pf c req = do {
     let c = c\<lparr>n_req := n_req c + 1\<rparr>;
     (c, obj) \<leftarrow> op_find ops c req True;
     let hit = (obj \<noteq> NULL);
     let c = call_admissioner_update c req;
     c \<leftarrow> (if hit then Some c
           else do {
             (c, ok) \<leftarrow> op_can_insert ops c req;
             if \<not> ok then Some c
             else do {
               c \<leftarrow> evict_until_fits ops c req;
               map_option fst (op_insert ops c req) } });
     c \<leftarrow> (case Option.bind pf pf_prefetch of Some f \<Rightarrow> f c req | None \<Rightarrow> Some c);
     Some (c, hit) }"

definition cache_insert_base ::
    "env \<Rightarrow> ('a, 'f, 'p) cache_t \<Rightarrow> request \<Rightarrow> (('a, 'f, 'p) cache_t \<times> ptr) option" where
  "cache_insert_base E c req = do {
     (h, b, ht, cache_obj) \<leftarrow> chained_hashtable_insert_v2 E (store c) (brk c) (hashtable c) req;
     ob \<leftarrow> deref h cache_obj;
     let c = c\<lparr>store := h, brk := b, hashtable := ht,
               occupied_byte := occupied_byte c + (obj_size ob + obj_md_size c),
               n_obj := n_obj c + 1\<rparr>;
     h \<leftarrow> (if support_ttl E \<and> default_ttl c \<noteq> 0 \<and> req_ttl req = 0
           then upd_obj (store c) cache_obj
             (\<lambda>ob. ob\<lparr>exp_time := to_uint32 (to_int32 (default_ttl c) + req_clock_time req)\<rparr>)
           else Some (store c));
     h \<leftarrow> upd_obj h cache_obj (\<lambda>ob. ob\<lparr>next_access_vtime := req_next_access_vtime req, freq := 0,
            cost := req_cost_or_one req\<rparr>);
     Some (c\<lparr>store := h\<rparr>, cache_obj) }"

definition cache_remove_obj_base ::
    "env \<Rightarrow> ('a, 'f, 'p) cache_t \<Rightarrow> ptr \<Rightarrow> bool \<Rightarrow> ('a, 'f, 'p) cache_t option" where
  "cache_remove_obj_base E c obj remove_from_hashtable = do {
     ob \<leftarrow> deref (store c) obj;
     let c = c\<lparr>occupied_byte := occupied_byte c - (obj_size ob + obj_md_size c),
               n_obj := n_obj c - 1\<rparr>;
     if remove_from_hashtable then do {
       (h, ht) \<leftarrow> chained_hashtable_delete_v2 E (store c) (hashtable c) obj;
       Some (c\<lparr>store := h, hashtable := ht\<rparr>) }
     else Some c }"

definition cache_evict_base ::
    "env \<Rightarrow> ('a, 'f, 'p) cache_t prefetcher_t option \<Rightarrow> ('a, 'f, 'p) cache_t \<Rightarrow> ptr \<Rightarrow> bool \<Rightarrow>
     ('a, 'f, 'p) cache_t option" where
  "cache_evict_base E pf c obj remove_from_hashtable =
    (case Option.bind pf pf_handle_evict of
       Some f \<Rightarrow> do {
         ob \<leftarrow> deref (store c) obj;
         let check_req = new_request\<lparr>req_obj_id := obj_id ob, req_obj_size := obj_size ob\<rparr>;
         c \<leftarrow> cache_remove_obj_base E c obj remove_from_hashtable;
         f c check_req }
     | None \<Rightarrow> cache_remove_obj_base E c obj remove_from_hashtable)"

section \<open>Invariant\<close>

definition obj_bytes :: "('a, 'f, 'p) cache_t \<Rightarrow> addr \<Rightarrow> int" where
  "obj_bytes c a = obj_size (the (store c a)) + obj_md_size c"

definition cache_ok :: "env \<Rightarrow> trace_ids \<Rightarrow> ('a, 'f, 'p) cache_t \<Rightarrow> addr set \<Rightarrow> bool" where
  "cache_ok E W c A \<longleftrightarrow> table_ok E W (store c) (hashtable c) A \<and> dom (store c) = A
     \<and> (\<forall>a \<in> A. a < brk c) \<and> n_obj c = int (card A) \<and> occupied_byte c = (\<Sum>a \<in> A. obj_bytes c a)"

text \<open>The ids in a cache.\<close>

definition ids_in :: "heap \<Rightarrow> addr set \<Rightarrow> obj_id_t set" where
  "ids_in h A = (\<lambda>a. obj_id (the (h a))) ` A"

text \<open>The abstract content of a queue: the id and the size of each object, head first.\<close>

definition entry :: "heap \<Rightarrow> addr \<Rightarrow> obj_id_t \<times> int" where
  "entry h a = (obj_id (the (h a)), obj_size (the (h a)))"

abbreviation entries :: "heap \<Rightarrow> addr list \<Rightarrow> (obj_id_t \<times> int) list" where
  "entries h xs \<equiv> map (entry h) xs"

text \<open>The fields of an object that the invariant reads.\<close>

definition core :: "cache_obj \<Rightarrow> ptr \<times> obj_id_t \<times> int" where
  "core ob = (hash_next ob, obj_id ob, obj_size ob)"

definition same_core :: "heap \<Rightarrow> heap \<Rightarrow> bool" where
  "same_core h h' \<longleftrightarrow> (\<forall>a. map_option core (h' a) = map_option core (h a))"

text \<open>The metadata a hit updates, and the object an insertion creates.\<close>

definition touched :: "request \<Rightarrow> cache_obj \<Rightarrow> cache_obj" where
  "touched req ob = ob\<lparr>next_access_vtime := req_next_access_vtime req, freq := freq ob + 1,
     cost := req_cost_or_one req\<rparr>"

definition expired :: "env \<Rightarrow> request \<Rightarrow> cache_obj \<Rightarrow> bool" where
  "expired E req ob \<longleftrightarrow> support_ttl E \<and> exp_time ob \<noteq> 0 \<and> uint (exp_time ob) < req_clock_time req"

definition inserted_obj :: "env \<Rightarrow> ('a, 'f, 'p) cache_t \<Rightarrow> request \<Rightarrow> cache_obj" where
  "inserted_obj E c req =
    (let ob = copy_request_to_cache_obj (support_ttl E) zero_obj req;
         ob = (if support_ttl E \<and> default_ttl c \<noteq> 0 \<and> req_ttl req = 0
               then ob\<lparr>exp_time := to_uint32 (to_int32 (default_ttl c) + req_clock_time req)\<rparr> else ob)
     in ob\<lparr>next_access_vtime := req_next_access_vtime req, freq := 0, cost := req_cost_or_one req\<rparr>)"

section \<open>Lemmas\<close>

subsection \<open>Same core\<close>

lemma same_core_refl [simp]: "same_core h h"
  by (simp add: same_core_def)

lemma same_core_trans: "same_core h h' \<Longrightarrow> same_core h' h'' \<Longrightarrow> same_core h h''"
  by (simp add: same_core_def)

lemma core_noq [simp]: "core (noq ob) = core ob"
  by (simp add: core_def)

lemma core_touched [simp]: "core (touched req ob) = core ob"
  by (simp add: core_def touched_def)

lemma same_core_upd: "h a = Some ob \<Longrightarrow> core ob' = core ob \<Longrightarrow> same_core h (h(a \<mapsto> ob'))"
  by (simp add: same_core_def)

lemma same_core_qframe:
  assumes "qframe S h h'"
  shows "same_core h h'"
  unfolding same_core_def
proof
  fix a
  have "map_option noq (h' a) = map_option noq (h a)" using assms by (simp add: qframe_def)
  then have "map_option core (map_option noq (h' a)) = map_option core (map_option noq (h a))" by simp
  then show "map_option core (h' a) = map_option core (h a)"
    by (simp add: option.map_comp comp_def)
qed

lemma same_core_dom:
  assumes "same_core h h'"
  shows "dom h' = dom h"
proof -
  have "(h' a = None) = (h a = None)" for a
    using assms by (metis map_option_is_None same_core_def)
  then show ?thesis by (auto simp: dom_def)
qed

lemma same_core_field:
  assumes "same_core h h'" and "a \<in> dom h"
  shows "obj_id (the (h' a)) = obj_id (the (h a))" "obj_size (the (h' a)) = obj_size (the (h a))"
    "hash_next (the (h' a)) = hash_next (the (h a))"
proof -
  obtain ob where "h a = Some ob" using assms(2) by blast
  with assms(1) obtain ob' where "h' a = Some ob'" "core ob' = core ob"
    by (metis (no_types, lifting) map_option_eq_SomeD same_core_def)
  then show "obj_id (the (h' a)) = obj_id (the (h a))" "obj_size (the (h' a)) = obj_size (the (h a))"
    "hash_next (the (h' a)) = hash_next (the (h a))"
    using \<open>h a = Some ob\<close> by (simp_all add: core_def)
qed

lemma same_core_entries:
  "same_core h h' \<Longrightarrow> set xs \<subseteq> dom h \<Longrightarrow> entries h' xs = entries h xs"
  by (auto simp: entry_def same_core_field subset_iff domIff)

lemma same_core_ids: "same_core h h' \<Longrightarrow> A \<subseteq> dom h \<Longrightarrow> ids_in h' A = ids_in h A"
  unfolding ids_in_def by (rule image_cong) (metis same_core_field(1) subsetD)+

lemma same_core_table_ok: "same_core h h' \<Longrightarrow> table_ok E W h ht A \<Longrightarrow> table_ok E W h' ht A"
proof (rule table_ok_cong)
  fix a assume "same_core h h'"
  then have "map_option core (h' a) = map_option core (h a)" by (simp add: same_core_def)
  then have "map_option (\<lambda>x. (fst x, fst (snd x))) (map_option core (h' a))
      = map_option (\<lambda>x. (fst x, fst (snd x))) (map_option core (h a))" by simp
  then show "map_option (\<lambda>ob. (hash_next ob, obj_id ob)) (h' a)
      = map_option (\<lambda>ob. (hash_next ob, obj_id ob)) (h a)"
    by (simp add: option.map_comp comp_def core_def)
qed simp

subsection \<open>The invariant of the base functions\<close>

lemma cache_okD:
  assumes "cache_ok E W c A"
  shows "table_ok E W (store c) (hashtable c) A" "dom (store c) = A" "\<forall>a \<in> A. a < brk c"
    "n_obj c = int (card A)" "occupied_byte c = (\<Sum>a \<in> A. obj_bytes c a)" "finite A"
    "brk c \<notin> dom (store c)" "brk c \<notin> A"
  using assms by (auto simp: cache_ok_def table_ok_def)

lemma cache_ok_fields [simp]:
  "cache_ok E W (c\<lparr>eviction_params := p\<rparr>) A = cache_ok E W c A"
  "cache_ok E W (c\<lparr>n_req := n\<rparr>) A = cache_ok E W c A"
  "cache_ok E W (c\<lparr>admissioner := ad\<rparr>) A = cache_ok E W c A"
  "cache_ok E W (c\<lparr>to_evict_candidate_gen_vtime := n\<rparr>) A = cache_ok E W c A"
  "cache_ok E W (c\<lparr>cache_name := s\<rparr>) A = cache_ok E W c A"
  "cache_ok E W (c\<lparr>obj_md_size := n\<rparr>) {} = cache_ok E W c {}"
  by (simp_all add: cache_ok_def obj_bytes_def)

lemma cache_ok_store:
  assumes "cache_ok E W c A" and "same_core (store c) h'"
  shows "cache_ok E W (c\<lparr>store := h'\<rparr>) A"
proof -
  note ok = cache_okD [OF assms(1)]
  have "(\<Sum>a \<in> A. obj_bytes (c\<lparr>store := h'\<rparr>) a) = (\<Sum>a \<in> A. obj_bytes c a)"
    by (rule sum.cong) (use same_core_field [OF assms(2)] ok(2) in \<open>auto simp: obj_bytes_def\<close>)
  then show ?thesis
    using ok same_core_table_ok [OF assms(2) ok(1)] same_core_dom [OF assms(2)]
    by (simp add: cache_ok_def)
qed

text \<open>A new cache is empty.\<close>

lemma cache_struct_init_fields [simp]:
  "store (cache_struct_init name p s pf ep) = Map.empty"
  "eviction_params (cache_struct_init name p s pf ep) = ep"
  "admissioner (cache_struct_init name p s pf ep) = None"
  "cache_size (cache_struct_init name p s pf ep) = ccp_cache_size p"
  "n_req (cache_struct_init name p s pf ep) = 0" "n_obj (cache_struct_init name p s pf ep) = 0"
  "occupied_byte (cache_struct_init name p s pf ep) = 0"
  "obj_md_size (cache_struct_init name p s pf ep) = 0"
  "default_ttl (cache_struct_init name p s pf ep) = ccp_default_ttl p"
  "n_total_req (cache_struct_init name p s pf ep) = ccp_n_total_req p"
  by (simp_all add: cache_struct_init_def Let_def)

lemma cache_ok_init:
  assumes "0 < ccp_hashpower p" and "ccp_hashpower p < 40" and "int (snd W) \<le> ccp_hashpower p"
  shows "cache_ok E W (cache_struct_init name p s pf ep) {}"
  using assms create_table_ok [of W "nat (ccp_hashpower p)" E]
  by (simp add: cache_ok_def cache_struct_init_def Let_def)

lemma cache_ok_ids_inj:
  "cache_ok E W c A \<Longrightarrow> a \<in> A \<Longrightarrow> b \<in> A \<Longrightarrow> obj_id (the (store c a)) = obj_id (the (store c b)) \<Longrightarrow> a = b"
  using table_okD(3) [OF cache_okD(1), of E W c A] by (auto dest: inj_onD)

lemma ids_inE:
  assumes "i \<in> ids_in h A"
  obtains a where "a \<in> A" "obj_id (the (h a)) = i"
  using assms by (auto simp: ids_in_def)

lemma find_base_miss:
  assumes "cache_ok E W c A" and "req_obj_id req \<notin> ids_in (store c) A"
  shows "cache_find_base E None rm c req upd = Some (c, NULL)"
proof -
  have "chained_hashtable_find_v2 E (store c) (hashtable c) req = Some NULL"
    unfolding chained_hashtable_find_v2_def
    by (rule find_miss [OF cache_okD(1) [OF assms(1)]]) (use assms(2) in \<open>force simp: ids_in_def\<close>)
  then show ?thesis by (simp add: cache_find_base_def)
qed

lemma find_base_lookup:
  assumes "cache_ok E W c A" and "a \<in> A" and "obj_id (the (store c a)) = req_obj_id req"
  shows "chained_hashtable_find_v2 E (store c) (hashtable c) req = Some (Some a)"
  unfolding chained_hashtable_find_v2_def
  by (rule find_hit [OF cache_okD(1) [OF assms(1)] assms(2,3)])

lemma find_base_hit:
  assumes "cache_ok E W c A" and "store c a = Some ob" and "obj_id ob = req_obj_id req"
    and "\<not> expired E req ob"
  shows "cache_find_base E None rm c req upd =
    Some (if upd then c\<lparr>store := (store c)(a \<mapsto> touched req ob)\<rparr> else c, Some a)"
proof -
  have "a \<in> A" using assms(2) cache_okD(2) [OF assms(1)] by blast
  with assms show ?thesis
    by (auto simp: cache_find_base_def find_base_lookup touched_def expired_def)
qed

lemma find_base_expired:
  assumes "cache_ok E W c A" and "store c a = Some ob" and "obj_id ob = req_obj_id req"
    and "expired E req ob"
  shows "cache_find_base E None rm c req upd = (if upd then None else Some (c, NULL))"
proof -
  have "a \<in> A" using assms(2) cache_okD(2) [OF assms(1)] by blast
  with assms show ?thesis
    by (cases "rm c (obj_id ob)") (auto simp: cache_find_base_def find_base_lookup expired_def)
qed

lemma inserted_obj_simps [simp]:
  "obj_id (inserted_obj E c req) = req_obj_id req"
  "obj_size (inserted_obj E c req) = req_obj_size req"
  by (simp_all add: inserted_obj_def copy_request_to_cache_obj_def Let_def)

lemma insert_base_ok:
  assumes "cache_ok E W c A" and "req_obj_id req \<in> fst W" and "req_obj_id req \<notin> ids_in (store c) A"
  shows "\<exists>h ht ob. cache_insert_base E c req =
      Some (c\<lparr>store := h, brk := Suc (brk c), hashtable := ht,
              occupied_byte := occupied_byte c + (req_obj_size req + obj_md_size c),
              n_obj := n_obj c + 1\<rparr>, Some (brk c))
    \<and> cache_ok E W (c\<lparr>store := h, brk := Suc (brk c), hashtable := ht,
              occupied_byte := occupied_byte c + (req_obj_size req + obj_md_size c),
              n_obj := n_obj c + 1\<rparr>) (insert (brk c) A)
    \<and> hframe A (store c) (h(brk c := None)) \<and> h (brk c) = Some ob
    \<and> nohash ob = inserted_obj E c req"
proof -
  note ok = cache_okD [OF assms(1)]
  have "\<forall>b \<in> A. obj_id (the (store c b)) \<noteq> req_obj_id req"
    using assms(3) by (force simp: ids_in_def)
  from insert_correct [OF ok(1) ok(7) assms(2) this] obtain h ht ob where
    ins: "chained_hashtable_insert_v2 E (store c) (brk c) (hashtable c) req
      = Some (h, Suc (brk c), ht, Some (brk c))"
    and tok: "table_ok E W h ht (insert (brk c) A)" and ob: "h (brk c) = Some ob"
    and new: "nohash ob = copy_request_to_cache_obj (support_ttl E) zero_obj req"
    and fr: "hframe A (store c) (h(brk c := None))" by blast
  define ob' where "ob' = (let ob = (if support_ttl E \<and> default_ttl c \<noteq> 0 \<and> req_ttl req = 0
      then ob\<lparr>exp_time := to_uint32 (to_int32 (default_ttl c) + req_clock_time req)\<rparr> else ob)
    in ob\<lparr>next_access_vtime := req_next_access_vtime req, freq := 0, cost := req_cost_or_one req\<rparr>)"
  let ?h = "h(brk c \<mapsto> ob')"
  let ?c = "c\<lparr>store := ?h, brk := Suc (brk c), hashtable := ht,
              occupied_byte := occupied_byte c + (req_obj_size req + obj_md_size c),
              n_obj := n_obj c + 1\<rparr>"
  have size: "obj_size ob = req_obj_size req"
    using arg_cong [OF new, of obj_size] by (simp add: copy_request_to_cache_obj_def Let_def)
  have "nohash ob' = inserted_obj E c req"
    unfolding ob'_def inserted_obj_def new [symmetric] by (simp add: nohash_def Let_def)
  moreover have "cache_insert_base E c req = Some (?c, Some (brk c))"
    using ins ob size by (simp add: cache_insert_base_def ob'_def Let_def)
  moreover have "cache_ok E W ?c (insert (brk c) A)"
  proof -
    have "core ob' = core ob" by (simp add: ob'_def core_def Let_def)
    with ob have "same_core h ?h" by (rule same_core_upd)
    then have "table_ok E W ?h ht (insert (brk c) A)" using tok by (rule same_core_table_ok)
    moreover have "dom ?h = insert (brk c) A"
      using hframe_dom [OF fr] ok(2,8) ob by auto
    moreover have "obj_bytes ?c a = obj_bytes c a" if "a \<in> A" for a
      using hframe_the [where f = obj_size and a = a, OF fr] that ok(2,8)
      by (auto simp: obj_bytes_def)
    then have "(\<Sum>a \<in> A. obj_bytes ?c a) = (\<Sum>a \<in> A. obj_bytes c a)" by (rule sum.cong [OF refl])
    moreover have "obj_bytes ?c (brk c) = req_obj_size req + obj_md_size c"
      using size by (simp add: obj_bytes_def ob'_def Let_def)
    ultimately show ?thesis using ok by (auto simp: cache_ok_def less_Suc_eq)
  qed
  moreover have "hframe A (store c) (?h(brk c := None))" using fr by simp
  ultimately show ?thesis by (intro exI [of _ ?h] exI [of _ ht] exI [of _ ob']) simp
qed

lemma remove_obj_base_ok:
  assumes "spread E W" and "cache_ok E W c A" and "store c a = Some ob"
  shows "\<exists>h ht. cache_remove_obj_base E c (Some a) True =
      Some (c\<lparr>occupied_byte := occupied_byte c - (obj_size ob + obj_md_size c),
              n_obj := n_obj c - 1, store := h, hashtable := ht\<rparr>)
    \<and> cache_ok E W (c\<lparr>occupied_byte := occupied_byte c - (obj_size ob + obj_md_size c),
              n_obj := n_obj c - 1, store := h, hashtable := ht\<rparr>) (A - {a})
    \<and> hframe (A - {a}) ((store c)(a := None)) h \<and> h a = None"
proof -
  note ok = cache_okD [OF assms(2)]
  have a: "a \<in> A" using assms(3) ok(2) by blast
  from delete_correct [OF assms(1) ok(1) a] obtain h ht where
    del: "chained_hashtable_delete_v2 E (store c) (hashtable c) (Some a) = Some (h, ht)"
    and tok: "table_ok E W h ht (A - {a})" and ha: "h a = None"
    and fr: "hframe (A - {a}) ((store c)(a := None)) h" by blast
  let ?c = "c\<lparr>occupied_byte := occupied_byte c - (obj_size ob + obj_md_size c),
              n_obj := n_obj c - 1, store := h, hashtable := ht\<rparr>"
  have bytes: "obj_bytes ?c b = obj_bytes c b" if "b \<in> A - {a}" for b
    using hframe_the [where f = obj_size and a = b, OF fr] that ok(2)
    by (auto simp: obj_bytes_def)
  have "(\<Sum>b \<in> A - {a}. obj_bytes ?c b) = (\<Sum>b \<in> A - {a}. obj_bytes c b)"
    by (rule sum.cong [OF refl]) (rule bytes)
  also have "\<dots> = (\<Sum>b \<in> A. obj_bytes c b) - obj_bytes c a"
    using a ok(6) by (simp add: sum_diff1)
  finally have sum: "(\<Sum>b \<in> A - {a}. obj_bytes ?c b) = (\<Sum>b \<in> A. obj_bytes c b) - obj_bytes c a" .
  have "card A = Suc (card (A - {a}))" using card_Suc_Diff1 [OF ok(6) a] by simp
  then have card: "n_obj c - 1 = int (card (A - {a}))" using ok(4) by simp
  have "dom h = A - {a}" using hframe_dom [OF fr] ok(2) by simp
  then have "cache_ok E W ?c (A - {a})"
    using ok(3,5) tok sum card assms(3) by (simp add: cache_ok_def obj_bytes_def)
  then show ?thesis using del assms(3) fr ha
    by (intro exI [of _ h] exI [of _ ht]) (simp add: cache_remove_obj_base_def Let_def)
qed

lemma evict_base_no_prefetcher [simp]:
  "cache_evict_base E None c p b = cache_remove_obj_base E c p b"
  by (simp add: cache_evict_base_def)

section \<open>A small concrete setting\<close>

text \<open>
  The identity as the hash function, no pinning, four object ids, and tables of four buckets: the
  setting of the concrete runs in the theories of the algorithms.
\<close>

definition sample_env :: env where
  "sample_env = \<lparr>hash64 = \<lambda>i. i, support_ttl = False, pin = None\<rparr>"

definition sample_ids :: trace_ids where
  "sample_ids = ({1, 2, 3, 4}, 2)"

definition sample_params :: "int \<Rightarrow> common_cache_params_t" where
  "sample_params n = \<lparr>ccp_cache_size = n, ccp_default_ttl = 0, ccp_hashpower = 2,
     ccp_consider_obj_metadata = False, ccp_n_total_req = 0\<rparr>"

definition sample_req :: "obj_id_t \<Rightarrow> int \<Rightarrow> request" where
  "sample_req i n = new_request\<lparr>req_obj_id := i, req_obj_size := n\<rparr>"

lemma sample_simps [simp]:
  "hash64 sample_env = (\<lambda>i. i)" "support_ttl sample_env = False" "pin sample_env = None"
  "fst sample_ids = {1, 2, 3, 4}" "snd sample_ids = 2"
  "ccp_cache_size (sample_params n) = n" "ccp_hashpower (sample_params n) = 2"
  "ccp_consider_obj_metadata (sample_params n) = False"
  "req_obj_id (sample_req i n) = i" "req_obj_size (sample_req i n) = n"
  by (simp_all add: sample_env_def sample_ids_def sample_params_def sample_req_def)

lemma sample_spread [simp]: "spread E ({1, 2, 3, 4}, n)" "spread E sample_ids"
  by (rule spread_small; simp add: card_insert_if)+

end
