(* ===== verification/Policy.thy ===== *)
theory Policy
  imports Cache_Base
begin

text \<open>
  The contract between \<open>cache_get_base\<close> and an eviction algorithm.

  The locale \<open>eviction_policy\<close> states what the shared request path relies on: a lookup reports
  exactly the resident ids and changes none of them, an eviction of a non-empty cache succeeds and
  makes progress in a measure, an insertion of an object that fits keeps the cache within its
  size.  From these laws alone the request path is shown to return for every request, to report a
  hit exactly for a resident object, and to keep the cache within its capacity, for one request
  and for every trace.  The theories of the algorithms interpret the locale.
\<close>

section \<open>Traces\<close>

text \<open>Serving a list of requests with \<open>cache->get\<close>, collecting the hits.\<close>

fun serve ::
    "('a, 'f, 'p) cache_t cache_ops \<Rightarrow> ('a, 'f, 'p) cache_t prefetcher_t option \<Rightarrow>
     ('a, 'f, 'p) cache_t \<Rightarrow> request list \<Rightarrow> (('a, 'f, 'p) cache_t \<times> bool list) option" where
  "serve ops pf c [] = Some (c, [])"
| "serve ops pf c (req # reqs) = do {
     (c, hit) \<leftarrow> cache_get_base ops pf c req;
     (c, hits) \<leftarrow> serve ops pf c reqs;
     Some (c, hit # hits) }"

lemma serve_append:
  "serve ops pf c (xs @ ys) = do {
     (c, hs) \<leftarrow> serve ops pf c xs;
     (c, hs') \<leftarrow> serve ops pf c ys;
     Some (c, hs @ hs') }"
proof (induction xs arbitrary: c)
  case Nil
  then show ?case by (cases "serve ops pf c ys") auto
next
  case (Cons req xs)
  then show ?case by (auto split: Option.bind_split prod.split)
qed

section \<open>The contract\<close>

definition same_limits :: "('a, 'f, 'p) cache_t \<Rightarrow> ('a, 'f, 'p) cache_t \<Rightarrow> bool" where
  "same_limits c c' \<longleftrightarrow> cache_size c' = cache_size c \<and> obj_md_size c' = obj_md_size c"

lemma same_limits_refl [simp]: "same_limits c c"
  by (simp add: same_limits_def)

lemma same_limits_trans: "same_limits c c' \<Longrightarrow> same_limits c' c'' \<Longrightarrow> same_limits c c''"
  by (simp add: same_limits_def)

lemma same_limits_fields [simp]:
  "same_limits c (c'\<lparr>n_req := n\<rparr>) = same_limits c c'"
  "same_limits c (c'\<lparr>admissioner := ad\<rparr>) = same_limits c c'"
  "same_limits c (c'\<lparr>eviction_params := p\<rparr>) = same_limits c c'"
  "same_limits c (c'\<lparr>store := h\<rparr>) = same_limits c c'"
  "same_limits c (c'\<lparr>brk := b\<rparr>) = same_limits c c'"
  "same_limits c (c'\<lparr>hashtable := ht\<rparr>) = same_limits c c'"
  "same_limits c (c'\<lparr>occupied_byte := m\<rparr>) = same_limits c c'"
  "same_limits c (c'\<lparr>n_obj := m\<rparr>) = same_limits c c'"
  by (simp_all add: same_limits_def)

locale eviction_policy =
  fixes ops :: "('a, 'f, 'p) cache_t cache_ops"
    and inv :: "('a, 'f, 'p) cache_t \<Rightarrow> bool"
    and contents :: "('a, 'f, 'p) cache_t \<Rightarrow> obj_id_t set"
    and weight :: "('a, 'f, 'p) cache_t \<Rightarrow> nat"
    and ok_req :: "request \<Rightarrow> bool"
  assumes n_req_law: "inv c \<Longrightarrow> inv (c\<lparr>n_req := n\<rparr>) \<and> contents (c\<lparr>n_req := n\<rparr>) = contents c
        \<and> op_get_occupied_byte ops (c\<lparr>n_req := n\<rparr>) = op_get_occupied_byte ops c"
    and admissioner_law: "inv c \<Longrightarrow> inv (c\<lparr>admissioner := ad\<rparr>)
        \<and> contents (c\<lparr>admissioner := ad\<rparr>) = contents c
        \<and> op_get_occupied_byte ops (c\<lparr>admissioner := ad\<rparr>) = op_get_occupied_byte ops c"
    and find_law: "inv c \<Longrightarrow> ok_req req \<Longrightarrow> \<exists>c' p. op_find ops c req True = Some (c', p) \<and> inv c'
        \<and> contents c' = contents c \<and> (p \<noteq> NULL \<longleftrightarrow> req_obj_id req \<in> contents c)
        \<and> same_limits c c' \<and> op_get_occupied_byte ops c' = op_get_occupied_byte ops c"
    and can_insert_law: "inv c \<Longrightarrow> \<exists>c' b. op_can_insert ops c req = Some (c', b) \<and> inv c'
        \<and> contents c' = contents c \<and> same_limits c c'
        \<and> op_get_occupied_byte ops c' = op_get_occupied_byte ops c
        \<and> (b \<longrightarrow> req_obj_size req + obj_md_size c \<le> cache_size c)"
    and evict_law: "inv c \<Longrightarrow> contents c \<noteq> {} \<Longrightarrow> \<exists>c'. op_evict ops c req = Some c' \<and> inv c'
        \<and> contents c' \<subseteq> contents c \<and> weight c' < weight c \<and> same_limits c c'"
    and empty_law: "inv c \<Longrightarrow> contents c = {} \<Longrightarrow> op_get_occupied_byte ops c = 0"
    and insert_law: "inv c \<Longrightarrow> ok_req req \<Longrightarrow> req_obj_id req \<notin> contents c \<Longrightarrow>
        op_get_occupied_byte ops c + req_obj_size req + obj_md_size c \<le> cache_size c \<Longrightarrow>
        \<exists>c' p. op_insert ops c req = Some (c', p) \<and> inv c' \<and> same_limits c c'
        \<and> contents c \<subseteq> contents c' \<and> contents c' \<subseteq> insert (req_obj_id req) (contents c)
        \<and> op_get_occupied_byte ops c' \<le> cache_size c"
begin

text \<open>The eviction loop ends, and leaves room for the object.\<close>

lemma evict_until_fits_ok:
  "inv c \<Longrightarrow> req_obj_size req + obj_md_size c \<le> cache_size c \<Longrightarrow>
   \<exists>c'. evict_until_fits ops c req = Some c' \<and> inv c' \<and> contents c' \<subseteq> contents c \<and> same_limits c c'
     \<and> op_get_occupied_byte ops c' + req_obj_size req + obj_md_size c \<le> cache_size c"
proof (induction c rule: measure_induct_rule [of weight])
  case (less c)
  show ?case
  proof (cases "op_get_occupied_byte ops c + req_obj_size req + obj_md_size c > cache_size c")
    case False
    with less.prems show ?thesis by (subst evict_until_fits.simps) auto
  next
    case True
    with less.prems empty_law [of c] have "contents c \<noteq> {}" by auto
    from evict_law [OF less.prems(1) this, of req] obtain c1 where
      c1: "op_evict ops c req = Some c1" "inv c1" "contents c1 \<subseteq> contents c" "weight c1 < weight c"
      and lim: "same_limits c c1" by blast
    have "req_obj_size req + obj_md_size c1 \<le> cache_size c1"
      using less.prems(2) lim by (simp add: same_limits_def)
    from less.IH [OF c1(4) c1(2) this] obtain c' where
      c': "evict_until_fits ops c1 req = Some c'" "inv c'" "contents c' \<subseteq> contents c1"
      "same_limits c1 c'"
      "op_get_occupied_byte ops c' + req_obj_size req + obj_md_size c1 \<le> cache_size c1" by blast
    have "evict_until_fits ops c req = Some c'"
      using True c1(1) c'(1) by (subst evict_until_fits.simps) simp
    then show ?thesis using c' c1(3) lim same_limits_trans [OF lim c'(4)]
      by (auto simp: same_limits_def)
  qed
qed

lemma call_update_ok:
  assumes "inv c"
  shows "inv (call_admissioner_update c req)"
    "contents (call_admissioner_update c req) = contents c"
    "op_get_occupied_byte ops (call_admissioner_update c req) = op_get_occupied_byte ops c"
    "same_limits c (call_admissioner_update c req)"
  using assms admissioner_law [OF assms]
  by (auto simp: call_admissioner_update_def split: option.splits)

lemma get_base_ok:
  assumes "inv c" and "ok_req req" and "op_get_occupied_byte ops c \<le> cache_size c"
  shows "\<exists>c' hit. cache_get_base ops None c req = Some (c', hit) \<and> inv c'
    \<and> (hit \<longleftrightarrow> req_obj_id req \<in> contents c) \<and> same_limits c c'
    \<and> op_get_occupied_byte ops c' \<le> cache_size c'
    \<and> contents c' \<subseteq> insert (req_obj_id req) (contents c) \<and> (hit \<longrightarrow> contents c' = contents c)"
proof -
  let ?c0 = "c\<lparr>n_req := n_req c + 1\<rparr>"
  have c0: "inv ?c0" "contents ?c0 = contents c"
    "op_get_occupied_byte ops ?c0 = op_get_occupied_byte ops c" "same_limits c ?c0"
    using n_req_law [OF assms(1)] by auto
  from find_law [OF c0(1) assms(2)] obtain c1 p where
    c1: "op_find ops ?c0 req True = Some (c1, p)" "inv c1" "contents c1 = contents c"
    "p \<noteq> NULL \<longleftrightarrow> req_obj_id req \<in> contents c" "same_limits c c1"
    "op_get_occupied_byte ops c1 = op_get_occupied_byte ops c"
    using c0 by (auto simp: same_limits_def)
  let ?c2 = "call_admissioner_update c1 req"
  note c2 = call_update_ok [OF c1(2), of req]
  from can_insert_law [OF c2(1), of req] obtain c3 b where
    c3: "op_can_insert ops ?c2 req = Some (c3, b)" "inv c3" "contents c3 = contents c"
    "same_limits c c3" "op_get_occupied_byte ops c3 = op_get_occupied_byte ops c"
    "b \<longrightarrow> req_obj_size req + obj_md_size c3 \<le> cache_size c3"
    using c1 c2 by (auto simp: same_limits_def)
  have lim2: "same_limits c ?c2" using c1(5) c2(4) by (rule same_limits_trans)
  consider (hit) "p \<noteq> NULL" | (rejected) "p = NULL" "\<not> b" | (insert) "p = NULL" "b" by blast
  then show ?thesis
  proof cases
    case hit
    then have "cache_get_base ops None c req = Some (?c2, True)"
      using c1(1) by (auto simp: cache_get_base_def Let_def)
    then show ?thesis using hit c1 c2 lim2 assms(3) by (auto simp: same_limits_def)
  next
    case rejected
    then have "cache_get_base ops None c req = Some (c3, False)"
      using c1(1) c3(1) by (auto simp: cache_get_base_def Let_def)
    then show ?thesis using rejected c1 c3 assms(3) by (auto simp: same_limits_def)
  next
    case insert
    from c3(6) insert(2) have "req_obj_size req + obj_md_size c3 \<le> cache_size c3" by blast
    from evict_until_fits_ok [OF c3(2) this] obtain c4 where
      c4: "evict_until_fits ops c3 req = Some c4" "inv c4" "contents c4 \<subseteq> contents c"
      "same_limits c3 c4" "op_get_occupied_byte ops c4 + req_obj_size req + obj_md_size c3 \<le> cache_size c3"
      using c3(3) by auto
    have lim4: "same_limits c c4" using c3(4) c4(4) by (rule same_limits_trans)
    have "req_obj_id req \<notin> contents c4" using insert(1) c1(4) c4(3) by auto
    from insert_law [OF c4(2) assms(2) this] c4(4,5) obtain c5 q where
      c5: "op_insert ops c4 req = Some (c5, q)" "inv c5" "same_limits c4 c5"
      "contents c5 \<subseteq> insert (req_obj_id req) (contents c4)"
      "op_get_occupied_byte ops c5 \<le> cache_size c4"
      by (auto simp: same_limits_def)
    have "cache_get_base ops None c req = Some (c5, False)"
      using insert c1(1) c3(1) c4(1) c5(1) by (auto simp: cache_get_base_def Let_def)
    then show ?thesis using insert(1) c1(4) c5 c4(3) same_limits_trans [OF lim4 c5(3)]
      by (auto simp: same_limits_def)
  qed
qed

text \<open>A whole trace is served without a failure, within the capacity.\<close>

lemma serve_ok:
  "inv c \<Longrightarrow> \<forall>req \<in> set reqs. ok_req req \<Longrightarrow> op_get_occupied_byte ops c \<le> cache_size c \<Longrightarrow>
   \<exists>c' hits. serve ops None c reqs = Some (c', hits) \<and> inv c' \<and> length hits = length reqs
     \<and> same_limits c c' \<and> op_get_occupied_byte ops c' \<le> cache_size c'
     \<and> contents c' \<subseteq> contents c \<union> req_obj_id ` set reqs"
proof (induction reqs arbitrary: c)
  case Nil
  then show ?case by simp
next
  case (Cons req reqs)
  from get_base_ok [OF Cons.prems(1) _ Cons.prems(3), of req] Cons.prems(2) obtain c1 hit where
    c1: "cache_get_base ops None c req = Some (c1, hit)" "inv c1" "same_limits c c1"
    "op_get_occupied_byte ops c1 \<le> cache_size c1"
    "contents c1 \<subseteq> insert (req_obj_id req) (contents c)" by auto
  from Cons.IH [OF c1(2) _ c1(4)] Cons.prems(2) obtain c' hits where
    "serve ops None c1 reqs = Some (c', hits)" "inv c'" "length hits = length reqs"
    "same_limits c1 c'" "op_get_occupied_byte ops c' \<le> cache_size c'"
    "contents c' \<subseteq> contents c1 \<union> req_obj_id ` set reqs" by auto
  then show ?case using c1 same_limits_trans by fastforce
qed

end

text \<open>
  A policy that stores every object it is given: after a miss that the cache can hold, the object
  is resident.
\<close>

locale storing_policy = eviction_policy +
  assumes stores_law: "inv c \<Longrightarrow> ok_req req \<Longrightarrow> req_obj_id req \<notin> contents c \<Longrightarrow>
      op_insert ops c req = Some (c', p) \<Longrightarrow> req_obj_id req \<in> contents c'"
    and admits_law: "inv c \<Longrightarrow> admissioner c = None \<Longrightarrow>
      req_obj_size req + obj_md_size c \<le> cache_size c \<Longrightarrow>
      op_can_insert ops c req = Some (c, True)"
    and find_admissioner: "inv c \<Longrightarrow> ok_req req \<Longrightarrow> op_find ops c req True = Some (c', p) \<Longrightarrow>
      admissioner c' = admissioner c"
begin

lemma get_base_resident:
  assumes "inv c" and "ok_req req" and "op_get_occupied_byte ops c \<le> cache_size c"
    and "admissioner c = None" and "req_obj_size req + obj_md_size c \<le> cache_size c"
  shows "\<exists>c' hit. cache_get_base ops None c req = Some (c', hit) \<and> inv c'
    \<and> req_obj_id req \<in> contents c'"
proof -
  let ?c0 = "c\<lparr>n_req := n_req c + 1\<rparr>"
  have c0: "inv ?c0" "contents ?c0 = contents c" using n_req_law [OF assms(1)] by auto
  from find_law [OF c0(1) assms(2)] obtain c1 p where
    c1: "op_find ops ?c0 req True = Some (c1, p)" "inv c1" "contents c1 = contents c"
    "p \<noteq> NULL \<longleftrightarrow> req_obj_id req \<in> contents c" "same_limits c c1"
    using c0 by (auto simp: same_limits_def)
  have ad: "admissioner c1 = None" using find_admissioner [OF c0(1) assms(2) c1(1)] assms(4) by simp
  then have upd: "call_admissioner_update c1 req = c1" by (simp add: call_admissioner_update_def)
  show ?thesis
  proof (cases "p = NULL")
    case False
    then have "cache_get_base ops None c req = Some (c1, True)"
      using c1(1) upd by (auto simp: cache_get_base_def Let_def)
    then show ?thesis using False c1 by auto
  next
    case True
    have fits: "req_obj_size req + obj_md_size c1 \<le> cache_size c1"
      using assms(5) c1(5) by (simp add: same_limits_def)
    from evict_until_fits_ok [OF c1(2) fits] obtain c4 where
      c4: "evict_until_fits ops c1 req = Some c4" "inv c4" "contents c4 \<subseteq> contents c"
      "same_limits c1 c4" "op_get_occupied_byte ops c4 + req_obj_size req + obj_md_size c1 \<le> cache_size c1"
      using c1(3) by auto
    have miss: "req_obj_id req \<notin> contents c4" using True c1(4) c4(3) by auto
    from insert_law [OF c4(2) assms(2) miss] c4(4,5) obtain c5 q where
      c5: "op_insert ops c4 req = Some (c5, q)" "inv c5" by (auto simp: same_limits_def)
    have "cache_get_base ops None c req = Some (c5, False)"
      using True c1(1) upd admits_law [OF c1(2) ad fits] c4(1) c5(1)
      by (auto simp: cache_get_base_def Let_def)
    then show ?thesis using c5 stores_law [OF c4(2) assms(2) miss c5(1)] by blast
  qed
qed

end

end
