(* ===== verification/Queue_Cache.thy ===== *)
theory Queue_Cache
  imports Policy
begin

text \<open>
  What the queue-based algorithms share: the base functions seen from the queues that hold the
  objects.  An insertion leaves every queue of the cache intact and creates an object outside of
  them; the removal of an object that has been unlinked leaves every other queue intact.

  The second half states the contract of an algorithm that refines an abstract machine
  (\<open>refined_policy\<close>): each operation simulates a function on an abstract state.  The request path
  then simulates \<open>spec_get\<close>, and the laws of \<open>storing_policy\<close> follow.
\<close>

section \<open>Payload\<close>

text \<open>An object without its links: what no list and no table operation changes.\<close>

definition payload :: "cache_obj \<Rightarrow> cache_obj" where
  "payload ob = ob\<lparr>hash_next := NULL, q_prev := NULL, q_next := NULL\<rparr>"

definition same_payload :: "addr set \<Rightarrow> heap \<Rightarrow> heap \<Rightarrow> bool" where
  "same_payload A h h' \<longleftrightarrow> (\<forall>a \<in> A. map_option payload (h' a) = map_option payload (h a))"

lemma payload_noq [simp]: "payload (noq ob) = payload ob"
  by (simp add: payload_def noq_def)

lemma payload_nohash [simp]: "payload (nohash ob) = payload ob"
  by (simp add: payload_def nohash_def)

lemma payload_simps [simp]:
  "obj_id (payload ob) = obj_id ob" "obj_size (payload ob) = obj_size ob"
  "next_access_vtime (payload ob) = next_access_vtime ob" "freq (payload ob) = freq ob"
  "cost (payload ob) = cost ob" "exp_time (payload ob) = exp_time ob"
  "lfu_freq (payload ob) = lfu_freq ob" "clock_freq (payload ob) = clock_freq ob"
  "sieve_freq (payload ob) = sieve_freq ob" "S3FIFO_freq (payload ob) = S3FIFO_freq ob"
  "SLRU_lru_id (payload ob) = SLRU_lru_id ob" "pq_node (payload ob) = pq_node ob"
  "Belady_next_access_vtime (payload ob) = Belady_next_access_vtime ob"
  by (simp_all add: payload_def)

lemma same_payload_refl [simp]: "same_payload A h h"
  by (simp add: same_payload_def)

lemma same_payload_trans:
  "same_payload A h h' \<Longrightarrow> same_payload A h' h'' \<Longrightarrow> same_payload A h h''"
  by (simp add: same_payload_def)

lemma same_payload_mono: "same_payload A h h' \<Longrightarrow> B \<subseteq> A \<Longrightarrow> same_payload B h h'"
  by (auto simp: same_payload_def)

lemma same_payload_upd_other [simp]:
  "a \<notin> A \<Longrightarrow> same_payload A h (h'(a := v)) = same_payload A h h'"
  "a \<notin> A \<Longrightarrow> same_payload A (h(a := v)) h' = same_payload A h h'"
  by (auto simp: same_payload_def)

lemma map_option_comp_eq:
  assumes "map_option f x = map_option f y" and "\<And>z. g (f z) = g z"
  shows "map_option g x = map_option g y"
  using arg_cong [OF assms(1), of "map_option g"] by (simp add: option.map_comp comp_def assms(2))

lemma same_payload_qframe: "qframe S h h' \<Longrightarrow> same_payload A h h'"
  unfolding same_payload_def qframe_def by (auto intro: map_option_comp_eq [of noq])

lemma same_payload_hframe: "hframe S h h' \<Longrightarrow> same_payload A h h'"
  unfolding same_payload_def hframe_def by (auto intro: map_option_comp_eq [of nohash])

lemma same_payload_the:
  assumes "same_payload A h h'" and "a \<in> A" and "\<And>ob. f (payload ob) = f ob" and "a \<in> dom h"
  shows "f (the (h' a)) = f (the (h a))"
proof -
  have "map_option f (h' a) = map_option f (h a)"
    using assms(1,2) by (auto simp: same_payload_def intro: map_option_comp_eq [of payload] assms(3))
  then show ?thesis using assms(4) by (auto simp: domIff)
qed

lemma same_payload_map:
  assumes "same_payload A h h'" and "set xs \<subseteq> A" and "\<And>ob. f (payload ob) = f ob"
    and "set xs \<subseteq> dom h"
  shows "map (\<lambda>a. f (the (h' a))) xs = map (\<lambda>a. f (the (h a))) xs"
  using same_payload_the [where f = f, OF assms(1) _ assms(3)] assms(2,4) by (simp add: subset_iff)

lemma entry_alt: "entry h a = (\<lambda>ob. (obj_id ob, obj_size ob)) (the (h a))"
  by (simp add: entry_def)

lemma same_payload_entries:
  "same_payload A h h' \<Longrightarrow> set xs \<subseteq> A \<Longrightarrow> set xs \<subseteq> dom h \<Longrightarrow> entries h' xs = entries h xs"
  unfolding entry_alt [abs_def] by (rule same_payload_map) auto

lemma ids_in_entries: "ids_in h (set xs) = fst ` set (entries h xs)"
  by (auto simp: ids_in_def entry_def image_iff)

section \<open>The base functions on queues\<close>

text \<open>The resident ids of a cache that keeps all its objects in its own table.\<close>

definition resident :: "('a, 'f, 'p) cache_t \<Rightarrow> obj_id_t set" where
  "resident c = ids_in (store c) (dom (store c))"

lemma resident_fields [simp]:
  "resident (c\<lparr>eviction_params := p\<rparr>) = resident c" "resident (c\<lparr>n_req := n\<rparr>) = resident c"
  "resident (c\<lparr>admissioner := ad\<rparr>) = resident c"
  by (simp_all add: resident_def)

lemma cache_ok_resident: "cache_ok E W c A \<Longrightarrow> resident c = ids_in (store c) A"
  by (simp add: resident_def cache_okD(2))

text \<open>The cache after the base insertion and after the base removal.\<close>

abbreviation grown :: "('a, 'f, 'p) cache_t \<Rightarrow> heap \<Rightarrow> hashtable_t \<Rightarrow> int \<Rightarrow> ('a, 'f, 'p) cache_t" where
  "grown c h ht sz \<equiv> c\<lparr>store := h, brk := Suc (brk c), hashtable := ht,
     occupied_byte := occupied_byte c + (sz + obj_md_size c), n_obj := n_obj c + 1\<rparr>"

abbreviation shrunk :: "('a, 'f, 'p) cache_t \<Rightarrow> heap \<Rightarrow> hashtable_t \<Rightarrow> int \<Rightarrow> ('a, 'f, 'p) cache_t" where
  "shrunk c h ht sz \<equiv> c\<lparr>occupied_byte := occupied_byte c - (sz + obj_md_size c),
     n_obj := n_obj c - 1, store := h, hashtable := ht\<rparr>"

lemma dll_upd_other: "a \<notin> set xs \<Longrightarrow> dll (h(a := v)) qh qt xs = dll h qh qt xs"
  by (simp add: dll_def)

lemma dll_subset_dom: "dll h qh qt xs \<Longrightarrow> set xs \<subseteq> dom h"
  using dll_live by fastforce

lemma dll_prev:
  assumes "dll h qh qt xs" and "i < length xs" and "h (xs ! i) = Some ob"
  shows "q_prev ob = (if i = 0 then NULL else Some (xs ! (i - 1)))"
proof -
  have "dseg h NULL (take i xs @ xs ! i # drop (Suc i) xs) NULL"
    using assms(1,2) by (simp add: dll_def id_take_nth_drop [symmetric])
  then have "q_prev ob = lastp (take i xs) NULL" using assms(3) by auto
  then show ?thesis using assms(2) by (auto simp: lastp_def last_conv_nth)
qed

lemma dll_tail: "dll h qh qt xs \<Longrightarrow> xs \<noteq> [] \<Longrightarrow> qt = Some (xs ! (length xs - 1))"
  by (simp add: dll_def lastp_def last_conv_nth)

lemma insert_base_queues:
  assumes "cache_ok E W c A" and "req_obj_id req \<in> fst W" and "req_obj_id req \<notin> ids_in (store c) A"
  shows "\<exists>h ht ob. cache_insert_base E c req = Some (grown c h ht (req_obj_size req), Some (brk c))
    \<and> cache_ok E W (grown c h ht (req_obj_size req)) (insert (brk c) A)
    \<and> (\<forall>qh qt xs. dll (store c) qh qt xs \<longrightarrow> dll h qh qt xs)
    \<and> same_payload A (store c) h \<and> h (brk c) = Some ob \<and> payload ob = inserted_obj E c req"
proof -
  note ok = cache_okD [OF assms(1)]
  from insert_base_ok [OF assms] obtain h ht ob where
    ins: "cache_insert_base E c req = Some (grown c h ht (req_obj_size req), Some (brk c))"
    and cok: "cache_ok E W (grown c h ht (req_obj_size req)) (insert (brk c) A)"
    and fr: "hframe A (store c) (h(brk c := None))" and ob: "h (brk c) = Some ob"
    and new: "nohash ob = inserted_obj E c req" by blast
  have "dll h qh qt xs" if "dll (store c) qh qt xs" for qh qt xs
  proof -
    have "brk c \<notin> set xs" using dll_subset_dom [OF that] ok(7) by blast
    then show ?thesis using hframe_dll [OF fr that] by (simp add: dll_upd_other)
  qed
  moreover have "same_payload A (store c) h"
    using same_payload_hframe [OF fr, of A] ok(8) by simp
  moreover have "payload ob = payload (inserted_obj E c req)"
    unfolding new [symmetric] by simp
  then have "payload ob = inserted_obj E c req"
    by (simp add: payload_def inserted_obj_def copy_request_to_cache_obj_def zero_obj_def Let_def)
  ultimately show ?thesis using ins cok ob by blast
qed

lemma remove_obj_base_queues:
  assumes "spread E W" and "cache_ok E W c A" and "store c a = Some ob"
  shows "\<exists>h ht. cache_remove_obj_base E c (Some a) True = Some (shrunk c h ht (obj_size ob))
    \<and> cache_ok E W (shrunk c h ht (obj_size ob)) (A - {a})
    \<and> (\<forall>qh qt xs. dll (store c) qh qt xs \<longrightarrow> a \<notin> set xs \<longrightarrow> dll h qh qt xs)
    \<and> same_payload (A - {a}) (store c) h"
proof -
  from remove_obj_base_ok [OF assms] obtain h ht where
    rm: "cache_remove_obj_base E c (Some a) True = Some (shrunk c h ht (obj_size ob))"
    and cok: "cache_ok E W (shrunk c h ht (obj_size ob)) (A - {a})"
    and fr: "hframe (A - {a}) ((store c)(a := None)) h" by blast
  have "dll h qh qt xs" if "dll (store c) qh qt xs" "a \<notin> set xs" for qh qt xs
    using hframe_dll [OF fr] that by (simp add: dll_upd_other)
  moreover have "same_payload (A - {a}) (store c) h"
    using same_payload_hframe [OF fr, of "A - {a}"] by simp
  ultimately show ?thesis using rm cok by blast
qed

text \<open>The hand-written unlinking of the tail.\<close>

lemma unlink_tail_dll:
  assumes "dll h qh qt (xs @ [a])" and "h a = Some ob"
  shows "\<exists>h'. (if q_prev ob \<noteq> NULL then set_next h (q_prev ob) NULL else Some h) = Some h'
    \<and> dll h' (if q_prev ob \<noteq> NULL then qh else NULL) (q_prev ob) xs
    \<and> qframe (set (xs @ [a])) h h'"
proof -
  have "xs = [] \<or> (\<exists>us u. xs = us @ [u])" by (rule split_last_addr)
  then show ?thesis using assms
    by (elim disjE exE) (auto simp: dll_def intro!: qframe_upd)
qed

section \<open>Refinement\<close>

text \<open>
  The abstract machine of an algorithm: its state \<open>'s\<close>, the resident ids, the bytes they occupy
  (given the per-object metadata size), and the three transitions.
\<close>

record 's machine =
  m_ids :: "'s \<Rightarrow> obj_id_t set"
  m_bytes :: "int \<Rightarrow> 's \<Rightarrow> int"
  m_hit :: "request \<Rightarrow> 's \<Rightarrow> 's"
  m_evict :: "'s \<Rightarrow> 's"
  m_insert :: "request \<Rightarrow> 's \<Rightarrow> 's"

partial_function (option) spec_evict :: "'s machine \<Rightarrow> int \<Rightarrow> int \<Rightarrow> request \<Rightarrow> 's \<Rightarrow> 's option" where
  "spec_evict M cap md req s =
    (if m_bytes M md s + req_obj_size req + md > cap then spec_evict M cap md req (m_evict M s)
     else Some s)"

definition spec_get :: "'s machine \<Rightarrow> int \<Rightarrow> int \<Rightarrow> request \<Rightarrow> 's \<Rightarrow> ('s \<times> bool) option" where
  "spec_get M cap md req s =
    (if req_obj_id req \<in> m_ids M s then Some (m_hit M req s, True)
     else if req_obj_size req + md > cap then Some (s, False)
     else map_option (\<lambda>s. (m_insert M req s, False)) (spec_evict M cap md req s))"

fun spec_serve :: "'s machine \<Rightarrow> int \<Rightarrow> int \<Rightarrow> 's \<Rightarrow> request list \<Rightarrow> ('s \<times> bool list) option" where
  "spec_serve M cap md s [] = Some (s, [])"
| "spec_serve M cap md s (req # reqs) = do {
     (s, hit) \<leftarrow> spec_get M cap md req s;
     (s, hits) \<leftarrow> spec_serve M cap md s reqs;
     Some (s, hit # hits) }"

locale refined_policy =
  fixes ops :: "('a, 'f, 'p) cache_t cache_ops"
    and R :: "('a, 'f, 'p) cache_t \<Rightarrow> 's \<Rightarrow> bool"
    and M :: "'s machine"
    and ok_req :: "request \<Rightarrow> bool"
  assumes R_n_req: "R c s \<Longrightarrow> R (c\<lparr>n_req := n\<rparr>) s"
    and R_admissioner: "R c s \<Longrightarrow> R (c\<lparr>admissioner := ad\<rparr>) s"
    and R_resident: "R c s \<Longrightarrow> resident c = m_ids M s"
    and R_bytes: "R c s \<Longrightarrow> op_get_occupied_byte ops c = m_bytes M (obj_md_size c) s"
    and R_can_insert: "R c s \<Longrightarrow> op_can_insert ops c req = cache_can_insert_default c req"
    and R_find: "R c s \<Longrightarrow> ok_req req \<Longrightarrow> \<exists>c' p. op_find ops c req True = Some (c', p)
        \<and> same_limits c c' \<and> admissioner c' = admissioner c
        \<and> (if req_obj_id req \<in> m_ids M s then p \<noteq> NULL \<and> R c' (m_hit M req s)
            else p = NULL \<and> R c' s)"
    and R_evict: "R c s \<Longrightarrow> m_ids M s \<noteq> {} \<Longrightarrow> \<exists>c'. op_evict ops c req = Some c'
        \<and> same_limits c c' \<and> admissioner c' = admissioner c \<and> R c' (m_evict M s)"
    and R_insert: "R c s \<Longrightarrow> ok_req req \<Longrightarrow> req_obj_id req \<notin> m_ids M s \<Longrightarrow>
        \<exists>c' p. op_insert ops c req = Some (c', p) \<and> same_limits c c' \<and> admissioner c' = admissioner c
        \<and> R c' (m_insert M req s)"
    and M_finite: "R c s \<Longrightarrow> finite (m_ids M s)"
    and M_hit: "R c s \<Longrightarrow> req_obj_id req \<in> m_ids M s \<Longrightarrow>
        m_ids M (m_hit M req s) = m_ids M s \<and> m_bytes M md (m_hit M req s) = m_bytes M md s"
    and M_evict: "R c s \<Longrightarrow> m_ids M s \<noteq> {} \<Longrightarrow> m_ids M (m_evict M s) \<subset> m_ids M s"
    and M_empty: "R c s \<Longrightarrow> m_ids M s = {} \<Longrightarrow> m_bytes M md s = 0"
    and M_insert: "R c s \<Longrightarrow> m_ids M (m_insert M req s) = insert (req_obj_id req) (m_ids M s)
        \<and> m_bytes M md (m_insert M req s) = m_bytes M md s + req_obj_size req + md"
begin

lemma find_storing:
  assumes "R c s" and "ok_req req"
  shows "\<exists>c' p. op_find ops c req True = Some (c', p) \<and> (\<exists>s. R c' s) \<and> resident c' = resident c
    \<and> (p \<noteq> NULL \<longleftrightarrow> req_obj_id req \<in> resident c) \<and> same_limits c c'
    \<and> op_get_occupied_byte ops c' = op_get_occupied_byte ops c \<and> admissioner c' = admissioner c"
proof -
  from R_find [OF assms] obtain c' p where
    c': "op_find ops c req True = Some (c', p)" "same_limits c c'" "admissioner c' = admissioner c"
    "if req_obj_id req \<in> m_ids M s then p \<noteq> NULL \<and> R c' (m_hit M req s) else p = NULL \<and> R c' s"
    by blast
  have md: "obj_md_size c' = obj_md_size c" using c'(2) by (simp add: same_limits_def)
  show ?thesis
  proof (cases "req_obj_id req \<in> m_ids M s")
    case True
    with c' have r: "p \<noteq> NULL" "R c' (m_hit M req s)" by auto
    show ?thesis using c' r True M_hit [OF assms(1) True]
      by (auto simp: R_resident [OF r(2)] R_resident [OF assms(1)] R_bytes [OF r(2)]
          R_bytes [OF assms(1)] md)
  next
    case False
    with c' have r: "p = NULL" "R c' s" by auto
    show ?thesis using c' r False
      by (auto simp: R_resident [OF r(2)] R_resident [OF assms(1)] R_bytes [OF r(2)]
          R_bytes [OF assms(1)] md)
  qed
qed

lemma can_insert_storing:
  assumes "R c s"
  shows "\<exists>c' b. op_can_insert ops c req = Some (c', b) \<and> (\<exists>s. R c' s) \<and> resident c' = resident c
    \<and> same_limits c c' \<and> op_get_occupied_byte ops c' = op_get_occupied_byte ops c
    \<and> (b \<longrightarrow> req_obj_size req + obj_md_size c \<le> cache_size c)"
proof -
  have r: "R (c\<lparr>admissioner := ad\<rparr>) s" for ad by (rule R_admissioner [OF assms])
  have occ: "op_get_occupied_byte ops (c\<lparr>admissioner := ad\<rparr>) = op_get_occupied_byte ops c" for ad
    using R_bytes [OF r] R_bytes [OF assms] by simp
  have "\<exists>ad b. cache_can_insert_default c req = Some (c\<lparr>admissioner := ad\<rparr>, b)
      \<and> (b \<longrightarrow> req_obj_size req + obj_md_size c \<le> cache_size c)"
    by (cases "admissioner c")
      (auto simp: cache_can_insert_default_def Let_def split: prod.split intro: exI [of _ None])
  then obtain ad b where "op_can_insert ops c req = Some (c\<lparr>admissioner := ad\<rparr>, b)"
    "b \<longrightarrow> req_obj_size req + obj_md_size c \<le> cache_size c"
    unfolding R_can_insert [OF assms] by blast
  then show ?thesis using r [of ad] occ [of ad] by auto
qed

end

sublocale refined_policy \<subseteq> storing_policy ops "\<lambda>c. \<exists>s. R c s" resident "\<lambda>c. card (resident c)" ok_req
proof (standard, goal_cases)
  case (1 c n)
  then obtain s where "R c s" by blast
  then show ?case using R_n_req [of c s n] R_bytes [of c s] R_bytes [of "c\<lparr>n_req := n\<rparr>" s] by auto
next
  case (2 c ad)
  then obtain s where "R c s" by blast
  then show ?case
    using R_admissioner [of c s ad] R_bytes [of c s] R_bytes [of "c\<lparr>admissioner := ad\<rparr>" s] by auto
next
  case (3 c req)
  then show ?case using find_storing by blast
next
  case (4 c req)
  then show ?case using can_insert_storing by blast
next
  case (5 c req)
  then obtain s where s: "R c s" "m_ids M s \<noteq> {}" using R_resident by metis
  then obtain c' where c': "op_evict ops c req = Some c'" "same_limits c c'" "R c' (m_evict M s)"
    using R_evict by blast
  have "card (m_ids M (m_evict M s)) < card (m_ids M s)"
    by (rule psubset_card_mono [OF M_finite [OF s(1)] M_evict [OF s]])
  then show ?case using c' M_evict [OF s] R_resident [OF s(1)] R_resident [OF c'(3)] by auto
next
  case (6 c)
  then show ?case using M_empty by (auto simp: R_resident R_bytes)
next
  case (7 c req)
  then obtain s where s: "R c s" "req_obj_id req \<notin> m_ids M s" using R_resident by metis
  then obtain c' p where c': "op_insert ops c req = Some (c', p)" "same_limits c c'"
    "R c' (m_insert M req s)" using R_insert 7(2) by blast
  then show ?case using 7(4) s M_insert [OF s(1), of req "obj_md_size c"]
    by (auto simp: R_resident R_bytes same_limits_def)
next
  case (8 c req c' p)
  then obtain s where s: "R c s" "req_obj_id req \<notin> m_ids M s" using R_resident by metis
  with 8 have "R c' (m_insert M req s)" using R_insert [OF s(1) 8(2) s(2)] by auto
  then show ?case using M_insert [OF s(1)] by (auto simp: R_resident)
next
  case (9 c req)
  then show ?case by (auto simp: R_can_insert cache_can_insert_default_def)
next
  case (10 c req c' p)
  then show ?case using find_storing by fastforce
qed

context refined_policy
begin

text \<open>The eviction loop and the request path simulate the abstract ones.\<close>

lemma evict_until_fits_refines:
  "R c s \<Longrightarrow> req_obj_size req + obj_md_size c \<le> cache_size c \<Longrightarrow>
   \<exists>c' s'. evict_until_fits ops c req = Some c'
     \<and> spec_evict M (cache_size c) (obj_md_size c) req s = Some s' \<and> R c' s' \<and> same_limits c c'
     \<and> admissioner c' = admissioner c \<and> m_ids M s' \<subseteq> m_ids M s"
proof (induction "card (m_ids M s)" arbitrary: c s rule: less_induct)
  case less
  note occ = R_bytes [OF less.prems(1)]
  show ?case
  proof (cases "m_bytes M (obj_md_size c) s + req_obj_size req + obj_md_size c > cache_size c")
    case False
    then show ?thesis using less.prems occ
      by (simp add: evict_until_fits.simps spec_evict.simps)
  next
    case True
    with less.prems M_empty [OF less.prems(1)] have ne: "m_ids M s \<noteq> {}" by auto
    from R_evict [OF less.prems(1) ne] obtain c1 where
      c1: "op_evict ops c req = Some c1" "same_limits c c1" "R c1 (m_evict M s)"
      "admissioner c1 = admissioner c" by blast
    have lim: "cache_size c1 = cache_size c" "obj_md_size c1 = obj_md_size c"
      using c1(2) by (auto simp: same_limits_def)
    note sub = M_evict [OF less.prems(1) ne]
    from less.hyps [OF psubset_card_mono [OF M_finite [OF less.prems(1)] sub] c1(3)] less.prems(2) lim
    obtain c' s' where c': "evict_until_fits ops c1 req = Some c'"
      "spec_evict M (cache_size c) (obj_md_size c) req (m_evict M s) = Some s'" "R c' s'"
      "same_limits c1 c'" "m_ids M s' \<subseteq> m_ids M (m_evict M s)" "admissioner c' = admissioner c1" by auto
    have "evict_until_fits ops c req = Some c'"
      using True occ c1(1) c'(1) by (subst evict_until_fits.simps) simp
    moreover have "spec_evict M (cache_size c) (obj_md_size c) req s = Some s'"
      using True c'(2) by (subst spec_evict.simps) simp
    ultimately show ?thesis using c'(3,5,6) sub same_limits_trans [OF c1(2) c'(4)] c1(4) by auto
  qed
qed

lemma get_refines:
  assumes "R c s" and "ok_req req" and "admissioner c = None"
  shows "\<exists>c' s' hit. cache_get_base ops None c req = Some (c', hit) \<and> R c' s'
    \<and> spec_get M (cache_size c) (obj_md_size c) req s = Some (s', hit)
    \<and> same_limits c c' \<and> admissioner c' = None"
proof -
  let ?c0 = "c\<lparr>n_req := n_req c + 1\<rparr>"
  from R_find [OF R_n_req [OF assms(1)] assms(2), of "n_req c + 1"] obtain c1 p where
    f: "op_find ops ?c0 req True = Some (c1, p)" "same_limits c c1" "admissioner c1 = None"
    "if req_obj_id req \<in> m_ids M s then p \<noteq> NULL \<and> R c1 (m_hit M req s) else p = NULL \<and> R c1 s"
    using assms(3) by (auto simp: same_limits_def)
  have upd: "call_admissioner_update c1 req = c1" using f(3) by (simp add: call_admissioner_update_def)
  have lim: "cache_size c1 = cache_size c" "obj_md_size c1 = obj_md_size c"
    using f(2) by (auto simp: same_limits_def)
  consider (hit) "req_obj_id req \<in> m_ids M s"
    | (big) "req_obj_id req \<notin> m_ids M s" "req_obj_size req + obj_md_size c > cache_size c"
    | (miss) "req_obj_id req \<notin> m_ids M s" "req_obj_size req + obj_md_size c \<le> cache_size c"
    by linarith
  then show ?thesis
  proof cases
    case hit
    with f have r: "p \<noteq> NULL" "R c1 (m_hit M req s)" by auto
    then have "cache_get_base ops None c req = Some (c1, True)"
      using f(1) upd by (auto simp: cache_get_base_def Let_def)
    with r f(2,3) hit show ?thesis by (auto simp: spec_get_def)
  next
    case big
    with f have r: "p = NULL" "R c1 s" by auto
    have "op_can_insert ops c1 req = Some (c1, False)"
      using big f(3) lim by (simp add: R_can_insert [OF r(2)] cache_can_insert_default_def)
    then have "cache_get_base ops None c req = Some (c1, False)"
      using f(1) upd r(1) by (auto simp: cache_get_base_def Let_def)
    with r f(2,3) big show ?thesis by (auto simp: spec_get_def)
  next
    case miss
    with f have r: "p = NULL" "R c1 s" by auto
    have can: "op_can_insert ops c1 req = Some (c1, True)"
      using miss f(3) lim by (simp add: R_can_insert [OF r(2)] cache_can_insert_default_def)
    from evict_until_fits_refines [OF r(2), of req] miss lim obtain c2 s2 where
      e: "evict_until_fits ops c1 req = Some c2" "R c2 s2" "same_limits c1 c2" "admissioner c2 = None"
      "spec_evict M (cache_size c) (obj_md_size c) req s = Some s2" "m_ids M s2 \<subseteq> m_ids M s" using f(3) by auto
    from R_insert [OF e(2) assms(2)] miss e(6) obtain c3 q where
      i: "op_insert ops c2 req = Some (c3, q)" "same_limits c2 c3" "R c3 (m_insert M req s2)"
      "admissioner c3 = None" using e(4) by auto
    have "cache_get_base ops None c req = Some (c3, False)"
      using f(1) upd r(1) can e(1) i(1) by (auto simp: cache_get_base_def Let_def)
    then show ?thesis using miss e(5) i f(2) e(3) by (auto simp: spec_get_def same_limits_def)
  qed
qed

lemma serve_refines:
  "R c s \<Longrightarrow> \<forall>req \<in> set reqs. ok_req req \<Longrightarrow> admissioner c = None \<Longrightarrow>
   \<exists>c' s' hits. serve ops None c reqs = Some (c', hits) \<and> R c' s'
     \<and> spec_serve M (cache_size c) (obj_md_size c) s reqs = Some (s', hits) \<and> same_limits c c'"
proof (induction reqs arbitrary: c s)
  case Nil
  then show ?case by auto
next
  case (Cons req reqs)
  from get_refines [OF Cons.prems(1) _ Cons.prems(3), of req] Cons.prems(2) obtain c1 s1 hit where
    g: "cache_get_base ops None c req = Some (c1, hit)" "R c1 s1"
    "spec_get M (cache_size c) (obj_md_size c) req s = Some (s1, hit)" "same_limits c c1"
    "admissioner c1 = None" by auto
  have lim: "cache_size c1 = cache_size c" "obj_md_size c1 = obj_md_size c"
    using g(4) by (auto simp: same_limits_def)
  from Cons.IH [OF g(2) _ g(5)] Cons.prems(2) lim obtain c' s' hits where
    "serve ops None c1 reqs = Some (c', hits)" "R c' s'"
    "spec_serve M (cache_size c) (obj_md_size c) s1 reqs = Some (s', hits)" "same_limits c1 c'" by auto
  then show ?case using g same_limits_trans by auto
qed

end

end
