(* ===== verification/Queue_Refine.thy ===== *)
theory Queue_Refine
  imports Queue_Cache
begin

text \<open>
  Caches that keep all their objects in one queue (FIFO, LRU and the algorithms built like them).
  The abstract state is the list of what an algorithm sees of its objects, from the newest to the
  oldest: the id with the size, or with the size and a counter.  What is seen is a function of the
  object, a parameter of the locale \<open>object_view\<close>; \<open>queue_R\<close> is the abstraction relation, and the
  lemmas of the locale show each step that the algorithms take on the store to be a step on the
  list.  \<open>queue_machine\<close> is the abstract machine of FIFO and LRU.
\<close>

section \<open>The abstract queue\<close>

type_synonym 'x queue = "(obj_id_t \<times> 'x) list"

definition queue_victim :: "pin_pred \<Rightarrow> 'x queue \<Rightarrow> obj_id_t \<times> 'x" where
  "queue_victim pn es =
    (case find (\<lambda>e. case pn of None \<Rightarrow> True | Some f \<Rightarrow> \<not> f (fst e)) (rev es) of
       None \<Rightarrow> last es | Some e \<Rightarrow> e)"

definition queue_delete :: "obj_id_t \<Rightarrow> 'x queue \<Rightarrow> 'x queue" where
  "queue_delete i es = filter (\<lambda>e. fst e \<noteq> i) es"

definition queue_promote :: "obj_id_t \<Rightarrow> 'x queue \<Rightarrow> 'x queue" where
  "queue_promote i es = filter (\<lambda>e. fst e = i) es @ queue_delete i es"

definition view_bytes :: "('x \<Rightarrow> int) \<Rightarrow> int \<Rightarrow> 'x queue \<Rightarrow> int" where
  "view_bytes sz md es = (\<Sum>e \<leftarrow> es. sz (snd e) + md)"

abbreviation queue_bytes :: "int \<Rightarrow> int queue \<Rightarrow> int" where
  "queue_bytes \<equiv> view_bytes (\<lambda>n. n)"

definition queue_machine :: "pin_pred \<Rightarrow> bool \<Rightarrow> int queue machine" where
  "queue_machine pn promote =
    \<lparr>m_ids = \<lambda>es. fst ` set es, m_bytes = queue_bytes,
     m_hit = \<lambda>req es. if promote then queue_promote (req_obj_id req) es else es,
     m_evict = \<lambda>es. queue_delete (fst (queue_victim pn es)) es,
     m_insert = \<lambda>req es. (req_obj_id req, req_obj_size req) # es\<rparr>"

lemma queue_machine_simps [simp]:
  "m_ids (queue_machine pn pr) es = fst ` set es"
  "m_bytes (queue_machine pn pr) = queue_bytes"
  "m_hit (queue_machine pn pr) req es = (if pr then queue_promote (req_obj_id req) es else es)"
  "m_evict (queue_machine pn pr) es = queue_delete (fst (queue_victim pn es)) es"
  "m_insert (queue_machine pn pr) req es = (req_obj_id req, req_obj_size req) # es"
  by (simp_all add: queue_machine_def)

lemma queue_victim_mem: "es \<noteq> [] \<Longrightarrow> queue_victim pn es \<in> set es"
  by (auto simp: queue_victim_def split: option.splits dest: find_Some_mem)

lemma queue_victim_no_pin [simp]: "es \<noteq> [] \<Longrightarrow> queue_victim None es = last es"
  by (cases es rule: rev_cases) (auto simp: queue_victim_def)

lemma queue_victim_pinned:
  assumes "es \<noteq> []" and "f (fst (queue_victim (Some f) es))"
  shows "\<forall>e \<in> set es. f (fst e)"
  using assms by (auto simp: queue_victim_def find_None_iff find_Some_iff split: option.splits)

lemma queue_delete_split:
  assumes "distinct (map fst (us @ e # vs))"
  shows "queue_delete (fst e) (us @ e # vs) = us @ vs"
proof -
  have "filter (\<lambda>d. fst d \<noteq> fst e) us = us" "filter (\<lambda>d. fst d \<noteq> fst e) vs = vs"
    using assms by (auto intro!: filter_True simp: rev_image_eqI)
  then show ?thesis by (simp add: queue_delete_def)
qed

lemma queue_promote_split:
  assumes "distinct (map fst (us @ e # vs))"
  shows "queue_promote (fst e) (us @ e # vs) = e # us @ vs"
proof -
  have "filter (\<lambda>d. fst d = fst e) us = []" "filter (\<lambda>d. fst d = fst e) vs = []"
    using assms by (auto simp: filter_empty_conv rev_image_eqI)
  then show ?thesis using queue_delete_split [OF assms] by (simp add: queue_promote_def)
qed

lemma queue_map_split:
  assumes "distinct (map fst (us @ e # vs))"
  shows "map (\<lambda>d. if fst d = fst e then g d else d) (us @ e # vs) = us @ g e # vs"
proof -
  have "map (\<lambda>d. if fst d = fst e then g d else d) us = us" "map (\<lambda>d. if fst d = fst e then g d else d) vs = vs"
    using assms by (auto intro!: map_idI simp: rev_image_eqI)
  then show ?thesis by simp
qed

lemma queue_delete_absent: "i \<notin> fst ` set es \<Longrightarrow> queue_delete i es = es"
  by (auto simp: queue_delete_def rev_image_eqI intro!: filter_True)

lemma view_bytes_simps [simp]:
  "view_bytes sz md [] = 0" "view_bytes sz md (e # es) = sz (snd e) + md + view_bytes sz md es"
  "view_bytes sz md (es @ es') = view_bytes sz md es + view_bytes sz md es'"
  by (simp_all add: view_bytes_def)

lemma queue_ids_simps [simp]:
  "fst ` set (queue_delete i es) = fst ` set es - {i}"
  "i \<in> fst ` set es \<Longrightarrow> fst ` set (queue_promote i es) = fst ` set es"
  by (force simp: queue_delete_def queue_promote_def)+

lemma view_bytes_promote [simp]: "view_bytes sz md (queue_promote i es) = view_bytes sz md es"
  by (induction es) (auto simp: queue_promote_def queue_delete_def)

subsection \<open>The request on the abstract queue\<close>

lemma queue_evict_shorter:
  "es \<noteq> [] \<Longrightarrow> length (queue_delete (fst (queue_victim pn es)) es) < length es"
  unfolding queue_delete_def by (rule length_filter_less [OF queue_victim_mem]) simp_all

function queue_trim :: "pin_pred \<Rightarrow> int \<Rightarrow> int \<Rightarrow> int queue \<Rightarrow> int queue" where
  "queue_trim pn room md es =
    (if queue_bytes md es \<le> room \<or> es = [] then es
     else queue_trim pn room md (queue_delete (fst (queue_victim pn es)) es))"
  by pat_completeness auto
termination
  by (relation "measure (\<lambda>(pn, room, md, es). length es)") (auto simp: queue_evict_shorter)

declare queue_trim.simps [simp del]

definition queue_get :: "pin_pred \<Rightarrow> bool \<Rightarrow> int \<Rightarrow> int \<Rightarrow> request \<Rightarrow> int queue \<Rightarrow> int queue \<times> bool" where
  "queue_get pn promote cap md req es =
    (if req_obj_id req \<in> fst ` set es
     then (if promote then queue_promote (req_obj_id req) es else es, True)
     else if req_obj_size req + md > cap then (es, False)
     else ((req_obj_id req, req_obj_size req) # queue_trim pn (cap - req_obj_size req - md) md es, False))"

lemma spec_evict_queue:
  assumes "req_obj_size req + md \<le> cap"
  shows "spec_evict (queue_machine pn pr) cap md req es
    = Some (queue_trim pn (cap - req_obj_size req - md) md es)"
proof (induction es rule: length_induct)
  case (1 es)
  show ?case
  proof (cases "queue_bytes md es + req_obj_size req + md > cap")
    case True
    with assms have ne: "es \<noteq> []" by auto
    then show ?thesis using True 1 queue_evict_shorter [OF ne]
      by (subst spec_evict.simps, subst queue_trim.simps) auto
  next
    case False
    then show ?thesis by (subst spec_evict.simps, subst queue_trim.simps) auto
  qed
qed

lemma spec_get_queue:
  "spec_get (queue_machine pn pr) cap md req es = Some (queue_get pn pr cap md req es)"
  by (simp add: spec_get_def queue_get_def spec_evict_queue)

fun queue_serve :: "pin_pred \<Rightarrow> bool \<Rightarrow> int \<Rightarrow> int \<Rightarrow> int queue \<Rightarrow> request list \<Rightarrow> int queue \<times> bool list" where
  "queue_serve pn pr cap md es [] = (es, [])"
| "queue_serve pn pr cap md es (req # reqs) =
    (let (es, hit) = queue_get pn pr cap md req es;
         (es, hits) = queue_serve pn pr cap md es reqs
     in (es, hit # hits))"

lemma spec_serve_queue:
  "spec_serve (queue_machine pn pr) cap md es reqs = Some (queue_serve pn pr cap md es reqs)"
  by (induction reqs arbitrary: es) (simp_all add: spec_get_queue split: prod.split)

subsection \<open>Objects of one size\<close>

lemma queue_trim_unit:
  assumes "distinct (map fst es)" and "\<forall>e \<in> set es. snd e = 1" and "0 \<le> room"
  shows "queue_trim None room 0 es = take (nat room) es"
  using assms
proof (induction es rule: rev_induct)
  case Nil
  then show ?case by (simp add: queue_trim.simps)
next
  case (snoc e es)
  have bytes: "queue_bytes 0 (es @ [e]) = int (length (es @ [e]))"
    using snoc.prems(2) by (induction es) auto
  have del: "queue_delete (fst e) (es @ [e]) = es"
    using queue_delete_split [of es e "[]"] snoc.prems(1) by simp
  show ?case
  proof (cases "int (length (es @ [e])) \<le> room")
    case True
    then show ?thesis using bytes by (subst queue_trim.simps) simp
  next
    case False
    then have "queue_trim None room 0 (es @ [e]) = queue_trim None room 0 es"
      using bytes del by (subst queue_trim.simps) simp
    also have "\<dots> = take (nat room) (es @ [e])" using snoc False by simp
    finally show ?thesis .
  qed
qed

section \<open>Views\<close>

abbreviation views :: "(cache_obj \<Rightarrow> obj_id_t \<times> 'x) \<Rightarrow> heap \<Rightarrow> addr list \<Rightarrow> 'x queue" where
  "views v h xs \<equiv> map (\<lambda>a. v (the (h a))) xs"

definition basic_view :: "cache_obj \<Rightarrow> obj_id_t \<times> int" where
  "basic_view ob = (obj_id ob, obj_size ob)"

text \<open>
  A view of the objects: it reads the id and neither the links nor the metadata that the base
  lookup updates, and the size can be told from it.
\<close>

locale object_view =
  fixes v :: "cache_obj \<Rightarrow> obj_id_t \<times> 'x"
    and sz :: "'x \<Rightarrow> int"
  assumes view_payload: "v (payload ob) = v ob"
    and view_touched: "v (touched req ob) = v ob"
    and view_id: "fst (v ob) = obj_id ob"
    and view_size: "sz (snd (v ob)) = obj_size ob"

section \<open>The abstraction relation\<close>

text \<open>The queue \<open>xs\<close> holds all objects of the cache, and \<open>es\<close> is what is seen of them.\<close>

definition queue_at ::
    "(cache_obj \<Rightarrow> obj_id_t \<times> 'x) \<Rightarrow> env \<Rightarrow> trace_ids \<Rightarrow> ('a, 'f, 'p) cache_t \<Rightarrow> ptr \<Rightarrow> ptr \<Rightarrow>
     addr list \<Rightarrow> 'x queue \<Rightarrow> bool" where
  "queue_at v E W c qh qt xs es \<longleftrightarrow> spread E W \<and> \<not> support_ttl E \<and> cache_ok E W c (set xs)
     \<and> dll (store c) qh qt xs \<and> es = views v (store c) xs"

definition queue_R ::
    "(cache_obj \<Rightarrow> obj_id_t \<times> 'x) \<Rightarrow> env \<Rightarrow> trace_ids \<Rightarrow> ('a, 'f, 'p) cache_t \<Rightarrow> ptr \<Rightarrow> ptr \<Rightarrow>
     'x queue \<Rightarrow> bool" where
  "queue_R v E W c qh qt es \<longleftrightarrow> (\<exists>xs. queue_at v E W c qh qt xs es)"

lemma queue_at_fields [simp]:
  "queue_at v E W (c\<lparr>n_req := n\<rparr>) qh qt xs es = queue_at v E W c qh qt xs es"
  "queue_at v E W (c\<lparr>admissioner := ad\<rparr>) qh qt xs es = queue_at v E W c qh qt xs es"
  "queue_at v E W (c\<lparr>eviction_params := p\<rparr>) qh qt xs es = queue_at v E W c qh qt xs es"
  "queue_at v E W (c\<lparr>to_evict_candidate_gen_vtime := n\<rparr>) qh qt xs es = queue_at v E W c qh qt xs es"
  by (simp_all add: queue_at_def)

lemma queue_R_fields [simp]:
  "queue_R v E W (c\<lparr>n_req := n\<rparr>) qh qt es = queue_R v E W c qh qt es"
  "queue_R v E W (c\<lparr>admissioner := ad\<rparr>) qh qt es = queue_R v E W c qh qt es"
  "queue_R v E W (c\<lparr>eviction_params := p\<rparr>) qh qt es = queue_R v E W c qh qt es"
  "queue_R v E W (c\<lparr>to_evict_candidate_gen_vtime := n\<rparr>) qh qt es = queue_R v E W c qh qt es"
  by (simp_all add: queue_R_def)

lemma queue_R_ends:
  assumes "queue_R v E W c qh qt es"
  shows "(qh = NULL) = (es = [])" "(qt = NULL) = (es = [])"
  using assms by (auto simp: queue_R_def queue_at_def dll_def)

text \<open>An empty cache.\<close>

lemma queue_R_empty:
  assumes "spread E W" and "\<not> support_ttl E" and "cache_ok E W c {}"
  shows "queue_R v E W c NULL NULL []"
  using assms by (auto simp: queue_R_def queue_at_def intro!: exI [of _ "[]"])

context object_view
begin

lemma views_ids:
  "map fst (views v h xs) = map (\<lambda>a. obj_id (the (h a))) xs"
  "fst ` set (views v h xs) = ids_in h (set xs)"
  by (auto simp: view_id ids_in_def image_image)

lemma queue_R_E:
  assumes "queue_R v E W c qh qt es"
  obtains xs where "spread E W" "\<not> support_ttl E" "cache_ok E W c (set xs)" "dll (store c) qh qt xs"
    "es = views v (store c) xs" "distinct xs" "distinct (map fst es)" "dom (store c) = set xs"
proof -
  from assms obtain xs where xs: "spread E W" "\<not> support_ttl E" "cache_ok E W c (set xs)"
    "dll (store c) qh qt xs" "es = views v (store c) xs" by (auto simp: queue_R_def queue_at_def)
  have d: "distinct xs" by (rule dll_distinct [OF xs(4)])
  have "inj_on (\<lambda>a. obj_id (the (store c a))) (set xs)"
    using cache_ok_ids_inj [OF xs(3)] by (auto intro: inj_onI)
  then have "distinct (map fst es)" using d by (simp only: xs(5) views_ids distinct_map)
  with that xs d cache_okD(2) [OF xs(3)] show thesis by blast
qed

lemma queue_R_resident:
  assumes "queue_R v E W c qh qt es"
  shows "resident c = fst ` set es"
proof -
  from assms obtain xs where xs: "cache_ok E W c (set xs)" "es = views v (store c) xs"
    by (elim queue_R_E)
  then show ?thesis
    by (simp add: cache_ok_resident [OF xs(1)] ids_in_def image_image view_id)
qed

lemma queue_R_bytes:
  assumes "queue_R v E W c qh qt es"
  shows "occupied_byte c = view_bytes sz (obj_md_size c) es" "n_obj c = int (length es)"
proof -
  from assms obtain xs where xs: "cache_ok E W c (set xs)" "es = views v (store c) xs" "distinct xs"
    by (elim queue_R_E)
  then show "occupied_byte c = view_bytes sz (obj_md_size c) es" "n_obj c = int (length es)"
    using cache_okD(4,5) [OF xs(1)]
    by (simp_all add: view_bytes_def sum_list_distinct_conv_sum_set distinct_card obj_bytes_def
        view_size comp_def)
qed

text \<open>The object of an abstract entry, and the entry of an object.\<close>

lemma queue_R_split_at:
  assumes "queue_R v E W c qh qt es" and "store c a = Some ob"
  obtains xs ys where "spread E W" "\<not> support_ttl E" "cache_ok E W c (set (xs @ a # ys))"
    "dll (store c) qh qt (xs @ a # ys)"
    "es = views v (store c) xs @ v ob # views v (store c) ys"
    "distinct (xs @ a # ys)" "distinct (map fst es)"
proof -
  from assms(1) obtain zs where zs: "spread E W" "\<not> support_ttl E" "cache_ok E W c (set zs)"
    "dll (store c) qh qt zs" "es = views v (store c) zs" "distinct zs" "distinct (map fst es)"
    "dom (store c) = set zs" by (elim queue_R_E)
  from assms(2) zs(8) have "a \<in> set zs" by blast
  then obtain xs ys where sp: "zs = xs @ a # ys" by (auto dest: split_list)
  show thesis by (rule that [of xs ys]) (use zs sp assms(2) in auto)
qed

lemma queue_R_object:
  assumes "queue_R v E W c qh qt es" and "i \<in> fst ` set es"
  obtains a ob where "store c a = Some ob" "obj_id ob = i" "v ob \<in> set es"
proof -
  from assms(1) obtain zs where zs: "dll (store c) qh qt zs" "es = views v (store c) zs"
    by (elim queue_R_E)
  from assms(2) zs(2) obtain a where a: "a \<in> set zs" "obj_id (the (store c a)) = i"
    by (auto simp: view_id)
  from dll_live [OF zs(1) a(1)] obtain ob where "store c a = Some ob" by blast
  with a zs(2) that show thesis by force
qed

lemma queue_R_entry_split:
  assumes "queue_R v E W c qh qt es" and "store c a = Some ob"
  obtains us vs where "es = us @ v ob # vs" "distinct (map fst es)"
  using assms by (elim queue_R_split_at) blast

lemma queue_R_entry:
  assumes "queue_R v E W c qh qt es" and "store c a = Some ob"
  shows "v ob \<in> set es" "obj_id ob \<in> fst ` set es"
proof -
  from assms obtain xs ys where "es = views v (store c) xs @ v ob # views v (store c) ys"
    by (elim queue_R_split_at)
  then show "v ob \<in> set es" "obj_id ob \<in> fst ` set es" by (auto simp: view_id)
qed

section \<open>Steps\<close>

text \<open>A change of the queue pointers only.\<close>

lemma same_payload_views:
  "same_payload A h h' \<Longrightarrow> set xs \<subseteq> A \<Longrightarrow> set xs \<subseteq> dom h \<Longrightarrow> views v h' xs = views v h xs"
  by (rule same_payload_map) (auto simp: view_payload)

lemma queue_R_relink:
  assumes "spread E W" "\<not> support_ttl E" "cache_ok E W c (set ys)" "qframe S (store c) h"
    and "dll h qh qt xs" "set xs = set ys"
  shows "queue_at v E W (c\<lparr>store := h\<rparr>) qh qt xs (views v (store c) xs)"
proof -
  have "views v h xs = views v (store c) xs"
    using same_payload_views [OF same_payload_qframe [OF assms(4), of "set xs"], of xs]
      cache_okD(2) [OF assms(3)] assms(6) by simp
  then show ?thesis
    using assms cache_ok_store [OF assms(3) same_core_qframe [OF assms(4)]]
    by (auto simp: queue_at_def)
qed

text \<open>A change of an object that keeps its id, its size and its links.\<close>

lemma queue_at_update:
  assumes "queue_at v E W c qh qt xs es" and "i < length xs" and "store c (xs ! i) = Some ob"
    and "core ob' = core ob" and "q_prev ob' = q_prev ob" and "q_next ob' = q_next ob"
  shows "queue_at v E W (c\<lparr>store := (store c)(xs ! i \<mapsto> ob')\<rparr>) qh qt xs (es[i := v ob'])"
proof -
  note sc = same_core_upd [of "store c", OF assms(3,4)]
  from assms(1) have x: "spread E W" "\<not> support_ttl E" "cache_ok E W c (set xs)"
    "dll (store c) qh qt xs" "es = views v (store c) xs" by (auto simp: queue_at_def)
  have "dll ((store c)(xs ! i \<mapsto> ob')) qh qt xs"
    by (rule dll_cong [OF _ x(4)]) (use assms in auto)
  moreover have "es[i := v ob'] = views v ((store c)(xs ! i \<mapsto> ob')) xs"
    using assms(2) dll_distinct [OF x(4)]
    by (auto simp: x(5) list_eq_iff_nth_eq nth_list_update nth_eq_iff_index_eq)
  ultimately show ?thesis using x(1,2) cache_ok_store [OF x(3) sc] by (simp add: queue_at_def)
qed

lemma queue_R_update:
  assumes "queue_R v E W c qh qt es" and "store c a = Some ob" and "core ob' = core ob"
    and "q_prev ob' = q_prev ob" and "q_next ob' = q_next ob"
  shows "queue_R v E W (c\<lparr>store := (store c)(a \<mapsto> ob')\<rparr>) qh qt
    (map (\<lambda>e. if fst e = obj_id ob then v ob' else e) es)"
proof -
  from assms(1,2) obtain xs ys where x: "spread E W" "\<not> support_ttl E"
    "cache_ok E W c (set (xs @ a # ys))" "dll (store c) qh qt (xs @ a # ys)"
    "es = views v (store c) xs @ v ob # views v (store c) ys" "distinct (xs @ a # ys)"
    "distinct (map fst es)" by (elim queue_R_split_at)
  have "queue_at v E W c qh qt (xs @ a # ys) es" using x assms(2) by (simp add: queue_at_def)
  from queue_at_update [OF this, of "length xs" ob ob'] assms
  have "queue_R v E W (c\<lparr>store := (store c)(a \<mapsto> ob')\<rparr>) qh qt (es[length xs := v ob'])"
    by (auto simp: queue_R_def nth_append)
  moreover have "map (\<lambda>e. if fst e = obj_id ob then v ob' else e) es = es[length xs := v ob']"
    using queue_map_split [OF x(7) [unfolded x(5)], of "\<lambda>_. v ob'"]
    by (simp add: x(5) view_id list_update_append)
  ultimately show ?thesis by simp
qed

lemma queue_R_touch:
  assumes "queue_R v E W c qh qt es" and "store c a = Some ob" and "core ob' = core ob"
    and "q_prev ob' = q_prev ob" and "q_next ob' = q_next ob" and "v ob' = v ob"
  shows "queue_R v E W (c\<lparr>store := (store c)(a \<mapsto> ob')\<rparr>) qh qt es"
proof -
  from assms(1,2) obtain xs ys where x: "es = views v (store c) xs @ v ob # views v (store c) ys"
    "distinct (map fst es)" by (elim queue_R_split_at)
  have "map (\<lambda>e. if fst e = obj_id ob then v ob' else e) es = es"
    using queue_map_split [OF x(2) [unfolded x(1)], of "\<lambda>_. v ob"] assms(6)
    by (simp add: x(1) view_id) metis
  with queue_R_update [OF assms(1-5)] show ?thesis by simp
qed

lemma queue_lookup:
  assumes "queue_R v E W c qh qt es"
  shows "i \<notin> fst ` set es \<Longrightarrow> chained_hashtable_find_obj_id_v2 E (store c) (hashtable c) i = Some NULL"
    and "store c a = Some ob \<Longrightarrow> obj_id ob = i \<Longrightarrow>
      chained_hashtable_find_obj_id_v2 E (store c) (hashtable c) i = Some (Some a)"
proof -
  from assms obtain xs where xs: "cache_ok E W c (set xs)" "es = views v (store c) xs"
    "dom (store c) = set xs" by (elim queue_R_E)
  show "i \<notin> fst ` set es \<Longrightarrow> chained_hashtable_find_obj_id_v2 E (store c) (hashtable c) i = Some NULL"
    by (rule find_miss [OF cache_okD(1) [OF xs(1)]]) (use xs(2) in \<open>force simp: view_id\<close>)
  show "store c a = Some ob \<Longrightarrow> obj_id ob = i \<Longrightarrow>
      chained_hashtable_find_obj_id_v2 E (store c) (hashtable c) i = Some (Some a)"
    by (rule find_hit [OF cache_okD(1) [OF xs(1)]]) (use xs(3) in auto)
qed

lemma queue_find:
  assumes "queue_R v E W c qh qt es"
  shows "req_obj_id req \<notin> fst ` set es \<Longrightarrow> cache_find_base E None rm c req u = Some (c, NULL)"
    and "req_obj_id req \<in> fst ` set es \<Longrightarrow>
      \<exists>a h ob. cache_find_base E None rm c req u = Some (c\<lparr>store := h\<rparr>, Some a)
      \<and> queue_R v E W (c\<lparr>store := h\<rparr>) qh qt es \<and> h a = Some ob \<and> obj_id ob = req_obj_id req
      \<and> (\<not> u \<longrightarrow> h = store c)"
proof -
  from assms obtain xs where xs: "cache_ok E W c (set xs)" "es = views v (store c) xs"
    "\<not> support_ttl E" by (elim queue_R_E)
  show "cache_find_base E None rm c req u = Some (c, NULL)" if "req_obj_id req \<notin> fst ` set es"
    by (rule find_base_miss [OF xs(1)]) (use that xs(2) in \<open>simp only: views_ids not_False_eq_True\<close>)
  assume "req_obj_id req \<in> fst ` set es"
  with assms obtain a ob where x: "store c a = Some ob" "obj_id ob = req_obj_id req"
    by (elim queue_R_object)
  have "cache_find_base E None rm c req u =
      Some (if u then c\<lparr>store := (store c)(a \<mapsto> touched req ob)\<rparr> else c, Some a)"
    by (rule find_base_hit [OF xs(1) x]) (use xs(3) in \<open>simp add: expired_def\<close>)
  moreover have "queue_R v E W (c\<lparr>store := (store c)(a \<mapsto> touched req ob)\<rparr>) qh qt es"
    by (rule queue_R_touch [OF assms x(1)]) (simp_all add: view_touched, simp_all add: touched_def core_def)
  ultimately show "\<exists>a h ob. cache_find_base E None rm c req u = Some (c\<lparr>store := h\<rparr>, Some a)
      \<and> queue_R v E W (c\<lparr>store := h\<rparr>) qh qt es \<and> h a = Some ob \<and> obj_id ob = req_obj_id req
      \<and> (\<not> u \<longrightarrow> h = store c)"
    using assms x
    by (intro exI [of _ a] exI [of _ "if u then (store c)(a \<mapsto> touched req ob) else store c"]
        exI [of _ "if u then touched req ob else ob"]) (simp add: touched_def)
qed

lemma queue_find_only:
  assumes "queue_R v E W c qh qt es"
  shows "\<exists>p. cache_find_base E None rm c req False = Some (c, p)
    \<and> (p \<noteq> NULL \<longleftrightarrow> req_obj_id req \<in> fst ` set es)"
  using queue_find(1) [OF assms, of req rm False] queue_find(2) [OF assms, of req rm False]
  by (cases "req_obj_id req \<in> fst ` set es") auto

lemma queue_move_to_head:
  assumes "queue_R v E W c qh qt es" and "store c a = Some ob"
  shows "\<exists>h qh' qt'. move_obj_to_head (store c) qh qt (Some a) = Some (h, qh', qt')
    \<and> queue_R v E W (c\<lparr>store := h\<rparr>) qh' qt' (queue_promote (obj_id ob) es)"
proof -
  from assms obtain xs ys where x: "spread E W" "\<not> support_ttl E"
    "cache_ok E W c (set (xs @ a # ys))" "dll (store c) qh qt (xs @ a # ys)"
    "es = views v (store c) xs @ v ob # views v (store c) ys" "distinct (map fst es)"
    by (elim queue_R_split_at)
  from move_obj_to_head_dll [OF x(4)] obtain h qh' qt' where
    m: "move_obj_to_head (store c) qh qt (Some a) = Some (h, qh', qt')"
    "dll h qh' qt' (a # xs @ ys)" "qframe (set (xs @ a # ys)) (store c) h" by blast
  have "queue_R v E W (c\<lparr>store := h\<rparr>) qh' qt' (views v (store c) (a # xs @ ys))"
    unfolding queue_R_def by (rule exI, rule queue_R_relink [OF x(1-3) m(3,2)]) auto
  moreover have "queue_promote (obj_id ob) es = views v (store c) (a # xs @ ys)"
    using queue_promote_split [OF x(6) [unfolded x(5)]] assms(2) by (simp add: x(5) view_id)
  ultimately show ?thesis using m(1) by auto
qed

lemma queue_at_insert:
  assumes "queue_at v E W c qh qt xs es" and "req_obj_id req \<in> fst W" and "req_obj_id req \<notin> fst ` set es"
  shows "\<exists>h ht h' qh' qt' ob. cache_insert_base E c req
        = Some (grown c h ht (req_obj_size req), Some (brk c))
    \<and> prepend_obj_to_head h qh qt (Some (brk c)) = Some (h', qh', qt')
    \<and> queue_at v E W (grown c h' ht (req_obj_size req)) qh' qt' (brk c # xs)
        (v (inserted_obj E c req) # es)
    \<and> h' (brk c) = Some ob \<and> payload ob = inserted_obj E c req"
proof -
  from assms(1) have x: "spread E W" "\<not> support_ttl E" "cache_ok E W c (set xs)"
    "dll (store c) qh qt xs" "es = views v (store c) xs" "dom (store c) = set xs"
    by (auto simp: queue_at_def dest: cache_okD(2))
  have "req_obj_id req \<notin> ids_in (store c) (set xs)"
    using assms(3) x(5) by (simp only: views_ids not_False_eq_True)
  from insert_base_queues [OF x(3) assms(2) this] obtain h ht ob where
    i: "cache_insert_base E c req = Some (grown c h ht (req_obj_size req), Some (brk c))"
    "cache_ok E W (grown c h ht (req_obj_size req)) (insert (brk c) (set xs))"
    "\<forall>qh qt xs. dll (store c) qh qt xs \<longrightarrow> dll h qh qt xs" "same_payload (set xs) (store c) h"
    "h (brk c) = Some ob" "payload ob = inserted_obj E c req" by blast
  have "dll h qh qt xs" using i(3) x(4) by blast
  from prepend_obj_to_head_dll [OF this i(5)] cache_okD(8) [OF x(3)] obtain h' qh' qt' where
    p: "prepend_obj_to_head h qh qt (Some (brk c)) = Some (h', qh', qt')"
    "dll h' qh' qt' (brk c # xs)" "qframe (set (brk c # xs)) h h'" by blast
  have "queue_at v E W ((grown c h ht (req_obj_size req))\<lparr>store := h'\<rparr>) qh' qt' (brk c # xs)
      (views v (store (grown c h ht (req_obj_size req))) (brk c # xs))"
    by (rule queue_R_relink [OF x(1,2) _ _ p(2), of _ "brk c # xs" "set (brk c # xs)"])
      (use i(2) p(3) in simp_all)
  moreover have "views v h xs = es"
    using same_payload_views [OF i(4), of xs] x(5,6) by simp
  moreover have "v ob = v (inserted_obj E c req)" using i(6) view_payload [of ob] by simp
  moreover have "(grown c h ht (req_obj_size req))\<lparr>store := h'\<rparr> = grown c h' ht (req_obj_size req)"
    by simp
  ultimately have "queue_at v E W (grown c h' ht (req_obj_size req)) qh' qt' (brk c # xs)
      (v (inserted_obj E c req) # es)" using i(5) by simp
  moreover from qframe_obj [OF p(3) i(5)] obtain ob' where "h' (brk c) = Some ob'" "noq ob' = noq ob"
    by blast
  moreover from this i(6) have "payload ob' = inserted_obj E c req" by (metis payload_noq)
  ultimately show ?thesis using i(1) p(1) by blast
qed

lemma queue_insert:
  assumes "queue_R v E W c qh qt es" and "req_obj_id req \<in> fst W" and "req_obj_id req \<notin> fst ` set es"
  shows "\<exists>h ht h' qh' qt' ob. cache_insert_base E c req
        = Some (grown c h ht (req_obj_size req), Some (brk c))
    \<and> prepend_obj_to_head h qh qt (Some (brk c)) = Some (h', qh', qt')
    \<and> queue_R v E W (grown c h' ht (req_obj_size req)) qh' qt' (v (inserted_obj E c req) # es)
    \<and> h' (brk c) = Some ob \<and> payload ob = inserted_obj E c req"
  using assms queue_at_insert [OF _ assms(2,3)] unfolding queue_R_def by blast

text \<open>Removing an object that has been unlinked from the queue.\<close>

lemma queue_remove_unlinked:
  assumes "spread E W" "\<not> support_ttl E" "cache_ok E W c (set (xs @ a # ys))"
    "distinct (xs @ a # ys)" "store c a = Some ob" "qframe S (store c) h" "dll h qh qt (xs @ ys)"
  shows "\<exists>h' ht. cache_remove_obj_base E (c\<lparr>store := h, eviction_params := p\<rparr>) (Some a) True
      = Some (shrunk (c\<lparr>store := h, eviction_params := p\<rparr>) h' ht (obj_size ob))
    \<and> queue_at v E W (shrunk (c\<lparr>store := h, eviction_params := p\<rparr>) h' ht (obj_size ob)) qh qt (xs @ ys)
        (views v (store c) (xs @ ys))"
proof -
  let ?c = "c\<lparr>store := h, eviction_params := p\<rparr>"
  note sc = same_core_qframe [OF assms(6)]
  have ok: "cache_ok E W ?c (set (xs @ a # ys))" using cache_ok_store [OF assms(3) sc] by simp
  from qframe_obj [OF assms(6,5)] obtain ob' where ob': "h a = Some ob'" "noq ob' = noq ob" by blast
  have size: "obj_size ob' = obj_size ob" using arg_cong [OF ob'(2), of obj_size] by simp
  have "store ?c a = Some ob'" using ob'(1) by simp
  from remove_obj_base_queues [OF assms(1) ok this] obtain h' ht where
    r: "cache_remove_obj_base E ?c (Some a) True = Some (shrunk ?c h' ht (obj_size ob))"
    "cache_ok E W (shrunk ?c h' ht (obj_size ob)) (set (xs @ a # ys) - {a})"
    "\<forall>qh qt xs. dll h qh qt xs \<longrightarrow> a \<notin> set xs \<longrightarrow> dll h' qh qt xs"
    "same_payload (set (xs @ a # ys) - {a}) h h'" by (auto simp: size)
  have eq: "set (xs @ a # ys) - {a} = set (xs @ ys)" using assms(4) by auto
  have "dll h' qh qt (xs @ ys)" using r(3) assms(4,7) by auto
  moreover have "views v h' (xs @ ys) = views v h (xs @ ys)"
    by (rule same_payload_views [OF r(4)])
      (use eq qframe_dom [OF assms(6)] cache_okD(2) [OF assms(3)] in auto)
  moreover have "views v h (xs @ ys) = views v (store c) (xs @ ys)"
    by (rule same_payload_views [OF same_payload_qframe [OF assms(6)], of _ "set (xs @ ys)"])
      (use cache_okD(2) [OF assms(3)] in auto)
  moreover have "cache_ok E W (shrunk ?c h' ht (obj_size ob)) (set (xs @ ys))" using r(2) eq by simp
  ultimately have "queue_at v E W (shrunk ?c h' ht (obj_size ob)) qh qt (xs @ ys)
      (views v (store c) (xs @ ys))"
    unfolding queue_at_def using assms(1,2) by simp
  with r(1) show ?thesis by blast
qed

lemma queue_at_unlink_remove:
  assumes "queue_at v E W c qh qt (xs @ a # ys) es" and "store c a = Some ob"
  shows "\<exists>h qh' qt'. remove_obj_from_list (store c) qh qt (Some a) = Some (h, qh', qt') \<and>
    (\<forall>p. \<exists>h' ht. cache_remove_obj_base E (c\<lparr>store := h, eviction_params := p\<rparr>) (Some a) True
      = Some (shrunk (c\<lparr>store := h, eviction_params := p\<rparr>) h' ht (obj_size ob))
    \<and> queue_at v E W (shrunk (c\<lparr>store := h, eviction_params := p\<rparr>) h' ht (obj_size ob)) qh' qt' (xs @ ys)
        (queue_delete (obj_id ob) es))"
proof -
  from assms have x: "spread E W" "\<not> support_ttl E"
    "cache_ok E W c (set (xs @ a # ys))" "dll (store c) qh qt (xs @ a # ys)"
    "es = views v (store c) xs @ v ob # views v (store c) ys" by (auto simp: queue_at_def)
  have d: "distinct (xs @ a # ys)" by (rule dll_distinct [OF x(4)])
  have "queue_R v E W c qh qt es" using assms(1) by (auto simp: queue_R_def)
  then have "distinct (map fst es)" by (elim queue_R_E)
  from queue_delete_split [OF this [unfolded x(5)]]
  have del: "queue_delete (obj_id ob) es = views v (store c) (xs @ ys)" by (simp add: x(5) view_id)
  from remove_obj_from_list_dll [OF x(4)] obtain h qh' qt' where
    m: "remove_obj_from_list (store c) qh qt (Some a) = Some (h, qh', qt')"
    "dll h qh' qt' (xs @ ys)" "qframe (set (xs @ a # ys)) (store c) h" by blast
  show ?thesis unfolding del
    using m(1) queue_remove_unlinked [OF x(1-3) d assms(2) m(3,2)] by auto
qed

lemma queue_unlink_remove:
  assumes "queue_R v E W c qh qt es" and "store c a = Some ob"
  shows "\<exists>h qh' qt'. remove_obj_from_list (store c) qh qt (Some a) = Some (h, qh', qt') \<and>
    (\<forall>p. \<exists>h' ht. cache_remove_obj_base E (c\<lparr>store := h, eviction_params := p\<rparr>) (Some a) True
      = Some (shrunk (c\<lparr>store := h, eviction_params := p\<rparr>) h' ht (obj_size ob))
    \<and> queue_R v E W (shrunk (c\<lparr>store := h, eviction_params := p\<rparr>) h' ht (obj_size ob)) qh' qt'
        (queue_delete (obj_id ob) es))"
proof -
  from assms obtain xs ys where "spread E W" "\<not> support_ttl E"
    "cache_ok E W c (set (xs @ a # ys))" "dll (store c) qh qt (xs @ a # ys)"
    "es = views v (store c) xs @ v ob # views v (store c) ys" by (elim queue_R_split_at)
  then have "queue_at v E W c qh qt (xs @ a # ys) es" using assms(2) by (simp add: queue_at_def)
  from queue_at_unlink_remove [OF this assms(2)] show ?thesis unfolding queue_R_def by blast
qed

lemma queue_unlink_tail:
  assumes "queue_R v E W c qh qt es" and "es \<noteq> []"
  shows "\<exists>a ob h. qt = Some a \<and> store c a = Some ob
    \<and> (if q_prev ob \<noteq> NULL then set_next (store c) (q_prev ob) NULL else Some (store c)) = Some h \<and>
    (\<forall>p. \<exists>h' ht. cache_remove_obj_base E (c\<lparr>store := h, eviction_params := p\<rparr>) (Some a) True
      = Some (shrunk (c\<lparr>store := h, eviction_params := p\<rparr>) h' ht (obj_size ob))
    \<and> queue_R v E W (shrunk (c\<lparr>store := h, eviction_params := p\<rparr>) h' ht (obj_size ob))
        (if q_prev ob \<noteq> NULL then qh else NULL) (q_prev ob) (queue_delete (fst (last es)) es))"
proof -
  from assms(1) obtain xs where xs: "dll (store c) qh qt xs" "es = views v (store c) xs"
    by (elim queue_R_E)
  with assms(2) have "xs \<noteq> []" by simp
  with xs obtain us a where ua: "xs = us @ [a]" by (cases xs rule: rev_cases) auto
  from xs(1) have qt: "qt = Some a" by (simp add: dll_def ua)
  from dll_live [OF xs(1), of a] obtain ob where ob: "store c a = Some ob" by (auto simp: ua)
  from assms(1) ob obtain xs' ys where x: "spread E W" "\<not> support_ttl E"
    "cache_ok E W c (set (xs' @ a # ys))" "dll (store c) qh qt (xs' @ a # ys)"
    "es = views v (store c) xs' @ v ob # views v (store c) ys"
    "distinct (xs' @ a # ys)" "distinct (map fst es)" by (elim queue_R_split_at)
  have "xs' @ a # ys = us @ [a]" using dll_unique [OF x(4) xs(1)] ua by simp
  then have ys: "ys = []" "us = xs'"
    using x(6) by (auto simp: append_eq_append_conv2 Cons_eq_append_conv append_eq_Cons_conv)
  from unlink_tail_dll [OF x(4) [unfolded ys] ob] obtain h where
    h: "(if q_prev ob \<noteq> NULL then set_next (store c) (q_prev ob) NULL else Some (store c)) = Some h"
    "dll h (if q_prev ob \<noteq> NULL then qh else NULL) (q_prev ob) xs'"
    "qframe (set (xs' @ [a])) (store c) h" by blast
  have del: "queue_delete (fst (last es)) es = views v (store c) xs'"
    using queue_delete_split [OF x(7) [unfolded x(5)]] by (simp add: x(5) ys)
  show ?thesis unfolding del queue_R_def
    using qt ob h(1) queue_remove_unlinked [OF x(1-3,6) ob h(3), unfolded ys append_Nil2, OF h(2)]
    by blast
qed

lemma queue_skip_pinned:
  assumes "queue_R v E W c qh qt es" and "es \<noteq> []"
  shows "\<exists>a ob. cache_skip_pinned pn (store c) qt = Some (Some a) \<and> store c a = Some ob
    \<and> queue_victim pn es = v ob"
proof -
  from assms(1) obtain xs where xs: "dll (store c) qh qt xs" "es = views v (store c) xs"
    by (elim queue_R_E)
  with assms(2) have ne: "xs \<noteq> []" by simp
  let ?a = "unpinned_victim pn (store c) xs"
  from dll_live [OF xs(1) unpinned_victim_mem [OF ne]] obtain ob where ob: "store c ?a = Some ob"
    by blast
  have "(\<lambda>a. case pn of None \<Rightarrow> True | Some f \<Rightarrow> \<not> f (fst (v (the (store c a)))))
      = (\<lambda>a. \<not> cache_obj_is_pinned pn (the (store c a)))"
    by (cases pn) (auto simp: cache_obj_is_pinned_def view_id)
  then have "queue_victim pn es = v (the (store c ?a))"
    using ne by (auto simp: queue_victim_def unpinned_victim_def xs(2) rev_map find_map last_map
        split: option.splits)
  then show ?thesis using ob cache_skip_pinned_dll [OF xs(1) ne] by auto
qed

end

interpretation basic: object_view basic_view "\<lambda>n. n"
  by unfold_locales (simp_all add: basic_view_def touched_def)

lemma basic_view_inserted [simp]:
  "basic_view (inserted_obj E c req) = (req_obj_id req, req_obj_size req)"
  by (simp add: basic_view_def)

end
