(* ===== verification/LRU.thy ===== *)
theory LRU
  imports Queue_Refine
begin

text \<open>
  The LRU cache (\<open>cache/eviction/LRU.c\<close>).  \<open>LRU_R\<close> relates a cache to the list of its objects from
  the most to the least recently used; the interpretation \<open>lru\<close> shows that the code refines the
  machine that moves the object of a hit to the front and evicts the last (unpinned) element.
\<close>

section \<open>Model\<close>

record LRU_params_t =
  LRU_q_head :: ptr
  LRU_q_tail :: ptr

definition LRU_init ::
    "'f \<Rightarrow> common_cache_params_t \<Rightarrow> string option \<Rightarrow> ('a, 'f, LRU_params_t) cache_t" where
  "LRU_init pf0 ccache_params cache_specific_params =
    (cache_struct_init ''LRU'' ccache_params cache_specific_params pf0
       \<lparr>LRU_q_head = NULL, LRU_q_tail = NULL\<rparr>)
     \<lparr>obj_md_size := (if ccp_consider_obj_metadata ccache_params then 8 * 2 else 0)\<rparr>"

definition LRU_insert ::
    "env \<Rightarrow> ('a, 'f, LRU_params_t) cache_t \<Rightarrow> request \<Rightarrow>
     (('a, 'f, LRU_params_t) cache_t \<times> ptr) option" where
  "LRU_insert E c req = do {
     (c, obj) \<leftarrow> cache_insert_base E c req;
     let params = eviction_params c;
     (h, qh, qt) \<leftarrow> prepend_obj_to_head (store c) (LRU_q_head params) (LRU_q_tail params) obj;
     Some (c\<lparr>store := h, eviction_params := params\<lparr>LRU_q_head := qh, LRU_q_tail := qt\<rparr>\<rparr>, obj) }"

definition LRU_to_evict ::
    "env \<Rightarrow> ('a, 'f, LRU_params_t) cache_t \<Rightarrow> request \<Rightarrow>
     (('a, 'f, LRU_params_t) cache_t \<times> ptr) option" where
  "LRU_to_evict E c req =
     map_option (Pair (c\<lparr>to_evict_candidate_gen_vtime := n_req c\<rparr>))
       (cache_skip_pinned (pin E) (store c) (LRU_q_tail (eviction_params c)))"

definition LRU_evict ::
    "env \<Rightarrow> ('a, 'f, LRU_params_t) cache_t prefetcher_t option \<Rightarrow>
     ('a, 'f, LRU_params_t) cache_t \<Rightarrow> request \<Rightarrow> ('a, 'f, LRU_params_t) cache_t option" where
  "LRU_evict E pf c req = (let params = eviction_params c in
     if cache_pinning_active (pin E) then do {
       victim \<leftarrow> cache_skip_pinned (pin E) (store c) (LRU_q_tail params);
       (h, qh, qt) \<leftarrow> remove_obj_from_list (store c) (LRU_q_head params) (LRU_q_tail params) victim;
       cache_evict_base E pf
         (c\<lparr>store := h, eviction_params := params\<lparr>LRU_q_head := qh, LRU_q_tail := qt\<rparr>\<rparr>) victim True }
     else do {
       let obj_to_evict = LRU_q_tail params;
       ob \<leftarrow> deref (store c) obj_to_evict;
       let params = params\<lparr>LRU_q_tail := q_prev ob\<rparr>;
       h \<leftarrow> (if LRU_q_tail params \<noteq> NULL then set_next (store c) (LRU_q_tail params) NULL
             else Some (store c));
       let params = (if LRU_q_tail params \<noteq> NULL then params else params\<lparr>LRU_q_head := NULL\<rparr>);
       cache_evict_base E pf (c\<lparr>store := h, eviction_params := params\<rparr>) obj_to_evict True })"

definition LRU_remove_obj ::
    "env \<Rightarrow> ('a, 'f, LRU_params_t) cache_t \<Rightarrow> ptr \<Rightarrow> ('a, 'f, LRU_params_t) cache_t option" where
  "LRU_remove_obj E c obj =
    (if obj = NULL then None
     else do {
       let params = eviction_params c;
       (h, qh, qt) \<leftarrow> remove_obj_from_list (store c) (LRU_q_head params) (LRU_q_tail params) obj;
       cache_remove_obj_base E
         (c\<lparr>store := h, eviction_params := params\<lparr>LRU_q_head := qh, LRU_q_tail := qt\<rparr>\<rparr>) obj True })"

definition LRU_remove ::
    "env \<Rightarrow> ('a, 'f, LRU_params_t) cache_t \<Rightarrow> obj_id_t \<Rightarrow>
     (('a, 'f, LRU_params_t) cache_t \<times> bool) option" where
  "LRU_remove E c i = do {
     obj \<leftarrow> chained_hashtable_find_obj_id_v2 E (store c) (hashtable c) i;
     if obj = NULL then Some (c, False)
     else do {
       let params = eviction_params c;
       (h, qh, qt) \<leftarrow> remove_obj_from_list (store c) (LRU_q_head params) (LRU_q_tail params) obj;
       c \<leftarrow> cache_remove_obj_base E
         (c\<lparr>store := h, eviction_params := params\<lparr>LRU_q_head := qh, LRU_q_tail := qt\<rparr>\<rparr>) obj True;
       Some (c, True) } }"

definition LRU_find ::
    "env \<Rightarrow> ('a, 'f, LRU_params_t) cache_t prefetcher_t option \<Rightarrow> ('a, 'f, LRU_params_t) cache_t \<Rightarrow>
     request \<Rightarrow> bool \<Rightarrow> (('a, 'f, LRU_params_t) cache_t \<times> ptr) option" where
  "LRU_find E pf c req update_cache = do {
     (c, cache_obj) \<leftarrow> cache_find_base E pf (LRU_remove E) c req update_cache;
     if cache_obj \<noteq> NULL \<and> update_cache then do {
       let params = eviction_params c;
       (h, qh, qt) \<leftarrow> move_obj_to_head (store c) (LRU_q_head params) (LRU_q_tail params) cache_obj;
       Some (c\<lparr>store := h, eviction_params := params\<lparr>LRU_q_head := qh, LRU_q_tail := qt\<rparr>\<rparr>, cache_obj) }
     else Some (c, cache_obj) }"

text \<open>The ids that \<open>LRU_print_cache\<close> prints, from the head along the \<open>next\<close> pointers.\<close>

partial_function (option) LRU_print_loop :: "heap \<Rightarrow> ptr \<Rightarrow> obj_id_t list option" where
  "LRU_print_loop h cur =
    (if cur = NULL then Some []
     else do {
       ob \<leftarrow> deref h cur;
       is \<leftarrow> LRU_print_loop h (q_next ob);
       Some (obj_id ob # is) })"

definition LRU_print_cache :: "('a, 'f, LRU_params_t) cache_t \<Rightarrow> obj_id_t list option" where
  "LRU_print_cache c = LRU_print_loop (store c) (LRU_q_head (eviction_params c))"

definition LRU_ops ::
    "env \<Rightarrow> ('a, 'f, LRU_params_t) cache_t prefetcher_t option \<Rightarrow>
     ('a, 'f, LRU_params_t) cache_t cache_ops" where
  "LRU_ops E pf = \<lparr>op_find = LRU_find E pf, op_can_insert = cache_can_insert_default,
     op_insert = LRU_insert E, op_evict = LRU_evict E pf, op_remove = LRU_remove E,
     op_to_evict = LRU_to_evict E, op_get_occupied_byte = cache_get_occupied_byte_default,
     op_get_n_obj = cache_get_n_obj_default\<rparr>"

definition LRU_get ::
    "env \<Rightarrow> ('a, 'f, LRU_params_t) cache_t prefetcher_t option \<Rightarrow> ('a, 'f, LRU_params_t) cache_t \<Rightarrow>
     request \<Rightarrow> (('a, 'f, LRU_params_t) cache_t \<times> bool) option" where
  "LRU_get E pf c req = cache_get_base (LRU_ops E pf) pf c req"

section \<open>Refinement\<close>

definition LRU_R :: "env \<Rightarrow> trace_ids \<Rightarrow> ('a, 'f, LRU_params_t) cache_t \<Rightarrow> int queue \<Rightarrow> bool" where
  "LRU_R E W c es \<longleftrightarrow>
     queue_R basic_view E W c (LRU_q_head (eviction_params c)) (LRU_q_tail (eviction_params c)) es"

lemma LRU_insert_refines:
  assumes "LRU_R E W c es" and "req_obj_id req \<in> fst W" and "req_obj_id req \<notin> fst ` set es"
  shows "\<exists>c'. LRU_insert E c req = Some (c', Some (brk c)) \<and> same_limits c c'
    \<and> admissioner c' = admissioner c \<and> LRU_R E W c' ((req_obj_id req, req_obj_size req) # es)"
proof -
  from basic.queue_insert [OF assms(1) [unfolded LRU_R_def] assms(2,3)] obtain h ht h' qh qt where
    i: "cache_insert_base E c req = Some (grown c h ht (req_obj_size req), Some (brk c))"
    "prepend_obj_to_head h (LRU_q_head (eviction_params c)) (LRU_q_tail (eviction_params c))
       (Some (brk c)) = Some (h', qh, qt)"
    "queue_R basic_view E W (grown c h' ht (req_obj_size req)) qh qt ((req_obj_id req, req_obj_size req) # es)"
    by auto
  let ?p = "(eviction_params c)\<lparr>LRU_q_head := qh, LRU_q_tail := qt\<rparr>"
  have "LRU_insert E c req
      = Some ((grown c h' ht (req_obj_size req))\<lparr>eviction_params := ?p\<rparr>, Some (brk c))"
    using i(1,2) by (simp add: LRU_insert_def)
  moreover have "queue_R basic_view E W ((grown c h' ht (req_obj_size req))\<lparr>eviction_params := ?p\<rparr>) qh qt
      ((req_obj_id req, req_obj_size req) # es)" using i(3) by (simp only: queue_R_fields)
  ultimately show ?thesis by (auto simp: LRU_R_def same_limits_def)
qed

lemma LRU_remove_step:
  assumes "LRU_R E W c es" and "store c a = Some ob"
  shows "\<exists>h qh qt c'. remove_obj_from_list (store c) (LRU_q_head (eviction_params c))
        (LRU_q_tail (eviction_params c)) (Some a) = Some (h, qh, qt)
    \<and> cache_remove_obj_base E (c\<lparr>store := h, eviction_params :=
        (eviction_params c)\<lparr>LRU_q_head := qh, LRU_q_tail := qt\<rparr>\<rparr>) (Some a) True = Some c'
    \<and> same_limits c c' \<and> admissioner c' = admissioner c \<and> LRU_R E W c' (queue_delete (obj_id ob) es)"
proof -
  from basic.queue_unlink_remove [OF assms(1) [unfolded LRU_R_def] assms(2)] obtain h qh qt where
    u: "remove_obj_from_list (store c) (LRU_q_head (eviction_params c))
      (LRU_q_tail (eviction_params c)) (Some a) = Some (h, qh, qt)"
    and rm: "\<exists>h' ht. cache_remove_obj_base E (c\<lparr>store := h, eviction_params := p\<rparr>) (Some a) True
      = Some (shrunk (c\<lparr>store := h, eviction_params := p\<rparr>) h' ht (obj_size ob))
    \<and> queue_R basic_view E W (shrunk (c\<lparr>store := h, eviction_params := p\<rparr>) h' ht (obj_size ob)) qh qt
        (queue_delete (obj_id ob) es)" for p by blast
  from rm [of "(eviction_params c)\<lparr>LRU_q_head := qh, LRU_q_tail := qt\<rparr>"] u show ?thesis
    by (fastforce simp: LRU_R_def same_limits_def)
qed

lemma LRU_evict_refines:
  assumes "LRU_R E W c es" and "es \<noteq> []"
  shows "\<exists>c'. LRU_evict E None c req = Some c' \<and> same_limits c c' \<and> admissioner c' = admissioner c
    \<and> LRU_R E W c' (queue_delete (fst (queue_victim (pin E) es)) es)"
proof (cases "pin E")
  case None
  let ?p = "eviction_params c"
  from basic.queue_unlink_tail [OF assms(1) [unfolded LRU_R_def] assms(2)] obtain a ob h where
    u: "LRU_q_tail ?p = Some a" "store c a = Some ob"
    "(if q_prev ob \<noteq> NULL then set_next (store c) (q_prev ob) NULL else Some (store c)) = Some h"
    and rm: "\<exists>h' ht. cache_remove_obj_base E (c\<lparr>store := h, eviction_params := p\<rparr>) (Some a) True
      = Some (shrunk (c\<lparr>store := h, eviction_params := p\<rparr>) h' ht (obj_size ob))
    \<and> queue_R basic_view E W (shrunk (c\<lparr>store := h, eviction_params := p\<rparr>) h' ht (obj_size ob))
        (if q_prev ob \<noteq> NULL then LRU_q_head ?p else NULL) (q_prev ob)
        (queue_delete (fst (last es)) es)" for p by blast
  let ?p' = "if q_prev ob \<noteq> NULL then ?p\<lparr>LRU_q_tail := q_prev ob\<rparr>
    else ?p\<lparr>LRU_q_tail := q_prev ob, LRU_q_head := NULL\<rparr>"
  from rm [of ?p'] obtain h' ht where
    r: "cache_remove_obj_base E (c\<lparr>store := h, eviction_params := ?p'\<rparr>) (Some a) True
      = Some (shrunk (c\<lparr>store := h, eviction_params := ?p'\<rparr>) h' ht (obj_size ob))"
    "queue_R basic_view E W (shrunk (c\<lparr>store := h, eviction_params := ?p'\<rparr>) h' ht (obj_size ob))
        (if q_prev ob \<noteq> NULL then LRU_q_head ?p else NULL) (q_prev ob)
        (queue_delete (fst (last es)) es)" by blast
  have "LRU_evict E None c req
      = Some (shrunk (c\<lparr>store := h, eviction_params := ?p'\<rparr>) h' ht (obj_size ob))"
    using None u r(1)
    by (cases "q_prev ob") (simp_all add: LRU_evict_def cache_pinning_active_def Let_def)
  then show ?thesis using r(2) None assms(2) by (auto simp: LRU_R_def same_limits_def)
next
  case (Some f)
  from basic.queue_skip_pinned [OF assms(1) [unfolded LRU_R_def] assms(2), of "pin E"] obtain a ob where
    v: "cache_skip_pinned (pin E) (store c) (LRU_q_tail (eviction_params c)) = Some (Some a)"
    "store c a = Some ob" "fst (queue_victim (pin E) es) = obj_id ob" by (auto simp: basic.view_id)
  from LRU_remove_step [OF assms(1) v(2)] Some v show ?thesis
    by (auto simp: LRU_evict_def cache_pinning_active_def Let_def)
qed

interpretation lru: refined_policy "LRU_ops E None" "LRU_R E W" "queue_machine (pin E) True"
  "\<lambda>req. req_obj_id req \<in> fst W" for E W
proof (standard, goal_cases)
  case (6 c s req)
  note R = 6(1) [unfolded LRU_R_def]
  show ?case
  proof (cases "req_obj_id req \<in> fst ` set s")
    case True
    from basic.queue_find(2) [OF R True, of "LRU_remove E" True] obtain a h ob where
      f: "cache_find_base E None (LRU_remove E) c req True = Some (c\<lparr>store := h\<rparr>, Some a)"
      "LRU_R E W (c\<lparr>store := h\<rparr>) s" "h a = Some ob" "obj_id ob = req_obj_id req"
      by (auto simp: LRU_R_def)
    from basic.queue_move_to_head [OF f(2) [unfolded LRU_R_def], of a ob] f(3,4) obtain h' qh qt where
      m: "move_obj_to_head h (LRU_q_head (eviction_params c)) (LRU_q_tail (eviction_params c)) (Some a)
        = Some (h', qh, qt)"
      "queue_R basic_view E W (c\<lparr>store := h'\<rparr>) qh qt (queue_promote (req_obj_id req) s)" by auto
    have "LRU_R E W (c\<lparr>store := h', eviction_params := (eviction_params c)\<lparr>LRU_q_head := qh,
        LRU_q_tail := qt\<rparr>\<rparr>) (queue_promote (req_obj_id req) s)"
      using m(2) by (simp add: LRU_R_def)
    with f m(1) True show ?thesis by (simp add: LRU_ops_def LRU_find_def)
  next
    case False
    with basic.queue_find(1) [OF R False] 6(1) show ?thesis
      by (simp add: LRU_ops_def LRU_find_def)
  qed
next
  case (7 c s req)
  then show ?case using LRU_evict_refines [of E W c s req] by (simp add: LRU_ops_def)
next
  case (8 c s req)
  then show ?case using LRU_insert_refines [of E W c s req] by (auto simp: LRU_ops_def)
next
  case (11 c s)
  then show ?case using queue_victim_mem [of s "pin E"] by (auto simp: LRU_R_def)
qed (auto simp: LRU_R_def LRU_ops_def basic.queue_R_resident basic.queue_R_bytes
    cache_get_occupied_byte_default_def)

section \<open>Further operations\<close>

lemma LRU_init_R:
  assumes "spread E W" "\<not> support_ttl E" "0 < ccp_hashpower p" "ccp_hashpower p < 40"
    "int (snd W) \<le> ccp_hashpower p"
  shows "LRU_R E W (LRU_init pf0 p s) []"
  unfolding LRU_R_def LRU_init_def
  by (simp split del: if_split, rule queue_R_empty) (use assms in \<open>simp_all add: cache_ok_init\<close>)

lemma LRU_init_fields [simp]:
  "cache_size (LRU_init pf0 p s) = ccp_cache_size p" "obj_md_size (LRU_init pf0 p s) = (if ccp_consider_obj_metadata p then 16 else 0)"
  "admissioner (LRU_init pf0 p s) = None"
  by (simp_all add: LRU_init_def)

lemma LRU_remove_refines:
  assumes "LRU_R E W c es"
  shows "\<exists>c'. LRU_remove E c i = Some (c', i \<in> fst ` set es) \<and> LRU_R E W c' (queue_delete i es)
    \<and> same_limits c c' \<and> admissioner c' = admissioner c"
proof (cases "i \<in> fst ` set es")
  case True
  with assms obtain a ob where x: "store c a = Some ob" "obj_id ob = i"
    unfolding LRU_R_def by (elim basic.queue_R_object)
  with LRU_remove_step [OF assms x(1)] True show ?thesis
    using basic.queue_lookup(2) [OF assms [unfolded LRU_R_def] x] by (auto simp: LRU_remove_def Let_def)
next
  case False
  then show ?thesis using assms basic.queue_lookup(1) [OF assms [unfolded LRU_R_def] False]
    by (simp add: LRU_remove_def queue_delete_absent)
qed

text \<open>A cache that holds the objects 1 and 2, in the small setting with a pin predicate.\<close>

lemma LRU_sample:
  "\<exists>c :: (unit, unit, LRU_params_t) cache_t.
     LRU_R (sample_env\<lparr>pin := pn\<rparr>) sample_ids c [(2, 2), (1, 2)] \<and> cache_size c = 5"
proof -
  let ?E = "sample_env\<lparr>pin := pn\<rparr>"
  have "LRU_R ?E sample_ids (LRU_init () (sample_params 5) None) []"
    by (rule LRU_init_R) simp_all
  from lru.serve_refines [OF this, of "[sample_req 1 2, sample_req 2 2]"] show ?thesis
    by (auto simp: spec_get_queue queue_get_def queue_trim.simps same_limits_def simp del: serve.simps)
qed

lemma print_loop_dseg:
  "dseg h p xs NULL \<Longrightarrow> LRU_print_loop h (firstp xs NULL) = Some (map (\<lambda>a. obj_id (the (h a))) xs)"
proof (induction xs arbitrary: p)
  case Nil
  then show ?case by (simp add: LRU_print_loop.simps)
next
  case (Cons x xs)
  then show ?case by (auto simp: LRU_print_loop.simps [of h "Some x"])
qed

lemma LRU_print_cache_R: "LRU_R E W c es \<Longrightarrow> LRU_print_cache c = Some (map fst es)"
  by (auto simp: LRU_R_def LRU_print_cache_def dll_def basic.view_id print_loop_dseg comp_def
      elim!: basic.queue_R_E)

lemma LRU_remove_obj_refines:
  assumes "LRU_R E W c es" and "store c a = Some ob"
  shows "\<exists>c'. LRU_remove_obj E c (Some a) = Some c' \<and> LRU_R E W c' (queue_delete (obj_id ob) es)"
  using LRU_remove_step [OF assms] by (auto simp: LRU_remove_obj_def Let_def)

section \<open>Objects of one size and the stack property\<close>

text \<open>The LRU stack: every id ever requested, by the time of the last request.\<close>

definition stack_step :: "obj_id_t \<Rightarrow> int queue \<Rightarrow> int queue" where
  "stack_step i S = (i, 1) # queue_delete i S"

lemma stack_step_props:
  assumes "distinct (map fst S)" and "\<forall>e \<in> set S. snd e = 1"
  shows "distinct (map fst (stack_step i S))" "\<forall>e \<in> set (stack_step i S). snd e = 1"
  using assms by (auto simp: stack_step_def queue_delete_def distinct_map_filter)

text \<open>A cache of \<open>k\<close> objects holds the first \<open>k\<close> of the stack.\<close>

lemma queue_get_stack:
  assumes "distinct (map fst S)" and "\<forall>e \<in> set S. snd e = 1" and "0 < k" and "req_obj_size req = 1"
  shows "queue_get None True (int k) 0 req (take k S)
    = (take k (stack_step (req_obj_id req) S), req_obj_id req \<in> fst ` set (take k S))"
proof (cases "req_obj_id req \<in> fst ` set (take k S)")
  case True
  then obtain n where "(req_obj_id req, n) \<in> set (take k S)" by force
  then obtain us vs where t: "take k S = us @ (req_obj_id req, 1) # vs"
    using assms(2) by (metis in_set_takeD snd_conv split_list)
  let ?r = "drop k S"
  have S: "S = us @ (req_obj_id req, 1) # (vs @ ?r)"
    using arg_cong [OF t, of "\<lambda>l. l @ ?r"] by simp
  have "queue_delete (req_obj_id req) S = us @ vs @ ?r"
    using queue_delete_split [of us "(req_obj_id req, 1)" "vs @ ?r"] assms(1) S by simp
  moreover have "queue_promote (req_obj_id req) (take k S) = (req_obj_id req, 1) # us @ vs"
    unfolding t by (rule queue_promote_split [of _ "(_, _)", unfolded fst_conv]) (use assms(1) in \<open>simp flip: t take_map\<close>)
  moreover have "length (us @ vs) = k - 1 \<or> ?r = [] \<and> length (us @ vs) < k"
    using arg_cong [OF t, of length] by (auto simp: min_def split: if_splits)
  ultimately show ?thesis using True assms(3)
    by (auto simp: queue_get_def stack_step_def take_Cons' simp flip: append_assoc)
next
  case False
  have d: "distinct (map fst (take k S))" using assms(1) by (simp flip: take_map)
  have "queue_trim None (int k - 1) 0 (take k S) = take (k - 1) S"
    using queue_trim_unit [OF d, of "int k - 1"] assms(2,3)
    by (auto dest: in_set_takeD simp: nat_diff_distrib min_def)
  moreover have "take (k - 1) (queue_delete (req_obj_id req) S) = take (k - 1) S"
  proof -
    have "filter (\<lambda>e. fst e \<noteq> req_obj_id req) (take k S) = take k S"
      using False by (auto intro!: filter_True simp: rev_image_eqI)
    then have "queue_delete (req_obj_id req) S = take k S @ queue_delete (req_obj_id req) (drop k S)"
      unfolding queue_delete_def by (metis append_take_drop_id filter_append)
    then show ?thesis using assms(3) by (cases "k \<le> length S") (simp_all add: queue_delete_def)
  qed
  ultimately show ?thesis using False assms(3,4) by (simp add: queue_get_def stack_step_def take_Cons')
qed

lemma queue_serve_inclusion:
  assumes "distinct (map fst S)" and "\<forall>e \<in> set S. snd e = 1" and "0 < k" and "k \<le> k'"
    and "\<forall>req \<in> set reqs. req_obj_size req = 1"
  shows "list_all2 (\<longrightarrow>) (snd (queue_serve None True (int k) 0 (take k S) reqs))
    (snd (queue_serve None True (int k') 0 (take k' S) reqs))"
  using assms(1,2,5)
proof (induction reqs arbitrary: S)
  case Nil
  then show ?case by simp
next
  case (Cons req reqs)
  have sz: "req_obj_size req = 1" using Cons.prems(3) by simp
  note p = stack_step_props [OF Cons.prems(1,2), of "req_obj_id req"]
  have "list_all2 (\<longrightarrow>)
      (snd (queue_serve None True (int k) 0 (take k (stack_step (req_obj_id req) S)) reqs))
      (snd (queue_serve None True (int k') 0 (take k' (stack_step (req_obj_id req) S)) reqs))"
    by (rule Cons.IH [OF p]) (use Cons.prems(3) in simp)
  moreover have "set (take k S) \<subseteq> set (take k' S)" using assms(4) by (rule set_take_subset_set_take)
  ultimately show ?case using assms(3,4)
    by (auto simp: queue_get_stack [OF Cons.prems(1,2) _ sz] split: prod.splits)
qed

section \<open>Properties\<close>

text \<open>
  C3: an LRU cache behaves, on every trace from its initialisation, like the list of its objects
  by recency: the code returns for every request, the hits it reports are those of the list, and
  it ends with the objects of the list, the metadata size of 16 bytes per object included when it
  is asked for.  Pinning is included.
\<close>

theorem LRU_serve_refines:
  assumes "spread E W" and "\<not> support_ttl E" and "0 < ccp_hashpower p" and "ccp_hashpower p < 40"
    and "int (snd W) \<le> ccp_hashpower p" and "\<forall>req \<in> set reqs. req_obj_id req \<in> fst W"
  shows "let r = queue_serve (pin E) True (ccp_cache_size p)
      (if ccp_consider_obj_metadata p then 16 else 0) [] reqs
    in \<exists>c. serve (LRU_ops E None) None (LRU_init pf0 p s) reqs = Some (c, snd r)
      \<and> LRU_R E W c (fst r)"
  using lru.serve_refines [OF LRU_init_R [OF assms(1-5), of pf0 s] assms(6)]
  by (auto simp: spec_serve_queue Let_def)

theorem LRU_serve_refines_witness:
  "\<exists>c :: (unit, unit, LRU_params_t) cache_t.
     serve (LRU_ops sample_env None) None (LRU_init () (sample_params 5) None)
       [sample_req 1 2, sample_req 2 2, sample_req 1 2, sample_req 3 1, sample_req 4 3, sample_req 2 2]
       = Some (c, [False, False, True, False, False, False])
     \<and> LRU_R sample_env sample_ids c [(2, 2), (4, 3)]"
  using LRU_serve_refines [of sample_env sample_ids "sample_params 5"
      "[sample_req 1 2, sample_req 2 2, sample_req 1 2, sample_req 3 1, sample_req 4 3, sample_req 2 2]"
      "()" None]
  by (simp add: queue_get_def queue_trim.simps queue_delete_def queue_promote_def Let_def
      del: serve.simps)

text \<open>
  C6: the inclusion property of LRU.  With objects of one size and no pinning, a request that hits
  in a cache of \<open>k\<close> objects hits in every cache of at least \<open>k\<close> objects that has served the same
  trace, so the hits of the larger cache include those of the smaller one.
\<close>

theorem LRU_inclusion:
  assumes "spread E W" and "\<not> support_ttl E" and "pin E = None"
    and "0 < ccp_hashpower p" and "ccp_hashpower p < 40" and "int (snd W) \<le> ccp_hashpower p"
    and "0 < ccp_hashpower p'" and "ccp_hashpower p' < 40" and "int (snd W) \<le> ccp_hashpower p'"
    and "\<not> ccp_consider_obj_metadata p" and "\<not> ccp_consider_obj_metadata p'"
    and "0 < ccp_cache_size p" and "ccp_cache_size p \<le> ccp_cache_size p'"
    and "\<forall>req \<in> set reqs. req_obj_id req \<in> fst W \<and> req_obj_size req = 1"
  shows "\<exists>c hits c' hits'. serve (LRU_ops E None) None
      (LRU_init pf0 p s :: ('a, 'f, LRU_params_t) cache_t) reqs = Some (c, hits)
    \<and> serve (LRU_ops E None) None
      (LRU_init pf0 p' s :: ('a, 'f, LRU_params_t) cache_t) reqs = Some (c', hits')
    \<and> list_all2 (\<longrightarrow>) hits hits'"
proof -
  have ids: "\<forall>req \<in> set reqs. req_obj_id req \<in> fst W" using assms(14) by blast
  have "list_all2 (\<longrightarrow>) (snd (queue_serve None True (ccp_cache_size p) 0 [] reqs))
      (snd (queue_serve None True (ccp_cache_size p') 0 [] reqs))"
    using queue_serve_inclusion [of "[]" "nat (ccp_cache_size p)" "nat (ccp_cache_size p')" reqs]
      assms(12-14) by simp
  moreover have R: "LRU_R E W (LRU_init pf0 p s :: ('a, 'f, LRU_params_t) cache_t) []"
    "LRU_R E W (LRU_init pf0 p' s :: ('a, 'f, LRU_params_t) cache_t) []"
    by (rule LRU_init_R [OF assms(1,2,4-6)], rule LRU_init_R [OF assms(1,2,7-9)])
  ultimately show ?thesis
    using lru.serve_refines [OF R(1) ids] lru.serve_refines [OF R(2) ids] assms(3,10,11)
    by (auto simp: spec_serve_queue)
qed

theorem LRU_inclusion_witness:
  "\<exists>(c :: (unit, unit, LRU_params_t) cache_t) hits (c' :: (unit, unit, LRU_params_t) cache_t) hits'.
     serve (LRU_ops sample_env None) None (LRU_init () (sample_params 1) None)
       [sample_req 1 1, sample_req 2 1, sample_req 1 1] = Some (c, hits)
     \<and> serve (LRU_ops sample_env None) None (LRU_init () (sample_params 2) None)
       [sample_req 1 1, sample_req 2 1, sample_req 1 1] = Some (c', hits')
     \<and> list_all2 (\<longrightarrow>) hits hits'"
  by (rule LRU_inclusion [of sample_env sample_ids]) simp_all

text \<open>
  C22: a removal requested by the user reports whether the object was resident, takes exactly that
  object out, and a lookup afterwards misses; every other object is still found.
\<close>

theorem LRU_remove_find:
  assumes "LRU_R E W c es"
  shows "\<exists>c'. LRU_remove E c i = Some (c', i \<in> resident c) \<and> resident c' = resident c - {i}
    \<and> (\<forall>req. \<exists>p. LRU_find E None c' req False = Some (c', p)
         \<and> (p \<noteq> NULL \<longleftrightarrow> req_obj_id req \<in> resident c - {i}))"
proof -
  have res: "resident c = fst ` set es" using assms by (simp add: LRU_R_def basic.queue_R_resident)
  from LRU_remove_refines [OF assms, of i] obtain c' where
    c': "LRU_remove E c i = Some (c', i \<in> resident c)" "LRU_R E W c' (queue_delete i es)"
    by (auto simp: res)
  note R = c'(2) [unfolded LRU_R_def]
  have res': "resident c' = resident c - {i}" using basic.queue_R_resident [OF R] by (simp add: res)
  have "\<exists>p. LRU_find E None c' req False = Some (c', p)
      \<and> (p \<noteq> NULL \<longleftrightarrow> req_obj_id req \<in> resident c - {i})" for req
    using basic.queue_find_only [OF R, of "LRU_remove E" req] by (auto simp: LRU_find_def res)
  with c'(1) res' show ?thesis by blast
qed

theorem LRU_remove_find_witness:
  "\<exists>(c :: (unit, unit, LRU_params_t) cache_t) c'. resident c = {1, 2}
     \<and> LRU_remove sample_env c 1 = Some (c', True) \<and> resident c' = {2}"
proof -
  from LRU_sample [of None] obtain c :: "(unit, unit, LRU_params_t) cache_t" where
    c: "LRU_R sample_env sample_ids c [(2, 2), (1, 2)]" by (auto simp: sample_env_def)
  then have "resident c = {1, 2}" by (auto simp: LRU_R_def basic.queue_R_resident)
  with LRU_remove_find [OF c, of 1] show ?thesis by auto
qed

end
