(* ===== verification/FIFO.thy ===== *)
theory FIFO
  imports Queue_Refine
begin

text \<open>
  The FIFO cache (\<open>cache/eviction/FIFO.c\<close>).  \<open>FIFO_R\<close> relates a cache to the list of its objects
  from the newest to the oldest; the interpretation \<open>fifo\<close> shows that the code refines the machine
  that never reorders the list and evicts its last (unpinned) element.
\<close>

section \<open>Model\<close>

record FIFO_params_t =
  FIFO_q_head :: ptr
  FIFO_q_tail :: ptr

definition FIFO_parse_params :: "string option \<Rightarrow> unit option" where
  "FIFO_parse_params s = (if s \<noteq> None then None else Some ())"

definition FIFO_init ::
    "'f \<Rightarrow> common_cache_params_t \<Rightarrow> string option \<Rightarrow> ('a, 'f, FIFO_params_t) cache_t" where
  "FIFO_init pf0 ccache_params cache_specific_params =
    (cache_struct_init ''FIFO'' ccache_params cache_specific_params pf0
       \<lparr>FIFO_q_head = NULL, FIFO_q_tail = NULL\<rparr>)\<lparr>obj_md_size := 0\<rparr>"

definition FIFO_insert ::
    "env \<Rightarrow> ('a, 'f, FIFO_params_t) cache_t \<Rightarrow> request \<Rightarrow>
     (('a, 'f, FIFO_params_t) cache_t \<times> ptr) option" where
  "FIFO_insert E c req = do {
     (c, obj) \<leftarrow> cache_insert_base E c req;
     let params = eviction_params c;
     (h, qh, qt) \<leftarrow> prepend_obj_to_head (store c) (FIFO_q_head params) (FIFO_q_tail params) obj;
     Some (c\<lparr>store := h, eviction_params := params\<lparr>FIFO_q_head := qh, FIFO_q_tail := qt\<rparr>\<rparr>, obj) }"

definition FIFO_to_evict ::
    "env \<Rightarrow> ('a, 'f, FIFO_params_t) cache_t \<Rightarrow> request \<Rightarrow>
     (('a, 'f, FIFO_params_t) cache_t \<times> ptr) option" where
  "FIFO_to_evict E c req =
     map_option (Pair c) (cache_skip_pinned (pin E) (store c) (FIFO_q_tail (eviction_params c)))"

definition FIFO_evict ::
    "env \<Rightarrow> ('a, 'f, FIFO_params_t) cache_t prefetcher_t option \<Rightarrow>
     ('a, 'f, FIFO_params_t) cache_t \<Rightarrow> request \<Rightarrow> ('a, 'f, FIFO_params_t) cache_t option" where
  "FIFO_evict E pf c req = (let params = eviction_params c in
     if cache_pinning_active (pin E) then do {
       victim \<leftarrow> cache_skip_pinned (pin E) (store c) (FIFO_q_tail params);
       (h, qh, qt) \<leftarrow> remove_obj_from_list (store c) (FIFO_q_head params) (FIFO_q_tail params) victim;
       cache_evict_base E pf
         (c\<lparr>store := h, eviction_params := params\<lparr>FIFO_q_head := qh, FIFO_q_tail := qt\<rparr>\<rparr>) victim True }
     else do {
       let obj_to_evict = FIFO_q_tail params;
       ob \<leftarrow> deref (store c) obj_to_evict;
       let params = params\<lparr>FIFO_q_tail := q_prev ob\<rparr>;
       h \<leftarrow> (if FIFO_q_tail params \<noteq> NULL then set_next (store c) (FIFO_q_tail params) NULL
             else Some (store c));
       let params = (if FIFO_q_tail params \<noteq> NULL then params else params\<lparr>FIFO_q_head := NULL\<rparr>);
       cache_evict_base E pf (c\<lparr>store := h, eviction_params := params\<rparr>) obj_to_evict True })"

definition FIFO_remove ::
    "env \<Rightarrow> ('a, 'f, FIFO_params_t) cache_t \<Rightarrow> obj_id_t \<Rightarrow>
     (('a, 'f, FIFO_params_t) cache_t \<times> bool) option" where
  "FIFO_remove E c i = do {
     obj \<leftarrow> chained_hashtable_find_obj_id_v2 E (store c) (hashtable c) i;
     if obj = NULL then Some (c, False)
     else do {
       let params = eviction_params c;
       (h, qh, qt) \<leftarrow> remove_obj_from_list (store c) (FIFO_q_head params) (FIFO_q_tail params) obj;
       c \<leftarrow> cache_remove_obj_base E
         (c\<lparr>store := h, eviction_params := params\<lparr>FIFO_q_head := qh, FIFO_q_tail := qt\<rparr>\<rparr>) obj True;
       Some (c, True) } }"

definition FIFO_find ::
    "env \<Rightarrow> ('a, 'f, FIFO_params_t) cache_t prefetcher_t option \<Rightarrow> ('a, 'f, FIFO_params_t) cache_t \<Rightarrow>
     request \<Rightarrow> bool \<Rightarrow> (('a, 'f, FIFO_params_t) cache_t \<times> ptr) option" where
  "FIFO_find E pf c req update_cache = cache_find_base E pf (FIFO_remove E) c req update_cache"

definition FIFO_ops ::
    "env \<Rightarrow> ('a, 'f, FIFO_params_t) cache_t prefetcher_t option \<Rightarrow>
     ('a, 'f, FIFO_params_t) cache_t cache_ops" where
  "FIFO_ops E pf = \<lparr>op_find = FIFO_find E pf, op_can_insert = cache_can_insert_default,
     op_insert = FIFO_insert E, op_evict = FIFO_evict E pf, op_remove = FIFO_remove E,
     op_to_evict = FIFO_to_evict E, op_get_occupied_byte = cache_get_occupied_byte_default,
     op_get_n_obj = cache_get_n_obj_default\<rparr>"

definition FIFO_get ::
    "env \<Rightarrow> ('a, 'f, FIFO_params_t) cache_t prefetcher_t option \<Rightarrow> ('a, 'f, FIFO_params_t) cache_t \<Rightarrow>
     request \<Rightarrow> (('a, 'f, FIFO_params_t) cache_t \<times> bool) option" where
  "FIFO_get E pf c req = cache_get_base (FIFO_ops E pf) pf c req"

section \<open>Refinement\<close>

definition FIFO_R ::
    "(cache_obj \<Rightarrow> obj_id_t \<times> 'x) \<Rightarrow> env \<Rightarrow> trace_ids \<Rightarrow> ('a, 'f, FIFO_params_t) cache_t \<Rightarrow> 'x queue \<Rightarrow>
     bool" where
  "FIFO_R v E W c es \<longleftrightarrow>
     queue_R v E W c (FIFO_q_head (eviction_params c)) (FIFO_q_tail (eviction_params c)) es"

context object_view
begin

lemma FIFO_insert_refines:
  assumes "FIFO_R v E W c es" and "req_obj_id req \<in> fst W" and "req_obj_id req \<notin> fst ` set es"
  shows "\<exists>c' ob. FIFO_insert E c req = Some (c', Some (brk c)) \<and> same_limits c c'
    \<and> admissioner c' = admissioner c \<and> FIFO_R v E W c' (v (inserted_obj E c req) # es)
    \<and> store c' (brk c) = Some ob \<and> obj_id ob = req_obj_id req"
proof -
  from queue_insert [OF assms(1) [unfolded FIFO_R_def] assms(2,3)] obtain h ht h' qh qt where
    i: "cache_insert_base E c req = Some (grown c h ht (req_obj_size req), Some (brk c))"
    "prepend_obj_to_head h (FIFO_q_head (eviction_params c)) (FIFO_q_tail (eviction_params c))
       (Some (brk c)) = Some (h', qh, qt)"
    "queue_R v E W (grown c h' ht (req_obj_size req)) qh qt (v (inserted_obj E c req) # es)"
    and "\<exists>ob. h' (brk c) = Some ob \<and> payload ob = inserted_obj E c req" by blast
  then have ob: "\<exists>ob. h' (brk c) = Some ob \<and> obj_id ob = req_obj_id req"
    by (metis inserted_obj_simps(1) payload_simps(1))
  let ?p = "(eviction_params c)\<lparr>FIFO_q_head := qh, FIFO_q_tail := qt\<rparr>"
  have "FIFO_insert E c req
      = Some ((grown c h' ht (req_obj_size req))\<lparr>eviction_params := ?p\<rparr>, Some (brk c))"
    using i(1,2) by (simp add: FIFO_insert_def)
  moreover have "queue_R v E W ((grown c h' ht (req_obj_size req))\<lparr>eviction_params := ?p\<rparr>) qh qt
      (v (inserted_obj E c req) # es)" using i(3) by (simp only: queue_R_fields)
  ultimately show ?thesis using ob by (auto simp: FIFO_R_def same_limits_def)
qed

lemma FIFO_remove_step:
  assumes "FIFO_R v E W c es" and "store c a = Some ob"
  shows "\<exists>h qh qt c'. remove_obj_from_list (store c) (FIFO_q_head (eviction_params c))
        (FIFO_q_tail (eviction_params c)) (Some a) = Some (h, qh, qt)
    \<and> cache_remove_obj_base E (c\<lparr>store := h, eviction_params :=
        (eviction_params c)\<lparr>FIFO_q_head := qh, FIFO_q_tail := qt\<rparr>\<rparr>) (Some a) True = Some c'
    \<and> same_limits c c' \<and> admissioner c' = admissioner c \<and> FIFO_R v E W c' (queue_delete (obj_id ob) es)"
proof -
  from queue_unlink_remove [OF assms(1) [unfolded FIFO_R_def] assms(2)] obtain h qh qt where
    u: "remove_obj_from_list (store c) (FIFO_q_head (eviction_params c))
      (FIFO_q_tail (eviction_params c)) (Some a) = Some (h, qh, qt)"
    and rm: "\<exists>h' ht. cache_remove_obj_base E (c\<lparr>store := h, eviction_params := p\<rparr>) (Some a) True
      = Some (shrunk (c\<lparr>store := h, eviction_params := p\<rparr>) h' ht (obj_size ob))
    \<and> queue_R v E W (shrunk (c\<lparr>store := h, eviction_params := p\<rparr>) h' ht (obj_size ob)) qh qt
        (queue_delete (obj_id ob) es)" for p by blast
  from rm [of "(eviction_params c)\<lparr>FIFO_q_head := qh, FIFO_q_tail := qt\<rparr>"] u show ?thesis
    by (fastforce simp: FIFO_R_def same_limits_def)
qed

lemma FIFO_evict_refines:
  assumes "FIFO_R v E W c es" and "es \<noteq> []"
  shows "\<exists>c'. FIFO_evict E None c req = Some c' \<and> same_limits c c' \<and> admissioner c' = admissioner c
    \<and> FIFO_R v E W c' (queue_delete (fst (queue_victim (pin E) es)) es)"
proof (cases "pin E")
  case None
  let ?p = "eviction_params c"
  from queue_unlink_tail [OF assms(1) [unfolded FIFO_R_def] assms(2)] obtain a ob h where
    u: "FIFO_q_tail ?p = Some a" "store c a = Some ob"
    "(if q_prev ob \<noteq> NULL then set_next (store c) (q_prev ob) NULL else Some (store c)) = Some h"
    and rm: "\<exists>h' ht. cache_remove_obj_base E (c\<lparr>store := h, eviction_params := p\<rparr>) (Some a) True
      = Some (shrunk (c\<lparr>store := h, eviction_params := p\<rparr>) h' ht (obj_size ob))
    \<and> queue_R v E W (shrunk (c\<lparr>store := h, eviction_params := p\<rparr>) h' ht (obj_size ob))
        (if q_prev ob \<noteq> NULL then FIFO_q_head ?p else NULL) (q_prev ob)
        (queue_delete (fst (last es)) es)" for p by blast
  let ?p' = "if q_prev ob \<noteq> NULL then ?p\<lparr>FIFO_q_tail := q_prev ob\<rparr>
    else ?p\<lparr>FIFO_q_tail := q_prev ob, FIFO_q_head := NULL\<rparr>"
  from rm [of ?p'] obtain h' ht where
    r: "cache_remove_obj_base E (c\<lparr>store := h, eviction_params := ?p'\<rparr>) (Some a) True
      = Some (shrunk (c\<lparr>store := h, eviction_params := ?p'\<rparr>) h' ht (obj_size ob))"
    "queue_R v E W (shrunk (c\<lparr>store := h, eviction_params := ?p'\<rparr>) h' ht (obj_size ob))
        (if q_prev ob \<noteq> NULL then FIFO_q_head ?p else NULL) (q_prev ob)
        (queue_delete (fst (last es)) es)" by blast
  have "FIFO_evict E None c req
      = Some (shrunk (c\<lparr>store := h, eviction_params := ?p'\<rparr>) h' ht (obj_size ob))"
    using None u r(1)
    by (cases "q_prev ob") (simp_all add: FIFO_evict_def cache_pinning_active_def Let_def)
  then show ?thesis using r(2) None assms(2) by (auto simp: FIFO_R_def same_limits_def)
next
  case (Some f)
  from queue_skip_pinned [OF assms(1) [unfolded FIFO_R_def] assms(2), of "pin E"] obtain a ob where
    v: "cache_skip_pinned (pin E) (store c) (FIFO_q_tail (eviction_params c)) = Some (Some a)"
    "store c a = Some ob" "fst (queue_victim (pin E) es) = obj_id ob" by (auto simp: view_id)
  from FIFO_remove_step [OF assms(1) v(2)] Some v show ?thesis
    by (auto simp: FIFO_evict_def cache_pinning_active_def Let_def)
qed

lemma FIFO_remove_refines:
  assumes "FIFO_R v E W c es"
  shows "\<exists>c'. FIFO_remove E c i = Some (c', i \<in> fst ` set es) \<and> FIFO_R v E W c' (queue_delete i es)
    \<and> same_limits c c' \<and> admissioner c' = admissioner c"
proof (cases "i \<in> fst ` set es")
  case True
  with assms obtain a ob where x: "store c a = Some ob" "obj_id ob = i"
    unfolding FIFO_R_def by (elim queue_R_object)
  with FIFO_remove_step [OF assms x(1)] True show ?thesis
    using queue_lookup(2) [OF assms [unfolded FIFO_R_def] x] by (auto simp: FIFO_remove_def Let_def)
next
  case False
  then show ?thesis using assms queue_lookup(1) [OF assms [unfolded FIFO_R_def] False]
    by (simp add: FIFO_remove_def queue_delete_absent)
qed

text \<open>Facts for the algorithms that keep their objects in FIFO caches.\<close>

lemma FIFO_R_facts:
  assumes "FIFO_R v E W c es"
  shows "distinct (map fst es)" "fst ` set es \<subseteq> fst W" "occupied_byte c = view_bytes sz (obj_md_size c) es"
    "n_obj c = int (length es)" "\<not> support_ttl E"
proof -
  from assms obtain xs where x: "cache_ok E W c (set xs)" "es = views v (store c) xs" "distinct (map fst es)"
    "\<not> support_ttl E" unfolding FIFO_R_def by (elim queue_R_E)
  show "distinct (map fst es)" "\<not> support_ttl E" by (rule x)+
  show "fst ` set es \<subseteq> fst W"
    using cache_okD(1) [OF x(1)] x(2) by (auto simp: table_ok_def view_id)
  show "occupied_byte c = view_bytes sz (obj_md_size c) es" "n_obj c = int (length es)"
    by (rule queue_R_bytes [OF assms [unfolded FIFO_R_def]])+
qed

lemma FIFO_find_refines:
  assumes "FIFO_R v E W c es"
  shows "req_obj_id req \<notin> fst ` set es \<Longrightarrow> FIFO_find E None c req True = Some (c, NULL)"
    and "req_obj_id req \<in> fst ` set es \<Longrightarrow> \<exists>a h ob. FIFO_find E None c req True = Some (c\<lparr>store := h\<rparr>, Some a)
      \<and> FIFO_R v E W (c\<lparr>store := h\<rparr>) es \<and> h a = Some ob \<and> obj_id ob = req_obj_id req"
  using queue_find [OF assms [unfolded FIFO_R_def], of req "FIFO_remove E" True]
  by (auto simp: FIFO_find_def FIFO_R_def)

lemma FIFO_to_evict_refines:
  assumes "FIFO_R v E W c es" and "es \<noteq> []"
  shows "\<exists>a ob. FIFO_to_evict E c req = Some (c, Some a) \<and> store c a = Some ob
    \<and> queue_victim (pin E) es = v ob"
  using queue_skip_pinned [OF assms(1) [unfolded FIFO_R_def] assms(2), of "pin E"]
  by (auto simp: FIFO_to_evict_def)

lemma FIFO_update:
  assumes "FIFO_R v E W c es" and "store c a = Some ob" and "core ob' = core ob"
    and "q_prev ob' = q_prev ob" and "q_next ob' = q_next ob"
  shows "FIFO_R v E W (c\<lparr>store := (store c)(a \<mapsto> ob')\<rparr>)
    (map (\<lambda>e. if fst e = obj_id ob then v ob' else e) es)"
  using queue_R_update [OF assms(1) [unfolded FIFO_R_def] assms(2-)] by (simp add: FIFO_R_def)

end

interpretation fifo: refined_policy "FIFO_ops E None" "FIFO_R basic_view E W" "queue_machine (pin E) False"
  "\<lambda>req. req_obj_id req \<in> fst W" for E W
proof (standard, goal_cases)
  case (6 c s req)
  note R = 6(1) [unfolded FIFO_R_def]
  show ?case
  proof (cases "req_obj_id req \<in> fst ` set s")
    case True
    from basic.queue_find(2) [OF R True, of "FIFO_remove E" True] obtain a h where
      "cache_find_base E None (FIFO_remove E) c req True = Some (c\<lparr>store := h\<rparr>, Some a)"
      "FIFO_R basic_view E W (c\<lparr>store := h\<rparr>) s" by (auto simp: FIFO_R_def)
    with True show ?thesis by (simp add: FIFO_ops_def FIFO_find_def)
  next
    case False
    with basic.queue_find(1) [OF R False] 6(1) show ?thesis
      by (simp add: FIFO_ops_def FIFO_find_def)
  qed
next
  case (7 c s req)
  then show ?case using basic.FIFO_evict_refines [of E W c s req] by (simp add: FIFO_ops_def)
next
  case (8 c s req)
  then show ?case using basic.FIFO_insert_refines [of E W c s req] by (auto simp: FIFO_ops_def)
next
  case (11 c s)
  then show ?case using queue_victim_mem [of s "pin E"] by (auto simp: FIFO_R_def)
qed (auto simp: FIFO_R_def FIFO_ops_def basic.queue_R_resident basic.queue_R_bytes
    cache_get_occupied_byte_default_def)

section \<open>Further operations\<close>

lemma FIFO_init_R:
  assumes "spread E W" "\<not> support_ttl E" "0 < ccp_hashpower p" "ccp_hashpower p < 40"
    "int (snd W) \<le> ccp_hashpower p"
  shows "FIFO_R basic_view E W (FIFO_init pf0 p s) []"
  unfolding FIFO_R_def FIFO_init_def
  by (simp, rule queue_R_empty) (use assms in \<open>simp_all add: cache_ok_init\<close>)

lemma FIFO_init_fields [simp]:
  "cache_size (FIFO_init pf0 p s) = ccp_cache_size p" "obj_md_size (FIFO_init pf0 p s) = 0"
  "admissioner (FIFO_init pf0 p s) = None"
  by (simp_all add: FIFO_init_def)

text \<open>A cache that holds the objects 1 and 2, in the small setting with a pin predicate.\<close>

lemma FIFO_sample:
  "\<exists>c :: (unit, unit, FIFO_params_t) cache_t.
     FIFO_R basic_view (sample_env\<lparr>pin := pn\<rparr>) sample_ids c [(2, 2), (1, 2)] \<and> cache_size c = 5"
proof -
  let ?E = "sample_env\<lparr>pin := pn\<rparr>"
  have "FIFO_R basic_view ?E sample_ids (FIFO_init () (sample_params 5) None) []"
    by (rule FIFO_init_R) simp_all
  from fifo.serve_refines [OF this, of "[sample_req 1 2, sample_req 2 2]"] show ?thesis
    by (auto simp: spec_get_queue queue_get_def queue_trim.simps same_limits_def simp del: serve.simps)
qed

section \<open>Properties\<close>

text \<open>
  C7: a FIFO cache behaves, on every trace from its initialisation, like the list of its objects
  in insertion order: the code returns for every request, the hits it reports are those of the
  list, and it ends with the objects of the list.  Pinning is included.
\<close>

theorem FIFO_serve_refines:
  assumes "spread E W" and "\<not> support_ttl E" and "0 < ccp_hashpower p" and "ccp_hashpower p < 40"
    and "int (snd W) \<le> ccp_hashpower p" and "\<forall>req \<in> set reqs. req_obj_id req \<in> fst W"
  shows "\<exists>c. serve (FIFO_ops E None) None (FIFO_init pf0 p s) reqs
      = Some (c, snd (queue_serve (pin E) False (ccp_cache_size p) 0 [] reqs))
    \<and> FIFO_R basic_view E W c (fst (queue_serve (pin E) False (ccp_cache_size p) 0 [] reqs))"
  using fifo.serve_refines [OF FIFO_init_R [OF assms(1-5), of pf0 s] assms(6)]
  by (auto simp: spec_serve_queue)

text \<open>A run with eviction, of objects of sizes 2, 2, 1, 3 in a cache of 5 bytes.\<close>

theorem FIFO_serve_refines_witness:
  "\<exists>c :: (unit, unit, FIFO_params_t) cache_t.
     serve (FIFO_ops sample_env None) None (FIFO_init () (sample_params 5) None)
       [sample_req 1 2, sample_req 2 2, sample_req 1 2, sample_req 3 1, sample_req 4 3, sample_req 3 1]
       = Some (c, [False, False, True, False, False, True])
     \<and> FIFO_R basic_view sample_env sample_ids c [(4, 3), (3, 1)]"
  using FIFO_serve_refines [of sample_env sample_ids "sample_params 5"
      "[sample_req 1 2, sample_req 2 2, sample_req 1 2, sample_req 3 1, sample_req 4 3, sample_req 3 1]"
      "()" None]
  by (simp add: queue_get_def queue_trim.simps queue_delete_def del: serve.simps)

text \<open>
  C21: while some object of a FIFO cache is not pinned, an eviction takes an object that is not
  pinned, and only that object.
\<close>

theorem FIFO_evict_unpinned:
  assumes "FIFO_R basic_view E W c es" and "pin E = Some f" and "\<exists>i \<in> resident c. \<not> f i"
  shows "\<exists>c' i. FIFO_evict E None c req = Some c' \<and> i \<in> resident c \<and> \<not> f i
    \<and> resident c' = resident c - {i}"
proof -
  have res: "resident c = fst ` set es" using assms(1) by (simp add: FIFO_R_def basic.queue_R_resident)
  with assms(3) have ne: "es \<noteq> []" by auto
  let ?v = "queue_victim (pin E) es"
  have "\<not> f (fst ?v)" using queue_victim_pinned [OF ne, of f] assms(2,3) res by auto
  moreover have "fst ?v \<in> resident c" using queue_victim_mem [OF ne] res by auto
  moreover from basic.FIFO_evict_refines [OF assms(1) ne, of req] obtain c' where
    "FIFO_evict E None c req = Some c'" "FIFO_R basic_view E W c' (queue_delete (fst ?v) es)" by blast
  moreover from this have "resident c' = resident c - {fst ?v}"
    by (simp add: FIFO_R_def basic.queue_R_resident res)
  ultimately show ?thesis by blast
qed

theorem FIFO_evict_unpinned_witness:
  "\<exists>(c :: (unit, unit, FIFO_params_t) cache_t) c' i.
     FIFO_R basic_view (sample_env\<lparr>pin := Some (\<lambda>i. i = 1)\<rparr>) sample_ids c [(2, 2), (1, 2)]
     \<and> FIFO_evict (sample_env\<lparr>pin := Some (\<lambda>i. i = 1)\<rparr>) None c (sample_req 3 1) = Some c'
     \<and> i \<in> resident c \<and> i \<noteq> 1 \<and> resident c' = resident c - {i}"
proof -
  let ?E = "sample_env\<lparr>pin := Some (\<lambda>i. i = 1)\<rparr>"
  from FIFO_sample obtain c :: "(unit, unit, FIFO_params_t) cache_t" where
    c: "FIFO_R basic_view ?E sample_ids c [(2, 2), (1, 2)]" by blast
  have "resident c = {1, 2}" using c by (auto simp: FIFO_R_def basic.queue_R_resident)
  then have "\<exists>i \<in> resident c. \<not> i = 1" by auto
  with c FIFO_evict_unpinned [OF c, of "\<lambda>i. i = 1" "sample_req 3 1"] show ?thesis by auto
qed

end
