(* ===== verification/Params.thy ===== *)
theory Params
  imports Prelude
begin

text \<open>
  The parameter strings of the algorithms, \<open>key=value,key=value\<close>: the string functions of the C
  library that the parsers use (\<open>strsep\<close> with one delimiter, \<open>strcasecmp\<close>, \<open>strtol\<close> with base 0)
  and the head of their common loop, which splits the next key and value off.  Numbers are printed
  as \<open>%d\<close> prints them, and reading a printed number gives it back.
\<close>

section \<open>String functions\<close>

text \<open>\<open>strsep\<close>: the token up to the delimiter and the rest behind it; \<open>None\<close> is \<open>NULL\<close>.\<close>

definition strsep :: "char \<Rightarrow> string option \<Rightarrow> string option \<times> string option" where
  "strsep d s = (case s of None \<Rightarrow> (None, None)
     | Some s \<Rightarrow> (Some (takeWhile (\<lambda>c. c \<noteq> d) s),
         if d \<in> set s then Some (tl (dropWhile (\<lambda>c. c \<noteq> d) s)) else None))"

definition char_code :: "char \<Rightarrow> nat" where
  "char_code c = of_char c"

definition tolower :: "char \<Rightarrow> char" where
  "tolower c = (if 65 \<le> char_code c \<and> char_code c \<le> 90 then char_of (char_code c + 32) else c)"

definition strcasecmp_eq :: "string \<Rightarrow> string \<Rightarrow> bool" where
  "strcasecmp_eq s t = (map tolower s = map tolower t)"

definition is_space :: "char \<Rightarrow> bool" where
  "is_space c = (char_code c = 32 \<or> 9 \<le> char_code c \<and> char_code c \<le> 13)"

definition digit_val :: "char \<Rightarrow> nat option" where
  "digit_val c =
    (let n = char_code c
     in if 48 \<le> n \<and> n \<le> 57 then Some (n - 48)
        else if 97 \<le> n \<and> n \<le> 122 then Some (n - 87)
        else if 65 \<le> n \<and> n \<le> 90 then Some (n - 55) else None)"

definition is_digit :: "nat \<Rightarrow> char \<Rightarrow> bool" where
  "is_digit base c = (case digit_val c of None \<Rightarrow> False | Some n \<Rightarrow> n < base)"

definition digits_val :: "nat \<Rightarrow> string \<Rightarrow> nat" where
  "digits_val base s = fold (\<lambda>c n. n * base + the (digit_val c)) s 0"

definition LONG_MAX :: int where
  "LONG_MAX = 2 ^ 63 - 1"

definition strtol_base :: "string \<Rightarrow> nat \<times> string" where
  "strtol_base s = (case s of
       CHR ''0'' # x # y # r \<Rightarrow> if tolower x = CHR ''x'' \<and> is_digit 16 y then (16, y # r) else (8, s)
     | CHR ''0'' # _ \<Rightarrow> (8, s)
     | _ \<Rightarrow> (10, s))"

text \<open>\<open>strtol(s, &end, 0)\<close>: the value, clamped to the range of \<open>long\<close>, and the rest \<open>end\<close>.\<close>

definition strtol :: "string \<Rightarrow> int \<times> string" where
  "strtol s =
    (let t = dropWhile is_space s;
         neg = (t \<noteq> [] \<and> hd t = CHR ''-'');
         t = (if t \<noteq> [] \<and> (hd t = CHR ''-'' \<or> hd t = CHR ''+'') then tl t else t);
         (base, t) = strtol_base t;
         ds = takeWhile (is_digit base) t;
         n = int (digits_val base ds)
     in if ds = [] then (0, s)
        else (if neg then max (- LONG_MAX - 1) (- n) else min LONG_MAX n,
              dropWhile (is_digit base) t))"

text \<open>Printing with \<open>%d\<close>.\<close>

definition digit_char :: "nat \<Rightarrow> char" where
  "digit_char d = char_of (48 + d)"

fun show_nat :: "nat \<Rightarrow> string" where
  "show_nat n = (if n < 10 then [digit_char n] else show_nat (n div 10) @ [digit_char (n mod 10)])"

declare show_nat.simps [simp del]

definition show_int :: "int \<Rightarrow> string" where
  "show_int n = (if n < 0 then CHR ''-'' # show_nat (nat (- n)) else show_nat (nat n))"

section \<open>The loop head of the parsers\<close>

text \<open>
  The key up to \<open>=\<close>, the value up to the comma, and the rest without its leading blanks.
\<close>

definition next_param :: "string \<Rightarrow> string \<times> string option \<times> string option" where
  "next_param s =
    (let (key, rest) = strsep (CHR ''='') (Some s);
         (val, rest) = strsep (CHR '','') rest
     in (the key, val, map_option (dropWhile (\<lambda>c. c = CHR '' '')) rest))"

text \<open>A number argument: \<open>strtol\<close> on \<open>NULL\<close> and more than two characters behind it fail.\<close>

definition int_param :: "string option \<Rightarrow> int option" where
  "int_param val = (case val of None \<Rightarrow> None
     | Some s \<Rightarrow> (let (n, rest) = strtol s in if length rest > 2 then None else Some (to_int32 n)))"

section \<open>Lemmas\<close>

lemma tl_dropWhile_shorter: "d \<in> set s \<Longrightarrow> length (tl (dropWhile (\<lambda>c. c \<noteq> d) s)) < length s"
  by (induction s) (auto simp: less_SucI)

lemma strsep_shorter: "strsep d (Some s) = (t, Some r) \<Longrightarrow> length r < length s"
  using tl_dropWhile_shorter [of d s] by (auto simp: strsep_def split: if_splits)

lemma strsep_None [simp]: "strsep d None = (None, None)"
  by (simp add: strsep_def)

lemma length_dropWhile_le: "length (dropWhile P s) \<le> length s"
  by (induction s) auto

text \<open>The loop of a parser ends: every round leaves a shorter rest.\<close>

lemma next_param_shorter:
  assumes "next_param s = (key, val, Some r)"
  shows "length r < length s"
proof -
  obtain k r1 where 1: "strsep (CHR ''='') (Some s) = (k, r1)" by fastforce
  obtain v r2 where 2: "strsep (CHR '','') r1 = (v, r2)" by fastforce
  from assms 1 2 obtain r3 where r: "r2 = Some r3" "r = dropWhile (\<lambda>c. c = CHR '' '') r3"
    by (cases r2) (auto simp: next_param_def)
  then obtain s1 where s1: "r1 = Some s1" using 2 by (cases r1) auto
  have "length r \<le> length r3" unfolding r(2) by (rule length_dropWhile_le)
  also have "\<dots> < length s1" using 2 r(1) s1 strsep_shorter by blast
  also have "\<dots> < length s" using 1 s1 strsep_shorter by blast
  finally show ?thesis .
qed

lemma char_code_digit [simp]: "d < 10 \<Longrightarrow> char_code (digit_char d) = 48 + d"
  by (simp add: char_code_def digit_char_def)

lemma char_eq_code: "c = d \<longleftrightarrow> char_code c = char_code d"
  by (simp add: char_code_def)

lemma digit_char_simps [simp]:
  assumes "d < 10"
  shows "digit_val (digit_char d) = Some d" "is_digit 10 (digit_char d)"
    "d < base \<Longrightarrow> is_digit base (digit_char d)" "\<not> is_space (digit_char d)"
    "digit_char d \<noteq> CHR ''-''" "digit_char d \<noteq> CHR ''+''" "digit_char d = CHR ''0'' \<longleftrightarrow> d = 0"
  using assms
  by (simp_all add: digit_val_def is_digit_def is_space_def Let_def char_eq_code [of "digit_char d"])
    (simp_all add: char_code_def)

lemma show_nat_digits: "\<forall>c \<in> set (show_nat n). is_digit 10 c"
  by (induction n rule: show_nat.induct) (subst show_nat.simps, auto)

lemma digits_val_append:
  "digits_val b (s @ [c]) = digits_val b s * b + the (digit_val c)"
  by (simp add: digits_val_def)

lemma digits_val_show: "digits_val 10 (show_nat n) = n"
proof (induction n rule: show_nat.induct)
  case (1 n)
  show ?case
  proof (cases "n < 10")
    case True
    then show ?thesis by (subst show_nat.simps) (simp add: digits_val_def)
  next
    case False
    then show ?thesis using 1 by (subst show_nat.simps) (simp add: digits_val_append)
  qed
qed

text \<open>The first digit is zero only for zero, so that a printed number is read in base 10.\<close>

lemma show_nat_hd: "\<exists>d r. show_nat n = digit_char d # r \<and> d < 10 \<and> (n \<noteq> 0 \<longrightarrow> d \<noteq> 0)
    \<and> (n = 0 \<longrightarrow> r = [])"
proof (induction n rule: show_nat.induct)
  case (1 n)
  show ?case
  proof (cases "n < 10")
    case True
    then show ?thesis by (intro exI [of _ n] exI [of _ "[]"]) (simp add: show_nat.simps)
  next
    case False
    with 1 obtain d r where "show_nat (n div 10) = digit_char d # r" "d < 10" "d \<noteq> 0"
      by fastforce
    with False show ?thesis by (subst show_nat.simps) auto
  qed
qed

lemma takeWhile_all_append:
  assumes "\<forall>c \<in> set s. P c" and "t = [] \<or> \<not> P (hd t)"
  shows "takeWhile P (s @ t) = s" "dropWhile P (s @ t) = t"
  using assms by (cases t; simp)+

lemma show_nat_no_sep: "CHR '','' \<notin> set (show_nat n)"
  using show_nat_digits [of n] by (auto simp: is_digit_def digit_val_def char_code_def)

text \<open>Reading a printed number gives it back, whatever follows that is not a digit.\<close>

lemma strtol_show:
  assumes "0 \<le> n" and "n \<le> LONG_MAX" 
    and "t = [] \<or> \<not> is_digit 10 (hd t) \<and> tolower (hd t) \<noteq> CHR ''x''"
  shows "strtol (show_int n @ t) = (n, t)"
proof -
  have "\<not> is_digit 10 c \<Longrightarrow> \<not> is_digit 8 c" for c by (auto simp: is_digit_def split: option.splits)
  with assms(3) have t8: "t = [] \<or> \<not> is_digit 8 (hd t)" by blast
  obtain d r where dr: "show_nat (nat n) = digit_char d # r" "d < 10"
    "nat n \<noteq> 0 \<longrightarrow> d \<noteq> 0" "nat n = 0 \<longrightarrow> r = []" using show_nat_hd [of "nat n"] by (elim exE conjE)
  have s: "show_int n @ t = digit_char d # r @ t" using assms(1) dr(1) by (simp add: show_int_def)
  have start: "dropWhile is_space (show_int n @ t) = show_int n @ t" unfolding s using dr(2) by simp
  have hd: "hd (show_int n @ t) \<noteq> CHR ''-''" "hd (show_int n @ t) \<noteq> CHR ''+''" "show_int n @ t \<noteq> []"
    unfolding s using dr(2) by simp_all
  show ?thesis
  proof (cases "n = 0")
    case True
    have "digit_char 0 = CHR ''0''" by simp
    then have sn: "show_int n = ''0''" using True by (simp add: show_int_def show_nat.simps)
    have b: "strtol_base (show_int n @ t) = (8, show_int n @ t)"
      using assms(3) by (cases t; cases "tl t") (auto simp: strtol_base_def sn)
    have dg: "\<forall>c \<in> set (show_int n). is_digit 8 c"
      by (simp add: sn is_digit_def digit_val_def char_code_def)
    have "digits_val 8 (show_int n) = 0" by (simp add: sn digits_val_def digit_val_def char_code_def Let_def)
    moreover have "takeWhile (is_digit 8) (show_int n @ t) = show_int n"
      "dropWhile (is_digit 8) (show_int n @ t) = t" by (rule takeWhile_all_append [OF dg t8])+
    moreover have "show_int n \<noteq> []" by (simp add: sn)
    ultimately show ?thesis unfolding strtol_def start Let_def using hd b True
      by (simp add: LONG_MAX_def)
  next
    case False
    then have "d \<noteq> 0" using dr(3) assms(1) by simp
    then have "digit_char d \<noteq> CHR ''0''" using dr(2) by simp
    then have b: "strtol_base (show_int n @ t) = (10, show_int n @ t)"
      unfolding s by (simp add: strtol_base_def split: list.split char.split bool.split)
    have dg: "\<forall>c \<in> set (show_int n). is_digit 10 c"
      using show_nat_digits assms(1) by (simp add: show_int_def)
    have "digits_val 10 (show_int n) = nat n"
      using digits_val_show assms(1) by (simp add: show_int_def)
    moreover have "takeWhile (is_digit 10) (show_int n @ t) = show_int n"
      "dropWhile (is_digit 10) (show_int n @ t) = t"
      by (rule takeWhile_all_append [OF dg], use assms(3) in blast)+
    moreover have "show_int n \<noteq> []" using dr(1) assms(1) by (simp add: show_int_def)
    ultimately show ?thesis unfolding strtol_def start Let_def using hd b assms(1,2) by simp
  qed
qed


lemma next_param_single:
  assumes "CHR ''='' \<notin> set k" and "CHR '','' \<notin> set v"
  shows "next_param (k @ CHR ''='' # v) = (k, Some v, None)"
proof -
  have "takeWhile (\<lambda>c. c \<noteq> CHR ''='') (k @ CHR ''='' # v) = k"
    "dropWhile (\<lambda>c. c \<noteq> CHR ''='') (k @ CHR ''='' # v) = CHR ''='' # v"
    by (rule takeWhile_all_append, use assms(1) in auto)+
  moreover have "takeWhile (\<lambda>c. c \<noteq> CHR '','') v = v"
    using assms(2) by (auto intro: takeWhile_eq_all_conv [THEN iffD2])
  ultimately show ?thesis using assms(2) by (simp add: next_param_def strsep_def)
qed

section \<open>The loop\<close>

text \<open>
  The loop that the parsers share: \<open>f\<close> is the chain of comparisons of the key in its body, and a
  failing \<open>f\<close> is an exit of the program or a read of a missing value.
\<close>

function parse_loop :: "(string \<Rightarrow> string option \<Rightarrow> 'p \<Rightarrow> 'p option) \<Rightarrow> 'p \<Rightarrow> string option \<Rightarrow> 'p option" where
  "parse_loop f params s =
    (case s of None \<Rightarrow> Some params
     | Some s \<Rightarrow> if s = [] then Some params
         else (let (key, val, rest) = next_param s
               in Option.bind (f key val params) (\<lambda>params. parse_loop f params rest)))"
  by pat_completeness auto
termination
proof (relation "measure (\<lambda>(f, params, s). case s of None \<Rightarrow> 0 | Some s \<Rightarrow> Suc (length s))", goal_cases)
  case 1
  then show ?case by simp
qed (auto split: option.split dest: next_param_shorter [OF sym])

declare parse_loop.simps [simp del]

text \<open>What every step of the parser keeps, the parser keeps.\<close>

lemma parse_loop_invariant:
  assumes "parse_loop f params s = Some params'" and "I params"
    and step: "\<And>key val p p'. I p \<Longrightarrow> f key val p = Some p' \<Longrightarrow> I p'"
  shows "I params'"
  using assms(1,2)
proof (induction s arbitrary: params
    rule: measure_induct_rule [of "\<lambda>s. case s of None \<Rightarrow> 0 | Some s \<Rightarrow> Suc (length s)"])
  case (less s)
  show ?case
  proof (cases "s = None \<or> s = Some []")
    case True
    then show ?thesis using less.prems by (auto simp: parse_loop.simps)
  next
    case False
    then obtain t where t: "s = Some t" "t \<noteq> []" by auto
    obtain key val rest where n: "next_param t = (key, val, rest)" by (cases "next_param t") auto
    from less.prems(1) t n obtain p where p: "f key val params = Some p" "parse_loop f p rest = Some params'"
      by (subst (asm) parse_loop.simps) (auto simp: bind_eq_Some_conv)
    have "(case rest of None \<Rightarrow> 0 | Some r \<Rightarrow> Suc (length r)) < (case s of None \<Rightarrow> 0 | Some s \<Rightarrow> Suc (length s))"
      using n t next_param_shorter by (auto split: option.split)
    then show ?thesis by (rule less.IH [OF _ p(2) step [OF less.prems(2) p(1)]])
  qed
qed

text \<open>\<open>atoi\<close> is \<open>strtol\<close> with base 10, cut to an \<open>int\<close>.\<close>

definition atoi :: "string \<Rightarrow> int" where
  "atoi s =
    (let t = dropWhile is_space s;
         neg = (t \<noteq> [] \<and> hd t = CHR ''-'');
         t = (if t \<noteq> [] \<and> (hd t = CHR ''-'' \<or> hd t = CHR ''+'') then tl t else t);
         n = int (digits_val 10 (takeWhile (is_digit 10) t))
     in to_int32 (if neg then max (- LONG_MAX - 1) (- n) else min LONG_MAX n))"

end
