(* ===== verification/Double.thy ===== *)
theory Double
  imports Complex_Main Params
begin

text \<open>
  The \<open>double\<close> arithmetic that the parameters of the algorithms use.  A finite \<open>double\<close> is the
  rational number it denotes; \<open>double_round\<close> rounds a rational to the 53 bits of the significand,
  to nearest with ties to even, as IEEE 754 does.  The range of the exponent is not modelled:
  there is no overflow to infinity and no subnormal.  \<open>strtod\<close> reads a decimal number (the
  hexadecimal form, infinities and NaNs are not read) and \<open>show_fixed\<close> prints with \<open>%.4lf\<close>.
\<close>

section \<open>Rounding\<close>

type_synonym double = rat

function bit_length :: "int \<Rightarrow> int" where
  "bit_length n = (if n \<le> 0 then 0 else 1 + bit_length (n div 2))"
  by pat_completeness auto
termination
  by (relation "measure nat") auto

declare bit_length.simps [simp del]

definition pow2 :: "int \<Rightarrow> rat" where
  "pow2 k = (if 0 \<le> k then 2 ^ nat k else 1 / 2 ^ nat (- k))"

text \<open>The exponent of a non-zero number: the floor of its binary logarithm.\<close>

definition double_exp :: "rat \<Rightarrow> int" where
  "double_exp q =
    (let (a, b) = quotient_of \<bar>q\<bar>;
         k = bit_length a - bit_length b
     in if pow2 k \<le> \<bar>q\<bar> then k else k - 1)"

definition round_even :: "rat \<Rightarrow> int" where
  "round_even q =
    (let f = \<lfloor>q\<rfloor>; r = q - of_int f
     in if r < 1 / 2 then f else if r > 1 / 2 then f + 1 else if even f then f else f + 1)"

definition double_round :: "rat \<Rightarrow> double" where
  "double_round q =
    (if q = 0 then 0
     else (let u = pow2 (52 - double_exp q) in of_int (round_even (q * u)) / u))"

definition double_of_int :: "int \<Rightarrow> double" where
  "double_of_int n = double_round (of_int n)"

definition double_mult :: "double \<Rightarrow> double \<Rightarrow> double" where
  "double_mult a b = double_round (a * b)"

definition double_div :: "double \<Rightarrow> double \<Rightarrow> double" where
  "double_div a b = double_round (a / b)"

text \<open>The conversion to an integer truncates.\<close>

definition int_of_double :: "double \<Rightarrow> int" where
  "int_of_double q = (if 0 \<le> q then \<lfloor>q\<rfloor> else \<lceil>q\<rceil>)"

text \<open>The conversion of a \<open>double\<close> to \<open>int\<close> is undefined outside its range.\<close>

definition int32_of_double :: "double \<Rightarrow> int option" where
  "int32_of_double q =
    (let n = int_of_double q in if - (2 ^ 31) \<le> n \<and> n < 2 ^ 31 then Some n else None)"

text \<open>The idiom \<open>(int64_t)(n * ratio)\<close>.\<close>

definition scale_int :: "int \<Rightarrow> double \<Rightarrow> int" where
  "scale_int n r = int_of_double (double_mult (double_of_int n) r)"

section \<open>Reading and printing\<close>

definition exponent_part :: "string \<Rightarrow> int" where
  "exponent_part t = (case t of
       c # u \<Rightarrow> (if tolower c = CHR ''e'' then
           (let neg = (u \<noteq> [] \<and> hd u = CHR ''-'');
                u = (if u \<noteq> [] \<and> (hd u = CHR ''-'' \<or> hd u = CHR ''+'') then tl u else u);
                n = int (digits_val 10 (takeWhile (is_digit 10) u))
            in if neg then - n else n)
         else 0)
     | [] \<Rightarrow> 0)"

definition skip_exponent :: "string \<Rightarrow> string" where
  "skip_exponent t = (case t of
       c # u \<Rightarrow>
         (let v = (if u \<noteq> [] \<and> (hd u = CHR ''-'' \<or> hd u = CHR ''+'') then tl u else u)
          in if tolower c = CHR ''e'' \<and> v \<noteq> [] \<and> is_digit 10 (hd v)
             then dropWhile (is_digit 10) v else t)
     | [] \<Rightarrow> [])"

definition pow10 :: "int \<Rightarrow> rat" where
  "pow10 k = (if 0 \<le> k then 10 ^ nat k else 1 / 10 ^ nat (- k))"

text \<open>
  \<open>strtod(s, &end)\<close>: the value, and the rest \<open>end\<close> behind the digits, the fraction and a complete
  exponent.
\<close>

definition strtod_end :: "string \<Rightarrow> double \<times> string" where
  "strtod_end s =
    (let t = dropWhile is_space s;
         neg = (t \<noteq> [] \<and> hd t = CHR ''-'');
         t = (if t \<noteq> [] \<and> (hd t = CHR ''-'' \<or> hd t = CHR ''+'') then tl t else t);
         ds = takeWhile (is_digit 10) t; t = dropWhile (is_digit 10) t;
         fs = (if t \<noteq> [] \<and> hd t = CHR ''.'' then takeWhile (is_digit 10) (tl t) else []);
         t = (if t \<noteq> [] \<and> hd t = CHR ''.'' then dropWhile (is_digit 10) (tl t) else t)
     in if ds = [] \<and> fs = [] then (0, s)
        else (let q = double_round (of_nat (digits_val 10 (ds @ fs))
                        * pow10 (exponent_part t - int (length fs)))
              in (if neg then - q else q, skip_exponent t)))"

definition strtod :: "string \<Rightarrow> double" where
  "strtod s = fst (strtod_end s)"

definition pad_left :: "nat \<Rightarrow> string \<Rightarrow> string" where
  "pad_left n s = replicate (n - length s) (CHR ''0'') @ s"

definition show_fixed :: "nat \<Rightarrow> double \<Rightarrow> string" where
  "show_fixed d q =
    (let n = nat (round_even (\<bar>q\<bar> * 10 ^ d))
     in (if q < 0 then ''-'' else '''') @ show_nat (n div 10 ^ d) @ ''.''
        @ pad_left d (show_nat (n mod 10 ^ d)))"

section \<open>Integers below \<open>2 ^ 53\<close> are exact\<close>

lemma bit_length_pos: "0 < n \<Longrightarrow> 2 ^ nat (bit_length n - 1) \<le> n \<and> n < 2 ^ nat (bit_length n) \<and> 1 \<le> bit_length n"
proof (induction n rule: bit_length.induct)
  case (1 n)
  show ?case
  proof (cases "n = 1")
    case True
    then show ?thesis by (simp add: bit_length.simps)
  next
    case False
    then have "0 < n div 2" using 1(2) by auto
    with 1 have ih: "2 ^ nat (bit_length (n div 2) - 1) \<le> n div 2" "n div 2 < 2 ^ nat (bit_length (n div 2))" "1 \<le> bit_length (n div 2)" by auto
    have b: "bit_length n = 1 + bit_length (n div 2)" using 1(2) by (subst bit_length.simps) simp
    obtain m where m: "bit_length (n div 2) = 1 + int m" using ih(3) by (metis zle_iff_zadd)
    have "n div 2 < 2 ^ Suc m" using ih(2) m by (simp add: nat_add_distrib)
    moreover have "2 ^ m \<le> n div 2" using ih(1) m by simp
    moreover have "n = 2 * (n div 2) + n mod 2" "0 \<le> n mod 2" "n mod 2 < 2" by simp_all
    ultimately have "2 ^ Suc m \<le> n" "n < 2 ^ Suc (Suc m)" unfolding power_Suc by linarith+
    then show ?thesis using b m by (simp add: nat_add_distrib)
  qed
qed

lemma round_even_int [simp]: "round_even (of_int k) = k"
  by (simp add: round_even_def)

lemma double_of_int_exact:
  assumes "0 \<le> n" and "n < 2 ^ 53"
  shows "double_of_int n = of_int n"
proof (cases "n = 0")
  case False
  then have pos: "0 < n" using assms(1) by simp
  note b = bit_length_pos [OF pos]
  have "\<not> 53 < bit_length n"
  proof
    assume "53 < bit_length n"
    then have "(2 :: int) ^ 53 \<le> 2 ^ nat (bit_length n - 1)" by (intro power_increasing) auto
    with b assms(2) show False by linarith
  qed
  moreover have q: "quotient_of (of_int n) = (n, 1)" using quotient_of_int [of n] by (simp add: Rat.of_int_def)
  moreover have "bit_length 1 = 1" by (simp add: bit_length.simps)
  ultimately have e: "double_exp (of_int n) \<le> 52"
    using pos by (simp add: double_exp_def Let_def)
  then obtain m where m: "52 - double_exp (of_int n) = int m" by (metis diff_ge_0_iff_ge zero_le_imp_eq_int)
  have u: "pow2 (int m) = of_int (2 ^ m)" by (simp add: pow2_def)
  have "double_of_int n = of_int (round_even (of_int (n * 2 ^ m))) / of_int (2 ^ m)"
    using False by (simp add: double_of_int_def double_round_def m u Let_def)
  also have "\<dots> = of_int n" unfolding round_even_int by simp
  finally show ?thesis .
qed (simp add: double_of_int_def double_round_def)

end
