(* ===== verification/Mymath.thy ===== *)
theory Mymath
  imports Prelude
begin

text \<open>
  The integer helpers and the random numbers of \<open>utils/include/mymath.h\<close> and \<open>utils/mymath.c\<close>.

  The generator is a thread-local \<open>__uint128_t\<close> that every call multiplies; it is passed and
  returned explicitly.
\<close>

unbundle bit_operations_syntax

section \<open>Random numbers\<close>

type_synonym rand_state = "128 word"

definition initial_rand_state :: rand_state where
  "initial_rand_state = 0xdeadbeef"

definition set_rand_seed :: "64 word \<Rightarrow> rand_state" where
  "set_rand_seed seed = ucast seed"

definition next_rand :: "rand_state \<Rightarrow> 64 word \<times> rand_state" where
  "next_rand g = (let g = g * 0xda942042e4dd58b5 in (ucast (drop_bit 64 g), g))"

section \<open>Powers of two\<close>

text \<open>\<open>__builtin_clzll\<close>, the number of leading zero bits, which is undefined for 0.\<close>

definition clzll :: "64 word \<Rightarrow> nat option" where
  "clzll n = (if n = 0 then None else Some (length (takeWhile (\<lambda>k. \<not> bit n k) (rev [0..<64]))))"

text \<open>A shift by a negative number is undefined.\<close>

definition next_power_of_2 :: "64 word \<Rightarrow> 64 word option" where
  "next_power_of_2 n =
    (if n AND (n - 1) = 0 then Some n
     else do {
       k \<leftarrow> clzll n;
       if k = 0 then None else Some (drop_bit (k - 1) (0x8000000000000000 :: 64 word)) })"

definition next_power_of_2_v2 :: "64 word \<Rightarrow> 64 word" where
  "next_power_of_2_v2 n =
    (let n = n - 1;
         n = n OR drop_bit 1 n;
         n = n OR drop_bit 2 n;
         n = n OR drop_bit 4 n;
         n = n OR drop_bit 8 n;
         n = n OR drop_bit 16 n;
         n = n OR drop_bit 32 n
     in n + 1)"

function log2_loop :: "64 word \<Rightarrow> 64 word \<Rightarrow> 64 word" where
  "log2_loop n r = (let n = drop_bit 1 n in if n = 0 then r else log2_loop n (r + 1))"
  by pat_completeness auto
termination
  by (relation "measure (\<lambda>(n, r). unat n)")
    (auto simp: drop_bit_Suc unat_div unat_gt_0 intro!: div_less_dividend)

definition log2_ull :: "64 word \<Rightarrow> 64 word" where
  "log2_ull n = log2_loop n 0"

definition log2_v2 :: "64 word \<Rightarrow> nat option" where
  "log2_v2 n = map_option (\<lambda>k. 64 - k) (clzll n)"

section \<open>Lemmas\<close>

text \<open>A seed of 0 is a fixed point: every number is then 0.\<close>

lemma next_rand_seed_0: "next_rand (set_rand_seed 0) = (0, set_rand_seed 0)"
  by (simp add: next_rand_def set_rand_seed_def Let_def)

text \<open>
  The shifts of \<open>next_power_of_2_v2\<close> spread every bit downwards: each one doubles the window of
  positions that a bit is seen from.
\<close>

definition spread_over :: "nat \<Rightarrow> 64 word \<Rightarrow> 64 word \<Rightarrow> bool" where
  "spread_over w n x \<longleftrightarrow> (\<forall>k. bit x k \<longleftrightarrow> (\<exists>j < w. bit n (k + j)))"

lemma spread_over_double:
  assumes "spread_over w n x"
  shows "spread_over (w + w) n (x OR drop_bit w x)"
  unfolding spread_over_def
proof
  fix k
  have "(\<exists>j < w + w. bit n (k + j)) \<longleftrightarrow> (\<exists>j < w. bit n (k + j)) \<or> (\<exists>j < w. bit n (w + k + j))"
    (is "?l = (?a \<or> ?b)")
  proof
    assume ?l
    then obtain j where "j < w + w" "bit n (k + j)" by blast
    then show "?a \<or> ?b" by (cases "j < w") (auto intro: exI [of _ "j - w"] simp: add_ac)
  next
    assume "?a \<or> ?b"
    then show ?l
    proof
      assume ?b
      then obtain j where "j < w" "bit n (w + k + j)" by blast
      then show ?l by (intro exI [of _ "w + j"]) (simp add: add_ac)
    next
      assume ?a
      then obtain j where "j < w" "bit n (k + j)" by blast
      then show ?l by (intro exI [of _ j]) simp
    qed
  qed
  then show "bit (x OR drop_bit w x) k \<longleftrightarrow> (\<exists>j < w + w. bit n (k + j))"
    using assms by (simp add: spread_over_def bit_or_iff bit_drop_bit_eq)
qed

lemma unat_exp64:
  assumes "L < 64"
  shows "unat (2 ^ L :: 64 word) = 2 ^ L"
proof -
  have "(2 :: nat) ^ L < 2 ^ 64" using assms by (intro power_strict_increasing) simp_all
  moreover have "(2 ^ L :: 64 word) = of_nat (2 ^ L)" by simp
  ultimately show ?thesis by (simp only: unat_of_nat) (simp add: take_bit_nat_eq_self)
qed

lemma highest_bit:
  assumes "n \<noteq> (0 :: 64 word)"
  obtains p where "p < 64" "bit n p" "\<forall>j > p. \<not> bit n j" "unat n < 2 ^ Suc p" "2 ^ p \<le> unat n"
proof -
  let ?B = "{j. j < 64 \<and> bit n j}"
  from assms obtain j where "bit n j" by (auto simp: bit_eq_iff)
  moreover from this have "j < 64" using bit_imp_le_length by fastforce
  ultimately have ne: "?B \<noteq> {}" by blast
  let ?p = "Max ?B"
  have p: "?p < 64" "bit n ?p" using Max_in [OF _ ne] by auto
  have high: "\<not> bit n j" if "?p < j" for j
  proof
    assume "bit n j"
    moreover from this have "j < 64" using bit_imp_le_length by fastforce
    ultimately have "j \<le> ?p" by (intro Max_ge) auto
    with that show False by simp
  qed
  have "take_bit (Suc ?p) n = n"
  proof (rule bit_word_eqI)
    fix j
    show "bit (take_bit (Suc ?p) n) j = bit n j"
      using high [of j] by (cases "j < Suc ?p") (simp_all only: bit_take_bit_iff, auto)
  qed
  then have "unat n = take_bit (Suc ?p) (unat n)" using unsigned_take_bit_eq [of "Suc ?p" n] by simp
  then have up: "unat n < 2 ^ Suc ?p" using take_bit_nat_less_exp [of "Suc ?p" "unat n"] by simp
  have "bit (unat n) ?p" using p by (simp add: bit_unsigned_iff)
  then have "odd (unat n div 2 ^ ?p)" unfolding bit_iff_odd .
  then have low: "2 ^ ?p \<le> unat n" by (metis div_less even_zero not_less)
  have "\<forall>j > ?p. \<not> bit n j" using high by blast
  from that [OF p this up low] show ?thesis .
qed

lemma spread_over_64:
  assumes "spread_over 64 n x" and "p < 64" and "bit n p" and "\<forall>j > p. \<not> bit n j"
  shows "x = mask (Suc p)"
proof (rule bit_word_eqI)
  fix k
  have "(\<exists>j < 64. bit n (k + j)) \<longleftrightarrow> k \<le> p"
  proof
    assume "\<exists>j < 64. bit n (k + j)"
    then obtain j where "bit n (k + j)" by blast
    with assms(4) have "\<not> p < k + j" by blast
    then show "k \<le> p" by simp
  next
    assume "k \<le> p"
    with assms(2,3) show "\<exists>j < 64. bit n (k + j)" by (intro exI [of _ "p - k"]) simp
  qed
  then show "bit x k = bit (mask (Suc p) :: 64 word) k" if "k < LENGTH(64)"
    using assms(1) that by (simp add: spread_over_def bit_mask_iff less_Suc_eq_le)
qed

lemma next_power_of_2_v2_spread: "\<exists>x. spread_over 64 (n - 1) x \<and> next_power_of_2_v2 n = x + 1"
proof -
  have "spread_over 1 (n - 1) (n - 1)" by (simp add: spread_over_def)
  note spread_over_double [OF this, unfolded one_add_one]
  note spread_over_double [OF this, unfolded numeral_plus_numeral add_num_simps]
  note spread_over_double [OF this, unfolded numeral_plus_numeral add_num_simps]
  note spread_over_double [OF this, unfolded numeral_plus_numeral add_num_simps]
  note spread_over_double [OF this, unfolded numeral_plus_numeral add_num_simps]
  note spread_over_double [OF this, unfolded numeral_plus_numeral add_num_simps]
  then show ?thesis unfolding next_power_of_2_v2_def Let_def by blast
qed

text \<open>\<open>next_power_of_2_v2\<close> yields the smallest power of two that is not below its argument.\<close>

lemma next_power_of_2_v2_correct:
  assumes "0 < unat n" and "unat n \<le> 2 ^ 63"
  shows "\<exists>L \<le> 63. unat (next_power_of_2_v2 n) = 2 ^ L \<and> unat n \<le> 2 ^ L \<and> (\<forall>M < L. 2 ^ M < unat n)"
proof (cases "unat n = 1")
  case True
  then have "n = 1" by (metis unat_1 word_unat_eq_iff)
  then show ?thesis by (intro exI [of _ 0]) (simp add: next_power_of_2_v2_def)
next
  case False
  have n1: "unat (n - 1) = unat n - 1" using assms(1) by (simp add: unat_minus_one unat_gt_0)
  with False assms(1) have "unat (n - 1) \<noteq> 0" by simp
  then have "n - 1 \<noteq> 0" by (metis unat_0)
  then obtain p where p: "p < 64" "bit (n - 1) p" "\<forall>j > p. \<not> bit (n - 1) j"
    "unat (n - 1) < 2 ^ Suc p" "2 ^ p \<le> unat (n - 1)" by (elim highest_bit)
  from next_power_of_2_v2_spread [of n] obtain x where
    x: "spread_over 64 (n - 1) x" "next_power_of_2_v2 n = x + 1" by blast
  have "next_power_of_2_v2 n = 2 ^ Suc p"
    unfolding x(2) spread_over_64 [OF x(1) p(1-3)] by (simp add: mask_eq_exp_minus_1)
  moreover have "p < 63"
  proof (rule ccontr)
    assume "\<not> p < 63"
    then have "(2 :: nat) ^ 63 \<le> 2 ^ p" by (intro power_increasing) simp_all
    with p(5) n1 assms show False by simp
  qed
  moreover have "2 ^ M < unat n" if "M < Suc p" for M
  proof -
    have "(2 :: nat) ^ M \<le> 2 ^ p" using that by (intro power_increasing) simp_all
    with p(5) n1 assms(1) show ?thesis by linarith
  qed
  moreover from \<open>p < 63\<close> have "unat (2 ^ Suc p :: 64 word) = 2 ^ Suc p" by (intro unat_exp64) simp
  ultimately show ?thesis using p(4) n1 by (intro exI [of _ "Suc p"]) simp
qed

lemma clzll_highest:
  assumes "p < 64" and "bit n p" and "\<forall>j > p. \<not> bit n j"
  shows "clzll n = Some (63 - p)"
proof -
  have "[0..<64] = [0..<p] @ p # [Suc p..<64]"
    using assms(1) by (metis le_add_same_cancel1 less_imp_le upt_add_eq_append upt_conv_Cons zero_le le_add_diff_inverse)
  then have "rev [0..<64] = rev [Suc p..<64] @ p # rev [0..<p]" by simp
  moreover have "takeWhile (\<lambda>k. \<not> bit n k) (rev [Suc p..<64] @ p # rev [0..<p]) = rev [Suc p..<64]"
    using assms(2,3) by (subst takeWhile_append2) auto
  moreover have "n \<noteq> 0" using assms(2) by auto
  ultimately show ?thesis using assms(1) by (simp add: clzll_def)
qed

lemma bit_of_range:
  assumes "2 ^ p \<le> unat (n :: 64 word)" and "unat n < 2 ^ Suc p"
  shows "bit n p"
proof -
  have "unat n div 2 ^ p = 1" using assms by (intro div_nat_eqI) simp_all
  then have "bit (unat n) p" by (simp add: bit_iff_odd)
  then show ?thesis by (simp add: bit_unsigned_iff)
qed

text \<open>The two versions agree, and \<open>log2_v2\<close> is one more than the exponent of the highest bit.\<close>

lemma next_power_of_2_same:
  assumes "0 < unat n" and "unat n \<le> 2 ^ 63"
  shows "next_power_of_2 n = Some (next_power_of_2_v2 n)"
proof -
  from assms(1) have "n \<noteq> 0" by auto
  then obtain p where p: "p < 64" "bit n p" "\<forall>j > p. \<not> bit n j" "unat n < 2 ^ Suc p" "2 ^ p \<le> unat n"
    by (elim highest_bit)
  from next_power_of_2_v2_correct [OF assms] obtain L where
    L: "L \<le> 63" "unat (next_power_of_2_v2 n) = 2 ^ L" "unat n \<le> 2 ^ L" "\<forall>M < L. 2 ^ M < unat n" by blast
  from L(1) have "unat (2 ^ L :: 64 word) = 2 ^ L" by (intro unat_exp64) simp
  with L(2) have v2: "next_power_of_2_v2 n = 2 ^ L" by (simp add: word_unat_eq_iff)
  show ?thesis
  proof (cases "unat n = 2 ^ p")
    case True
    then have n: "n = 2 ^ p" using unat_exp64 [OF p(1)] by (simp add: word_unat_eq_iff)
    then have "n AND (n - 1) = 0" by (intro bit_word_eqI) (simp add: bit_and_iff bit_exp_iff bit_mask_iff flip: mask_eq_exp_minus_1)
    moreover have "L = p"
    proof -
      have "\<not> p < L" using L(4) True by auto
      moreover have "p \<le> L" using L(3) True by simp
      ultimately show ?thesis by simp
    qed
    ultimately show ?thesis using n v2 by (simp add: next_power_of_2_def)
  next
    case False
    have "2 ^ p \<le> unat (n - 1)" "unat (n - 1) < 2 ^ Suc p"
      using False p(4,5) assms(1) by (simp_all add: unat_minus_one unat_gt_0)
    then have "bit (n - 1) p" by (rule bit_of_range)
    with p(2) have "bit (n AND (n - 1)) p" by (simp add: bit_and_iff)
    then have nz: "n AND (n - 1) \<noteq> 0" by auto
    have "p < 63"
    proof (rule ccontr)
      assume "\<not> p < 63"
      with p(1) have "p = 63" by simp
      with p(5) assms(2) False show False by simp
    qed
    moreover have "L = Suc p"
    proof -
      have "\<not> Suc p < L" using L(4) p(4) by (meson less_asym)
      moreover have "p < L" using L(3) p(5) False by (metis le_antisym le_trans linorder_not_less power_increasing_iff one_less_numeral_iff semiring_norm(76))
      ultimately show ?thesis by simp
    qed
    moreover have "drop_bit (62 - p) (2 ^ 63 :: 64 word) = 2 ^ Suc p" if "p < 63"
    proof (rule bit_word_eqI)
      fix k
      show "bit (drop_bit (62 - p) (2 ^ 63 :: 64 word)) k = bit (2 ^ Suc p :: 64 word) k"
        unfolding bit_drop_bit_eq o_apply bit_exp_iff using that by auto
    qed
    ultimately show ?thesis using nz v2 clzll_highest [OF p(1-3)]
      by (simp add: next_power_of_2_def)
  qed
qed

end
