(* ===== verification/GLib.thy ===== *)
theory GLib
  imports Prelude
begin

text \<open>
  The interface of the hash table of GLib, which is not part of this program: a record of the
  operations that the code calls, and \<open>ghash_ok\<close>, what GLib documents of \<open>g_hash_table_lookup\<close>,
  \<open>g_hash_table_insert\<close> and \<open>g_hash_table_remove\<close> for a table of direct keys.  The values are pointers, read as numbers; the
  number 0 stored as a pointer is \<open>NULL\<close>, which a lookup also returns for a missing key.
\<close>

record ('t, 'k) ghash =
  g_new :: 't
  g_lookup :: "'t \<Rightarrow> 'k \<Rightarrow> int"
  g_insert :: "'t \<Rightarrow> 'k \<Rightarrow> int \<Rightarrow> 't"
  g_remove :: "'t \<Rightarrow> 'k \<Rightarrow> 't"

definition ghash_ok :: "('t, 'k) ghash \<Rightarrow> bool" where
  "ghash_ok G \<longleftrightarrow> (\<forall>k. g_lookup G (g_new G) k = 0)
     \<and> (\<forall>t k v k'. g_lookup G (g_insert G t k v) k' = (if k' = k then v else g_lookup G t k'))
     \<and> (\<forall>t k k'. g_lookup G (g_remove G t k) k' = (if k' = k then 0 else g_lookup G t k'))"

lemma g_lookup_simps:
  assumes "ghash_ok G"
  shows "g_lookup G (g_new G) k = 0"
    "g_lookup G (g_insert G t k v) k' = (if k' = k then v else g_lookup G t k')"
    "g_lookup G (g_remove G t k) k' = (if k' = k then 0 else g_lookup G t k')"
  using assms by (simp_all add: ghash_ok_def)

text \<open>A table that satisfies the contract.\<close>

definition fun_ghash :: "('k \<Rightarrow> int, 'k) ghash" where
  "fun_ghash = \<lparr>g_new = \<lambda>_. 0, g_lookup = \<lambda>t. t, g_insert = \<lambda>t k v. t(k := v), g_remove = \<lambda>t k. t(k := 0)\<rparr>"

lemma fun_ghash_ok [simp]: "ghash_ok fun_ghash"
  by (simp add: ghash_ok_def fun_ghash_def)

end
