(* ===== verification/Admission.thy ===== *)
theory Admission
  imports LRU FIFO Double Mymath GLib
begin

text \<open>
  The admission algorithms (\<open>cache/admission\<close>, \<open>include/libCacheSim/admissionAlgo.h\<close>): by size, by
  probability, by a probability that falls with the size, and the filter that admits an object at
  its second miss.  A creation function yields \<open>None\<close> where the code stops with \<open>ERROR\<close>.

  The thread's random number generator travels with the parameters of the algorithms that use it.
  The function \<open>exp\<close> of the C library and the hash table of GLib are parameters.

  The locale \<open>admitted_policy\<close> joins an admission algorithm to an eviction algorithm: after every
  request that misses, the object is resident exactly when it was admitted and fits.
\<close>

section \<open>Admission by size\<close>

type_synonym size_admission_params_t = int

definition ADM_INT64_MAX :: int where
  "ADM_INT64_MAX = 2 ^ 63 - 1"

definition size_admit :: "size_admission_params_t \<Rightarrow> request \<Rightarrow> bool \<times> size_admission_params_t" where
  "size_admit size_threshold req =
    (if req_obj_size req < size_threshold then (True, size_threshold) else (False, size_threshold))"

text \<open>
  The body of the parsing loop.  A missing value is a call of \<open>strtoll\<close> on \<open>NULL\<close>; more than two
  characters behind the number and an unknown key are errors.
\<close>

definition size_admission_param ::
    "string \<Rightarrow> string option \<Rightarrow> size_admission_params_t \<Rightarrow> size_admission_params_t option" where
  "size_admission_param key val pa =
    (if strcasecmp_eq key ''size'' then do {
       s \<leftarrow> val;
       let (n, end) = strtol s;
       if length end > 2 then None else Some n }
     else None)"

definition size_admissioner_parse_params :: "string option \<Rightarrow> size_admission_params_t option" where
  "size_admissioner_parse_params ip = (case ip of
       None \<Rightarrow> Some ADM_INT64_MAX
     | Some s \<Rightarrow> parse_loop size_admission_param 0 (Some s))"

definition create_size_admissioner :: "string option \<Rightarrow> size_admission_params_t admissioner_t option" where
  "create_size_admissioner ip = do {
     pa \<leftarrow> size_admissioner_parse_params ip;
     Some \<lparr>adm_admit = size_admit, adm_update = None, adm_params = pa,
           adm_init_params = ip, admissioner_name = ''Size''\<rparr> }"

definition clone_size_admissioner ::
    "size_admission_params_t admissioner_t \<Rightarrow> size_admission_params_t admissioner_t option" where
  "clone_size_admissioner ad = create_size_admissioner (adm_init_params ad)"

section \<open>Admission by probability\<close>

definition MAX_MODULE :: int where
  "MAX_MODULE = 10000000"

record prob_admission_params_t =
  admission_probability :: double
  admission_probability_int :: int

definition prob_admit ::
    "prob_admission_params_t \<times> rand_state \<Rightarrow> request \<Rightarrow> bool \<times> prob_admission_params_t \<times> rand_state" where
  "prob_admit params req =
    (let (pa, g) = params; (r, g) = next_rand g
     in if uint r mod MAX_MODULE < admission_probability_int pa then (True, pa, g) else (False, pa, g))"

text \<open>A parameter that is read with \<open>strtod\<close>.\<close>

definition double_param :: "string option \<Rightarrow> double option" where
  "double_param val = do {
     s \<leftarrow> val;
     let (q, end) = strtod_end s;
     if length end > 2 then None else Some q }"

definition prob_admission_param :: "string \<Rightarrow> string option \<Rightarrow> double \<Rightarrow> double option" where
  "prob_admission_param key val p = (if strcasecmp_eq key ''prob'' then double_param val else None)"

text \<open>The product is converted before the range is checked, and outside the range the code stops.\<close>

definition prob_admissioner_parse_params :: "string option \<Rightarrow> prob_admission_params_t option" where
  "prob_admissioner_parse_params ip = do {
     p \<leftarrow> (case ip of
             None \<Rightarrow> Some (double_round (1 / 2))
           | Some s \<Rightarrow> parse_loop prob_admission_param 0 (Some s));
     let pa = \<lparr>admission_probability = p,
               admission_probability_int = int_of_double (double_mult p (double_of_int MAX_MODULE))\<rparr>;
     if p > 1 \<or> p \<le> 0 then None else Some pa }"

definition create_prob_admissioner ::
    "rand_state \<Rightarrow> string option \<Rightarrow> (prob_admission_params_t \<times> rand_state) admissioner_t option" where
  "create_prob_admissioner g ip = do {
     pa \<leftarrow> prob_admissioner_parse_params ip;
     Some \<lparr>adm_admit = prob_admit, adm_update = None, adm_params = (pa, g),
           adm_init_params = ip, admissioner_name = ''Probabilistic''\<rparr> }"

definition clone_prob_admissioner ::
    "(prob_admission_params_t \<times> rand_state) admissioner_t \<Rightarrow>
     (prob_admission_params_t \<times> rand_state) admissioner_t option" where
  "clone_prob_admissioner ad = create_prob_admissioner (snd (adm_params ad)) (adm_init_params ad)"

section \<open>Admission by probability and size\<close>

type_synonym size_probabilistic_admission_params_t = double

definition size_probabilistic_admit ::
    "(double \<Rightarrow> double) \<Rightarrow> size_probabilistic_admission_params_t \<times> rand_state \<Rightarrow> request \<Rightarrow>
     bool \<times> size_probabilistic_admission_params_t \<times> rand_state" where
  "size_probabilistic_admit exp_fn params req =
    (let (exponent, g) = params;
         prob = exp_fn (double_mult (- exponent) (double_of_int (req_obj_size req)));
         (r, g) = next_rand g
     in if double_div (double_of_int (uint r mod MAX_MODULE)) (double_of_int MAX_MODULE) < prob
        then (True, exponent, g) else (False, exponent, g))"

definition size_probabilistic_param :: "string \<Rightarrow> string option \<Rightarrow> double \<Rightarrow> double option" where
  "size_probabilistic_param key val p =
     (if strcasecmp_eq key ''exponent'' then double_param val else None)"

definition size_probabilistic_admissioner_parse_params ::
    "string option \<Rightarrow> size_probabilistic_admission_params_t option" where
  "size_probabilistic_admissioner_parse_params ip = do {
     e \<leftarrow> (case ip of
             None \<Rightarrow> Some (double_round (1 / 10 ^ 6))
           | Some s \<Rightarrow> parse_loop size_probabilistic_param 0 (Some s));
     if e > 1 \<or> e \<le> 0 then None else Some e }"

definition create_size_probabilistic_admissioner ::
    "(double \<Rightarrow> double) \<Rightarrow> rand_state \<Rightarrow> string option \<Rightarrow>
     (size_probabilistic_admission_params_t \<times> rand_state) admissioner_t option" where
  "create_size_probabilistic_admissioner exp_fn g ip = do {
     e \<leftarrow> size_probabilistic_admissioner_parse_params ip;
     Some \<lparr>adm_admit = size_probabilistic_admit exp_fn, adm_update = None, adm_params = (e, g),
           adm_init_params = ip, admissioner_name = ''SizeProbabilistic''\<rparr> }"

definition clone_size_probabilistic_admissioner ::
    "(double \<Rightarrow> double) \<Rightarrow> (size_probabilistic_admission_params_t \<times> rand_state) admissioner_t \<Rightarrow>
     (size_probabilistic_admission_params_t \<times> rand_state) admissioner_t option" where
  "clone_size_probabilistic_admissioner exp_fn ad =
     create_size_probabilistic_admissioner exp_fn (snd (adm_params ad)) (adm_init_params ad)"

section \<open>Admission at the second miss\<close>

text \<open>
  The keys are pointers, \<open>gint_ptr\<close> is \<open>GINT_TO_POINTER\<close>, which the code inserts with, and
  \<open>gsize_ptr\<close> is \<open>GSIZE_TO_POINTER\<close>, which it looks up with.  A count is read back with
  \<open>GPOINTER_TO_INT\<close>.
\<close>

record gconv =
  gint_ptr :: "64 word \<Rightarrow> 64 word"
  gsize_ptr :: "64 word \<Rightarrow> 64 word"

definition bloomfilter_admit :: "gconv \<Rightarrow> ('t, obj_id_t) ghash \<Rightarrow> 't \<Rightarrow> request \<Rightarrow> bool \<times> 't" where
  "bloomfilter_admit C G seen_times req =
    (let key = gint_ptr C (req_obj_id req);
         n_times = g_lookup G seen_times (gsize_ptr C (req_obj_id req))
     in if n_times = 0 then (False, g_insert G seen_times key 1)
        else (True, g_insert G seen_times key (to_int32 n_times + 1)))"

definition create_bloomfilter_admissioner ::
    "gconv \<Rightarrow> ('t, obj_id_t) ghash \<Rightarrow> string option \<Rightarrow> 't admissioner_t option" where
  "create_bloomfilter_admissioner C G ip =
    (if ip \<noteq> None then None
     else Some \<lparr>adm_admit = bloomfilter_admit C G, adm_update = None, adm_params = g_new G,
                adm_init_params = None, admissioner_name = ''BloomFilter''\<rparr>)"

definition clone_bloomfilter_admissioner ::
    "gconv \<Rightarrow> ('t, obj_id_t) ghash \<Rightarrow> 't admissioner_t \<Rightarrow> 't admissioner_t option" where
  "clone_bloomfilter_admissioner C G ad = create_bloomfilter_admissioner C G (adm_init_params ad)"

section \<open>Choosing by name\<close>

text \<open>
  The parameters behind the \<open>void *\<close> of an admissioner.  The algorithm \<open>adaptsize\<close>, a C++ file, is
  a parameter.
\<close>

datatype ('t, 'x) admission_params =
    Bloomfilter_params 't
  | Prob_params "prob_admission_params_t \<times> rand_state"
  | Size_params size_admission_params_t
  | Size_probabilistic_params "size_probabilistic_admission_params_t \<times> rand_state"
  | Adaptsize_params 'x

definition with_params :: "('a \<Rightarrow> 'u) \<Rightarrow> ('u \<Rightarrow> 'a) \<Rightarrow> 'a admissioner_t \<Rightarrow> 'u admissioner_t" where
  "with_params up down ad = \<lparr>
     adm_admit = (\<lambda>u req. let (ok, p) = adm_admit ad (down u) req in (ok, up p)),
     adm_update = map_option (\<lambda>f u req n. up (f (down u) req n)) (adm_update ad),
     adm_params = up (adm_params ad), adm_init_params = adm_init_params ad,
     admissioner_name = admissioner_name ad\<rparr>"

definition create_admissioner ::
    "gconv \<Rightarrow> ('t, obj_id_t) ghash \<Rightarrow> (double \<Rightarrow> double) \<Rightarrow> (string option \<Rightarrow> 'x admissioner_t option) \<Rightarrow> rand_state \<Rightarrow>
     string \<Rightarrow> string option \<Rightarrow> ('t, 'x) admission_params admissioner_t option" where
  "create_admissioner C G exp_fn create_adaptsize g admission_algo admission_params =
    (if strcasecmp_eq admission_algo ''bloomfilter'' \<or> strcasecmp_eq admission_algo ''bloom-filter''
     then map_option (with_params Bloomfilter_params (\<lambda>u. case u of Bloomfilter_params t \<Rightarrow> t))
       (create_bloomfilter_admissioner C G admission_params)
     else if strcasecmp_eq admission_algo ''prob'' \<or> strcasecmp_eq admission_algo ''probabilistic''
     then map_option (with_params Prob_params (\<lambda>u. case u of Prob_params p \<Rightarrow> p))
       (create_prob_admissioner g admission_params)
     else if strcasecmp_eq admission_algo ''size''
     then map_option (with_params Size_params (\<lambda>u. case u of Size_params p \<Rightarrow> p))
       (create_size_admissioner admission_params)
     else if strcasecmp_eq admission_algo ''sizeProbabilistic'' \<or> strcasecmp_eq admission_algo ''sizeProb''
     then map_option (with_params Size_probabilistic_params (\<lambda>u. case u of Size_probabilistic_params p \<Rightarrow> p))
       (create_size_probabilistic_admissioner exp_fn g admission_params)
     else if strcasecmp_eq admission_algo ''adaptsize''
     then map_option (with_params Adaptsize_params (\<lambda>u. case u of Adaptsize_params p \<Rightarrow> p))
       (create_adaptsize admission_params)
     else None)"

section \<open>Admission joined to an eviction algorithm\<close>

text \<open>
  \<open>J h a\<close> relates the parameters \<open>a\<close> of the admission algorithm to the requests \<open>h\<close> that it was asked
  about, and \<open>Q h req\<close> is what it decides, for less than \<open>limit\<close> requests.
\<close>

locale admitted_policy = refined_policy ops R M ok_req
  for ops :: "('a, 'f, 'p) cache_t cache_ops" and R :: "('a, 'f, 'p) cache_t \<Rightarrow> 's \<Rightarrow> bool"
    and M :: "'s machine" and ok_req :: "request \<Rightarrow> bool" +
  fixes admit :: "'a \<Rightarrow> request \<Rightarrow> bool \<times> 'a"
    and J :: "request list \<Rightarrow> 'a \<Rightarrow> bool"
    and Q :: "request list \<Rightarrow> request \<Rightarrow> bool"
    and limit :: nat
  assumes admit_law: "J h a \<Longrightarrow> ok_req req \<Longrightarrow> length h < limit \<Longrightarrow> admit a req = (ok, a') \<Longrightarrow>
      J (h @ [req]) a' \<and> (ok \<longleftrightarrow> Q h req)"
begin

definition asked :: "('a, 'f, 'p) cache_t \<Rightarrow> request list \<Rightarrow> bool" where
  "asked c h \<longleftrightarrow> (\<exists>ad. admissioner c = Some ad \<and> adm_admit ad = admit \<and> adm_update ad = None
     \<and> J h (adm_params ad))"

lemma asked_same: "admissioner c' = admissioner c \<Longrightarrow> asked c' h = asked c h"
  by (simp add: asked_def)

lemma can_insert_admitted:
  assumes "R c s" and "asked c h" and "ok_req req" and "length h < limit"
  shows "\<exists>ad. op_can_insert ops c req = Some (c\<lparr>admissioner := ad\<rparr>,
      Q h req \<and> req_obj_size req + obj_md_size c \<le> cache_size c)
    \<and> asked (c\<lparr>admissioner := ad\<rparr>) (h @ [req])"
proof -
  from assms(2) obtain ad where ad: "admissioner c = Some ad" "adm_admit ad = admit"
    "adm_update ad = None" "J h (adm_params ad)" by (auto simp: asked_def)
  obtain ok a' where ok: "admit (adm_params ad) req = (ok, a')" by fastforce
  from admit_law [OF ad(4) assms(3,4) ok] have "J (h @ [req]) a'" "ok \<longleftrightarrow> Q h req" by simp_all
  with ad ok show ?thesis
    by (intro exI [of _ "Some (ad\<lparr>adm_params := a'\<rparr>)"])
      (auto simp: R_can_insert [OF assms(1)] cache_can_insert_default_def asked_def)
qed

text \<open>A request that misses: the object is resident afterwards when it was admitted and fits.\<close>

lemma miss_admitted:
  assumes "R c s" and "asked c h" and "ok_req req" and "length h < limit"
    and "req_obj_id req \<notin> resident c" and "op_get_occupied_byte ops c \<le> cache_size c"
  shows "\<exists>c1 ok c' s'. op_can_insert ops c req = Some (c1, ok) \<and> R c' s' \<and> asked c' (h @ [req])
    \<and> (if ok then Option.bind (evict_until_fits ops c1 req) (\<lambda>c. map_option fst (op_insert ops c req)) = Some c'
       else c' = c1)
    \<and> same_limits c c' \<and> op_get_occupied_byte ops c' \<le> cache_size c'
    \<and> resident c' \<subseteq> insert (req_obj_id req) (resident c)
    \<and> (req_obj_id req \<in> resident c' \<longleftrightarrow> Q h req \<and> req_obj_size req + obj_md_size c \<le> cache_size c)"
proof -
  let ?ok = "Q h req \<and> req_obj_size req + obj_md_size c \<le> cache_size c"
  from can_insert_admitted [OF assms(1-4)] obtain ad where
    can: "op_can_insert ops c req = Some (c\<lparr>admissioner := ad\<rparr>, ?ok)"
    and asked: "asked (c\<lparr>admissioner := ad\<rparr>) (h @ [req])" by blast
  let ?c1 = "c\<lparr>admissioner := ad\<rparr>"
  have R1: "R ?c1 s" by (rule R_admissioner [OF assms(1)])
  have occ: "op_get_occupied_byte ops ?c1 = op_get_occupied_byte ops c"
    using R_bytes [OF R1] R_bytes [OF assms(1)] by simp
  show ?thesis
  proof (cases ?ok)
    case False
    with can R1 asked occ assms(5,6) show ?thesis
      by (intro exI [of _ ?c1] exI [of _ ?ok] exI [of _ s]) auto
  next
    case True
    then have "req_obj_size req + obj_md_size ?c1 \<le> cache_size ?c1" by simp
    from evict_until_fits_refines [OF R1 this] obtain c2 s2 where
      e: "evict_until_fits ops ?c1 req = Some c2" "R c2 s2" "same_limits c c2"
      "admissioner c2 = ad" "m_ids M s2 \<subseteq> m_ids M s" by (auto simp: same_limits_def)
    from evict_until_fits_ok [of ?c1 req] R1 True e(1) have
      room: "op_get_occupied_byte ops c2 + req_obj_size req + obj_md_size c \<le> cache_size c" by auto
    have new: "req_obj_id req \<notin> m_ids M s2" using e(5) assms(1,5) by (auto simp: R_resident)
    from R_insert [OF e(2) assms(3) new] obtain c3 q where
      i: "op_insert ops c2 req = Some (c3, q)" "same_limits c2 c3" "admissioner c3 = admissioner c2"
      "R c3 (m_insert M req s2)" by blast
    note lim = same_limits_trans [OF e(3) i(2)]
    have "asked c3 (h @ [req])" using asked e(4) i(3) by (simp add: asked_def)
    moreover have "resident c3 = insert (req_obj_id req) (m_ids M s2)"
      using M_insert [OF e(2)] by (simp add: R_resident [OF i(4)])
    moreover have "op_get_occupied_byte ops c3 \<le> cache_size c3"
      using room lim e(3) M_insert [OF e(2), of req "obj_md_size c"] R_bytes [OF i(4)] R_bytes [OF e(2)]
      by (simp add: same_limits_def)
    ultimately show ?thesis using can True e i(1,4) lim R_resident [OF assms(1)]
      by (intro exI [of _ ?c1] exI [of _ True] exI [of _ c3] exI [of _ "m_insert M req s2"]) auto
  qed
qed

text \<open>The objects that were admitted, and the states that a trace reaches.\<close>

definition admitted :: "request list \<Rightarrow> obj_id_t set" where
  "admitted h = {req_obj_id req | h1 req h2. h = h1 @ req # h2 \<and> Q h1 req}"

definition adm_ok :: "('a, 'f, 'p) cache_t \<Rightarrow> request list \<Rightarrow> bool" where
  "adm_ok c h \<longleftrightarrow> (\<exists>s. R c s) \<and> asked c h \<and> resident c \<subseteq> admitted h
     \<and> op_get_occupied_byte ops c \<le> cache_size c"

lemma admitted_append: "admitted h \<subseteq> admitted (h @ h')"
  by (fastforce simp: admitted_def)

lemma admitted_last: "Q h req \<Longrightarrow> req_obj_id req \<in> admitted (h @ [req])"
  by (auto simp: admitted_def)

lemma admitted_ids: "admitted h \<subseteq> req_obj_id ` set h"
  by (auto simp: admitted_def)

lemma adm_okD:
  assumes "adm_ok c h"
  shows "op_get_occupied_byte ops c \<le> cache_size c"
    "i \<in> resident c \<Longrightarrow> \<exists>h1 req h2. h = h1 @ req # h2 \<and> Q h1 req \<and> i = req_obj_id req"
  using assms unfolding adm_ok_def admitted_def by blast+

lemma get_admitted:
  assumes "adm_ok c h" and "ok_req req" and "length h < limit"
  shows "\<exists>c' hit. cache_get_base ops None c req = Some (c', hit) \<and> same_limits c c'
    \<and> (hit \<longleftrightarrow> req_obj_id req \<in> resident c) \<and> adm_ok c' (if hit then h else h @ [req])
    \<and> (req_obj_id req \<in> resident c'
        \<longleftrightarrow> hit \<or> Q h req \<and> req_obj_size req + obj_md_size c \<le> cache_size c)"
proof -
  let ?c0 = "c\<lparr>n_req := n_req c + 1\<rparr>"
  from assms(1) obtain s where s: "R c s" "asked c h" "resident c \<subseteq> admitted h"
    "op_get_occupied_byte ops c \<le> cache_size c" by (auto simp: adm_ok_def)
  have occ0: "op_get_occupied_byte ops ?c0 = op_get_occupied_byte ops c"
    using R_bytes [OF s(1)] R_bytes [OF R_n_req [OF s(1)]] by simp
  from find_storing [OF R_n_req [OF s(1)] assms(2), of "n_req c + 1"] obtain c1 p s1 where
    f: "op_find ops ?c0 req True = Some (c1, p)" "R c1 s1" "resident c1 = resident c"
    "p \<noteq> NULL \<longleftrightarrow> req_obj_id req \<in> resident c" "same_limits c c1"
    "op_get_occupied_byte ops c1 = op_get_occupied_byte ops c" "admissioner c1 = admissioner c"
    using occ0 by (auto simp: same_limits_def)
  have asked1: "asked c1 h" using s(2) f(7) by (simp add: asked_def)
  then have upd: "call_admissioner_update c1 req = c1"
    by (auto simp: call_admissioner_update_def asked_def)
  have occ1: "op_get_occupied_byte ops c1 \<le> cache_size c1" using f(5,6) s(4) by (simp add: same_limits_def)
  show ?thesis
  proof (cases "p = NULL")
    case False
    then have "cache_get_base ops None c req = Some (c1, True)"
      using f(1) upd by (auto simp: cache_get_base_def Let_def)
    moreover have "adm_ok c1 h" using f s asked1 occ1 by (auto simp: adm_ok_def)
    ultimately show ?thesis using False f by auto
  next
    case True
    with f have "req_obj_id req \<notin> resident c1" by blast
    from miss_admitted [OF f(2) asked1 assms(2,3) this occ1] obtain c2 ok c' s' where
      m: "op_can_insert ops c1 req = Some (c2, ok)" "R c' s'" "asked c' (h @ [req])"
      "if ok then Option.bind (evict_until_fits ops c2 req) (\<lambda>c. map_option fst (op_insert ops c req)) = Some c'
       else c' = c2"
      "same_limits c1 c'" "op_get_occupied_byte ops c' \<le> cache_size c'"
      "resident c' \<subseteq> insert (req_obj_id req) (resident c1)"
      "req_obj_id req \<in> resident c' \<longleftrightarrow> Q h req \<and> req_obj_size req + obj_md_size c1 \<le> cache_size c1"
      by blast
    have "cache_get_base ops None c req = Some (c', False)"
      using True f(1) upd m(1,4) by (auto simp: cache_get_base_def Let_def split: if_splits)
    moreover have "resident c' \<subseteq> admitted (h @ [req])"
      using m(7,8) f(3) s(3) admitted_append [of h "[req]"] admitted_last [of h req] by blast
    then have "adm_ok c' (h @ [req])" using m(2,3,6) by (auto simp: adm_ok_def)
    ultimately show ?thesis using True f m(5,8) same_limits_trans [OF f(5) m(5)]
      by (auto simp: same_limits_def)
  qed
qed

text \<open>The requests \<open>ms\<close> of a trace that miss are those the admission algorithm is asked about.\<close>

lemma serve_admitted:
  "adm_ok c h \<Longrightarrow> \<forall>req \<in> set reqs. ok_req req \<Longrightarrow> length h + length reqs \<le> limit \<Longrightarrow>
   \<exists>c' hits ms. serve ops None c reqs = Some (c', hits) \<and> adm_ok c' (h @ ms) \<and> same_limits c c'
     \<and> req_obj_id ` set (h @ ms) = req_obj_id ` set (h @ reqs)
     \<and> (\<forall>P. length (filter P ms) \<le> length (filter P reqs))"
proof (induction reqs arbitrary: c h)
  case Nil
  then show ?case by (auto intro: exI [of _ "[]"])
next
  case (Cons req reqs)
  from get_admitted [OF Cons.prems(1), of req] Cons.prems(2,3) obtain c1 hit where
    g: "cache_get_base ops None c req = Some (c1, hit)" "same_limits c c1"
    "hit \<longleftrightarrow> req_obj_id req \<in> resident c" "adm_ok c1 (if hit then h else h @ [req])" by auto
  let ?m = "if hit then [] else [req]"
  have "adm_ok c1 (h @ ?m)" "length (h @ ?m) + length reqs \<le> limit" using g(4) Cons.prems(3) by auto
  from Cons.IH [OF this(1) _ this(2)] Cons.prems(2) obtain c' hits ms where
    i: "serve ops None c1 reqs = Some (c', hits)" "adm_ok c' (h @ ?m @ ms)" "same_limits c1 c'"
    "req_obj_id ` set (h @ ?m @ ms) = req_obj_id ` set (h @ ?m @ reqs)"
    "\<forall>P. length (filter P ms) \<le> length (filter P reqs)" by auto
  have "hit \<Longrightarrow> req_obj_id req \<in> req_obj_id ` set h"
    using g(3) Cons.prems(1) admitted_ids by (auto simp: adm_ok_def)
  then have "req_obj_id ` set (h @ ?m @ ms) = req_obj_id ` set (h @ req # reqs)"
    unfolding i(4) by auto
  moreover have "\<forall>P. length (filter P (?m @ ms)) \<le> length (filter P (req # reqs))"
    using i(5) by (auto simp: le_SucI)
  ultimately show ?case using g(1) i(1,2) same_limits_trans [OF g(2) i(3)]
    by (intro exI [of _ c'] exI [of _ "hit # hits"] exI [of _ "?m @ ms"]) auto
qed

lemma serve_admitted_last:
  assumes "adm_ok c []" and "\<forall>r \<in> set reqs. ok_req r" and "ok_req req" and "length reqs < limit"
  shows "\<exists>c' hits hit ms ms'. serve ops None c (reqs @ [req]) = Some (c', hits @ [hit])
    \<and> adm_ok c' ms' \<and> same_limits c c'
    \<and> req_obj_id ` set ms = req_obj_id ` set reqs
    \<and> (\<forall>P. length (filter P ms') \<le> length (filter P (reqs @ [req])))
    \<and> (hit \<longrightarrow> req_obj_id req \<in> req_obj_id ` set reqs)
    \<and> (req_obj_id req \<in> resident c'
        \<longleftrightarrow> hit \<or> Q ms req \<and> req_obj_size req + obj_md_size c \<le> cache_size c)"
proof -
  from serve_admitted [OF assms(1,2)] assms(4) obtain c1 hits ms where
    s: "serve ops None c reqs = Some (c1, hits)" "adm_ok c1 ms" "same_limits c c1"
    "req_obj_id ` set ms = req_obj_id ` set reqs" "\<forall>P. length (filter P ms) \<le> length (filter P reqs)"
    by auto
  from spec [OF s(5), of "\<lambda>_. True"] assms(4) have "length ms < limit" by simp
  from get_admitted [OF s(2) assms(3) this] obtain c' hit where
    g: "cache_get_base ops None c1 req = Some (c', hit)" "same_limits c1 c'"
    "hit \<longleftrightarrow> req_obj_id req \<in> resident c1" "adm_ok c' (if hit then ms else ms @ [req])"
    "req_obj_id req \<in> resident c'
      \<longleftrightarrow> hit \<or> Q ms req \<and> req_obj_size req + obj_md_size c1 \<le> cache_size c1" by blast
  have "\<forall>P. length (filter P (if hit then ms else ms @ [req])) \<le> length (filter P (reqs @ [req]))"
    using s(5) by (auto simp: le_SucI trans_le_add1)
  moreover have "hit \<longrightarrow> req_obj_id req \<in> req_obj_id ` set reqs"
  proof
    assume hit
    with g(3) s(2) admitted_ids [of ms] have "req_obj_id req \<in> req_obj_id ` set ms"
      by (auto simp: adm_ok_def)
    then show "req_obj_id req \<in> req_obj_id ` set reqs" unfolding s(4) .
  qed
  moreover have "serve ops None c (reqs @ [req]) = Some (c', hits @ [hit])"
    by (simp add: serve_append s(1) g(1))
  ultimately show ?thesis using g(4,5) s(3,4) same_limits_trans [OF s(3) g(2)]
    by (intro exI [of _ c'] exI [of _ hits] exI [of _ hit] exI [of _ ms]
        exI [of _ "if hit then ms else ms @ [req]"]) (auto simp: same_limits_def)
qed

end

text \<open>A policy serves a smaller set of requests, too.\<close>

lemma refined_policy_weaken:
  assumes "refined_policy ops R M ok" and "\<And>req. ok' req \<Longrightarrow> ok req"
  shows "refined_policy ops R M ok'"
proof (rule refined_policy.intro, goal_cases)
  case (6 c s req)
  then show ?case by (intro refined_policy.R_find [OF assms(1)] assms(2))
next
  case (8 c s req)
  then show ?case by (intro refined_policy.R_insert [OF assms(1)] assms(2))
qed (rule refined_policy.R_n_req [OF assms(1)] refined_policy.R_admissioner [OF assms(1)]
    refined_policy.R_resident [OF assms(1)] refined_policy.R_bytes [OF assms(1)]
    refined_policy.R_can_insert [OF assms(1)] refined_policy.R_evict [OF assms(1)]
    refined_policy.M_finite [OF assms(1)] refined_policy.M_hit [OF assms(1)]
    refined_policy.M_evict [OF assms(1)] refined_policy.M_empty [OF assms(1)]
    refined_policy.M_insert [OF assms(1)]; assumption)+

section \<open>The filter\<close>

text \<open>
  What GLib documents of the conversions: a \<open>gsize\<close> fits a pointer, and a \<open>gint\<close> that is not
  negative is kept.
\<close>

definition gconv_ok :: "gconv \<Rightarrow> bool" where
  "gconv_ok C \<longleftrightarrow> (\<forall>i. unat i < 2 ^ 31 \<longrightarrow> gint_ptr C i = i) \<and> (\<forall>i. gsize_ptr C i = i)"

definition bloom_J :: "('t, obj_id_t) ghash \<Rightarrow> request list \<Rightarrow> 't \<Rightarrow> bool" where
  "bloom_J G h t \<longleftrightarrow> ghash_ok G
     \<and> (\<forall>i. g_lookup G t i = int (length (filter (\<lambda>req. req_obj_id req = i) h)))"

definition bloom_Q :: "request list \<Rightarrow> request \<Rightarrow> bool" where
  "bloom_Q h req \<longleftrightarrow> req_obj_id req \<in> req_obj_id ` set h"

lemma bloomfilter_admit_counts:
  assumes "bloom_J G h t" and "gconv_ok C" and "unat (req_obj_id req) < 2 ^ 31"
    and "length h < 2 ^ 31 - 1" and "bloomfilter_admit C G t req = (ok, t')"
  shows "bloom_J G (h @ [req]) t' \<and> (ok \<longleftrightarrow> bloom_Q h req)"
proof -
  let ?n = "length (filter (\<lambda>r. req_obj_id r = req_obj_id req) h)"
  have n: "g_lookup G t (req_obj_id req) = int ?n" and G: "ghash_ok G" using assms(1) by (auto simp: bloom_J_def)
  have keys: "gint_ptr C (req_obj_id req) = req_obj_id req" "gsize_ptr C (req_obj_id req) = req_obj_id req"
    using assms(2,3) by (auto simp: gconv_ok_def)
  have "?n \<le> length h" by (rule length_filter_le)
  then have "?n < 2 ^ 31" using assms(4) by linarith
  then have i32: "to_int32 (int ?n) = int ?n" by (intro to_int32_id) simp_all
  have "?n = 0 \<longleftrightarrow> \<not> bloom_Q h req" by (auto simp: bloom_Q_def filter_empty_conv image_iff)
  with assms(1,5) n keys i32 G show ?thesis
    by (auto simp: bloomfilter_admit_def Let_def bloom_J_def g_lookup_simps [OF G] split: if_splits)
qed

definition bloom_req :: "gconv \<Rightarrow> trace_ids \<Rightarrow> request \<Rightarrow> bool" where
  "bloom_req C W req \<longleftrightarrow> req_obj_id req \<in> fst W \<and> gconv_ok C \<and> unat (req_obj_id req) < 2 ^ 31"

interpretation lru_bloom: admitted_policy "LRU_ops E None" "LRU_R E W" "queue_machine (pin E) True"
  "bloom_req C W" "bloomfilter_admit C G" "bloom_J G" bloom_Q "2 ^ 31 - 1" for E W C G
proof (intro admitted_policy.intro admitted_policy_axioms.intro)
  show "refined_policy (LRU_ops E None) (LRU_R E W) (queue_machine (pin E) True) (bloom_req C W)"
    by (rule refined_policy_weaken [OF lru.refined_policy_axioms]) (simp add: bloom_req_def)
qed (auto simp: bloom_req_def dest: bloomfilter_admit_counts)

section \<open>The threshold\<close>

interpretation fifo_size: admitted_policy "FIFO_ops E None" "FIFO_R basic_view E W" "queue_machine (pin E) False"
  "\<lambda>req. req_obj_id req \<in> fst W" size_admit "\<lambda>h a. a = t" "\<lambda>h req. req_obj_size req < t" limit for E W t limit
  by (intro admitted_policy.intro admitted_policy_axioms.intro fifo.refined_policy_axioms)
    (auto simp: size_admit_def split: if_splits)

section \<open>Lemmas\<close>

lemma size_params_roundtrip:
  assumes "0 \<le> t" and "t \<le> LONG_MAX"
  shows "size_admissioner_parse_params (Some (''size='' @ show_int t)) = Some t"
proof -
  have "CHR '','' \<notin> set (show_int t)" using show_nat_no_sep assms(1) by (simp add: show_int_def)
  from next_param_single [of "''size''", OF _ this]
  have n: "next_param (''size='' @ show_int t) = (''size'', Some (show_int t), None)" by simp
  have "strtol (show_int t) = (t, [])" using strtol_show [OF assms, of "[]"] by simp
  moreover have "strcasecmp_eq ''size'' ''size''" by (simp add: strcasecmp_eq_def)
  ultimately have "size_admission_param ''size'' (Some (show_int t)) 0 = Some t"
    by (simp add: size_admission_param_def)
  with n show ?thesis unfolding size_admissioner_parse_params_def
    by (simp add: parse_loop.simps)
qed

text \<open>A probability of 1 admits every object, and so does every probability with the seed 0.\<close>

lemma prob_admit_always:
  "admission_probability_int pa = MAX_MODULE \<Longrightarrow> fst (prob_admit (pa, g) req)"
  "0 < admission_probability_int pa \<Longrightarrow>
     prob_admit (pa, set_rand_seed 0) req = (True, pa, set_rand_seed 0)"
  by (simp_all add: prob_admit_def next_rand_seed_0 MAX_MODULE_def split: prod.split)

section \<open>Properties\<close>

text \<open>
  C33: the filter in front of an LRU cache.  On every trace of ids below \<open>2 ^ 31\<close> the code returns and
  stays within the size; after each request an object that fits is resident exactly when it was
  requested before, and an object that was requested once only is never resident.
\<close>

theorem LRU_bloomfilter_second_request:
  assumes "spread E W" and "\<not> support_ttl E" and "0 < ccp_hashpower p" and "ccp_hashpower p < 40"
    and "int (snd W) \<le> ccp_hashpower p" and "\<forall>r \<in> set (reqs @ [req]). req_obj_id r \<in> fst W"
    and "ghash_ok G" and "gconv_ok C" and "\<forall>r \<in> set (reqs @ [req]). unat (req_obj_id r) < 2 ^ 31"
    and "length reqs < 2 ^ 31 - 1" and "create_bloomfilter_admissioner C G None = Some ad"
    and "0 \<le> ccp_cache_size p"
  shows "\<exists>c hits hit. serve (LRU_ops E None) None ((LRU_init pf0 p s)\<lparr>admissioner := Some ad\<rparr>) (reqs @ [req])
      = Some (c, hits @ [hit])
    \<and> occupied_byte c \<le> ccp_cache_size p
    \<and> (req_obj_size req + (if ccp_consider_obj_metadata p then 16 else 0) \<le> ccp_cache_size p \<longrightarrow>
        (req_obj_id req \<in> resident c \<longleftrightarrow> req_obj_id req \<in> req_obj_id ` set reqs))
    \<and> (\<forall>i \<in> resident c. 2 \<le> length (filter (\<lambda>r. req_obj_id r = i) (reqs @ [req])))"
proof -
  let ?c = "(LRU_init pf0 p s)\<lparr>admissioner := Some ad\<rparr>"
  have R: "LRU_R E W ?c []" by (rule lru.R_admissioner [OF LRU_init_R [OF assms(1-5)]])
  have ad: "adm_admit ad = bloomfilter_admit C G" "adm_update ad = None" "adm_params ad = g_new G"
    using assms(11) by (auto simp: create_bloomfilter_admissioner_def)
  have "lru_bloom.asked C G ?c []"
    using ad by (simp add: lru_bloom.asked_def bloom_J_def assms(7) g_lookup_simps)
  moreover have "resident ?c = {}" using lru.R_resident [OF R] by simp
  ultimately have ok: "lru_bloom.adm_ok E W C G ?c []" using R lru.R_bytes [OF R] assms(12)
    by (auto simp: lru_bloom.adm_ok_def)
  have "\<forall>r \<in> set reqs. bloom_req C W r" "bloom_req C W req"
    using assms(6,8,9) by (auto simp: bloom_req_def)
  from lru_bloom.serve_admitted_last [OF ok this assms(10)] obtain c hits hit ms ms' where
    x: "serve (LRU_ops E None) None ?c (reqs @ [req]) = Some (c, hits @ [hit])"
    "lru_bloom.adm_ok E W C G c ms'" "same_limits ?c c" "req_obj_id ` set ms = req_obj_id ` set reqs"
    "\<forall>P. length (filter P ms') \<le> length (filter P (reqs @ [req]))"
    "hit \<longrightarrow> req_obj_id req \<in> req_obj_id ` set reqs"
    "req_obj_id req \<in> resident c \<longleftrightarrow> hit \<or> bloom_Q ms req \<and> req_obj_size req + obj_md_size ?c \<le> cache_size ?c"
    by (elim exE conjE) (rule that)
  have "2 \<le> length (filter (\<lambda>r. req_obj_id r = i) (reqs @ [req]))" if "i \<in> resident c" for i
  proof -
    from lru_bloom.adm_okD(2) [OF x(2) that] obtain r h1 h2 where
      h: "ms' = h1 @ r # h2" "bloom_Q h1 r" "i = req_obj_id r" by blast
    then have "filter (\<lambda>r. req_obj_id r = i) h1 \<noteq> []" by (auto simp: bloom_Q_def filter_empty_conv)
    then have "Suc 0 \<le> length (filter (\<lambda>r. req_obj_id r = i) h1)" by (simp add: Suc_le_eq)
    then have "2 \<le> length (filter (\<lambda>r. req_obj_id r = i) ms')" unfolding h(1,3) by simp
    with x(5) show ?thesis using le_trans by blast
  qed
  moreover have "occupied_byte c \<le> ccp_cache_size p" using lru_bloom.adm_okD(1) [OF x(2)] x(3)
    by (simp add: LRU_ops_def cache_get_occupied_byte_default_def same_limits_def)
  ultimately show ?thesis using x by (auto simp: bloom_Q_def same_limits_def)
qed

definition plain_gconv :: gconv where
  "plain_gconv = \<lparr>gint_ptr = \<lambda>i. i, gsize_ptr = \<lambda>i. i\<rparr>"

theorem LRU_bloomfilter_second_request_witness:
  "\<exists>(c :: (obj_id_t \<Rightarrow> int, unit, LRU_params_t) cache_t) ad hits hit.
     create_bloomfilter_admissioner plain_gconv fun_ghash None = Some ad
     \<and> serve (LRU_ops sample_env None) None ((LRU_init () (sample_params 5) None)\<lparr>admissioner := Some ad\<rparr>)
       ([sample_req 1 2, sample_req 2 2] @ [sample_req 1 2]) = Some (c, hits @ [hit])
     \<and> resident c = {1}"
proof -
  obtain ad where ad: "create_bloomfilter_admissioner plain_gconv fun_ghash None = Some ad"
    by (simp add: create_bloomfilter_admissioner_def)
  have "gconv_ok plain_gconv" by (simp add: gconv_ok_def plain_gconv_def)
  from LRU_bloomfilter_second_request [of sample_env sample_ids "sample_params 5"
      "[sample_req 1 2, sample_req 2 2]" "sample_req 1 2" fun_ghash, OF _ _ _ _ _ _ _ this _ _ ad, of "()" None]
  obtain c hits hit where c: "serve (LRU_ops sample_env None) None
      ((LRU_init () (sample_params 5) None)\<lparr>admissioner := Some ad\<rparr>)
      ([sample_req 1 2, sample_req 2 2] @ [sample_req 1 2]) = Some (c, hits @ [hit])"
    "1 \<in> resident c"
    "\<forall>i \<in> resident c. 2 \<le> length (filter (\<lambda>r. req_obj_id r = i)
       ([sample_req 1 2, sample_req 2 2] @ [sample_req 1 2]))" by (auto simp del: serve.simps)
  have "i = 1" if "i \<in> resident c" for i using bspec [OF c(3) that] by (simp split: if_splits)
  then have "resident c = {1}" using c(2) by blast
  with ad c(1) show ?thesis by blast
qed

text \<open>
  The size threshold in front of a FIFO cache, created from its parameter string.  On every trace
  the code returns and stays within the size; every resident object was requested with a size below
  the threshold, and after each request an object that fits is resident exactly when it was there
  before or its size is below the threshold.
\<close>

theorem FIFO_size_threshold:
  assumes "spread E W" and "\<not> support_ttl E" and "0 < ccp_hashpower p" and "ccp_hashpower p < 40"
    and "int (snd W) \<le> ccp_hashpower p" and "\<forall>r \<in> set (reqs @ [req]). req_obj_id r \<in> fst W"
    and "0 \<le> ccp_cache_size p" and "0 \<le> t" and "t \<le> LONG_MAX"
  shows "\<exists>ad c hits hit. create_size_admissioner (Some (''size='' @ show_int t)) = Some ad
    \<and> serve (FIFO_ops E None) None ((FIFO_init pf0 p s)\<lparr>admissioner := Some ad\<rparr>) (reqs @ [req])
      = Some (c, hits @ [hit])
    \<and> occupied_byte c \<le> ccp_cache_size p
    \<and> (req_obj_size req \<le> ccp_cache_size p \<longrightarrow>
        (req_obj_id req \<in> resident c \<longleftrightarrow> hit \<or> req_obj_size req < t))
    \<and> (\<forall>i \<in> resident c. \<exists>r \<in> set (reqs @ [req]). req_obj_id r = i \<and> req_obj_size r < t)"
proof -
  obtain ad where ad: "create_size_admissioner (Some (''size='' @ show_int t)) = Some ad"
    "adm_admit ad = size_admit" "adm_update ad = None" "adm_params ad = t"
    using size_params_roundtrip [OF assms(8,9)] by (auto simp: create_size_admissioner_def)
  let ?c = "(FIFO_init pf0 p s)\<lparr>admissioner := Some ad\<rparr>"
  have R: "FIFO_R basic_view E W ?c []" by (rule fifo.R_admissioner [OF FIFO_init_R [OF assms(1-5)]])
  have "fifo_size.asked t ?c []" using ad by (simp add: fifo_size.asked_def)
  moreover have "resident ?c = {}" using fifo.R_resident [OF R] by simp
  ultimately have ok: "fifo_size.adm_ok E W t ?c []" using R fifo.R_bytes [OF R] assms(7)
    by (auto simp: fifo_size.adm_ok_def)
  have "\<forall>r \<in> set reqs. req_obj_id r \<in> fst W" "req_obj_id req \<in> fst W" using assms(6) by auto
  from fifo_size.serve_admitted_last [OF ok this lessI] obtain c hits hit ms' where
    x: "serve (FIFO_ops E None) None ?c (reqs @ [req]) = Some (c, hits @ [hit])"
    "fifo_size.adm_ok E W t c ms'" "same_limits ?c c"
    "\<forall>P. length (filter P ms') \<le> length (filter P (reqs @ [req]))"
    "req_obj_id req \<in> resident c \<longleftrightarrow> hit \<or> req_obj_size req < t \<and> req_obj_size req + obj_md_size ?c \<le> cache_size ?c"
    by (elim exE conjE) (rule that, simp_all)
  have "\<exists>r \<in> set (reqs @ [req]). req_obj_id r = i \<and> req_obj_size r < t" if "i \<in> resident c" for i
  proof -
    from fifo_size.adm_okD(2) [OF x(2) that] obtain r where
      r: "r \<in> set ms'" "i = req_obj_id r" "req_obj_size r < t" by (metis in_set_conv_decomp)
    then have "filter (\<lambda>r'. r' = r) ms' \<noteq> []" by (auto simp: filter_empty_conv)
    with spec [OF x(4), of "\<lambda>r'. r' = r"] have "filter (\<lambda>r'. r' = r) (reqs @ [req]) \<noteq> []"
      by (metis le_zero_eq length_0_conv)
    then have "r \<in> set (reqs @ [req])" unfolding filter_empty_conv by blast
    with r show ?thesis by blast
  qed
  moreover have "occupied_byte c \<le> ccp_cache_size p" using fifo_size.adm_okD(1) [OF x(2)] x(3)
    by (simp add: FIFO_ops_def cache_get_occupied_byte_default_def same_limits_def)
  ultimately show ?thesis using ad(1) x(1,5) by (intro exI [of _ ad] exI [of _ c] exI [of _ hits] exI [of _ hit]) auto
qed

theorem FIFO_size_threshold_witness:
  "\<exists>(c :: (int, unit, FIFO_params_t) cache_t) ad hits hit.
     create_size_admissioner (Some ''size=3'') = Some ad
     \<and> serve (FIFO_ops sample_env None) None ((FIFO_init () (sample_params 9) None)\<lparr>admissioner := Some ad\<rparr>)
       ([sample_req 1 2, sample_req 2 4] @ [sample_req 3 1]) = Some (c, hits @ [hit])
     \<and> 3 \<in> resident c \<and> 2 \<notin> resident c"
proof -
  have "show_int 3 = ''3''" by code_simp
  with FIFO_size_threshold [of sample_env sample_ids "sample_params 9" "[sample_req 1 2, sample_req 2 4]"
      "sample_req 3 1" 3 "()" None]
  obtain ad c hits hit where c: "create_size_admissioner (Some ''size=3'') = Some ad"
    "serve (FIFO_ops sample_env None) None ((FIFO_init () (sample_params 9) None)\<lparr>admissioner := Some ad\<rparr>)
       ([sample_req 1 2, sample_req 2 4] @ [sample_req 3 1]) = Some (c, hits @ [hit])"
    "3 \<in> resident c" "\<forall>i \<in> resident c. \<exists>r \<in> set ([sample_req 1 2, sample_req 2 4] @ [sample_req 3 1]).
       req_obj_id r = i \<and> req_obj_size r < 3" by (auto simp: LONG_MAX_def simp del: serve.simps)
  have "2 \<notin> resident c" using bspec [OF c(4), of 2] by auto
  with c show ?thesis by blast
qed

end
