(* ===== verification/Filters.thy ===== *)
theory Filters
  imports Double "HOL-Library.Signed_Division"
begin

text \<open>
  The Bloom filter (\<open>dataStructure/bloom.c\<close>) and the counting filter (\<open>dataStructure/minimalIncrementCBF.c\<close>).
  The hash function \<open>XXH64\<close> of a key and a seed, the function \<open>log\<close> of the C library and the type of the
  keys are parameters.  Reading or writing outside the array, and the remainder by 0, are undefined
  behaviour.
\<close>

unbundle bit_operations_syntax

type_synonym 'k xxh = "'k \<Rightarrow> 64 word \<Rightarrow> 64 word"

definition HASH_SEED0 :: "64 word" where
  "HASH_SEED0 = 0x12345678"

definition HASH_SEED1 :: "64 word" where
  "HASH_SEED1 = 0x12344321"

definition ln2_squared :: double where
  "ln2_squared = double_round (480453013918201 / 10 ^ 15)"

definition ln2 :: double where
  "ln2 = double_round (693147180559945 / 10 ^ 15)"

text \<open>The \<open>i\<close>-th position of a key, in 32 bits.\<close>

definition hash_position :: "'k xxh \<Rightarrow> 'k \<Rightarrow> int \<Rightarrow> nat \<Rightarrow> nat option" where
  "hash_position H key n i =
    (let a = ucast (H key HASH_SEED0) :: 32 word; b = ucast (H key HASH_SEED1) :: 32 word;
         m = word_of_int n :: 32 word
     in if m = 0 then None else Some (unat ((a + of_nat i * b) mod m)))"

section \<open>The Bloom filter\<close>

record bloom =
  bl_entries :: int
  bl_error :: double
  bl_bits :: int
  bl_bytes :: int
  bl_hashes :: int
  bl_bpe :: double
  bl_bf :: "8 word list"
  bl_ready :: int

definition test_bit_set_bit :: "8 word list \<Rightarrow> nat \<Rightarrow> bool \<Rightarrow> (bool \<times> 8 word list) option" where
  "test_bit_set_bit buf x do_set =
    (let byte = x div 8
     in if byte < length buf then
          (let c = buf ! byte; mask = push_bit (x mod 8) 1
           in if c AND mask \<noteq> 0 then Some (True, buf)
              else Some (False, if do_set then buf[byte := c OR mask] else buf))
        else None)"

text \<open>The loop over the hashes from \<open>i\<close> on, \<open>n\<close> of them; \<open>None\<close> inside is the early return of 0.\<close>

fun bloom_loop ::
    "'k xxh \<Rightarrow> 'k \<Rightarrow> int \<Rightarrow> bool \<Rightarrow> nat \<Rightarrow> nat \<Rightarrow> nat \<Rightarrow> 8 word list \<Rightarrow> (nat option \<times> 8 word list) option" where
  "bloom_loop H key bits add 0 i hits bf = Some (Some hits, bf)"
| "bloom_loop H key bits add (Suc n) i hits bf = do {
     x \<leftarrow> hash_position H key bits i;
     (set, bf) \<leftarrow> test_bit_set_bit bf x add;
     if set then bloom_loop H key bits add n (Suc i) (Suc hits) bf
     else if \<not> add then Some (None, bf)
     else bloom_loop H key bits add n (Suc i) hits bf }"

definition bloom_check_add :: "'k xxh \<Rightarrow> bloom \<Rightarrow> 'k \<Rightarrow> bool \<Rightarrow> (int \<times> bloom) option" where
  "bloom_check_add H bl key add =
    (if bl_ready bl = 0 then Some (- 1, bl)
     else do {
       (hits, bf) \<leftarrow> bloom_loop H key (bl_bits bl) add (nat (bl_hashes bl)) 0 0 (bl_bf bl);
       let bl = bl\<lparr>bl_bf := bf\<rparr>;
       Some (case hits of None \<Rightarrow> (0, bl)
         | Some hits \<Rightarrow> (if int hits = bl_hashes bl then (1, bl) else (0, bl))) })"

text \<open>An array of a negative size cannot be allocated.\<close>

definition bloom_init :: "(double \<Rightarrow> double) \<Rightarrow> bloom \<Rightarrow> int \<Rightarrow> double \<Rightarrow> (int \<times> bloom) option" where
  "bloom_init log_fn bl entries error =
    (let bl = bl\<lparr>bl_ready := 0\<rparr> in
     if entries < 1000 \<or> error = 0 then Some (1, bl)
     else do {
       let bpe = - double_div (log_fn error) ln2_squared;
       let dentries = double_of_int entries;
       bits \<leftarrow> int32_of_double (double_mult dentries bpe);
       let bytes = (if bits smod 8 \<noteq> 0 then bits sdiv 8 + 1 else bits sdiv 8);
       hashes \<leftarrow> int32_of_double (of_int \<lceil>double_mult ln2 bpe\<rceil>);
       let bl = bl\<lparr>bl_entries := entries, bl_error := error, bl_bpe := bpe, bl_bits := bits,
                   bl_bytes := bytes, bl_hashes := hashes\<rparr>;
       if bytes < 0 then Some (1, bl\<lparr>bl_bf := []\<rparr>)
       else Some (0, bl\<lparr>bl_bf := replicate (nat bytes) 0, bl_ready := 1\<rparr>) })"

definition bloom_init_size ::
    "(double \<Rightarrow> double) \<Rightarrow> bloom \<Rightarrow> int \<Rightarrow> double \<Rightarrow> int \<Rightarrow> (int \<times> bloom) option" where
  "bloom_init_size log_fn bl entries error cache_size = bloom_init log_fn bl entries error"

definition bloom_check :: "'k xxh \<Rightarrow> bloom \<Rightarrow> 'k \<Rightarrow> (int \<times> bloom) option" where
  "bloom_check H bl key = bloom_check_add H bl key False"

definition bloom_add :: "'k xxh \<Rightarrow> bloom \<Rightarrow> 'k \<Rightarrow> (int \<times> bloom) option" where
  "bloom_add H bl key = bloom_check_add H bl key True"

definition bloom_reset :: "bloom \<Rightarrow> int \<times> bloom" where
  "bloom_reset bl =
    (if bl_ready bl = 0 then (1, bl)
     else (0, bl\<lparr>bl_bf := replicate (nat (bl_bytes bl)) 0 @ drop (nat (bl_bytes bl)) (bl_bf bl)\<rparr>))"

text \<open>After \<open>bloom_free\<close> the array must not be read.\<close>

definition bloom_free :: "bloom \<Rightarrow> bloom" where
  "bloom_free bl = bl\<lparr>bl_bf := (if bl_ready bl \<noteq> 0 then [] else bl_bf bl), bl_ready := 0\<rparr>"

section \<open>The counting filter\<close>

record minimalIncrementCBF =
  cbf_entries :: int
  cbf_error :: double
  cbf_hashes :: int
  counter_num :: int
  cbf_bpe :: double
  cbf_bf :: "32 word list"
  cbf_ready :: int

definition CBF_INT_MAX :: int where
  "CBF_INT_MAX = 2 ^ 31 - 1"

definition CBF_UINT_MAX :: "32 word" where
  "CBF_UINT_MAX = - 1"

text \<open>An array of a negative size is not allocated, which ends the program, as an overflow may do.\<close>

definition minimalIncrementCBF_init ::
    "(double \<Rightarrow> double) \<Rightarrow> minimalIncrementCBF \<Rightarrow> int \<Rightarrow> double \<Rightarrow> (int \<times> minimalIncrementCBF) option" where
  "minimalIncrementCBF_init log_fn cbf entries error =
    (if cbf_ready cbf = 1 then Some (- 1, cbf)
     else do {
       let bpe = double_div (- log_fn error) ln2_squared;
       hashes \<leftarrow> int32_of_double (of_int \<lceil>double_mult ln2 bpe\<rceil>);
       n \<leftarrow> int32_of_double (min (of_int \<lceil>double_mult bpe (double_of_int entries)\<rceil>) (double_of_int CBF_INT_MAX));
       let n = (if n < hashes then hashes * 2 else n);
       if n < 0 \<or> n \<ge> 2 ^ 31 then None
       else Some (0, cbf\<lparr>cbf_entries := entries, cbf_error := error, cbf_bpe := bpe, cbf_hashes := hashes,
         counter_num := n, cbf_bf := replicate (nat n) 0, cbf_ready := 1\<rparr>) })"

definition minimalIncrementCBF_init_size ::
    "(double \<Rightarrow> double) \<Rightarrow> minimalIncrementCBF \<Rightarrow> int \<Rightarrow> double \<Rightarrow> int \<Rightarrow> (int \<times> minimalIncrementCBF) option" where
  "minimalIncrementCBF_init_size log_fn cbf entries error cache_size = do {
     (r, cbf) \<leftarrow> minimalIncrementCBF_init log_fn cbf entries error;
     Some (0, cbf) }"

definition counter :: "32 word list \<Rightarrow> nat \<Rightarrow> 32 word option" where
  "counter bf x = (if x < length bf then Some (bf ! x) else None)"

text \<open>The two loops over the hashes from \<open>i\<close> on.\<close>

fun cbf_min_loop ::
    "'k xxh \<Rightarrow> 'k \<Rightarrow> int \<Rightarrow> nat \<Rightarrow> nat \<Rightarrow> 32 word list \<Rightarrow> 32 word \<Rightarrow> 32 word option" where
  "cbf_min_loop H key num 0 i bf min_count = Some min_count"
| "cbf_min_loop H key num (Suc n) i bf min_count = do {
     x \<leftarrow> hash_position H key num i;
     v \<leftarrow> counter bf x;
     cbf_min_loop H key num n (Suc i) bf (if v < min_count then v else min_count) }"

fun cbf_add_loop ::
    "'k xxh \<Rightarrow> 'k \<Rightarrow> int \<Rightarrow> nat \<Rightarrow> nat \<Rightarrow> 32 word list \<Rightarrow> 32 word list option" where
  "cbf_add_loop H key num 0 i bf = Some bf"
| "cbf_add_loop H key num (Suc n) i bf = do {
     x \<leftarrow> hash_position H key num i;
     v \<leftarrow> counter bf x;
     cbf_add_loop H key num n (Suc i) (bf[x := v + 1]) }"

definition minimalIncrementCBF_check_add ::
    "'k xxh \<Rightarrow> minimalIncrementCBF \<Rightarrow> 'k \<Rightarrow> int \<Rightarrow> (int \<times> minimalIncrementCBF) option" where
  "minimalIncrementCBF_check_add H cbf key add =
    (if cbf_ready cbf = 0 then Some (- 1, cbf)
     else if add \<noteq> 0 \<and> add \<noteq> 1 then Some (- 1, cbf)
     else if counter_num cbf = 0 then None
     else do {
       min_count \<leftarrow> cbf_min_loop H key (counter_num cbf) (nat (cbf_hashes cbf)) 0 (cbf_bf cbf) CBF_UINT_MAX;
       if add = 1 \<and> min_count < CBF_UINT_MAX then do {
         bf \<leftarrow> cbf_add_loop H key (counter_num cbf) (nat (cbf_hashes cbf)) 0 (cbf_bf cbf);
         Some (to_int32 (uint (min_count + 1)), cbf\<lparr>cbf_bf := bf\<rparr>) }
       else Some (to_int32 (uint min_count), cbf) })"

definition minimalIncrementCBF_estimate ::
    "'k xxh \<Rightarrow> minimalIncrementCBF \<Rightarrow> 'k \<Rightarrow> (int \<times> minimalIncrementCBF) option" where
  "minimalIncrementCBF_estimate H cbf key = minimalIncrementCBF_check_add H cbf key 0"

definition minimalIncrementCBF_add ::
    "'k xxh \<Rightarrow> minimalIncrementCBF \<Rightarrow> 'k \<Rightarrow> (int \<times> minimalIncrementCBF) option" where
  "minimalIncrementCBF_add H cbf key = minimalIncrementCBF_check_add H cbf key 1"

definition minimalIncrementCBF_free :: "minimalIncrementCBF \<Rightarrow> minimalIncrementCBF" where
  "minimalIncrementCBF_free cbf =
     cbf\<lparr>cbf_bf := (if cbf_ready cbf \<noteq> 0 then [] else cbf_bf cbf), cbf_ready := 0\<rparr>"

definition minimalIncrementCBF_decay :: "minimalIncrementCBF \<Rightarrow> (int \<times> minimalIncrementCBF) option" where
  "minimalIncrementCBF_decay cbf =
    (if cbf_ready cbf = 0 then Some (1, cbf)
     else Some (0, cbf\<lparr>cbf_bf := map (drop_bit 1) (cbf_bf cbf)\<rparr>))"

section \<open>Lemmas\<close>

subsection \<open>Rounding keeps the sign\<close>

lemma round_even_sign: "0 \<le> q \<Longrightarrow> 0 \<le> round_even q" "q \<le> 0 \<Longrightarrow> round_even q \<le> 0"
proof -
  show "0 \<le> q \<Longrightarrow> 0 \<le> round_even q" by (auto simp: round_even_def Let_def)
  assume "q \<le> 0"
  then consider "q = 0" | "\<lfloor>q\<rfloor> \<le> - 1" by linarith
  then show "round_even q \<le> 0" by cases (auto simp: round_even_def Let_def)
qed

lemma pow2_pos [simp]: "0 < pow2 k"
  by (simp add: pow2_def)

lemma double_round_sign: "0 \<le> q \<Longrightarrow> 0 \<le> double_round q" "q \<le> 0 \<Longrightarrow> double_round q \<le> 0"
proof -
  let ?u = "pow2 (52 - double_exp q)"
  have u: "0 < ?u" by simp
  show "0 \<le> double_round q" if "0 \<le> q"
    using that u round_even_sign(1) [of "q * ?u"]
    by (auto simp: double_round_def Let_def less_imp_le [OF u] intro!: divide_nonneg_pos mult_nonneg_nonneg)
  show "double_round q \<le> 0" if "q \<le> 0"
  proof -
    have "q * ?u \<le> 0" using that less_imp_le [OF u] by (intro mult_nonpos_nonneg)
    then have "of_int (round_even (q * ?u)) \<le> (0 :: rat)" using round_even_sign(2) by simp
    with u show ?thesis by (auto simp: double_round_def Let_def intro: divide_nonpos_pos)
  qed
qed

subsection \<open>Positions\<close>

definition positions :: "'k xxh \<Rightarrow> 'k \<Rightarrow> int \<Rightarrow> nat \<Rightarrow> nat list" where
  "positions H key n k = map (\<lambda>i. the (hash_position H key n i)) [0..<k]"

lemma hash_position_ok:
  assumes "0 < n" and "n < 2 ^ 31"
  shows "\<exists>x. hash_position H key n i = Some x \<and> int x < n"
proof -
  let ?m = "word_of_int n :: 32 word"
  have m: "uint ?m = n" using assms by (simp add: uint_word_of_int take_bit_int_eq_self)
  then have "?m \<noteq> 0" using assms(1) by auto
  moreover have "unat (x mod ?m) < unat ?m" for x :: "32 word"
    unfolding unat_mod using \<open>?m \<noteq> 0\<close> by (intro mod_less_divisor) (simp add: unat_gt_0)
  then have "int (unat (x mod ?m)) < n" for x :: "32 word"
    using m by (metis of_nat_less_iff uint_nat)
  ultimately show ?thesis by (simp add: hash_position_def Let_def)
qed

lemma positions_bound:
  assumes "0 < n" and "n < 2 ^ 31"
    and "x \<in> set (positions H key n k)"
  shows "int x < n"
proof -
  from assms(3) obtain i where "x = the (hash_position H key n i)" by (auto simp: positions_def)
  with hash_position_ok [OF assms(1,2), of H key i] show ?thesis by auto
qed

lemma positions_upto:
  assumes "0 < n" and "n < 2 ^ 31" and "i < k"
  shows "hash_position H key n i = Some (positions H key n k ! i)"
  using hash_position_ok [OF assms(1,2), of H key i] assms(3) by (auto simp: positions_def)

subsection \<open>The Bloom filter\<close>

definition bit_in :: "8 word list \<Rightarrow> nat \<Rightarrow> bool" where
  "bit_in bf x \<longleftrightarrow> x div 8 < length bf \<and> bit (bf ! (x div 8)) (x mod 8)"

lemma test_bit_set_bit_ok:
  assumes "x div 8 < length bf"
  shows "\<exists>bf'. test_bit_set_bit bf x add = Some (bit_in bf x, bf') \<and> length bf' = length bf
    \<and> (\<forall>y. bit_in bf' y \<longleftrightarrow> bit_in bf y \<or> add \<and> y = x)"
proof (cases "bit_in bf x \<or> \<not> add")
  case True
  then show ?thesis using assms
    by (auto simp: test_bit_set_bit_def Let_def and_exp_eq_0_iff_not_bit bit_in_def)
next
  case False
  let ?b = "bf[x div 8 := bf ! (x div 8) OR push_bit (x mod 8) 1]"
  have "test_bit_set_bit bf x add = Some (bit_in bf x, ?b)"
    using False assms by (auto simp: test_bit_set_bit_def Let_def and_exp_eq_0_iff_not_bit bit_in_def)
  moreover have "bit_in ?b y \<longleftrightarrow> bit_in bf y \<or> y = x" for y
  proof (cases "y div 8 = x div 8")
    case True
    have "y mod 8 = x mod 8 \<longleftrightarrow> y = x" using True by (metis mod_div_mult_eq)
    with True assms show ?thesis
      by (auto simp: bit_in_def bit_or_iff bit_exp_iff)
  next
    case False
    then show ?thesis by (auto simp: bit_in_def)
  qed
  ultimately show ?thesis using False by auto
qed

text \<open>The positions \<open>xs\<close> of a key from the \<open>i\<close>-th on.\<close>

lemma bloom_loop_add:
  assumes "\<And>j. j < length xs \<Longrightarrow> hash_position H key bits (i + j) = Some (xs ! j)"
    and "\<forall>x \<in> set xs. x div 8 < length bf"
  shows "\<exists>hits' bf'. bloom_loop H key bits True (length xs) i hits bf = Some (Some hits', bf')
    \<and> length bf' = length bf \<and> (\<forall>y. bit_in bf' y \<longleftrightarrow> bit_in bf y \<or> y \<in> set xs)
    \<and> ((\<forall>x \<in> set xs. bit_in bf x) \<longrightarrow> hits' = hits + length xs)"
  using assms
proof (induction xs arbitrary: i hits bf)
  case Nil
  then show ?case by simp
next
  case (Cons x xs)
  from test_bit_set_bit_ok [of x bf True] Cons.prems(2) obtain bf1 where
    t: "test_bit_set_bit bf x True = Some (bit_in bf x, bf1)" "length bf1 = length bf"
    "\<forall>y. bit_in bf1 y \<longleftrightarrow> bit_in bf y \<or> y = x" by auto
  have pos: "hash_position H key bits (Suc i + j) = Some (xs ! j)" if "j < length xs" for j
    using Cons.prems(1) [of "Suc j"] that by simp
  have "\<forall>x \<in> set xs. x div 8 < length bf1" using Cons.prems(2) t(2) by simp
  from Cons.IH [OF pos this, of "if bit_in bf x then Suc hits else hits"] obtain hits' bf' where
    "bloom_loop H key bits True (length xs) (Suc i) (if bit_in bf x then Suc hits else hits) bf1 = Some (Some hits', bf')"
    "length bf' = length bf1" "\<forall>y. bit_in bf' y \<longleftrightarrow> bit_in bf1 y \<or> y \<in> set xs"
    "(\<forall>x \<in> set xs. bit_in bf1 x) \<longrightarrow> hits' = (if bit_in bf x then Suc hits else hits) + length xs" by blast
  with t Cons.prems(1) [of 0] show ?case by (auto split: if_splits)
qed

lemma bloom_loop_check:
  assumes "\<And>j. j < length xs \<Longrightarrow> hash_position H key bits (i + j) = Some (xs ! j)"
    and "\<forall>x \<in> set xs. x div 8 < length bf"
  shows "bloom_loop H key bits False (length xs) i hits bf
    = Some (if \<forall>x \<in> set xs. bit_in bf x then Some (hits + length xs) else None, bf)"
  using assms
proof (induction xs arbitrary: i hits)
  case Nil
  then show ?case by simp
next
  case (Cons x xs)
  have "test_bit_set_bit bf x False = Some (bit_in bf x, bf)"
    using Cons.prems(2) by (auto simp: test_bit_set_bit_def Let_def and_exp_eq_0_iff_not_bit bit_in_def)
  moreover have pos: "hash_position H key bits (Suc i + j) = Some (xs ! j)" if "j < length xs" for j
    using Cons.prems(1) [of "Suc j"] that by simp
  ultimately show ?case using Cons.prems(1) [of 0] Cons.prems(2) Cons.IH [OF pos] by auto
qed

definition bloom_ok :: "bloom \<Rightarrow> bool" where
  "bloom_ok bl \<longleftrightarrow> bl_ready bl \<noteq> 0 \<and> 0 < bl_bits bl \<and> bl_bits bl < 2 ^ 31 \<and> 0 \<le> bl_hashes bl
     \<and> bl_bits bl \<le> 8 * bl_bytes bl \<and> length (bl_bf bl) = nat (bl_bytes bl)"

abbreviation key_bits :: "'k xxh \<Rightarrow> bloom \<Rightarrow> 'k \<Rightarrow> nat set" where
  "key_bits H bl key \<equiv> set (positions H key (bl_bits bl) (nat (bl_hashes bl)))"

lemma key_bits_in_range:
  assumes "bloom_ok bl"
  shows "\<forall>x \<in> key_bits H bl key. x div 8 < length (bl_bf bl)"
proof
  fix x assume "x \<in> key_bits H bl key"
  with assms have "int x < bl_bits bl" by (intro positions_bound) (auto simp: bloom_ok_def)
  with assms have "int x < 8 * int (length (bl_bf bl))" by (auto simp: bloom_ok_def)
  then show "x div 8 < length (bl_bf bl)" by linarith
qed

lemma bloom_add_ok:
  assumes "bloom_ok bl"
  shows "\<exists>r bl'. bloom_add H bl key = Some (r, bl') \<and> bloom_ok bl'
    \<and> bl_bits bl' = bl_bits bl \<and> bl_hashes bl' = bl_hashes bl
    \<and> (\<forall>y. bit_in (bl_bf bl') y \<longleftrightarrow> bit_in (bl_bf bl) y \<or> y \<in> key_bits H bl key)
    \<and> ((\<forall>x \<in> key_bits H bl key. bit_in (bl_bf bl) x) \<longrightarrow> r = 1)"
proof -
  let ?xs = "positions H key (bl_bits bl) (nat (bl_hashes bl))"
  have len: "length ?xs = nat (bl_hashes bl)" by (simp add: positions_def)
  have "hash_position H key (bl_bits bl) (0 + j) = Some (?xs ! j)" if "j < length ?xs" for j
    using that assms by (simp add: len positions_upto bloom_ok_def)
  from bloom_loop_add [OF this key_bits_in_range [OF assms], of 0] obtain hits bf where
    l: "bloom_loop H key (bl_bits bl) True (nat (bl_hashes bl)) 0 0 (bl_bf bl) = Some (Some hits, bf)"
    "length bf = length (bl_bf bl)" "\<forall>y. bit_in bf y \<longleftrightarrow> bit_in (bl_bf bl) y \<or> y \<in> set ?xs"
    "(\<forall>x \<in> set ?xs. bit_in (bl_bf bl) x) \<longrightarrow> hits = nat (bl_hashes bl)" unfolding len by auto
  let ?r = "if int hits = bl_hashes bl then 1 else 0"
  have "bloom_add H bl key = Some (?r, bl\<lparr>bl_bf := bf\<rparr>)"
    using l(1) assms by (simp add: bloom_add_def bloom_check_add_def bloom_ok_def Let_def)
  moreover have "bloom_ok (bl\<lparr>bl_bf := bf\<rparr>)" using l(2) assms by (simp add: bloom_ok_def)
  moreover have "(\<forall>x \<in> set ?xs. bit_in (bl_bf bl) x) \<longrightarrow> ?r = (1 :: int)"
    using l(4) assms by (simp add: bloom_ok_def)
  ultimately show ?thesis using l(3) by (intro exI [of _ ?r] exI [of _ "bl\<lparr>bl_bf := bf\<rparr>"]) simp
qed

lemma bloom_check_ok:
  assumes "bloom_ok bl"
  shows "bloom_check H bl key = Some (if \<forall>x \<in> key_bits H bl key. bit_in (bl_bf bl) x then 1 else 0, bl)"
proof -
  let ?xs = "positions H key (bl_bits bl) (nat (bl_hashes bl))"
  have len: "length ?xs = nat (bl_hashes bl)" by (simp add: positions_def)
  have "hash_position H key (bl_bits bl) (0 + j) = Some (?xs ! j)" if "j < length ?xs" for j
    using that assms by (simp add: len positions_upto bloom_ok_def)
  from bloom_loop_check [OF this key_bits_in_range [OF assms], of 0] assms show ?thesis
    unfolding len by (auto simp: bloom_check_def bloom_check_add_def bloom_ok_def)
qed

text \<open>Adding a list of keys.\<close>

fun bloom_add_all :: "'k xxh \<Rightarrow> bloom \<Rightarrow> 'k list \<Rightarrow> bloom option" where
  "bloom_add_all H bl [] = Some bl"
| "bloom_add_all H bl (key # keys) = do {
     (r, bl) \<leftarrow> bloom_add H bl key;
     bloom_add_all H bl keys }"

lemma bloom_add_all_ok:
  "bloom_ok bl \<Longrightarrow> \<exists>bl'. bloom_add_all H bl keys = Some bl' \<and> bloom_ok bl'
    \<and> bl_bits bl' = bl_bits bl \<and> bl_hashes bl' = bl_hashes bl
    \<and> (\<forall>y. bit_in (bl_bf bl') y \<longleftrightarrow> bit_in (bl_bf bl) y \<or> (\<exists>key \<in> set keys. y \<in> key_bits H bl key))"
proof (induction keys arbitrary: bl)
  case Nil
  then show ?case by simp
next
  case (Cons key keys)
  from bloom_add_ok [OF Cons.prems, of H key] obtain r bl1 where
    a: "bloom_add H bl key = Some (r, bl1)" "bloom_ok bl1" "bl_bits bl1 = bl_bits bl"
    "bl_hashes bl1 = bl_hashes bl"
    "\<forall>y. bit_in (bl_bf bl1) y \<longleftrightarrow> bit_in (bl_bf bl) y \<or> y \<in> key_bits H bl key" by blast
  from Cons.IH [OF a(2)] obtain bl' where
    "bloom_add_all H bl1 keys = Some bl'" "bloom_ok bl'" "bl_bits bl' = bl_bits bl"
    "bl_hashes bl' = bl_hashes bl"
    "\<forall>y. bit_in (bl_bf bl') y \<longleftrightarrow> bit_in (bl_bf bl1) y \<or> (\<exists>key \<in> set keys. y \<in> key_bits H bl key)"
    unfolding a(3,4) by blast
  with a show ?case by auto
qed

lemma bloom_init_ok:
  assumes "bloom_init log_fn bl0 entries error = Some (0, bl)" and "0 < bl_bits bl"
  shows "bloom_ok bl" "\<forall>y. \<not> bit_in (bl_bf bl) y"
proof -
  let ?bpe = "- double_div (log_fn error) ln2_squared"
  from assms(1) obtain bits hashes where b:
    "\<not> entries < 1000" "int32_of_double (double_mult (double_of_int entries) ?bpe) = Some bits"
    "int32_of_double (of_int \<lceil>double_mult ln2 ?bpe\<rceil>) = Some hashes"
    "bl_bits bl = bits" "bl_hashes bl = hashes" "bl_ready bl = 1" "0 \<le> bl_bytes bl"
    "bl_bytes bl = (if bits smod 8 \<noteq> 0 then bits sdiv 8 + 1 else bits sdiv 8)"
    "bl_bf bl = replicate (nat (bl_bytes bl)) 0"
    unfolding bloom_init_def Let_def
    by (auto split: if_split_asm elim!: bind_SomeE)
  have bits: "0 < bits" "bits < 2 ^ 31" using assms(2) b(2,4) by (auto simp: int32_of_double_def Let_def split: if_splits)
  have "0 < ?bpe"
  proof (rule ccontr)
    assume "\<not> 0 < ?bpe"
    moreover have "0 \<le> double_of_int entries" using b(1) by (simp add: double_of_int_def double_round_sign)
    ultimately have "double_mult (double_of_int entries) ?bpe \<le> 0"
      unfolding double_mult_def by (intro double_round_sign(2) mult_nonneg_nonpos) simp_all
    then have "bits \<le> 0" using b(2) by (auto simp: int32_of_double_def int_of_double_def Let_def split: if_splits)
    with bits show False by simp
  qed
  moreover have "0 \<le> ln2" by (simp add: ln2_def double_round_sign)
  ultimately have "0 \<le> double_mult ln2 ?bpe" unfolding double_mult_def by (intro double_round_sign(1) mult_nonneg_nonneg) simp_all
  then have "0 \<le> hashes" using b(3) by (auto simp: int32_of_double_def int_of_double_def Let_def split: if_splits)
  moreover have "bits \<le> 8 * bl_bytes bl"
    using bits b(8) by (auto simp: signed_divide_int_def signed_modulo_int_def split: if_splits)
  ultimately show "bloom_ok bl" using b bits by (simp add: bloom_ok_def)
  show "\<forall>y. \<not> bit_in (bl_bf bl) y" by (simp add: bit_in_def b(9))
qed

subsection \<open>The counting filter\<close>

definition cbf_ok :: "minimalIncrementCBF \<Rightarrow> bool" where
  "cbf_ok cbf \<longleftrightarrow> cbf_ready cbf \<noteq> 0 \<and> 0 < counter_num cbf \<and> counter_num cbf < 2 ^ 31 \<and> 0 < cbf_hashes cbf
     \<and> length (cbf_bf cbf) = nat (counter_num cbf)"

abbreviation key_counters :: "'k xxh \<Rightarrow> minimalIncrementCBF \<Rightarrow> 'k \<Rightarrow> nat list" where
  "key_counters H cbf key \<equiv> positions H key (counter_num cbf) (nat (cbf_hashes cbf))"

lemma cbf_min_loop_ok:
  assumes "\<And>j. j < length xs \<Longrightarrow> hash_position H key n (i + j) = Some (xs ! j)"
    and "\<forall>x \<in> set xs. x < length bf"
  shows "cbf_min_loop H key n (length xs) i bf m = Some (fold (\<lambda>x. min (bf ! x)) xs m)"
  using assms
proof (induction xs arbitrary: i m)
  case Nil
  then show ?case by simp
next
  case (Cons x xs)
  have pos: "hash_position H key n (Suc i + j) = Some (xs ! j)" if "j < length xs" for j
    using Cons.prems(1) [of "Suc j"] that by simp
  have "(if bf ! x < m then bf ! x else m) = min (bf ! x) m" by (simp add: min_def not_less less_imp_le)
  then show ?case using Cons.prems(1) [of 0] Cons.prems(2) Cons.IH [OF pos] by (simp add: counter_def)
qed

lemma fold_min_unat:
  "unat (fold (\<lambda>x. min (bf ! x)) xs (m :: 32 word)) = Min (insert (unat m) ((\<lambda>x. unat (bf ! x)) ` set xs))"
proof (induction xs arbitrary: m)
  case Nil
  then show ?case by simp
next
  case (Cons x xs)
  have "unat (min (bf ! x) m) = min (unat (bf ! x)) (unat m)" by (simp add: min_def word_le_nat_alt)
  with Cons show ?case by (simp add: insert_commute Min_insert2 min.assoc min.commute min.left_commute)
    (cases "xs = []"; simp add: min.assoc min.commute min.left_commute)
qed

lemma cbf_add_loop_ok:
  assumes "\<And>j. j < length xs \<Longrightarrow> hash_position H key n (i + j) = Some (xs ! j)"
    and "\<forall>x \<in> set xs. x < length bf" and "\<forall>x < length bf. unat (bf ! x) + length xs < 2 ^ 32"
  shows "\<exists>bf'. cbf_add_loop H key n (length xs) i bf = Some bf' \<and> length bf' = length bf
    \<and> (\<forall>x < length bf. unat (bf' ! x) = unat (bf ! x) + count_list xs x)"
  using assms
proof (induction xs arbitrary: i bf)
  case Nil
  then show ?case by simp
next
  case (Cons x xs)
  have pos: "hash_position H key n (Suc i + j) = Some (xs ! j)" if "j < length xs" for j
    using Cons.prems(1) [of "Suc j"] that by simp
  let ?bf = "bf[x := bf ! x + 1]"
  have x: "x < length bf" using Cons.prems(2) by simp
  have "unat (bf ! x) + 1 < 2 ^ 32" using Cons.prems(3) x by fastforce
  then have "unat (bf ! x + 1) = unat (bf ! x) + 1" by (simp add: unat_word_ariths)
  then have v: "unat (?bf ! y) = unat (bf ! y) + (if y = x then 1 else 0)" if "y < length bf" for y
    using that by (simp add: nth_list_update)
  have "\<forall>x \<in> set xs. x < length ?bf" "\<forall>y < length ?bf. unat (?bf ! y) + length xs < 2 ^ 32"
    using Cons.prems(2,3) v by (auto simp: less_Suc_eq)
  from Cons.IH [OF pos this] obtain bf' where
    "cbf_add_loop H key n (length xs) (Suc i) ?bf = Some bf'" "length bf' = length bf"
    "\<forall>y < length bf. unat (bf' ! y) = unat (?bf ! y) + count_list xs y" by auto
  then show ?case using Cons.prems(1) [of 0] x v by (auto simp: counter_def)
qed

text \<open>The number of additions that fall on a counter.\<close>

definition counter_load :: "'k xxh \<Rightarrow> minimalIncrementCBF \<Rightarrow> 'k list \<Rightarrow> nat \<Rightarrow> nat" where
  "counter_load H cbf keys x = sum_list (map (\<lambda>key. count_list (key_counters H cbf key) x) keys)"

lemma counter_load_bound: "counter_load H cbf keys x \<le> length keys * nat (cbf_hashes cbf)"
proof (induction keys)
  case (Cons key keys)
  have "count_list (key_counters H cbf key) x \<le> nat (cbf_hashes cbf)"
    using count_le_length [of "key_counters H cbf key" x] by (simp add: positions_def)
  with Cons show ?case by (simp add: counter_load_def)
qed (simp add: counter_load_def)

lemma counter_load_count:
  assumes "x \<in> set (key_counters H cbf key)"
  shows "count_list keys key \<le> counter_load H cbf keys x"
proof (induction keys)
  case (Cons k keys)
  have "1 \<le> count_list (key_counters H cbf key) x"
    using assms count_list_0_iff [of "key_counters H cbf key" x] by linarith
  with Cons show ?case by (auto simp: counter_load_def)
qed (simp add: counter_load_def)

definition cbf_counts :: "'k xxh \<Rightarrow> minimalIncrementCBF \<Rightarrow> 'k list \<Rightarrow> bool" where
  "cbf_counts H cbf keys \<longleftrightarrow> cbf_ok cbf \<and> (\<forall>x < length (cbf_bf cbf). unat (cbf_bf cbf ! x) = counter_load H cbf keys x)"

lemma key_counters_in_range:
  assumes "cbf_ok cbf" and "x \<in> set (key_counters H cbf key)"
  shows "x < length (cbf_bf cbf)"
proof -
  have "int x < counter_num cbf" using positions_bound [OF _ _ assms(2)] assms(1) by (auto simp: cbf_ok_def)
  with assms(1) show ?thesis by (auto simp: cbf_ok_def)
qed

text \<open>The smallest counter of a key.\<close>

definition least_counter :: "'k xxh \<Rightarrow> minimalIncrementCBF \<Rightarrow> 'k \<Rightarrow> nat" where
  "least_counter H cbf key = Min ((\<lambda>x. unat (cbf_bf cbf ! x)) ` set (key_counters H cbf key))"

lemma key_counters_length: "length (key_counters H cbf key) = nat (cbf_hashes cbf)"
  by (simp add: positions_def)

lemma key_counters_position:
  "cbf_ok cbf \<Longrightarrow> j < length (key_counters H cbf key) \<Longrightarrow>
     hash_position H key (counter_num cbf) (0 + j) = Some (key_counters H cbf key ! j)"
  by (simp add: key_counters_length positions_upto cbf_ok_def)

lemma cbf_min_loop_least:
  assumes "cbf_ok cbf"
  shows "\<exists>m. cbf_min_loop H key (counter_num cbf) (nat (cbf_hashes cbf)) 0 (cbf_bf cbf) CBF_UINT_MAX = Some m
    \<and> unat m = least_counter H cbf key"
proof -
  let ?xs = "key_counters H cbf key"
  have ne: "?xs \<noteq> []" using assms key_counters_length [of H key cbf] by (auto simp: cbf_ok_def)
  have "cbf_min_loop H key (counter_num cbf) (length ?xs) 0 (cbf_bf cbf) CBF_UINT_MAX
      = Some (fold (\<lambda>x. min (cbf_bf cbf ! x)) ?xs CBF_UINT_MAX)"
    by (rule cbf_min_loop_ok [OF key_counters_position [OF assms]])
      (use key_counters_in_range [OF assms] in auto)
  moreover have "unat (fold (\<lambda>x. min (cbf_bf cbf ! x)) ?xs CBF_UINT_MAX) = least_counter H cbf key"
  proof -
    obtain y where y: "y \<in> set ?xs" using ne by (cases ?xs) auto
    have "unat (cbf_bf cbf ! y) \<le> unat CBF_UINT_MAX"
      by (metis CBF_UINT_MAX_def word_le_nat_alt word_order.extremum)
    moreover have "least_counter H cbf key \<le> unat (cbf_bf cbf ! y)"
      unfolding least_counter_def using y by (intro Min_le) auto
    ultimately have "least_counter H cbf key \<le> unat CBF_UINT_MAX" by linarith
    then show ?thesis using ne by (simp add: fold_min_unat least_counter_def)
  qed
  ultimately show ?thesis unfolding key_counters_length by blast
qed

lemma cbf_estimate_ok:
  assumes "cbf_ok cbf" and "least_counter H cbf key < 2 ^ 31"
  shows "minimalIncrementCBF_estimate H cbf key = Some (int (least_counter H cbf key), cbf)"
proof -
  from cbf_min_loop_least [OF assms(1), of H key] obtain m where
    m: "cbf_min_loop H key (counter_num cbf) (nat (cbf_hashes cbf)) 0 (cbf_bf cbf) CBF_UINT_MAX = Some m"
    "unat m = least_counter H cbf key" by blast
  have u: "uint m = int (least_counter H cbf key)" unfolding uint_nat m(2) ..
  then have "to_int32 (uint m) = int (least_counter H cbf key)"
    using assms(2) by (subst to_int32_id) simp_all
  with m(1) assms(1) show ?thesis
    by (simp add: minimalIncrementCBF_estimate_def minimalIncrementCBF_check_add_def cbf_ok_def)
qed

lemma least_counter_witness:
  assumes "cbf_ok cbf"
  shows "\<exists>x \<in> set (key_counters H cbf key). least_counter H cbf key = unat (cbf_bf cbf ! x)"
proof -
  have "key_counters H cbf key \<noteq> []"
    using assms key_counters_length [of H key cbf] by (auto simp: cbf_ok_def)
  then have "least_counter H cbf key \<in> (\<lambda>x. unat (cbf_bf cbf ! x)) ` set (key_counters H cbf key)"
    unfolding least_counter_def by (intro Min_in) auto
  then show ?thesis by auto
qed

lemma cbf_add_ok:
  assumes "cbf_counts H cbf keys" and "(length keys + 1) * nat (cbf_hashes cbf) < 2 ^ 31"
  shows "\<exists>r cbf'. minimalIncrementCBF_add H cbf key = Some (r, cbf') \<and> cbf_counts H cbf' (keys @ [key])
    \<and> cbf_hashes cbf' = cbf_hashes cbf \<and> counter_num cbf' = counter_num cbf"
proof -
  let ?xs = "key_counters H cbf key"
  have ok: "cbf_ok cbf" and cnt: "\<forall>x < length (cbf_bf cbf). unat (cbf_bf cbf ! x) = counter_load H cbf keys x"
    using assms(1) by (auto simp: cbf_counts_def)
  from cbf_min_loop_least [OF ok, of H key] obtain m where
    m: "cbf_min_loop H key (counter_num cbf) (nat (cbf_hashes cbf)) 0 (cbf_bf cbf) CBF_UINT_MAX = Some m"
    "unat m = least_counter H cbf key" by blast
  have small: "unat (cbf_bf cbf ! x) + length ?xs < 2 ^ 31" if "x < length (cbf_bf cbf)" for x
    using that cnt counter_load_bound [of H cbf keys x] assms(2) by (simp add: key_counters_length)
  from least_counter_witness [OF ok, of H key] obtain y where
    y: "y \<in> set ?xs" "least_counter H cbf key = unat (cbf_bf cbf ! y)" by blast
  with small [OF key_counters_in_range [OF ok y(1)]] m(2) have "unat m < 2 ^ 31" by linarith
  then have less: "m < CBF_UINT_MAX" by (simp add: word_less_nat_alt CBF_UINT_MAX_def unsigned_minus_1_eq_mask mask_eq_exp_minus_1)
  have "\<forall>x \<in> set ?xs. x < length (cbf_bf cbf)" by (intro ballI key_counters_in_range [OF ok])
  moreover have "\<forall>x < length (cbf_bf cbf). unat (cbf_bf cbf ! x) + length ?xs < 2 ^ 32"
  proof (intro allI impI)
    fix x assume "x < length (cbf_bf cbf)"
    from small [OF this] show "unat (cbf_bf cbf ! x) + length ?xs < 2 ^ 32" by (rule less_trans) simp
  qed
  ultimately have "\<exists>bf'. cbf_add_loop H key (counter_num cbf) (length ?xs) 0 (cbf_bf cbf) = Some bf'
    \<and> length bf' = length (cbf_bf cbf)
    \<and> (\<forall>x < length (cbf_bf cbf). unat (bf' ! x) = unat (cbf_bf cbf ! x) + count_list ?xs x)"
    by (rule cbf_add_loop_ok [rotated]) (rule key_counters_position [OF ok])
  then obtain bf' where
    bf: "cbf_add_loop H key (counter_num cbf) (nat (cbf_hashes cbf)) 0 (cbf_bf cbf) = Some bf'"
    "length bf' = length (cbf_bf cbf)"
    "\<forall>x < length (cbf_bf cbf). unat (bf' ! x) = unat (cbf_bf cbf ! x) + count_list ?xs x"
    unfolding key_counters_length by blast
  moreover have "counter_load H (cbf\<lparr>cbf_bf := bf'\<rparr>) ks = counter_load H cbf ks" for ks
    by (simp add: counter_load_def fun_eq_iff)
  then have "cbf_counts H (cbf\<lparr>cbf_bf := bf'\<rparr>) (keys @ [key])"
    using bf ok cnt by (simp add: cbf_counts_def cbf_ok_def) (simp add: counter_load_def)
  ultimately show ?thesis using m(1) ok less
    by (simp add: minimalIncrementCBF_add_def minimalIncrementCBF_check_add_def cbf_ok_def)
qed

fun cbf_add_all :: "'k xxh \<Rightarrow> minimalIncrementCBF \<Rightarrow> 'k list \<Rightarrow> minimalIncrementCBF option" where
  "cbf_add_all H cbf [] = Some cbf"
| "cbf_add_all H cbf (key # keys) = do {
     (r, cbf) \<leftarrow> minimalIncrementCBF_add H cbf key;
     cbf_add_all H cbf keys }"

lemma cbf_add_all_ok:
  "cbf_counts H cbf ks \<Longrightarrow> (length ks + length keys) * nat (cbf_hashes cbf) < 2 ^ 31 \<Longrightarrow>
   \<exists>cbf'. cbf_add_all H cbf keys = Some cbf' \<and> cbf_counts H cbf' (ks @ keys)
     \<and> cbf_hashes cbf' = cbf_hashes cbf \<and> counter_num cbf' = counter_num cbf"
proof (induction keys arbitrary: cbf ks)
  case Nil
  then show ?case by simp
next
  case (Cons key keys)
  have "(length ks + 1) * nat (cbf_hashes cbf) \<le> (length ks + length (key # keys)) * nat (cbf_hashes cbf)"
    by (intro mult_le_mono1) simp
  with Cons.prems(2) have "(length ks + 1) * nat (cbf_hashes cbf) < 2 ^ 31" by linarith
  from cbf_add_ok [OF Cons.prems(1) this, of key] obtain r cbf1 where
    a: "minimalIncrementCBF_add H cbf key = Some (r, cbf1)" "cbf_counts H cbf1 (ks @ [key])"
    "cbf_hashes cbf1 = cbf_hashes cbf" "counter_num cbf1 = counter_num cbf" by blast
  from Cons.IH [OF a(2)] Cons.prems(2) a show ?case by auto
qed

lemma cbf_init_ok:
  assumes "minimalIncrementCBF_init log_fn cbf0 entries error = Some (0, cbf)" and "0 < cbf_hashes cbf"
  shows "cbf_counts H cbf []"
proof -
  from assms have "0 < counter_num cbf" "counter_num cbf < 2 ^ 31" "cbf_ready cbf = 1"
    "cbf_bf cbf = replicate (nat (counter_num cbf)) 0"
    by (auto simp: minimalIncrementCBF_init_def Let_def split: if_split_asm elim!: bind_SomeE)
  with assms(2) show ?thesis by (simp add: cbf_counts_def cbf_ok_def counter_load_def)
qed

lemma cbf_decay_ok:
  assumes "cbf_ok cbf" and "least_counter H cbf key < 2 ^ 31"
  shows "\<exists>cbf'. minimalIncrementCBF_decay cbf = Some (0, cbf') \<and> cbf_ok cbf'
    \<and> minimalIncrementCBF_estimate H cbf' key = Some (int (least_counter H cbf key) div 2, cbf')"
proof -
  let ?c = "cbf\<lparr>cbf_bf := map (drop_bit 1) (cbf_bf cbf)\<rparr>"
  have ok: "cbf_ok ?c" using assms(1) by (simp add: cbf_ok_def)
  have half: "unat (cbf_bf ?c ! x) = unat (cbf_bf cbf ! x) div 2" if "x < length (cbf_bf cbf)" for x
    using that by (simp add: drop_bit_Suc unat_div)
  have "least_counter H ?c key = Min ((\<lambda>n. n div 2) ` (\<lambda>x. unat (cbf_bf cbf ! x)) ` set (key_counters H cbf key))"
    unfolding least_counter_def image_image
  proof (intro arg_cong [of _ _ Min] image_cong)
    fix x assume "x \<in> set (key_counters H cbf key)"
    from half [OF key_counters_in_range [OF assms(1) this]]
    show "unat (cbf_bf ?c ! x) = unat (cbf_bf cbf ! x) div 2" .
  qed simp
  also have "\<dots> = least_counter H cbf key div 2"
    unfolding least_counter_def
    by (rule mono_Min_commute [symmetric])
      (use assms(1) key_counters_length [of H key cbf] in \<open>auto simp: mono_def div_le_mono cbf_ok_def\<close>)
  finally have l: "least_counter H ?c key = least_counter H cbf key div 2" .
  with assms(2) have "least_counter H ?c key < 2 ^ 31" by simp
  from cbf_estimate_ok [OF ok this] l ok assms(1) show ?thesis
    by (simp add: minimalIncrementCBF_decay_def cbf_ok_def zdiv_int)
qed

section \<open>Properties\<close>

text \<open>
  C34: the Bloom filter has no false negatives.  After a successful initialisation with a positive
  number of bits, every list of keys can be added; every key of the list is then found, and a key
  that is not found was not added.  After a reset no key with a position is found.
\<close>

theorem bloom_no_false_negative:
  assumes "bloom_init log_fn bl0 entries error = Some (0, bl)" and "0 < bl_bits bl" and "0 < bl_hashes bl"
  shows "\<exists>bl'. bloom_add_all H bl keys = Some bl'
    \<and> (\<forall>key. \<exists>r. bloom_check H bl' key = Some (r, bl') \<and> (key \<in> set keys \<longrightarrow> r = 1))
    \<and> (\<forall>key. bloom_check H (snd (bloom_reset bl')) key = Some (0, snd (bloom_reset bl')))"
proof -
  note ok = bloom_init_ok [OF assms(1,2)]
  from bloom_add_all_ok [OF ok(1), of H keys] obtain bl' where
    a: "bloom_add_all H bl keys = Some bl'" "bloom_ok bl'" "bl_bits bl' = bl_bits bl"
    "bl_hashes bl' = bl_hashes bl"
    "\<forall>y. bit_in (bl_bf bl') y \<longleftrightarrow> bit_in (bl_bf bl) y \<or> (\<exists>key \<in> set keys. y \<in> key_bits H bl key)" by blast
  have "\<exists>r. bloom_check H bl' key = Some (r, bl') \<and> (key \<in> set keys \<longrightarrow> r = 1)" for key
    using a by (auto simp: bloom_check_ok [OF a(2)])
  moreover have "bloom_check H (snd (bloom_reset bl')) key = Some (0, snd (bloom_reset bl'))" for key
  proof -
    let ?r = "snd (bloom_reset bl')"
    have r: "bloom_ok ?r" "\<not> bit_in (bl_bf ?r) y" "bl_hashes ?r = bl_hashes bl" for y
      using a(2,4) by (auto simp: bloom_reset_def bloom_ok_def bit_in_def)
    have "positions H key (bl_bits ?r) (nat (bl_hashes ?r)) \<noteq> []"
      using assms(3) r(3) by (simp add: positions_def)
    then have "key_bits H ?r key \<noteq> {}" by simp
    with r(2) show ?thesis unfolding bloom_check_ok [OF r(1)] by auto
  qed
  ultimately show ?thesis using a(1) by blast
qed

definition sample_bloom :: bloom where
  "sample_bloom = \<lparr>bl_entries = 0, bl_error = 0, bl_bits = 0, bl_bytes = 0, bl_hashes = 0, bl_bpe = 0,
     bl_bf = [], bl_ready = 0\<rparr>"

lemma sample_bloom_init:
  "\<exists>bl. bloom_init (\<lambda>_. - 1) sample_bloom 1000 (1 / 4) = Some (0, bl) \<and> bl_bits bl = 2081 \<and> bl_hashes bl = 2"
proof -
  have "map_option (\<lambda>(r, bl). (r, bl_bits bl, bl_hashes bl)) (bloom_init (\<lambda>_. - 1) sample_bloom 1000 (1 / 4))
      = Some (0, 2081, 2)" by code_simp
  then show ?thesis by auto
qed

theorem bloom_no_false_negative_witness:
  "\<exists>bl bl'. bloom_init (\<lambda>_. - 1) sample_bloom 1000 (1 / 4) = Some (0, bl)
    \<and> bloom_add_all (\<lambda>key seed. key * seed) bl [3, 5] = Some bl'
    \<and> bloom_check (\<lambda>key seed. key * seed) bl' 5 = Some (1, bl')"
proof -
  from sample_bloom_init obtain bl where
    bl: "bloom_init (\<lambda>_. - 1) sample_bloom 1000 (1 / 4) = Some (0, bl)" "bl_bits bl = 2081" "bl_hashes bl = 2" by blast
  from bloom_no_false_negative [OF bl(1), of "\<lambda>key seed. key * seed" "[3, 5]"] bl(2,3)
  show ?thesis using bl(1) by (auto dest: spec [of _ 5])
qed


definition sample_cbf :: minimalIncrementCBF where
  "sample_cbf = \<lparr>cbf_entries = 0, cbf_error = 0, cbf_hashes = 0, counter_num = 0, cbf_bpe = 0, cbf_bf = [],
     cbf_ready = 0\<rparr>"


end
