(* ===== verification/Bag_Cache.thy ===== *)
theory Bag_Cache
  imports Queue_Refine
begin

text \<open>
  The steps of the algorithms that spread their objects over several queues.  \<open>bag_at v E W c xs es\<close>
  says that the objects of the cache are \<open>xs\<close>, in an order that the algorithm chooses, and that \<open>es\<close> is
  what the view \<open>v\<close> sees of them; the queues are left to the algorithm, and every step says which
  queues it keeps.
\<close>

definition bag_at ::
    "(cache_obj \<Rightarrow> obj_id_t \<times> 'x) \<Rightarrow> env \<Rightarrow> trace_ids \<Rightarrow> ('a, 'f, 'p) cache_t \<Rightarrow> addr list \<Rightarrow> 'x queue \<Rightarrow> bool" where
  "bag_at v E W c xs es \<longleftrightarrow> spread E W \<and> \<not> support_ttl E \<and> cache_ok E W c (set xs) \<and> distinct xs
     \<and> es = views v (store c) xs"

lemma bag_at_fields [simp]:
  "bag_at v E W (c\<lparr>n_req := n\<rparr>) xs es = bag_at v E W c xs es"
  "bag_at v E W (c\<lparr>admissioner := ad\<rparr>) xs es = bag_at v E W c xs es"
  "bag_at v E W (c\<lparr>eviction_params := p\<rparr>) xs es = bag_at v E W c xs es"
  by (simp_all add: bag_at_def)

lemma bag_at_empty:
  "spread E W \<Longrightarrow> \<not> support_ttl E \<Longrightarrow> cache_ok E W c {} \<Longrightarrow> bag_at v E W c [] []"
  by (simp add: bag_at_def)

lemma bag_at_dom: "bag_at v E W c xs es \<Longrightarrow> dom (store c) = set xs"
  by (auto simp: bag_at_def dest: cache_okD(2))

lemma bag_at_live: "bag_at v E W c xs es \<Longrightarrow> a \<in> set xs \<Longrightarrow> \<exists>ob. store c a = Some ob"
  using bag_at_dom by fastforce

text \<open>Another order of the same objects, and a change of the store that keeps the table's fields.\<close>

lemma bag_at_store:
  assumes "bag_at v E W c xs es" and "same_core (store c) h" and "set ys = set xs" and "distinct ys"
  shows "bag_at v E W (c\<lparr>store := h\<rparr>) ys (views v h ys)"
  using assms cache_ok_store [OF _ assms(2), of E W "set xs"] by (simp add: bag_at_def)

context object_view
begin

lemma bag_at_facts:
  assumes "bag_at v E W c xs es"
  shows "distinct (map fst es)" "fst ` set es = ids_in (store c) (set xs)" "resident c = fst ` set es"
    "occupied_byte c = view_bytes sz (obj_md_size c) es" "n_obj c = int (length es)"
proof -
  have x: "cache_ok E W c (set xs)" "es = views v (store c) xs" "distinct xs" using assms by (auto simp: bag_at_def)
  have "inj_on (\<lambda>a. obj_id (the (store c a))) (set xs)"
    using cache_ok_ids_inj [OF x(1)] by (auto intro: inj_onI)
  then show "distinct (map fst es)" using x(3) by (simp only: x(2) views_ids distinct_map)
  show ids: "fst ` set es = ids_in (store c) (set xs)" by (simp only: x(2) views_ids)
  then show "resident c = fst ` set es" by (simp add: cache_ok_resident [OF x(1)])
  show "occupied_byte c = view_bytes sz (obj_md_size c) es" "n_obj c = int (length es)"
    using cache_okD(4,5) [OF x(1)] x(2,3)
    by (simp_all add: view_bytes_def sum_list_distinct_conv_sum_set distinct_card obj_bytes_def
        view_size comp_def)
qed

lemma bag_object:
  assumes "bag_at v E W c xs es" and "i \<in> fst ` set es"
  obtains us a vs ob where "xs = us @ a # vs" "store c a = Some ob" "obj_id ob = i"
    "es = views v (store c) us @ v ob # views v (store c) vs" "i \<notin> fst ` set (views v (store c) us)"
    "i \<notin> fst ` set (views v (store c) vs)"
proof -
  from assms(2) bag_at_facts(2) [OF assms(1)] obtain a where a: "a \<in> set xs" "obj_id (the (store c a)) = i"
    by (auto elim: ids_inE)
  from bag_at_live [OF assms(1) a(1)] obtain ob where ob: "store c a = Some ob" by blast
  from a(1) obtain us vs where xs: "xs = us @ a # vs" by (auto dest: split_list)
  have es: "es = views v (store c) us @ v ob # views v (store c) vs"
    using assms(1) ob by (simp add: bag_at_def xs)
  have "fst (v ob) = i" using a(2) ob by (simp add: view_id)
  with bag_at_facts(1) [OF assms(1)] show ?thesis
    by (intro that [OF xs ob _ es]) (use a(2) ob in \<open>auto simp: es\<close>)
qed

lemma bag_lookup:
  assumes "bag_at v E W c xs es"
  shows "i \<notin> fst ` set es \<Longrightarrow> chained_hashtable_find_obj_id_v2 E (store c) (hashtable c) i = Some NULL"
    and "store c a = Some ob \<Longrightarrow> chained_hashtable_find_obj_id_v2 E (store c) (hashtable c) (obj_id ob) = Some (Some a)"
proof -
  have ok: "table_ok E W (store c) (hashtable c) (set xs)" using assms by (auto simp: bag_at_def dest: cache_okD(1))
  show "i \<notin> fst ` set es \<Longrightarrow> chained_hashtable_find_obj_id_v2 E (store c) (hashtable c) i = Some NULL"
    by (rule find_miss [OF ok]) (use bag_at_facts(2) [OF assms] in \<open>auto simp: ids_in_def\<close>)
  show "store c a = Some ob \<Longrightarrow> chained_hashtable_find_obj_id_v2 E (store c) (hashtable c) (obj_id ob) = Some (Some a)"
    by (rule find_hit [OF ok]) (use bag_at_dom [OF assms] in auto)
qed

lemma bag_find:
  assumes "bag_at v E W c xs es"
  shows "req_obj_id req \<notin> fst ` set es \<Longrightarrow> cache_find_base E None rm c req u = Some (c, NULL)"
    and "store c a = Some ob \<Longrightarrow> obj_id ob = req_obj_id req \<Longrightarrow> cache_find_base E None rm c req u
      = Some (if u then c\<lparr>store := (store c)(a \<mapsto> touched req ob)\<rparr> else c, Some a)"
proof -
  have x: "cache_ok E W c (set xs)" "\<not> support_ttl E" using assms by (auto simp: bag_at_def)
  show "cache_find_base E None rm c req u = Some (c, NULL)" if "req_obj_id req \<notin> fst ` set es"
    by (rule find_base_miss [OF x(1)]) (use that bag_at_facts(2) [OF assms] in simp)
  show "cache_find_base E None rm c req u = Some (if u then c\<lparr>store := (store c)(a \<mapsto> touched req ob)\<rparr> else c, Some a)"
    if "store c a = Some ob" "obj_id ob = req_obj_id req"
    by (rule find_base_hit [OF x(1) that]) (simp add: expired_def x(2))
qed

lemma bag_insert:
  assumes "bag_at v E W c xs es" and "req_obj_id req \<in> fst W" and "req_obj_id req \<notin> fst ` set es"
  shows "\<exists>h ht ob. cache_insert_base E c req = Some (grown c h ht (req_obj_size req), Some (brk c))
    \<and> bag_at v E W (grown c h ht (req_obj_size req)) (xs @ [brk c]) (es @ [v (inserted_obj E c req)])
    \<and> brk c \<notin> set xs \<and> (\<forall>qh qt ys. dll (store c) qh qt ys \<longrightarrow> dll h qh qt ys)
    \<and> same_payload (set xs) (store c) h \<and> h (brk c) = Some ob \<and> payload ob = inserted_obj E c req"
proof -
  have x: "spread E W" "\<not> support_ttl E" "cache_ok E W c (set xs)" "distinct xs" "es = views v (store c) xs"
    using assms(1) by (auto simp: bag_at_def)
  have "req_obj_id req \<notin> ids_in (store c) (set xs)" using assms(3) bag_at_facts(2) [OF assms(1)] by simp
  from insert_base_queues [OF x(3) assms(2) this] obtain h ht ob where
    i: "cache_insert_base E c req = Some (grown c h ht (req_obj_size req), Some (brk c))"
    "cache_ok E W (grown c h ht (req_obj_size req)) (insert (brk c) (set xs))"
    "\<forall>qh qt xs. dll (store c) qh qt xs \<longrightarrow> dll h qh qt xs" "same_payload (set xs) (store c) h"
    "h (brk c) = Some ob" "payload ob = inserted_obj E c req" by blast
  have new: "brk c \<notin> set xs" by (rule cache_okD(8) [OF x(3)])
  have "views v h xs = es"
    using same_payload_views [OF i(4), of xs] x(5) bag_at_dom [OF assms(1)] by simp
  moreover have "v ob = v (inserted_obj E c req)" using i(6) view_payload [of ob] by simp
  ultimately have "bag_at v E W (grown c h ht (req_obj_size req)) (xs @ [brk c]) (es @ [v (inserted_obj E c req)])"
    unfolding bag_at_def using x(1,2,4) i(2,5) new by simp
  with i new show ?thesis by blast
qed

lemma bag_remove:
  assumes "bag_at v E W c (us @ a # vs) es" and "store c a = Some ob"
  shows "\<exists>h ht. cache_remove_obj_base E c (Some a) True = Some (shrunk c h ht (obj_size ob))
    \<and> bag_at v E W (shrunk c h ht (obj_size ob)) (us @ vs) (queue_delete (obj_id ob) es)
    \<and> (\<forall>qh qt ys. dll (store c) qh qt ys \<longrightarrow> a \<notin> set ys \<longrightarrow> dll h qh qt ys)
    \<and> same_payload (set (us @ vs)) (store c) h"
proof -
  have x: "spread E W" "\<not> support_ttl E" "cache_ok E W c (set (us @ a # vs))" "distinct (us @ a # vs)"
    "es = views v (store c) us @ v ob # views v (store c) vs" using assms by (auto simp: bag_at_def)
  have eq: "set (us @ a # vs) - {a} = set (us @ vs)" using x(4) by auto
  from remove_obj_base_queues [OF x(1,3) assms(2)] obtain h ht where
    r: "cache_remove_obj_base E c (Some a) True = Some (shrunk c h ht (obj_size ob))"
    "cache_ok E W (shrunk c h ht (obj_size ob)) (set (us @ vs))"
    "\<forall>qh qt xs. dll (store c) qh qt xs \<longrightarrow> a \<notin> set xs \<longrightarrow> dll h qh qt xs"
    "same_payload (set (us @ vs)) (store c) h" unfolding eq by blast
  have "views v h (us @ vs) = views v (store c) (us @ vs)"
    by (rule same_payload_views [OF r(4)]) (use bag_at_dom [OF assms(1)] in auto)
  moreover have "queue_delete (obj_id ob) es = views v (store c) (us @ vs)"
    using queue_delete_split [OF bag_at_facts(1) [OF assms(1), unfolded x(5)]] by (simp add: x(5) view_id)
  ultimately have "bag_at v E W (shrunk c h ht (obj_size ob)) (us @ vs) (queue_delete (obj_id ob) es)"
    unfolding bag_at_def using x(1,2,4) r(2) by simp
  with r show ?thesis by blast
qed

end

end
