(* ===== verification/LFU.thy ===== *)
theory LFU
  imports Bag_Cache GLib
begin

text \<open>
  The LFU cache (\<open>cache/eviction/LFU.c\<close>): one queue for each frequency, reached through a hash table of
  GLib from the frequency to its node, with the least frequency cached in \<open>min_freq\<close>.

  The abstract state is one list of the objects with their sizes and counts, the object whose count
  changed last at the end; an eviction takes the first object with the least count.
\<close>

section \<open>Model\<close>

text \<open>
  The nodes live in a store of their own; a node pointer is a number and 0 is \<open>NULL\<close>.  The keys of the
  table are the frequencies, which do not overflow.
\<close>

record freq_node_t =
  fn_freq :: int
  first_obj :: ptr
  last_obj :: ptr
  fn_n_obj :: int

record 't LFU_params_t =
  freq_one_node :: int
  freq_map :: 't
  min_freq :: int
  LFU_max_freq :: int
  freq_nodes :: "int \<rightharpoonup> freq_node_t"
  fn_brk :: int

type_synonym ('a, 'f, 't) lfu_cache = "('a, 'f, 't LFU_params_t) cache_t"

definition node_at :: "'t LFU_params_t \<Rightarrow> int \<Rightarrow> freq_node_t option" where
  "node_at params p = (if p = 0 then None else freq_nodes params p)"

definition LFU_init ::
    "('t, int) ghash \<Rightarrow> 'f \<Rightarrow> common_cache_params_t \<Rightarrow> string option \<Rightarrow> ('a, 'f, 't) lfu_cache" where
  "LFU_init G pf0 ccache_params cache_specific_params =
    (cache_struct_init ''LFU'' ccache_params cache_specific_params pf0
       \<lparr>freq_one_node = 1, freq_map = g_insert G (g_new G) 1 1, min_freq = 1, LFU_max_freq = 1,
        freq_nodes = [1 \<mapsto> \<lparr>fn_freq = 1, first_obj = NULL, last_obj = NULL, fn_n_obj = 0\<rparr>], fn_brk = 2\<rparr>)
     \<lparr>obj_md_size := (if ccp_consider_obj_metadata ccache_params then 8 * 2 else 0)\<rparr>"

function update_min_loop ::
    "('t, int) ghash \<Rightarrow> int \<Rightarrow> 't LFU_params_t \<Rightarrow> 't LFU_params_t option" where
  "update_min_loop G f params =
    (if f > LFU_max_freq params then Some params
     else do {
       let node = g_lookup G (freq_map params) f;
       found \<leftarrow> (if node \<noteq> 0 then map_option (\<lambda>nd. fn_n_obj nd > 0) (node_at params node) else Some False);
       if found then Some (params\<lparr>min_freq := f\<rparr>) else update_min_loop G (f + 1) params })"
  by pat_completeness auto
termination
  by (relation "measure (\<lambda>(G, f, params). nat (LFU_max_freq params + 1 - f))") auto

declare update_min_loop.simps [simp del]

definition update_min_freq :: "('t, int) ghash \<Rightarrow> 't LFU_params_t \<Rightarrow> 't LFU_params_t option" where
  "update_min_freq G params = update_min_loop G (min_freq params + 1) params"

definition get_min_freq_node ::
    "('t, int) ghash \<Rightarrow> 't LFU_params_t \<Rightarrow> ('t LFU_params_t \<times> int) option" where
  "get_min_freq_node G params =
    (if min_freq params = 1 then Some (params, freq_one_node params)
     else do {
       params \<leftarrow> (if min_freq params = 0 then update_min_freq G params else Some params);
       Some (params, g_lookup G (freq_map params) (min_freq params)) })"

definition LFU_remove_obj ::
    "env \<Rightarrow> ('t, int) ghash \<Rightarrow> ('a, 'f, 't) lfu_cache \<Rightarrow> ptr \<Rightarrow> ('a, 'f, 't) lfu_cache option" where
  "LFU_remove_obj E G c obj =
    (if obj = NULL then None
     else do {
       let params = eviction_params c;
       ob \<leftarrow> deref (store c) obj;
       let node = g_lookup G (freq_map params) (lfu_freq ob);
       nd \<leftarrow> node_at params node;
       (h, fo, lo) \<leftarrow> remove_obj_from_list (store c) (first_obj nd) (last_obj nd) obj;
       let nd = nd\<lparr>fn_n_obj := fn_n_obj nd - 1, first_obj := fo, last_obj := lo\<rparr>;
       let params = params\<lparr>freq_nodes := (freq_nodes params)(node \<mapsto> nd)\<rparr>;
       c \<leftarrow> cache_remove_obj_base E (c\<lparr>store := h, eviction_params := params\<rparr>) obj True;
       params \<leftarrow> (if fn_freq nd = min_freq params \<and> fn_n_obj nd = 0 then update_min_freq G params else Some params);
       Some (c\<lparr>eviction_params := params\<rparr>) })"

definition LFU_remove ::
    "env \<Rightarrow> ('t, int) ghash \<Rightarrow> ('a, 'f, 't) lfu_cache \<Rightarrow> obj_id_t \<Rightarrow>
     (('a, 'f, 't) lfu_cache \<times> bool) option" where
  "LFU_remove E G c i = do {
     obj \<leftarrow> chained_hashtable_find_obj_id_v2 E (store c) (hashtable c) i;
     if obj = NULL then Some (c, False)
     else do {
       c \<leftarrow> LFU_remove_obj E G c obj;
       Some (c, True) } }"

text \<open>The node of a frequency, allocated when there is none.\<close>

definition new_freq_node :: "('t, int) ghash \<Rightarrow> 't LFU_params_t \<Rightarrow> int \<Rightarrow> int \<times> 't LFU_params_t" where
  "new_freq_node G params f =
    (let new_node = g_lookup G (freq_map params) f in
     if new_node = 0
     then (fn_brk params, params\<lparr>freq_nodes := (freq_nodes params)(fn_brk params \<mapsto>
             \<lparr>fn_freq = f, first_obj = NULL, last_obj = NULL, fn_n_obj = 0\<rparr>),
           freq_map := g_insert G (freq_map params) f (fn_brk params), fn_brk := fn_brk params + 1\<rparr>)
     else (new_node, params))"

text \<open>The end of the move: the old node, when it is left empty.\<close>

definition promote_end ::
    "('t, int) ghash \<Rightarrow> 't LFU_params_t \<Rightarrow> int \<Rightarrow> freq_node_t \<Rightarrow> int \<Rightarrow> 't LFU_params_t option" where
  "promote_end G params old_node nd f =
    (if fn_n_obj nd = 0 then do {
       params \<leftarrow> (if min_freq params = fn_freq nd then update_min_freq G params else Some params);
       Some (if fn_freq nd \<noteq> 1
             then params\<lparr>freq_map := g_remove G (freq_map params) (f - 1),
                         freq_nodes := (freq_nodes params)(old_node := None)\<rparr>
             else params) }
     else Some params)"

text \<open>The move of an object whose count was raised to \<open>f\<close>, from the node of \<open>f - 1\<close> to the node of \<open>f\<close>.\<close>

definition LFU_promote ::
    "('t, int) ghash \<Rightarrow> heap \<Rightarrow> 't LFU_params_t \<Rightarrow> ptr \<Rightarrow> int \<Rightarrow> (heap \<times> 't LFU_params_t) option" where
  "LFU_promote G h params obj f = do {
     let old_node = g_lookup G (freq_map params) (f - 1);
     nd \<leftarrow> node_at params old_node;
     (h, fo, lo) \<leftarrow> remove_obj_from_list h (first_obj nd) (last_obj nd) obj;
     let params = params\<lparr>freq_nodes := (freq_nodes params)(old_node \<mapsto>
           nd\<lparr>fn_n_obj := fn_n_obj nd - 1, first_obj := fo, last_obj := lo\<rparr>)\<rparr>;
     let (new_node, params) = new_freq_node G params f;
     nd \<leftarrow> node_at params new_node;
     (h, fo, lo) \<leftarrow> append_obj_to_tail h (first_obj nd) (last_obj nd) obj;
     let params = params\<lparr>freq_nodes := (freq_nodes params)(new_node \<mapsto>
           nd\<lparr>first_obj := fo, last_obj := lo, fn_n_obj := fn_n_obj nd + 1\<rparr>)\<rparr>;
     nd \<leftarrow> node_at params old_node;
     params \<leftarrow> promote_end G params old_node nd f;
     Some (h, params) }"

definition LFU_find ::
    "env \<Rightarrow> ('t, int) ghash \<Rightarrow> ('a, 'f, 't) lfu_cache prefetcher_t option \<Rightarrow> ('a, 'f, 't) lfu_cache \<Rightarrow>
     request \<Rightarrow> bool \<Rightarrow> (('a, 'f, 't) lfu_cache \<times> ptr) option" where
  "LFU_find E G pf c req update_cache = do {
     (c, cache_obj) \<leftarrow> cache_find_base E pf (LFU_remove E G) c req update_cache;
     if cache_obj \<noteq> NULL \<and> update_cache then do {
       h \<leftarrow> upd_obj (store c) cache_obj (\<lambda>ob. ob\<lparr>lfu_freq := lfu_freq ob + 1\<rparr>);
       ob \<leftarrow> deref h cache_obj;
       let params = eviction_params c;
       let params = (if LFU_max_freq params < lfu_freq ob then params\<lparr>LFU_max_freq := lfu_freq ob\<rparr> else params);
       (h, params) \<leftarrow> LFU_promote G h params cache_obj (lfu_freq ob);
       Some (c\<lparr>store := h, eviction_params := params\<rparr>, cache_obj) }
     else Some (c, cache_obj) }"

definition LFU_insert ::
    "env \<Rightarrow> ('a, 'f, 't) lfu_cache \<Rightarrow> request \<Rightarrow> (('a, 'f, 't) lfu_cache \<times> ptr) option" where
  "LFU_insert E c req = do {
     let c = c\<lparr>eviction_params := (eviction_params c)\<lparr>min_freq := 1\<rparr>\<rparr>;
     (c, cache_obj) \<leftarrow> cache_insert_base E c req;
     h \<leftarrow> upd_obj (store c) cache_obj (\<lambda>ob. ob\<lparr>lfu_freq := 1\<rparr>);
     let params = eviction_params c;
     nd \<leftarrow> node_at params (freq_one_node params);
     (h, fo, lo) \<leftarrow> append_obj_to_tail h (first_obj nd) (last_obj nd) cache_obj;
     let params = params\<lparr>freq_nodes := (freq_nodes params)(freq_one_node params \<mapsto>
           nd\<lparr>fn_n_obj := fn_n_obj nd + 1, first_obj := fo, last_obj := lo\<rparr>)\<rparr>;
     Some (c\<lparr>store := h, eviction_params := params\<rparr>, cache_obj) }"

definition LFU_to_evict ::
    "('t, int) ghash \<Rightarrow> ('a, 'f, 't) lfu_cache \<Rightarrow> request \<Rightarrow> (('a, 'f, 't) lfu_cache \<times> ptr) option" where
  "LFU_to_evict G c req = do {
     (params, node) \<leftarrow> get_min_freq_node G (eviction_params c);
     nd \<leftarrow> node_at params node;
     Some (c\<lparr>eviction_params := params\<rparr>, first_obj nd) }"

definition LFU_evict ::
    "env \<Rightarrow> ('t, int) ghash \<Rightarrow> ('a, 'f, 't) lfu_cache prefetcher_t option \<Rightarrow> ('a, 'f, 't) lfu_cache \<Rightarrow>
     request \<Rightarrow> ('a, 'f, 't) lfu_cache option" where
  "LFU_evict E G pf c req = do {
     (params, node) \<leftarrow> get_min_freq_node G (eviction_params c);
     nd \<leftarrow> node_at params node;
     let obj_to_evict = first_obj nd;
     (h, fo, lo) \<leftarrow> remove_obj_from_list (store c) (first_obj nd) (last_obj nd) obj_to_evict;
     let nd = nd\<lparr>fn_n_obj := fn_n_obj nd - 1, first_obj := fo, last_obj := lo\<rparr>;
     let params = params\<lparr>freq_nodes := (freq_nodes params)(node \<mapsto> nd)\<rparr>;
     let params = (if fn_n_obj nd = 0 then params\<lparr>min_freq := 0\<rparr> else params);
     cache_evict_base E pf (c\<lparr>store := h, eviction_params := params\<rparr>) obj_to_evict True }"

definition LFU_ops ::
    "env \<Rightarrow> ('t, int) ghash \<Rightarrow> ('a, 'f, 't) lfu_cache prefetcher_t option \<Rightarrow>
     ('a, 'f, 't) lfu_cache cache_ops" where
  "LFU_ops E G pf = \<lparr>op_find = LFU_find E G pf, op_can_insert = cache_can_insert_default,
     op_insert = LFU_insert E, op_evict = LFU_evict E G pf, op_remove = LFU_remove E G,
     op_to_evict = LFU_to_evict G, op_get_occupied_byte = cache_get_occupied_byte_default,
     op_get_n_obj = cache_get_n_obj_default\<rparr>"

definition LFU_get ::
    "env \<Rightarrow> ('t, int) ghash \<Rightarrow> ('a, 'f, 't) lfu_cache prefetcher_t option \<Rightarrow> ('a, 'f, 't) lfu_cache \<Rightarrow>
     request \<Rightarrow> (('a, 'f, 't) lfu_cache \<times> bool) option" where
  "LFU_get E G pf c req = cache_get_base (LFU_ops E G pf) pf c req"

section \<open>Levels\<close>

text \<open>
  \<open>L f\<close> is the queue of the objects of frequency \<open>f\<close>: the node of \<open>f\<close> describes it, and a frequency without
  a node has none.
\<close>

definition node_ok :: "heap \<Rightarrow> freq_node_t \<Rightarrow> int \<Rightarrow> addr list \<Rightarrow> bool" where
  "node_ok h nd f xs \<longleftrightarrow> fn_freq nd = f \<and> fn_n_obj nd = int (length xs) \<and> dll h (first_obj nd) (last_obj nd) xs"

definition level_ok :: "('t, int) ghash \<Rightarrow> heap \<Rightarrow> 't LFU_params_t \<Rightarrow> int \<Rightarrow> addr list \<Rightarrow> bool" where
  "level_ok G h P f xs \<longleftrightarrow> (if g_lookup G (freq_map P) f = 0 then xs = []
     else \<exists>nd. freq_nodes P (g_lookup G (freq_map P) f) = Some nd \<and> node_ok h nd f xs)"

definition levels_ok :: "('t, int) ghash \<Rightarrow> heap \<Rightarrow> 't LFU_params_t \<Rightarrow> (int \<Rightarrow> addr list) \<Rightarrow> bool" where
  "levels_ok G h P L \<longleftrightarrow> ghash_ok G \<and> (\<forall>f. level_ok G h P f (L f))
     \<and> g_lookup G (freq_map P) 1 = freq_one_node P \<and> freq_one_node P \<noteq> 0
     \<and> (\<forall>p \<in> dom (freq_nodes P). p < fn_brk P) \<and> 0 < fn_brk P
     \<and> (\<forall>f f'. f \<noteq> f' \<longrightarrow> set (L f) \<inter> set (L f') = {})"

lemma levels_node:
  assumes "levels_ok G h P L" and "g_lookup G (freq_map P) f \<noteq> 0"
  obtains nd where "node_at P (g_lookup G (freq_map P) f) = Some nd" "node_ok h nd f (L f)"
    "freq_nodes P (g_lookup G (freq_map P) f) = Some nd"
  using assms unfolding levels_ok_def level_ok_def node_at_def by (metis (no_types, lifting))

lemma levels_lookup: "levels_ok G h P L \<Longrightarrow> L f \<noteq> [] \<Longrightarrow> g_lookup G (freq_map P) f \<noteq> 0"
  unfolding levels_ok_def level_ok_def by (metis (no_types, lifting))

lemma levels_lookup_inj:
  assumes "levels_ok G h P L" and "g_lookup G (freq_map P) f = g_lookup G (freq_map P) f'"
    and "g_lookup G (freq_map P) f \<noteq> 0"
  shows "f = f'"
proof -
  obtain nd nd' where "freq_nodes P (g_lookup G (freq_map P) f) = Some nd" "node_ok h nd f (L f)"
    "freq_nodes P (g_lookup G (freq_map P) f') = Some nd'" "node_ok h nd' f' (L f')"
    using levels_node [OF assms(1), of f] levels_node [OF assms(1), of f'] assms(2,3) by metis
  then show ?thesis using assms(2) by (simp add: node_ok_def)
qed

lemma levels_fields [simp]:
  "levels_ok G h (P\<lparr>min_freq := m\<rparr>) L = levels_ok G h P L"
  "levels_ok G h (P\<lparr>LFU_max_freq := m\<rparr>) L = levels_ok G h P L"
  by (simp_all add: levels_ok_def level_ok_def)

text \<open>A change of the store that keeps the queues.\<close>

lemma levels_store:
  assumes "levels_ok G h P L" and "\<And>f qh qt. dll h qh qt (L f) \<Longrightarrow> dll h' qh qt (L f)"
  shows "levels_ok G h' P L"
  using assms unfolding levels_ok_def level_ok_def node_ok_def by (metis (no_types, lifting))

text \<open>A change of one level.\<close>

lemma levels_update:
  assumes "levels_ok G h P L" and "g_lookup G (freq_map P) f \<noteq> 0" and "node_ok h' nd f xs"
    and "\<And>f' qh qt. f' \<noteq> f \<Longrightarrow> dll h qh qt (L f') \<Longrightarrow> dll h' qh qt (L f')"
    and "\<And>f'. f' \<noteq> f \<Longrightarrow> set xs \<inter> set (L f') = {}"
  shows "levels_ok G h' (P\<lparr>freq_nodes := (freq_nodes P)(g_lookup G (freq_map P) f \<mapsto> nd)\<rparr>) (L(f := xs))"
proof -
  let ?p = "g_lookup G (freq_map P)"
  have inj: "?p f' \<noteq> ?p f" if "f' \<noteq> f" for f' using levels_lookup_inj [OF assms(1) _ assms(2), of f'] that by metis
  have "level_ok G h' (P\<lparr>freq_nodes := (freq_nodes P)(?p f \<mapsto> nd)\<rparr>) f' ((L(f := xs)) f')" for f'
  proof (cases "f' = f")
    case True
    then show ?thesis using assms(2,3) by (simp add: level_ok_def)
  next
    case False
    have "level_ok G h P f' (L f')" using assms(1) by (simp add: levels_ok_def)
    with False assms(4) [OF False] inj [OF False] show ?thesis by (auto simp: level_ok_def node_ok_def)
  qed
  moreover have "?p f \<in> dom (freq_nodes P)" using levels_node [OF assms(1,2)] by blast
  moreover have "set ((L(f := xs)) f1) \<inter> set ((L(f := xs)) f2) = {}" if "f1 \<noteq> f2" for f1 f2
    using assms(1,5) that by (cases "f1 = f"; cases "f2 = f") (auto simp: levels_ok_def)
  ultimately show ?thesis using assms(1) unfolding levels_ok_def by simp
qed

lemma levels_disjoint: "levels_ok G h P L \<Longrightarrow> f \<noteq> f' \<Longrightarrow> set (L f) \<inter> set (L f') = {}"
  by (simp add: levels_ok_def)

lemma levels_remove:
  assumes "levels_ok G h P L" and "L f = us @ a # vs"
  shows "\<exists>nd h' fo lo. node_at P (g_lookup G (freq_map P) f) = Some nd \<and> node_ok h nd f (L f)
    \<and> remove_obj_from_list h (first_obj nd) (last_obj nd) (Some a) = Some (h', fo, lo)
    \<and> levels_ok G h' (P\<lparr>freq_nodes := (freq_nodes P)(g_lookup G (freq_map P) f \<mapsto>
        nd\<lparr>fn_n_obj := fn_n_obj nd - 1, first_obj := fo, last_obj := lo\<rparr>)\<rparr>) (L(f := us @ vs))
    \<and> qframe (set (L f)) h h'"
proof -
  have p: "g_lookup G (freq_map P) f \<noteq> 0" by (rule levels_lookup [OF assms(1)]) (simp add: assms(2))
  from levels_node [OF assms(1) p] obtain nd where
    nd: "node_at P (g_lookup G (freq_map P) f) = Some nd" "node_ok h nd f (L f)" by blast
  have "dll h (first_obj nd) (last_obj nd) (us @ a # vs)" using nd(2) assms(2) by (simp add: node_ok_def)
  from remove_obj_from_list_dll [OF this] obtain h' fo lo where
    r: "remove_obj_from_list h (first_obj nd) (last_obj nd) (Some a) = Some (h', fo, lo)"
    "dll h' fo lo (us @ vs)" "qframe (set (L f)) h h'" unfolding assms(2) by blast
  have "node_ok h' (nd\<lparr>fn_n_obj := fn_n_obj nd - 1, first_obj := fo, last_obj := lo\<rparr>) f (us @ vs)"
    using nd(2) r(2) assms(2) by (simp add: node_ok_def)
  moreover have "dll h' qh qt (L f')" if "f' \<noteq> f" "dll h qh qt (L f')" for f' qh qt
    using qframe_dll_other [OF r(3) _ that(2)] levels_disjoint [OF assms(1), of f f'] that(1) by blast
  moreover have "set (us @ vs) \<inter> set (L f') = {}" if "f' \<noteq> f" for f'
    using levels_disjoint [OF assms(1), of f f'] that assms(2) by auto
  ultimately show ?thesis using levels_update [OF assms(1) p] nd r(1,3) by blast
qed

lemma levels_append:
  assumes "levels_ok G h P L" and "g_lookup G (freq_map P) f \<noteq> 0" and "h a = Some ob"
    and "\<And>f'. a \<notin> set (L f')"
  shows "\<exists>nd h' fo lo. node_at P (g_lookup G (freq_map P) f) = Some nd
    \<and> append_obj_to_tail h (first_obj nd) (last_obj nd) (Some a) = Some (h', fo, lo)
    \<and> levels_ok G h' (P\<lparr>freq_nodes := (freq_nodes P)(g_lookup G (freq_map P) f \<mapsto>
        nd\<lparr>first_obj := fo, last_obj := lo, fn_n_obj := fn_n_obj nd + 1\<rparr>)\<rparr>) (L(f := L f @ [a]))
    \<and> qframe (set (a # L f)) h h'"
proof -
  from levels_node [OF assms(1,2)] obtain nd where
    nd: "node_at P (g_lookup G (freq_map P) f) = Some nd" "node_ok h nd f (L f)" by blast
  have "dll h (first_obj nd) (last_obj nd) (L f)" using nd(2) by (simp add: node_ok_def)
  from append_obj_to_tail_dll [OF this assms(3,4)] obtain h' fo lo where
    r: "append_obj_to_tail h (first_obj nd) (last_obj nd) (Some a) = Some (h', fo, lo)"
    "dll h' fo lo (L f @ [a])" "qframe (set (a # L f)) h h'" by blast
  have "node_ok h' (nd\<lparr>first_obj := fo, last_obj := lo, fn_n_obj := fn_n_obj nd + 1\<rparr>) f (L f @ [a])"
    using nd(2) r(2) by (simp add: node_ok_def)
  moreover have "dll h' qh qt (L f')" if "f' \<noteq> f" "dll h qh qt (L f')" for f' qh qt
    using qframe_dll_other [OF r(3) _ that(2)] levels_disjoint [OF assms(1), of f f'] that(1) assms(4) by auto
  moreover have "set (L f @ [a]) \<inter> set (L f') = {}" if "f' \<noteq> f" for f'
    using levels_disjoint [OF assms(1), of f f'] that assms(4) by auto
  ultimately show ?thesis using levels_update [OF assms(1,2)] nd(1) r(1,3) by blast
qed

text \<open>A new node for a frequency that has none, and the removal of an empty one.\<close>

lemma levels_new_node:
  assumes "levels_ok G h P L" and "g_lookup G (freq_map P) f = 0"
  shows "levels_ok G h (P\<lparr>freq_nodes := (freq_nodes P)(fn_brk P \<mapsto>
        \<lparr>fn_freq = f, first_obj = NULL, last_obj = NULL, fn_n_obj = 0\<rparr>),
      freq_map := g_insert G (freq_map P) f (fn_brk P), fn_brk := fn_brk P + 1\<rparr>) L" (is "levels_ok G h ?P L")
proof -
  have G: "ghash_ok G" and brk: "\<forall>p \<in> dom (freq_nodes P). p < fn_brk P" "0 < fn_brk P"
    and lev: "\<And>f. level_ok G h P f (L f)" using assms(1) by (auto simp: levels_ok_def)
  have "level_ok G h ?P f' (L f')" for f'
  proof (cases "f' = f")
    case True
    with lev [of f] assms(2) brk(2) G show ?thesis by (simp add: level_ok_def g_lookup_simps node_ok_def)
  next
    case False
    have "freq_nodes P (fn_brk P) = None" using brk(1) by blast
    with False lev [of f'] G show ?thesis by (auto simp: level_ok_def g_lookup_simps)
  qed
  moreover have "f \<noteq> 1" using assms by (auto simp: levels_ok_def)
  moreover have "p < fn_brk P + 1" if "p \<in> insert (fn_brk P) (dom (freq_nodes P))" for p
    using that bspec [OF brk(1), of p] by (cases "p = fn_brk P") auto
  ultimately show ?thesis using assms(1) G brk(2) by (simp add: levels_ok_def g_lookup_simps)
qed

lemma levels_drop_node:
  assumes "levels_ok G h P L" and "L f = []" and "f \<noteq> 1" and "g_lookup G (freq_map P) f \<noteq> 0"
  shows "levels_ok G h (P\<lparr>freq_map := g_remove G (freq_map P) f,
      freq_nodes := (freq_nodes P)(g_lookup G (freq_map P) f := None)\<rparr>) L" (is "levels_ok G h ?P L")
proof -
  have G: "ghash_ok G" and lev: "\<And>f. level_ok G h P f (L f)" using assms(1) by (auto simp: levels_ok_def)
  have "level_ok G h ?P f' (L f')" for f'
  proof (cases "f' = f")
    case True
    with assms(2) G show ?thesis by (simp add: level_ok_def g_lookup_simps)
  next
    case False
    then have "g_lookup G (freq_map P) f' \<noteq> g_lookup G (freq_map P) f"
      using levels_lookup_inj [OF assms(1) _ assms(4), of f'] by metis
    with False lev [of f'] G show ?thesis by (auto simp: level_ok_def g_lookup_simps)
  qed
  then show ?thesis using assms(1,3) G by (auto simp: levels_ok_def g_lookup_simps)
qed

subsection \<open>The least frequency\<close>

lemma update_min_step:
  assumes "levels_ok G h P L" and "L k = []"
  shows "(if g_lookup G (freq_map P) k \<noteq> 0
      then map_option (\<lambda>nd. fn_n_obj nd > 0) (node_at P (g_lookup G (freq_map P) k)) else Some False) = Some False"
proof (cases "g_lookup G (freq_map P) k = 0")
  case False
  from levels_node [OF assms(1) False] obtain nd where
    "node_at P (g_lookup G (freq_map P) k) = Some nd" "node_ok h nd k (L k)" by blast
  then show ?thesis using assms(2) by (simp add: node_ok_def)
qed simp

lemma update_min_loop_ok:
  assumes "levels_ok G h P L" and "L m \<noteq> []" and "m \<le> LFU_max_freq P"
  shows "k \<le> m \<Longrightarrow> \<forall>f. k \<le> f \<and> f < m \<longrightarrow> L f = [] \<Longrightarrow> update_min_loop G k P = Some (P\<lparr>min_freq := m\<rparr>)"
proof (induction "nat (m - k)" arbitrary: k)
  case 0
  then have k: "k = m" by simp
  from levels_node [OF assms(1) levels_lookup [OF assms(1,2)]] obtain nd where
    nd: "node_at P (g_lookup G (freq_map P) m) = Some nd" "node_ok h nd m (L m)" by blast
  have "0 < fn_n_obj nd" using nd(2) assms(2) by (simp add: node_ok_def)
  with nd(1) levels_lookup [OF assms(1,2)] assms(3) show ?case
    unfolding k by (subst update_min_loop.simps) simp
next
  case (Suc n)
  then have k: "k < m" "L k = []" by auto
  have "update_min_loop G (k + 1) P = Some (P\<lparr>min_freq := m\<rparr>)" by (rule Suc.hyps(1)) (use Suc.hyps(2) Suc.prems k(1) in auto)
  then show ?case using update_min_step [OF assms(1) k(2)] k(1) assms(3) by (subst update_min_loop.simps) simp
qed

definition least_level :: "(int \<Rightarrow> addr list) \<Rightarrow> int \<Rightarrow> bool" where
  "least_level L m \<longleftrightarrow> L m \<noteq> [] \<and> (\<forall>f < m. L f = [])"

lemma get_min_freq_node_ok:
  assumes "levels_ok G h P L" and "least_level L m" and "1 \<le> m" and "m \<le> LFU_max_freq P"
    and "min_freq P = 0 \<or> min_freq P = m"
  shows "get_min_freq_node G P = Some (P\<lparr>min_freq := m\<rparr>, g_lookup G (freq_map P) m)"
proof (cases "min_freq P = 0")
  case True
  then have "update_min_freq G P = Some (P\<lparr>min_freq := m\<rparr>)"
    using update_min_loop_ok [OF assms(1) _ assms(4), of 1] assms(2,3)
    by (simp add: update_min_freq_def least_level_def)
  with True show ?thesis by (simp add: get_min_freq_node_def)
next
  case False
  with assms(5) have "min_freq P = m" by simp
  moreover have "freq_one_node P = g_lookup G (freq_map P) 1" using assms(1) by (simp add: levels_ok_def)
  moreover have "P\<lparr>min_freq := min_freq P\<rparr> = P" by simp
  ultimately show ?thesis using assms(3) by (auto simp: get_min_freq_node_def simp del: LFU_params_t.surjective)
qed

text \<open>What \<open>min_freq\<close> and \<open>max_freq\<close> say of the levels: \<open>min_freq\<close> is 0 while its update is delayed.\<close>

definition mins_ok :: "'t LFU_params_t \<Rightarrow> (int \<Rightarrow> addr list) \<Rightarrow> bool" where
  "mins_ok P L \<longleftrightarrow> 1 \<le> LFU_max_freq P \<and> (\<forall>f. L f \<noteq> [] \<longrightarrow> 1 \<le> f \<and> f \<le> LFU_max_freq P)
     \<and> ((\<exists>f. L f \<noteq> []) \<longrightarrow> min_freq P = 0 \<or> least_level L (min_freq P))"

lemma mins_ok_fields [simp]:
  "mins_ok (P\<lparr>freq_nodes := N\<rparr>) L = mins_ok P L" "mins_ok (P\<lparr>freq_map := m\<rparr>) L = mins_ok P L"
  "mins_ok (P\<lparr>fn_brk := b\<rparr>) L = mins_ok P L"
  "mins_ok (P\<lparr>freq_nodes := N, min_freq := k\<rparr>) L = mins_ok (P\<lparr>min_freq := k\<rparr>) L"
  by (simp_all add: mins_ok_def)

lemma mins_ok_bounds: "mins_ok P L \<Longrightarrow> L f \<noteq> [] \<Longrightarrow> 1 \<le> f \<and> f \<le> LFU_max_freq P"
  by (simp add: mins_ok_def)

lemma mins_ok_max: "mins_ok P L \<Longrightarrow> 1 \<le> LFU_max_freq P"
  by (simp add: mins_ok_def)

lemma mins_ok_least: "mins_ok P L \<Longrightarrow> L f \<noteq> [] \<Longrightarrow> min_freq P = 0 \<or> least_level L (min_freq P)"
  by (auto simp: mins_ok_def)

lemma least_level_unique: "least_level L m \<Longrightarrow> least_level L n \<Longrightarrow> m = n"
  unfolding least_level_def by (metis linorder_neqE)

lemma least_level_le: "least_level L m \<Longrightarrow> L f \<noteq> [] \<Longrightarrow> m \<le> f"
  unfolding least_level_def by (metis linorder_not_le)

lemma mins_ok_shrink:
  assumes "mins_ok P L" and "length ys < length (L f)"
  shows "ys \<noteq> [] \<or> min_freq P \<noteq> f \<Longrightarrow> mins_ok P (L(f := ys))" "mins_ok (P\<lparr>min_freq := 0\<rparr>) (L(f := ys))"
proof -
  have ne: "L f \<noteq> []" using assms(2) by auto
  with mins_ok_bounds [OF assms(1)] mins_ok_max [OF assms(1)] show "mins_ok (P\<lparr>min_freq := 0\<rparr>) (L(f := ys))" by (auto simp: mins_ok_def)
  assume a: "ys \<noteq> [] \<or> min_freq P \<noteq> f"
  from mins_ok_least [OF assms(1) ne] consider "min_freq P = 0" | "least_level L (min_freq P)" by blast
  then show "mins_ok P (L(f := ys))"
  proof cases
    case 1
    then show ?thesis using ne mins_ok_bounds [OF assms(1)] mins_ok_max [OF assms(1)] by (auto simp: mins_ok_def)
  next
    case 2
    with a least_level_le [OF 2 ne] have "least_level (L(f := ys)) (min_freq P)" by (auto simp: least_level_def)
    then show ?thesis using ne mins_ok_bounds [OF assms(1)] mins_ok_max [OF assms(1)] by (auto simp: mins_ok_def)
  qed
qed

lemma least_level_exists: "L f \<noteq> [] \<Longrightarrow> \<forall>f. L f \<noteq> [] \<longrightarrow> 1 \<le> f \<Longrightarrow> \<exists>m. least_level L m"
proof (induction "nat f" arbitrary: f rule: less_induct)
  case less
  show ?case
  proof (cases "\<exists>g < f. L g \<noteq> []")
    case True
    then obtain g where g: "g < f" "L g \<noteq> []" by blast
    with less.prems(2) have "nat g < nat f" by force
    then show ?thesis using less.hyps g(2) less.prems(2) by blast
  next
    case False
    with less.prems(1) show ?thesis by (auto simp: least_level_def)
  qed
qed

lemma update_min_loop_none:
  assumes "levels_ok G h P L" and "\<And>f. L f = []"
  shows "update_min_loop G k P = Some P"
proof (induction "nat (LFU_max_freq P + 1 - k)" arbitrary: k)
  case 0
  then show ?case by (subst update_min_loop.simps) simp
next
  case (Suc n)
  have "update_min_loop G (k + 1) P = Some P" by (rule Suc.hyps(1)) (use Suc.hyps(2) in simp)
  then show ?case using update_min_step [OF assms(1) assms(2) [of k]] by (subst update_min_loop.simps) simp
qed

lemma update_min_freq_ok:
  assumes "levels_ok G h P L" and "\<forall>f. L f \<noteq> [] \<longrightarrow> min_freq P < f \<and> 1 \<le> f \<and> f \<le> LFU_max_freq P"
    and "1 \<le> LFU_max_freq P"
  shows "\<exists>m. update_min_freq G P = Some (P\<lparr>min_freq := m\<rparr>) \<and> mins_ok (P\<lparr>min_freq := m\<rparr>) L"
proof (cases "\<forall>f. L f = []")
  case none: True
  then have "update_min_freq G P = Some (P\<lparr>min_freq := min_freq P\<rparr>)"
    using update_min_loop_none [OF assms(1)] by (simp add: update_min_freq_def)
  with none assms(3) show ?thesis unfolding mins_ok_def by (intro exI [of _ "min_freq P"]) simp
next
  case False
  with assms(2) obtain n where n: "least_level L n" using least_level_exists by metis
  then have ne: "L n \<noteq> []" by (simp add: least_level_def)
  with assms(2) have "min_freq P < n" "n \<le> LFU_max_freq P" by blast+
  with update_min_loop_ok [OF assms(1) ne, of "min_freq P + 1"] n
  have "update_min_freq G P = Some (P\<lparr>min_freq := n\<rparr>)"
    by (simp add: update_min_freq_def least_level_def)
  moreover have "mins_ok (P\<lparr>min_freq := n\<rparr>) L" using n assms(2,3) by (simp add: mins_ok_def)
  ultimately show ?thesis by blast
qed

subsection \<open>The move to the next level\<close>

lemma mins_ok_promote:
  assumes "mins_ok P L" and "L (f - 1) \<noteq> []" and "f \<le> LFU_max_freq P"
    and "length ys < length (L (f - 1))" and "ys \<noteq> [] \<or> min_freq P \<noteq> f - 1"
  shows "mins_ok P (L(f - 1 := ys, f := L f @ [a]))"
proof -
  have "1 \<le> f - 1" using mins_ok_bounds [OF assms(1,2)] by simp
  then have b: "\<forall>g. (L(f - 1 := ys, f := L f @ [a])) g \<noteq> [] \<longrightarrow> 1 \<le> g \<and> g \<le> LFU_max_freq P"
    using mins_ok_bounds [OF assms(1)] assms(2,3) by auto
  have "min_freq P = 0 \<or> least_level (L(f - 1 := ys, f := L f @ [a])) (min_freq P)"
  proof (cases "min_freq P = 0")
    case False
    with mins_ok_least [OF assms(1,2)] have l: "least_level L (min_freq P)" by simp
    with least_level_le [OF l assms(2)] assms(5) show ?thesis by (auto simp: least_level_def)
  qed simp
  with b mins_ok_max [OF assms(1)] show ?thesis by (simp add: mins_ok_def)
qed

lemma new_freq_node_ok:
  assumes "levels_ok G h P L"
  obtains P' where "new_freq_node G P f = (g_lookup G (freq_map P') f, P')" "levels_ok G h P' L"
    "g_lookup G (freq_map P') f \<noteq> 0" "min_freq P' = min_freq P" "LFU_max_freq P' = LFU_max_freq P"
    "\<forall>f'. f' \<noteq> f \<longrightarrow> g_lookup G (freq_map P') f' = g_lookup G (freq_map P) f'"
proof (cases "g_lookup G (freq_map P) f = 0")
  case True
  have "ghash_ok G" "0 < fn_brk P" using assms by (auto simp: levels_ok_def)
  with True levels_new_node [OF assms True] show ?thesis
    by (intro that [of "snd (new_freq_node G P f)"]) (simp_all add: new_freq_node_def Let_def g_lookup_simps)
next
  case False
  with assms show ?thesis by (intro that [of P]) (simp_all add: new_freq_node_def)
qed

lemma promote_min:
  assumes "levels_ok G h P L" and "mins_ok P L0" and "L0 (f - 1) \<noteq> []" and "f \<le> LFU_max_freq P"
    and "L = L0(f - 1 := [], f := L0 f @ [a])"
  shows "\<exists>m. (if min_freq P = f - 1 then update_min_freq G P else Some P) = Some (P\<lparr>min_freq := m\<rparr>)
    \<and> mins_ok (P\<lparr>min_freq := m\<rparr>) L"
proof (cases "min_freq P = f - 1")
  case True
  have "least_level L0 (f - 1)" using mins_ok_least [OF assms(2,3)] mins_ok_bounds [OF assms(2,3)] True by simp
  then have "\<forall>g. L g \<noteq> [] \<longrightarrow> min_freq P < g \<and> 1 \<le> g \<and> g \<le> LFU_max_freq P"
    using mins_ok_bounds [OF assms(2)] assms(3,4) True unfolding assms(5) least_level_def
    by (smt (verit) fun_upd_apply)
  from update_min_freq_ok [OF assms(1) this mins_ok_max [OF assms(2)]] True show ?thesis by simp
next
  case False
  then have "mins_ok (P\<lparr>min_freq := min_freq P\<rparr>) L"
    using mins_ok_promote [OF assms(2,3,4), of "[]" a] assms(3,5) by simp
  then show ?thesis using False by (intro exI [of _ "min_freq P"]) simp
qed

lemma promote_end_ok:
  assumes "levels_ok G h P L'" and "mins_ok P L" and "L (f - 1) = us @ a # vs"
    and "L' = L(f - 1 := us @ vs, f := L f @ [a])" and "f \<le> LFU_max_freq P"
    and "node_at P (g_lookup G (freq_map P) (f - 1)) = Some nd" "node_ok h nd (f - 1) (us @ vs)"
  shows "\<exists>P'. promote_end G P (g_lookup G (freq_map P) (f - 1)) nd f = Some P' \<and> levels_ok G h P' L' \<and> mins_ok P' L'"
proof (cases "us @ vs = []")
  case False
  then have "fn_n_obj nd \<noteq> 0" using assms(7) unfolding node_ok_def by (metis length_0_conv of_nat_eq_0_iff)
  then have "promote_end G P (g_lookup G (freq_map P) (f - 1)) nd f = Some P" by (simp add: promote_end_def)
  moreover have "mins_ok P L'" unfolding assms(4)
    by (rule mins_ok_promote [OF assms(2)]) (use False assms(3,5) in auto)
  ultimately show ?thesis using assms(1) by blast
next
  case True
  with promote_min [OF assms(1,2), of f a] assms(3,4,5) obtain m where
    m: "(if min_freq P = f - 1 then update_min_freq G P else Some P) = Some (P\<lparr>min_freq := m\<rparr>)"
    "mins_ok (P\<lparr>min_freq := m\<rparr>) L'" by auto
  have l: "levels_ok G h (P\<lparr>min_freq := m\<rparr>) L'" using assms(1) by simp
  have p: "g_lookup G (freq_map P) (f - 1) \<noteq> 0" using assms(6) by (auto simp: node_at_def split: if_splits)
  show ?thesis
  proof (cases "f - 1 = 1")
    case one: True
    with True m l assms(7) show ?thesis by (simp add: promote_end_def node_ok_def)
  next
    case False
    with levels_drop_node [OF l _ False] True p assms(4) m assms(7) show ?thesis
      by (auto simp: promote_end_def node_ok_def)
  qed
qed

lemma LFU_promote_ok:
  assumes "levels_ok G h P L" and "mins_ok P L" and "L (f - 1) = us @ a # vs" and "h a = Some ob"
    and "f \<le> LFU_max_freq P"
  shows "\<exists>h' P'. LFU_promote G h P (Some a) f = Some (h', P') \<and> qframe UNIV h h'
    \<and> levels_ok G h' P' (L(f - 1 := us @ vs, f := L f @ [a])) \<and> mins_ok P' (L(f - 1 := us @ vs, f := L f @ [a]))"
proof -
  let ?o = "g_lookup G (freq_map P) (f - 1)" and ?L' = "L(f - 1 := us @ vs, f := L f @ [a])"
  have ne: "L (f - 1) \<noteq> []" by (simp add: assms(3))
  from levels_remove [OF assms(1,3)] obtain nd h1 fo lo where
    nd: "node_at P ?o = Some nd" "node_ok h nd (f - 1) (L (f - 1))"
    and r: "remove_obj_from_list h (first_obj nd) (last_obj nd) (Some a) = Some (h1, fo, lo)"
    and l1: "levels_ok G h1 (P\<lparr>freq_nodes := (freq_nodes P)(?o \<mapsto>
        nd\<lparr>fn_n_obj := fn_n_obj nd - 1, first_obj := fo, last_obj := lo\<rparr>)\<rparr>) (L(f - 1 := us @ vs))" (is "levels_ok G h1 ?P1 ?L1")
    and q1: "qframe (set (L (f - 1))) h h1" by blast
  obtain P2 where
    P2: "new_freq_node G ?P1 f = (g_lookup G (freq_map P2) f, P2)" "levels_ok G h1 P2 ?L1"
    "g_lookup G (freq_map P2) f \<noteq> 0" "min_freq P2 = min_freq ?P1" "LFU_max_freq P2 = LFU_max_freq ?P1"
    "\<forall>f'. f' \<noteq> f \<longrightarrow> g_lookup G (freq_map P2) f' = g_lookup G (freq_map ?P1) f'"
    by (rule new_freq_node_ok [OF l1])
  then have o2: "g_lookup G (freq_map P2) (f - 1) = ?o" by simp
  from qframe_obj [OF q1 assms(4)] obtain ob1 where ob1: "h1 a = Some ob1" by blast
  have "distinct (us @ a # vs)" using nd(2) dll_distinct unfolding node_ok_def assms(3) by blast
  then have "a \<notin> set (?L1 f')" for f'
    using levels_disjoint [OF assms(1), of "f - 1" f'] assms(3) by auto
  moreover have eq: "?L1 f = L f" by simp
  ultimately obtain nd2 h2 fo2 lo2 where
    nd2: "node_at P2 (g_lookup G (freq_map P2) f) = Some nd2"
    "append_obj_to_tail h1 (first_obj nd2) (last_obj nd2) (Some a) = Some (h2, fo2, lo2)"
    and l3: "levels_ok G h2 (P2\<lparr>freq_nodes := (freq_nodes P2)(g_lookup G (freq_map P2) f \<mapsto>
        nd2\<lparr>first_obj := fo2, last_obj := lo2, fn_n_obj := fn_n_obj nd2 + 1\<rparr>)\<rparr>) ?L'" (is "levels_ok G h2 ?P3 ?L'")
    and q2: "qframe (set (a # L f)) h1 h2" using levels_append [OF P2(2,3) ob1] unfolding eq by blast
  have q: "qframe UNIV h h2" using qframe_trans [OF q1 q2] by (rule qframe_mono) simp
  have "?o \<noteq> 0" using levels_lookup [OF assms(1) ne] .
  with levels_node [OF l3, of "f - 1"] o2 obtain nd3 where
    nd3: "node_at ?P3 ?o = Some nd3" "node_ok h2 nd3 (f - 1) (us @ vs)" by auto
  have "mins_ok ?P3 L" using assms(2) P2(4,5) by (simp add: mins_ok_def)
  from promote_end_ok [OF l3 this assms(3) refl, of nd3] assms(5) P2(5) nd3 o2 obtain P' where
    "promote_end G ?P3 ?o nd3 f = Some P'" "levels_ok G h2 P' ?L'" "mins_ok P' ?L'" by auto
  moreover from this(1) have "LFU_promote G h P (Some a) f = Some (h2, P')"
    using nd(1) r P2(1) nd2 nd3(1) by (simp add: LFU_promote_def)
  ultimately show ?thesis using q by auto
qed

lemma remove_min:
  assumes "levels_ok G h P L" and "mins_ok P0 L0" and "length ys < length (L0 f)" and "L = L0(f := ys)"
    and "min_freq P0 = min_freq P" and "LFU_max_freq P0 = LFU_max_freq P"
  shows "\<exists>m. (if f = min_freq P \<and> ys = [] then update_min_freq G P else Some P) = Some (P\<lparr>min_freq := m\<rparr>)
    \<and> mins_ok (P\<lparr>min_freq := m\<rparr>) L"
proof (cases "f = min_freq P \<and> ys = []")
  case True
  have ne: "L0 f \<noteq> []" using assms(3) by auto
  have "least_level L0 f" using mins_ok_least [OF assms(2) ne] mins_ok_bounds [OF assms(2) ne] True assms(5) by simp
  then have "\<forall>g. L g \<noteq> [] \<longrightarrow> min_freq P < g \<and> 1 \<le> g \<and> g \<le> LFU_max_freq P"
    using mins_ok_bounds [OF assms(2)] True unfolding assms(4,6) least_level_def
    by (smt (verit) fun_upd_apply)
  from update_min_freq_ok [OF assms(1) this] mins_ok_max [OF assms(2)] True assms(6) show ?thesis by simp
next
  case False
  have "mins_ok P L0" using assms(2,5,6) by (simp add: mins_ok_def)
  with False assms(5) mins_ok_shrink(1) [OF this assms(3)] show ?thesis
    unfolding assms(4) by (intro exI [of _ "min_freq P"]) auto
qed

section \<open>The abstract machine\<close>

definition lfu_view :: "cache_obj \<Rightarrow> obj_id_t \<times> int \<times> int" where
  "lfu_view ob = (obj_id ob, obj_size ob, lfu_freq ob)"

interpretation lfu_obj: object_view lfu_view fst
  by unfold_locales (simp_all add: lfu_view_def touched_def)

abbreviation cnt :: "obj_id_t \<times> int \<times> int \<Rightarrow> int" where
  "cnt e \<equiv> snd (snd e)"

definition least_count :: "(int \<times> int) queue \<Rightarrow> int" where
  "least_count es = Min (cnt ` set es)"

definition lfu_victim :: "(int \<times> int) queue \<Rightarrow> obj_id_t \<times> int \<times> int" where
  "lfu_victim es = the (find (\<lambda>e. cnt e = least_count es) es)"

definition lfu_hit :: "obj_id_t \<Rightarrow> (int \<times> int) queue \<Rightarrow> (int \<times> int) queue" where
  "lfu_hit i es = queue_delete i es @ map (\<lambda>(i, n, f). (i, n, f + 1)) (filter (\<lambda>e. fst e = i) es)"

definition lfu_machine :: "(int \<times> int) queue machine" where
  "lfu_machine = \<lparr>m_ids = \<lambda>es. fst ` set es, m_bytes = view_bytes fst,
     m_hit = \<lambda>req. lfu_hit (req_obj_id req), m_evict = \<lambda>es. queue_delete (fst (lfu_victim es)) es,
     m_insert = \<lambda>req es. es @ [(req_obj_id req, req_obj_size req, 1)]\<rparr>"

lemma lfu_machine_simps [simp]:
  "m_ids lfu_machine es = fst ` set es" "m_bytes lfu_machine = view_bytes fst"
  "m_hit lfu_machine req = lfu_hit (req_obj_id req)"
  "m_evict lfu_machine es = queue_delete (fst (lfu_victim es)) es"
  "m_insert lfu_machine req es = es @ [(req_obj_id req, req_obj_size req, 1)]"
  by (simp_all add: lfu_machine_def)

lemma lfu_hit_split:
  assumes "i \<notin> fst ` set us" and "i \<notin> fst ` set vs"
  shows "lfu_hit i (us @ (i, n, f) # vs) = us @ vs @ [(i, n, f + 1)]"
proof -
  have "filter (\<lambda>e. fst e \<noteq> i) ws = ws \<and> filter (\<lambda>e. fst e = i) ws = []" if "i \<notin> fst ` set ws"
    for ws :: "(int \<times> int) queue"
    using that by (induction ws) auto
  from this [OF assms(1)] this [OF assms(2)] show ?thesis by (simp add: lfu_hit_def queue_delete_def)
qed

lemma lfu_victim_least:
  assumes "es \<noteq> []"
  shows "lfu_victim es \<in> set es" "cnt (lfu_victim es) = least_count es"
proof -
  have "least_count es \<in> cnt ` set es" unfolding least_count_def by (rule Min_in) (use assms in auto)
  then have "find (\<lambda>e. cnt e = least_count es) es \<noteq> None" unfolding find_None_iff by (metis imageE)
  then obtain e where "find (\<lambda>e. cnt e = least_count es) es = Some e" by blast
  with find_Some_mem [OF this] show "lfu_victim es \<in> set es" "cnt (lfu_victim es) = least_count es"
    by (simp_all add: lfu_victim_def)
qed

section \<open>Refinement\<close>

definition lev :: "heap \<Rightarrow> addr list \<Rightarrow> int \<Rightarrow> addr list" where
  "lev h xs f = filter (\<lambda>a. lfu_freq (the (h a)) = f) xs"

definition LFU_at ::
    "('t, int) ghash \<Rightarrow> env \<Rightarrow> trace_ids \<Rightarrow> ('a, 'f, 't) lfu_cache \<Rightarrow> addr list \<Rightarrow> (int \<times> int) queue \<Rightarrow> bool" where
  "LFU_at G E W c xs es \<longleftrightarrow> bag_at lfu_view E W c xs es
     \<and> levels_ok G (store c) (eviction_params c) (lev (store c) xs)
     \<and> mins_ok (eviction_params c) (lev (store c) xs)"

definition LFU_R ::
    "('t, int) ghash \<Rightarrow> env \<Rightarrow> trace_ids \<Rightarrow> ('a, 'f, 't) lfu_cache \<Rightarrow> (int \<times> int) queue \<Rightarrow> bool" where
  "LFU_R G E W c es \<longleftrightarrow> (\<exists>xs. LFU_at G E W c xs es)"

lemma lev_append [simp]: "lev h (xs @ ys) f = lev h xs f @ lev h ys f"
  by (simp add: lev_def)

lemma lev_cong:
  "(\<And>a. a \<in> set xs \<Longrightarrow> lfu_freq (the (h' a)) = lfu_freq (the (h a))) \<Longrightarrow> lev h' xs = lev h xs"
  by (auto simp: lev_def fun_eq_iff intro: filter_cong)

lemma lev_payload: "same_payload A h h' \<Longrightarrow> set xs \<subseteq> A \<Longrightarrow> set xs \<subseteq> dom h \<Longrightarrow> lev h' xs = lev h xs"
  by (rule lev_cong, rule same_payload_the [where f = lfu_freq and A = A]) auto

lemma set_lev: "set (lev h xs f) \<subseteq> set xs"
  by (auto simp: lev_def)

lemma lev_Cons:
  "h a = Some ob \<Longrightarrow> lev h (us @ a # vs) (lfu_freq ob) = lev h us (lfu_freq ob) @ a # lev h vs (lfu_freq ob)"
  "h a = Some ob \<Longrightarrow> (lev h (us @ a # vs))(lfu_freq ob := lev h us (lfu_freq ob) @ lev h vs (lfu_freq ob)) = lev h (us @ vs)"
  by (auto simp: lev_def fun_eq_iff)

lemma lev_removed:
  assumes "h a = Some ob"
  obtains ys where "lev h (us @ vs) = (lev h (us @ a # vs))(lfu_freq ob := ys)"
    "length (lev h (us @ a # vs) (lfu_freq ob)) = length ys + 1"
  using lev_Cons [where h = h and a = a and ob = ob and us = us and vs = vs, OF assms]
  by (intro that [of "lev h us (lfu_freq ob) @ lev h vs (lfu_freq ob)"]) simp_all

lemma least_level_lev:
  assumes "es = views lfu_view h xs" and "es \<noteq> []"
  shows "least_level (lev h xs) (least_count es)"
proof -
  have cnts: "cnt ` set es = (\<lambda>a. lfu_freq (the (h a))) ` set xs" using assms(1) by (simp add: image_image lfu_view_def)
  have "least_count es \<in> cnt ` set es" unfolding least_count_def by (rule Min_in) (use assms(2) in auto)
  moreover have "least_count es \<le> f" if "f \<in> cnt ` set es" for f
    unfolding least_count_def by (rule Min_le) (use that in auto)
  ultimately show ?thesis unfolding cnts
    by (fastforce simp: least_level_def lev_def filter_empty_conv)
qed

text \<open>Unlinking an object from its level and removing it from the cache.\<close>

lemma LFU_take:
  assumes "bag_at lfu_view E W c (us @ a # vs) es" and "store c a = Some ob"
    and "levels_ok G (store c) P (lev (store c) (us @ a # vs))"
  shows "\<exists>nd h fo lo. node_at P (g_lookup G (freq_map P) (lfu_freq ob)) = Some nd
    \<and> node_ok (store c) nd (lfu_freq ob) (lev (store c) (us @ a # vs) (lfu_freq ob))
    \<and> remove_obj_from_list (store c) (first_obj nd) (last_obj nd) (Some a) = Some (h, fo, lo)
    \<and> (\<forall>Q. \<exists>h' ht. cache_remove_obj_base E (c\<lparr>store := h, eviction_params := Q\<rparr>) (Some a) True
          = Some (shrunk (c\<lparr>store := h, eviction_params := Q\<rparr>) h' ht (obj_size ob))
        \<and> bag_at lfu_view E W (shrunk (c\<lparr>store := h, eviction_params := Q\<rparr>) h' ht (obj_size ob)) (us @ vs)
            (queue_delete (obj_id ob) es)
        \<and> levels_ok G h' (P\<lparr>freq_nodes := (freq_nodes P)(g_lookup G (freq_map P) (lfu_freq ob) \<mapsto>
            nd\<lparr>fn_n_obj := fn_n_obj nd - 1, first_obj := fo, last_obj := lo\<rparr>)\<rparr>) (lev h' (us @ vs))
        \<and> lev h' (us @ vs) = lev (store c) (us @ vs))"
proof -
  let ?f = "lfu_freq ob" and ?L = "lev (store c) (us @ a # vs)"
  note d = bag_at_dom [OF assms(1)]
  from levels_remove [OF assms(3), of ?f, OF lev_Cons(1) [where h = "store c" and a = a and ob = ob, OF assms(2)]] obtain nd h fo lo where
    nd: "node_at P (g_lookup G (freq_map P) ?f) = Some nd" "node_ok (store c) nd ?f (?L ?f)"
    and r: "remove_obj_from_list (store c) (first_obj nd) (last_obj nd) (Some a) = Some (h, fo, lo)"
    and l: "levels_ok G h (P\<lparr>freq_nodes := (freq_nodes P)(g_lookup G (freq_map P) ?f \<mapsto>
        nd\<lparr>fn_n_obj := fn_n_obj nd - 1, first_obj := fo, last_obj := lo\<rparr>)\<rparr>) (lev (store c) (us @ vs))"
    and q: "qframe (set (?L ?f)) (store c) h"
    unfolding lev_Cons(2) [where h = "store c" and a = a and ob = ob, OF assms(2)] by blast
  have "views lfu_view h (us @ a # vs) = es"
    using lfu_obj.same_payload_views [OF same_payload_qframe [OF q], of "us @ a # vs" "set (us @ a # vs)"]
      assms(1) d by (simp add: bag_at_def)
  with bag_at_store [OF assms(1) same_core_qframe [OF q], of "us @ a # vs"] assms(1)
  have bag: "bag_at lfu_view E W (c\<lparr>store := h, eviction_params := Q\<rparr>) (us @ a # vs) es" for Q
    by (simp add: bag_at_def)
  from qframe_obj [OF q assms(2)] obtain ob' where ob': "h a = Some ob'" "noq ob' = noq ob" by blast
  have same: "obj_id ob' = obj_id ob" "obj_size ob' = obj_size ob"
    using arg_cong [OF ob'(2), of obj_id] arg_cong [OF ob'(2), of obj_size] by simp_all
  have dis: "distinct (us @ a # vs)" using assms(1) by (simp add: bag_at_def)
  have "\<exists>h' ht. cache_remove_obj_base E (c\<lparr>store := h, eviction_params := Q\<rparr>) (Some a) True
          = Some (shrunk (c\<lparr>store := h, eviction_params := Q\<rparr>) h' ht (obj_size ob))
        \<and> bag_at lfu_view E W (shrunk (c\<lparr>store := h, eviction_params := Q\<rparr>) h' ht (obj_size ob)) (us @ vs)
            (queue_delete (obj_id ob) es)
        \<and> levels_ok G h' (P\<lparr>freq_nodes := (freq_nodes P)(g_lookup G (freq_map P) ?f \<mapsto>
            nd\<lparr>fn_n_obj := fn_n_obj nd - 1, first_obj := fo, last_obj := lo\<rparr>)\<rparr>) (lev h' (us @ vs))
        \<and> lev h' (us @ vs) = lev (store c) (us @ vs)" for Q
  proof -
    from lfu_obj.bag_remove [OF bag [of Q], of ob'] ob'(1) obtain h' ht where
      b: "cache_remove_obj_base E (c\<lparr>store := h, eviction_params := Q\<rparr>) (Some a) True
          = Some (shrunk (c\<lparr>store := h, eviction_params := Q\<rparr>) h' ht (obj_size ob))"
      "bag_at lfu_view E W (shrunk (c\<lparr>store := h, eviction_params := Q\<rparr>) h' ht (obj_size ob)) (us @ vs)
            (queue_delete (obj_id ob) es)"
      "\<forall>qh qt ys. dll h qh qt ys \<longrightarrow> a \<notin> set ys \<longrightarrow> dll h' qh qt ys"
      "same_payload (set (us @ vs)) h h'" by (auto simp: same)
    have "lev h' (us @ vs) = lev h (us @ vs)"
      by (rule lev_payload [OF b(4)]) (use qframe_dom [OF q] d in auto)
    also have "\<dots> = lev (store c) (us @ vs)"
      by (rule lev_payload [OF same_payload_qframe [OF q, of "set (us @ vs)"]]) (use d in auto)
    finally have eq: "lev h' (us @ vs) = lev (store c) (us @ vs)" .
    have out: "a \<notin> set (lev (store c) (us @ vs) f)" for f using set_lev [of "store c" "us @ vs" f] dis by auto
    have "levels_ok G h' (P\<lparr>freq_nodes := (freq_nodes P)(g_lookup G (freq_map P) ?f \<mapsto>
            nd\<lparr>fn_n_obj := fn_n_obj nd - 1, first_obj := fo, last_obj := lo\<rparr>)\<rparr>) (lev h' (us @ vs))"
      unfolding eq by (rule levels_store [OF l]) (use b(3) out in blast)
    with b(1,2) eq show ?thesis by blast
  qed
  with nd r show ?thesis by blast
qed

text \<open>The first object of the least level is the victim.\<close>

lemma find_filter_hd:
  assumes "find Q xs = Some a"
  shows "\<exists>us vs. xs = us @ a # vs \<and> filter Q xs = a # filter Q vs"
proof -
  from find_SomeD_split [OF assms] obtain us vs where "xs = us @ a # vs" "Q a" "\<forall>y \<in> set us. \<not> Q y" by blast
  then show ?thesis by (auto simp: filter_empty_conv)
qed

lemma LFU_victim:
  assumes "bag_at lfu_view E W c xs es" and "es \<noteq> []"
  obtains us a vs ob zs where "xs = us @ a # vs" "store c a = Some ob" "lfu_view ob = lfu_victim es"
    "lev (store c) xs (least_count es) = a # zs" "lfu_freq ob = least_count es"
proof -
  let ?Q = "\<lambda>a. lfu_freq (the (store c a)) = least_count es"
  have es: "es = views lfu_view (store c) xs" using assms(1) by (simp add: bag_at_def)
  have "find (\<lambda>e. cnt e = least_count es) es = map_option (\<lambda>a. lfu_view (the (store c a))) (find ?Q xs)"
    unfolding es by (simp add: find_map lfu_view_def)
  moreover have "find ?Q xs \<noteq> None"
    using least_level_lev [OF es assms(2)] by (auto simp: least_level_def lev_def filter_empty_conv find_None_iff)
  ultimately obtain a where a: "find ?Q xs = Some a" "lfu_victim es = lfu_view (the (store c a))"
    by (auto simp: lfu_victim_def)
  from find_filter_hd [OF a(1)] obtain us vs where xs: "xs = us @ a # vs"
    and l: "lev (store c) xs (least_count es) = a # filter ?Q vs" unfolding lev_def by blast
  obtain ob where "store c a = Some ob" using bag_at_live [OF assms(1), of a] xs by auto
  with that [OF xs this _ l] a find_Some_mem [OF a(1)] show ?thesis by simp
qed

lemma LFU_evict_refines:
  assumes "LFU_R G E W c es" and "es \<noteq> []"
  shows "\<exists>c'. LFU_evict E G None c req = Some c' \<and> same_limits c c' \<and> admissioner c' = admissioner c
    \<and> LFU_R G E W c' (queue_delete (fst (lfu_victim es)) es)"
proof -
  let ?P = "eviction_params c" and ?m = "least_count es"
  from assms(1) obtain xs where x: "bag_at lfu_view E W c xs es" "levels_ok G (store c) ?P (lev (store c) xs)"
    "mins_ok ?P (lev (store c) xs)" by (auto simp: LFU_R_def LFU_at_def)
  from LFU_victim [OF x(1) assms(2)] obtain us a vs ob zs where
    v: "xs = us @ a # vs" "store c a = Some ob" "lfu_view ob = lfu_victim es"
    "lev (store c) xs ?m = a # zs" "lfu_freq ob = ?m" .
  let ?P1 = "?P\<lparr>min_freq := ?m\<rparr>"
  have least: "least_level (lev (store c) xs) ?m" using least_level_lev x(1) assms(2) by (auto simp: bag_at_def)
  have ne: "lev (store c) xs ?m \<noteq> []" using v(4) by simp
  have b: "1 \<le> ?m" "?m \<le> LFU_max_freq ?P" using mins_ok_bounds [OF x(3) ne] by auto
  have "min_freq ?P = 0 \<or> min_freq ?P = ?m" using mins_ok_least [OF x(3) ne] least least_level_unique by metis
  with get_min_freq_node_ok [OF x(2) least b]
  have g: "get_min_freq_node G ?P = Some (?P1, g_lookup G (freq_map ?P1) ?m)" by simp
  have l1: "levels_ok G (store c) ?P1 (lev (store c) (us @ a # vs))" using x(2) v(1) by simp
  from LFU_take [OF x(1) [unfolded v(1)] v(2) l1, unfolded v(5)] obtain nd h fo lo where
    t: "node_at ?P1 (g_lookup G (freq_map ?P1) ?m) = Some nd"
    "node_ok (store c) nd ?m (lev (store c) (us @ a # vs) ?m)"
    "remove_obj_from_list (store c) (first_obj nd) (last_obj nd) (Some a) = Some (h, fo, lo)"
    and rm: "\<exists>h' ht. cache_remove_obj_base E (c\<lparr>store := h, eviction_params := Q\<rparr>) (Some a) True
          = Some (shrunk (c\<lparr>store := h, eviction_params := Q\<rparr>) h' ht (obj_size ob))
        \<and> bag_at lfu_view E W (shrunk (c\<lparr>store := h, eviction_params := Q\<rparr>) h' ht (obj_size ob)) (us @ vs)
            (queue_delete (obj_id ob) es)
        \<and> levels_ok G h' (?P1\<lparr>freq_nodes := (freq_nodes ?P1)(g_lookup G (freq_map ?P1) ?m \<mapsto>
            nd\<lparr>fn_n_obj := fn_n_obj nd - 1, first_obj := fo, last_obj := lo\<rparr>)\<rparr>) (lev h' (us @ vs))
        \<and> lev h' (us @ vs) = lev (store c) (us @ vs)" for Q by blast
  let ?P2 = "?P1\<lparr>freq_nodes := (freq_nodes ?P1)(g_lookup G (freq_map ?P1) ?m \<mapsto>
      nd\<lparr>fn_n_obj := fn_n_obj nd - 1, first_obj := fo, last_obj := lo\<rparr>)\<rparr>"
  let ?Q = "if fn_n_obj nd - 1 = 0 then ?P2\<lparr>min_freq := 0\<rparr> else ?P2"
  from rm [of ?Q] obtain h' ht where
    r: "cache_remove_obj_base E (c\<lparr>store := h, eviction_params := ?Q\<rparr>) (Some a) True
          = Some (shrunk (c\<lparr>store := h, eviction_params := ?Q\<rparr>) h' ht (obj_size ob))"
    "bag_at lfu_view E W (shrunk (c\<lparr>store := h, eviction_params := ?Q\<rparr>) h' ht (obj_size ob)) (us @ vs)
            (queue_delete (obj_id ob) es)"
    "levels_ok G h' ?P2 (lev h' (us @ vs))" "lev h' (us @ vs) = lev (store c) (us @ vs)" by blast
  have first: "first_obj nd = Some a" using t(2) v(1,4) dll_unique_head_tail(1) by (fastforce simp: node_ok_def)
  have ev: "LFU_evict E G None c req = Some (shrunk (c\<lparr>store := h, eviction_params := ?Q\<rparr>) h' ht (obj_size ob))"
    using g t r(1) first by (cases "fn_n_obj nd = 1") (simp_all add: LFU_evict_def Let_def)
  obtain ys where ys: "lev (store c) (us @ vs) = (lev (store c) xs)(?m := ys)"
    "length (lev (store c) xs ?m) = length ys + 1" using lev_removed [where h = "store c" and a = a and ob = ob, OF v(2), of us vs] v(1,5) by metis
  have m1: "mins_ok ?P1 (lev (store c) xs)" using x(3) least by (simp add: mins_ok_def)
  have "fn_n_obj nd - 1 = int (length ys)" using t(2) v(1) ys(2) by (simp add: node_ok_def)
  with mins_ok_shrink [OF m1, of ys ?m] ys have "mins_ok ?Q (lev h' (us @ vs))" unfolding r(4) by auto
  moreover have "levels_ok G h' (?P2\<lparr>min_freq := 0\<rparr>) (lev h' (us @ vs))" unfolding levels_fields(1) by (rule r(3))
  with r(3) have "levels_ok G h' ?Q (lev h' (us @ vs))" 
    by (simp only: simp_thms split: if_split)
  ultimately have "LFU_at G E W (shrunk (c\<lparr>store := h, eviction_params := ?Q\<rparr>) h' ht (obj_size ob)) (us @ vs)
      (queue_delete (obj_id ob) es)" using r(2) by (simp add: LFU_at_def)
  moreover have "fst (lfu_victim es) = obj_id ob" using arg_cong [OF v(3), of fst] by (simp add: lfu_view_def)
  ultimately show ?thesis using ev by (auto simp: LFU_R_def same_limits_def)
qed

lemma LFU_remove_step:
  assumes "LFU_R G E W c es" and "store c a = Some ob"
  shows "\<exists>c'. LFU_remove_obj E G c (Some a) = Some c' \<and> LFU_R G E W c' (queue_delete (obj_id ob) es)"
proof -
  let ?P = "eviction_params c" and ?f = "lfu_freq ob"
  from assms(1) obtain xs where x: "bag_at lfu_view E W c xs es" "levels_ok G (store c) ?P (lev (store c) xs)"
    "mins_ok ?P (lev (store c) xs)" by (auto simp: LFU_R_def LFU_at_def)
  have "a \<in> set xs" using bag_at_dom [OF x(1)] assms(2) by auto
  then obtain us vs where xs: "xs = us @ a # vs" by (auto dest: split_list)
  from LFU_take [OF x(1) [unfolded xs] assms(2) x(2) [unfolded xs]] obtain nd h fo lo where
    t: "node_at ?P (g_lookup G (freq_map ?P) ?f) = Some nd" "node_ok (store c) nd ?f (lev (store c) xs ?f)"
    "remove_obj_from_list (store c) (first_obj nd) (last_obj nd) (Some a) = Some (h, fo, lo)"
    and rm: "\<exists>h' ht. cache_remove_obj_base E (c\<lparr>store := h, eviction_params := Q\<rparr>) (Some a) True
          = Some (shrunk (c\<lparr>store := h, eviction_params := Q\<rparr>) h' ht (obj_size ob))
        \<and> bag_at lfu_view E W (shrunk (c\<lparr>store := h, eviction_params := Q\<rparr>) h' ht (obj_size ob)) (us @ vs)
            (queue_delete (obj_id ob) es)
        \<and> levels_ok G h' (?P\<lparr>freq_nodes := (freq_nodes ?P)(g_lookup G (freq_map ?P) ?f \<mapsto>
            nd\<lparr>fn_n_obj := fn_n_obj nd - 1, first_obj := fo, last_obj := lo\<rparr>)\<rparr>) (lev h' (us @ vs))
        \<and> lev h' (us @ vs) = lev (store c) (us @ vs)" for Q unfolding xs by blast
  let ?nd = "nd\<lparr>fn_n_obj := fn_n_obj nd - 1, first_obj := fo, last_obj := lo\<rparr>"
  let ?P1 = "?P\<lparr>freq_nodes := (freq_nodes ?P)(g_lookup G (freq_map ?P) ?f \<mapsto> ?nd)\<rparr>"
  let ?c = "\<lambda>h' ht. shrunk (c\<lparr>store := h, eviction_params := ?P1\<rparr>) h' ht (obj_size ob)"
  from rm [of ?P1] obtain h' ht where
    r: "cache_remove_obj_base E (c\<lparr>store := h, eviction_params := ?P1\<rparr>) (Some a) True = Some (?c h' ht)"
    "bag_at lfu_view E W (?c h' ht) (us @ vs) (queue_delete (obj_id ob) es)"
    "levels_ok G h' ?P1 (lev h' (us @ vs))" "lev h' (us @ vs) = lev (store c) (us @ vs)" by blast
  obtain ys where ys: "lev (store c) (us @ vs) = (lev (store c) xs)(?f := ys)"
    "length (lev (store c) xs ?f) = length ys + 1"
    using lev_removed [where h = "store c" and a = a and ob = ob, OF assms(2), of us vs] xs by metis
  have nd: "fn_freq ?nd = ?f" "fn_n_obj ?nd = int (length ys)" using t(2) ys(2) by (simp_all add: node_ok_def)
  from remove_min [OF r(3) x(3), where f = ?f and ys = ys] ys r(4) obtain m where
    m: "(if ?f = min_freq ?P1 \<and> ys = [] then update_min_freq G ?P1 else Some ?P1) = Some (?P1\<lparr>min_freq := m\<rparr>)"
    "mins_ok (?P1\<lparr>min_freq := m\<rparr>) (lev h' (us @ vs))" by auto
  have "(?f = min_freq ?P1 \<and> ys = []) = (fn_freq ?nd = min_freq ?P1 \<and> fn_n_obj ?nd = 0)"
    unfolding nd by simp
  note m1 = m(1) [unfolded this]
  have "LFU_remove_obj E G c (Some a) = Some ((?c h' ht)\<lparr>eviction_params := ?P1\<lparr>min_freq := m\<rparr>\<rparr>)"
    using assms(2) t(1,3) r(1) m1
    by (cases "fn_freq nd = min_freq ?P \<and> fn_n_obj nd = 1") (auto simp: LFU_remove_obj_def Let_def)
  moreover have "bag_at lfu_view E W ((?c h' ht)\<lparr>eviction_params := ?P1\<lparr>min_freq := m\<rparr>\<rparr>) (us @ vs) (queue_delete (obj_id ob) es)"
    unfolding bag_at_fields by (rule r(2))
  then have "LFU_at G E W ((?c h' ht)\<lparr>eviction_params := ?P1\<lparr>min_freq := m\<rparr>\<rparr>) (us @ vs) (queue_delete (obj_id ob) es)"
    using r(3) m(2) by (simp add: LFU_at_def)
  ultimately show ?thesis by (auto simp: LFU_R_def)
qed

lemma LFU_remove_refines:
  assumes "LFU_R G E W c es"
  shows "\<exists>c'. LFU_remove E G c i = Some (c', i \<in> fst ` set es) \<and> LFU_R G E W c' (queue_delete i es)"
proof -
  from assms obtain xs where x: "bag_at lfu_view E W c xs es" by (auto simp: LFU_R_def LFU_at_def)
  show ?thesis
  proof (cases "i \<in> fst ` set es")
    case True
    from lfu_obj.bag_object [OF x True] obtain a ob where "store c a = Some ob" "obj_id ob = i" by metis
    with LFU_remove_step [OF assms this(1)] lfu_obj.bag_lookup(2) [OF x this(1)] True show ?thesis
      by (auto simp: LFU_remove_def)
  next
    case False
    then show ?thesis using assms lfu_obj.bag_lookup(1) [OF x False] by (simp add: LFU_remove_def queue_delete_absent)
  qed
qed

lemma LFU_insert_refines:
  assumes "LFU_R G E W c es" and "req_obj_id req \<in> fst W" and "req_obj_id req \<notin> fst ` set es"
  shows "\<exists>c' p. LFU_insert E c req = Some (c', p) \<and> same_limits c c' \<and> admissioner c' = admissioner c
    \<and> LFU_R G E W c' (es @ [(req_obj_id req, req_obj_size req, 1)])"
proof -
  let ?P = "(eviction_params c)\<lparr>min_freq := 1\<rparr>" and ?b = "brk c"
  let ?d = "c\<lparr>eviction_params := ?P\<rparr>"
  from assms(1) obtain xs where x: "bag_at lfu_view E W ?d xs es"
    "levels_ok G (store c) ?P (lev (store c) xs)" "mins_ok (eviction_params c) (lev (store c) xs)"
    by (auto simp: LFU_R_def LFU_at_def)
  from lfu_obj.bag_insert [OF x(1) assms(2,3)] obtain h ht ob where
    i: "cache_insert_base E ?d req = Some (grown ?d h ht (req_obj_size req), Some ?b)"
    "bag_at lfu_view E W (grown ?d h ht (req_obj_size req)) (xs @ [?b]) (es @ [lfu_view (inserted_obj E ?d req)])"
    "?b \<notin> set xs" "\<forall>qh qt ys. dll (store c) qh qt ys \<longrightarrow> dll h qh qt ys"
    "same_payload (set xs) (store c) h" "h ?b = Some ob" "payload ob = inserted_obj E ?d req" by auto
  let ?h1 = "h(?b \<mapsto> ob\<lparr>lfu_freq := 1\<rparr>)" and ?L = "lev (store c) xs"
  have out: "?b \<notin> set (?L f)" for f using i(3) set_lev [of "store c" xs f] by auto
  have "levels_ok G ?h1 ?P ?L"
  proof (rule levels_store [OF x(2)])
    fix f qh qt assume "dll (store c) qh qt (?L f)"
    with i(4) have "dll h qh qt (?L f)" by blast
    then show "dll ?h1 qh qt (?L f)" by (rule dll_cong [rotated]) (use out in auto)
  qed
  moreover have one: "g_lookup G (freq_map ?P) 1 = freq_one_node ?P" "freq_one_node ?P \<noteq> 0"
    using x(2) by (auto simp: levels_ok_def)
  ultimately obtain nd h2 fo lo where
    a: "node_at ?P (freq_one_node ?P) = Some nd"
    "append_obj_to_tail ?h1 (first_obj nd) (last_obj nd) (Some ?b) = Some (h2, fo, lo)"
    and l: "levels_ok G h2 (?P\<lparr>freq_nodes := (freq_nodes ?P)(freq_one_node ?P \<mapsto>
        nd\<lparr>first_obj := fo, last_obj := lo, fn_n_obj := fn_n_obj nd + 1\<rparr>)\<rparr>) (?L(1 := ?L 1 @ [?b]))"
    and q: "qframe (set (?b # ?L 1)) ?h1 h2"
    using levels_append [of G ?h1 ?P ?L 1 ?b "ob\<lparr>lfu_freq := 1\<rparr>"] out unfolding one(1) by auto
  let ?nd = "nd\<lparr>first_obj := fo, last_obj := lo, fn_n_obj := fn_n_obj nd + 1\<rparr>"
  let ?P2 = "?P\<lparr>freq_nodes := (freq_nodes ?P)(freq_one_node ?P \<mapsto> ?nd)\<rparr>"
  let ?c = "(grown ?d h ht (req_obj_size req))\<lparr>store := h2, eviction_params := ?P2\<rparr>"
  have ins: "LFU_insert E c req = Some (?c, Some ?b)"
    using i(1,6) a by (cases nd) (simp add: LFU_insert_def)
  have "same_core h ?h1" by (rule same_core_upd, rule i(6)) (simp add: core_def)
  then have core: "same_core h h2" using same_core_qframe [OF q] by (rule same_core_trans)
  have pay: "same_payload (set xs) (store c) h2"
    using same_payload_trans [OF _ same_payload_qframe [OF q, of "set xs"]] i(3,5) by simp
  have d: "set xs = dom (store c)" using bag_at_dom [OF x(1)] by simp
  obtain ob2 where ob2: "h2 ?b = Some ob2" "noq ob2 = noq (ob\<lparr>lfu_freq := 1\<rparr>)"
    using qframe_obj [OF q, of ?b "ob\<lparr>lfu_freq := 1\<rparr>"] by auto
  have f2: "lfu_freq ob2 = 1" using arg_cong [OF ob2(2), of lfu_freq] by simp
  have "obj_id ob2 = obj_id (payload ob)" "obj_size ob2 = obj_size (payload ob)"
    using arg_cong [OF ob2(2), of obj_id] arg_cong [OF ob2(2), of obj_size] by simp_all
  then have v2: "lfu_view ob2 = (req_obj_id req, req_obj_size req, 1)" using f2 by (simp add: i(7) lfu_view_def)
  have "views lfu_view h2 xs = es"
    using lfu_obj.same_payload_views [OF pay, of xs] x(1) d by (simp add: bag_at_def)
  then have v: "views lfu_view h2 (xs @ [?b]) = es @ [(req_obj_id req, req_obj_size req, 1)]" using ob2(1) v2 by simp
  have "bag_at lfu_view E W ((grown ?d h ht (req_obj_size req))\<lparr>store := h2\<rparr>) (xs @ [?b]) (views lfu_view h2 (xs @ [?b]))"
    by (rule bag_at_store [OF i(2)]) (use core i(2) in \<open>simp_all add: bag_at_def\<close>)
  then have bag: "bag_at lfu_view E W ?c (xs @ [?b]) (es @ [(req_obj_id req, req_obj_size req, 1)])"
    unfolding bag_at_fields v .
  have "lev h2 xs = ?L" by (rule lev_payload [OF pay]) (use d in auto)
  then have lv: "lev h2 (xs @ [?b]) = ?L(1 := ?L 1 @ [?b])" using ob2(1) f2 by (auto simp: lev_def fun_eq_iff)
  have "\<forall>f < 1. ?L f = []" using mins_ok_bounds [OF x(3)] by fastforce
  then have "mins_ok ?P2 (?L(1 := ?L 1 @ [?b]))" using x(3) by (auto simp: mins_ok_def least_level_def)
  with l bag lv have "LFU_at G E W ?c (xs @ [?b]) (es @ [(req_obj_id req, req_obj_size req, 1)])"
    by (simp add: LFU_at_def)
  with ins show ?thesis by (auto simp: LFU_R_def same_limits_def)
qed

lemma LFU_find_miss:
  assumes "LFU_R G E W c es" and "req_obj_id req \<notin> fst ` set es"
  shows "LFU_find E G None c req u = Some (c, NULL)"
proof -
  from assms(1) obtain xs where "bag_at lfu_view E W c xs es" by (auto simp: LFU_R_def LFU_at_def)
  from lfu_obj.bag_find(1) [OF this assms(2)] show ?thesis by (simp add: LFU_find_def)
qed

lemma LFU_find_hit:
  assumes "LFU_R G E W c es" and "req_obj_id req \<in> fst ` set es"
  shows "\<exists>c' p. LFU_find E G None c req True = Some (c', p) \<and> p \<noteq> NULL \<and> same_limits c c'
    \<and> admissioner c' = admissioner c \<and> LFU_R G E W c' (lfu_hit (req_obj_id req) es)"
proof -
  let ?P = "eviction_params c"
  from assms(1) obtain xs where x: "bag_at lfu_view E W c xs es" "levels_ok G (store c) ?P (lev (store c) xs)"
    "mins_ok ?P (lev (store c) xs)" by (auto simp: LFU_R_def LFU_at_def)
  from lfu_obj.bag_object [OF x(1) assms(2)] obtain us a vs ob where
    o: "xs = us @ a # vs" "store c a = Some ob" "obj_id ob = req_obj_id req"
    "es = views lfu_view (store c) us @ lfu_view ob # views lfu_view (store c) vs"
    "req_obj_id req \<notin> fst ` set (views lfu_view (store c) us)"
    "req_obj_id req \<notin> fst ` set (views lfu_view (store c) vs)" by metis
  let ?f = "lfu_freq ob + 1" and ?ob = "(touched req ob)\<lparr>lfu_freq := lfu_freq ob + 1\<rparr>" and ?L = "lev (store c) xs"
  let ?h = "(store c)(a \<mapsto> ?ob)"
  let ?P1 = "if LFU_max_freq ?P < ?f then ?P\<lparr>LFU_max_freq := ?f\<rparr> else ?P"
  have "levels_ok G ?h ?P ?L"
    by (rule levels_store [OF x(2)], erule dll_cong [rotated]) (use o(2) in \<open>auto simp: touched_def\<close>)
  then have l1: "levels_ok G ?h ?P1 ?L" by simp
  have m1: "mins_ok ?P1 ?L" "?f \<le> LFU_max_freq ?P1" using x(3) by (fastforce simp: mins_ok_def)+
  have L: "?L (?f - 1) = lev (store c) us (lfu_freq ob) @ a # lev (store c) vs (lfu_freq ob)"
    using lev_Cons(1) [where h = "store c" and a = a and ob = ob, OF o(2)] o(1) by simp
  from LFU_promote_ok [OF l1 m1(1) L _ m1(2)] obtain h2 P2 where
    p: "LFU_promote G ?h ?P1 (Some a) ?f = Some (h2, P2)" "qframe UNIV ?h h2"
    "levels_ok G h2 P2 (?L(?f - 1 := lev (store c) us (lfu_freq ob) @ lev (store c) vs (lfu_freq ob), ?f := ?L ?f @ [a]))"
    "mins_ok P2 (?L(?f - 1 := lev (store c) us (lfu_freq ob) @ lev (store c) vs (lfu_freq ob), ?f := ?L ?f @ [a]))"
    by auto
  let ?c = "c\<lparr>store := h2, eviction_params := P2\<rparr>" and ?ys = "us @ vs @ [a]"
  have find: "LFU_find E G None c req True = Some (?c, Some a)"
    using lfu_obj.bag_find(2) [OF x(1) o(2,3), of "LFU_remove E G" True] p(1)
    by (cases "LFU_max_freq ?P < ?f") (simp_all add: LFU_find_def touched_def)
  have "same_core (store c) ?h" by (rule same_core_upd, rule o(2)) (simp add: core_def touched_def)
  then have core: "same_core (store c) h2" using same_core_qframe [OF p(2)] by (rule same_core_trans)
  obtain ob2 where ob2: "h2 a = Some ob2" "noq ob2 = noq ?ob" using qframe_obj [OF p(2), of a ?ob] by auto
  have f2: "lfu_freq ob2 = ?f" "lfu_view ob2 = (obj_id ob, obj_size ob, ?f)"
    using arg_cong [OF ob2(2), of lfu_freq] arg_cong [OF ob2(2), of obj_id] arg_cong [OF ob2(2), of obj_size]
    by (simp_all add: lfu_view_def touched_def)
  have dis: "distinct (us @ a # vs)" using x(1) o(1) by (simp add: bag_at_def)
  have d: "set (us @ vs) \<subseteq> dom (store c)" using bag_at_dom [OF x(1)] o(1) by auto
  have pay: "same_payload (set (us @ vs)) (store c) h2"
    using same_payload_trans [OF _ same_payload_qframe [OF p(2), of "set (us @ vs)"], of "store c"] dis by simp
  have "views lfu_view h2 (us @ vs) = views lfu_view (store c) (us @ vs)"
    by (rule lfu_obj.same_payload_views [OF pay]) (use d in auto)
  then have "views lfu_view h2 ?ys = views lfu_view (store c) us @ views lfu_view (store c) vs @ [lfu_view ob2]"
    using ob2(1) by simp
  also have "\<dots> = lfu_hit (req_obj_id req) es"
    using lfu_hit_split [OF o(5,6), of "obj_size ob" "lfu_freq ob"] o(3,4) f2(2) by (simp add: lfu_view_def [of ob])
  finally have "views lfu_view h2 ?ys = lfu_hit (req_obj_id req) es" .
  then have bag: "bag_at lfu_view E W ?c ?ys (lfu_hit (req_obj_id req) es)"
    using bag_at_store [OF x(1) core, of ?ys] o(1) dis by (auto simp: bag_at_def)
  have "lev h2 (us @ vs) = lev (store c) (us @ vs)" by (rule lev_payload [OF pay]) (use d in auto)
  then have "lev h2 ?ys = ?L(?f - 1 := lev (store c) us (lfu_freq ob) @ lev (store c) vs (lfu_freq ob), ?f := ?L ?f @ [a])"
    using ob2(1) f2(1) o(1,2) by (auto simp: lev_def fun_eq_iff)
  with bag p(3,4) have "LFU_at G E W ?c ?ys (lfu_hit (req_obj_id req) es)" by (simp add: LFU_at_def)
  with find show ?thesis by (auto simp: LFU_R_def same_limits_def)
qed

subsection \<open>The policy\<close>

lemma lfu_hit_props:
  assumes "i \<in> fst ` set es" and "distinct (map fst es)"
  shows "fst ` set (lfu_hit i es) = fst ` set es" "view_bytes fst md (lfu_hit i es) = view_bytes fst md es"
proof -
  from assms(1) obtain e where "e \<in> set es" "fst e = i" by blast
  then obtain us n f vs where es: "es = us @ (i, n, f) # vs" by (metis prod.collapse split_list)
  then have "lfu_hit i es = us @ vs @ [(i, n, f + 1)]" using lfu_hit_split [of i us vs n f] assms(2) by simp
  then show "fst ` set (lfu_hit i es) = fst ` set es" "view_bytes fst md (lfu_hit i es) = view_bytes fst md es"
    by (auto simp: es view_bytes_def)
qed

lemma LFU_R_facts:
  assumes "LFU_R G E W c es"
  shows "distinct (map fst es)" "resident c = fst ` set es" "occupied_byte c = view_bytes fst (obj_md_size c) es"
proof -
  from assms obtain xs where "bag_at lfu_view E W c xs es" by (auto simp: LFU_R_def LFU_at_def)
  from lfu_obj.bag_at_facts(1,3,4) [OF this] show "distinct (map fst es)" "resident c = fst ` set es"
    "occupied_byte c = view_bytes fst (obj_md_size c) es" by auto
qed

interpretation lfu: refined_policy "LFU_ops E G None" "LFU_R G E W" lfu_machine "\<lambda>req. req_obj_id req \<in> fst W"
  for E G W
proof (standard, goal_cases)
  case (6 c s req)
  show ?case
  proof (cases "req_obj_id req \<in> fst ` set s")
    case True
    with LFU_find_hit [OF 6(1) True] show ?thesis by (auto simp: LFU_ops_def)
  next
    case False
    with LFU_find_miss [OF 6(1) False, of True] 6(1) show ?thesis by (simp add: LFU_ops_def)
  qed
next
  case (7 c s req)
  then show ?case using LFU_evict_refines [of G E W c s req] by (simp add: LFU_ops_def)
next
  case (8 c s req)
  then show ?case using LFU_insert_refines [of G E W c s req] by (auto simp: LFU_ops_def)
next
  case (10 c s req md)
  then show ?case using lfu_hit_props LFU_R_facts(1) [OF 10(1)] by simp
next
  case (11 c s)
  then show ?case using lfu_victim_least(1) [of s] by (auto simp: queue_delete_def)
qed (auto simp: LFU_ops_def LFU_R_facts LFU_R_def LFU_at_def cache_get_occupied_byte_default_def view_bytes_def)

lemma LFU_init_R:
  assumes "ghash_ok G" "spread E W" "\<not> support_ttl E" "0 < ccp_hashpower p" "ccp_hashpower p < 40"
    "int (snd W) \<le> ccp_hashpower p"
  shows "LFU_R G E W (LFU_init G pf0 p s) []"
proof -
  have "bag_at lfu_view E W (LFU_init G pf0 p s) [] []"
    by (rule bag_at_empty) (use assms in \<open>simp_all add: LFU_init_def cache_ok_init\<close>)
  moreover have "levels_ok G (store (LFU_init G pf0 p s)) (eviction_params (LFU_init G pf0 p s)) (\<lambda>f. [])"
    using assms(1) by (simp add: LFU_init_def levels_ok_def level_ok_def node_ok_def g_lookup_simps)
  moreover have "mins_ok (eviction_params (LFU_init G pf0 p s)) (\<lambda>f. [])" by (simp add: LFU_init_def mins_ok_def)
  moreover have "lev h [] = (\<lambda>f. [])" for h by (simp add: lev_def fun_eq_iff)
  ultimately show ?thesis unfolding LFU_R_def LFU_at_def by metis
qed

lemma LFU_init_fields [simp]:
  "cache_size (LFU_init G pf0 p s) = ccp_cache_size p"
  "obj_md_size (LFU_init G pf0 p s) = (if ccp_consider_obj_metadata p then 16 else 0)"
  "admissioner (LFU_init G pf0 p s) = None"
  by (simp_all add: LFU_init_def)

section \<open>Properties\<close>

text \<open>
  C11: an LFU cache behaves, on every trace from its initialisation, like one list of its objects with
  their counts: a hit raises the count of the object and moves it behind the others, an eviction takes
  the first object with the least count, and a new object enters at the end with count 1.  The code
  returns for every request, the hits it reports are those of the list, and it ends with the objects of
  the list; the queues of the frequencies, the hash table from the frequencies to them and the cached
  least frequency stay consistent throughout.
\<close>

theorem LFU_serve_refines:
  assumes "ghash_ok G" and "spread E W" and "\<not> support_ttl E" and "0 < ccp_hashpower p" and "ccp_hashpower p < 40"
    and "int (snd W) \<le> ccp_hashpower p" and "\<forall>req \<in> set reqs. req_obj_id req \<in> fst W"
  shows "\<exists>c es hits. serve (LFU_ops E G None) None (LFU_init G pf0 p s) reqs = Some (c, hits)
    \<and> spec_serve lfu_machine (ccp_cache_size p) (if ccp_consider_obj_metadata p then 16 else 0) [] reqs
        = Some (es, hits)
    \<and> LFU_R G E W c es"
  using lfu.serve_refines [OF LFU_init_R [OF assms(1-6), of pf0 s] assms(7)] by fastforce

theorem LFU_serve_refines_witness:
  "\<exists>c :: (unit, unit, int \<Rightarrow> int) lfu_cache.
     serve (LFU_ops sample_env fun_ghash None) None (LFU_init fun_ghash () (sample_params 5) None)
       [sample_req 1 2, sample_req 2 2, sample_req 1 2, sample_req 3 1, sample_req 4 3, sample_req 1 2]
       = Some (c, [False, False, True, False, False, True])
     \<and> LFU_R fun_ghash sample_env sample_ids c [(4, 3, 1), (1, 2, 3)]"
  using LFU_serve_refines [of fun_ghash sample_env sample_ids "sample_params 5"
      "[sample_req 1 2, sample_req 2 2, sample_req 1 2, sample_req 3 1, sample_req 4 3, sample_req 1 2]"
      "()" None]
  by (simp add: spec_get_def spec_evict.simps lfu_hit_def lfu_victim_def least_count_def queue_delete_def view_bytes_def
      del: serve.simps) blast

end
