(* ===== verification/MRU.thy ===== *)
theory MRU
  imports Queue_Refine
begin

text \<open>
  The MRU cache (\<open>cache/eviction/MRU.c\<close>), which evicts the head of the recency list.  Its eviction
  writes to the successor of the head without a test for \<open>NULL\<close>, so the code fails when the victim is
  the only object.  The theorem at the end says exactly on which traces the code returns, and with
  which hits.
\<close>

section \<open>Model\<close>

record MRU_params_t =
  MRU_q_head :: ptr
  MRU_q_tail :: ptr

definition MRU_init ::
    "'f \<Rightarrow> common_cache_params_t \<Rightarrow> string option \<Rightarrow> ('a, 'f, MRU_params_t) cache_t" where
  "MRU_init pf0 ccache_params cache_specific_params =
    cache_struct_init ''MRU'' ccache_params cache_specific_params pf0
      \<lparr>MRU_q_head = NULL, MRU_q_tail = NULL\<rparr>"

definition MRU_remove ::
    "env \<Rightarrow> ('a, 'f, MRU_params_t) cache_t \<Rightarrow> obj_id_t \<Rightarrow>
     (('a, 'f, MRU_params_t) cache_t \<times> bool) option" where
  "MRU_remove E c i = do {
     obj \<leftarrow> chained_hashtable_find_obj_id_v2 E (store c) (hashtable c) i;
     if obj = NULL then Some (c, False)
     else do {
       let params = eviction_params c;
       (h, qh, qt) \<leftarrow> remove_obj_from_list (store c) (MRU_q_head params) (MRU_q_tail params) obj;
       c \<leftarrow> cache_remove_obj_base E
         (c\<lparr>store := h, eviction_params := params\<lparr>MRU_q_head := qh, MRU_q_tail := qt\<rparr>\<rparr>) obj True;
       Some (c, True) } }"

definition MRU_find ::
    "env \<Rightarrow> ('a, 'f, MRU_params_t) cache_t prefetcher_t option \<Rightarrow> ('a, 'f, MRU_params_t) cache_t \<Rightarrow>
     request \<Rightarrow> bool \<Rightarrow> (('a, 'f, MRU_params_t) cache_t \<times> ptr) option" where
  "MRU_find E pf c req update_cache = do {
     (c, cache_obj) \<leftarrow> cache_find_base E pf (MRU_remove E) c req update_cache;
     if cache_obj \<noteq> NULL \<and> update_cache then do {
       let params = eviction_params c;
       (h, qh, qt) \<leftarrow> move_obj_to_head (store c) (MRU_q_head params) (MRU_q_tail params) cache_obj;
       Some (c\<lparr>store := h, eviction_params := params\<lparr>MRU_q_head := qh, MRU_q_tail := qt\<rparr>\<rparr>, cache_obj) }
     else Some (c, cache_obj) }"

definition MRU_insert ::
    "env \<Rightarrow> ('a, 'f, MRU_params_t) cache_t \<Rightarrow> request \<Rightarrow>
     (('a, 'f, MRU_params_t) cache_t \<times> ptr) option" where
  "MRU_insert E c req = do {
     (c, obj) \<leftarrow> cache_insert_base E c req;
     let params = eviction_params c;
     (h, qh, qt) \<leftarrow> prepend_obj_to_head (store c) (MRU_q_head params) (MRU_q_tail params) obj;
     Some (c\<lparr>store := h, eviction_params := params\<lparr>MRU_q_head := qh, MRU_q_tail := qt\<rparr>\<rparr>, obj) }"

definition MRU_to_evict ::
    "('a, 'f, MRU_params_t) cache_t \<Rightarrow> request \<Rightarrow> (('a, 'f, MRU_params_t) cache_t \<times> ptr) option" where
  "MRU_to_evict c req = Some (c, MRU_q_head (eviction_params c))"

definition MRU_evict ::
    "env \<Rightarrow> ('a, 'f, MRU_params_t) cache_t prefetcher_t option \<Rightarrow>
     ('a, 'f, MRU_params_t) cache_t \<Rightarrow> request \<Rightarrow> ('a, 'f, MRU_params_t) cache_t option" where
  "MRU_evict E pf c req = do {
     (c, obj_to_evict) \<leftarrow> MRU_to_evict c req;
     let params = eviction_params c;
     ob \<leftarrow> deref (store c) (MRU_q_head params);
     let params = params\<lparr>MRU_q_head := q_next ob\<rparr>;
     h \<leftarrow> set_prev (store c) (MRU_q_head params) NULL;
     cache_evict_base E pf (c\<lparr>store := h, eviction_params := params\<rparr>) obj_to_evict True }"

definition MRU_ops ::
    "env \<Rightarrow> ('a, 'f, MRU_params_t) cache_t prefetcher_t option \<Rightarrow>
     ('a, 'f, MRU_params_t) cache_t cache_ops" where
  "MRU_ops E pf = \<lparr>op_find = MRU_find E pf, op_can_insert = cache_can_insert_default,
     op_insert = MRU_insert E, op_evict = MRU_evict E pf, op_remove = MRU_remove E,
     op_to_evict = MRU_to_evict, op_get_occupied_byte = cache_get_occupied_byte_default,
     op_get_n_obj = cache_get_n_obj_default\<rparr>"

definition MRU_get ::
    "env \<Rightarrow> ('a, 'f, MRU_params_t) cache_t prefetcher_t option \<Rightarrow> ('a, 'f, MRU_params_t) cache_t \<Rightarrow>
     request \<Rightarrow> (('a, 'f, MRU_params_t) cache_t \<times> bool) option" where
  "MRU_get E pf c req = cache_get_base (MRU_ops E pf) pf c req"

section \<open>The abstract machine\<close>

text \<open>
  The recency list, most recent object first.  \<open>None\<close> stands for the failure of the code: the list has
  to shrink below one object.
\<close>

fun mru_trim :: "int \<Rightarrow> int queue \<Rightarrow> int queue option" where
  "mru_trim room [] = (if 0 > room then None else Some [])"
| "mru_trim room [e] = (if queue_bytes 0 [e] > room then None else Some [e])"
| "mru_trim room (e # f # es) =
    (if queue_bytes 0 (e # f # es) > room then mru_trim room (f # es) else Some (e # f # es))"

definition mru_get :: "int \<Rightarrow> request \<Rightarrow> int queue \<Rightarrow> (int queue \<times> bool) option" where
  "mru_get cap req es =
    (if req_obj_id req \<in> fst ` set es then Some (queue_promote (req_obj_id req) es, True)
     else if req_obj_size req > cap then Some (es, False)
     else map_option (\<lambda>es. ((req_obj_id req, req_obj_size req) # es, False))
       (mru_trim (cap - req_obj_size req) es))"

fun mru_serve :: "int \<Rightarrow> int queue \<Rightarrow> request list \<Rightarrow> (int queue \<times> bool list) option" where
  "mru_serve cap es [] = Some (es, [])"
| "mru_serve cap es (req # reqs) = do {
     (es, hit) \<leftarrow> mru_get cap req es;
     (es, hits) \<leftarrow> mru_serve cap es reqs;
     Some (es, hit # hits) }"

section \<open>Refinement\<close>

definition MRU_R :: "env \<Rightarrow> trace_ids \<Rightarrow> ('a, 'f, MRU_params_t) cache_t \<Rightarrow> int queue \<Rightarrow> bool" where
  "MRU_R E W c es \<longleftrightarrow> obj_md_size c = 0 \<and> admissioner c = None \<and>
     queue_R basic_view E W c (MRU_q_head (eviction_params c)) (MRU_q_tail (eviction_params c)) es"

lemma unlink_head_dll:
  assumes "dll h qh qt (a # b # xs)" and "h a = Some ob"
  shows "\<exists>h'. q_next ob = Some b \<and> set_prev h (Some b) NULL = Some h' \<and> dll h' (Some b) qt (b # xs)
    \<and> qframe (set (a # b # xs)) h h'"
  using assms by (auto simp: dll_def intro!: qframe_upd)

lemma MRU_find_refines:
  assumes "MRU_R E W c es"
  shows "\<exists>c' p. MRU_find E None c req True = Some (c', p) \<and> cache_size c' = cache_size c
    \<and> (if req_obj_id req \<in> fst ` set es then p \<noteq> NULL \<and> MRU_R E W c' (queue_promote (req_obj_id req) es)
       else p = NULL \<and> MRU_R E W c' es)"
proof -
  let ?p = "eviction_params c"
  have R: "queue_R basic_view E W c (MRU_q_head ?p) (MRU_q_tail ?p) es" and z: "obj_md_size c = 0" "admissioner c = None"
    using assms by (auto simp: MRU_R_def)
  show ?thesis
  proof (cases "req_obj_id req \<in> fst ` set es")
    case True
    from basic.queue_find(2) [OF R True, of "MRU_remove E" True] obtain a h ob where
      f: "cache_find_base E None (MRU_remove E) c req True = Some (c\<lparr>store := h\<rparr>, Some a)"
      "queue_R basic_view E W (c\<lparr>store := h\<rparr>) (MRU_q_head ?p) (MRU_q_tail ?p) es"
      "h a = Some ob" "obj_id ob = req_obj_id req" by auto
    from basic.queue_move_to_head [OF f(2), of a ob] f(3,4) obtain h' qh qt where
      m: "move_obj_to_head h (MRU_q_head ?p) (MRU_q_tail ?p) (Some a) = Some (h', qh, qt)"
      "queue_R basic_view E W (c\<lparr>store := h'\<rparr>) qh qt (queue_promote (req_obj_id req) es)" by auto
    then have "MRU_R E W (c\<lparr>store := h', eviction_params := ?p\<lparr>MRU_q_head := qh, MRU_q_tail := qt\<rparr>\<rparr>)
        (queue_promote (req_obj_id req) es)" using z by (simp add: MRU_R_def)
    with f(1) m(1) True show ?thesis by (simp add: MRU_find_def)
  next
    case False
    with basic.queue_find(1) [OF R False] assms show ?thesis by (simp add: MRU_find_def)
  qed
qed

lemma MRU_insert_refines:
  assumes "MRU_R E W c es" and "req_obj_id req \<in> fst W" and "req_obj_id req \<notin> fst ` set es"
  shows "\<exists>c' p. MRU_insert E c req = Some (c', p) \<and> cache_size c' = cache_size c
    \<and> MRU_R E W c' ((req_obj_id req, req_obj_size req) # es)"
proof -
  let ?p = "eviction_params c"
  have R: "queue_R basic_view E W c (MRU_q_head ?p) (MRU_q_tail ?p) es" and z: "obj_md_size c = 0" "admissioner c = None"
    using assms(1) by (auto simp: MRU_R_def)
  from basic.queue_insert [OF R assms(2,3)] obtain h ht h' qh qt where
    i: "cache_insert_base E c req = Some (grown c h ht (req_obj_size req), Some (brk c))"
    "prepend_obj_to_head h (MRU_q_head ?p) (MRU_q_tail ?p) (Some (brk c)) = Some (h', qh, qt)"
    "queue_R basic_view E W (grown c h' ht (req_obj_size req)) qh qt ((req_obj_id req, req_obj_size req) # es)"
    by auto
  let ?q = "?p\<lparr>MRU_q_head := qh, MRU_q_tail := qt\<rparr>"
  have "MRU_insert E c req = Some ((grown c h' ht (req_obj_size req))\<lparr>eviction_params := ?q\<rparr>, Some (brk c))"
    using i(1,2) by (simp add: MRU_insert_def)
  moreover have "queue_R basic_view E W ((grown c h' ht (req_obj_size req))\<lparr>eviction_params := ?q\<rparr>) qh qt
      ((req_obj_id req, req_obj_size req) # es)" using i(3) by (simp only: queue_R_fields)
  ultimately show ?thesis using z by (auto simp: MRU_R_def)
qed

text \<open>The eviction fails on fewer than two objects and removes the most recent one otherwise.\<close>

lemma MRU_evict_few:
  assumes "MRU_R E W c es" and "length es < 2"
  shows "MRU_evict E pf c req = None"
proof -
  from assms(1) obtain xs where x: "dll (store c) (MRU_q_head (eviction_params c)) (MRU_q_tail (eviction_params c)) xs"
    "es = views basic_view (store c) xs" unfolding MRU_R_def by (auto elim: basic.queue_R_E)
  with assms(2) consider "xs = []" | a where "xs = [a]" by (cases xs rule: list.exhaust) (auto simp: Suc_less_eq2 split: list.splits)
  then show ?thesis
    using x(1) by cases (auto simp: MRU_evict_def MRU_to_evict_def dll_def)
qed

lemma MRU_evict_head:
  assumes "MRU_R E W c (e # f # es)"
  shows "\<exists>c'. MRU_evict E None c req = Some c' \<and> cache_size c' = cache_size c \<and> MRU_R E W c' (f # es)"
proof -
  let ?p = "eviction_params c"
  have R: "queue_R basic_view E W c (MRU_q_head ?p) (MRU_q_tail ?p) (e # f # es)"
    and z: "obj_md_size c = 0" "admissioner c = None" using assms by (auto simp: MRU_R_def)
  from R obtain xs where x: "spread E W" "\<not> support_ttl E" "cache_ok E W c (set xs)"
    "dll (store c) (MRU_q_head ?p) (MRU_q_tail ?p) xs" "e # f # es = views basic_view (store c) xs" "distinct xs"
    by (elim basic.queue_R_E) 
  then obtain a b ys where xs: "xs = a # b # ys" by (auto simp: Cons_eq_map_conv)
  from dll_live [OF x(4), of a] xs obtain ob where ob: "store c a = Some ob" by auto
  from unlink_head_dll [OF x(4) [unfolded xs] ob] obtain h where
    u: "q_next ob = Some b" "set_prev (store c) (Some b) NULL = Some h"
    "dll h (Some b) (MRU_q_tail ?p) (b # ys)" "qframe (set (a # b # ys)) (store c) h" by blast
  have head: "MRU_q_head ?p = Some a" using x(4) xs by (simp add: dll_def)
  let ?q = "?p\<lparr>MRU_q_head := Some b\<rparr>"
  from basic.queue_remove_unlinked [where xs = "[]" and a = a and ys = "b # ys" and p = ?q, simplified,
      OF x(1,2) _ _ ob u(4,3)] x(3,6) xs obtain h' ht where
    r: "cache_remove_obj_base E (c\<lparr>store := h, eviction_params := ?q\<rparr>) (Some a) True
      = Some (shrunk (c\<lparr>store := h, eviction_params := ?q\<rparr>) h' ht (obj_size ob))"
    "queue_at basic_view E W (shrunk (c\<lparr>store := h, eviction_params := ?q\<rparr>) h' ht (obj_size ob)) (Some b)
      (MRU_q_tail ?p) (b # ys) (views basic_view (store c) (b # ys))" by auto
  have "views basic_view (store c) (b # ys) = f # es" using x(5) xs by simp
  with r(2) z have "MRU_R E W (shrunk (c\<lparr>store := h, eviction_params := ?q\<rparr>) h' ht (obj_size ob)) (f # es)"
    by (auto simp: MRU_R_def queue_R_def)
  moreover have "MRU_evict E None c req = Some (shrunk (c\<lparr>store := h, eviction_params := ?q\<rparr>) h' ht (obj_size ob))"
    using head ob u(1,2) r(1) by (simp add: MRU_evict_def MRU_to_evict_def)
  ultimately show ?thesis by auto
qed

section \<open>Requests and traces\<close>

text \<open>The outcome of the code, against the outcome of the machine.\<close>

definition mru_agrees ::
    "env \<Rightarrow> trace_ids \<Rightarrow> int \<Rightarrow> (('a, 'f, MRU_params_t) cache_t \<times> 'r) option \<Rightarrow> (int queue \<times> 'r) option \<Rightarrow> bool" where
  "mru_agrees E W cap x y \<longleftrightarrow> (case y of None \<Rightarrow> x = None
     | Some (es, r) \<Rightarrow> \<exists>c. x = Some (c, r) \<and> MRU_R E W c es \<and> cache_size c = cap)"

lemma MRU_R_bytes:
  assumes "MRU_R E W c es"
  shows "occupied_byte c = queue_bytes 0 es"
proof -
  have "queue_R basic_view E W c (MRU_q_head (eviction_params c)) (MRU_q_tail (eviction_params c)) es"
    "obj_md_size c = 0" using assms by (simp_all add: MRU_R_def)
  from basic.queue_R_bytes(1) [OF this(1)] this(2) show ?thesis by simp
qed

lemma MRU_evict_until_fits:
  "MRU_R E W c es \<Longrightarrow>
   case mru_trim (cache_size c - req_obj_size req) es of
     None \<Rightarrow> evict_until_fits (MRU_ops E None) c req = None
   | Some es' \<Rightarrow> \<exists>c'. evict_until_fits (MRU_ops E None) c req = Some c' \<and> MRU_R E W c' es'
       \<and> cache_size c' = cache_size c \<and> fst ` set es' \<subseteq> fst ` set es"
proof (induction "cache_size c - req_obj_size req" es arbitrary: c rule: mru_trim.induct)
  case (1 c)
  then show ?case using MRU_evict_few [OF 1] MRU_R_bytes [OF 1]
    by (subst (1 2) evict_until_fits.simps) (simp add: MRU_ops_def MRU_R_def cache_get_occupied_byte_default_def)
next
  case (2 e c)
  then show ?case using MRU_evict_few [OF 2] MRU_R_bytes [OF 2]
    by (subst (1 2) evict_until_fits.simps) (simp add: MRU_ops_def MRU_R_def cache_get_occupied_byte_default_def)
next
  case (3 e f es c)
  note occ = MRU_R_bytes [OF 3(2)]
  show ?case
  proof (cases "queue_bytes 0 (e # f # es) > cache_size c - req_obj_size req")
    case True
    from MRU_evict_head [OF 3(2), of req] obtain c1 where
      c1: "MRU_evict E None c req = Some c1" "cache_size c1 = cache_size c" "MRU_R E W c1 (f # es)" by blast
    have "evict_until_fits (MRU_ops E None) c req = evict_until_fits (MRU_ops E None) c1 req"
      using True occ c1(1) 3(2)
      by (subst evict_until_fits.simps) (simp add: MRU_ops_def MRU_R_def cache_get_occupied_byte_default_def)
    with 3(1) [OF True _ c1(3)] True c1(2) show ?thesis by (auto split: option.splits)
  next
    case False
    then have "evict_until_fits (MRU_ops E None) c req = Some c"
      using occ 3(2) by (subst evict_until_fits.simps) (simp add: MRU_ops_def MRU_R_def cache_get_occupied_byte_default_def)
    with False 3(2) show ?thesis by simp
  qed
qed

lemma MRU_get_exact:
  assumes "MRU_R E W c es" and "req_obj_id req \<in> fst W"
  shows "mru_agrees E W (cache_size c) (cache_get_base (MRU_ops E None) None c req) (mru_get (cache_size c) req es)"
proof -
  let ?c = "c\<lparr>n_req := n_req c + 1\<rparr>"
  have "MRU_R E W ?c es" using assms(1) by (simp add: MRU_R_def)
  from MRU_find_refines [OF this, of req] obtain c1 p where
    f: "MRU_find E None ?c req True = Some (c1, p)" "cache_size c1 = cache_size c"
    "if req_obj_id req \<in> fst ` set es then p \<noteq> NULL \<and> MRU_R E W c1 (queue_promote (req_obj_id req) es)
       else p = NULL \<and> MRU_R E W c1 es" by auto
  show ?thesis
  proof (cases "req_obj_id req \<in> fst ` set es")
    case True
    with f have "cache_get_base (MRU_ops E None) None c req = Some (c1, True)"
      by (auto simp: cache_get_base_def MRU_ops_def call_admissioner_update_def MRU_R_def)
    with True f show ?thesis by (simp add: mru_agrees_def mru_get_def)
  next
    case False
    with f have R: "p = NULL" "MRU_R E W c1 es" by simp_all
    then have "call_admissioner_update c1 req = c1" and
      can: "cache_can_insert_default c1 req = Some (c1, req_obj_size req \<le> cache_size c)"
      using f(2) by (auto simp: call_admissioner_update_def MRU_R_def cache_can_insert_default_def)
    then have g: "cache_get_base (MRU_ops E None) None c req = (if req_obj_size req > cache_size c then Some (c1, False)
        else do { c \<leftarrow> evict_until_fits (MRU_ops E None) c1 req; (c, p) \<leftarrow> MRU_insert E c req; Some (c, False) })"
      using f(1) R(1) by (auto simp: cache_get_base_def MRU_ops_def bind_eq_None_conv split: Option.bind_split)
    show ?thesis
    proof (cases "mru_trim (cache_size c - req_obj_size req) es")
      case None
      with MRU_evict_until_fits [OF R(2), of req] f(2) g False R(2) show ?thesis
        by (simp add: mru_agrees_def mru_get_def)
    next
      case (Some es')
      with MRU_evict_until_fits [OF R(2), of req] f(2) obtain c2 where
        e: "evict_until_fits (MRU_ops E None) c1 req = Some c2" "MRU_R E W c2 es'" "cache_size c2 = cache_size c"
        "fst ` set es' \<subseteq> fst ` set es" by auto
      with False have "req_obj_id req \<notin> fst ` set es'" by blast
      from MRU_insert_refines [OF e(2) assms(2) this] obtain c3 q where
        "MRU_insert E c2 req = Some (c3, q)" "cache_size c3 = cache_size c2"
        "MRU_R E W c3 ((req_obj_id req, req_obj_size req) # es')" by blast
      with False Some g f(2) R(2) e show ?thesis by (simp add: mru_agrees_def mru_get_def)
    qed
  qed
qed

lemma MRU_serve_exact:
  "MRU_R E W c es \<Longrightarrow> \<forall>req \<in> set reqs. req_obj_id req \<in> fst W \<Longrightarrow>
   mru_agrees E W (cache_size c) (serve (MRU_ops E None) None c reqs) (mru_serve (cache_size c) es reqs)"
proof (induction reqs arbitrary: c es)
  case Nil
  then show ?case by (simp add: mru_agrees_def)
next
  case (Cons req reqs)
  have g: "mru_agrees E W (cache_size c) (cache_get_base (MRU_ops E None) None c req) (mru_get (cache_size c) req es)"
    using MRU_get_exact [OF Cons.prems(1)] Cons.prems(2) by simp
  show ?case
  proof (cases "mru_get (cache_size c) req es")
    case None
    with g show ?thesis by (simp add: mru_agrees_def)
  next
    case (Some r)
    obtain es1 hit where r: "r = (es1, hit)" by fastforce
    with g Some obtain c1 where c1: "cache_get_base (MRU_ops E None) None c req = Some (c1, hit)"
      "MRU_R E W c1 es1" "cache_size c1 = cache_size c" by (auto simp: mru_agrees_def)
    from Cons.IH [OF c1(2)] Cons.prems(2) c1(3) have
      "mru_agrees E W (cache_size c) (serve (MRU_ops E None) None c1 reqs) (mru_serve (cache_size c) es1 reqs)" by simp
    then show ?thesis using Some r c1(1) by (cases "mru_serve (cache_size c) es1 reqs") (auto simp: mru_agrees_def)
  qed
qed

lemma MRU_init_R:
  assumes "spread E W" "\<not> support_ttl E" "0 < ccp_hashpower p" "ccp_hashpower p < 40"
    "int (snd W) \<le> ccp_hashpower p"
  shows "MRU_R E W (MRU_init pf0 p s) []" "cache_size (MRU_init pf0 p s) = ccp_cache_size p"
  using assms by (auto simp: MRU_R_def MRU_init_def cache_ok_init intro!: queue_R_empty)

section \<open>Properties\<close>

text \<open>
  C39: the exact behaviour of MRU.  On a trace on which the recency list never has to lose its only
  object, the code returns with the hits of that list and ends with its objects, whether or not the
  metadata is asked for; on every other trace it writes through \<open>NULL\<close>, at the first request that
  needs the room of the only object.
\<close>

theorem MRU_serve_or_fails:
  assumes "spread E W" and "\<not> support_ttl E" and "0 < ccp_hashpower p" and "ccp_hashpower p < 40"
    and "int (snd W) \<le> ccp_hashpower p" and "\<forall>req \<in> set reqs. req_obj_id req \<in> fst W"
  shows "case mru_serve (ccp_cache_size p) [] reqs of
      None \<Rightarrow> serve (MRU_ops E None) None (MRU_init pf0 p s :: ('a, 'f, MRU_params_t) cache_t) reqs = None
    | Some (es, hits) \<Rightarrow> \<exists>c. serve (MRU_ops E None) None (MRU_init pf0 p s :: ('a, 'f, MRU_params_t) cache_t) reqs
        = Some (c, hits) \<and> MRU_R E W c es"
proof -
  let ?c = "MRU_init pf0 p s :: ('a, 'f, MRU_params_t) cache_t"
  have "MRU_R E W ?c []" "cache_size ?c = ccp_cache_size p" by (rule MRU_init_R [OF assms(1-5)])+
  with MRU_serve_exact [OF this(1) assms(6)] show ?thesis by (auto simp: mru_agrees_def split: option.splits)
qed

theorem MRU_serve_or_fails_witness:
  "(\<exists>c :: (unit, unit, MRU_params_t) cache_t.
     serve (MRU_ops sample_env None) None (MRU_init () (sample_params 4) None)
       [sample_req 1 2, sample_req 2 2, sample_req 3 1, sample_req 1 2]
       = Some (c, [False, False, False, True]) \<and> MRU_R sample_env sample_ids c [(1, 2), (3, 1)])
   \<and> serve (MRU_ops sample_env None) None (MRU_init () (sample_params 1) None :: (unit, unit, MRU_params_t) cache_t)
       [sample_req 1 1, sample_req 2 1] = None"
proof -
  have "(\<exists>c :: (unit, unit, MRU_params_t) cache_t.
     serve (MRU_ops sample_env None) None (MRU_init () (sample_params 4) None)
       [sample_req 1 2, sample_req 2 2, sample_req 3 1, sample_req 1 2]
       = Some (c, [False, False, False, True]) \<and> MRU_R sample_env sample_ids c [(1, 2), (3, 1)])"
    using MRU_serve_or_fails [of sample_env sample_ids "sample_params 4"
        "[sample_req 1 2, sample_req 2 2, sample_req 3 1, sample_req 1 2]" "()" None]
    by (simp add: mru_get_def queue_promote_def queue_delete_def del: serve.simps)
  moreover have "serve (MRU_ops sample_env None) None (MRU_init () (sample_params 1) None :: (unit, unit, MRU_params_t) cache_t)
       [sample_req 1 1, sample_req 2 1] = None"
    using MRU_serve_or_fails [of sample_env sample_ids "sample_params 1" "[sample_req 1 1, sample_req 2 1]" "()" None]
    by (simp add: mru_get_def del: serve.simps)
  ultimately show ?thesis by blast
qed

end
