(* ===== verification/Simulation.thy ===== *)
theory Simulation
  imports Policy
begin

text \<open>
  The contract of the algorithms with several queues.  Their lookup may change the state on a miss
  as well (a ghost entry is taken out), their eviction may move an object instead of removing one,
  they decide themselves what they admit, and an insertion may place the object in one of several
  queues.  The locale \<open>simulated_policy\<close> states the laws of such an algorithm against an abstract
  machine, with a measure that every eviction decreases; from them the request path and every
  trace are shown to return, to agree with the machine and to stay within the capacity.
\<close>

record 's spec =
  s_ids :: "'s \<Rightarrow> obj_id_t set"
  s_bytes :: "'s \<Rightarrow> int"
  s_find :: "request \<Rightarrow> 's \<Rightarrow> 's"
  s_admit :: "request \<Rightarrow> 's \<Rightarrow> bool"
  s_evict :: "request \<Rightarrow> 's \<Rightarrow> 's"
  s_insert :: "request \<Rightarrow> 's \<Rightarrow> 's"

partial_function (option) sim_evict :: "'s spec \<Rightarrow> int \<Rightarrow> request \<Rightarrow> 's \<Rightarrow> 's option" where
  "sim_evict M cap req s =
    (if s_bytes M s + req_obj_size req > cap then sim_evict M cap req (s_evict M req s) else Some s)"

definition sim_get :: "'s spec \<Rightarrow> int \<Rightarrow> request \<Rightarrow> 's \<Rightarrow> ('s \<times> bool) option" where
  "sim_get M cap req s =
    (let s' = s_find M req s
     in if req_obj_id req \<in> s_ids M s then Some (s', True)
        else if \<not> s_admit M req s' then Some (s', False)
        else map_option (\<lambda>s. (s_insert M req s, False)) (sim_evict M cap req s'))"

fun sim_serve :: "'s spec \<Rightarrow> int \<Rightarrow> 's \<Rightarrow> request list \<Rightarrow> ('s \<times> bool list) option" where
  "sim_serve M cap s [] = Some (s, [])"
| "sim_serve M cap s (req # reqs) = do {
     (s, hit) \<leftarrow> sim_get M cap req s;
     (s, hits) \<leftarrow> sim_serve M cap s reqs;
     Some (s, hit # hits) }"

text \<open>What every eviction keeps, the loop keeps.\<close>

lemma sim_evict_invariant:
  assumes "sim_evict M cap req s = Some s'" and "I s" and "\<And>s. I s \<Longrightarrow> I (s_evict M req s)"
  shows "I s'"
proof -
  have "I s \<longrightarrow> (\<forall>s. I s \<longrightarrow> I (s_evict M req s)) \<longrightarrow> I s'"
    by (rule sim_evict.raw_induct [OF _ assms(1)]) (auto split: if_splits)
  then show ?thesis using assms by blast
qed

text \<open>
  The machines here charge no metadata: the capacity they see is the cache size less the metadata
  of the object that is inserted.
\<close>

locale simulated_policy =
  fixes ops :: "('a, 'f, 'p) cache_t cache_ops"
    and R :: "('a, 'f, 'p) cache_t \<Rightarrow> 's \<Rightarrow> bool"
    and M :: "'s spec"
    and ok_req :: "request \<Rightarrow> bool"
    and weight :: "'s \<Rightarrow> nat"
  assumes S_n_req: "R c s \<Longrightarrow> R (c\<lparr>n_req := n\<rparr>) s"
    and S_bytes: "R c s \<Longrightarrow> op_get_occupied_byte ops c = s_bytes M s"
    and S_find: "R c s \<Longrightarrow> ok_req req \<Longrightarrow> \<exists>c' p. op_find ops c req True = Some (c', p)
        \<and> same_limits c c' \<and> admissioner c' = admissioner c
        \<and> (p \<noteq> NULL \<longleftrightarrow> req_obj_id req \<in> s_ids M s) \<and> R c' (s_find M req s)
        \<and> s_ids M (s_find M req s) \<subseteq> s_ids M s \<and> s_bytes M (s_find M req s) \<le> s_bytes M s"
    and S_admit: "R c s \<Longrightarrow> admissioner c = None \<Longrightarrow> op_can_insert ops c req = Some (c, s_admit M req s)"
    and S_fits: "R c s \<Longrightarrow> s_admit M req s \<Longrightarrow> req_obj_size req + obj_md_size c \<le> cache_size c"
    and S_evict: "R c s \<Longrightarrow> ok_req req \<Longrightarrow> 0 < s_bytes M s \<Longrightarrow> \<exists>c'. op_evict ops c req = Some c'
        \<and> same_limits c c' \<and> admissioner c' = admissioner c \<and> R c' (s_evict M req s)
        \<and> weight (s_evict M req s) < weight s \<and> s_ids M (s_evict M req s) \<subseteq> s_ids M s"
    and S_insert: "R c s \<Longrightarrow> ok_req req \<Longrightarrow> req_obj_id req \<notin> s_ids M s \<Longrightarrow> s_admit M req s1 \<Longrightarrow>
        s_bytes M s + req_obj_size req \<le> cache_size c - obj_md_size c \<Longrightarrow>
        \<exists>c' p. op_insert ops c req = Some (c', p) \<and> same_limits c c' \<and> admissioner c' = admissioner c
        \<and> R c' (s_insert M req s) \<and> s_ids M (s_insert M req s) \<subseteq> insert (req_obj_id req) (s_ids M s)
        \<and> s_bytes M (s_insert M req s) \<le> s_bytes M s + req_obj_size req + obj_md_size c"
begin

abbreviation cap :: "('a, 'f, 'p) cache_t \<Rightarrow> int" where
  "cap c \<equiv> cache_size c - obj_md_size c"

lemma evict_simulates:
  "R c s \<Longrightarrow> ok_req req \<Longrightarrow> req_obj_size req \<le> cap c \<Longrightarrow>
   \<exists>c' s'. evict_until_fits ops c req = Some c' \<and> sim_evict M (cap c) req s = Some s' \<and> R c' s'
     \<and> same_limits c c' \<and> admissioner c' = admissioner c \<and> s_ids M s' \<subseteq> s_ids M s
     \<and> s_bytes M s' + req_obj_size req \<le> cap c"
proof (induction "weight s" arbitrary: c s rule: less_induct)
  case less
  note occ = S_bytes [OF less.prems(1)]
  show ?case
  proof (cases "s_bytes M s + req_obj_size req > cap c")
    case False
    then show ?thesis using less.prems occ by (auto simp: evict_until_fits.simps sim_evict.simps)
  next
    case True
    with less.prems(3) have "0 < s_bytes M s" by linarith
    from S_evict [OF less.prems(1,2) this] obtain c1 where
      c1: "op_evict ops c req = Some c1" "same_limits c c1" "admissioner c1 = admissioner c"
      "R c1 (s_evict M req s)" "weight (s_evict M req s) < weight s"
      "s_ids M (s_evict M req s) \<subseteq> s_ids M s" by blast
    have lim: "cap c1 = cap c" using c1(2) by (simp add: same_limits_def)
    from less.hyps [OF c1(5,4) less.prems(2)] less.prems(3) lim obtain c' s' where
      c': "evict_until_fits ops c1 req = Some c'" "sim_evict M (cap c) req (s_evict M req s) = Some s'"
      "R c' s'" "same_limits c1 c'" "admissioner c' = admissioner c1"
      "s_ids M s' \<subseteq> s_ids M (s_evict M req s)" "s_bytes M s' + req_obj_size req \<le> cap c" by auto
    have "evict_until_fits ops c req = Some c'"
      using True occ c1(1) c'(1) by (subst evict_until_fits.simps) simp
    moreover have "sim_evict M (cap c) req s = Some s'" using True c'(2) by (subst sim_evict.simps) simp
    ultimately show ?thesis using True c' c1 same_limits_trans [OF c1(2) c'(4)] by auto
  qed
qed

lemma get_simulates:
  assumes "R c s" and "ok_req req" and "admissioner c = None" and "s_bytes M s \<le> cache_size c"
  shows "\<exists>c' s' hit. cache_get_base ops None c req = Some (c', hit) \<and> R c' s'
    \<and> sim_get M (cap c) req s = Some (s', hit) \<and> same_limits c c' \<and> admissioner c' = None
    \<and> s_bytes M s' \<le> cache_size c'"
proof -
  let ?c0 = "c\<lparr>n_req := n_req c + 1\<rparr>" and ?s1 = "s_find M req s"
  from S_find [OF S_n_req [OF assms(1)] assms(2), of "n_req c + 1"] assms(3) obtain c1 p where
    f: "op_find ops ?c0 req True = Some (c1, p)" "same_limits c c1" "admissioner c1 = None"
    "p \<noteq> NULL \<longleftrightarrow> req_obj_id req \<in> s_ids M s" "R c1 ?s1" "s_ids M ?s1 \<subseteq> s_ids M s"
    "s_bytes M ?s1 \<le> s_bytes M s"
    by (auto simp: same_limits_def)
  have upd: "call_admissioner_update c1 req = c1" using f(3) by (simp add: call_admissioner_update_def)
  have lim: "cache_size c1 = cache_size c" "obj_md_size c1 = obj_md_size c"
    using f(2) by (auto simp: same_limits_def)
  note can = S_admit [OF f(5,3)]
  consider (hit) "req_obj_id req \<in> s_ids M s" | (refused) "req_obj_id req \<notin> s_ids M s" "\<not> s_admit M req ?s1"
    | (miss) "req_obj_id req \<notin> s_ids M s" "s_admit M req ?s1" by blast
  then show ?thesis
  proof cases
    case hit
    then have "cache_get_base ops None c req = Some (c1, True)"
      using f(1,4) upd by (auto simp: cache_get_base_def Let_def)
    then show ?thesis using hit f assms(4) lim by (auto simp: sim_get_def Let_def)
  next
    case refused
    then have "cache_get_base ops None c req = Some (c1, False)"
      using f(1,4) upd can by (auto simp: cache_get_base_def Let_def)
    then show ?thesis using refused f assms(4) lim by (auto simp: sim_get_def Let_def)
  next
    case miss
    have "req_obj_size req \<le> cap c1" using S_fits [OF f(5) miss(2)] by simp
    from evict_simulates [OF f(5) assms(2) this] lim f(3) obtain c2 s2 where
      e: "evict_until_fits ops c1 req = Some c2" "sim_evict M (cap c) req ?s1 = Some s2" "R c2 s2"
      "same_limits c1 c2" "admissioner c2 = None" "s_ids M s2 \<subseteq> s_ids M ?s1"
      "s_bytes M s2 + req_obj_size req \<le> cap c" by auto
    have "req_obj_id req \<notin> s_ids M s2" using miss(1) e(6) f(6) by auto
    moreover have "s_bytes M s2 + req_obj_size req \<le> cap c2" using e(4,7) lim by (simp add: same_limits_def)
    ultimately obtain c3 q where
      i: "op_insert ops c2 req = Some (c3, q)" "same_limits c2 c3" "admissioner c3 = None"
      "R c3 (s_insert M req s2)"
      "s_bytes M (s_insert M req s2) \<le> s_bytes M s2 + req_obj_size req + obj_md_size c2"
      using S_insert [OF e(3) assms(2) _ miss(2)] e(5) by auto
    have md: "cache_size c3 = cache_size c" "obj_md_size c2 = obj_md_size c" "same_limits c c3"
      using i(2) e(4) f(2) by (auto simp: same_limits_def)
    have "cache_get_base ops None c req = Some (c3, False)"
      using f(1,4) miss upd can e(1) i(1) by (auto simp: cache_get_base_def Let_def)
    moreover have "sim_get M (cap c) req s = Some (s_insert M req s2, False)"
      using miss e(2) by (simp add: sim_get_def Let_def)
    ultimately show ?thesis using i md e(7) by auto
  qed
qed

text \<open>Every trace is served, with the hits of the machine and within the capacity.\<close>

lemma serve_simulates:
  "R c s \<Longrightarrow> \<forall>req \<in> set reqs. ok_req req \<Longrightarrow> admissioner c = None \<Longrightarrow> s_bytes M s \<le> cache_size c \<Longrightarrow>
   \<exists>c' s' hits. serve ops None c reqs = Some (c', hits) \<and> R c' s'
     \<and> sim_serve M (cap c) s reqs = Some (s', hits) \<and> same_limits c c' \<and> s_bytes M s' \<le> cache_size c
     \<and> op_get_occupied_byte ops c' \<le> cache_size c"
proof (induction reqs arbitrary: c s)
  case Nil
  then show ?case using S_bytes by auto
next
  case (Cons req reqs)
  from get_simulates [OF Cons.prems(1) _ Cons.prems(3,4), of req] Cons.prems(2) obtain c1 s1 hit where
    g: "cache_get_base ops None c req = Some (c1, hit)" "R c1 s1" "sim_get M (cap c) req s = Some (s1, hit)"
    "same_limits c c1" "admissioner c1 = None" "s_bytes M s1 \<le> cache_size c1" by auto
  have lim: "cache_size c1 = cache_size c" "cap c1 = cap c" using g(4) by (auto simp: same_limits_def)
  from Cons.IH [OF g(2) _ g(5,6)] Cons.prems(2) lim obtain c' s' hits where
    "serve ops None c1 reqs = Some (c', hits)" "R c' s'" "sim_serve M (cap c) s1 reqs = Some (s', hits)"
    "same_limits c1 c'" "s_bytes M s' \<le> cache_size c" "op_get_occupied_byte ops c' \<le> cache_size c" by auto
  then show ?case using g same_limits_trans by auto
qed

end

end
