(* ===== verification/SLRU.thy ===== *)
theory SLRU
  imports Bag_Cache Simulation Params Double
begin

text \<open>
  The segmented LRU cache (\<open>cache/eviction/SLRU.c\<close>): several LRU queues, a hit moves an object to the
  next higher segment, and a segment that grows too large passes its last objects down to the one
  below.
\<close>

section \<open>Model\<close>

record SLRU_params_t =
  lru_heads :: "ptr list"
  lru_tails :: "ptr list"
  lru_n_bytes :: "int list"
  lru_n_objs :: "int list"
  lru_max_n_bytes :: "int list"
  n_seg :: nat

type_synonym ('a, 'f) slru_cache = "('a, 'f, SLRU_params_t) cache_t"

text \<open>An element of an array; a read behind its end is an error.\<close>

definition elem :: "'x list \<Rightarrow> nat \<Rightarrow> 'x option" where
  "elem xs i = (if i < length xs then Some (xs ! i) else None)"

subsection \<open>Parameters\<close>

text \<open>The parsed settings: the number of segments, and their sizes when they are given.\<close>

type_synonym slru_settings = "int \<times> int list option"

definition SLRU_MAX_N_SEG :: nat where
  "SLRU_MAX_N_SEG = 16"

function split_colons :: "string option \<Rightarrow> string list" where
  "split_colons value = (case strsep (CHR '':'') value of
     (None, _) \<Rightarrow> [] | (Some v, rest) \<Rightarrow> v # split_colons rest)"
  by pat_completeness auto
termination
  by (relation "measure (\<lambda>v. case v of None \<Rightarrow> 0 | Some s \<Rightarrow> Suc (length s))")
    (auto simp: strsep_def tl_dropWhile_shorter simp del: length_tl split: option.splits if_splits)

declare split_colons.simps [simp del]

definition SLRU_seg_size :: "int \<Rightarrow> string option \<Rightarrow> slru_settings option" where
  "SLRU_seg_size cap value =
    (let vs = split_colons value; sizes = map (\<lambda>v. fst (strtol v)) vs; sum = sum_list sizes;
         bytes = map (\<lambda>a. int_of_double (double_mult (double_div (double_of_int a) (double_of_int sum))
                   (double_of_int cap))) sizes
     in if length vs > SLRU_MAX_N_SEG \<or> vs = [] \<or> sum \<le> 0 \<or> (\<exists>b \<in> set bytes. b \<le> 0) then None
        else Some (int (length vs), Some bytes))"

definition SLRU_param :: "int \<Rightarrow> string \<Rightarrow> string option \<Rightarrow> slru_settings \<Rightarrow> slru_settings option" where
  "SLRU_param cap key value settings =
    (if strcasecmp_eq key ''n-seg'' then do {
       n \<leftarrow> int_param value;
       if n < 1 \<or> n > int SLRU_MAX_N_SEG then None else Some (n, snd settings) }
     else if strcasecmp_eq key ''seg-size'' then SLRU_seg_size cap value
     else None)"

definition SLRU_parse_params :: "int \<Rightarrow> slru_settings \<Rightarrow> string option \<Rightarrow> slru_settings option" where
  "SLRU_parse_params cap = parse_loop (SLRU_param cap)"

definition SLRU_seg_pct :: "int \<Rightarrow> slru_settings \<Rightarrow> nat \<Rightarrow> int option" where
  "SLRU_seg_pct cap settings seg = (case settings of
     (n, None) \<Rightarrow> Some (100 div n)
   | (n, Some mx) \<Rightarrow> do { m \<leftarrow> elem mx seg; if cap = 0 then None else Some (m * 100 div cap) })"

definition join_colons :: "int list \<Rightarrow> string" where
  "join_colons ns = concat (map (\<lambda>(i, n). (if i = 0 then '''' else '':'') @ show_int n) (enumerate (0 :: nat) ns))"

definition SLRU_current_params :: "int \<Rightarrow> slru_settings \<Rightarrow> string option" where
  "SLRU_current_params cap settings = do {
     pcts \<leftarrow> those (map (SLRU_seg_pct cap settings) [0..<nat (fst settings)]);
     Some (take 127 (''n-seg='' @ show_int (fst settings) @ '',seg-size='' @ join_colons pcts)) }"

definition SLRU_default_sizes :: "int \<Rightarrow> int \<Rightarrow> int list" where
  "SLRU_default_sizes cap n =
    map (\<lambda>i. cap div n + (if i \<ge> n - cap mod n then 1 else 0)) [0..n - 1]"

definition SLRU_name :: "int \<Rightarrow> int \<Rightarrow> int list \<Rightarrow> string option" where
  "SLRU_name cap n mx =
    (if length mx < nat n then None
     else let ms = take (nat n) mx in
       if \<forall>m \<in> set ms. m = hd ms
       then Some (take 63 (''S'' @ show_int n @ ''LRU('' @ join_colons (replicate (nat n) (100 div n)) @ '')''))
       else if cap = 0 then None
       else Some (take 63 (''S'' @ show_int n @ ''LRU('' @ join_colons (map (\<lambda>m. m * 100 div cap) ms) @ '')'')))"

definition SLRU_init ::
    "'f \<Rightarrow> common_cache_params_t \<Rightarrow> string option \<Rightarrow> ('a, 'f) slru_cache option" where
  "SLRU_init pf0 ccache_params cache_specific_params = do {
     let cap = ccp_cache_size ccache_params;
     (n, mx) \<leftarrow> SLRU_parse_params cap (4, None) cache_specific_params;
     let mx = (case mx of None \<Rightarrow> SLRU_default_sizes cap n | Some mx \<Rightarrow> mx);
     name \<leftarrow> SLRU_name cap n mx;
     Some ((cache_struct_init ''SLRU'' ccache_params cache_specific_params pf0
         \<lparr>lru_heads = replicate (nat n) NULL, lru_tails = replicate (nat n) NULL,
          lru_n_bytes = replicate (nat n) 0, lru_n_objs = replicate (nat n) 0,
          lru_max_n_bytes = mx, n_seg = nat n\<rparr>)
       \<lparr>obj_md_size := (if ccp_consider_obj_metadata ccache_params then 8 * 2 else 0), cache_name := name\<rparr>) }"

subsection \<open>The segments\<close>

definition seg_remove :: "('a, 'f) slru_cache \<Rightarrow> nat \<Rightarrow> ptr \<Rightarrow> ('a, 'f) slru_cache option" where
  "seg_remove c i obj = do {
     let params = eviction_params c;
     head \<leftarrow> elem (lru_heads params) i;
     tail \<leftarrow> elem (lru_tails params) i;
     (h, qh, qt) \<leftarrow> remove_obj_from_list (store c) head tail obj;
     Some (c\<lparr>store := h, eviction_params := params\<lparr>lru_heads := (lru_heads params)[i := qh],
       lru_tails := (lru_tails params)[i := qt]\<rparr>\<rparr>) }"

definition seg_prepend :: "('a, 'f) slru_cache \<Rightarrow> nat \<Rightarrow> ptr \<Rightarrow> ('a, 'f) slru_cache option" where
  "seg_prepend c i obj = do {
     let params = eviction_params c;
     head \<leftarrow> elem (lru_heads params) i;
     tail \<leftarrow> elem (lru_tails params) i;
     (h, qh, qt) \<leftarrow> prepend_obj_to_head (store c) head tail obj;
     Some (c\<lparr>store := h, eviction_params := params\<lparr>lru_heads := (lru_heads params)[i := qh],
       lru_tails := (lru_tails params)[i := qt]\<rparr>\<rparr>) }"

text \<open>\<open>lru_n_bytes[i] += bytes; lru_n_objs[i] += objs\<close>\<close>

definition seg_count :: "('a, 'f) slru_cache \<Rightarrow> nat \<Rightarrow> int \<Rightarrow> int \<Rightarrow> ('a, 'f) slru_cache option" where
  "seg_count c i bytes objs = do {
     let params = eviction_params c;
     b \<leftarrow> elem (lru_n_bytes params) i;
     n \<leftarrow> elem (lru_n_objs params) i;
     Some (c\<lparr>eviction_params := params\<lparr>lru_n_bytes := (lru_n_bytes params)[i := b + bytes],
       lru_n_objs := (lru_n_objs params)[i := n + objs]\<rparr>\<rparr>) }"

definition set_lru_id :: "('a, 'f) slru_cache \<Rightarrow> ptr \<Rightarrow> nat \<Rightarrow> ('a, 'f) slru_cache option" where
  "set_lru_id c obj i = do {
     h \<leftarrow> upd_obj (store c) obj (\<lambda>ob. ob\<lparr>SLRU_lru_id := i\<rparr>);
     Some (c\<lparr>store := h\<rparr>) }"

definition seg_over :: "('a, 'f) slru_cache \<Rightarrow> nat \<Rightarrow> bool option" where
  "seg_over c i = do {
     b \<leftarrow> elem (lru_n_bytes (eviction_params c)) i;
     m \<leftarrow> elem (lru_max_n_bytes (eviction_params c)) i;
     Some (b > m) }"

subsection \<open>Eviction and removal\<close>

function SLRU_to_evict_loop :: "env \<Rightarrow> ('a, 'f) slru_cache \<Rightarrow> nat \<Rightarrow> ptr \<Rightarrow> ptr option" where
  "SLRU_to_evict_loop E c i fallback =
    (if i < n_seg (eviction_params c) then do {
       b \<leftarrow> elem (lru_n_bytes (eviction_params c)) i;
       if b \<le> 0 then SLRU_to_evict_loop E c (i + 1) fallback
       else do {
         tail \<leftarrow> elem (lru_tails (eviction_params c)) i;
         let fallback = (if fallback = NULL then tail else fallback);
         candidate \<leftarrow> cache_skip_pinned (pin E) (store c) tail;
         free \<leftarrow> (if candidate \<noteq> NULL
           then map_option (\<lambda>ob. \<not> cache_obj_is_pinned (pin E) ob) (deref (store c) candidate) else Some False);
         if free then Some candidate else SLRU_to_evict_loop E c (i + 1) fallback } }
     else Some fallback)"
  by pat_completeness auto
termination
  by (relation "measure (\<lambda>(E, c, i, fallback). n_seg (eviction_params c) - i)") auto

declare SLRU_to_evict_loop.simps [simp del]

definition SLRU_to_evict ::
    "env \<Rightarrow> ('a, 'f) slru_cache \<Rightarrow> request \<Rightarrow> (('a, 'f) slru_cache \<times> ptr) option" where
  "SLRU_to_evict E c req = map_option (Pair c) (SLRU_to_evict_loop E c 0 NULL)"

definition SLRU_evict ::
    "env \<Rightarrow> ('a, 'f) slru_cache prefetcher_t option \<Rightarrow> ('a, 'f) slru_cache \<Rightarrow> request \<Rightarrow>
     ('a, 'f) slru_cache option" where
  "SLRU_evict E pf c req = do {
     (c, obj) \<leftarrow> SLRU_to_evict E c req;
     ob \<leftarrow> deref (store c) obj;
     c \<leftarrow> seg_count c (SLRU_lru_id ob) (- (obj_size ob + obj_md_size c)) (- 1);
     c \<leftarrow> seg_remove c (SLRU_lru_id ob) obj;
     cache_evict_base E pf c obj True }"

definition SLRU_remove ::
    "env \<Rightarrow> ('a, 'f) slru_cache \<Rightarrow> obj_id_t \<Rightarrow> (('a, 'f) slru_cache \<times> bool) option" where
  "SLRU_remove E c i = do {
     obj \<leftarrow> chained_hashtable_find_obj_id_v2 E (store c) (hashtable c) i;
     if obj = NULL then Some (c, False)
     else do {
       ob \<leftarrow> deref (store c) obj;
       c \<leftarrow> seg_remove c (SLRU_lru_id ob) obj;
       c \<leftarrow> cache_remove_obj_base E c obj True;
       Some (c, True) } }"

subsection \<open>Cooling\<close>

text \<open>
  The part of \<open>SLRU_cool\<close> before its loop.  The loop of level \<open>i\<close>, with the body of \<open>SLRU_cool\<close> written
  out, is \<open>SLRU_cool_loop\<close>.
\<close>

definition SLRU_cool_move :: "('a, 'f) slru_cache \<Rightarrow> nat \<Rightarrow> ('a, 'f) slru_cache option" where
  "SLRU_cool_move c i = do {
     obj \<leftarrow> elem (lru_tails (eviction_params c)) i;
     c \<leftarrow> seg_remove c i obj;
     c \<leftarrow> seg_prepend c (i - 1) obj;
     c \<leftarrow> set_lru_id c obj (i - 1);
     ob \<leftarrow> deref (store c) obj;
     c \<leftarrow> seg_count c i (- obj_size ob) (- 1);
     seg_count c (i - 1) (obj_size ob) 1 }"

partial_function (option) SLRU_cool_loop ::
    "env \<Rightarrow> ('a, 'f) slru_cache prefetcher_t option \<Rightarrow> ('a, 'f) slru_cache \<Rightarrow> request \<Rightarrow> nat \<Rightarrow>
     ('a, 'f) slru_cache option" where
  "SLRU_cool_loop E pf c req i =
    Option.bind (seg_over c i) (\<lambda>over.
      if over
      then Option.bind (if i = 0 then SLRU_evict E pf c req
             else Option.bind (SLRU_cool_move c i) (\<lambda>c. SLRU_cool_loop E pf c req (i - 1)))
             (\<lambda>c. SLRU_cool_loop E pf c req i)
      else Some c)"

definition SLRU_cool ::
    "env \<Rightarrow> ('a, 'f) slru_cache prefetcher_t option \<Rightarrow> ('a, 'f) slru_cache \<Rightarrow> request \<Rightarrow> nat \<Rightarrow>
     ('a, 'f) slru_cache option" where
  "SLRU_cool E pf c req i =
    (if i = 0 then SLRU_evict E pf c req
     else Option.bind (SLRU_cool_move c i) (\<lambda>c. SLRU_cool_loop E pf c req (i - 1)))"

subsection \<open>Lookup and insertion\<close>

definition SLRU_promote_to_next_seg :: "('a, 'f) slru_cache \<Rightarrow> ptr \<Rightarrow> ('a, 'f) slru_cache option" where
  "SLRU_promote_to_next_seg c obj = do {
     ob \<leftarrow> deref (store c) obj;
     let i = SLRU_lru_id ob;
     c \<leftarrow> seg_remove c i obj;
     c \<leftarrow> seg_count c i (- (obj_size ob + obj_md_size c)) (- 1);
     c \<leftarrow> set_lru_id c obj (i + 1);
     c \<leftarrow> seg_prepend c (i + 1) obj;
     seg_count c (i + 1) (obj_size ob + obj_md_size c) 1 }"

partial_function (option) SLRU_find_loop ::
    "env \<Rightarrow> ('a, 'f) slru_cache prefetcher_t option \<Rightarrow> ('a, 'f) slru_cache \<Rightarrow> request \<Rightarrow> ptr \<Rightarrow>
     ('a, 'f) slru_cache option" where
  "SLRU_find_loop E pf c req obj =
    Option.bind (deref (store c) obj) (\<lambda>ob.
    Option.bind (seg_over c (SLRU_lru_id ob)) (\<lambda>over.
      if over
      then Option.bind (SLRU_cool E pf c req (SLRU_lru_id ob)) (\<lambda>c. SLRU_find_loop E pf c req obj)
      else Some c))"

definition SLRU_find ::
    "env \<Rightarrow> ('a, 'f) slru_cache prefetcher_t option \<Rightarrow> ('a, 'f) slru_cache \<Rightarrow> request \<Rightarrow> bool \<Rightarrow>
     (('a, 'f) slru_cache \<times> ptr) option" where
  "SLRU_find E pf c req update_cache = do {
     obj \<leftarrow> chained_hashtable_find_v2 E (store c) (hashtable c) req;
     if obj = NULL \<or> \<not> update_cache then Some (c, obj)
     else do {
       ob \<leftarrow> deref (store c) obj;
       let params = eviction_params c;
       if SLRU_lru_id ob = n_seg params - 1 then do {
         head \<leftarrow> elem (lru_heads params) (n_seg params - 1);
         tail \<leftarrow> elem (lru_tails params) (n_seg params - 1);
         (h, qh, qt) \<leftarrow> move_obj_to_head (store c) head tail obj;
         Some (c\<lparr>store := h, eviction_params := params\<lparr>lru_heads := (lru_heads params)[n_seg params - 1 := qh],
           lru_tails := (lru_tails params)[n_seg params - 1 := qt]\<rparr>\<rparr>, obj) }
       else do {
         c \<leftarrow> SLRU_promote_to_next_seg c obj;
         c \<leftarrow> SLRU_find_loop E pf c req obj;
         Some (c, obj) } } }"

text \<open>The lowest segment with room, and the loop that makes room when there is none.\<close>

function SLRU_find_seg :: "('a, 'f) slru_cache \<Rightarrow> int \<Rightarrow> nat \<Rightarrow> nat option option" where
  "SLRU_find_seg c sz i =
    (if i < n_seg (eviction_params c) then do {
       b \<leftarrow> elem (lru_n_bytes (eviction_params c)) i;
       m \<leftarrow> elem (lru_max_n_bytes (eviction_params c)) i;
       if b + sz + obj_md_size c \<le> m then Some (Some i) else SLRU_find_seg c sz (i + 1) }
     else Some None)"
  by pat_completeness auto
termination
  by (relation "measure (\<lambda>(c, sz, i). n_seg (eviction_params c) - i)") auto

declare SLRU_find_seg.simps [simp del]

partial_function (option) SLRU_make_room ::
    "env \<Rightarrow> ('a, 'f) slru_cache prefetcher_t option \<Rightarrow> ('a, 'f) slru_cache \<Rightarrow> request \<Rightarrow>
     ('a, 'f) slru_cache option" where
  "SLRU_make_room E pf c req =
    (if occupied_byte c + req_obj_size req + obj_md_size c > cache_size c
     then Option.bind (SLRU_evict E pf c req) (\<lambda>c. SLRU_make_room E pf c req)
     else Some c)"

definition SLRU_insert ::
    "env \<Rightarrow> ('a, 'f) slru_cache prefetcher_t option \<Rightarrow> ('a, 'f) slru_cache \<Rightarrow> request \<Rightarrow>
     (('a, 'f) slru_cache \<times> ptr) option" where
  "SLRU_insert E pf c req = do {
     nth_seg \<leftarrow> SLRU_find_seg c (req_obj_size req) 0;
     (c, nth_seg) \<leftarrow> (case nth_seg of
         Some i \<Rightarrow> Some (c, i)
       | None \<Rightarrow> map_option (\<lambda>c. (c, 0)) (SLRU_make_room E pf c req));
     (c, obj) \<leftarrow> cache_insert_base E c req;
     c \<leftarrow> seg_prepend c nth_seg obj;
     c \<leftarrow> set_lru_id c obj nth_seg;
     c \<leftarrow> seg_count c nth_seg (req_obj_size req + obj_md_size c) 1;
     Some (c, obj) }"

definition SLRU_can_insert ::
    "('a, 'f) slru_cache \<Rightarrow> request \<Rightarrow> (('a, 'f) slru_cache \<times> bool) option" where
  "SLRU_can_insert c req = do {
     (c, can_insert) \<leftarrow> cache_can_insert_default c req;
     if \<not> can_insert then Some (c, False)
     else do {
       m \<leftarrow> elem (lru_max_n_bytes (eviction_params c)) 0;
       Some (c, req_obj_size req + obj_md_size c \<le> m) } }"

definition SLRU_ops ::
    "env \<Rightarrow> ('a, 'f) slru_cache prefetcher_t option \<Rightarrow> ('a, 'f) slru_cache cache_ops" where
  "SLRU_ops E pf = \<lparr>op_find = SLRU_find E pf, op_can_insert = SLRU_can_insert,
     op_insert = SLRU_insert E pf, op_evict = SLRU_evict E pf, op_remove = SLRU_remove E,
     op_to_evict = SLRU_to_evict E, op_get_occupied_byte = cache_get_occupied_byte_default,
     op_get_n_obj = cache_get_n_obj_default\<rparr>"

definition SLRU_get ::
    "env \<Rightarrow> ('a, 'f) slru_cache prefetcher_t option \<Rightarrow> ('a, 'f) slru_cache \<Rightarrow> request \<Rightarrow>
     (('a, 'f) slru_cache \<times> bool) option" where
  "SLRU_get E pf c req = cache_get_base (SLRU_ops E pf) pf c req"

end
