(* ===== verification/SLRU_Refine.thy ===== *)
theory SLRU_Refine
  imports SLRU "HOL-Library.Multiset"
begin

text \<open>
  The refinement of the segmented LRU cache.  The abstract state is the list of the segments, the
  lowest first, each the list of its objects with the most recent one first.  The loops of the code
  move one object at a time; the machine describes their effect at once: what does not fit into a
  segment moves as a block in front of the segment below.
\<close>

section \<open>The abstract machine\<close>

text \<open>The longest prefix that fits, and the rest.\<close>

fun fit :: "int \<Rightarrow> int queue \<Rightarrow> int queue" where
  "fit m [] = []"
| "fit m ((i, n) # q) = (if n \<le> m then (i, n) # fit (m - n) q else [])"

fun rest :: "int \<Rightarrow> int queue \<Rightarrow> int queue" where
  "rest m [] = []"
| "rest m ((i, n) # q) = (if n \<le> m then rest (m - n) q else (i, n) # q)"

text \<open>The segments from \<open>j\<close> down, after segment \<open>j\<close> has grown.\<close>

fun settle :: "int list \<Rightarrow> int queue list \<Rightarrow> nat \<Rightarrow> int queue list" where
  "settle mx qs 0 = qs[0 := fit (mx ! 0) (qs ! 0)]"
| "settle mx qs (Suc j) =
    (let q = qs ! Suc j; r = rest (mx ! Suc j) q
     in if r = [] then qs else settle mx (qs[Suc j := fit (mx ! Suc j) q, j := r @ qs ! j]) j)"

definition seg_of :: "obj_id_t \<Rightarrow> int queue list \<Rightarrow> nat" where
  "seg_of i qs = length (takeWhile (\<lambda>q. i \<notin> fst ` set q) qs)"

definition slru_hit :: "int list \<Rightarrow> obj_id_t \<Rightarrow> int queue list \<Rightarrow> int queue list" where
  "slru_hit mx i qs =
    (let k = seg_of i qs in
     if k = length qs - 1 then qs[k := queue_promote i (qs ! k)]
     else settle mx (qs[k := queue_delete i (qs ! k),
       k + 1 := filter (\<lambda>e. fst e = i) (qs ! k) @ qs ! (k + 1)]) (k + 1))"

definition slru_evict :: "int queue list \<Rightarrow> int queue list" where
  "slru_evict qs = (let k = length (takeWhile (\<lambda>q. queue_bytes 0 q \<le> 0) qs) in qs[k := butlast (qs ! k)])"

definition slru_seg :: "int list \<Rightarrow> int \<Rightarrow> int queue list \<Rightarrow> nat" where
  "slru_seg mx n qs = (case find (\<lambda>k. queue_bytes 0 (qs ! k) + n \<le> mx ! k) [0..<length qs] of
     Some k \<Rightarrow> k | None \<Rightarrow> 0)"

definition slru_insert :: "int list \<Rightarrow> request \<Rightarrow> int queue list \<Rightarrow> int queue list" where
  "slru_insert mx req qs = (let k = slru_seg mx (req_obj_size req) qs
     in qs[k := (req_obj_id req, req_obj_size req) # qs ! k])"

definition slru_machine :: "int list \<Rightarrow> int queue list spec" where
  "slru_machine mx = \<lparr>s_ids = \<lambda>qs. fst ` set (concat qs), s_bytes = \<lambda>qs. queue_bytes 0 (concat qs),
     s_find = \<lambda>req qs. if req_obj_id req \<in> fst ` set (concat qs) then slru_hit mx (req_obj_id req) qs else qs,
     s_admit = \<lambda>req qs. req_obj_size req \<le> mx ! 0,
     s_evict = \<lambda>req. slru_evict, s_insert = slru_insert mx\<rparr>"

subsection \<open>Prefixes that fit\<close>

definition sized :: "int queue \<Rightarrow> bool" where
  "sized q \<longleftrightarrow> (\<forall>e \<in> set q. 0 \<le> snd e)"

lemma sized_simps [simp]:
  "sized []" "sized (e # q) \<longleftrightarrow> 0 \<le> snd e \<and> sized q" "sized (p @ q) \<longleftrightarrow> sized p \<and> sized q"
  by (auto simp: sized_def)

lemma sized_bytes: "sized q \<Longrightarrow> 0 \<le> queue_bytes 0 q"
  by (auto simp: sized_def view_bytes_def intro!: sum_list_nonneg)

lemma sized_update: "\<forall>q \<in> set qs. sized q \<Longrightarrow> sized p \<Longrightarrow> \<forall>q \<in> set (qs[i := p]). sized q"
  by (auto dest!: subsetD [OF set_update_subset_insert])

lemma fit_prefix: "fit m q @ rest m q = q"
proof (induction m q rule: fit.induct)
  case (2 m i n q)
  then show ?case by simp
qed simp

lemma sized_fit [simp]: "sized q \<Longrightarrow> sized (fit m q)" "sized q \<Longrightarrow> sized (rest m q)"
  by (induction m q rule: fit.induct) auto

lemma fit_all: "sized q \<Longrightarrow> queue_bytes 0 q \<le> m \<Longrightarrow> fit m q = q"
proof (induction m q rule: fit.induct)
  case (2 m i n q)
  have "0 \<le> queue_bytes 0 q" using 2(2) by (intro sized_bytes) simp
  with 2 show ?case by auto
qed simp

lemma fit_bytes: "0 \<le> m \<Longrightarrow> queue_bytes 0 (fit m q) \<le> m"
proof (induction m q rule: fit.induct)
  case (2 m i n q)
  then show ?case by auto
qed simp

lemma fit_snoc:
  "sized q \<Longrightarrow> queue_bytes 0 (q @ [x]) > m \<Longrightarrow> fit m (q @ [x]) = fit m q"
proof (induction m q rule: fit.induct)
  case (1 m)
  then show ?case by (cases x) auto
next
  case (2 m i n q)
  then show ?case by auto
qed

lemma fit_append_fit:
  "sized r \<Longrightarrow> m \<le> m' \<Longrightarrow> fit m (r @ fit m' y) = fit m (r @ y)"
proof (induction m r arbitrary: m' rule: fit.induct)
  case (1 m)
  then show ?case
  proof (induction m y arbitrary: m' rule: fit.induct)
    case (2 m i n q)
    then show ?case by auto
  qed simp
next
  case (2 m i n q)
  then show ?case by auto
qed

lemma rest_append_fit:
  assumes "sized r"
  shows "rest m (r @ y) = rest m (r @ fit m y) @ rest m y"
proof -
  have "fit m (r @ y) @ rest m (r @ y) = r @ fit m y @ rest m y" by (simp add: fit_prefix)
  also have "\<dots> = fit m (r @ fit m y) @ rest m (r @ fit m y) @ rest m y"
    using fit_prefix [of m "r @ fit m y"] by (metis append_assoc)
  finally show ?thesis using fit_append_fit [OF assms order_refl, of m y] by simp
qed

lemma rest_snoc:
  assumes "sized q" and "queue_bytes 0 (q @ [x]) > m"
  shows "rest m (q @ [x]) = rest m q @ [x]"
  using fit_prefix [of m "q @ [x]"] fit_prefix [of m q] unfolding fit_snoc [OF assms]
  by (metis append_assoc same_append_eq)

subsection \<open>One object at a time\<close>

text \<open>
  The loop of segment \<open>j\<close> ends at once when the segment fits; otherwise one object moves down, the
  segments below settle, and the loop goes on.
\<close>

lemma settle_length [simp]: "length (settle mx qs j) = length qs"
  by (induction mx qs j rule: settle.induct) (auto simp: Let_def)

lemma settle_above [simp]: "j < k \<Longrightarrow> settle mx qs j ! k = qs ! k"
  by (induction mx qs j rule: settle.induct) (auto simp: Let_def)

lemma settle_upd_above: "j < k \<Longrightarrow> settle mx (qs[k := v]) j = (settle mx qs j)[k := v]"
proof (induction mx qs j rule: settle.induct)
  case (1 mx qs)
  then show ?case by (simp add: list_update_swap)
next
  case (2 mx qs j)
  then show ?case by (auto simp: Let_def list_update_swap)
qed

lemma settle_pull: "settle mx (qs[Suc k := w, k := v]) k = (settle mx (qs[k := v]) k)[Suc k := w]"
  by (simp add: list_update_swap [of "Suc k" k] settle_upd_above)

lemma settle_fits:
  assumes "sized (qs ! j)" and "queue_bytes 0 (qs ! j) \<le> mx ! j"
  shows "settle mx qs j = qs"
proof -
  have "fit (mx ! j) (qs ! j) = qs ! j" by (rule fit_all [OF assms])
  then have "rest (mx ! j) (qs ! j) = []" using fit_prefix [of "mx ! j" "qs ! j"] by simp
  then show ?thesis using \<open>fit (mx ! j) (qs ! j) = qs ! j\<close> by (cases j) simp_all
qed

lemma settle_merge:
  assumes "sized r" and "sized y" and "\<forall>q \<in> set qs. sized q"
    and "i < length qs"
  shows "settle mx ((settle mx (qs[i := y]) i)[i := r @ settle mx (qs[i := y]) i ! i]) i = settle mx (qs[i := r @ y]) i"
  using assms
proof (induction i arbitrary: qs r y)
  case 0
  then show ?case by (simp add: fit_append_fit)
next
  case (Suc k)
  let ?m = "mx ! Suc k"
  let ?Q = "qs[Suc k := fit ?m y]" and ?d = "rest ?m y" and ?e = "rest ?m (r @ fit ?m y)"
  let ?f = "fit ?m (r @ fit ?m y)"
  have split: "fit ?m (r @ y) = ?f" "rest ?m (r @ y) = ?e @ ?d"
    by (rule fit_append_fit [OF Suc.prems(1) order_refl, symmetric], rule rest_append_fit [OF Suc.prems(1)])
  show ?case
  proof (cases "?d = []")
    case True
    then have "fit ?m y = y" using fit_prefix [of ?m y] by simp
    with True Suc.prems(4) show ?thesis by simp
  next
    case False
    let ?S = "settle mx (?Q[k := ?d @ qs ! k]) k"
    have S: "settle mx (qs[Suc k := y]) (Suc k) = ?S" "?S ! Suc k = fit ?m y"
      using False Suc.prems(4) by (simp_all add: Let_def)
    have R: "settle mx (qs[Suc k := r @ y]) (Suc k) = (settle mx (?Q[k := (?e @ ?d) @ qs ! k]) k)[Suc k := ?f]"
      using False Suc.prems(4) split by (simp add: Let_def settle_pull)
    show ?thesis
    proof (cases "?e = []")
      case True
      then have "?f = r @ fit ?m y" using fit_prefix [of ?m "r @ fit ?m y"] by simp
      with True R S show ?thesis using Suc.prems(4) by simp
    next
      case ne: False
      have "settle mx (?S[k := ?e @ ?S ! k]) k = settle mx (?Q[k := ?e @ ?d @ qs ! k]) k"
      proof (rule Suc.IH)
        show "\<forall>q \<in> set ?Q. sized q" using Suc.prems(2,3) by (intro sized_update) simp_all
      qed (use Suc.prems in simp_all)
      from arg_cong [OF this, of "\<lambda>l. l[Suc k := ?f]"]
      have "settle mx (?S[Suc k := ?f, k := ?e @ ?S ! k]) k
          = (settle mx (?Q[k := ?e @ ?d @ qs ! k]) k)[Suc k := ?f]" by (simp only: settle_pull)
      with ne R S Suc.prems(4) show ?thesis by (simp add: Let_def)
    qed
  qed
qed

lemma settle_step:
  assumes "\<forall>q \<in> set qs. sized q" and "qs ! Suc i = q @ [x]" and "queue_bytes 0 (q @ [x]) > mx ! Suc i"
    and "Suc i < length qs"
  shows "settle mx (settle mx (qs[Suc i := q, i := x # qs ! i]) i) (Suc i) = settle mx qs (Suc i)"
proof -
  let ?m = "mx ! Suc i" and ?Q = "qs[Suc i := q]"
  have "q @ [x] \<in> set qs" using assms(2,4) by (metis nth_mem)
  with assms(1) have "sized (q @ [x])" by blast
  then have nn: "sized q" "0 \<le> snd x" by simp_all
  note split = fit_snoc [OF nn(1) assms(3)] rest_snoc [OF nn(1) assms(3)]
  let ?S = "settle mx (?Q[i := x # qs ! i]) i"
  have S: "?S ! Suc i = q" using assms(4) by simp
  have R: "settle mx qs (Suc i) = settle mx (qs[Suc i := fit ?m q, i := rest ?m q @ x # qs ! i]) i"
    using assms(2) split by (simp add: Let_def)
  show ?thesis
  proof (cases "rest ?m q = []")
    case True
    then have "fit ?m q = q" using fit_prefix [of ?m q] by simp
    with True R S show ?thesis by (simp add: Let_def)
  next
    case False
    have "settle mx (?S[i := rest ?m q @ ?S ! i]) i = settle mx (?Q[i := rest ?m q @ x # qs ! i]) i"
    proof (rule settle_merge)
      show "\<forall>p \<in> set ?Q. sized p" using assms(1) nn(1) by (rule sized_update)
      have "qs ! i \<in> set qs" using assms(4) by simp
      then show "sized (x # qs ! i)" using nn(2) assms(1) by simp
    qed (use assms(4) nn(1) in simp_all)
    from arg_cong [OF this, of "\<lambda>l. l[Suc i := fit ?m q]"]
    have "settle mx (?S[Suc i := fit ?m q, i := rest ?m q @ ?S ! i]) i
        = settle mx (qs[Suc i := fit ?m q, i := rest ?m q @ x # qs ! i]) i"
      unfolding settle_pull by simp
    with False R S show ?thesis by (simp add: Let_def)
  qed
qed

lemma settle_step_0:
  assumes "sized q" and "qs ! 0 = q @ [x]" and "queue_bytes 0 (q @ [x]) > mx ! 0" and "qs \<noteq> []"
  shows "settle mx (qs[0 := q]) 0 = settle mx qs 0"
  using fit_snoc [OF assms(1,3)] assms(2,4) by simp

section \<open>The segments in the store\<close>

definition segs_ok :: "heap \<Rightarrow> SLRU_params_t \<Rightarrow> addr list list \<Rightarrow> bool" where
  "segs_ok h P Ls \<longleftrightarrow> length (lru_heads P) = length Ls \<and> length (lru_tails P) = length Ls
     \<and> distinct (concat Ls) \<and> (\<forall>i < length Ls. dll h (lru_heads P ! i) (lru_tails P ! i) (Ls ! i))"

definition lids_ok :: "heap \<Rightarrow> addr list list \<Rightarrow> bool" where
  "lids_ok h Ls \<longleftrightarrow> (\<forall>i < length Ls. \<forall>a \<in> set (Ls ! i). SLRU_lru_id (the (h a)) = i)"

definition counts_ok :: "SLRU_params_t \<Rightarrow> int queue list \<Rightarrow> bool" where
  "counts_ok P qs \<longleftrightarrow> lru_n_bytes P = map (queue_bytes 0) qs \<and> length (lru_n_objs P) = length qs"

lemma segs_ok_fields [simp]:
  "segs_ok h (P\<lparr>lru_n_bytes := b\<rparr>) Ls = segs_ok h P Ls" "segs_ok h (P\<lparr>lru_n_objs := n\<rparr>) Ls = segs_ok h P Ls"
  by (simp_all add: segs_ok_def)

lemma counts_ok_fields [simp]:
  "counts_ok (P\<lparr>lru_heads := hs\<rparr>) qs = counts_ok P qs" "counts_ok (P\<lparr>lru_tails := ts\<rparr>) qs = counts_ok P qs"
  by (simp_all add: counts_ok_def)

lemma segs_disjoint:
  "distinct (concat Ls) \<Longrightarrow> i < length Ls \<Longrightarrow> j < length Ls \<Longrightarrow> i \<noteq> j \<Longrightarrow> set (Ls ! i) \<inter> set (Ls ! j) = {}"
proof (induction Ls arbitrary: i j)
  case (Cons L Ls)
  show ?case
  proof (cases i)
    case 0
    with Cons.prems obtain j' where "j = Suc j'" "j' < length Ls" by (cases j) auto
    with 0 Cons.prems(1) show ?thesis using nth_mem [of j' Ls] by fastforce
  next
    case (Suc i')
    show ?thesis
    proof (cases j)
      case 0
      with Suc Cons.prems show ?thesis using nth_mem [of i' Ls] by fastforce
    next
      case (Suc j')
      with \<open>i = Suc i'\<close> Cons show ?thesis by auto
    qed
  qed
qed simp

lemma nth_subset_concat: "i < length Ls \<Longrightarrow> set (Ls ! i) \<subseteq> set (concat Ls)"
  using nth_mem by fastforce

lemma concat_update:
  assumes "i < length Ls"
  shows "concat (Ls[i := L]) = concat (take i Ls) @ L @ concat (drop (Suc i) Ls)"
  using assms by (simp add: upd_conv_take_nth_drop)

lemma concat_nth: "i < length Ls \<Longrightarrow> concat Ls = concat (take i Ls) @ Ls ! i @ concat (drop (Suc i) Ls)"
  using concat_update [of i Ls "Ls ! i"] by simp

text \<open>A change of one segment.\<close>

lemma segs_update:
  assumes "segs_ok h P Ls" and "i < length Ls" and "dll h' qh qt L" and "qframe S h h'" and "S \<inter> (set (concat Ls) - set (Ls ! i)) = {}"
    and "distinct (concat (Ls[i := L]))"
  shows "segs_ok h' (P\<lparr>lru_heads := (lru_heads P)[i := qh], lru_tails := (lru_tails P)[i := qt]\<rparr>) (Ls[i := L])"
proof -
  have d: "distinct (concat Ls)" and len: "length (lru_heads P) = length Ls" "length (lru_tails P) = length Ls"
    using assms(1) by (auto simp: segs_ok_def)
  have "dll h' ((lru_heads P)[i := qh] ! j) ((lru_tails P)[i := qt] ! j) (Ls[i := L] ! j)" if j: "j < length Ls" for j
  proof (cases "j = i")
    case True
    with assms(2,3) len show ?thesis by simp
  next
    case False
    from nth_subset_concat [OF j] segs_disjoint [OF d j assms(2) False] assms(5) have "S \<inter> set (Ls ! j) = {}" by blast
    with qframe_dll_other [OF assms(4)] assms(1) j False show ?thesis by (simp add: segs_ok_def)
  qed
  with len assms(6) show ?thesis by (simp add: segs_ok_def)
qed

abbreviation put_seg :: "SLRU_params_t \<Rightarrow> nat \<Rightarrow> ptr \<Rightarrow> ptr \<Rightarrow> SLRU_params_t" where
  "put_seg P i qh qt \<equiv> P\<lparr>lru_heads := (lru_heads P)[i := qh], lru_tails := (lru_tails P)[i := qt]\<rparr>"

abbreviation with_seg :: "('a, 'f) slru_cache \<Rightarrow> heap \<Rightarrow> nat \<Rightarrow> ptr \<Rightarrow> ptr \<Rightarrow> ('a, 'f) slru_cache" where
  "with_seg c h i qh qt \<equiv> c\<lparr>store := h, eviction_params := put_seg (eviction_params c) i qh qt\<rparr>"

lemma seg_remove_ok:
  assumes "segs_ok (store c) (eviction_params c) Ls" and "i < length Ls" and "Ls ! i = us @ a # vs"
  shows "\<exists>h qh qt. seg_remove c i (Some a) = Some (with_seg c h i qh qt)
    \<and> segs_ok h (put_seg (eviction_params c) i qh qt) (Ls[i := us @ vs]) \<and> qframe UNIV (store c) h
    \<and> remove_obj_from_list (store c) (lru_heads (eviction_params c) ! i) (lru_tails (eviction_params c) ! i) (Some a)
      = Some (h, qh, qt)"
proof -
  let ?P = "eviction_params c"
  have d: "dll (store c) (lru_heads ?P ! i) (lru_tails ?P ! i) (us @ a # vs)" "distinct (concat Ls)"
    and len: "length (lru_heads ?P) = length Ls" "length (lru_tails ?P) = length Ls"
    using assms by (auto simp: segs_ok_def)
  from remove_obj_from_list_dll [OF d(1)] obtain h qh qt where
    r: "remove_obj_from_list (store c) (lru_heads ?P ! i) (lru_tails ?P ! i) (Some a) = Some (h, qh, qt)"
    "dll h qh qt (us @ vs)" "qframe (set (Ls ! i)) (store c) h" unfolding assms(3) by blast
  have "distinct (concat (Ls[i := us @ vs]))"
    using d(2) unfolding concat_update [OF assms(2)] concat_nth [OF assms(2)] assms(3) by auto
  with segs_update [OF assms(1,2) r(2,3)] have "segs_ok h (put_seg ?P i qh qt) (Ls[i := us @ vs])" by blast
  moreover have "qframe UNIV (store c) h" using r(3) by (rule qframe_mono) simp
  moreover have "seg_remove c i (Some a) = Some (with_seg c h i qh qt)"
    using r(1) assms(2) len by (simp add: seg_remove_def elem_def Let_def)
  ultimately show ?thesis using r(1) by blast
qed

lemma seg_prepend_ok:
  assumes "segs_ok (store c) (eviction_params c) Ls" and "i < length Ls" and "store c a = Some ob" and "a \<notin> set (concat Ls)"
  shows "\<exists>h qh qt. seg_prepend c i (Some a) = Some (with_seg c h i qh qt)
    \<and> segs_ok h (put_seg (eviction_params c) i qh qt) (Ls[i := a # Ls ! i]) \<and> qframe UNIV (store c) h"
proof -
  let ?P = "eviction_params c"
  have d: "dll (store c) (lru_heads ?P ! i) (lru_tails ?P ! i) (Ls ! i)" "distinct (concat Ls)"
    and len: "length (lru_heads ?P) = length Ls" "length (lru_tails ?P) = length Ls"
    using assms by (auto simp: segs_ok_def)
  from nth_subset_concat [OF assms(2)] have "a \<notin> set (Ls ! i)" using assms(4) by blast
  from prepend_obj_to_head_dll [OF d(1) assms(3) this] obtain h qh qt where
    r: "prepend_obj_to_head (store c) (lru_heads ?P ! i) (lru_tails ?P ! i) (Some a) = Some (h, qh, qt)"
    "dll h qh qt (a # Ls ! i)" "qframe (set (a # Ls ! i)) (store c) h" by blast
  have "distinct (concat (Ls[i := a # Ls ! i]))"
    using d(2) assms(4) unfolding concat_update [OF assms(2)] concat_nth [OF assms(2)] by auto
  moreover have "set (a # Ls ! i) \<inter> (set (concat Ls) - set (Ls ! i)) = {}" using assms(4) by auto
  ultimately have "segs_ok h (put_seg ?P i qh qt) (Ls[i := a # Ls ! i])"
    using segs_update [OF assms(1,2) r(2,3)] by blast
  moreover have "qframe UNIV (store c) h" using r(3) by (rule qframe_mono) simp
  moreover have "seg_prepend c i (Some a) = Some (with_seg c h i qh qt)"
    using r(1) assms(2) len by (simp add: seg_prepend_def elem_def Let_def)
  ultimately show ?thesis by blast
qed

lemma segs_store:
  assumes "segs_ok h P Ls" and "\<And>a. map_option (\<lambda>ob. (q_prev ob, q_next ob)) (h' a) = map_option (\<lambda>ob. (q_prev ob, q_next ob)) (h a)"
  shows "segs_ok h' P Ls"
  using assms dll_cong [of _ h' h] unfolding segs_ok_def by (metis (no_types, lifting))

section \<open>The abstraction relation\<close>

text \<open>
  The sizes of the segments rise, so that an admitted object fits into every one of them; no object
  is pinned and the metadata is not charged.
\<close>

definition mx_ok :: "int list \<Rightarrow> int \<Rightarrow> bool" where
  "mx_ok mx cap \<longleftrightarrow> sorted mx \<and> mx \<noteq> [] \<and> 0 \<le> mx ! 0 \<and> mx ! 0 \<le> cap"

definition SLRU_at ::
    "env \<Rightarrow> trace_ids \<Rightarrow> int list \<Rightarrow> ('a, 'f) slru_cache \<Rightarrow> addr list list \<Rightarrow> int queue list \<Rightarrow> bool" where
  "SLRU_at E W mx c Ls qs \<longleftrightarrow> bag_at basic_view E W c (concat Ls) (concat qs)
     \<and> qs = map (views basic_view (store c)) Ls \<and> segs_ok (store c) (eviction_params c) Ls
     \<and> lids_ok (store c) Ls \<and> counts_ok (eviction_params c) qs \<and> lru_max_n_bytes (eviction_params c) = mx
     \<and> n_seg (eviction_params c) = length Ls \<and> length mx = length Ls \<and> obj_md_size c = 0 \<and> pin E = None
     \<and> mx_ok mx (cache_size c) \<and> (\<forall>e \<in> set (concat qs). 0 \<le> snd e \<and> snd e \<le> mx ! 0)"

lemma SLRU_atD:
  assumes "SLRU_at E W mx c Ls qs"
  shows "bag_at basic_view E W c (concat Ls) (concat qs)" "qs = map (views basic_view (store c)) Ls"
    "segs_ok (store c) (eviction_params c) Ls" "lids_ok (store c) Ls" "counts_ok (eviction_params c) qs"
    "lru_max_n_bytes (eviction_params c) = mx" "n_seg (eviction_params c) = length Ls" "length mx = length Ls"
    "length qs = length Ls" "obj_md_size c = 0" "pin E = None" "mx_ok mx (cache_size c)"
    "\<forall>q \<in> set qs. sized q" "\<forall>e \<in> set (concat qs). 0 \<le> snd e \<and> snd e \<le> mx ! 0"
  using assms by (auto simp: SLRU_at_def sized_def)

lemma basic_views_core:
  "same_core h h' \<Longrightarrow> set xs \<subseteq> dom h \<Longrightarrow> views basic_view h' xs = views basic_view h xs"
  by (auto simp: basic_view_def same_core_field subset_iff domIff)

lemma set_concat_views: "set (concat (map (views v h) Ls)) = (\<lambda>a. v (the (h a))) ` set (concat Ls)"
  by auto

lemma SLRU_at_live:
  assumes "SLRU_at E W mx c Ls qs" and "i < length Ls" and "a \<in> set (Ls ! i)"
  obtains ob where "store c a = Some ob" "SLRU_lru_id ob = i"
proof -
  have "a \<in> set (concat Ls)" using nth_subset_concat [OF assms(2)] assms(3) by blast
  from bag_at_live [OF SLRU_atD(1) [OF assms(1)] this] obtain ob where ob: "store c a = Some ob" by blast
  with SLRU_atD(4) [OF assms(1)] assms(2,3) have "SLRU_lru_id ob = i" by (force simp: lids_ok_def)
  with ob that show ?thesis by blast
qed

text \<open>Another arrangement of the same objects.\<close>

lemma SLRU_at_moved:
  assumes "SLRU_at E W mx c Ls qs" and "same_core (store c) h" and "segs_ok h P Ls'"
    and "set (concat Ls') = set (concat Ls)" and "length Ls' = length Ls" and "lids_ok h Ls'"
    and "counts_ok P (map (views basic_view (store c)) Ls')" and "lru_max_n_bytes P = mx" and "n_seg P = length Ls"
  shows "SLRU_at E W mx (c\<lparr>store := h, eviction_params := P\<rparr>) Ls' (map (views basic_view (store c)) Ls')"
proof -
  note c = SLRU_atD [OF assms(1)]
  have dom: "dom (store c) = set (concat Ls)" by (rule bag_at_dom [OF c(1)])
  have v: "views basic_view h L = views basic_view (store c) L" if "L \<in> set Ls'" for L
    using basic_views_core [OF assms(2)] dom assms(4) that by fastforce
  then have q: "map (views basic_view h) Ls' = map (views basic_view (store c)) Ls'" by simp
  have cat: "concat (map (views basic_view (store c)) Ls') = views basic_view h (concat Ls')"
    unfolding q [symmetric] by (simp add: map_concat)
  have "distinct (concat Ls')" using assms(3) by (simp add: segs_ok_def)
  from bag_at_store [OF c(1) assms(2,4) this] have
    "bag_at basic_view E W (c\<lparr>store := h, eviction_params := P\<rparr>) (concat Ls') (views basic_view h (concat Ls'))" by simp
  moreover have "set (concat (map (views basic_view (store c)) Ls')) = set (concat qs)"
    unfolding c(2) set_concat_views assms(4) ..
  ultimately show ?thesis unfolding SLRU_at_def cat [symmetric] using assms c q by simp
qed

section \<open>Cooling\<close>

lemma seg_count_eq:
  "i < length (lru_n_bytes (eviction_params c)) \<Longrightarrow> i < length (lru_n_objs (eviction_params c)) \<Longrightarrow>
   seg_count c i b n = Some (c\<lparr>eviction_params := (eviction_params c)
     \<lparr>lru_n_bytes := (lru_n_bytes (eviction_params c))[i := lru_n_bytes (eviction_params c) ! i + b],
      lru_n_objs := (lru_n_objs (eviction_params c))[i := lru_n_objs (eviction_params c) ! i + n]\<rparr>\<rparr>)"
  by (simp add: seg_count_def elem_def Let_def)

text \<open>The store after an object got another segment.\<close>

lemma lids_moved:
  assumes "lids_ok h Ls" and "distinct (concat Ls)" and "i < length Ls" and "j < length Ls" and "i \<noteq> j"
    and "Ls ! i = us @ a # vs" and "\<And>b. b \<noteq> a \<Longrightarrow> b \<in> set (concat Ls) \<Longrightarrow> SLRU_lru_id (the (h' b)) = SLRU_lru_id (the (h b))"
    and "SLRU_lru_id (the (h' a)) = j"
  shows "lids_ok h' (Ls[i := us @ vs, j := a # Ls ! j])"
  unfolding lids_ok_def
proof (intro allI impI ballI)
  fix k b assume k: "k < length (Ls[i := us @ vs, j := a # Ls ! j])" and b: "b \<in> set (Ls[i := us @ vs, j := a # Ls ! j] ! k)"
  show "SLRU_lru_id (the (h' b)) = k"
  proof (cases "b = a")
    case True
    have "k = j"
    proof (rule ccontr)
      assume "k \<noteq> j"
      with b k True have "a \<in> set (Ls[i := us @ vs] ! k)" by simp
      moreover have "a \<notin> set (us @ vs)" using assms(2) concat_nth [OF assms(3)] assms(6) by auto
      moreover have "a \<notin> set (Ls ! k)" if "k \<noteq> i" using segs_disjoint [OF assms(2,3), of k] k that assms(6) by auto
      ultimately show False using k assms(3) by (cases "k = i") auto
    qed
    with True assms(8) show ?thesis by simp
  next
    case False
    with b k assms(3,4,6) have "b \<in> set (Ls ! k)" by (auto simp: nth_list_update split: if_splits)
    moreover have "b \<in> set (concat Ls)" using calculation k nth_subset_concat [of k Ls] by auto
    ultimately show ?thesis using assms(1,7) False k by (simp add: lids_ok_def)
  qed
qed

lemma mset_concat_update:
  "i < length Ls \<Longrightarrow> mset (concat (Ls[i := L])) + mset (Ls ! i) = mset (concat Ls) + mset L"
  by (simp add: concat_update concat_nth [of i Ls])

lemma concat_moved:
  assumes "i < length Ls" and "j < length Ls" and "i \<noteq> j" and "Ls ! i = us @ a # vs"
  shows "set (concat (Ls[i := us @ vs, j := a # Ls ! j])) = set (concat Ls)"
proof -
  have "mset (concat (Ls[i := us @ vs, j := a # Ls ! j])) = mset (concat Ls)"
    using mset_concat_update [OF assms(1), of "us @ vs"] mset_concat_update [of j "Ls[i := us @ vs]" "a # Ls ! j"] assms
    by simp
  then show ?thesis by (rule mset_eq_setD)
qed

text \<open>Unlinking an object from one segment and linking it in front of another.\<close>

lemma seg_move:
  assumes "SLRU_at E W mx c Ls qs" and "i < length Ls" and "j < length Ls" and "i \<noteq> j" and "Ls ! i = us @ a # vs"
    and "store c a = Some ob"
  shows "\<exists>h1 qh qt ob1. seg_remove c i (Some a) = Some (with_seg c h1 i qh qt) \<and> h1 a = Some ob1 \<and> noq ob1 = noq ob
    \<and> (\<forall>n c1. c1 = (with_seg c h1 i qh qt)\<lparr>store := h1(a \<mapsto> ob1\<lparr>SLRU_lru_id := n\<rparr>)\<rparr> \<longrightarrow>
      (\<exists>h2 qh2 qt2 ob2. seg_prepend c1 j (Some a) = Some (with_seg c1 h2 j qh2 qt2) \<and> h2 a = Some ob2
      \<and> noq ob2 = noq (ob1\<lparr>SLRU_lru_id := n\<rparr>)
      \<and> segs_ok h2 (put_seg (put_seg (eviction_params c) i qh qt) j qh2 qt2) (Ls[i := us @ vs, j := a # Ls ! j])
      \<and> lids_ok (h2(a \<mapsto> ob2\<lparr>SLRU_lru_id := j\<rparr>)) (Ls[i := us @ vs, j := a # Ls ! j])
      \<and> same_core (store c) h2))"
proof -
  note c = SLRU_atD [OF assms(1)]
  have dis: "distinct (concat Ls)" using c(3) by (simp add: segs_ok_def)
  from seg_remove_ok [OF c(3) assms(2,5)] obtain h1 qh qt where
    r: "seg_remove c i (Some a) = Some (with_seg c h1 i qh qt)"
    "segs_ok h1 (put_seg (eviction_params c) i qh qt) (Ls[i := us @ vs])" "qframe UNIV (store c) h1" by blast
  from qframe_obj [OF r(3) assms(6)] obtain ob1 where ob1: "h1 a = Some ob1" "noq ob1 = noq ob" by blast
  have out: "a \<notin> set (concat (Ls[i := us @ vs]))"
    using dis unfolding concat_update [OF assms(2)] concat_nth [OF assms(2)] assms(5) by auto
  have "\<exists>h2 qh2 qt2 ob2. seg_prepend c1 j (Some a) = Some (with_seg c1 h2 j qh2 qt2) \<and> h2 a = Some ob2
      \<and> noq ob2 = noq (ob1\<lparr>SLRU_lru_id := n\<rparr>)
      \<and> segs_ok h2 (put_seg (put_seg (eviction_params c) i qh qt) j qh2 qt2) (Ls[i := us @ vs, j := a # Ls ! j])
      \<and> lids_ok (h2(a \<mapsto> ob2\<lparr>SLRU_lru_id := j\<rparr>)) (Ls[i := us @ vs, j := a # Ls ! j])
      \<and> same_core (store c) h2"
    if c1: "c1 = (with_seg c h1 i qh qt)\<lparr>store := h1(a \<mapsto> ob1\<lparr>SLRU_lru_id := n\<rparr>)\<rparr>" for n c1
  proof -
    let ?h = "h1(a \<mapsto> ob1\<lparr>SLRU_lru_id := n\<rparr>)"
    have "segs_ok (store c1) (eviction_params c1) (Ls[i := us @ vs])"
      using segs_store [OF r(2), of ?h] ob1(1) by (simp add: c1)
    from seg_prepend_ok [OF this, of j a "ob1\<lparr>SLRU_lru_id := n\<rparr>"] assms(3,4) out obtain h2 qh2 qt2 where
      p: "seg_prepend c1 j (Some a) = Some (with_seg c1 h2 j qh2 qt2)"
      "segs_ok h2 (put_seg (eviction_params c1) j qh2 qt2) (Ls[i := us @ vs, j := a # Ls ! j])"
      "qframe UNIV ?h h2" by (auto simp: c1)
    from qframe_obj [OF p(3), of a] obtain ob2 where ob2: "h2 a = Some ob2" "noq ob2 = noq (ob1\<lparr>SLRU_lru_id := n\<rparr>)" by auto
    have "same_core h1 ?h" by (rule same_core_upd, rule ob1(1)) (simp add: core_def)
    then have core: "same_core (store c) h2"
      using same_core_trans [OF same_core_qframe [OF r(3)]] same_core_trans same_core_qframe [OF p(3)] by blast
    have "SLRU_lru_id (the (h2 b)) = SLRU_lru_id (the (store c b))" if b: "b \<noteq> a" "b \<in> set (concat Ls)" for b
    proof -
      have d: "b \<in> dom (store c)" using bag_at_dom [OF c(1)] b(2) by simp
      then have "b \<in> dom ?h" using qframe_dom [OF r(3)] by auto
      from arg_cong [OF qframe_the [OF p(3) this], of SLRU_lru_id] arg_cong [OF qframe_the [OF r(3) d], of SLRU_lru_id]
      show ?thesis using b(1) by simp
    qed
    then have "lids_ok (h2(a \<mapsto> ob2\<lparr>SLRU_lru_id := j\<rparr>)) (Ls[i := us @ vs, j := a # Ls ! j])"
      by (intro lids_moved [OF c(4) dis assms(2,3,4,5)]) simp_all
    with p(1,2) ob2 core show ?thesis by (auto simp: c1)
  qed
  with r(1) ob1 show ?thesis by blast
qed

lemma SLRU_at_shifted:
  assumes "SLRU_at E W mx c Ls qs" and "i < length Ls" and "j < length Ls" and "i \<noteq> j" and "Ls ! i = us @ a # vs"
    and "store c a = Some ob" and "segs_ok h P (Ls[i := us @ vs, j := a # Ls ! j])"
    and "lids_ok h (Ls[i := us @ vs, j := a # Ls ! j])" and "same_core (store c) h"
    and "lru_n_bytes P = (lru_n_bytes (eviction_params c))[i := lru_n_bytes (eviction_params c) ! i - obj_size ob,
      j := lru_n_bytes (eviction_params c) ! j + obj_size ob]"
    and "length (lru_n_objs P) = length Ls" and "lru_max_n_bytes P = mx" and "n_seg P = length Ls"
  shows "SLRU_at E W mx (c\<lparr>store := h, eviction_params := P\<rparr>) (Ls[i := us @ vs, j := a # Ls ! j])
    (qs[i := views basic_view (store c) (us @ vs), j := basic_view ob # qs ! j])"
proof -
  note c = SLRU_atD [OF assms(1)]
  let ?Ls = "Ls[i := us @ vs, j := a # Ls ! j]" and ?q = "views basic_view (store c) (us @ vs)"
  have b: "lru_n_bytes (eviction_params c) = map (queue_bytes 0) qs" using c(5) by (simp add: counts_ok_def)
  have qs': "map (views basic_view (store c)) ?Ls = qs[i := ?q, j := basic_view ob # qs ! j]"
    using assms(3,6) c(2) by (simp add: map_update)
  have "queue_bytes 0 (qs ! i) = queue_bytes 0 ?q + obj_size ob"
    using assms(2,5,6) unfolding c(2) by (simp add: basic_view_def)
  then have "counts_ok P (map (views basic_view (store c)) ?Ls)"
    unfolding qs' counts_ok_def using assms(2,3,10,11) b c(9) by (simp add: map_update basic_view_def add.commute)
  with assms c concat_moved [OF assms(2-5)] show ?thesis
    unfolding qs' [symmetric] by (intro SLRU_at_moved [OF assms(1)]) simp_all
qed

lemma SLRU_cool_move_ok:
  assumes "SLRU_at E W mx c Ls qs" and "Suc i < length Ls" and "Ls ! Suc i = L @ [a]"
  shows "\<exists>c'. SLRU_cool_move c (Suc i) = Some c' \<and> same_limits c c' \<and> admissioner c' = admissioner c
    \<and> SLRU_at E W mx c' (Ls[Suc i := L, i := a # Ls ! i]) (qs[Suc i := butlast (qs ! Suc i), i := last (qs ! Suc i) # qs ! i])"
proof -
  note c = SLRU_atD [OF assms(1)]
  let ?P = "eviction_params c" and ?Ls = "Ls[Suc i := L, i := a # Ls ! i]"
  have i: "i < length Ls" using assms(2) by simp
  obtain ob where ob: "store c a = Some ob" "SLRU_lru_id ob = Suc i"
    using SLRU_at_live [OF assms(1,2), of a] assms(3) by auto
  have "dll (store c) (lru_heads ?P ! Suc i) (lru_tails ?P ! Suc i) (L @ [a])" using c(3) assms(2,3) by (auto simp: segs_ok_def)
  then have tail: "elem (lru_tails ?P) (Suc i) = Some (Some a)"
    using c(3) assms(2) dll_unique_head_tail(2) by (fastforce simp: elem_def segs_ok_def)
  from seg_move [OF assms(1,2) i _ _ ob(1), of L "[]"] assms(3) obtain h1 qh qt ob1 where
    r: "seg_remove c (Suc i) (Some a) = Some (with_seg c h1 (Suc i) qh qt)" "h1 a = Some ob1" "noq ob1 = noq ob"
    and p: "\<And>n c1. c1 = (with_seg c h1 (Suc i) qh qt)\<lparr>store := h1(a \<mapsto> ob1\<lparr>SLRU_lru_id := n\<rparr>)\<rparr> \<Longrightarrow>
      (\<exists>h2 qh2 qt2 ob2. seg_prepend c1 i (Some a) = Some (with_seg c1 h2 i qh2 qt2) \<and> h2 a = Some ob2
      \<and> noq ob2 = noq (ob1\<lparr>SLRU_lru_id := n\<rparr>)
      \<and> segs_ok h2 (put_seg (put_seg ?P (Suc i) qh qt) i qh2 qt2) ?Ls
      \<and> lids_ok (h2(a \<mapsto> ob2\<lparr>SLRU_lru_id := i\<rparr>)) ?Ls \<and> same_core (store c) h2)" by auto
  have lid: "ob1\<lparr>SLRU_lru_id := SLRU_lru_id ob1\<rparr> = ob1" "h1(a \<mapsto> ob1) = h1" using r(2) by auto
  from p [of "with_seg c h1 (Suc i) qh qt" "SLRU_lru_id ob1"] lid obtain h2 qh2 qt2 ob2 where
    p2: "seg_prepend (with_seg c h1 (Suc i) qh qt) i (Some a) = Some (with_seg (with_seg c h1 (Suc i) qh qt) h2 i qh2 qt2)"
    "h2 a = Some ob2" "noq ob2 = noq ob1" "segs_ok h2 (put_seg (put_seg ?P (Suc i) qh qt) i qh2 qt2) ?Ls"
    "lids_ok (h2(a \<mapsto> ob2\<lparr>SLRU_lru_id := i\<rparr>)) ?Ls" "same_core (store c) h2" by auto
  let ?PP = "put_seg (put_seg ?P (Suc i) qh qt) i qh2 qt2" and ?h = "h2(a \<mapsto> ob2\<lparr>SLRU_lru_id := i\<rparr>)"
  let ?b = "lru_n_bytes ?P" and ?n = "lru_n_objs ?P"
  let ?Q = "?PP\<lparr>lru_n_bytes := ?b[Suc i := ?b ! Suc i - obj_size ob, i := ?b ! i + obj_size ob],
    lru_n_objs := ?n[Suc i := ?n ! Suc i - 1, i := ?n ! i + 1]\<rparr>"
  have sz: "obj_size ob2 = obj_size ob"
    using arg_cong [OF p2(3), of obj_size] arg_cong [OF r(3), of obj_size] by simp
  have b: "?b = map (queue_bytes 0) qs" "length ?n = length qs" using c(5) by (simp_all add: counts_ok_def)
  have mv: "SLRU_cool_move c (Suc i) = Some (c\<lparr>store := ?h, eviction_params := ?Q\<rparr>)"
    using tail r(1) p2(1,2) b i assms(2) c(9) sz by (simp add: SLRU_cool_move_def set_lru_id_def seg_count_eq)
  have "qs ! Suc i = views basic_view (store c) L @ [basic_view ob]"
    using assms(2,3) ob(1) unfolding c(2) by simp
  then have Q: "butlast (qs ! Suc i) = views basic_view (store c) (L @ [])" "last (qs ! Suc i) = basic_view ob" by simp_all
  have "segs_ok ?h ?PP ?Ls" by (rule segs_store [OF p2(4)]) (use p2(2) in simp)
  moreover have "same_core (store c) ?h"
    by (rule same_core_trans [OF p2(6)], rule same_core_upd, rule p2(2)) (simp add: core_def)
  ultimately have "SLRU_at E W mx (c\<lparr>store := ?h, eviction_params := ?Q\<rparr>) ?Ls
      (qs[Suc i := butlast (qs ! Suc i), i := last (qs ! Suc i) # qs ! i])"
    unfolding Q using SLRU_at_shifted [OF assms(1,2) i _ _ ob(1), of L "[]" ?h ?Q] assms(3) p2(5) b c(6,7,9) by simp
  with mv show ?thesis by (simp add: same_limits_def)
qed

section \<open>Eviction\<close>

lemma SLRU_to_evict_loop_ok:
  assumes "SLRU_at E W mx c Ls qs" and "k < length Ls" and "0 < queue_bytes 0 (qs ! k)"
  shows "i \<le> k \<Longrightarrow> \<forall>j. i \<le> j \<and> j < k \<longrightarrow> queue_bytes 0 (qs ! j) \<le> 0 \<Longrightarrow>
    SLRU_to_evict_loop E c i fb = Some (lru_tails (eviction_params c) ! k)"
proof (induction "k - i" arbitrary: i)
  case 0
  then have i: "i = k" by simp
  note c = SLRU_atD [OF assms(1)]
  have b: "lru_n_bytes (eviction_params c) ! k = queue_bytes 0 (qs ! k)" "length (lru_n_bytes (eviction_params c)) = length Ls"
    using c(5,9) assms(2) by (simp_all add: counts_ok_def)
  have "qs ! k \<noteq> []" using assms(3) by auto
  then have "Ls ! k \<noteq> []" using c(2) assms(2) by simp
  moreover have "dll (store c) (lru_heads (eviction_params c) ! k) (lru_tails (eviction_params c) ! k) (Ls ! k)"
    "length (lru_tails (eviction_params c)) = length Ls" using c(3) assms(2) by (simp_all add: segs_ok_def)
  ultimately obtain a where t: "lru_tails (eviction_params c) ! k = Some a" "a \<in> set (Ls ! k)"
    "length (lru_tails (eviction_params c)) = length Ls" by (auto simp: dll_def lastp_def)
  obtain ob where "store c a = Some ob" using SLRU_at_live [OF assms(1,2) t(2)] by blast
  then show ?case unfolding i using assms(2,3) b t c(7,11)
    by (subst SLRU_to_evict_loop.simps) (simp add: elem_def cache_skip_pinned_def cache_obj_is_pinned_def)
next
  case (Suc n)
  note c = SLRU_atD [OF assms(1)]
  have i: "i < k" using Suc.hyps(2) by simp
  have "SLRU_to_evict_loop E c (i + 1) fb = Some (lru_tails (eviction_params c) ! k)"
    by (rule Suc.hyps(1)) (use Suc.hyps(2) Suc.prems i in auto)
  moreover have "elem (lru_n_bytes (eviction_params c)) i = Some (queue_bytes 0 (qs ! i))"
    using c(5,9) assms(2) i by (simp add: counts_ok_def elem_def)
  moreover have "queue_bytes 0 (qs ! i) \<le> 0" using Suc.prems(2) i by simp
  ultimately show ?case using i assms(2) c(7) by (subst SLRU_to_evict_loop.simps) simp
qed

lemma lids_subset:
  assumes "lids_ok h Ls" and "length Ls' = length Ls" and "\<And>k. k < length Ls \<Longrightarrow> set (Ls' ! k) \<subseteq> set (Ls ! k)"
    and "\<And>b. b \<in> set (concat Ls') \<Longrightarrow> SLRU_lru_id (the (h' b)) = SLRU_lru_id (the (h b))"
  shows "lids_ok h' Ls'"
  unfolding lids_ok_def
proof (intro allI impI ballI)
  fix k b assume k: "k < length Ls'" and b: "b \<in> set (Ls' ! k)"
  have "b \<in> set (Ls ! k)" using b k assms(2,3) by auto
  moreover have "b \<in> set (concat Ls')" using nth_subset_concat [OF k] b by blast
  ultimately show "SLRU_lru_id (the (h' b)) = k" using assms(1,2,4) k by (simp add: lids_ok_def)
qed

lemma lids_shrink:
  assumes "lids_ok h Ls" and "i < length Ls" and "Ls ! i = us @ a # vs" and "set L \<subseteq> set (us @ a # vs)"
    and "\<And>b. b \<in> set (concat (Ls[i := L])) \<Longrightarrow> SLRU_lru_id (the (h' b)) = SLRU_lru_id (the (h b))"
  shows "lids_ok h' (Ls[i := L])"
  by (rule lids_subset [OF assms(1)]) (use assms in \<open>auto simp: nth_list_update split: if_splits\<close>)

text \<open>Unlinking an object from its segment and removing it from the cache.\<close>

lemma SLRU_take:
  assumes "SLRU_at E W mx c Ls qs" and "i < length Ls" and "Ls ! i = us @ a # vs" and "store c a = Some ob"
  shows "\<exists>h qh qt. remove_obj_from_list (store c) (lru_heads (eviction_params c) ! i) (lru_tails (eviction_params c) ! i) (Some a)
      = Some (h, qh, qt) \<and>
    (\<forall>P. (lru_heads P, lru_tails P) = (lru_heads (put_seg (eviction_params c) i qh qt), lru_tails (put_seg (eviction_params c) i qh qt)) \<longrightarrow>
      (\<exists>h' ht. cache_remove_obj_base E (c\<lparr>store := h, eviction_params := P\<rparr>) (Some a) True
          = Some (shrunk (c\<lparr>store := h, eviction_params := P\<rparr>) h' ht (obj_size ob))
      \<and> bag_at basic_view E W (shrunk (c\<lparr>store := h, eviction_params := P\<rparr>) h' ht (obj_size ob))
          (concat (Ls[i := us @ vs])) (concat (qs[i := views basic_view (store c) (us @ vs)]))
      \<and> map (views basic_view h') (Ls[i := us @ vs]) = qs[i := views basic_view (store c) (us @ vs)]
      \<and> segs_ok h' P (Ls[i := us @ vs]) \<and> lids_ok h' (Ls[i := us @ vs])))"
proof -
  note c = SLRU_atD [OF assms(1)]
  let ?Ls = "Ls[i := us @ vs]" and ?us = "concat (take i Ls) @ us" and ?vs = "vs @ concat (drop (Suc i) Ls)"
  have cat: "concat Ls = ?us @ a # ?vs" "concat ?Ls = ?us @ ?vs"
    using concat_nth [OF assms(2)] concat_update [OF assms(2)] assms(3) by simp_all
  from seg_remove_ok [OF c(3) assms(2,3)] obtain h qh qt where
    r: "remove_obj_from_list (store c) (lru_heads (eviction_params c) ! i) (lru_tails (eviction_params c) ! i) (Some a) = Some (h, qh, qt)"
    "segs_ok h (put_seg (eviction_params c) i qh qt) ?Ls" "qframe UNIV (store c) h" by blast
  note core = same_core_qframe [OF r(3)] and dom = bag_at_dom [OF c(1)]
  from qframe_obj [OF r(3) assms(4)] obtain ob' where ob': "h a = Some ob'" "noq ob' = noq ob" by blast
  have same: "obj_id ob' = obj_id ob" "obj_size ob' = obj_size ob"
    using arg_cong [OF ob'(2), of obj_id] arg_cong [OF ob'(2), of obj_size] by simp_all
  have "distinct (concat Ls)" using c(3) by (simp add: segs_ok_def)
  then have bag: "bag_at basic_view E W (c\<lparr>store := h, eviction_params := P\<rparr>) (?us @ a # ?vs) (views basic_view h (?us @ a # ?vs))" for P
    using bag_at_store [OF c(1) core refl] unfolding cat(1) by (simp only: bag_at_fields)
  have a: "a \<notin> set (concat ?Ls)" using \<open>distinct (concat Ls)\<close> unfolding cat by auto
  have sub: "set (concat ?Ls) \<subseteq> dom (store c)" "set (concat ?Ls) \<subseteq> dom h"
    using dom qframe_dom [OF r(3)] unfolding cat by auto
  have "\<exists>h' ht. cache_remove_obj_base E (c\<lparr>store := h, eviction_params := P\<rparr>) (Some a) True
          = Some (shrunk (c\<lparr>store := h, eviction_params := P\<rparr>) h' ht (obj_size ob))
      \<and> bag_at basic_view E W (shrunk (c\<lparr>store := h, eviction_params := P\<rparr>) h' ht (obj_size ob))
          (concat ?Ls) (concat (qs[i := views basic_view (store c) (us @ vs)]))
      \<and> map (views basic_view h') ?Ls = qs[i := views basic_view (store c) (us @ vs)]
      \<and> segs_ok h' P ?Ls \<and> lids_ok h' ?Ls"
    if P: "(lru_heads P, lru_tails P) = (lru_heads (put_seg (eviction_params c) i qh qt), lru_tails (put_seg (eviction_params c) i qh qt))" for P
  proof -
    from basic.bag_remove [OF bag [of P], of ob'] ob'(1) obtain h' ht where
      b: "cache_remove_obj_base E (c\<lparr>store := h, eviction_params := P\<rparr>) (Some a) True
          = Some (shrunk (c\<lparr>store := h, eviction_params := P\<rparr>) h' ht (obj_size ob))"
      "\<exists>es. bag_at basic_view E W (shrunk (c\<lparr>store := h, eviction_params := P\<rparr>) h' ht (obj_size ob)) (concat ?Ls) es"
      "\<forall>qh qt ys. dll h qh qt ys \<longrightarrow> a \<notin> set ys \<longrightarrow> dll h' qh qt ys" "same_payload (set (concat ?Ls)) h h'"
      unfolding cat by (auto simp: same)
    have "views basic_view h' L = views basic_view (store c) L" if "L \<in> set ?Ls" for L
    proof -
      have L: "set L \<subseteq> set (concat ?Ls)" using that by auto
      have "views basic_view h' L = views basic_view h L"
        by (rule basic.same_payload_views [OF b(4) L]) (use L sub(2) in blast)
      also have "\<dots> = views basic_view (store c) L" by (rule basic_views_core [OF core]) (use L sub(1) in blast)
      finally show ?thesis .
    qed
    then have "map (views basic_view h') ?Ls = map (views basic_view (store c)) ?Ls" by simp
    then have q: "map (views basic_view h') ?Ls = qs[i := views basic_view (store c) (us @ vs)]"
      unfolding c(2) by (simp add: map_update)
    have "concat (qs[i := views basic_view (store c) (us @ vs)]) = views basic_view h' (concat ?Ls)"
      unfolding q [symmetric] by (simp add: map_concat)
    with b(2) have bag': "bag_at basic_view E W (shrunk (c\<lparr>store := h, eviction_params := P\<rparr>) h' ht (obj_size ob))
        (concat ?Ls) (concat (qs[i := views basic_view (store c) (us @ vs)]))" by (auto simp: bag_at_def)
    have "a \<notin> set (?Ls ! k)" if "k < length ?Ls" for k using nth_subset_concat [OF that] a by blast
    with r(2) P b(3) have "segs_ok h' P ?Ls" by (auto simp: segs_ok_def)
    moreover have "SLRU_lru_id (the (h' b)) = SLRU_lru_id (the (store c b))" if "b \<in> set (concat ?Ls)" for b
      using same_payload_the [where f = SLRU_lru_id, OF b(4) that] subsetD [OF sub(2) that]
        arg_cong [OF qframe_the [OF r(3) subsetD [OF sub(1) that]], of SLRU_lru_id] by simp
    then have "lids_ok h' ?Ls" by (intro lids_shrink [OF c(4) assms(2,3)]) auto
    ultimately show ?thesis using b(1) q bag' by blast
  qed
  with r(1) show ?thesis by blast
qed

lemma SLRU_evict_ok:
  assumes "SLRU_at E W mx c Ls qs" and "k < length Ls" and "0 < queue_bytes 0 (qs ! k)"
    and "\<forall>j < k. queue_bytes 0 (qs ! j) \<le> 0"
  shows "\<exists>c'. SLRU_evict E None c req = Some c' \<and> same_limits c c' \<and> admissioner c' = admissioner c
    \<and> SLRU_at E W mx c' (Ls[k := butlast (Ls ! k)]) (qs[k := butlast (qs ! k)])"
proof -
  note c = SLRU_atD [OF assms(1)]
  let ?P = "eviction_params c" and ?b = "lru_n_bytes (eviction_params c)" and ?n = "lru_n_objs (eviction_params c)"
  have "qs ! k \<noteq> []" using assms(3) by auto
  then obtain us a where ua: "Ls ! k = us @ [a]" using c(2) assms(2) by (cases "Ls ! k" rule: rev_cases) auto
  obtain ob where ob: "store c a = Some ob" "SLRU_lru_id ob = k" using SLRU_at_live [OF assms(1,2), of a] ua by auto
  have "dll (store c) (lru_heads ?P ! k) (lru_tails ?P ! k) (us @ [a])" using c(3) assms(2) ua by (auto simp: segs_ok_def)
  then have "lru_tails ?P ! k = Some a" using dll_unique_head_tail(2) by fastforce
  with SLRU_to_evict_loop_ok [OF assms(1-3), of 0 NULL] assms(4)
  have te: "SLRU_to_evict E c req = Some (c, Some a)" by (simp add: SLRU_to_evict_def)
  have b: "?b = map (queue_bytes 0) qs" "length ?n = length qs" using c(5) by (simp_all add: counts_ok_def)
  let ?Q = "?P\<lparr>lru_n_bytes := ?b[k := ?b ! k - obj_size ob], lru_n_objs := ?n[k := ?n ! k - 1]\<rparr>"
  have cnt: "seg_count c k (- (obj_size ob + obj_md_size c)) (- 1) = Some (c\<lparr>eviction_params := ?Q\<rparr>)"
    using b assms(2) c(9,10) by (simp add: seg_count_eq)
  from SLRU_take [OF assms(1,2) _ ob(1), of us "[]"] ua obtain h qh qt where
    r: "remove_obj_from_list (store c) (lru_heads ?P ! k) (lru_tails ?P ! k) (Some a) = Some (h, qh, qt)" and t:
    "\<And>P. (lru_heads P, lru_tails P) = (lru_heads (put_seg ?P k qh qt), lru_tails (put_seg ?P k qh qt)) \<Longrightarrow>
      (\<exists>h' ht. cache_remove_obj_base E (c\<lparr>store := h, eviction_params := P\<rparr>) (Some a) True
          = Some (shrunk (c\<lparr>store := h, eviction_params := P\<rparr>) h' ht (obj_size ob))
      \<and> bag_at basic_view E W (shrunk (c\<lparr>store := h, eviction_params := P\<rparr>) h' ht (obj_size ob))
          (concat (Ls[k := us])) (concat (qs[k := views basic_view (store c) us]))
      \<and> map (views basic_view h') (Ls[k := us]) = qs[k := views basic_view (store c) us]
      \<and> segs_ok h' P (Ls[k := us]) \<and> lids_ok h' (Ls[k := us]))" by auto
  let ?R = "put_seg ?Q k qh qt"
  from t [of ?R] obtain h' ht where
    e: "cache_remove_obj_base E (c\<lparr>store := h, eviction_params := ?R\<rparr>) (Some a) True
          = Some (shrunk (c\<lparr>store := h, eviction_params := ?R\<rparr>) h' ht (obj_size ob))"
    "bag_at basic_view E W (shrunk (c\<lparr>store := h, eviction_params := ?R\<rparr>) h' ht (obj_size ob))
          (concat (Ls[k := us])) (concat (qs[k := views basic_view (store c) us]))"
    "map (views basic_view h') (Ls[k := us]) = qs[k := views basic_view (store c) us]"
    "segs_ok h' ?R (Ls[k := us])" "lids_ok h' (Ls[k := us])" by auto
  have rm: "seg_remove (c\<lparr>eviction_params := ?Q\<rparr>) k (Some a) = Some (c\<lparr>store := h, eviction_params := ?R\<rparr>)"
    using r c(3) assms(2) by (simp add: seg_remove_def Let_def elem_def segs_ok_def)
  have ev: "SLRU_evict E None c req = Some (shrunk (c\<lparr>store := h, eviction_params := ?R\<rparr>) h' ht (obj_size ob))"
    using te ob cnt rm e(1) by (simp add: SLRU_evict_def)
  have q: "qs ! k = views basic_view (store c) us @ [basic_view ob]" using assms(2) ua ob(1) unfolding c(2) by simp
  then have q': "butlast (qs ! k) = views basic_view (store c) us" "butlast (Ls ! k) = us"
    "?b ! k - obj_size ob = queue_bytes 0 (views basic_view (store c) us)"
    using ua b(1) assms(2) c(9) by (simp_all add: basic_view_def)
  have cok: "counts_ok ?R (qs[k := views basic_view (store c) us])"
    unfolding counts_ok_def using b q'(3) by (simp add: map_update)
  have "set (concat (qs[k := views basic_view (store c) us])) \<subseteq> set (concat qs)"
    using q assms(2) c(9) unfolding concat_update [of k qs, unfolded c(9), OF assms(2)] concat_nth [of k qs, unfolded c(9), OF assms(2)]
    by auto
  then have "\<forall>e \<in> set (concat (qs[k := views basic_view (store c) us])). 0 \<le> snd e \<and> snd e \<le> mx ! 0" using c(14) by blast
  then have "SLRU_at E W mx (shrunk (c\<lparr>store := h, eviction_params := ?R\<rparr>) h' ht (obj_size ob)) (Ls[k := us])
      (qs[k := views basic_view (store c) us])"
    using e c cok unfolding SLRU_at_def by (simp add: e(3))
  with ev q' show ?thesis by (simp add: same_limits_def)
qed

end
