(* ===== verification/SLRU_Policy.thy ===== *)
theory SLRU_Policy
  imports SLRU_Refine
begin

text \<open>
  The operations of the segmented LRU cache against its abstract machine: the cooling loops return and
  settle the segments, and lookup, eviction and insertion simulate the machine, so that every trace
  is served with the machine's hits.
\<close>

section \<open>The cooling loops\<close>

text \<open>One round of the loop of segment \<open>j\<close>, and the whole loop.\<close>

definition cools :: "env \<Rightarrow> trace_ids \<Rightarrow> int list \<Rightarrow> ('a, 'f) slru_cache \<Rightarrow> addr list list \<Rightarrow> nat \<Rightarrow>
    ('a, 'f) slru_cache option \<Rightarrow> addr list \<Rightarrow> int queue list \<Rightarrow> bool" where
  "cools E W mx c Ls j r L qs \<longleftrightarrow> (\<exists>c' Ls'. r = Some c' \<and> SLRU_at E W mx c' Ls' qs \<and> length Ls' = length Ls
     \<and> same_limits c c' \<and> admissioner c' = admissioner c \<and> Ls' ! j = L \<and> (\<forall>k > j. k < length Ls \<longrightarrow> Ls' ! k = Ls ! k))"

definition cool_returns :: "('a \<times> 'f) itself \<Rightarrow> env \<Rightarrow> trace_ids \<Rightarrow> int list \<Rightarrow> request \<Rightarrow> nat \<Rightarrow> bool" where
  "cool_returns T E W mx req j \<longleftrightarrow> (\<forall>(c :: ('a, 'f) slru_cache) Ls qs. SLRU_at E W mx c Ls qs \<longrightarrow> j < length Ls \<longrightarrow>
     mx ! j < queue_bytes 0 (qs ! j) \<longrightarrow>
     (\<exists>qs'. settle mx qs' j = settle mx qs j \<and> cools E W mx c Ls j (SLRU_cool E None c req j) (butlast (Ls ! j)) qs'))"

lemma SLRU_cool_loop_eq:
  "SLRU_cool_loop E pf c req i = Option.bind (seg_over c i) (\<lambda>over.
     if over then Option.bind (SLRU_cool E pf c req i) (\<lambda>c. SLRU_cool_loop E pf c req i) else Some c)"
  unfolding SLRU_cool_def by (rule SLRU_cool_loop.simps)

lemma seg_over_eq:
  "SLRU_at E W mx c Ls qs \<Longrightarrow> j < length Ls \<Longrightarrow> seg_over c j = Some (mx ! j < queue_bytes 0 (qs ! j))"
  using SLRU_atD(5,6,8,9) [of E W mx c Ls qs] by (auto simp: seg_over_def elem_def counts_ok_def)

lemma SLRU_at_settled:
  assumes "SLRU_at E W mx c Ls qs" and "j < length Ls" and "\<not> mx ! j < queue_bytes 0 (qs ! j)"
  shows "settle mx qs j = qs"
  using SLRU_atD(9,13) [OF assms(1)] assms(2,3) by (intro settle_fits) simp_all

lemma SLRU_at_over:
  assumes "SLRU_at E W mx c Ls qs" and "j < length Ls" and "mx ! j < queue_bytes 0 (qs ! j)"
  shows "0 < queue_bytes 0 (qs ! j)" "Ls ! j \<noteq> []" "qs ! j \<noteq> []"
proof -
  note c = SLRU_atD [OF assms(1)]
  have "mx ! 0 \<le> mx ! j" using c(8,12) assms(2) by (auto simp: mx_ok_def intro!: sorted_nth_mono)
  moreover have "0 \<le> mx ! 0" using c(12) by (simp add: mx_ok_def)
  ultimately show pos: "0 < queue_bytes 0 (qs ! j)" using assms(3) by linarith
  then show "qs ! j \<noteq> []" by auto
  then show "Ls ! j \<noteq> []" using c(2) assms(2) by auto
qed

lemma SLRU_cool_loop_ok:
  assumes "cool_returns TYPE('a \<times> 'f) E W mx req j"
  shows "SLRU_at E W mx (c :: ('a, 'f) slru_cache) Ls qs \<Longrightarrow> j < length Ls \<Longrightarrow>
    \<exists>L. cools E W mx c Ls j (SLRU_cool_loop E None c req j) L (settle mx qs j)"
proof (induction "length (Ls ! j)" arbitrary: c Ls qs rule: less_induct)
  case less
  show ?case
  proof (cases "mx ! j < queue_bytes 0 (qs ! j)")
    case False
    with seg_over_eq [OF less.prems] have "SLRU_cool_loop E None c req j = Some c"
      by (subst SLRU_cool_loop_eq) simp
    with less.prems show ?thesis
      unfolding SLRU_at_settled [OF less.prems False] cools_def by (auto simp: same_limits_def)
  next
    case True
    with assms less.prems obtain qs' c1 Ls1 where
      c1: "settle mx qs' j = settle mx qs j" "SLRU_cool E None c req j = Some c1" "SLRU_at E W mx c1 Ls1 qs'"
      "length Ls1 = length Ls" "same_limits c c1" "admissioner c1 = admissioner c" "Ls1 ! j = butlast (Ls ! j)"
      "\<forall>k > j. k < length Ls \<longrightarrow> Ls1 ! k = Ls ! k"
      unfolding cool_returns_def cools_def by metis
    have "length (Ls1 ! j) < length (Ls ! j)" using SLRU_at_over(2) [OF less.prems True] c1(7) by simp
    from less.hyps [OF this c1(3)] c1(4) less.prems(2) obtain L where
      l: "cools E W mx c1 Ls1 j (SLRU_cool_loop E None c1 req j) L (settle mx qs j)" by (auto simp: c1(1))
    have "SLRU_cool_loop E None c req j = SLRU_cool_loop E None c1 req j"
      using True seg_over_eq [OF less.prems] c1(2) by (subst SLRU_cool_loop_eq) simp
    with l have "cools E W mx c Ls j (SLRU_cool_loop E None c req j) L (settle mx qs j)"
      using c1(4-6,8) same_limits_trans [OF c1(5)] unfolding cools_def by auto
    then show ?thesis ..
  qed
qed

lemma SLRU_cool_ok: "cool_returns TYPE('a \<times> 'f) E W mx req j"
proof (induction j)
  case 0
  have "\<exists>qs'. settle mx qs' 0 = settle mx qs 0 \<and> cools E W mx c Ls 0 (SLRU_cool E None c req 0) (butlast (Ls ! 0)) qs'"
    if c: "SLRU_at E W mx c Ls qs" "0 < length Ls" "mx ! 0 < queue_bytes 0 (qs ! 0)" for c :: "('a, 'f) slru_cache" and Ls qs
  proof -
    note over = SLRU_at_over [OF c]
    obtain q x where q: "qs ! 0 = q @ [x]" using over(3) by (cases "qs ! 0" rule: rev_cases) auto
    have ne: "qs \<noteq> []" using c(2) SLRU_atD(9) [OF c(1)] by auto
    then have "sized (qs ! 0)" using SLRU_atD(13) [OF c(1)] by simp
    then have "sized q" by (simp add: q)
    from settle_step_0 [OF this q c(3) [unfolded q] ne]
    have "settle mx (qs[0 := butlast (qs ! 0)]) 0 = settle mx qs 0" by (simp add: q)
    moreover have "cools E W mx c Ls 0 (SLRU_cool E None c req 0) (butlast (Ls ! 0)) (qs[0 := butlast (qs ! 0)])"
      using SLRU_evict_ok [OF c(1,2) over(1), of req] c(2) by (fastforce simp: cools_def SLRU_cool_def)
    ultimately show ?thesis by blast
  qed
  then show ?case by (auto simp: cool_returns_def)
next
  case (Suc i)
  have "\<exists>qs'. settle mx qs' (Suc i) = settle mx qs (Suc i)
      \<and> cools E W mx c Ls (Suc i) (SLRU_cool E None c req (Suc i)) (butlast (Ls ! Suc i)) qs'"
    if c: "SLRU_at E W mx c Ls qs" "Suc i < length Ls" "mx ! Suc i < queue_bytes 0 (qs ! Suc i)"
    for c :: "('a, 'f) slru_cache" and Ls qs
  proof -
    note over = SLRU_at_over [OF c]
    let ?qs = "qs[Suc i := butlast (qs ! Suc i), i := last (qs ! Suc i) # qs ! i]"
    obtain L a where L: "Ls ! Suc i = L @ [a]" using over(2) by (cases "Ls ! Suc i" rule: rev_cases) auto
    let ?Ls = "Ls[Suc i := L, i := a # Ls ! i]"
    from SLRU_cool_move_ok [OF c(1,2) L] obtain c1 where
      m: "SLRU_cool_move c (Suc i) = Some c1" "same_limits c c1" "admissioner c1 = admissioner c" "SLRU_at E W mx c1 ?Ls ?qs"
      by blast
    from SLRU_cool_loop_ok [OF Suc m(4)] c(2) obtain L' where
      l: "cools E W mx c1 ?Ls i (SLRU_cool_loop E None c1 req i) L' (settle mx ?qs i)" by auto
    have "SLRU_cool E None c req (Suc i) = SLRU_cool_loop E None c1 req i" using m(1) by (simp add: SLRU_cool_def)
    with l have "cools E W mx c Ls (Suc i) (SLRU_cool E None c req (Suc i)) (butlast (Ls ! Suc i)) (settle mx ?qs i)"
      using c(2) m(2,3) same_limits_trans [OF m(2)] L unfolding cools_def by fastforce
    moreover have "settle mx (settle mx ?qs i) (Suc i) = settle mx qs (Suc i)"
      by (rule settle_step) (use c(2,3) over(3) SLRU_atD(9,13) [OF c(1)] in simp_all)
    ultimately show ?thesis by blast
  qed
  then show ?case by (auto simp: cool_returns_def)
qed

section \<open>Promotion\<close>

lemma seg_prepend_counts:
  "seg_prepend (c\<lparr>eviction_params := (eviction_params c)\<lparr>lru_n_bytes := b, lru_n_objs := n\<rparr>\<rparr>) i obj
    = map_option (\<lambda>c. c\<lparr>eviction_params := (eviction_params c)\<lparr>lru_n_bytes := b, lru_n_objs := n\<rparr>\<rparr>) (seg_prepend c i obj)"
  by (cases "elem (lru_heads (eviction_params c)) i"; cases "elem (lru_tails (eviction_params c)) i")
    (auto simp: seg_prepend_def Let_def map_option_case split: option.splits bind_splits)

lemma SLRU_promote_ok:
  assumes "SLRU_at E W mx c Ls qs" and "Suc i < length Ls" and "Ls ! i = us @ a # vs" and "store c a = Some ob"
  shows "\<exists>c'. SLRU_promote_to_next_seg c (Some a) = Some c' \<and> same_limits c c' \<and> admissioner c' = admissioner c
    \<and> SLRU_at E W mx c' (Ls[i := us @ vs, Suc i := a # Ls ! Suc i])
      (qs[i := views basic_view (store c) (us @ vs), Suc i := basic_view ob # qs ! Suc i])"
proof -
  note c = SLRU_atD [OF assms(1)]
  let ?P = "eviction_params c" and ?Ls = "Ls[i := us @ vs, Suc i := a # Ls ! Suc i]"
  have i: "i < length Ls" using assms(2) by simp
  have id: "SLRU_lru_id ob = i" using SLRU_at_live [OF assms(1) i, of a] assms(3,4) by auto
  from seg_move [OF assms(1) i assms(2) _ assms(3,4)] obtain h1 qh qt ob1 where
    r: "seg_remove c i (Some a) = Some (with_seg c h1 i qh qt)" "h1 a = Some ob1" "noq ob1 = noq ob"
    and p: "\<And>n c1. c1 = (with_seg c h1 i qh qt)\<lparr>store := h1(a \<mapsto> ob1\<lparr>SLRU_lru_id := n\<rparr>)\<rparr> \<Longrightarrow>
      (\<exists>h2 qh2 qt2 ob2. seg_prepend c1 (Suc i) (Some a) = Some (with_seg c1 h2 (Suc i) qh2 qt2) \<and> h2 a = Some ob2
      \<and> noq ob2 = noq (ob1\<lparr>SLRU_lru_id := n\<rparr>)
      \<and> segs_ok h2 (put_seg (put_seg ?P i qh qt) (Suc i) qh2 qt2) ?Ls
      \<and> lids_ok (h2(a \<mapsto> ob2\<lparr>SLRU_lru_id := Suc i\<rparr>)) ?Ls \<and> same_core (store c) h2)" by auto
  let ?h1 = "h1(a \<mapsto> ob1\<lparr>SLRU_lru_id := Suc i\<rparr>)"
  let ?c1 = "(with_seg c h1 i qh qt)\<lparr>store := ?h1\<rparr>"
  from p [of ?c1 "Suc i"] obtain h2 qh2 qt2 ob2 where
    p2: "seg_prepend ?c1 (Suc i) (Some a) = Some (with_seg ?c1 h2 (Suc i) qh2 qt2)" "h2 a = Some ob2"
    "noq ob2 = noq (ob1\<lparr>SLRU_lru_id := Suc i\<rparr>)"
    "segs_ok h2 (put_seg (put_seg ?P i qh qt) (Suc i) qh2 qt2) ?Ls"
    "lids_ok (h2(a \<mapsto> ob2\<lparr>SLRU_lru_id := Suc i\<rparr>)) ?Ls" "same_core (store c) h2" by auto
  have "SLRU_lru_id ob2 = Suc i" using arg_cong [OF p2(3), of SLRU_lru_id] by simp
  then have h2: "h2(a \<mapsto> ob2\<lparr>SLRU_lru_id := Suc i\<rparr>) = h2" using p2(2) by (cases ob2) auto
  let ?b = "lru_n_bytes ?P" and ?n = "lru_n_objs ?P"
  let ?b1 = "?b[i := ?b ! i - obj_size ob]" and ?n1 = "?n[i := ?n ! i - 1]"
  let ?Q = "(put_seg (put_seg ?P i qh qt) (Suc i) qh2 qt2)
    \<lparr>lru_n_bytes := ?b1[Suc i := ?b ! Suc i + obj_size ob], lru_n_objs := ?n1[Suc i := ?n ! Suc i + 1]\<rparr>"
  have b: "?b = map (queue_bytes 0) qs" "length ?n = length qs" using c(5) by (simp_all add: counts_ok_def)
  have "seg_prepend (?c1\<lparr>eviction_params := (eviction_params ?c1)\<lparr>lru_n_bytes := ?b1, lru_n_objs := ?n1\<rparr>\<rparr>) (Suc i) (Some a)
      = Some ((with_seg ?c1 h2 (Suc i) qh2 qt2)\<lparr>eviction_params := (eviction_params (with_seg ?c1 h2 (Suc i) qh2 qt2))
        \<lparr>lru_n_bytes := ?b1, lru_n_objs := ?n1\<rparr>\<rparr>)"
    unfolding seg_prepend_counts p2(1) by simp
  moreover have swap: "c\<lparr>eviction_params := P, store := h\<rparr> = c\<lparr>store := h, eviction_params := P\<rparr>" for P h by simp
  ultimately have "SLRU_promote_to_next_seg c (Some a) = Some (c\<lparr>store := h2, eviction_params := ?Q\<rparr>)"
    using assms(2,4) id r(1,2) b i c(9,10)
    by (simp add: SLRU_promote_to_next_seg_def set_lru_id_def seg_count_eq Let_def swap)
  moreover have "SLRU_at E W mx (c\<lparr>store := h2, eviction_params := ?Q\<rparr>) ?Ls
      (qs[i := views basic_view (store c) (us @ vs), Suc i := basic_view ob # qs ! Suc i])"
    by (rule SLRU_at_shifted [OF assms(1) i assms(2) _ assms(3,4)]) (use p2 h2 b c(6,7,9) in simp_all)
  ultimately show ?thesis by (simp add: same_limits_def)
qed

text \<open>The loop of the lookup keeps the found object at the head of its segment.\<close>

lemma SLRU_find_loop_ok:
  "SLRU_at E W mx c Ls qs \<Longrightarrow> j < length Ls \<Longrightarrow> Ls ! j = a # L \<Longrightarrow>
   \<exists>c' Ls'. SLRU_find_loop E None c req (Some a) = Some c' \<and> same_limits c c' \<and> admissioner c' = admissioner c
     \<and> SLRU_at E W mx c' Ls' (settle mx qs j)"
proof (induction "length L" arbitrary: c Ls qs L rule: less_induct)
  case less
  note at = less.prems(1,2)
  obtain ob where ob: "store c a = Some ob" "SLRU_lru_id ob = j" using SLRU_at_live [OF at, of a] less.prems(3) by auto
  show ?case
  proof (cases "mx ! j < queue_bytes 0 (qs ! j)")
    case False
    with seg_over_eq [OF at] ob have "SLRU_find_loop E None c req (Some a) = Some c"
      by (subst SLRU_find_loop.simps) simp
    with at show ?thesis unfolding SLRU_at_settled [OF at False] by (auto simp: same_limits_def)
  next
    case True
    with SLRU_cool_ok [of E W mx req j] at obtain qs' c1 Ls1 where
      c1: "settle mx qs' j = settle mx qs j" "SLRU_cool E None c req j = Some c1" "SLRU_at E W mx c1 Ls1 qs'"
      "length Ls1 = length Ls" "same_limits c c1" "admissioner c1 = admissioner c" "Ls1 ! j = butlast (a # L)"
      unfolding cool_returns_def cools_def less.prems(3) [symmetric] by metis
    have "L \<noteq> []"
    proof
      assume "L = []"
      then have q: "qs ! j = [basic_view ob]" using SLRU_atD(2) [OF at(1)] at(2) less.prems(3) ob(1) by simp
      have "qs ! j \<in> set qs" using at(2) SLRU_atD(9) [OF at(1)] by simp
      then have "snd (basic_view ob) \<le> mx ! 0" using SLRU_atD(14) [OF at(1)] q by fastforce
      moreover have "mx ! 0 \<le> mx ! j"
        using SLRU_atD(8,12) [OF at(1)] at(2) by (auto simp: mx_ok_def intro!: sorted_nth_mono)
      ultimately show False using True q by (simp add: basic_view_def)
    qed
    then have L: "Ls1 ! j = a # butlast L" "length (butlast L) < length L" using c1(7) by simp_all
    from less.hyps [OF L(2) c1(3) _ L(1)] c1(4) at(2) obtain c' Ls' where
      "SLRU_find_loop E None c1 req (Some a) = Some c'" "same_limits c1 c'" "admissioner c' = admissioner c1"
      "SLRU_at E W mx c' Ls' (settle mx qs j)" by (auto simp: c1(1))
    moreover have "SLRU_find_loop E None c req (Some a) = SLRU_find_loop E None c1 req (Some a)"
      using True seg_over_eq [OF at] ob c1(2) by (subst SLRU_find_loop.simps) simp
    ultimately show ?thesis using c1(5,6) same_limits_trans [OF c1(5)] by auto
  qed
qed

section \<open>Lookup\<close>

definition SLRU_R :: "env \<Rightarrow> trace_ids \<Rightarrow> int list \<Rightarrow> ('a, 'f) slru_cache \<Rightarrow> int queue list \<Rightarrow> bool" where
  "SLRU_R E W mx c qs \<longleftrightarrow> (\<exists>Ls. SLRU_at E W mx c Ls qs)"

lemma length_takeWhile_lessI: "x \<in> set xs \<Longrightarrow> \<not> P x \<Longrightarrow> length (takeWhile P xs) < length xs"
  by (induction xs) auto

lemma one_entry:
  assumes "i \<notin> fst ` set us" and "i \<notin> fst ` set vs" and "fst e = i"
  shows "filter (\<lambda>e. fst e = i) (us @ e # vs) = [e]" "queue_delete i (us @ e # vs) = us @ vs"
proof -
  have "filter (\<lambda>e. fst e = i) us = []" "filter (\<lambda>e. fst e = i) vs = []"
    using assms(1,2) by (auto simp: filter_empty_conv image_iff)
  then show "filter (\<lambda>e. fst e = i) (us @ e # vs) = [e]" using assms(3) by simp
  show "queue_delete i (us @ e # vs) = us @ vs"
    using assms(3) queue_delete_absent [OF assms(1)] queue_delete_absent [OF assms(2)] by (simp add: queue_delete_def)
qed

lemma seg_of_mem:
  assumes "i \<in> fst ` set (concat qs)"
  shows "seg_of i qs < length qs" "i \<in> fst ` set (qs ! seg_of i qs)"
proof -
  from assms obtain q where "q \<in> set qs" "\<not> i \<notin> fst ` set q" by auto
  then show l: "seg_of i qs < length qs" unfolding seg_of_def by (rule length_takeWhile_lessI)
  then show "i \<in> fst ` set (qs ! seg_of i qs)"
    using nth_length_takeWhile [of "\<lambda>q. i \<notin> fst ` set q" qs] by (simp add: seg_of_def)
qed

lemma SLRU_object:
  assumes "SLRU_at E W mx c Ls qs" and "i \<in> fst ` set (concat qs)"
  obtains k us a vs ob where "k = seg_of i qs" "k < length Ls" "Ls ! k = us @ a # vs" "store c a = Some ob" "obj_id ob = i"
    "filter (\<lambda>e. fst e = i) (qs ! k) = [basic_view ob]" "queue_delete i (qs ! k) = views basic_view (store c) (us @ vs)"
proof -
  note c = SLRU_atD [OF assms(1)]
  let ?k = "seg_of i qs"
  have k: "?k < length Ls" "i \<in> fst ` set (qs ! ?k)" using seg_of_mem [OF assms(2)] c(9) by simp_all
  then obtain a where a: "a \<in> set (Ls ! ?k)" "obj_id (the (store c a)) = i"
    using c(2) by (auto simp: basic_view_def)
  from a(1) obtain us vs where L: "Ls ! ?k = us @ a # vs" by (auto dest: split_list)
  obtain ob where ob: "store c a = Some ob" using SLRU_at_live [OF assms(1) k(1) a(1)] by blast
  have q: "qs ! ?k = views basic_view (store c) us @ basic_view ob # views basic_view (store c) vs"
    using k(1) L ob unfolding c(2) by simp
  have "distinct (map fst (concat qs))" by (rule basic.bag_at_facts(1) [OF c(1)])
  then have "distinct (map fst (qs ! ?k))" using k(1) concat_nth [of ?k qs] c(9) by simp
  moreover have "fst (basic_view ob) = i" using a(2) ob by (simp add: basic_view_def)
  ultimately have "i \<notin> fst ` set (views basic_view (store c) us)" "i \<notin> fst ` set (views basic_view (store c) vs)"
    "fst (basic_view ob) = i" unfolding q by auto
  then have "filter (\<lambda>e. fst e = i) (qs ! ?k) = [basic_view ob]" "queue_delete i (qs ! ?k) = views basic_view (store c) (us @ vs)"
    unfolding q by (simp_all add: one_entry del: filter_append filter.simps)
  with k(1) L ob a(2) that show thesis by simp
qed

text \<open>A hit in the highest segment.\<close>

lemma SLRU_top_ok:
  assumes "SLRU_at E W mx c Ls qs" and "k = length Ls - 1" and "k < length Ls" and "Ls ! k = us @ a # vs" and "store c a = Some ob"
  shows "\<exists>h qh qt. move_obj_to_head (store c) (lru_heads (eviction_params c) ! k) (lru_tails (eviction_params c) ! k) (Some a)
      = Some (h, qh, qt)
    \<and> SLRU_at E W mx (with_seg c h k qh qt) (Ls[k := a # us @ vs]) (qs[k := basic_view ob # views basic_view (store c) (us @ vs)])"
proof -
  note c = SLRU_atD [OF assms(1)]
  let ?P = "eviction_params c" and ?Ls = "Ls[k := a # us @ vs]"
  have dis: "distinct (concat Ls)" using c(3) by (simp add: segs_ok_def)
  have "dll (store c) (lru_heads ?P ! k) (lru_tails ?P ! k) (us @ a # vs)" using c(3) assms(3,4) by (auto simp: segs_ok_def)
  from move_obj_to_head_dll [OF this] obtain h qh qt where
    m: "move_obj_to_head (store c) (lru_heads ?P ! k) (lru_tails ?P ! k) (Some a) = Some (h, qh, qt)"
    "dll h qh qt (a # us @ vs)" "qframe (set (Ls ! k)) (store c) h" unfolding assms(4) by blast
  have cat: "mset (concat ?Ls) = mset (concat Ls)" using mset_concat_update [OF assms(3), of "a # us @ vs"] assms(4) by simp
  have "distinct (concat ?Ls)" using dis mset_eq_imp_distinct_iff [OF cat] by simp
  with segs_update [OF c(3) assms(3) m(2,3)] have segs: "segs_ok h (put_seg ?P k qh qt) ?Ls" by blast
  have q: "map (views basic_view (store c)) ?Ls = qs[k := basic_view ob # views basic_view (store c) (us @ vs)]"
    using assms(5) c(2) by (simp add: map_update)
  have "queue_bytes 0 (qs ! k) = queue_bytes 0 (basic_view ob # views basic_view (store c) (us @ vs))"
    using assms(3-5) unfolding c(2) by simp
  then have cnt: "counts_ok (put_seg ?P k qh qt) (qs[k := basic_view ob # views basic_view (store c) (us @ vs)])"
    using c(5) assms(3) c(9) by (simp add: counts_ok_def map_update) (metis length_map list_update_id nth_map)
  have "SLRU_lru_id (the (h b)) = SLRU_lru_id (the (store c b))" if "b \<in> set (concat Ls)" for b
    using arg_cong [OF qframe_the [OF m(3), of b], of SLRU_lru_id] that bag_at_dom [OF c(1)] by simp
  then have lids: "lids_ok h ?Ls"
    by (intro lids_shrink [OF c(4) assms(3,4)]) (use mset_eq_setD [OF cat] in \<open>auto simp del: set_concat\<close>)
  have "SLRU_at E W mx (with_seg c h k qh qt) ?Ls (map (views basic_view (store c)) ?Ls)"
    by (rule SLRU_at_moved [OF assms(1) same_core_qframe [OF m(3)] segs])
      (use lids cnt q c(6,7) mset_eq_setD [OF cat] in simp_all)
  with m(1) q show ?thesis by auto
qed

lemma SLRU_find_hit:
  assumes "SLRU_R E W mx c qs" and "req_obj_id req \<in> fst ` set (concat qs)"
  shows "\<exists>c' p. SLRU_find E None c req True = Some (c', p) \<and> p \<noteq> NULL \<and> same_limits c c'
    \<and> admissioner c' = admissioner c \<and> SLRU_R E W mx c' (slru_hit mx (req_obj_id req) qs)"
proof -
  from assms(1) obtain Ls where at: "SLRU_at E W mx c Ls qs" by (auto simp: SLRU_R_def)
  note c = SLRU_atD [OF at]
  obtain k us a vs ob where
    o: "k = seg_of (req_obj_id req) qs" "k < length Ls" "Ls ! k = us @ a # vs" "store c a = Some ob" "obj_id ob = req_obj_id req"
    "filter (\<lambda>e. fst e = req_obj_id req) (qs ! k) = [basic_view ob]"
    "queue_delete (req_obj_id req) (qs ! k) = views basic_view (store c) (us @ vs)"
    by (rule SLRU_object [OF at assms(2)])
  have id: "SLRU_lru_id ob = k" using SLRU_at_live [OF at o(2), of a] o(3,4) by auto
  have look: "chained_hashtable_find_v2 E (store c) (hashtable c) req = Some (Some a)"
    using basic.bag_lookup(2) [OF c(1) o(4)] o(5) by (simp add: chained_hashtable_find_v2_def)
  have len: "length (lru_heads (eviction_params c)) = length Ls" "length (lru_tails (eviction_params c)) = length Ls"
    using c(3) by (simp_all add: segs_ok_def)
  show ?thesis
  proof (cases "k = length Ls - 1")
    case True
    from SLRU_top_ok [OF at True o(2-4)] obtain h qh qt where
      m: "move_obj_to_head (store c) (lru_heads (eviction_params c) ! k) (lru_tails (eviction_params c) ! k) (Some a)
        = Some (h, qh, qt)"
      "SLRU_at E W mx (with_seg c h k qh qt) (Ls[k := a # us @ vs]) (qs[k := basic_view ob # views basic_view (store c) (us @ vs)])"
      by blast
    have "SLRU_find E None c req True = Some (with_seg c h k qh qt, Some a)"
      using look o(2,4) id True m(1) c(7) len by (simp add: SLRU_find_def Let_def elem_def)
    moreover have "slru_hit mx (req_obj_id req) qs = qs[k := basic_view ob # views basic_view (store c) (us @ vs)]"
      using o(1,6,7) True c(9) by (simp add: slru_hit_def queue_promote_def)
    ultimately show ?thesis using m(2) by (auto simp: SLRU_R_def same_limits_def)
  next
    case False
    with o(2) have k: "Suc k < length Ls" by simp
    let ?Ls = "Ls[k := us @ vs, Suc k := a # Ls ! Suc k]"
    let ?qs = "qs[k := views basic_view (store c) (us @ vs), Suc k := basic_view ob # qs ! Suc k]"
    from SLRU_promote_ok [OF at k o(3,4)] obtain c1 where
      p: "SLRU_promote_to_next_seg c (Some a) = Some c1" "same_limits c c1" "admissioner c1 = admissioner c"
      "SLRU_at E W mx c1 ?Ls ?qs" by blast
    have k': "Suc k < length ?Ls" "?Ls ! Suc k = a # Ls ! Suc k" using k by simp_all
    from SLRU_find_loop_ok [OF p(4) k'] obtain c2 Ls2 where
      l: "SLRU_find_loop E None c1 req (Some a) = Some c2" "same_limits c1 c2" "admissioner c2 = admissioner c1"
      "SLRU_at E W mx c2 Ls2 (settle mx ?qs (Suc k))" by blast
    have "SLRU_find E None c req True = Some (c2, Some a)"
      using look o(4) id False c(7) p(1) l(1) by (simp add: SLRU_find_def Let_def)
    moreover have "slru_hit mx (req_obj_id req) qs = settle mx ?qs (Suc k)"
      using o(1,6,7) False c(9) by (simp add: slru_hit_def Let_def)
    ultimately show ?thesis using l p same_limits_trans [OF p(2) l(2)] by (auto simp: SLRU_R_def)
  qed
qed

lemma SLRU_find_miss:
  assumes "SLRU_R E W mx c qs" and "req_obj_id req \<notin> fst ` set (concat qs)"
  shows "SLRU_find E None c req u = Some (c, NULL)"
proof -
  from assms(1) obtain Ls where "bag_at basic_view E W c (concat Ls) (concat qs)" by (auto simp: SLRU_R_def dest: SLRU_atD(1))
  from basic.bag_lookup(1) [OF this assms(2)] show ?thesis by (simp add: SLRU_find_def chained_hashtable_find_v2_def)
qed

subsection \<open>What a hit keeps\<close>

lemma mset_concat_shift:
  assumes "i < length qs" and "j < length qs" and "i \<noteq> j" and "mset (qs ! i) = mset u + mset v"
  shows "mset (concat (qs[i := u, j := v @ qs ! j])) = mset (concat qs)"
proof -
  have "mset (concat (qs[i := u])) + (mset u + mset v) = mset (concat qs) + mset u"
    using mset_concat_update [OF assms(1), of u] by (simp add: assms(4))
  then have "mset (concat (qs[i := u])) + mset v = mset (concat qs)" by (simp add: ac_simps)
  then show ?thesis using mset_concat_update [of j "qs[i := u]" "v @ qs ! j"] assms(2,3) by simp
qed

lemma settle_keeps: "j < length qs \<Longrightarrow> mset (concat (settle mx qs j)) \<subseteq># mset (concat qs)"
proof (induction mx qs j rule: settle.induct)
  case (1 mx qs)
  have "mset (fit (mx ! 0) (qs ! 0)) \<subseteq># mset (qs ! 0)"
    using arg_cong [OF fit_prefix, of mset "mx ! 0" "qs ! 0"] by (metis mset_append mset_subset_eq_add_left)
  then show ?case using mset_concat_update [OF 1, of "fit (mx ! 0) (qs ! 0)"]
    by simp (metis add.commute mset_subset_eq_mono_add_left_cancel mset_subset_eq_mono_add_right_cancel)
next
  case (2 mx qs j)
  let ?q = "qs ! Suc j" and ?m = "mx ! Suc j"
  let ?qs = "qs[Suc j := fit ?m ?q, j := rest ?m ?q @ qs ! j]"
  have "mset (concat ?qs) = mset (concat qs)"
    by (rule mset_concat_shift) (use 2(2) arg_cong [OF fit_prefix, of mset ?m ?q] in simp_all)
  with 2 show ?case by (simp add: Let_def)
qed

lemma slru_hit_keeps:
  assumes "i \<in> fst ` set (concat qs)" and "distinct (map fst (concat qs))"
  shows "mset (concat (slru_hit mx i qs)) \<subseteq># mset (concat qs)"
proof -
  let ?k = "seg_of i qs"
  note k = seg_of_mem [OF assms(1)]
  have part: "mset (filter (\<lambda>e. fst e = i) (qs ! ?k)) + mset (queue_delete i (qs ! ?k)) = mset (qs ! ?k)"
    using multiset_partition [of "mset (qs ! ?k)" "\<lambda>e. fst e = i"] by (simp add: queue_delete_def)
  show ?thesis
  proof (cases "?k = length qs - 1")
    case True
    then show ?thesis using mset_concat_update [OF k(1), of "queue_promote i (qs ! ?k)"] part
      by (simp add: slru_hit_def Let_def queue_promote_def)
  next
    case False
    let ?qs = "qs[?k := queue_delete i (qs ! ?k), ?k + 1 := filter (\<lambda>e. fst e = i) (qs ! ?k) @ qs ! (?k + 1)]"
    have k': "?k + 1 < length qs" using False k(1) by simp
    have "mset (concat ?qs) = mset (concat qs)"
      by (rule mset_concat_shift) (use k k' part in \<open>simp_all add: add.commute\<close>)
    then show ?thesis using settle_keeps [of "?k + 1" ?qs mx] False k' by (simp add: slru_hit_def Let_def)
  qed
qed

lemma queue_bytes_mset: "queue_bytes 0 q = sum_mset (image_mset snd (mset q))"
  by (induction q) (simp_all add: view_bytes_def)

lemma kept_bytes:
  assumes "mset p \<subseteq># mset q" and "sized q"
  shows "fst ` set p \<subseteq> fst ` set q" "queue_bytes 0 p \<le> queue_bytes 0 q"
proof -
  show "fst ` set p \<subseteq> fst ` set q" using set_mset_mono [OF assms(1)] by auto
  obtain r where r: "mset q = mset p + r" using assms(1) by (metis mset_subset_eq_exists_conv)
  then have "\<forall>e \<in># r. 0 \<le> snd e" using assms(2) unfolding sized_def by (metis in_multiset_in_set union_iff)
  then have "0 \<le> sum_mset (image_mset snd r)" by (induction r) auto
  then show "queue_bytes 0 p \<le> queue_bytes 0 q" by (simp add: queue_bytes_mset r)
qed

section \<open>Eviction and insertion\<close>

lemma SLRU_evict_refines:
  assumes "SLRU_R E W mx c qs" and "0 < queue_bytes 0 (concat qs)"
  shows "\<exists>c'. SLRU_evict E None c req = Some c' \<and> same_limits c c' \<and> admissioner c' = admissioner c
    \<and> SLRU_R E W mx c' (slru_evict qs) \<and> mset (concat (slru_evict qs)) \<subset># mset (concat qs)"
proof -
  from assms(1) obtain Ls where at: "SLRU_at E W mx c Ls qs" by (auto simp: SLRU_R_def)
  let ?k = "length (takeWhile (\<lambda>q. queue_bytes 0 q \<le> 0) qs)"
  have "\<exists>q \<in> set qs. \<not> queue_bytes 0 q \<le> 0"
  proof (rule ccontr)
    assume "\<not> ?thesis"
    then have "\<forall>q \<in> set qs. queue_bytes 0 q \<le> 0" by auto
    then have "queue_bytes 0 (concat qs) \<le> 0" by (induction qs) auto
    with assms(2) show False by simp
  qed
  then obtain p where "p \<in> set qs" "\<not> queue_bytes 0 p \<le> 0" by blast
  then have k: "?k < length qs" by (rule length_takeWhile_lessI)
  have pos: "0 < queue_bytes 0 (qs ! ?k)" using nth_length_takeWhile [OF k] by simp
  have low: "\<forall>j < ?k. queue_bytes 0 (qs ! j) \<le> 0"
  proof (intro allI impI)
    fix j assume j: "j < ?k"
    from set_takeWhileD [OF nth_mem [OF j]] show "queue_bytes 0 (qs ! j) \<le> 0" unfolding takeWhile_nth [OF j] by simp
  qed
  from SLRU_evict_ok [OF at _ pos low, of req] k SLRU_atD(9) [OF at] obtain c' where
    e: "SLRU_evict E None c req = Some c'" "same_limits c c'" "admissioner c' = admissioner c"
    "SLRU_at E W mx c' (Ls[?k := butlast (Ls ! ?k)]) (qs[?k := butlast (qs ! ?k)])" by auto
  obtain q x where q: "qs ! ?k = q @ [x]" using pos by (cases "qs ! ?k" rule: rev_cases) auto
  have "mset (concat qs) = add_mset x (mset (concat (slru_evict qs)))"
    using mset_concat_update [OF k, of q] q by (simp add: slru_evict_def Let_def)
  then have "mset (concat (slru_evict qs)) \<subset># mset (concat qs)" by (simp add: multi_psub_of_add_self)
  with e show ?thesis by (auto simp: SLRU_R_def slru_evict_def Let_def)
qed

lemma SLRU_find_seg_eq:
  assumes "SLRU_at E W mx c Ls qs"
  shows "SLRU_find_seg c n i = Some (find (\<lambda>k. queue_bytes 0 (qs ! k) + n \<le> mx ! k) [i..<length qs])"
proof (induction "length qs - i" arbitrary: i)
  case 0
  then show ?case using SLRU_atD(7,9) [OF assms] by (subst SLRU_find_seg.simps) simp
next
  case (Suc m)
  note c = SLRU_atD(5-10) [OF assms]
  have i: "i < length qs" using Suc.hyps(2) by simp
  have "SLRU_find_seg c n (i + 1) = Some (find (\<lambda>k. queue_bytes 0 (qs ! k) + n \<le> mx ! k) [i + 1..<length qs])"
    by (rule Suc.hyps(1)) (use Suc.hyps(2) in simp)
  then show ?case using i c upt_conv_Cons [OF i] by (subst SLRU_find_seg.simps) (simp add: elem_def counts_ok_def)
qed

lemma slru_seg_less: "qs \<noteq> [] \<Longrightarrow> slru_seg mx n qs < length qs"
  by (auto simp: slru_seg_def find_Some_iff split: option.splits)

lemma lids_prepend:
  assumes "lids_ok h Ls" and "k < length Ls" and "a \<notin> set (concat Ls)" and "SLRU_lru_id (the (h' a)) = k"
    and "\<And>b. b \<in> set (concat Ls) \<Longrightarrow> SLRU_lru_id (the (h' b)) = SLRU_lru_id (the (h b))"
  shows "lids_ok h' (Ls[k := a # Ls ! k])"
  unfolding lids_ok_def
proof (intro allI impI ballI)
  fix j b assume j: "j < length (Ls[k := a # Ls ! k])" and b: "b \<in> set (Ls[k := a # Ls ! k] ! j)"
  have sub: "set (Ls ! j) \<subseteq> set (concat Ls)" using j by (intro nth_subset_concat) simp
  show "SLRU_lru_id (the (h' b)) = j"
  proof (cases "b = a \<and> j = k")
    case True
    with assms(4) show ?thesis by simp
  next
    case False
    with b j sub assms(3) have m: "b \<in> set (Ls ! j)" by (cases "j = k") auto
    with sub have "b \<in> set (concat Ls)" by blast
    with m assms(1,5) j show ?thesis by (simp add: lids_ok_def)
  qed
qed

lemma set_concat_prepend: "k < length qs \<Longrightarrow> set (concat (qs[k := e # qs ! k])) = insert e (set (concat qs))"
  unfolding concat_update [of k qs] concat_nth [of k qs] by auto

text \<open>Linking the new object into a segment.\<close>

lemma SLRU_put:
  assumes "SLRU_at E W mx c Ls qs" and "req_obj_id req \<in> fst W" and "req_obj_id req \<notin> fst ` set (concat qs)"
    and "0 \<le> req_obj_size req" and "req_obj_size req \<le> mx ! 0" and "k < length Ls"
  shows "\<exists>c1 c2 c3 c4 p. cache_insert_base E c req = Some (c1, p) \<and> seg_prepend c1 k p = Some c2
    \<and> set_lru_id c2 p k = Some c3 \<and> seg_count c3 k (req_obj_size req + obj_md_size c3) 1 = Some c4
    \<and> same_limits c c4 \<and> admissioner c4 = admissioner c
    \<and> SLRU_at E W mx c4 (Ls[k := brk c # Ls ! k]) (qs[k := (req_obj_id req, req_obj_size req) # qs ! k])"
proof -
  note c = SLRU_atD [OF assms(1)]
  let ?a = "brk c" and ?P = "eviction_params c" and ?Ls = "Ls[k := brk c # Ls ! k]" and ?e = "(req_obj_id req, req_obj_size req)"
  from basic.bag_insert [OF c(1) assms(2,3)] obtain h ht ob where
    i: "cache_insert_base E c req = Some (grown c h ht (req_obj_size req), Some ?a)"
    "bag_at basic_view E W (grown c h ht (req_obj_size req)) (concat Ls @ [?a]) (concat qs @ [?e])"
    "?a \<notin> set (concat Ls)" "\<forall>qh qt ys. dll (store c) qh qt ys \<longrightarrow> dll h qh qt ys"
    "same_payload (set (concat Ls)) (store c) h" "h ?a = Some ob" "payload ob = inserted_obj E c req" by auto
  let ?c1 = "grown c h ht (req_obj_size req)"
  have "segs_ok (store ?c1) (eviction_params ?c1) Ls" using c(3) i(4) by (simp add: segs_ok_def)
  from seg_prepend_ok [OF this assms(6) _ i(3)] i(6) obtain h2 qh qt where
    p: "seg_prepend ?c1 k (Some ?a) = Some (with_seg ?c1 h2 k qh qt)" "segs_ok h2 (put_seg ?P k qh qt) ?Ls" "qframe UNIV h h2"
    by auto
  from qframe_obj [OF p(3) i(6)] obtain ob2 where ob2: "h2 ?a = Some ob2" "noq ob2 = noq ob" by blast
  let ?h = "h2(?a \<mapsto> ob2\<lparr>SLRU_lru_id := k\<rparr>)" and ?b = "lru_n_bytes ?P" and ?n = "lru_n_objs ?P"
  let ?Q = "(put_seg ?P k qh qt)\<lparr>lru_n_bytes := ?b[k := ?b ! k + req_obj_size req], lru_n_objs := ?n[k := ?n ! k + 1]\<rparr>"
  let ?c4 = "?c1\<lparr>store := ?h, eviction_params := ?Q\<rparr>"
  have b: "?b = map (queue_bytes 0) qs" "length ?n = length qs" using c(5) by (simp_all add: counts_ok_def)
  have core: "same_core h ?h" using same_core_qframe [OF p(3)]
    by (rule same_core_trans) (rule same_core_upd, rule ob2(1), simp add: core_def)
  have dom: "set (concat Ls) = dom (store c)" using bag_at_dom [OF c(1)] by simp
  have live: "set (concat Ls) \<subseteq> dom h" using bag_at_dom [OF i(2)] by auto
  have "views basic_view ?h L = views basic_view (store c) L" if "L \<in> set Ls" for L
  proof -
    have L: "set L \<subseteq> set (concat Ls)" using that by auto
    have "views basic_view ?h L = views basic_view h L" by (rule basic_views_core [OF core]) (use L live in blast)
    also have "\<dots> = views basic_view (store c) L" by (rule basic.same_payload_views [OF i(5) L]) (use L dom in blast)
    finally show ?thesis .
  qed
  then have old: "map (views basic_view ?h) Ls = qs" unfolding c(2) by simp
  have "obj_id ob2 = obj_id (payload ob)" "obj_size ob2 = obj_size (payload ob)"
    using arg_cong [OF ob2(2), of obj_id] arg_cong [OF ob2(2), of obj_size] by simp_all
  moreover have "views basic_view ?h (Ls ! k) = qs ! k" using arg_cong [OF old, of "\<lambda>qs. qs ! k"] assms(6) by simp
  ultimately have "views basic_view ?h (?a # Ls ! k) = ?e # qs ! k" by (simp add: i(7) basic_view_def)
  then have q: "map (views basic_view ?h) ?Ls = qs[k := ?e # qs ! k]" unfolding map_update old by simp
  have perm: "set (concat ?Ls) = set (concat Ls @ [?a])" "distinct (concat ?Ls)"
    using set_concat_prepend [OF assms(6), of ?a] p(2) by (simp_all add: segs_ok_def)
  have "bag_at basic_view E W ?c4 (concat ?Ls) (views basic_view ?h (concat ?Ls))"
    using bag_at_store [OF i(2) _ perm, of ?h] core by simp
  moreover have "views basic_view ?h (concat ?Ls) = concat (qs[k := ?e # qs ! k])"
    unfolding q [symmetric] by (simp add: map_concat)
  moreover have "segs_ok ?h ?Q ?Ls" using segs_store [OF p(2), of ?h] ob2(1) by simp
  moreover have "lids_ok ?h ?Ls"
  proof (rule lids_prepend [OF c(4) assms(6) i(3)])
    fix b assume m: "b \<in> set (concat Ls)"
    then have "b \<noteq> ?a" "b \<in> dom h" "b \<in> dom (store c)" using i(3) live dom by blast+
    then show "SLRU_lru_id (the (?h b)) = SLRU_lru_id (the (store c b))"
      using same_payload_the [where f = SLRU_lru_id, OF i(5) m] arg_cong [OF qframe_the [OF p(3)], of b SLRU_lru_id] by simp
  qed simp
  moreover have "counts_ok ?Q (qs[k := ?e # qs ! k])" using b assms(6) c(9) by (simp add: counts_ok_def map_update add.commute)
  moreover have "\<forall>e \<in> set (concat (qs[k := ?e # qs ! k])). 0 \<le> snd e \<and> snd e \<le> mx ! 0"
    using set_concat_prepend [of k qs ?e] c(9,14) assms(4-6) by simp
  ultimately have at: "SLRU_at E W mx ?c4 ?Ls (qs[k := ?e # qs ! k])" unfolding SLRU_at_def using c(6-12) q by simp
  have "seg_count ((with_seg ?c1 h2 k qh qt)\<lparr>store := ?h\<rparr>) k (req_obj_size req + 0) 1 = Some ?c4"
    using b assms(6) c(9) by (simp add: seg_count_eq)
  with i(1) p(1) ob2(1) at show ?thesis using c(10) by (simp add: set_lru_id_def same_limits_def)
qed

lemma SLRU_insert_refines:
  assumes "SLRU_R E W mx c qs" and "req_obj_id req \<in> fst W" and "req_obj_id req \<notin> fst ` set (concat qs)"
    and "0 \<le> req_obj_size req" and "req_obj_size req \<le> mx ! 0" and "queue_bytes 0 (concat qs) + req_obj_size req \<le> cache_size c"
  shows "\<exists>c' p. SLRU_insert E None c req = Some (c', p) \<and> same_limits c c' \<and> admissioner c' = admissioner c
    \<and> SLRU_R E W mx c' (slru_insert mx req qs)"
proof -
  from assms(1) obtain Ls where at: "SLRU_at E W mx c Ls qs" by (auto simp: SLRU_R_def)
  note c = SLRU_atD [OF at]
  let ?n = "req_obj_size req" and ?k = "slru_seg mx (req_obj_size req) qs"
  have "qs \<noteq> []" using c(8,9,12) by (auto simp: mx_ok_def)
  then have k: "?k < length Ls" using slru_seg_less c(9) by metis
  have "occupied_byte c = queue_bytes 0 (concat qs)" using basic.bag_at_facts(4) [OF c(1)] c(10) by simp
  then have room: "SLRU_make_room E None c req = Some c"
    using assms(6) c(10) by (subst SLRU_make_room.simps) simp
  have seg: "(case find (\<lambda>k. queue_bytes 0 (qs ! k) + ?n \<le> mx ! k) [0..<length qs] of
      Some i \<Rightarrow> Some (c, i) | None \<Rightarrow> map_option (\<lambda>c. (c, 0)) (SLRU_make_room E None c req)) = Some (c, ?k)"
    unfolding room slru_seg_def by (simp split: option.splits)
  from SLRU_put [OF at assms(2-5) k] obtain c1 c2 c3 c4 p where
    p: "cache_insert_base E c req = Some (c1, p)" "seg_prepend c1 ?k p = Some c2" "set_lru_id c2 p ?k = Some c3"
    "seg_count c3 ?k (?n + obj_md_size c3) 1 = Some c4" "same_limits c c4" "admissioner c4 = admissioner c"
    "SLRU_at E W mx c4 (Ls[?k := brk c # Ls ! ?k]) (slru_insert mx req qs)" unfolding slru_insert_def Let_def by blast
  have "SLRU_insert E None c req = Some (c4, p)"
    unfolding SLRU_insert_def SLRU_find_seg_eq [OF at] bind.bind_lunit seg using p by simp
  with p show ?thesis by (auto simp: SLRU_R_def)
qed

subsection \<open>The policy\<close>

lemma SLRU_R_facts:
  assumes "SLRU_R E W mx c qs"
  shows "distinct (map fst (concat qs))" "occupied_byte c = queue_bytes 0 (concat qs)" "sized (concat qs)"
    "obj_md_size c = 0" "mx_ok mx (cache_size c)" "lru_max_n_bytes (eviction_params c) = mx"
    "resident c = fst ` set (concat qs)"
proof -
  from assms obtain Ls where at: "SLRU_at E W mx c Ls qs" by (auto simp: SLRU_R_def)
  note c = SLRU_atD [OF at]
  show "obj_md_size c = 0" "mx_ok mx (cache_size c)" "lru_max_n_bytes (eviction_params c) = mx" by (rule c(10,12,6))+
  show "sized (concat qs)" using c(14) by (simp add: sized_def)
  show "distinct (map fst (concat qs))" "occupied_byte c = queue_bytes 0 (concat qs)" "resident c = fst ` set (concat qs)"
    using basic.bag_at_facts(1,3,4) [OF c(1)] c(10) by simp_all
qed

lemma slru_insert_bytes:
  assumes "qs \<noteq> []"
  shows "queue_bytes 0 (concat (slru_insert mx req qs)) = queue_bytes 0 (concat qs) + req_obj_size req"
    "fst ` set (concat (slru_insert mx req qs)) = insert (req_obj_id req) (fst ` set (concat qs))"
proof -
  let ?k = "slru_seg mx (req_obj_size req) qs" and ?e = "(req_obj_id req, req_obj_size req)"
  have k: "?k < length qs" by (rule slru_seg_less [OF assms])
  have "mset (concat (slru_insert mx req qs)) = add_mset ?e (mset (concat qs))"
    using mset_concat_update [OF k, of "?e # qs ! ?k"] by (simp add: slru_insert_def Let_def)
  then show "queue_bytes 0 (concat (slru_insert mx req qs)) = queue_bytes 0 (concat qs) + req_obj_size req"
    by (simp add: queue_bytes_mset)
  show "fst ` set (concat (slru_insert mx req qs)) = insert (req_obj_id req) (fst ` set (concat qs))"
    using set_concat_prepend [OF k, of ?e] by (simp add: slru_insert_def Let_def)
qed

lemma slru_machine_simps [simp]:
  "s_ids (slru_machine mx) qs = fst ` set (concat qs)" "s_bytes (slru_machine mx) qs = queue_bytes 0 (concat qs)"
  "s_find (slru_machine mx) req qs = (if req_obj_id req \<in> fst ` set (concat qs) then slru_hit mx (req_obj_id req) qs else qs)"
  "s_admit (slru_machine mx) req qs = (req_obj_size req \<le> mx ! 0)"
  "s_evict (slru_machine mx) req qs = slru_evict qs" "s_insert (slru_machine mx) req qs = slru_insert mx req qs"
  by (simp_all add: slru_machine_def)

lemma SLRU_ops_simps [simp]:
  "op_find (SLRU_ops E pf) = SLRU_find E pf" "op_can_insert (SLRU_ops E pf) = SLRU_can_insert"
  "op_insert (SLRU_ops E pf) = SLRU_insert E pf" "op_evict (SLRU_ops E pf) = SLRU_evict E pf"
  "op_get_occupied_byte (SLRU_ops E pf) = cache_get_occupied_byte_default"
  by (simp_all add: SLRU_ops_def)

interpretation slru: simulated_policy "SLRU_ops E None" "SLRU_R E W mx" "slru_machine mx"
  "\<lambda>req. req_obj_id req \<in> fst W \<and> 0 \<le> req_obj_size req" "\<lambda>qs. length (concat qs)" for E W mx
proof (standard, goal_cases)
  case (1 c s n)
  then show ?case by (auto simp: SLRU_R_def SLRU_at_def)
next
  case (2 c s)
  then show ?case using SLRU_R_facts(2) [OF 2] by (simp add: cache_get_occupied_byte_default_def)
next
  case (3 c s req)
  show ?case
  proof (cases "req_obj_id req \<in> fst ` set (concat s)")
    case True
    note kept = kept_bytes [OF slru_hit_keeps [OF True SLRU_R_facts(1) [OF 3(1)]] SLRU_R_facts(3) [OF 3(1)]]
    from SLRU_find_hit [OF 3(1) True] kept True show ?thesis unfolding SLRU_ops_simps slru_machine_simps by auto
  next
    case False
    with SLRU_find_miss [OF 3(1) False, of True] 3(1) show ?thesis
      unfolding SLRU_ops_simps slru_machine_simps by (auto simp: same_limits_def)
  qed
next
  case (4 c s req)
  have "lru_max_n_bytes (eviction_params c) = mx" "mx \<noteq> []" "mx ! 0 \<le> cache_size c" "obj_md_size c = 0"
    using SLRU_R_facts(4-6) [OF 4(1)] by (auto simp: mx_ok_def)
  with 4(2) show ?case by (simp add: SLRU_can_insert_def cache_can_insert_default_def elem_def)
next
  case (5 c s req)
  then show ?case using SLRU_R_facts(4,5) [OF 5(1)] by (simp add: mx_ok_def)
next
  case (6 c s req)
  then have "0 < queue_bytes 0 (concat s)" by simp
  from SLRU_evict_refines [OF 6(1) this, of req] obtain c' where
    e: "SLRU_evict E None c req = Some c'" "same_limits c c'" "admissioner c' = admissioner c"
    "SLRU_R E W mx c' (slru_evict s)" "mset (concat (slru_evict s)) \<subset># mset (concat s)" by blast
  have "length (concat (slru_evict s)) < length (concat s)" using mset_subset_size [OF e(5)] by simp
  moreover have "fst ` set (concat (slru_evict s)) \<subseteq> fst ` set (concat s)"
    using set_mset_mono [OF subset_mset.less_imp_le [OF e(5)]] unfolding set_mset_mset by (rule image_mono)
  ultimately show ?case using e(1-4) unfolding SLRU_ops_simps slru_machine_simps by blast
next
  case (7 c s req s1)
  have ne: "s \<noteq> []" using SLRU_R_facts(5) [OF 7(1)] 7(1) by (auto simp: SLRU_R_def SLRU_at_def mx_ok_def)
  show ?case
    using SLRU_insert_refines [OF 7(1), of req] 7 SLRU_R_facts(4) [OF 7(1)] slru_insert_bytes [OF ne, of mx req]
    unfolding SLRU_ops_simps slru_machine_simps by auto
qed

section \<open>Initialisation\<close>

text \<open>The default sizes of the segments.\<close>

lemma default_sizes_eq:
  "SLRU_default_sizes cap (int n) = map (\<lambda>i. cap div int n + (if int n - cap mod int n \<le> int i then 1 else 0)) [0..<n]"
proof -
  have "[0..int n - 1] = map int [0..<n]" by (intro nth_equalityI) (simp_all add: nth_upto)
  then show ?thesis by (simp add: SLRU_default_sizes_def)
qed

lemma sum_tail_ones: "m \<le> n \<Longrightarrow> (\<Sum>i \<leftarrow> [0..<n]. if n - m \<le> i then 1 else 0 :: int) = int m"
proof -
  assume "m \<le> n"
  then have u: "[0..<n] = [0..<n - m] @ [n - m..<n]" by (metis le0 le_add_diff_inverse diff_le_self upt_add_eq_append)
  have "map (\<lambda>i. if n - m \<le> i then 1 else 0 :: int) [0..<n - m] = replicate (n - m) 0" by (intro nth_equalityI) auto
  moreover have "map (\<lambda>i. if n - m \<le> i then 1 else 0 :: int) [n - m..<n] = replicate m 1"
    using \<open>m \<le> n\<close> by (intro nth_equalityI) auto
  ultimately show ?thesis unfolding u by (simp add: sum_list_replicate)
qed

lemma default_sizes_ok:
  assumes "0 < n" and "0 \<le> cap"
  shows "length (SLRU_default_sizes cap (int n)) = n" "sum_list (SLRU_default_sizes cap (int n)) = cap"
    "mx_ok (SLRU_default_sizes cap (int n)) cap"
proof -
  let ?r = "nat (cap mod int n)"
  have r: "int ?r = cap mod int n" "?r < n" using assms by (simp_all add: nat_less_iff)
  have eq: "SLRU_default_sizes cap (int n) = map (\<lambda>i. cap div int n + (if n - ?r \<le> i then 1 else 0)) [0..<n]"
    unfolding default_sizes_eq
  proof (intro map_cong refl arg_cong2 [of _ _ _ _ "(+)"])
    fix i
    have "int n - cap mod int n \<le> int i \<longleftrightarrow> n - ?r \<le> i" using r by linarith
    then show "(if int n - cap mod int n \<le> int i then 1 else 0 :: int) = (if n - ?r \<le> i then 1 else 0)" by simp
  qed
  show len: "length (SLRU_default_sizes cap (int n)) = n" by (simp add: default_sizes_eq)
  have "sum_list (SLRU_default_sizes cap (int n)) = int n * (cap div int n) + cap mod int n"
    using sum_tail_ones [of ?r n] r by (simp add: eq sum_list_addf sum_list_triv)
  then show "sum_list (SLRU_default_sizes cap (int n)) = cap" by simp
  have "sorted (SLRU_default_sizes cap (int n))" unfolding eq by (auto simp: sorted_iff_nth_mono)
  moreover have "cap div int n + (if n - ?r \<le> 0 then 1 else 0) \<le> cap" "0 \<le> cap div int n"
    using r(2) assms zdiv_mono2 [of cap 1 "int n"] by (simp_all add: pos_imp_zdiv_nonneg_iff)
  ultimately show "mx_ok (SLRU_default_sizes cap (int n)) cap"
    using assms(1) r(2) by (simp add: mx_ok_def eq)
qed

lemma SLRU_init_R:
  assumes "spread E W" and "\<not> support_ttl E" and "pin E = None" and "0 < ccp_hashpower p" and "ccp_hashpower p < 40"
    and "int (snd W) \<le> ccp_hashpower p" and "\<not> ccp_consider_obj_metadata p" and "SLRU_init pf0 p s = Some c"
    and "mx = lru_max_n_bytes (eviction_params c)" and "mx_ok mx (ccp_cache_size p)" and "n_seg (eviction_params c) = length mx"
  shows "SLRU_R E W mx c (replicate (length mx) [])" "cache_size c = ccp_cache_size p" "admissioner c = None"
proof -
  from assms(8) obtain n st name where
    c: "c = (cache_struct_init ''SLRU'' p s pf0
         \<lparr>lru_heads = replicate (nat n) NULL, lru_tails = replicate (nat n) NULL,
          lru_n_bytes = replicate (nat n) 0, lru_n_objs = replicate (nat n) 0,
          lru_max_n_bytes = st, n_seg = nat n\<rparr>)
       \<lparr>obj_md_size := 0, cache_name := name\<rparr>"
    using assms(7) by (auto simp: SLRU_init_def Let_def bind_eq_Some_conv)
  have n: "nat n = length mx" "st = mx" using assms(9,11) c by simp_all
  have cat: "concat (replicate k []) = []" for k by (induction k) auto
  have "bag_at basic_view E W c [] []" by (rule bag_at_empty) (use assms c in \<open>simp_all add: cache_ok_init\<close>)
  then have "SLRU_at E W mx c (replicate (length mx) []) (replicate (length mx) [])"
    unfolding SLRU_at_def cat using assms(3,10) by (simp add: c n segs_ok_def lids_ok_def counts_ok_def cat)
  then show "SLRU_R E W mx c (replicate (length mx) [])" by (auto simp: SLRU_R_def)
  show "cache_size c = ccp_cache_size p" "admissioner c = None" by (simp_all add: c)
qed

section \<open>Properties\<close>

text \<open>
  C12: a segmented LRU cache behaves, on every trace from its initialisation, like a list of segments: a
  hit moves the object in front of the next higher segment, what does not fit there any more moves as
  a block in front of the segment below and so on down to the lowest segment, whose excess leaves
  the cache; an eviction takes the last object of the lowest segment that holds bytes, and a new
  object enters the lowest segment with room.  All loops of the code return, the hits it reports are
  those of the list of segments, it ends with their objects and the capacity is never exceeded.  The
  hypotheses are that the segment sizes rise, that there are as many sizes as segments, that no
  object is pinned and that the metadata is not charged.
\<close>

theorem SLRU_serve_refines:
  assumes "spread E W" and "\<not> support_ttl E" and "pin E = None" and "0 < ccp_hashpower p" and "ccp_hashpower p < 40"
    and "int (snd W) \<le> ccp_hashpower p" and "\<not> ccp_consider_obj_metadata p" and "SLRU_init pf0 p s = Some c0"
    and "mx = lru_max_n_bytes (eviction_params c0)" and "mx_ok mx (ccp_cache_size p)" and "n_seg (eviction_params c0) = length mx"
    and "\<forall>req \<in> set reqs. req_obj_id req \<in> fst W \<and> 0 \<le> req_obj_size req"
  shows "\<exists>c qs hits. serve (SLRU_ops E None) None c0 reqs = Some (c, hits)
    \<and> sim_serve (slru_machine mx) (ccp_cache_size p) (replicate (length mx) []) reqs = Some (qs, hits)
    \<and> SLRU_R E W mx c qs \<and> resident c = fst ` set (concat qs) \<and> occupied_byte c \<le> ccp_cache_size p"
proof -
  note i = SLRU_init_R [OF assms(1-11)]
  have cat: "concat (replicate k []) = []" for k by (induction k) auto
  have "0 \<le> cache_size c0" using assms(10) i(2) by (simp add: mx_ok_def)
  then have "s_bytes (slru_machine mx) (replicate (length mx) []) \<le> cache_size c0" by (simp add: cat)
  from slru.serve_simulates [OF i(1) assms(12) i(3) this] SLRU_R_facts(4) [OF i(1)] i(2) obtain c qs hits where
    "serve (SLRU_ops E None) None c0 reqs = Some (c, hits)" "SLRU_R E W mx c qs"
    "sim_serve (slru_machine mx) (ccp_cache_size p) (replicate (length mx) []) reqs = Some (qs, hits)"
    "op_get_occupied_byte (SLRU_ops E None) c \<le> ccp_cache_size p" by auto
  then show ?thesis using SLRU_R_facts(7) [of E W mx c qs] by (auto simp: cache_get_occupied_byte_default_def simp del: set_concat)
qed

lemma sample_slru:
  obtains c0 :: "(unit, unit) slru_cache" where "SLRU_init () (sample_params 8) None = Some c0"
    "lru_max_n_bytes (eviction_params c0) = [2, 2, 2, 2]" "n_seg (eviction_params c0) = 4"
proof -
  have "SLRU_default_sizes 8 4 = [2, 2, 2, 2]" by (simp add: SLRU_default_sizes_def upto_rec1)
  then show ?thesis using that
    by (auto simp: SLRU_init_def SLRU_parse_params_def parse_loop.simps SLRU_name_def Let_def)
qed

theorem SLRU_serve_refines_witness:
  "\<exists>c0 c :: (unit, unit) slru_cache.
     SLRU_init () (sample_params 8) None = Some c0 \<and> serve (SLRU_ops sample_env None) None c0
       [sample_req 1 1, sample_req 2 1, sample_req 1 1, sample_req 2 1, sample_req 3 2, sample_req 3 2, sample_req 4 1]
       = Some (c, [False, False, True, True, False, True, False])
     \<and> SLRU_R sample_env sample_ids [2, 2, 2, 2] c [[(2, 1), (1, 1)], [(3, 2)], [(4, 1)], []]"
proof -
  let ?reqs = "[sample_req 1 1, sample_req 2 1, sample_req 1 1, sample_req 2 1, sample_req 3 2, sample_req 3 2, sample_req 4 1]"
  obtain c0 :: "(unit, unit) slru_cache" where
    c0: "SLRU_init () (sample_params 8) None = Some c0" "lru_max_n_bytes (eviction_params c0) = [2, 2, 2, 2]"
    "n_seg (eviction_params c0) = 4" by (rule sample_slru)
  have "sim_serve (slru_machine [2, 2, 2, 2]) 8 [[], [], [], []] ?reqs
    = Some ([[(2, 1), (1, 1)], [(3, 2)], [(4, 1)], []], [False, False, True, True, False, True, False])"
    by (simp add: sim_get_def sim_evict.simps slru_hit_def seg_of_def slru_insert_def slru_seg_def queue_delete_def
        view_bytes_def upt_rec Let_def)
  then show ?thesis
    using SLRU_serve_refines [of sample_env sample_ids "sample_params 8" "()" None c0 "[2, 2, 2, 2]" ?reqs] c0
    by (simp add: mx_ok_def del: serve.simps sim_serve.simps) blast
qed

text \<open>
  C40: \<open>SLRU_remove\<close> takes the object out of its segment, of the hash table and of the byte count of the
  cache, but leaves the byte counts of the segments as they are: from then on the counter of that
  segment exceeds the bytes that the segment holds by the size of the removed object.
\<close>

theorem SLRU_remove_stale_counts:
  assumes "SLRU_R E W mx c qs" and "k = seg_of i qs" and "(i, n) \<in> set (qs ! k)" and "k < length qs"
  shows "\<exists>c' Ls. SLRU_remove E c i = Some (c', True) \<and> segs_ok (store c') (eviction_params c') Ls
    \<and> map (views basic_view (store c')) Ls = qs[k := queue_delete i (qs ! k)]
    \<and> bag_at basic_view E W c' (concat Ls) (concat (qs[k := queue_delete i (qs ! k)]))
    \<and> lru_n_bytes (eviction_params c') = map (queue_bytes 0) qs
    \<and> lru_n_bytes (eviction_params c') ! k = queue_bytes 0 (views basic_view (store c') (Ls ! k)) + n"
proof -
  from assms(1) obtain Ls where at: "SLRU_at E W mx c Ls qs" by (auto simp: SLRU_R_def)
  note c = SLRU_atD [OF at]
  have "qs ! k \<in> set qs" using assms(4) by simp
  then have "i \<in> fst ` set (concat qs)" using assms(3) by (force simp del: nth_mem)
  then obtain k' us a vs ob where
    o': "k' = seg_of i qs" "k' < length Ls" "Ls ! k' = us @ a # vs" "store c a = Some ob" "obj_id ob = i"
    "filter (\<lambda>e. fst e = i) (qs ! k') = [basic_view ob]" "queue_delete i (qs ! k') = views basic_view (store c) (us @ vs)"
    by (rule SLRU_object [OF at])
  note o = o'(2-7) [unfolded o'(1) [folded assms(2)]]
  have "(i, n) \<in> set (filter (\<lambda>e. fst e = i) (qs ! k))" using assms(3) by simp
  then have n: "obj_size ob = n" unfolding o(5) by (simp add: basic_view_def)
  have id: "SLRU_lru_id ob = k" using SLRU_at_live [OF at o(1), of a] o(2,3) by auto
  from SLRU_take [OF at o(1-3)] obtain h qh qt where
    r: "remove_obj_from_list (store c) (lru_heads (eviction_params c) ! k) (lru_tails (eviction_params c) ! k) (Some a)
      = Some (h, qh, qt)"
    and t0: "\<exists>h' ht. cache_remove_obj_base E (with_seg c h k qh qt) (Some a) True = Some (shrunk (with_seg c h k qh qt) h' ht (obj_size ob))
      \<and> bag_at basic_view E W (shrunk (with_seg c h k qh qt) h' ht (obj_size ob)) (concat (Ls[k := us @ vs]))
        (concat (qs[k := views basic_view (store c) (us @ vs)]))
      \<and> map (views basic_view h') (Ls[k := us @ vs]) = qs[k := views basic_view (store c) (us @ vs)]
      \<and> segs_ok h' (put_seg (eviction_params c) k qh qt) (Ls[k := us @ vs]) \<and> lids_ok h' (Ls[k := us @ vs])" by blast
  from t0 obtain h' ht where
    t: "cache_remove_obj_base E (with_seg c h k qh qt) (Some a) True = Some (shrunk (with_seg c h k qh qt) h' ht (obj_size ob))"
    "bag_at basic_view E W (shrunk (with_seg c h k qh qt) h' ht (obj_size ob)) (concat (Ls[k := us @ vs]))
      (concat (qs[k := queue_delete i (qs ! k)]))"
    "map (views basic_view h') (Ls[k := us @ vs]) = qs[k := queue_delete i (qs ! k)]"
    "segs_ok h' (put_seg (eviction_params c) k qh qt) (Ls[k := us @ vs])" unfolding o(6) by blast
  let ?c = "shrunk (with_seg c h k qh qt) h' ht (obj_size ob)"
  have "chained_hashtable_find_obj_id_v2 E (store c) (hashtable c) i = Some (Some a)"
    using basic.bag_lookup(2) [OF c(1) o(3)] o(4) by simp
  then have rm: "SLRU_remove E c i = Some (?c, True)"
    using o(1,3) id r t(1) c(3) by (simp add: SLRU_remove_def seg_remove_def elem_def segs_ok_def Let_def)
  have "queue_bytes 0 (qs ! k) = queue_bytes 0 (views basic_view (store c) (us @ vs)) + n"
    using o(1-3) n unfolding c(2) by (simp add: basic_view_def)
  moreover have "views basic_view h' (Ls[k := us @ vs] ! k) = views basic_view (store c) (us @ vs)"
    using arg_cong [OF t(3), of "\<lambda>qs. qs ! k"] o(1,6) c(9) by simp
  moreover have "lru_n_bytes (eviction_params c) = map (queue_bytes 0) qs" using c(5) by (simp add: counts_ok_def)
  ultimately have "lru_n_bytes (eviction_params ?c) = map (queue_bytes 0) qs"
    "lru_n_bytes (eviction_params ?c) ! k = queue_bytes 0 (views basic_view (store ?c) (Ls[k := us @ vs] ! k)) + n"
    using assms(4) by simp_all
  with rm t(2-4) show ?thesis by (intro exI [of _ ?c] exI [of _ "Ls[k := us @ vs]"]) simp
qed

theorem SLRU_remove_stale_counts_witness:
  "\<exists>(c :: (unit, unit) slru_cache) c'. SLRU_R sample_env sample_ids [2, 2, 2, 2] c [[(1, 1)], [], [], []]
    \<and> SLRU_remove sample_env c 1 = Some (c', True)
    \<and> segs_ok (store c') (eviction_params c') [[], [], [], []] \<and> lru_n_bytes (eviction_params c') = [1, 0, 0, 0]"
proof -
  obtain c0 :: "(unit, unit) slru_cache" where
    c0: "SLRU_init () (sample_params 8) None = Some c0" "lru_max_n_bytes (eviction_params c0) = [2, 2, 2, 2]"
    "n_seg (eviction_params c0) = 4" by (rule sample_slru)
  have "SLRU_R sample_env sample_ids [2, 2, 2, 2] c0 [[], [], [], []]" "cache_size c0 = 8"
    using SLRU_init_R [of sample_env sample_ids "sample_params 8" "()" None c0 "[2, 2, 2, 2]"] c0
    by (simp_all add: mx_ok_def)
  from SLRU_insert_refines [OF this(1), of "sample_req 1 1"] this(2) obtain c :: "(unit, unit) slru_cache" where
    "SLRU_R sample_env sample_ids [2, 2, 2, 2] c [[(1, 1)], [], [], []]"
    by (auto simp: slru_insert_def slru_seg_def upt_rec Let_def)
  from SLRU_remove_stale_counts [OF this refl, of 1 1] this show ?thesis
    by (auto simp: seg_of_def queue_delete_def)
qed

end
