(* ===== verification/Sub_Cache.thy ===== *)
theory Sub_Cache
  imports FIFO LRU Simulation
begin

text \<open>
  Caches that keep their objects in caches of their own.  The locale \<open>queue_child\<close> is what such an
  algorithm relies on in a FIFO or LRU cache below it: the operations act on the queue, a lookup
  without update changes nothing, and a removal by id tells whether the id was there.
\<close>

text \<open>A child of a given size, without metadata and without an admission algorithm.\<close>

definition child_R ::
    "(('a, 'f, 'p) cache_t \<Rightarrow> int queue \<Rightarrow> bool) \<Rightarrow> int \<Rightarrow> ('a, 'f, 'p) cache_t \<Rightarrow> int queue \<Rightarrow> bool" where
  "child_R R n q es \<longleftrightarrow> R q es \<and> cache_size q = n \<and> obj_md_size q = 0 \<and> admissioner q = None"

lemma copy_req_simps [simp]:
  "req_obj_id (copy_cache_obj_to_request r ob) = obj_id ob"
  "req_obj_size (copy_cache_obj_to_request r ob) = obj_size ob"
  by (simp_all add: copy_cache_obj_to_request_def)

lemma queue_get_fields:
  "req_obj_id r = req_obj_id r' \<Longrightarrow> req_obj_size r = req_obj_size r' \<Longrightarrow>
   queue_get pn pr cap md r es = queue_get pn pr cap md r' es"
  by (simp add: queue_get_def)

locale queue_child = refined_policy ops R "queue_machine pn pr" ok_req
  for ops :: "('a, 'f, 'p) cache_t cache_ops" and R pn pr ok_req +
  assumes child_remove: "R c es \<Longrightarrow> \<exists>c'. op_remove ops c i = Some (c', i \<in> fst ` set es)
        \<and> R c' (queue_delete i es) \<and> same_limits c c' \<and> admissioner c' = admissioner c"
    and child_look: "R c es \<Longrightarrow> \<exists>p. op_find ops c req False = Some (c, p) \<and> (p \<noteq> NULL \<longleftrightarrow> req_obj_id req \<in> fst ` set es)"
    and child_victim: "R c es \<Longrightarrow> es \<noteq> [] \<Longrightarrow> \<exists>c' a ob. op_to_evict ops c req = Some (c', Some a) \<and> store c' a = Some ob
        \<and> R c' es \<and> same_limits c c' \<and> admissioner c' = admissioner c \<and> queue_victim pn es = basic_view ob"
    and child_ids: "R c es \<Longrightarrow> req_obj_id req \<in> fst ` set es \<Longrightarrow> ok_req req"
begin

lemma bytes: "child_R R n c es \<Longrightarrow> op_get_occupied_byte ops c = queue_bytes 0 es"
  using R_bytes [of c es] by (auto simp: child_R_def)

lemma remove:
  "child_R R n c es \<Longrightarrow> \<exists>c'. op_remove ops c i = Some (c', i \<in> fst ` set es) \<and> child_R R n c' (queue_delete i es)"
  using child_remove [of c es i] by (auto simp: child_R_def same_limits_def)

lemma look:
  "child_R R n c es \<Longrightarrow> \<exists>p. op_find ops c req False = Some (c, p) \<and> (p \<noteq> NULL \<longleftrightarrow> req_obj_id req \<in> fst ` set es)"
  using child_look [of c es req] by (simp add: child_R_def)

lemma victim:
  assumes "child_R R n c es" and "es \<noteq> []"
  shows "\<exists>c' a ob. op_to_evict ops c req = Some (c', Some a) \<and> store c' a = Some ob \<and> child_R R n c' es
    \<and> queue_victim pn es = basic_view ob"
  using child_victim [of c es req] assms by (auto simp: child_R_def same_limits_def)

lemma find:
  assumes "child_R R n c es" and "ok_req req"
  shows "\<exists>c' p. op_find ops c req True = Some (c', p) \<and> (p \<noteq> NULL \<longleftrightarrow> req_obj_id req \<in> fst ` set es)
    \<and> child_R R n c' (if pr \<and> req_obj_id req \<in> fst ` set es then queue_promote (req_obj_id req) es else es)"
  using R_find [of c es req] assms by (auto simp: child_R_def same_limits_def split: if_splits)

lemma insert:
  assumes "child_R R n c es" and "ok_req req" and "req_obj_id req \<notin> fst ` set es"
  shows "\<exists>c' p. op_insert ops c req = Some (c', p) \<and> child_R R n c' ((req_obj_id req, req_obj_size req) # es)"
  using R_insert [of c es req] assms by (auto simp: child_R_def same_limits_def)

lemma evict:
  assumes "child_R R n c es" and "es \<noteq> []"
  shows "\<exists>c'. op_evict ops c req = Some c' \<and> child_R R n c' (queue_delete (fst (queue_victim pn es)) es)"
  using R_evict [of c es req] assms by (auto simp: child_R_def same_limits_def)

lemma get:
  assumes "child_R R n c es" and "ok_req req"
  shows "\<exists>c' hit. cache_get_base ops None c req = Some (c', hit) \<and> child_R R n c' (fst (queue_get pn pr n 0 req es))"
  using get_refines [of c es req] assms by (auto simp: child_R_def same_limits_def spec_get_queue)

end

interpretation fifo_child: queue_child "FIFO_ops E None" "FIFO_R basic_view E W" "pin E" False
  "\<lambda>req. req_obj_id req \<in> fst W" for E W
proof (standard, goal_cases)
  case (1 c es i)
  then show ?case using basic.FIFO_remove_refines by (simp add: FIFO_ops_def)
next
  case (2 c es req)
  then show ?case using basic.queue_find_only [OF 2 [unfolded FIFO_R_def]] by (simp add: FIFO_ops_def FIFO_find_def)
next
  case (3 c es req)
  then show ?case using basic.FIFO_to_evict_refines [OF 3, of req] by (auto simp: FIFO_ops_def same_limits_def)
next
  case (4 c es req)
  then show ?case using basic.FIFO_R_facts(2) by blast
qed

interpretation lru_child: queue_child "LRU_ops E None" "LRU_R E W" "pin E" True
  "\<lambda>req. req_obj_id req \<in> fst W" for E W
proof (standard, goal_cases)
  case (1 c es i)
  then show ?case using LRU_remove_refines by (simp add: LRU_ops_def)
next
  case (2 c es req)
  from basic.queue_find_only [OF 2 [unfolded LRU_R_def], of "LRU_remove E" req] obtain p where
    "cache_find_base E None (LRU_remove E) c req False = Some (c, p)" "p \<noteq> NULL \<longleftrightarrow> req_obj_id req \<in> fst ` set es" by blast
  then show ?case by (simp add: LRU_ops_def LRU_find_def)
next
  case (3 c es req)
  then have "LRU_R E W (c\<lparr>to_evict_candidate_gen_vtime := n\<rparr>) es" for n
    by (auto simp: LRU_R_def queue_R_def queue_at_def cache_ok_def obj_bytes_def)
  then show ?case using basic.queue_skip_pinned [OF 3(1) [unfolded LRU_R_def] 3(2), of "pin E"]
    by (auto simp: LRU_ops_def LRU_to_evict_def same_limits_def)
next
  case (4 c es req)
  from 4(1) obtain xs where "cache_ok E W c (set xs)" "es = views basic_view (store c) xs"
    unfolding LRU_R_def by (elim basic.queue_R_E)
  then show ?case using 4(2) cache_okD(1) [of E W c "set xs"] by (auto simp: table_ok_def basic.view_id)
qed

lemma fifo_child_init:
  assumes "spread E W" "\<not> support_ttl E" "0 < ccp_hashpower p" "ccp_hashpower p < 40" "int (snd W) \<le> ccp_hashpower p"
  shows "child_R (FIFO_R basic_view E W) (ccp_cache_size p) (FIFO_init pf0 p None) []"
  using FIFO_init_R [OF assms] by (simp add: child_R_def)

lemma lru_child_init:
  assumes "spread E W" "\<not> support_ttl E" "0 < ccp_hashpower p" "ccp_hashpower p < 40" "int (snd W) \<le> ccp_hashpower p"
    and "\<not> ccp_consider_obj_metadata p"
  shows "child_R (LRU_R E W) (ccp_cache_size p) (LRU_init pf0 p None) []"
  using LRU_init_R [OF assms(1-5)] assms(6) by (simp add: child_R_def)

subsection \<open>What a request to a child keeps\<close>

lemma queue_trim_keeps: "set (queue_trim pn room md es) \<subseteq> set es"
proof (induction pn room md es rule: queue_trim.induct)
  case (1 pn room md es)
  then show ?case by (subst queue_trim.simps) (auto simp: queue_delete_def)
qed

lemma queue_get_keeps:
  "set (fst (queue_get pn pr cap md req es)) \<subseteq> insert (req_obj_id req, req_obj_size req) (set es)"
  using queue_trim_keeps [of pn "cap - req_obj_size req - md" md es]
  by (auto simp: queue_get_def queue_promote_def queue_delete_def)

lemma bytes_delete_le: "\<forall>e \<in> set es. 0 \<le> snd e \<Longrightarrow> queue_bytes 0 (queue_delete i es) \<le> queue_bytes 0 es"
  by (induction es) (auto simp: queue_delete_def)

lemma queue_trim_bytes: "\<forall>e \<in> set es. 0 \<le> snd e \<Longrightarrow> queue_bytes 0 (queue_trim pn room 0 es) \<le> queue_bytes 0 es"
proof (induction pn room "0 :: int" es rule: queue_trim.induct)
  case (1 pn room es)
  show ?case
  proof (cases "queue_bytes 0 es \<le> room \<or> es = []")
    case True
    then show ?thesis by (subst queue_trim.simps) auto
  next
    case False
    let ?d = "queue_delete (fst (queue_victim pn es)) es"
    have "queue_bytes 0 (queue_trim pn room 0 ?d) \<le> queue_bytes 0 ?d"
      by (rule 1(1) [OF False]) (use 1(2) in \<open>auto simp: queue_delete_def\<close>)
    also have "\<dots> \<le> queue_bytes 0 es" by (rule bytes_delete_le [OF 1(2)])
    finally show ?thesis using False by (subst queue_trim.simps) simp
  qed
qed

lemma queue_get_bytes:
  assumes "\<forall>e \<in> set es. 0 \<le> snd e" and "0 \<le> req_obj_size req"
  shows "queue_bytes 0 (fst (queue_get pn pr cap 0 req es)) \<le> queue_bytes 0 es + req_obj_size req"
  using queue_trim_bytes [OF assms(1), of pn "cap - req_obj_size req"] assms(2) by (auto simp: queue_get_def)

end
