(* ===== verification/TwoQ.thy ===== *)
theory TwoQ
  imports Sub_Cache Double
begin

text \<open>
  2Q (\<open>cache/eviction/TwoQ.c\<close>): a FIFO cache \<open>Ain\<close> for new objects, a FIFO cache \<open>Aout\<close> that remembers the
  objects evicted from it, and an LRU cache \<open>Am\<close> for the objects that come back while \<open>Aout\<close> knows them.
\<close>

section \<open>Model\<close>

record ('a, 'f) TwoQ_params_t =
  Ain :: "('a, 'f, FIFO_params_t) cache_t"
  Aout :: "('a, 'f, FIFO_params_t) cache_t"
  Am :: "('a, 'f, LRU_params_t) cache_t"
  TwoQ_hit_on_ghost :: bool
  Ain_cache_size :: int
  Aout_cache_size :: int
  Am_cache_size :: int
  Ain_size_ratio :: double
  Aout_size_ratio :: double
  TwoQ_req_local :: request

type_synonym ('a, 'f) twoq_cache = "('a, 'f, ('a, 'f) TwoQ_params_t) cache_t"

subsection \<open>Parameters\<close>

text \<open>The parsed settings: the ratios of \<open>Ain\<close> and of \<open>Aout\<close>.\<close>

definition TwoQ_param :: "string \<Rightarrow> string option \<Rightarrow> double \<times> double \<Rightarrow> (double \<times> double) option" where
  "TwoQ_param key val p = (case p of (ain, aout) \<Rightarrow>
     if strcasecmp_eq key ''Ain-size-ratio'' then map_option (\<lambda>s. (strtod s, aout)) val
     else if strcasecmp_eq key ''Aout-size-ratio'' then map_option (\<lambda>s. (ain, strtod s)) val
     else None)"

definition TwoQ_parse_params :: "double \<times> double \<Rightarrow> string option \<Rightarrow> (double \<times> double) option" where
  "TwoQ_parse_params = parse_loop TwoQ_param"

definition TwoQ_DEFAULT_CACHE_PARAMS :: string where
  "TwoQ_DEFAULT_CACHE_PARAMS = ''Ain-size-ratio=0.25,Aout-size-ratio=0.5''"

definition TwoQ_current_params :: "double \<times> double \<Rightarrow> string" where
  "TwoQ_current_params p = (case p of (ain, aout) \<Rightarrow>
     take 127 (''Ain-size-ratio='' @ show_fixed 2 ain @ '',Aout-size-ratio='' @ show_fixed 2 aout @ [CHR 0x0A]))"

definition TwoQ_init ::
    "'f \<Rightarrow> common_cache_params_t \<Rightarrow> string option \<Rightarrow> ('a, 'f) twoq_cache option" where
  "TwoQ_init pf0 ccache_params cache_specific_params = do {
     params \<leftarrow> TwoQ_parse_params (0, 0) (Some TwoQ_DEFAULT_CACHE_PARAMS);
     (ain, aout) \<leftarrow> (if cache_specific_params \<noteq> None
        then TwoQ_parse_params params cache_specific_params else Some params);
     let ain_size = scale_int (ccp_cache_size ccache_params) ain;
     let aout_size = scale_int (ccp_cache_size ccache_params) aout;
     let am_size = ccp_cache_size ccache_params - ain_size;
     Some ((cache_struct_init ''TwoQ'' ccache_params cache_specific_params pf0
       \<lparr>Ain = FIFO_init pf0 (ccache_params\<lparr>ccp_cache_size := ain_size\<rparr>) None,
        Aout = FIFO_init pf0 (ccache_params\<lparr>ccp_cache_size := aout_size\<rparr>) None,
        Am = LRU_init pf0 (ccache_params\<lparr>ccp_cache_size := am_size\<rparr>) None,
        TwoQ_hit_on_ghost = False, Ain_cache_size = ain_size, Aout_cache_size = aout_size,
        Am_cache_size = am_size, Ain_size_ratio = ain, Aout_size_ratio = aout,
        TwoQ_req_local = new_request\<rparr>)\<lparr>obj_md_size := 0\<rparr>) }"

subsection \<open>Operations\<close>

definition TwoQ_find ::
    "env \<Rightarrow> ('a, 'f) twoq_cache \<Rightarrow> request \<Rightarrow> bool \<Rightarrow> (('a, 'f) twoq_cache \<times> ptr) option" where
  "TwoQ_find E c req update_cache = do {
     let params = eviction_params c;
     (q, obj) \<leftarrow> FIFO_find E None (Ain params) req False;
     let params = params\<lparr>Ain := q\<rparr>;
     if \<not> update_cache then
       (if obj \<noteq> NULL then Some (c\<lparr>eviction_params := params\<rparr>, obj)
        else do {
          (m, obj) \<leftarrow> LRU_find E None (Am params) req False;
          Some (c\<lparr>eviction_params := params\<lparr>Am := m\<rparr>\<rparr>, obj) })
     else do {
       let params = params\<lparr>TwoQ_hit_on_ghost := False\<rparr>;
       if obj \<noteq> NULL then Some (c\<lparr>eviction_params := params\<rparr>, obj)
       else do {
         (g, removed) \<leftarrow> FIFO_remove E (Aout params) (req_obj_id req);
         let params = params\<lparr>Aout := g\<rparr>;
         let params = (if removed then params\<lparr>TwoQ_hit_on_ghost := True\<rparr> else params);
         (m, obj) \<leftarrow> LRU_find E None (Am params) req update_cache;
         Some (c\<lparr>eviction_params := params\<lparr>Am := m\<rparr>\<rparr>, obj) } } }"

definition TwoQ_insert ::
    "env \<Rightarrow> ('a, 'f) twoq_cache \<Rightarrow> request \<Rightarrow> (('a, 'f) twoq_cache \<times> ptr) option" where
  "TwoQ_insert E c req = (let params = eviction_params c in
     if TwoQ_hit_on_ghost params then do {
       let params = params\<lparr>TwoQ_hit_on_ghost := False\<rparr>;
       (m, hit) \<leftarrow> LRU_get E None (Am params) req;
       Some (c\<lparr>eviction_params := params\<lparr>Am := m\<rparr>\<rparr>, NULL) }
     else do {
       (q, obj) \<leftarrow> FIFO_insert E (Ain params) req;
       Some (c\<lparr>eviction_params := params\<lparr>Ain := q\<rparr>\<rparr>, obj) })"

text \<open>\<open>assert(false)\<close>.\<close>

definition TwoQ_to_evict ::
    "('a, 'f) twoq_cache \<Rightarrow> request \<Rightarrow> (('a, 'f) twoq_cache \<times> ptr) option" where
  "TwoQ_to_evict c req = None"

definition TwoQ_evict ::
    "env \<Rightarrow> ('a, 'f) twoq_cache \<Rightarrow> request \<Rightarrow> ('a, 'f) twoq_cache option" where
  "TwoQ_evict E c req = (let params = eviction_params c in
     if cache_get_occupied_byte_default (Am params) > 0
         \<and> cache_get_occupied_byte_default (Ain params) \<le> Ain_cache_size params then do {
       m \<leftarrow> LRU_evict E None (Am params) req;
       Some (c\<lparr>eviction_params := params\<lparr>Am := m\<rparr>\<rparr>) }
     else do {
       (q, obj) \<leftarrow> FIFO_to_evict E (Ain params) req;
       ob \<leftarrow> deref (store q) obj;
       let r = copy_cache_obj_to_request (TwoQ_req_local params) ob;
       (g, hit) \<leftarrow> FIFO_get E None (Aout params) r;
       q \<leftarrow> FIFO_evict E None q req;
       Some (c\<lparr>eviction_params := params\<lparr>Ain := q, Aout := g, TwoQ_req_local := r\<rparr>\<rparr>) })"

text \<open>The disjunctions are lazy: the first cache that has the object ends the search.\<close>

definition TwoQ_remove ::
    "env \<Rightarrow> ('a, 'f) twoq_cache \<Rightarrow> obj_id_t \<Rightarrow> (('a, 'f) twoq_cache \<times> bool) option" where
  "TwoQ_remove E c i = do {
     let params = eviction_params c;
     (q, removed) \<leftarrow> FIFO_remove E (Ain params) i;
     let params = params\<lparr>Ain := q\<rparr>;
     (params, removed) \<leftarrow> (if removed then Some (params, removed)
       else map_option (\<lambda>(g, r). (params\<lparr>Aout := g\<rparr>, r)) (FIFO_remove E (Aout params) i));
     (params, removed) \<leftarrow> (if removed then Some (params, removed)
       else map_option (\<lambda>(m, r). (params\<lparr>Am := m\<rparr>, r)) (LRU_remove E (Am params) i));
     Some (c\<lparr>eviction_params := params\<rparr>, removed) }"

definition TwoQ_get_occupied_byte :: "('a, 'f) twoq_cache \<Rightarrow> int" where
  "TwoQ_get_occupied_byte c = cache_get_occupied_byte_default (Ain (eviction_params c))
     + cache_get_occupied_byte_default (Am (eviction_params c))"

definition TwoQ_get_n_obj :: "('a, 'f) twoq_cache \<Rightarrow> int" where
  "TwoQ_get_n_obj c = cache_get_n_obj_default (Ain (eviction_params c))
     + cache_get_n_obj_default (Am (eviction_params c))"

definition TwoQ_can_insert ::
    "('a, 'f) twoq_cache \<Rightarrow> request \<Rightarrow> (('a, 'f) twoq_cache \<times> bool) option" where
  "TwoQ_can_insert c req =
    (if req_obj_size req \<le> cache_size (Ain (eviction_params c))
     then cache_can_insert_default c req else Some (c, False))"

definition TwoQ_ops :: "env \<Rightarrow> ('a, 'f) twoq_cache cache_ops" where
  "TwoQ_ops E = \<lparr>op_find = TwoQ_find E, op_can_insert = TwoQ_can_insert,
     op_insert = TwoQ_insert E, op_evict = TwoQ_evict E, op_remove = TwoQ_remove E,
     op_to_evict = TwoQ_to_evict, op_get_occupied_byte = TwoQ_get_occupied_byte,
     op_get_n_obj = TwoQ_get_n_obj\<rparr>"

definition TwoQ_get ::
    "env \<Rightarrow> ('a, 'f) twoq_cache prefetcher_t option \<Rightarrow> ('a, 'f) twoq_cache \<Rightarrow> request \<Rightarrow>
     (('a, 'f) twoq_cache \<times> bool) option" where
  "TwoQ_get E pf c req = cache_get_base (TwoQ_ops E) pf c req"

section \<open>The abstract machine\<close>

record twoq =
  tq_in :: "int queue"
  tq_out :: "int queue"
  tq_am :: "int queue"
  tq_ghost_hit :: bool

record twoq_conf =
  in_size :: int
  out_size :: int
  am_size :: int

definition tq_find :: "request \<Rightarrow> twoq \<Rightarrow> twoq" where
  "tq_find req s = (let i = req_obj_id req in
     if i \<in> fst ` set (tq_in s) then s\<lparr>tq_ghost_hit := False\<rparr>
     else s\<lparr>tq_ghost_hit := i \<in> fst ` set (tq_out s), tq_out := queue_delete i (tq_out s),
       tq_am := (if i \<in> fst ` set (tq_am s) then queue_promote i (tq_am s) else tq_am s)\<rparr>)"

definition tq_insert :: "pin_pred \<Rightarrow> twoq_conf \<Rightarrow> request \<Rightarrow> twoq \<Rightarrow> twoq" where
  "tq_insert pn cf req s =
    (if tq_ghost_hit s
     then s\<lparr>tq_ghost_hit := False, tq_am := fst (queue_get pn True (am_size cf) 0 req (tq_am s))\<rparr>
     else s\<lparr>tq_in := (req_obj_id req, req_obj_size req) # tq_in s\<rparr>)"

definition tq_evict :: "pin_pred \<Rightarrow> twoq_conf \<Rightarrow> twoq \<Rightarrow> twoq" where
  "tq_evict pn cf s =
    (if queue_bytes 0 (tq_am s) > 0 \<and> queue_bytes 0 (tq_in s) \<le> in_size cf
     then s\<lparr>tq_am := queue_delete (fst (queue_victim pn (tq_am s))) (tq_am s)\<rparr>
     else (let (i, n) = queue_victim pn (tq_in s)
       in s\<lparr>tq_in := queue_delete i (tq_in s), tq_out := fst (queue_get pn False (out_size cf) 0
            (new_request\<lparr>req_obj_id := i, req_obj_size := n\<rparr>) (tq_out s))\<rparr>))"

definition tq_machine :: "pin_pred \<Rightarrow> twoq_conf \<Rightarrow> twoq spec" where
  "tq_machine pn cf = \<lparr>s_ids = \<lambda>s. fst ` set (tq_in s) \<union> fst ` set (tq_am s),
     s_bytes = \<lambda>s. queue_bytes 0 (tq_in s) + queue_bytes 0 (tq_am s), s_find = tq_find,
     s_admit = \<lambda>req s. req_obj_size req \<le> in_size cf \<and> req_obj_size req \<le> in_size cf + am_size cf,
     s_evict = \<lambda>req. tq_evict pn cf, s_insert = tq_insert pn cf\<rparr>"

lemma tq_machine_simps [simp]:
  "s_ids (tq_machine pn cf) s = fst ` set (tq_in s) \<union> fst ` set (tq_am s)"
  "s_bytes (tq_machine pn cf) s = queue_bytes 0 (tq_in s) + queue_bytes 0 (tq_am s)"
  "s_find (tq_machine pn cf) = tq_find"
  "s_admit (tq_machine pn cf) req s \<longleftrightarrow> req_obj_size req \<le> in_size cf \<and> req_obj_size req \<le> in_size cf + am_size cf"
  "s_evict (tq_machine pn cf) req = tq_evict pn cf" "s_insert (tq_machine pn cf) = tq_insert pn cf"
  by (simp_all add: tq_machine_def)

section \<open>Refinement\<close>

definition tq_params_R :: "env \<Rightarrow> trace_ids \<Rightarrow> twoq_conf \<Rightarrow> ('a, 'f) TwoQ_params_t \<Rightarrow> twoq \<Rightarrow> bool" where
  "tq_params_R E W cf P s \<longleftrightarrow> child_R (FIFO_R basic_view E W) (in_size cf) (Ain P) (tq_in s)
     \<and> child_R (FIFO_R basic_view E W) (out_size cf) (Aout P) (tq_out s)
     \<and> child_R (LRU_R E W) (am_size cf) (Am P) (tq_am s)
     \<and> TwoQ_hit_on_ghost P = tq_ghost_hit s \<and> Ain_cache_size P = in_size cf \<and> 0 \<le> in_size cf
     \<and> (\<forall>e \<in> set (tq_in s) \<union> set (tq_am s). 0 \<le> snd e)"

definition TwoQ_R :: "env \<Rightarrow> trace_ids \<Rightarrow> twoq_conf \<Rightarrow> ('a, 'f) twoq_cache \<Rightarrow> twoq \<Rightarrow> bool" where
  "TwoQ_R E W cf c s \<longleftrightarrow> tq_params_R E W cf (eviction_params c) s \<and> obj_md_size c = 0
     \<and> cache_size c = in_size cf + am_size cf"

lemmas child_ops = FIFO_ops_def LRU_ops_def

lemma tq_params_RD:
  assumes "tq_params_R E W cf P s"
  shows "child_R (FIFO_R basic_view E W) (in_size cf) (Ain P) (tq_in s)"
    "child_R (FIFO_R basic_view E W) (out_size cf) (Aout P) (tq_out s)"
    "child_R (LRU_R E W) (am_size cf) (Am P) (tq_am s)"
    "TwoQ_hit_on_ghost P = tq_ghost_hit s" "Ain_cache_size P = in_size cf" "0 \<le> in_size cf"
    "\<forall>e \<in> set (tq_in s). 0 \<le> snd e" "\<forall>e \<in> set (tq_am s). 0 \<le> snd e"
  using assms by (auto simp: tq_params_R_def)

lemma TwoQ_bytes:
  assumes "tq_params_R E W cf P s"
  shows "cache_get_occupied_byte_default (Ain P) = queue_bytes 0 (tq_in s)"
    "cache_get_occupied_byte_default (Am P) = queue_bytes 0 (tq_am s)"
  using fifo_child.bytes [OF tq_params_RD(1) [OF assms]] lru_child.bytes [OF tq_params_RD(3) [OF assms]]
  by (simp_all add: child_ops)

lemma TwoQ_find_refines:
  assumes "TwoQ_R E W cf c s" and "req_obj_id req \<in> fst W"
  shows "\<exists>P p. TwoQ_find E c req True = Some (c\<lparr>eviction_params := P\<rparr>, p)
    \<and> (p \<noteq> NULL \<longleftrightarrow> req_obj_id req \<in> fst ` set (tq_in s) \<union> fst ` set (tq_am s))
    \<and> tq_params_R E W cf P (tq_find req s)"
proof -
  let ?i = "req_obj_id req" and ?P = "(eviction_params c)\<lparr>TwoQ_hit_on_ghost := False\<rparr>"
  have R: "tq_params_R E W cf (eviction_params c) s" using assms(1) by (simp add: TwoQ_R_def)
  note P = tq_params_RD [OF R]
  from fifo_child.look [OF P(1), of req] obtain p where
    f: "FIFO_find E None (Ain (eviction_params c)) req False = Some (Ain (eviction_params c), p)"
    "p \<noteq> NULL \<longleftrightarrow> ?i \<in> fst ` set (tq_in s)" by (auto simp: child_ops)
  show ?thesis
  proof (cases "?i \<in> fst ` set (tq_in s)")
    case True
    have "TwoQ_find E c req True = Some (c\<lparr>eviction_params := ?P\<rparr>, p)" using f True by (auto simp: TwoQ_find_def)
    moreover have "tq_params_R E W cf ?P (tq_find req s)"
      using True R by (simp add: tq_find_def tq_params_R_def)
    ultimately show ?thesis using f(2) True by blast
  next
    case False
    let ?out = "queue_delete ?i (tq_out s)" and ?b = "?i \<in> fst ` set (tq_out s)"
    let ?am = "if ?i \<in> fst ` set (tq_am s) then queue_promote ?i (tq_am s) else tq_am s"
    from fifo_child.remove [OF P(2), of ?i] obtain g where
      g: "FIFO_remove E (Aout (eviction_params c)) ?i = Some (g, ?b)" "child_R (FIFO_R basic_view E W) (out_size cf) g ?out"
      by (auto simp: child_ops)
    from lru_child.find [OF P(3) assms(2)] obtain m p' where
      m: "LRU_find E None (Am (eviction_params c)) req True = Some (m, p')" "p' \<noteq> NULL \<longleftrightarrow> ?i \<in> fst ` set (tq_am s)"
      "child_R (LRU_R E W) (am_size cf) m ?am" by (auto simp: child_ops)
    let ?Q = "(eviction_params c)\<lparr>TwoQ_hit_on_ghost := ?b, Aout := g, Am := m\<rparr>"
    have "TwoQ_find E c req True = Some (c\<lparr>eviction_params := ?Q\<rparr>, p')"
      using f False g(1) m(1) by (cases ?b) (simp_all add: TwoQ_find_def)
    moreover have "\<forall>e \<in> set ?am. 0 \<le> snd e" using P(8) by (auto simp: queue_promote_def queue_delete_def)
    then have "tq_params_R E W cf ?Q (tq_find req s)"
      using False g(2) m(3) P by (simp add: tq_find_def tq_params_R_def Let_def ball_Un)
    ultimately show ?thesis using m(2) False by auto
  qed
qed

lemma tq_find_props:
  "fst ` set (tq_in (tq_find req s)) \<union> fst ` set (tq_am (tq_find req s)) = fst ` set (tq_in s) \<union> fst ` set (tq_am s)"
  "queue_bytes 0 (tq_in (tq_find req s)) = queue_bytes 0 (tq_in s)" "queue_bytes 0 (tq_am (tq_find req s)) = queue_bytes 0 (tq_am s)"
  by (auto simp: tq_find_def Let_def)

lemma TwoQ_insert_refines:
  assumes "TwoQ_R E W cf c s" and "req_obj_id req \<in> fst W" and "0 \<le> req_obj_size req" and "req_obj_id req \<notin> fst ` set (tq_in s)"
  shows "\<exists>P p. TwoQ_insert E c req = Some (c\<lparr>eviction_params := P\<rparr>, p) \<and> tq_params_R E W cf P (tq_insert (pin E) cf req s)"
proof -
  have R: "tq_params_R E W cf (eviction_params c) s" using assms(1) by (simp add: TwoQ_R_def)
  note P = tq_params_RD [OF R]
  show ?thesis
  proof (cases "tq_ghost_hit s")
    case True
    from lru_child.get [OF P(3) assms(2)] obtain m hit where
      m: "LRU_get E None (Am (eviction_params c)) req = Some (m, hit)"
      "child_R (LRU_R E W) (am_size cf) m (fst (queue_get (pin E) True (am_size cf) 0 req (tq_am s)))"
      by (auto simp: LRU_get_def)
    have "TwoQ_insert E c req = Some (c\<lparr>eviction_params := (eviction_params c)\<lparr>TwoQ_hit_on_ghost := False, Am := m\<rparr>\<rparr>, NULL)"
      using True P(4) m(1) by (simp add: TwoQ_insert_def Let_def)
    moreover have "\<forall>e \<in> set (fst (queue_get (pin E) True (am_size cf) 0 req (tq_am s))). 0 \<le> snd e"
      using queue_get_keeps [of "pin E" True "am_size cf" 0 req "tq_am s"] P(8) assms(3) by auto
    ultimately show ?thesis using True R m(2) by (auto simp: tq_insert_def tq_params_R_def)
  next
    case False
    from fifo_child.insert [OF P(1) assms(2,4)] obtain q p where
      q: "FIFO_insert E (Ain (eviction_params c)) req = Some (q, p)"
      "child_R (FIFO_R basic_view E W) (in_size cf) q ((req_obj_id req, req_obj_size req) # tq_in s)" by (auto simp: child_ops)
    have "TwoQ_insert E c req = Some (c\<lparr>eviction_params := (eviction_params c)\<lparr>Ain := q\<rparr>\<rparr>, p)"
      using False P(4) q(1) by (simp add: TwoQ_insert_def Let_def)
    then show ?thesis using False R q(2) assms(3) by (auto simp: tq_insert_def tq_params_R_def)
  qed
qed

lemma tq_insert_props:
  assumes "\<forall>e \<in> set (tq_am s). 0 \<le> snd e" and "0 \<le> req_obj_size req"
  shows "fst ` set (tq_in (tq_insert pn cf req s)) \<union> fst ` set (tq_am (tq_insert pn cf req s))
      \<subseteq> insert (req_obj_id req) (fst ` set (tq_in s) \<union> fst ` set (tq_am s))"
    "queue_bytes 0 (tq_in (tq_insert pn cf req s)) + queue_bytes 0 (tq_am (tq_insert pn cf req s))
      \<le> queue_bytes 0 (tq_in s) + queue_bytes 0 (tq_am s) + req_obj_size req"
proof -
  let ?q = "fst (queue_get pn True (am_size cf) 0 req (tq_am s))"
  have "fst ` set ?q \<subseteq> insert (req_obj_id req) (fst ` set (tq_am s))"
    using image_mono [OF queue_get_keeps [of pn True "am_size cf" 0 req "tq_am s"], of fst] by simp
  then show "fst ` set (tq_in (tq_insert pn cf req s)) \<union> fst ` set (tq_am (tq_insert pn cf req s))
      \<subseteq> insert (req_obj_id req) (fst ` set (tq_in s) \<union> fst ` set (tq_am s))" by (auto simp: tq_insert_def)
  show "queue_bytes 0 (tq_in (tq_insert pn cf req s)) + queue_bytes 0 (tq_am (tq_insert pn cf req s))
      \<le> queue_bytes 0 (tq_in s) + queue_bytes 0 (tq_am s) + req_obj_size req"
    using queue_get_bytes [OF assms, of pn True "am_size cf"] by (simp add: tq_insert_def)
qed

lemma TwoQ_evict_refines:
  assumes "TwoQ_R E W cf c s" and "0 < queue_bytes 0 (tq_in s) + queue_bytes 0 (tq_am s)"
  shows "\<exists>P. TwoQ_evict E c req = Some (c\<lparr>eviction_params := P\<rparr>) \<and> tq_params_R E W cf P (tq_evict (pin E) cf s)
    \<and> length (tq_in (tq_evict (pin E) cf s)) + length (tq_am (tq_evict (pin E) cf s)) < length (tq_in s) + length (tq_am s)"
proof -
  have R: "tq_params_R E W cf (eviction_params c) s" using assms(1) by (simp add: TwoQ_R_def)
  note P = tq_params_RD [OF R] and bytes = TwoQ_bytes [OF R]
  show ?thesis
  proof (cases "queue_bytes 0 (tq_am s) > 0 \<and> queue_bytes 0 (tq_in s) \<le> in_size cf")
    case True
    then have ne: "tq_am s \<noteq> []" by auto
    let ?am = "queue_delete (fst (queue_victim (pin E) (tq_am s))) (tq_am s)"
    from lru_child.evict [OF P(3) ne, of req] obtain m where
      m: "LRU_evict E None (Am (eviction_params c)) req = Some m" "child_R (LRU_R E W) (am_size cf) m ?am"
      by (auto simp: child_ops)
    have "TwoQ_evict E c req = Some (c\<lparr>eviction_params := (eviction_params c)\<lparr>Am := m\<rparr>\<rparr>)"
      using True bytes P(5) m(1) by (simp add: TwoQ_evict_def Let_def)
    moreover have "tq_evict (pin E) cf s = s\<lparr>tq_am := ?am\<rparr>" using True by (simp add: tq_evict_def)
    ultimately show ?thesis using R m(2) queue_evict_shorter [OF ne, of "pin E"]
      by (auto simp: tq_params_R_def queue_delete_def)
  next
    case False
    have ne: "tq_in s \<noteq> []"
    proof
      assume "tq_in s = []"
      then show False using False assms(2) P(6) by simp
    qed
    from fifo_child.victim [OF P(1) ne, of req] obtain q a ob where
      v: "FIFO_to_evict E (Ain (eviction_params c)) req = Some (q, Some a)" "store q a = Some ob"
      "child_R (FIFO_R basic_view E W) (in_size cf) q (tq_in s)" "queue_victim (pin E) (tq_in s) = basic_view ob"
      by (auto simp: child_ops)
    let ?r = "copy_cache_obj_to_request (TwoQ_req_local (eviction_params c)) ob"
    let ?r' = "new_request\<lparr>req_obj_id := obj_id ob, req_obj_size := obj_size ob\<rparr>"
    have "basic_view ob \<in> set (tq_in s)" using queue_victim_mem [OF ne, of "pin E"] v(4) by simp
    then have "obj_id ob \<in> fst ` set (tq_in s)" by (force simp: basic_view_def)
    moreover have "FIFO_R basic_view E W (Ain (eviction_params c)) (tq_in s)" using P(1) by (simp add: child_R_def)
    ultimately have "req_obj_id ?r \<in> fst W" by (intro fifo_child.child_ids [where req = ?r]) simp_all
    from fifo_child.get [OF P(2) this] obtain g hit where
      g: "FIFO_get E None (Aout (eviction_params c)) ?r = Some (g, hit)"
      "child_R (FIFO_R basic_view E W) (out_size cf) g (fst (queue_get (pin E) False (out_size cf) 0 ?r (tq_out s)))"
      by (auto simp: FIFO_get_def)
    have qg: "queue_get (pin E) False (out_size cf) 0 ?r (tq_out s) = queue_get (pin E) False (out_size cf) 0 ?r' (tq_out s)"
      by (rule queue_get_fields) simp_all
    from fifo_child.evict [OF v(3) ne, of req] obtain q' where
      e: "FIFO_evict E None q req = Some q'"
      "child_R (FIFO_R basic_view E W) (in_size cf) q' (queue_delete (obj_id ob) (tq_in s))"
      unfolding v(4) by (auto simp: child_ops basic_view_def)
    let ?Q = "(eviction_params c)\<lparr>Ain := q', Aout := g, TwoQ_req_local := ?r\<rparr>"
    have "TwoQ_evict E c req = Some (c\<lparr>eviction_params := ?Q\<rparr>)"
      using False bytes P(5) v(1,2) g(1) e(1) by (auto simp: TwoQ_evict_def Let_def)
    moreover have ev: "tq_evict (pin E) cf s = s\<lparr>tq_in := queue_delete (obj_id ob) (tq_in s),
        tq_out := fst (queue_get (pin E) False (out_size cf) 0 ?r' (tq_out s))\<rparr>"
      unfolding tq_evict_def v(4) using False by (auto simp: basic_view_def)
    moreover have "length (queue_delete (obj_id ob) (tq_in s)) < length (tq_in s)"
      using queue_evict_shorter [OF ne, of "pin E"] v(4) by (simp add: basic_view_def)
    ultimately show ?thesis using R g(2) e(2) unfolding ev qg by (auto simp: tq_params_R_def queue_delete_def)
  qed
qed

interpretation twoq: simulated_policy "TwoQ_ops E" "TwoQ_R E W cf" "tq_machine (pin E) cf"
  "\<lambda>req. req_obj_id req \<in> fst W \<and> 0 \<le> req_obj_size req" "\<lambda>s. length (tq_in s) + length (tq_am s)" for E W cf
proof (standard, goal_cases)
  case (2 c s)
  then have "tq_params_R E W cf (eviction_params c) s" by (simp add: TwoQ_R_def)
  from TwoQ_bytes [OF this] show ?case by (simp add: TwoQ_ops_def TwoQ_get_occupied_byte_def)
next
  case (3 c s req)
  from TwoQ_find_refines [OF 3(1), of req] 3(2) obtain P p where
    "TwoQ_find E c req True = Some (c\<lparr>eviction_params := P\<rparr>, p)"
    "p \<noteq> NULL \<longleftrightarrow> req_obj_id req \<in> fst ` set (tq_in s) \<union> fst ` set (tq_am s)" "tq_params_R E W cf P (tq_find req s)" by blast
  then show ?case using 3(1) tq_find_props [of req s] by (auto simp: TwoQ_ops_def TwoQ_R_def same_limits_def)
next
  case (4 c s req)
  then have "cache_size (Ain (eviction_params c)) = in_size cf" by (auto simp: TwoQ_R_def tq_params_R_def child_R_def)
  with 4 show ?case by (auto simp: TwoQ_ops_def TwoQ_can_insert_def cache_can_insert_default_def TwoQ_R_def)
next
  case (6 c s req)
  have ids: "fst ` set (tq_in (tq_evict (pin E) cf s)) \<union> fst ` set (tq_am (tq_evict (pin E) cf s))
      \<subseteq> fst ` set (tq_in s) \<union> fst ` set (tq_am s)"
    by (auto simp: tq_evict_def queue_delete_def split: prod.split)
  with 6 TwoQ_evict_refines [OF 6(1), of req] show ?case by (auto simp: TwoQ_ops_def TwoQ_R_def same_limits_def)
next
  case (7 c s req s1)
  have "\<forall>e \<in> set (tq_am s). 0 \<le> snd e" using 7(1) by (auto simp: TwoQ_R_def tq_params_R_def)
  from tq_insert_props [OF this, of req "pin E" cf] TwoQ_insert_refines [OF 7(1), of req] 7 show ?case
    by (auto simp: TwoQ_ops_def TwoQ_R_def same_limits_def)
qed (auto simp: TwoQ_R_def)

section \<open>Initialisation\<close>

definition tq_conf_of :: "('a, 'f) twoq_cache \<Rightarrow> twoq_conf" where
  "tq_conf_of c = (let P = eviction_params c in
     \<lparr>in_size = cache_size (Ain P), out_size = cache_size (Aout P), am_size = cache_size (Am P)\<rparr>)"

definition tq_empty :: twoq where
  "tq_empty = \<lparr>tq_in = [], tq_out = [], tq_am = [], tq_ghost_hit = False\<rparr>"

lemma TwoQ_init_R:
  assumes "TwoQ_init pf0 p sp = Some (c :: ('a, 'f) twoq_cache)" and "spread E W" and "\<not> support_ttl E" and "0 < ccp_hashpower p"
    and "ccp_hashpower p < 40" and "int (snd W) \<le> ccp_hashpower p" and "\<not> ccp_consider_obj_metadata p"
    and "0 \<le> cache_size (Ain (eviction_params c))"
  shows "TwoQ_R E W (tq_conf_of c) c tq_empty" "admissioner c = None" "cache_size c = ccp_cache_size p" "obj_md_size c = 0"
proof -
  let ?n = "scale_int (ccp_cache_size p)"
  from assms(1) obtain ain aout where
    P: "eviction_params c = \<lparr>Ain = FIFO_init pf0 (p\<lparr>ccp_cache_size := ?n ain\<rparr>) None,
        Aout = FIFO_init pf0 (p\<lparr>ccp_cache_size := ?n aout\<rparr>) None,
        Am = LRU_init pf0 (p\<lparr>ccp_cache_size := ccp_cache_size p - ?n ain\<rparr>) None,
        TwoQ_hit_on_ghost = False, Ain_cache_size = ?n ain, Aout_cache_size = ?n aout,
        Am_cache_size = ccp_cache_size p - ?n ain, Ain_size_ratio = ain, Aout_size_ratio = aout,
        TwoQ_req_local = new_request\<rparr>"
    and c: "cache_size c = ccp_cache_size p" "obj_md_size c = 0" "admissioner c = None"
    by (auto simp: TwoQ_init_def Let_def elim!: bind_SomeE split del: if_split)
  have f: "child_R (FIFO_R basic_view E W) n (FIFO_init pf0 (p\<lparr>ccp_cache_size := n\<rparr>) None :: ('a, 'f, FIFO_params_t) cache_t) []" for n
    using fifo_child_init [of E W "p\<lparr>ccp_cache_size := n\<rparr>" pf0] assms(2-6) by simp
  have l: "child_R (LRU_R E W) n (LRU_init pf0 (p\<lparr>ccp_cache_size := n\<rparr>) None :: ('a, 'f, LRU_params_t) cache_t) []" for n
    using lru_child_init [of E W "p\<lparr>ccp_cache_size := n\<rparr>" pf0] assms(2-7) by simp
  have cf: "tq_conf_of c = \<lparr>in_size = ?n ain, out_size = ?n aout, am_size = ccp_cache_size p - ?n ain\<rparr>"
    by (simp add: tq_conf_of_def P)
  show "TwoQ_R E W (tq_conf_of c) c tq_empty"
    using f l assms(8) by (simp add: TwoQ_R_def tq_params_R_def cf tq_empty_def P c)
  show "admissioner c = None" "cache_size c = ccp_cache_size p" "obj_md_size c = 0" by (rule c)+
qed

section \<open>Properties\<close>

text \<open>
  C13: a 2Q cache behaves, on every trace from its initialisation and for every setting of its
  parameters, like three lists: new objects enter the first, the objects that leave it are remembered
  in the second, and an object that comes back while it is remembered enters the third, in which a
  hit moves an object to the front.  The third list gives way as long as the first is within its
  share.  The code returns for every request, its hits are those of the lists, and the bytes of the
  first and the third list never exceed the size of the cache.  The metadata is not charged; the
  share of the first list is not negative.
\<close>

theorem TwoQ_serve_refines:
  assumes "TwoQ_init pf0 p sp = Some c0" and "spread E W" and "\<not> support_ttl E" and "0 < ccp_hashpower p"
    and "ccp_hashpower p < 40" and "int (snd W) \<le> ccp_hashpower p" and "\<not> ccp_consider_obj_metadata p"
    and "0 \<le> cache_size (Ain (eviction_params c0))" and "0 \<le> ccp_cache_size p"
    and "\<forall>req \<in> set reqs. req_obj_id req \<in> fst W \<and> 0 \<le> req_obj_size req"
  shows "\<exists>c s hits. serve (TwoQ_ops E) None c0 reqs = Some (c, hits)
    \<and> sim_serve (tq_machine (pin E) (tq_conf_of c0)) (ccp_cache_size p) tq_empty reqs = Some (s, hits)
    \<and> tq_params_R E W (tq_conf_of c0) (eviction_params c) s \<and> TwoQ_get_occupied_byte c \<le> ccp_cache_size p"
proof -
  note i = TwoQ_init_R [OF assms(1-8)]
  have "s_bytes (tq_machine (pin E) (tq_conf_of c0)) tq_empty \<le> cache_size c0"
    using assms(9) i(3) by (simp add: tq_empty_def)
  from twoq.serve_simulates [OF i(1) assms(10) i(2) this] i(3,4) show ?thesis
    by (auto simp: TwoQ_R_def TwoQ_ops_def)
qed

lemma TwoQ_sample:
  obtains c0 :: "(unit, unit) twoq_cache" where "TwoQ_init () (sample_params 4) None = Some c0"
    "tq_conf_of c0 = \<lparr>in_size = 1, out_size = 2, am_size = 3\<rparr>" "cache_size (Ain (eviction_params c0)) = 1"
proof -
  have parse: "TwoQ_parse_params (0, 0) (Some TwoQ_DEFAULT_CACHE_PARAMS) = Some (1 / 4, 1 / 2)" by code_simp
  have sizes: "scale_int 4 (1 / 4) = 1" "scale_int 4 (1 / 2) = 2" by code_simp+
  show ?thesis using that parse sizes by (simp add: TwoQ_init_def tq_conf_of_def Let_def)
qed

text \<open>The object 1 is pushed out of the first list, comes back into the third and is hit there.\<close>

theorem TwoQ_serve_refines_witness:
  "\<exists>(c0 :: (unit, unit) twoq_cache) c. TwoQ_init () (sample_params 4) None = Some c0
     \<and> serve (TwoQ_ops sample_env) None c0 [sample_req 1 1, sample_req 2 1, sample_req 3 1, sample_req 4 1,
         sample_req 1 4, sample_req 5 1, sample_req 1 1, sample_req 1 1, sample_req 2 1]
       = Some (c, [False, False, False, False, True, False, False, True, False])
     \<and> tq_params_R sample_env ({1, 2, 3, 4, 5}, 2) \<lparr>in_size = 1, out_size = 2, am_size = 3\<rparr> (eviction_params c)
         \<lparr>tq_in = [(5, 1), (4, 1)], tq_out = [(3, 1)], tq_am = [(2, 1), (1, 1)], tq_ghost_hit = False\<rparr>"
proof -
  let ?reqs = "[sample_req 1 1, sample_req 2 1, sample_req 3 1, sample_req 4 1,
         sample_req 1 4, sample_req 5 1, sample_req 1 1, sample_req 1 1, sample_req 2 1]"
  obtain c0 :: "(unit, unit) twoq_cache" where c0: "TwoQ_init () (sample_params 4) None = Some c0"
    "tq_conf_of c0 = \<lparr>in_size = 1, out_size = 2, am_size = 3\<rparr>" "cache_size (Ain (eviction_params c0)) = 1"
    by (rule TwoQ_sample)
  have "sim_serve (tq_machine None (tq_conf_of c0)) 4 tq_empty ?reqs
      = Some (\<lparr>tq_in = [(5, 1), (4, 1)], tq_out = [(3, 1)], tq_am = [(2, 1), (1, 1)], tq_ghost_hit = False\<rparr>,
          [False, False, False, False, True, False, False, True, False])"
    unfolding c0(2)
    by (simp add: sim_get_def sim_evict.simps tq_find_def tq_insert_def tq_evict_def tq_empty_def queue_get_def
        queue_trim.simps queue_delete_def queue_promote_def Let_def)
  moreover have "spread sample_env ({1, 2, 3, 4, 5}, 2)" by (rule spread_small; simp add: card_insert_if)
  ultimately show ?thesis using TwoQ_serve_refines [OF c0(1), of sample_env "({1, 2, 3, 4, 5}, 2)" ?reqs] c0
    by (auto simp del: serve.simps sim_serve.simps)
qed

end
