(* ===== verification/Clock.thy ===== *)
theory Clock
  imports Queue_Refine Params
begin

text \<open>
  The Clock cache with an n-bit counter (\<open>cache/eviction/Clock.c\<close>).  The abstract state is the
  queue of the ids with their sizes and counters.  The eviction is a loop over the tail of the
  queue; \<open>clock_sweep\<close> is the function that it computes, which ends because every round takes one
  from a counter.
\<close>

section \<open>Model\<close>

record Clock_params_t =
  Clock_q_head :: ptr
  Clock_q_tail :: ptr
  n_bit_counter :: int
  max_freq :: int
  init_freq :: int
  n_obj_rewritten :: int
  n_byte_rewritten :: int

subsection \<open>Parameters\<close>

definition Clock_current_params :: "Clock_params_t \<Rightarrow> string" where
  "Clock_current_params params = ''n-bit-counter='' @ show_int (n_bit_counter params) @ [CHR 0x0A]"

text \<open>
  \<open>(1 << n) - 1\<close> in \<open>int\<close> is defined for \<open>n\<close> below 31.  An unknown key, a malformed number and the
  key \<open>print\<close> end the program.
\<close>

function Clock_parse_params :: "Clock_params_t \<Rightarrow> string option \<Rightarrow> Clock_params_t option" where
  "Clock_parse_params params s =
    (case s of None \<Rightarrow> Some params
     | Some s \<Rightarrow> if s = [] then Some params
         else (let (key, val, rest) = next_param s
               in if strcasecmp_eq key ''n-bit-counter'' then do {
                    n \<leftarrow> int_param val;
                    if 0 \<le> n \<and> n < 31 then
                      Clock_parse_params (params\<lparr>n_bit_counter := n, max_freq := 2 ^ nat n - 1\<rparr>) rest
                    else None }
                  else if strcasecmp_eq key ''init-freq'' then do {
                    n \<leftarrow> int_param val;
                    Clock_parse_params (params\<lparr>init_freq := n\<rparr>) rest }
                  else None))"
  by pat_completeness auto
termination
proof (relation "measure (\<lambda>(params, s). case s of None \<Rightarrow> 0 | Some s \<Rightarrow> Suc (length s))", goal_cases)
  case 1
  then show ?case by simp
qed (auto split: option.split dest: next_param_shorter [OF sym])

declare Clock_parse_params.simps [simp del]

definition Clock_DEFAULT_PARAMS :: string where
  "Clock_DEFAULT_PARAMS = ''init-freq=0,n-bit-counter=1''"

definition Clock_init ::
    "'f \<Rightarrow> common_cache_params_t \<Rightarrow> string option \<Rightarrow> ('a, 'f, Clock_params_t) cache_t option" where
  "Clock_init pf0 ccache_params cache_specific_params = do {
     let params = \<lparr>Clock_q_head = NULL, Clock_q_tail = NULL, n_bit_counter = 1, max_freq = 1,
       init_freq = 0, n_obj_rewritten = 0, n_byte_rewritten = 0\<rparr>;
     params \<leftarrow> Clock_parse_params params (Some Clock_DEFAULT_PARAMS);
     params \<leftarrow> (if cache_specific_params \<noteq> None
                then Clock_parse_params params cache_specific_params else Some params);
     let cache = (cache_struct_init ''Clock'' ccache_params cache_specific_params pf0 params)
       \<lparr>obj_md_size := 0\<rparr>;
     Some (if n_bit_counter params \<noteq> 1
           then cache\<lparr>cache_name := take 63 (''Clock-'' @ show_int (n_bit_counter params) @ ''-''
                  @ show_int (init_freq params))\<rparr>
           else cache) }"

subsection \<open>Operations\<close>

definition Clock_insert ::
    "env \<Rightarrow> ('a, 'f, Clock_params_t) cache_t \<Rightarrow> request \<Rightarrow>
     (('a, 'f, Clock_params_t) cache_t \<times> ptr) option" where
  "Clock_insert E c req = do {
     (c, obj) \<leftarrow> cache_insert_base E c req;
     let params = eviction_params c;
     (h, qh, qt) \<leftarrow> prepend_obj_to_head (store c) (Clock_q_head params) (Clock_q_tail params) obj;
     h \<leftarrow> upd_obj h obj (\<lambda>ob. ob\<lparr>clock_freq := init_freq params\<rparr>);
     Some (c\<lparr>store := h, eviction_params := params\<lparr>Clock_q_head := qh, Clock_q_tail := qt\<rparr>\<rparr>, obj) }"

text \<open>The search of \<open>Clock_to_evict\<close>: it goes round the queue without changing the counters.\<close>

partial_function (option) Clock_to_evict_loop :: "heap \<Rightarrow> ptr \<Rightarrow> ptr \<Rightarrow> int \<Rightarrow> ptr option" where
  "Clock_to_evict_loop h q_tail obj_to_evict n_round =
    Option.bind (deref h obj_to_evict) (\<lambda>ob.
      if clock_freq ob - n_round \<ge> 1 then
        (if q_prev ob = NULL then Clock_to_evict_loop h q_tail q_tail (n_round + 1)
         else Clock_to_evict_loop h q_tail (q_prev ob) n_round)
      else Some obj_to_evict)"

definition Clock_to_evict ::
    "('a, 'f, Clock_params_t) cache_t \<Rightarrow> request \<Rightarrow> (('a, 'f, Clock_params_t) cache_t \<times> ptr) option" where
  "Clock_to_evict c req = map_option (Pair c)
     (Clock_to_evict_loop (store c) (Clock_q_tail (eviction_params c))
       (Clock_q_tail (eviction_params c)) 0)"

partial_function (option) Clock_evict_loop ::
    "env \<Rightarrow> heap \<Rightarrow> Clock_params_t \<Rightarrow> ptr \<Rightarrow> (heap \<times> Clock_params_t \<times> ptr) option" where
  "Clock_evict_loop E h params obj_to_evict =
    Option.bind (deref h obj_to_evict) (\<lambda>ob.
      if clock_freq ob \<ge> 1 then
        Option.bind (upd_obj h obj_to_evict (\<lambda>ob. ob\<lparr>clock_freq := clock_freq ob - 1\<rparr>)) (\<lambda>h.
        let params = params\<lparr>n_obj_rewritten := n_obj_rewritten params + 1,
              n_byte_rewritten := n_byte_rewritten params + obj_size ob\<rparr> in
        Option.bind (move_obj_to_head h (Clock_q_head params) (Clock_q_tail params) obj_to_evict)
          (\<lambda>(h, qh, qt).
        let params = params\<lparr>Clock_q_head := qh, Clock_q_tail := qt\<rparr> in
        Option.bind (cache_skip_pinned (pin E) h qt) (\<lambda>obj_to_evict.
        Clock_evict_loop E h params obj_to_evict)))
      else Some (h, params, obj_to_evict))"

definition Clock_evict ::
    "env \<Rightarrow> ('a, 'f, Clock_params_t) cache_t prefetcher_t option \<Rightarrow>
     ('a, 'f, Clock_params_t) cache_t \<Rightarrow> request \<Rightarrow> ('a, 'f, Clock_params_t) cache_t option" where
  "Clock_evict E pf c req = do {
     obj_to_evict \<leftarrow> cache_skip_pinned (pin E) (store c) (Clock_q_tail (eviction_params c));
     (h, params, obj_to_evict) \<leftarrow> Clock_evict_loop E (store c) (eviction_params c) obj_to_evict;
     (h, qh, qt) \<leftarrow> remove_obj_from_list h (Clock_q_head params) (Clock_q_tail params) obj_to_evict;
     cache_evict_base E pf
       (c\<lparr>store := h, eviction_params := params\<lparr>Clock_q_head := qh, Clock_q_tail := qt\<rparr>\<rparr>)
       obj_to_evict True }"

definition Clock_remove_obj ::
    "env \<Rightarrow> ('a, 'f, Clock_params_t) cache_t \<Rightarrow> ptr \<Rightarrow> ('a, 'f, Clock_params_t) cache_t option" where
  "Clock_remove_obj E c obj = do {
     let params = eviction_params c;
     (h, qh, qt) \<leftarrow> remove_obj_from_list (store c) (Clock_q_head params) (Clock_q_tail params) obj;
     cache_remove_obj_base E
       (c\<lparr>store := h, eviction_params := params\<lparr>Clock_q_head := qh, Clock_q_tail := qt\<rparr>\<rparr>) obj True }"

definition Clock_remove ::
    "env \<Rightarrow> ('a, 'f, Clock_params_t) cache_t \<Rightarrow> obj_id_t \<Rightarrow>
     (('a, 'f, Clock_params_t) cache_t \<times> bool) option" where
  "Clock_remove E c i = do {
     obj \<leftarrow> chained_hashtable_find_obj_id_v2 E (store c) (hashtable c) i;
     if obj = NULL then Some (c, False)
     else do {
       c \<leftarrow> Clock_remove_obj E c obj;
       Some (c, True) } }"

definition Clock_find ::
    "env \<Rightarrow> ('a, 'f, Clock_params_t) cache_t prefetcher_t option \<Rightarrow> ('a, 'f, Clock_params_t) cache_t \<Rightarrow>
     request \<Rightarrow> bool \<Rightarrow> (('a, 'f, Clock_params_t) cache_t \<times> ptr) option" where
  "Clock_find E pf c req update_cache = do {
     (c, obj) \<leftarrow> cache_find_base E pf (Clock_remove E) c req update_cache;
     if obj \<noteq> NULL \<and> update_cache then do {
       ob \<leftarrow> deref (store c) obj;
       h \<leftarrow> (if clock_freq ob < max_freq (eviction_params c)
             then upd_obj (store c) obj (\<lambda>ob. ob\<lparr>clock_freq := clock_freq ob + 1\<rparr>)
             else Some (store c));
       Some (c\<lparr>store := h\<rparr>, obj) }
     else Some (c, obj) }"

definition Clock_ops ::
    "env \<Rightarrow> ('a, 'f, Clock_params_t) cache_t prefetcher_t option \<Rightarrow>
     ('a, 'f, Clock_params_t) cache_t cache_ops" where
  "Clock_ops E pf = \<lparr>op_find = Clock_find E pf, op_can_insert = cache_can_insert_default,
     op_insert = Clock_insert E, op_evict = Clock_evict E pf, op_remove = Clock_remove E,
     op_to_evict = Clock_to_evict, op_get_occupied_byte = cache_get_occupied_byte_default,
     op_get_n_obj = cache_get_n_obj_default\<rparr>"

definition Clock_get ::
    "env \<Rightarrow> ('a, 'f, Clock_params_t) cache_t prefetcher_t option \<Rightarrow> ('a, 'f, Clock_params_t) cache_t \<Rightarrow>
     request \<Rightarrow> (('a, 'f, Clock_params_t) cache_t \<times> bool) option" where
  "Clock_get E pf c req = cache_get_base (Clock_ops E pf) pf c req"

section \<open>The abstract clock\<close>

definition clock_view :: "cache_obj \<Rightarrow> obj_id_t \<times> int \<times> int" where
  "clock_view ob = (obj_id ob, obj_size ob, clock_freq ob)"

interpretation clock: object_view clock_view fst
  by unfold_locales (simp_all add: clock_view_def touched_def)

lemma sum_list_delete:
  assumes "e \<in> set es"
  shows "sum_list (map f (queue_delete (fst e) es)) + f e \<le> (sum_list (map f es) :: nat)"
  using assms
proof (induction es)
  case (Cons d es)
  show ?case
  proof (cases "d = e")
    case True
    have "sum_list (map f (queue_delete (fst e) es)) \<le> sum_list (map f es)"
      by (induction es) (auto simp: queue_delete_def)
    with True show ?thesis by (simp add: queue_delete_def)
  next
    case False
    with Cons show ?thesis by (auto simp: queue_delete_def)
  qed
qed simp

abbreviation clock_weight :: "(int \<times> int) queue \<Rightarrow> nat" where
  "clock_weight es \<equiv> sum_list (map (\<lambda>e. nat (snd (snd e))) es)"

text \<open>
  The eviction: while the victim's counter is positive, take one from it and move the object to
  the front; then drop the victim.
\<close>

function clock_sweep :: "pin_pred \<Rightarrow> (int \<times> int) queue \<Rightarrow> (int \<times> int) queue" where
  "clock_sweep pn es =
    (let e = queue_victim pn es
     in if es \<noteq> [] \<and> snd (snd e) \<ge> 1
        then clock_sweep pn ((fst e, fst (snd e), snd (snd e) - 1) # queue_delete (fst e) es)
        else queue_delete (fst e) es)"
  by pat_completeness auto
termination
proof (relation "measure (\<lambda>(pn, es). clock_weight es)", goal_cases)
  case (2 pn es e)
  then have "clock_weight (queue_delete (fst e) es) + nat (snd (snd e)) \<le> clock_weight es"
    using sum_list_delete [OF queue_victim_mem, of es "\<lambda>e. nat (snd (snd e))" pn] by simp
  moreover have "nat (snd (snd e) - 1) < nat (snd (snd e))" using 2 by auto
  ultimately show ?case by simp
qed simp

declare clock_sweep.simps [simp del]

lemma clock_sweep_ids: "es \<noteq> [] \<Longrightarrow> fst ` set (clock_sweep pn es) \<subset> fst ` set es"
proof (induction pn es rule: clock_sweep.induct)
  case (1 pn es)
  let ?e = "queue_victim pn es"
  have mem: "fst ?e \<in> fst ` set es" using queue_victim_mem [OF 1(2)] by simp
  show ?case
  proof (cases "snd (snd ?e) \<ge> 1")
    case True
    let ?es = "(fst ?e, fst (snd ?e), snd (snd ?e) - 1) # queue_delete (fst ?e) es"
    have "fst ` set ?es = fst ` set es" using mem by auto
    with 1(1) [OF refl] True 1(2) show ?thesis by (subst clock_sweep.simps) (simp add: Let_def)
  next
    case False
    then show ?thesis using mem by (subst clock_sweep.simps) (auto simp: Let_def)
  qed
qed

definition clock_hit :: "int \<Rightarrow> obj_id_t \<Rightarrow> (int \<times> int) queue \<Rightarrow> (int \<times> int) queue" where
  "clock_hit mf i es = map (\<lambda>e. if fst e = i
     then (i, fst (snd e), if snd (snd e) < mf then snd (snd e) + 1 else snd (snd e)) else e) es"

lemma clock_hit_simps [simp]:
  "fst ` set (clock_hit mf i es) = fst ` set es" "view_bytes fst md (clock_hit mf i es) = view_bytes fst md es"
  by (induction es) (auto simp: clock_hit_def)

text \<open>The range of the counters, which every step keeps.\<close>

definition clock_bounded :: "int \<Rightarrow> int \<Rightarrow> (int \<times> int) queue \<Rightarrow> bool" where
  "clock_bounded mf fi es \<longleftrightarrow> (\<forall>e \<in> set es. min 0 fi \<le> snd (snd e) \<and> snd (snd e) \<le> max mf fi)"

lemma clock_bounded_delete: "clock_bounded mf fi es \<Longrightarrow> clock_bounded mf fi (queue_delete i es)"
  by (simp add: clock_bounded_def queue_delete_def)

lemma clock_bounded_hit: "clock_bounded mf fi es \<Longrightarrow> clock_bounded mf fi (clock_hit mf i es)"
  by (fastforce simp: clock_bounded_def clock_hit_def)

lemma clock_bounded_victim:
  assumes "clock_bounded mf fi es" and "e \<in> set es" and "snd (snd e) \<ge> 1"
  shows "clock_bounded mf fi ((fst e, fst (snd e), snd (snd e) - 1) # queue_delete (fst e) es)"
  using assms clock_bounded_delete [OF assms(1), of "fst e"] by (fastforce simp: clock_bounded_def)

lemma clock_bounded_insert:
  "clock_bounded mf fi es \<Longrightarrow> clock_bounded mf fi ((i, n, fi) # es)"
  by (simp add: clock_bounded_def)

definition clock_machine :: "pin_pred \<Rightarrow> int \<Rightarrow> int \<Rightarrow> (int \<times> int) queue machine" where
  "clock_machine pn mf fi = \<lparr>m_ids = \<lambda>es. fst ` set es, m_bytes = view_bytes fst,
     m_hit = \<lambda>req. clock_hit mf (req_obj_id req), m_evict = clock_sweep pn,
     m_insert = \<lambda>req es. (req_obj_id req, req_obj_size req, fi) # es\<rparr>"

section \<open>Refinement\<close>

definition Clock_R ::
    "env \<Rightarrow> trace_ids \<Rightarrow> int \<Rightarrow> int \<Rightarrow> ('a, 'f, Clock_params_t) cache_t \<Rightarrow> (int \<times> int) queue \<Rightarrow> bool" where
  "Clock_R E W mf fi c es \<longleftrightarrow> max_freq (eviction_params c) = mf \<and> init_freq (eviction_params c) = fi
     \<and> clock_bounded mf fi es
     \<and> queue_R clock_view E W c (Clock_q_head (eviction_params c)) (Clock_q_tail (eviction_params c)) es"

lemma Clock_find_refines:
  assumes "Clock_R E W mf fi c es"
  shows "\<exists>c' p. Clock_find E None c req True = Some (c', p) \<and> same_limits c c'
    \<and> admissioner c' = admissioner c
    \<and> (if req_obj_id req \<in> fst ` set es then p \<noteq> NULL \<and> Clock_R E W mf fi c' (clock_hit mf (req_obj_id req) es)
       else p = NULL \<and> Clock_R E W mf fi c' es)"
proof (cases "req_obj_id req \<in> fst ` set es")
  case False
  with assms clock.queue_find(1) [of E W c _ _ es req] show ?thesis
    by (auto simp: Clock_R_def Clock_find_def)
next
  case True
  let ?qh = "Clock_q_head (eviction_params c)" and ?qt = "Clock_q_tail (eviction_params c)"
  from assms have R: "queue_R clock_view E W c ?qh ?qt es" by (simp add: Clock_R_def)
  from clock.queue_find(2) [OF R True, of "Clock_remove E" True] obtain a h ob where
    f: "cache_find_base E None (Clock_remove E) c req True = Some (c\<lparr>store := h\<rparr>, Some a)"
    "queue_R clock_view E W (c\<lparr>store := h\<rparr>) ?qh ?qt es" "h a = Some ob" "obj_id ob = req_obj_id req"
    by blast
  have "store (c\<lparr>store := h\<rparr>) a = Some ob" using f(3) by simp
  from clock.queue_R_entry_split [OF f(2) this] obtain us vs where
    x: "es = us @ clock_view ob # vs" "distinct (map fst es)" .
  let ?n = "if clock_freq ob < mf then clock_freq ob + 1 else clock_freq ob"
  let ?ob = "ob\<lparr>clock_freq := ?n\<rparr>"
  have "map (\<lambda>e. if fst e = obj_id ob then clock_view ?ob else e) es = clock_hit mf (req_obj_id req) es"
    unfolding clock_hit_def x(1)
    using queue_map_split [OF x(2) [unfolded x(1)]] f(4) by (simp add: clock_view_def)
  with clock.queue_R_update [OF f(2), of a ob ?ob] f(3)
  have "queue_R clock_view E W (c\<lparr>store := h(a \<mapsto> ?ob)\<rparr>) ?qh ?qt (clock_hit mf (req_obj_id req) es)"
    by (simp add: core_def)
  moreover have "Clock_find E None c req True = Some (c\<lparr>store := h(a \<mapsto> ?ob)\<rparr>, Some a)"
    using f assms by (auto simp: Clock_find_def Clock_R_def map_upd_triv)
  ultimately show ?thesis using True assms by (simp add: Clock_R_def clock_bounded_hit)
qed

lemma Clock_insert_refines:
  assumes "Clock_R E W mf fi c es" and "req_obj_id req \<in> fst W" and "req_obj_id req \<notin> fst ` set es"
  shows "\<exists>c'. Clock_insert E c req = Some (c', Some (brk c)) \<and> same_limits c c'
    \<and> admissioner c' = admissioner c
    \<and> Clock_R E W mf fi c' ((req_obj_id req, req_obj_size req, fi) # es)"
proof -
  let ?qh = "Clock_q_head (eviction_params c)" and ?qt = "Clock_q_tail (eviction_params c)"
  from assms(1) have R: "queue_R clock_view E W c ?qh ?qt es" by (simp add: Clock_R_def)
  from clock.queue_insert [OF R assms(2,3)] obtain h ht h' qh qt ob where
    i: "cache_insert_base E c req = Some (grown c h ht (req_obj_size req), Some (brk c))"
    "prepend_obj_to_head h ?qh ?qt (Some (brk c)) = Some (h', qh, qt)"
    "queue_R clock_view E W (grown c h' ht (req_obj_size req)) qh qt
       (clock_view (inserted_obj E c req) # es)"
    "h' (brk c) = Some ob" "payload ob = inserted_obj E c req" by blast
  let ?c = "grown c h' ht (req_obj_size req)" and ?ob = "ob\<lparr>clock_freq := fi\<rparr>"
  let ?p = "(eviction_params c)\<lparr>Clock_q_head := qh, Clock_q_tail := qt\<rparr>"
  have id: "obj_id ob = req_obj_id req" "obj_size ob = req_obj_size req"
    using arg_cong [OF i(5), of obj_id] arg_cong [OF i(5), of obj_size] by simp_all
  have "\<forall>e \<in> set es. fst e \<noteq> obj_id ob" using assms(3) id by force
  then have "map (\<lambda>e. if fst e = obj_id ob then clock_view ?ob else e)
      (clock_view (inserted_obj E c req) # es) = (req_obj_id req, req_obj_size req, fi) # es"
    using id by (auto simp: clock_view_def intro!: map_idI)
  with clock.queue_R_update [OF i(3), of "brk c" ob ?ob] i(4)
  have "queue_R clock_view E W (?c\<lparr>store := h'(brk c \<mapsto> ?ob), eviction_params := ?p\<rparr>) qh qt
      ((req_obj_id req, req_obj_size req, fi) # es)" by (simp add: core_def)
  moreover have "Clock_insert E c req
      = Some (?c\<lparr>store := h'(brk c \<mapsto> ?ob), eviction_params := ?p\<rparr>, Some (brk c))"
    using i assms(1) by (simp add: Clock_insert_def Clock_R_def)
  ultimately show ?thesis using assms(1)
    by (auto simp: Clock_R_def same_limits_def clock_bounded_insert)
qed

lemma queue_promote_map:
  assumes "distinct (map fst (us @ e # vs))" and "fst e' = fst e"
  shows "queue_promote (fst e) (map (\<lambda>d. if fst d = fst e then e' else d) (us @ e # vs))
    = e' # queue_delete (fst e) (us @ e # vs)"
proof -
  have "distinct (map fst (us @ e' # vs))" using assms by simp
  from queue_promote_split [OF this] queue_map_split [OF assms(1), of "\<lambda>_. e'"]
    queue_delete_split [OF assms(1)] assms(2) show ?thesis by simp
qed

text \<open>The loop of the eviction ends on the object that the abstract sweep drops.\<close>

lemma Clock_evict_loop_refines:
  assumes "Clock_R E W mf fi c es" and "es \<noteq> []"
    and "cache_skip_pinned (pin E) (store c) (Clock_q_tail (eviction_params c)) = Some p"
  shows "\<exists>h params a ob es'. Clock_evict_loop E (store c) (eviction_params c) p = Some (h, params, Some a)
    \<and> h a = Some ob \<and> Clock_R E W mf fi (c\<lparr>store := h, eviction_params := params\<rparr>) es'
    \<and> queue_delete (obj_id ob) es' = clock_sweep (pin E) es"
  using assms
proof (induction "clock_weight es" arbitrary: c es p rule: less_induct)
  case less
  let ?P = "eviction_params c"
  from less.prems(1) have R: "queue_R clock_view E W c (Clock_q_head ?P) (Clock_q_tail ?P) es"
    by (simp add: Clock_R_def)
  from clock.queue_skip_pinned [OF R less.prems(2), of "pin E"] less.prems(3) obtain a ob where
    p: "p = Some a" and ob: "store c a = Some ob" and v: "queue_victim (pin E) es = clock_view ob" by auto
  from clock.queue_R_entry_split [OF R ob] obtain us vs where
    x: "es = us @ clock_view ob # vs" "distinct (map fst es)" .
  show ?case
  proof (cases "clock_freq ob \<ge> 1")
    case False
    then have "clock_sweep (pin E) es = queue_delete (obj_id ob) es"
      using v by (subst clock_sweep.simps) (simp add: clock_view_def)
    moreover have "Clock_evict_loop E (store c) ?P p = Some (store c, ?P, Some a)"
      using False p ob by (subst Clock_evict_loop.simps) simp
    ultimately show ?thesis using ob less.prems(1) by auto
  next
    case True
    let ?ob = "ob\<lparr>clock_freq := clock_freq ob - 1\<rparr>" and ?h = "(store c)(a \<mapsto> ob\<lparr>clock_freq := clock_freq ob - 1\<rparr>)"
    let ?P1 = "?P\<lparr>n_obj_rewritten := n_obj_rewritten ?P + 1, n_byte_rewritten := n_byte_rewritten ?P + obj_size ob\<rparr>"
    let ?es1 = "(obj_id ob, obj_size ob, clock_freq ob - 1) # queue_delete (obj_id ob) es"
    let ?m = "map (\<lambda>e. if fst e = obj_id ob then clock_view ?ob else e) es"
    have "queue_R clock_view E W (c\<lparr>store := ?h\<rparr>) (Clock_q_head ?P) (Clock_q_tail ?P) ?m"
      by (rule clock.queue_R_update [OF R ob]) (simp_all add: core_def)
    from clock.queue_move_to_head [OF this, of a ?ob] obtain h1 qh qt where
      m: "move_obj_to_head ?h (Clock_q_head ?P) (Clock_q_tail ?P) (Some a) = Some (h1, qh, qt)"
      "queue_R clock_view E W (c\<lparr>store := h1\<rparr>) qh qt (queue_promote (obj_id ob) ?m)" by auto
    have es1: "queue_promote (obj_id ob) ?m = ?es1"
      using queue_promote_map [OF x(2) [unfolded x(1)], of "clock_view ?ob"]
      by (simp add: x(1) clock_view_def)
    let ?P2 = "?P1\<lparr>Clock_q_head := qh, Clock_q_tail := qt\<rparr>"
    let ?c = "c\<lparr>store := h1, eviction_params := ?P2\<rparr>"
    have "clock_bounded mf fi ?es1"
      using clock_bounded_victim [of mf fi es "clock_view ob"] less.prems(1) x(1) True
      by (simp add: Clock_R_def clock_view_def)
    then have R2: "Clock_R E W mf fi ?c ?es1" using m(2) es1 less.prems(1) by (simp add: Clock_R_def)
    have "clock_weight (queue_delete (obj_id ob) es) + nat (clock_freq ob) \<le> clock_weight es"
      using sum_list_delete [of "clock_view ob" es "\<lambda>e. nat (snd (snd e))"] x(1)
      by (simp add: clock_view_def)
    then have w: "clock_weight ?es1 < clock_weight es" using True by (simp add: nat_diff_distrib)
    from R2 clock.queue_skip_pinned [of E W ?c qh qt ?es1 "pin E"] obtain q where
      q: "cache_skip_pinned (pin E) (store ?c) (Clock_q_tail (eviction_params ?c)) = Some q"
      by (auto simp: Clock_R_def)
    have "Clock_evict_loop E (store c) ?P p = Clock_evict_loop E h1 ?P2 q"
      using True p ob m(1) q by (subst Clock_evict_loop.simps) (simp add: Let_def)
    moreover have "clock_sweep (pin E) es = clock_sweep (pin E) ?es1"
      using True v less.prems(2) by (subst clock_sweep.simps) (simp add: clock_view_def)
    ultimately show ?thesis using less.hyps [OF w R2 _ q] by auto
  qed
qed

lemma Clock_remove_obj_refines:
  assumes "Clock_R E W mf fi c es" and "store c a = Some ob"
  shows "\<exists>c'. Clock_remove_obj E c (Some a) = Some c' \<and> same_limits c c'
    \<and> admissioner c' = admissioner c \<and> Clock_R E W mf fi c' (queue_delete (obj_id ob) es)"
proof -
  from assms(1) have R: "queue_R clock_view E W c (Clock_q_head (eviction_params c))
      (Clock_q_tail (eviction_params c)) es" by (simp add: Clock_R_def)
  from clock.queue_unlink_remove [OF R assms(2)] obtain h qh qt where
    u: "remove_obj_from_list (store c) (Clock_q_head (eviction_params c))
      (Clock_q_tail (eviction_params c)) (Some a) = Some (h, qh, qt)"
    and rm: "\<exists>h' ht. cache_remove_obj_base E (c\<lparr>store := h, eviction_params := p\<rparr>) (Some a) True
      = Some (shrunk (c\<lparr>store := h, eviction_params := p\<rparr>) h' ht (obj_size ob))
    \<and> queue_R clock_view E W (shrunk (c\<lparr>store := h, eviction_params := p\<rparr>) h' ht (obj_size ob)) qh qt
        (queue_delete (obj_id ob) es)" for p by blast
  from rm [of "(eviction_params c)\<lparr>Clock_q_head := qh, Clock_q_tail := qt\<rparr>"] u assms(1) show ?thesis
    by (fastforce simp: Clock_remove_obj_def Clock_R_def same_limits_def clock_bounded_delete)
qed

lemma Clock_evict_refines:
  assumes "Clock_R E W mf fi c es" and "es \<noteq> []"
  shows "\<exists>c'. Clock_evict E None c req = Some c' \<and> same_limits c c' \<and> admissioner c' = admissioner c
    \<and> Clock_R E W mf fi c' (clock_sweep (pin E) es)"
proof -
  from assms(1) have R: "queue_R clock_view E W c (Clock_q_head (eviction_params c))
      (Clock_q_tail (eviction_params c)) es" by (simp add: Clock_R_def)
  from clock.queue_skip_pinned [OF R assms(2), of "pin E"] obtain p where
    p: "cache_skip_pinned (pin E) (store c) (Clock_q_tail (eviction_params c)) = Some p" by blast
  from Clock_evict_loop_refines [OF assms p] obtain h params a ob es' where
    l: "Clock_evict_loop E (store c) (eviction_params c) p = Some (h, params, Some a)" "h a = Some ob"
    "Clock_R E W mf fi (c\<lparr>store := h, eviction_params := params\<rparr>) es'"
    "queue_delete (obj_id ob) es' = clock_sweep (pin E) es" by blast
  have "Clock_evict E None c req = Clock_remove_obj E (c\<lparr>store := h, eviction_params := params\<rparr>) (Some a)"
    using p l(1) by (simp add: Clock_evict_def Clock_remove_obj_def Let_def)
  with Clock_remove_obj_refines [OF l(3), of a ob] l(2,4) show ?thesis by (auto simp: same_limits_def)
qed

interpretation clock_policy: refined_policy "Clock_ops E None" "Clock_R E W mf fi"
  "clock_machine (pin E) mf fi" "\<lambda>req. req_obj_id req \<in> fst W" for E W mf fi
proof (standard, goal_cases)
  case (6 c s req)
  then show ?case using Clock_find_refines [of E W mf fi c s req]
    by (cases "req_obj_id req \<in> fst ` set s") (simp_all add: Clock_ops_def clock_machine_def)
next
  case (3 c s)
  then show ?case by (auto simp: Clock_R_def clock_machine_def dest: clock.queue_R_resident)
next
  case (7 c s req)
  then show ?case using Clock_evict_refines [of E W mf fi c s req]
    by (simp add: Clock_ops_def clock_machine_def)
next
  case (8 c s req)
  then show ?case using Clock_insert_refines [of E W mf fi c s req]
    by (auto simp: Clock_ops_def clock_machine_def)
next
  case (11 c s)
  then show ?case using clock_sweep_ids [of s "pin E"] by (simp add: clock_machine_def)
qed (auto simp: Clock_R_def Clock_ops_def clock_machine_def clock.queue_R_resident
    clock.queue_R_bytes cache_get_occupied_byte_default_def)

section \<open>The prediction of the victim\<close>

abbreviation clock_age :: "int \<Rightarrow> obj_id_t \<times> int \<times> int \<Rightarrow> obj_id_t \<times> int \<times> int" where
  "clock_age r e \<equiv> (fst e, fst (snd e), snd (snd e) - r)"

text \<open>Without pinning, positive counters at the end of the queue rotate to the front.\<close>

lemma clock_sweep_rotate:
  assumes "distinct (map fst (us @ vs))" and "\<forall>e \<in> set vs. snd (snd e) \<ge> 1"
  shows "clock_sweep None (us @ vs) = clock_sweep None (map (clock_age 1) vs @ us)"
  using assms
proof (induction vs arbitrary: us rule: rev_induct)
  case (snoc e vs)
  let ?us = "clock_age 1 e # us"
  have "clock_sweep None (us @ vs @ [e]) = clock_sweep None (clock_age 1 e # queue_delete (fst e) (us @ vs @ [e]))"
    using snoc.prems(2) by (subst clock_sweep.simps) (simp add: Let_def)
  also have "queue_delete (fst e) (us @ vs @ [e]) = us @ vs"
    using queue_delete_split [of "us @ vs" e "[]"] snoc.prems(1) by simp
  also have "clock_sweep None (clock_age 1 e # us @ vs) = clock_sweep None (?us @ vs)" by simp
  also have "\<dots> = clock_sweep None (map (clock_age 1) vs @ ?us)"
    by (rule snoc.IH) (use snoc.prems in auto)
  finally show ?case by simp
qed simp

lemma clock_sweep_found:
  assumes "distinct (map fst (us @ e # vs))" and "snd (snd e) < 1" and "\<forall>d \<in> set vs. snd (snd d) \<ge> 1"
  shows "fst ` set (clock_sweep None (us @ e # vs)) = fst ` set (us @ e # vs) - {fst e}"
proof -
  have "clock_sweep None ((us @ [e]) @ vs) = clock_sweep None (map (clock_age 1) vs @ us @ [e])"
    by (rule clock_sweep_rotate) (use assms in simp_all)
  also have "\<dots> = queue_delete (fst e) (map (clock_age 1) vs @ us @ [e])"
    using assms(2) by (subst clock_sweep.simps) (simp add: Let_def)
  finally have "fst ` set (clock_sweep None (us @ e # vs))
      = fst ` set (map (clock_age 1) vs @ us @ [e]) - {fst e}" by simp
  also have "\<dots> = fst ` set (us @ e # vs) - {fst e}" by (auto simp: image_Un image_image)
  finally show ?thesis .
qed

text \<open>One round of the search without changes.\<close>

lemma to_evict_round:
  assumes "dseg h NULL xs n" and "xs \<noteq> []"
  shows "Clock_to_evict_loop h qt (Some (last xs)) r =
    (case find (\<lambda>a. clock_freq (the (h a)) - r < 1) (rev xs) of
       Some a \<Rightarrow> Some (Some a) | None \<Rightarrow> Clock_to_evict_loop h qt qt (r + 1))"
  using assms
proof (induction xs arbitrary: n rule: rev_induct)
  case (snoc x xs)
  then obtain ob where ob: "h x = Some ob" "q_prev ob = lastp xs NULL" "dseg h NULL xs (Some x)" by auto
  show ?case
  proof (cases "xs = []")
    case True
    then show ?thesis using ob by (subst Clock_to_evict_loop.simps) auto
  next
    case False
    then have "lastp xs NULL = Some (last xs)" by (simp add: lastp_def)
    with snoc.IH [OF ob(3) False] ob show ?thesis by (subst Clock_to_evict_loop.simps) auto
  qed
qed simp

lemma clock_weight_less:
  "es \<noteq> [] \<Longrightarrow> \<forall>e \<in> set (map (clock_age r) es). snd (snd e) \<ge> 1 \<Longrightarrow>
     clock_weight (map (clock_age (r + 1)) es) < clock_weight (map (clock_age r) es)"
proof (induction es)
  case (Cons e es)
  then show ?case by (cases "es = []") (auto simp: add_less_mono)
qed simp

lemma to_evict_loop_sweep:
  assumes "queue_R clock_view E W c qh qt es" and "es \<noteq> []"
  shows "\<exists>a ob. Clock_to_evict_loop (store c) qt qt r = Some (Some a) \<and> store c a = Some ob
    \<and> fst ` set (clock_sweep None (map (clock_age r) es)) = fst ` set es - {obj_id ob}"
proof (induction "clock_weight (map (clock_age r) es)" arbitrary: r rule: less_induct)
  case less
  let ?age = "map (clock_age r) es"
  from assms(1) obtain xs where xs: "dll (store c) qh qt xs" "es = views clock_view (store c) xs"
    "distinct (map fst es)" by (elim clock.queue_R_E)
  then have ne: "xs \<noteq> []" and ds: "dseg (store c) NULL xs NULL" and qt: "qt = Some (last xs)"
    using assms(2) by (auto simp: dll_def lastp_def)
  have ids: "map fst ?age = map fst es" by simp
  have fr: "snd (snd (clock_view ob)) = clock_freq ob" for ob by (simp add: clock_view_def)
  show ?case
  proof (cases "find (\<lambda>a. clock_freq (the (store c a)) - r < 1) (rev xs)")
    case None
    then have big: "\<forall>e \<in> set ?age. snd (snd e) \<ge> 1" by (auto simp: xs(2) find_None_iff fr)
    have "clock_sweep None ([] @ ?age) = clock_sweep None (map (clock_age 1) ?age @ [])"
      by (rule clock_sweep_rotate) (use big ids xs(3) in \<open>simp_all only: append_Nil\<close>)
    then have sw: "clock_sweep None ?age = clock_sweep None (map (clock_age (r + 1)) es)"
      by (simp add: comp_def algebra_simps)
    have "clock_weight (map (clock_age (r + 1)) es) < clock_weight ?age"
      using big assms(2) by (intro clock_weight_less) auto
    from less.hyps [OF this] sw show ?thesis
      using to_evict_round [OF ds ne, of qt r] None qt by simp
  next
    case (Some a)
    from find_SomeD_split [OF Some] obtain ys zs where
      r: "rev xs = ys @ a # zs" "clock_freq (the (store c a)) - r < 1"
      "\<forall>b \<in> set ys. \<not> clock_freq (the (store c b)) - r < 1" by blast
    from r(1) have sp: "xs = rev zs @ a # rev ys"
      by (metis append.assoc append_Cons append_Nil rev.simps(2) rev_append rev_rev_ident)
    obtain ob where ob: "store c a = Some ob" using dll_live [OF xs(1), of a] sp by auto
    let ?v = "\<lambda>a. clock_age r (clock_view (the (store c a)))"
    have age: "?age = map ?v (rev zs) @ ?v a # map ?v (rev ys)" by (simp add: xs(2) sp)
    have "fst ` set (clock_sweep None ?age) = fst ` set ?age - {fst (?v a)}"
      unfolding age by (rule clock_sweep_found)
        (use ids xs(3) age r(2,3) in \<open>auto simp: fr simp flip: age\<close>)
    then show ?thesis
      using to_evict_round [OF ds ne, of qt r] Some qt ob by (auto simp: image_image clock_view_def)
  qed
qed

section \<open>Initialisation\<close>

lemma Clock_default_params:
  "Clock_parse_params params (Some Clock_DEFAULT_PARAMS)
    = Some (params\<lparr>init_freq := 0, n_bit_counter := 1, max_freq := 1\<rparr>)"
proof -
  have 1: "next_param Clock_DEFAULT_PARAMS = (''init-freq'', Some ''0'', Some ''n-bit-counter=1'')"
    by (simp add: next_param_def strsep_def Clock_DEFAULT_PARAMS_def)
  have 2: "next_param ''n-bit-counter=1'' = (''n-bit-counter'', Some ''1'', None)"
    by (simp add: next_param_def strsep_def)
  have 3: "int_param (Some ''0'') = Some 0" "int_param (Some ''1'') = Some 1" by code_simp+
  have 4: "strcasecmp_eq ''init-freq'' ''init-freq''" "\<not> strcasecmp_eq ''init-freq'' ''n-bit-counter''"
    "strcasecmp_eq ''n-bit-counter'' ''n-bit-counter''" by code_simp+
  have ne: "Clock_DEFAULT_PARAMS \<noteq> []" by (simp add: Clock_DEFAULT_PARAMS_def)
  show ?thesis
    by (subst Clock_parse_params.simps, simp add: 1 3 4 ne)
      (subst Clock_parse_params.simps, simp add: 2 3 4, subst Clock_parse_params.simps, simp)
qed

text \<open>The parser leaves the queue alone.\<close>

lemma Clock_parse_queue:
  "Clock_parse_params params s = Some params' \<Longrightarrow>
     Clock_q_head params' = Clock_q_head params \<and> Clock_q_tail params' = Clock_q_tail params"
proof (induction params s arbitrary: params' rule: Clock_parse_params.induct)
  case (1 params s)
  show ?case
  proof (cases "s = None \<or> s = Some []")
    case True
    with 1(3) show ?thesis by (auto simp: Clock_parse_params.simps)
  next
    case False
    then obtain t where t: "s = Some t" "t \<noteq> []" by auto
    obtain key val rest where n: "next_param t = (key, val, rest)" by (metis prod_cases3)
    note IH = 1(1) [OF t n [symmetric] refl refl] 1(2) [OF t n [symmetric] refl refl]
    note eq = 1(3) [unfolded t(1), simplified Clock_parse_params.simps [of params "Some t"] n t(2)]
    show ?thesis
    proof (cases "strcasecmp_eq key ''n-bit-counter''")
      case True
      with eq obtain m where "int_param val = Some m" "0 \<le> m \<and> m < 31"
        "Clock_parse_params (params\<lparr>n_bit_counter := m, max_freq := 2 ^ nat m - 1\<rparr>) rest = Some params'"
        by (auto simp: t(2) n elim!: bind_SomeE split: if_splits)
      with IH(1) True show ?thesis by fastforce
    next
      case False
      with eq obtain m where "strcasecmp_eq key ''init-freq''" "int_param val = Some m"
        "Clock_parse_params (params\<lparr>init_freq := m\<rparr>) rest = Some params'"
        by (auto simp: t(2) n elim!: bind_SomeE split: if_splits)
      with IH(2) False show ?thesis by fastforce
    qed
  qed
qed

lemma Clock_init_R:
  assumes "Clock_init pf0 p s = Some c" and "spread E W" "\<not> support_ttl E"
    "0 < ccp_hashpower p" "ccp_hashpower p < 40" "int (snd W) \<le> ccp_hashpower p"
  shows "Clock_R E W (max_freq (eviction_params c)) (init_freq (eviction_params c)) c []"
    "cache_size c = ccp_cache_size p" "obj_md_size c = 0" "admissioner c = None"
proof -
  let ?p0 = "\<lparr>Clock_q_head = NULL, Clock_q_tail = NULL, n_bit_counter = 1, max_freq = 1,
    init_freq = 0, n_obj_rewritten = 0, n_byte_rewritten = 0\<rparr>"
  from assms(1) obtain params where
    q: "(if s \<noteq> None then Clock_parse_params ?p0 s else Some ?p0) = Some params"
    and c: "c = (cache_struct_init ''Clock'' p s pf0 params)\<lparr>obj_md_size := 0\<rparr>
      \<or> (\<exists>name. c = (cache_struct_init ''Clock'' p s pf0 params)\<lparr>obj_md_size := 0\<rparr>\<lparr>cache_name := name\<rparr>)"
    unfolding Clock_init_def Let_def Clock_default_params
    by (cases "if s \<noteq> None then Clock_parse_params ?p0 s else Some ?p0") (auto split: if_splits)
  from q have q: "Clock_q_head params = NULL" "Clock_q_tail params = NULL"
    using Clock_parse_queue [of ?p0 s params] by (auto split: if_splits)
  have "cache_ok E W c {}"
    using c cache_ok_init [OF assms(4-6), of E "''Clock''" s pf0 params] by auto
  then show "Clock_R E W (max_freq (eviction_params c)) (init_freq (eviction_params c)) c []"
    using assms(2,3) c q queue_R_empty [of E W c] by (auto simp: Clock_R_def clock_bounded_def)
  show "cache_size c = ccp_cache_size p" "obj_md_size c = 0" "admissioner c = None"
    using c by auto
qed

section \<open>Properties\<close>

text \<open>
  C10: a Clock cache behaves, on every trace from its initialisation and for every setting of its
  parameters, like the queue of its objects with their counters: a hit raises the counter up to
  its maximum, an eviction sweeps from the tail and takes one from every positive counter it
  passes.  The code returns for every request, so the eviction loop ends, and every counter stays
  between the least of zero and the initial value and the greatest of the maximum and it.
\<close>

theorem Clock_serve_refines:
  assumes "Clock_init pf0 p s = Some c0" and "spread E W" and "\<not> support_ttl E"
    and "0 < ccp_hashpower p" and "ccp_hashpower p < 40" and "int (snd W) \<le> ccp_hashpower p"
    and "\<forall>req \<in> set reqs. req_obj_id req \<in> fst W"
    and "mf = max_freq (eviction_params c0)" and "fi = init_freq (eviction_params c0)"
  shows "\<exists>c es hits. serve (Clock_ops E None) None c0 reqs = Some (c, hits)
    \<and> spec_serve (clock_machine (pin E) mf fi) (ccp_cache_size p) 0 [] reqs = Some (es, hits)
    \<and> queue_R clock_view E W c (Clock_q_head (eviction_params c)) (Clock_q_tail (eviction_params c)) es
    \<and> (\<forall>e \<in> set es. min 0 fi \<le> snd (snd e) \<and> snd (snd e) \<le> max mf fi)"
proof -
  note i = Clock_init_R [OF assms(1-6)]
  show ?thesis
    using clock_policy.serve_refines [OF i(1) assms(7) i(4)] i(2,3)
    by (auto simp: Clock_R_def clock_bounded_def assms(8,9))
qed

text \<open>The object 1, hit once, survives the eviction that takes the younger object 2.\<close>

theorem Clock_serve_refines_witness:
  "\<exists>(c0 :: (unit, unit, Clock_params_t) cache_t) c.
     Clock_init () (sample_params 2) None = Some c0
     \<and> serve (Clock_ops sample_env None) None c0
       [sample_req 1 1, sample_req 2 1, sample_req 1 1, sample_req 3 1, sample_req 1 1, sample_req 2 1]
       = Some (c, [False, False, True, False, True, False])"
proof -
  let ?reqs = "[sample_req 1 1, sample_req 2 1, sample_req 1 1, sample_req 3 1, sample_req 1 1, sample_req 2 1]"
  obtain c0 :: "(unit, unit, Clock_params_t) cache_t" where
    c0: "Clock_init () (sample_params 2) None = Some c0"
    "max_freq (eviction_params c0) = 1" "init_freq (eviction_params c0) = 0"
    by (simp add: Clock_init_def Clock_default_params Let_def)
  have "spec_serve (clock_machine None 1 0) 2 0 [] ?reqs
      = Some ([(2, 1, 0), (1, 1, 0)], [False, False, True, False, True, False])"
    by (simp add: spec_get_def spec_evict.simps clock_machine_def clock_hit_def clock_sweep.simps
        queue_delete_def Let_def)
  with Clock_serve_refines [OF c0(1), of sample_env sample_ids ?reqs 1 0] c0 show ?thesis
    by (auto simp del: serve.simps spec_serve.simps)
qed

text \<open>
  Without pinning, the object that \<open>Clock_to_evict\<close> names, by a search that changes nothing, is
  the object that \<open>Clock_evict\<close> removes, and it removes no other.
\<close>

theorem Clock_to_evict_is_victim:
  assumes "Clock_R E W mf fi c es" and "es \<noteq> []" and "pin E = None"
  shows "\<exists>a ob c'. Clock_to_evict c req = Some (c, Some a) \<and> store c a = Some ob
    \<and> Clock_evict E None c req = Some c' \<and> resident c' = resident c - {obj_id ob}"
proof -
  from assms(1) have R: "queue_R clock_view E W c (Clock_q_head (eviction_params c))
      (Clock_q_tail (eviction_params c)) es" by (simp add: Clock_R_def)
  have res: "resident c = fst ` set es" by (rule clock.queue_R_resident [OF R])
  have "map (clock_age 0) es = es" by (simp add: map_idI)
  with to_evict_loop_sweep [OF R assms(2), of 0] obtain a ob where
    a: "Clock_to_evict_loop (store c) (Clock_q_tail (eviction_params c))
          (Clock_q_tail (eviction_params c)) 0 = Some (Some a)" "store c a = Some ob"
    "fst ` set (clock_sweep None es) = fst ` set es - {obj_id ob}" by auto
  from Clock_evict_refines [OF assms(1,2), of req] obtain c' where
    c': "Clock_evict E None c req = Some c'" "Clock_R E W mf fi c' (clock_sweep (pin E) es)" by blast
  from c'(2) have "queue_R clock_view E W c' (Clock_q_head (eviction_params c'))
      (Clock_q_tail (eviction_params c')) (clock_sweep (pin E) es)" by (simp add: Clock_R_def)
  from clock.queue_R_resident [OF this] have "resident c' = resident c - {obj_id ob}"
    using a(3) res assms(3) by simp
  with a c'(1) show ?thesis by (auto simp: Clock_to_evict_def)
qed

theorem Clock_to_evict_is_victim_witness:
  "\<exists>(c :: (unit, unit, Clock_params_t) cache_t) a ob c'. resident c = {1, 2}
     \<and> Clock_to_evict c (sample_req 3 1) = Some (c, Some a) \<and> store c a = Some ob
     \<and> Clock_evict sample_env None c (sample_req 3 1) = Some c' \<and> resident c' = {1, 2} - {obj_id ob}"
proof -
  let ?reqs = "[sample_req 1 1, sample_req 2 1]"
  obtain c0 :: "(unit, unit, Clock_params_t) cache_t" where
    c0: "Clock_init () (sample_params 2) None = Some c0"
    "max_freq (eviction_params c0) = 1" "init_freq (eviction_params c0) = 0"
    by (simp add: Clock_init_def Clock_default_params Let_def)
  note i = Clock_init_R [OF c0(1), of sample_env sample_ids, unfolded c0(2,3)]
  have "spec_serve (clock_machine None 1 0) 2 0 [] ?reqs = Some ([(2, 1, 0), (1, 1, 0)], [False, False])"
    by (simp add: spec_get_def spec_evict.simps clock_machine_def)
  with clock_policy.serve_refines [OF i(1), of ?reqs] i obtain c :: "(unit, unit, Clock_params_t) cache_t" where
    c: "Clock_R sample_env sample_ids 1 0 c [(2, 1, 0), (1, 1, 0)]"
    by (auto simp del: serve.simps spec_serve.simps)
  then have "resident c = {1, 2}" by (auto simp: Clock_R_def dest: clock.queue_R_resident)
  with Clock_to_evict_is_victim [OF c, of "sample_req 3 1"] show ?thesis by auto
qed



end
