(* ===== verification/Sieve.thy ===== *)
theory Sieve
  imports Queue_Refine
begin

text \<open>
  The Sieve cache (\<open>cache/eviction/Sieve.c\<close>): a queue, a visited bit per object and a hand that
  walks from the tail to the head.  The abstract state is the queue of the ids with their sizes and
  bits together with the id under the hand; \<open>sieve_walk\<close> is the walk of the eviction, on positions.
\<close>

section \<open>Model\<close>

record Sieve_params_t =
  Sieve_q_head :: ptr
  Sieve_q_tail :: ptr
  pointer :: ptr

definition Sieve_init ::
    "'f \<Rightarrow> common_cache_params_t \<Rightarrow> string option \<Rightarrow> ('a, 'f, Sieve_params_t) cache_t" where
  "Sieve_init pf0 ccache_params cache_specific_params =
    (cache_struct_init ''Sieve'' ccache_params cache_specific_params pf0
       \<lparr>Sieve_q_head = NULL, Sieve_q_tail = NULL, pointer = NULL\<rparr>)
     \<lparr>obj_md_size := (if ccp_consider_obj_metadata ccache_params then 1 else 0)\<rparr>"

definition Sieve_insert ::
    "env \<Rightarrow> ('a, 'f, Sieve_params_t) cache_t \<Rightarrow> request \<Rightarrow>
     (('a, 'f, Sieve_params_t) cache_t \<times> ptr) option" where
  "Sieve_insert E c req = do {
     (c, obj) \<leftarrow> cache_insert_base E c req;
     let params = eviction_params c;
     (h, qh, qt) \<leftarrow> prepend_obj_to_head (store c) (Sieve_q_head params) (Sieve_q_tail params) obj;
     h \<leftarrow> upd_obj h obj (\<lambda>ob. ob\<lparr>sieve_freq := 0\<rparr>);
     Some (c\<lparr>store := h, eviction_params := params\<lparr>Sieve_q_head := qh, Sieve_q_tail := qt\<rparr>\<rparr>, obj) }"

text \<open>The scan towards the head for a counter that is not above the threshold.\<close>

partial_function (option) Sieve_scan :: "heap \<Rightarrow> ptr \<Rightarrow> int \<Rightarrow> ptr option" where
  "Sieve_scan h p to_evict_freq =
    (if p = NULL then Some NULL
     else Option.bind (deref h p) (\<lambda>ob.
       if sieve_freq ob > to_evict_freq then Sieve_scan h (q_prev ob) to_evict_freq else Some p))"

definition Sieve_to_evict_with_freq ::
    "('a, 'f, Sieve_params_t) cache_t \<Rightarrow> int \<Rightarrow> ptr option" where
  "Sieve_to_evict_with_freq c to_evict_freq = do {
     let params = eviction_params c;
     let p = (if pointer params = NULL then Sieve_q_tail params else pointer params);
     p \<leftarrow> Sieve_scan (store c) p to_evict_freq;
     if p = NULL then Sieve_scan (store c) (Sieve_q_tail params) to_evict_freq else Some p }"

partial_function (option) Sieve_to_evict_loop ::
    "('a, 'f, Sieve_params_t) cache_t \<Rightarrow> int \<Rightarrow> ptr option" where
  "Sieve_to_evict_loop c to_evict_freq =
    Option.bind (Sieve_to_evict_with_freq c to_evict_freq) (\<lambda>p.
      if p = NULL then Sieve_to_evict_loop c (to_evict_freq + 1) else Some p)"

definition Sieve_to_evict ::
    "('a, 'f, Sieve_params_t) cache_t \<Rightarrow> request \<Rightarrow> (('a, 'f, Sieve_params_t) cache_t \<times> ptr) option" where
  "Sieve_to_evict c req = map_option (Pair c) (Sieve_to_evict_loop c 0)"

partial_function (option) Sieve_evict_loop ::
    "env \<Rightarrow> heap \<Rightarrow> ptr \<Rightarrow> ptr \<Rightarrow> int \<Rightarrow> (heap \<times> ptr) option" where
  "Sieve_evict_loop E h q_tail obj budget =
    Option.bind (deref h obj) (\<lambda>ob.
      let next = (if q_prev ob = NULL then q_tail else q_prev ob) in
      if cache_obj_is_pinned (pin E) ob then
        (if budget - 1 \<le> 0 then Some (h, obj) else Sieve_evict_loop E h q_tail next (budget - 1))
      else if sieve_freq ob > 0 then
        Option.bind (upd_obj h obj (\<lambda>ob. ob\<lparr>sieve_freq := sieve_freq ob - 1\<rparr>)) (\<lambda>h.
          Sieve_evict_loop E h q_tail next budget)
      else Some (h, obj))"

definition Sieve_evict ::
    "env \<Rightarrow> ('a, 'f, Sieve_params_t) cache_t prefetcher_t option \<Rightarrow>
     ('a, 'f, Sieve_params_t) cache_t \<Rightarrow> request \<Rightarrow> ('a, 'f, Sieve_params_t) cache_t option" where
  "Sieve_evict E pf c req = do {
     let params = eviction_params c;
     let obj = (if pointer params = NULL then Sieve_q_tail params else pointer params);
     (h, obj) \<leftarrow> Sieve_evict_loop E (store c) (Sieve_q_tail params) obj (n_obj c + 1);
     ob \<leftarrow> deref h obj;
     let params = params\<lparr>pointer := q_prev ob\<rparr>;
     (h, qh, qt) \<leftarrow> remove_obj_from_list h (Sieve_q_head params) (Sieve_q_tail params) obj;
     cache_evict_base E pf
       (c\<lparr>store := h, eviction_params := params\<lparr>Sieve_q_head := qh, Sieve_q_tail := qt\<rparr>\<rparr>) obj True }"

definition Sieve_remove_obj ::
    "env \<Rightarrow> ('a, 'f, Sieve_params_t) cache_t \<Rightarrow> ptr \<Rightarrow> ('a, 'f, Sieve_params_t) cache_t option" where
  "Sieve_remove_obj E c obj_to_remove = do {
     let params = eviction_params c;
     params \<leftarrow> (if obj_to_remove = pointer params then do {
         ob \<leftarrow> deref (store c) obj_to_remove;
         Some (params\<lparr>pointer := q_prev ob\<rparr>) }
       else Some params);
     (h, qh, qt) \<leftarrow> remove_obj_from_list (store c) (Sieve_q_head params) (Sieve_q_tail params)
       obj_to_remove;
     cache_remove_obj_base E
       (c\<lparr>store := h, eviction_params := params\<lparr>Sieve_q_head := qh, Sieve_q_tail := qt\<rparr>\<rparr>)
       obj_to_remove True }"

definition Sieve_remove ::
    "env \<Rightarrow> ('a, 'f, Sieve_params_t) cache_t \<Rightarrow> obj_id_t \<Rightarrow>
     (('a, 'f, Sieve_params_t) cache_t \<times> bool) option" where
  "Sieve_remove E c i = do {
     obj \<leftarrow> chained_hashtable_find_obj_id_v2 E (store c) (hashtable c) i;
     if obj = NULL then Some (c, False)
     else do {
       c \<leftarrow> Sieve_remove_obj E c obj;
       Some (c, True) } }"

definition Sieve_find ::
    "env \<Rightarrow> ('a, 'f, Sieve_params_t) cache_t prefetcher_t option \<Rightarrow> ('a, 'f, Sieve_params_t) cache_t \<Rightarrow>
     request \<Rightarrow> bool \<Rightarrow> (('a, 'f, Sieve_params_t) cache_t \<times> ptr) option" where
  "Sieve_find E pf c req update_cache = do {
     (c, cache_obj) \<leftarrow> cache_find_base E pf (Sieve_remove E) c req update_cache;
     if cache_obj \<noteq> NULL \<and> update_cache then do {
       h \<leftarrow> upd_obj (store c) cache_obj (\<lambda>ob. ob\<lparr>sieve_freq := 1\<rparr>);
       Some (c\<lparr>store := h\<rparr>, cache_obj) }
     else Some (c, cache_obj) }"

definition Sieve_ops ::
    "env \<Rightarrow> ('a, 'f, Sieve_params_t) cache_t prefetcher_t option \<Rightarrow>
     ('a, 'f, Sieve_params_t) cache_t cache_ops" where
  "Sieve_ops E pf = \<lparr>op_find = Sieve_find E pf, op_can_insert = cache_can_insert_default,
     op_insert = Sieve_insert E, op_evict = Sieve_evict E pf, op_remove = Sieve_remove E,
     op_to_evict = Sieve_to_evict, op_get_occupied_byte = cache_get_occupied_byte_default,
     op_get_n_obj = cache_get_n_obj_default\<rparr>"

definition Sieve_get ::
    "env \<Rightarrow> ('a, 'f, Sieve_params_t) cache_t prefetcher_t option \<Rightarrow> ('a, 'f, Sieve_params_t) cache_t \<Rightarrow>
     request \<Rightarrow> (('a, 'f, Sieve_params_t) cache_t \<times> bool) option" where
  "Sieve_get E pf c req = cache_get_base (Sieve_ops E pf) pf c req"

text \<open>
  \<open>Sieve_verify\<close> walks the queue and asserts that every object is in the table and that the
  counters agree; a failed assertion is \<open>None\<close>.
\<close>

partial_function (option) Sieve_verify_loop ::
    "env \<Rightarrow> heap \<Rightarrow> hashtable_t \<Rightarrow> ptr \<Rightarrow> int \<Rightarrow> int \<Rightarrow> (int \<times> int) option" where
  "Sieve_verify_loop E h ht obj n n_byte =
    (if obj = NULL then Some (n, n_byte)
     else Option.bind (deref h obj) (\<lambda>ob.
       Option.bind (chained_hashtable_find_obj_id_v2 E h ht (obj_id ob)) (\<lambda>found.
         if found = NULL then None
         else Sieve_verify_loop E h ht (q_next ob) (n + 1) (n_byte + obj_size ob))))"

definition Sieve_verify :: "env \<Rightarrow> ('a, 'f, Sieve_params_t) cache_t \<Rightarrow> unit option" where
  "Sieve_verify E c = do {
     (n, n_byte) \<leftarrow> Sieve_verify_loop E (store c) (hashtable c) (Sieve_q_head (eviction_params c)) 0 0;
     if n = cache_get_n_obj_default c \<and> n_byte = cache_get_occupied_byte_default c
     then Some () else None }"

section \<open>The abstract sieve\<close>

definition sieve_view :: "cache_obj \<Rightarrow> obj_id_t \<times> int \<times> int" where
  "sieve_view ob = (obj_id ob, obj_size ob, sieve_freq ob)"

interpretation sieve: object_view sieve_view fst
  by unfold_locales (simp_all add: sieve_view_def touched_def)

definition pinned_id :: "pin_pred \<Rightarrow> obj_id_t \<Rightarrow> bool" where
  "pinned_id pn i = (case pn of None \<Rightarrow> False | Some f \<Rightarrow> f i)"

abbreviation sieve_weight :: "(int \<times> int) queue \<Rightarrow> nat" where
  "sieve_weight es \<equiv> sum_list (map (\<lambda>e. nat (snd (snd e))) es)"

abbreviation hand_next :: "'x list \<Rightarrow> nat \<Rightarrow> nat" where
  "hand_next es i \<equiv> (if i = 0 then length es - 1 else i - 1)"

abbreviation unvisit :: "obj_id_t \<times> int \<times> int \<Rightarrow> obj_id_t \<times> int \<times> int" where
  "unvisit e \<equiv> (fst e, fst (snd e), snd (snd e) - 1)"

lemma sieve_weight_unvisit:
  "i < length es \<Longrightarrow> snd (snd (es ! i)) > 0 \<Longrightarrow> sieve_weight (es[i := unvisit (es ! i)]) < sieve_weight es"
proof (induction es arbitrary: i)
  case (Cons e es)
  then show ?case by (cases i) auto
qed simp

text \<open>The walk: the position of the victim and the bits that were cleared on the way.\<close>

function sieve_walk ::
    "pin_pred \<Rightarrow> (int \<times> int) queue \<Rightarrow> nat \<Rightarrow> int \<Rightarrow> (int \<times> int) queue \<times> nat" where
  "sieve_walk pn es i budget =
    (if \<not> i < length es then (es, i)
     else if pinned_id pn (fst (es ! i)) then
       (if budget - 1 \<le> 0 then (es, i) else sieve_walk pn es (hand_next es i) (budget - 1))
     else if snd (snd (es ! i)) > 0 then
       sieve_walk pn (es[i := unvisit (es ! i)]) (hand_next es i) budget
     else (es, i))"
  by pat_completeness auto
termination
  by (relation "measures [\<lambda>(pn, es, i, budget). sieve_weight es, \<lambda>(pn, es, i, budget). nat budget]")
    (auto simp: sieve_weight_unvisit)

declare sieve_walk.simps [simp del]

text \<open>The walk keeps the queue but for the bits, and ends at a position of it.\<close>

lemma sieve_walk_props:
  "i < length es \<Longrightarrow> length (fst (sieve_walk pn es i b)) = length es
    \<and> snd (sieve_walk pn es i b) < length es
    \<and> map fst (fst (sieve_walk pn es i b)) = map fst es
    \<and> view_bytes fst md (fst (sieve_walk pn es i b)) = view_bytes fst md es"
proof (induction pn es i b rule: sieve_walk.induct)
  case (1 pn es i b)
  let ?e = "es ! i"
  have n: "hand_next es i < length es" using 1(3) by auto
  have sp: "es = take i es @ ?e # drop (Suc i) es" using 1(3) by (rule id_take_nth_drop)
  have m: "map fst (es[i := unvisit ?e]) = map fst es"
    using 1(3) by (simp add: map_update list_update_same_conv)
  have b: "view_bytes fst md (es[i := unvisit ?e]) = view_bytes fst md es"
    using 1(3) by (subst (2) sp) (simp add: upd_conv_take_nth_drop)
  show ?case
  proof (cases "pinned_id pn (fst ?e)")
    case True
    then show ?thesis using 1(1,3) n by (cases "b - 1 \<le> 0") (subst sieve_walk.simps, simp)+
  next
    case False
    then show ?thesis using 1(2,3) n m b
      by (cases "snd (snd ?e) > 0") (subst sieve_walk.simps, simp)+
  qed
qed

text \<open>The bits stay in a range.\<close>

lemma sieve_walk_bits:
  "\<forall>e \<in> set es. 0 \<le> snd (snd e) \<and> snd (snd e) \<le> m \<Longrightarrow>
   \<forall>e \<in> set (fst (sieve_walk pn es i b)). 0 \<le> snd (snd e) \<and> snd (snd e) \<le> m"
proof (induction pn es i b rule: sieve_walk.induct)
  case (1 pn es i b)
  show ?case
  proof (cases "i < length es \<and> \<not> pinned_id pn (fst (es ! i)) \<and> snd (snd (es ! i)) > 0")
    case True
    let ?es = "es[i := unvisit (es ! i)]"
    have m: "snd (snd (es ! i)) - 1 \<le> m" "0 \<le> snd (snd (es ! i)) - 1"
      using bspec [OF 1(3), of "es ! i"] True by auto
    have bits: "\<forall>e \<in> set ?es. 0 \<le> snd (snd e) \<and> snd (snd e) \<le> m"
    proof
      fix e assume "e \<in> set ?es"
      then have "e = unvisit (es ! i) \<or> e \<in> set es"
        using set_update_subset_insert [of es i "unvisit (es ! i)"] by blast
      then show "0 \<le> snd (snd e) \<and> snd (snd e) \<le> m" using m 1(3) by (elim disjE) auto
    qed
    have w: "sieve_walk pn es i b = sieve_walk pn ?es (hand_next es i) b"
      using True sieve_walk.simps [of pn es i b] by simp
    show ?thesis unfolding w by (rule 1(2) [OF _ _ _ bits]) (use True in simp_all)
  next
    case False
    show ?thesis
    proof (cases "i < length es \<and> pinned_id pn (fst (es ! i)) \<and> \<not> b - 1 \<le> 0")
      case True
      then have w: "sieve_walk pn es i b = sieve_walk pn es (hand_next es i) (b - 1)"
        using sieve_walk.simps [of pn es i b] by simp
      show ?thesis unfolding w by (rule 1(1) [OF _ _ _ 1(3)]) (use True in simp_all)
    next
      case False
      with \<open>\<not> (i < length es \<and> \<not> pinned_id pn (fst (es ! i)) \<and> snd (snd (es ! i)) > 0)\<close>
      have "sieve_walk pn es i b = (es, i)" using sieve_walk.simps [of pn es i b] by auto
      then show ?thesis using 1(3) by simp
    qed
  qed
qed

type_synonym sieve = "(int \<times> int) queue \<times> obj_id_t option"

definition queue_pos :: "obj_id_t \<Rightarrow> 'x queue \<Rightarrow> nat" where
  "queue_pos i es = length (takeWhile (\<lambda>e. fst e \<noteq> i) es)"

definition sieve_evict :: "pin_pred \<Rightarrow> sieve \<Rightarrow> sieve" where
  "sieve_evict pn s =
    (let es = fst s;
         i = (case snd s of None \<Rightarrow> length es - 1 | Some h \<Rightarrow> queue_pos h es);
         (es, j) = sieve_walk pn es i (int (length es) + 1)
     in (queue_delete (fst (es ! j)) es, if j = 0 then None else Some (fst (es ! (j - 1)))))"

definition sieve_hit :: "obj_id_t \<Rightarrow> sieve \<Rightarrow> sieve" where
  "sieve_hit i s = (map (\<lambda>e. if fst e = i then (i, fst (snd e), 1) else e) (fst s), snd s)"

definition sieve_machine :: "pin_pred \<Rightarrow> sieve machine" where
  "sieve_machine pn = \<lparr>m_ids = \<lambda>s. fst ` set (fst s), m_bytes = \<lambda>md s. view_bytes fst md (fst s),
     m_hit = \<lambda>req. sieve_hit (req_obj_id req), m_evict = sieve_evict pn,
     m_insert = \<lambda>req s. ((req_obj_id req, req_obj_size req, 0) # fst s, snd s)\<rparr>"

section \<open>Refinement\<close>

definition Sieve_at ::
    "env \<Rightarrow> trace_ids \<Rightarrow> ('a, 'f, Sieve_params_t) cache_t \<Rightarrow> addr list \<Rightarrow> sieve \<Rightarrow> bool" where
  "Sieve_at E W c xs s \<longleftrightarrow>
     queue_at sieve_view E W c (Sieve_q_head (eviction_params c)) (Sieve_q_tail (eviction_params c))
       xs (fst s)
     \<and> (\<forall>a. pointer (eviction_params c) = Some a \<longrightarrow> a \<in> set xs)
     \<and> snd s = map_option (\<lambda>a. obj_id (the (store c a))) (pointer (eviction_params c))
     \<and> (\<forall>e \<in> set (fst s). 0 \<le> snd (snd e) \<and> snd (snd e) \<le> 1)"

definition Sieve_R :: "env \<Rightarrow> trace_ids \<Rightarrow> ('a, 'f, Sieve_params_t) cache_t \<Rightarrow> sieve \<Rightarrow> bool" where
  "Sieve_R E W c s \<longleftrightarrow> (\<exists>xs. Sieve_at E W c xs s)"

lemma Sieve_at_queue:
  "Sieve_at E W c xs s \<Longrightarrow> queue_R sieve_view E W c (Sieve_q_head (eviction_params c))
     (Sieve_q_tail (eviction_params c)) (fst s)"
  by (auto simp: Sieve_at_def queue_R_def)

text \<open>The loop of the eviction is the abstract walk.\<close>

lemma Sieve_evict_loop_walk:
  "queue_at sieve_view E W c qh qt xs es \<Longrightarrow> i < length xs \<Longrightarrow>
   \<exists>h. Sieve_evict_loop E (store c) qt (Some (xs ! i)) b
         = Some (h, Some (xs ! snd (sieve_walk (pin E) es i b)))
     \<and> queue_at sieve_view E W (c\<lparr>store := h\<rparr>) qh qt xs (fst (sieve_walk (pin E) es i b))
     \<and> snd (sieve_walk (pin E) es i b) < length xs"
proof (induction "pin E" es i b arbitrary: c rule: sieve_walk.induct)
  case (1 es i b)
  note q = 1(3)
  have x: "dll (store c) qh qt xs" "es = views sieve_view (store c) xs" "length es = length xs"
    using q by (auto simp: queue_at_def)
  obtain ob where ob: "store c (xs ! i) = Some ob" using dll_live [OF x(1)] 1(4) nth_mem by blast
  have e: "es ! i = sieve_view ob" using 1(4) ob x(2) by simp
  have pn: "cache_obj_is_pinned (pin E) ob = pinned_id (pin E) (fst (es ! i))"
    by (simp add: e cache_obj_is_pinned_def pinned_id_def sieve_view_def)
  have fr: "snd (snd (es ! i)) = sieve_freq ob" by (simp add: e sieve_view_def)
  have nx: "(if q_prev ob = NULL then qt else q_prev ob) = Some (xs ! hand_next es i)"
    using dll_prev [OF x(1) 1(4) ob] dll_tail [OF x(1)] 1(4) x(3) by auto
  have nl: "hand_next es i < length xs" using 1(4) x(3) by auto
  have st: "Sieve_evict_loop E (store c) qt (Some (xs ! i)) b =
      (if pinned_id (pin E) (fst (es ! i)) then
         (if b - 1 \<le> 0 then Some (store c, Some (xs ! i))
          else Sieve_evict_loop E (store c) qt (Some (xs ! hand_next es i)) (b - 1))
       else if sieve_freq ob > 0 then
         Sieve_evict_loop E ((store c)(xs ! i \<mapsto> ob\<lparr>sieve_freq := sieve_freq ob - 1\<rparr>)) qt
           (Some (xs ! hand_next es i)) b
       else Some (store c, Some (xs ! i)))"
    by (subst Sieve_evict_loop.simps) (simp add: ob pn Let_def nx del: One_nat_def)
  have wk: "sieve_walk (pin E) es i b =
      (if pinned_id (pin E) (fst (es ! i)) then
         (if b - 1 \<le> 0 then (es, i) else sieve_walk (pin E) es (hand_next es i) (b - 1))
       else if sieve_freq ob > 0 then
         sieve_walk (pin E) (es[i := unvisit (es ! i)]) (hand_next es i) b
       else (es, i))"
    using 1(4) x(3) by (subst sieve_walk.simps) (simp add: fr)
  consider (stop) "pinned_id (pin E) (fst (es ! i))" "b - 1 \<le> 0"
    | (skip) "pinned_id (pin E) (fst (es ! i))" "\<not> b - 1 \<le> 0"
    | (visit) "\<not> pinned_id (pin E) (fst (es ! i))" "sieve_freq ob > 0"
    | (found) "\<not> pinned_id (pin E) (fst (es ! i))" "\<not> sieve_freq ob > 0" by blast
  then show ?case
  proof cases
    case skip
    have "\<exists>h. Sieve_evict_loop E (store c) qt (Some (xs ! hand_next es i)) (b - 1)
         = Some (h, Some (xs ! snd (sieve_walk (pin E) es (hand_next es i) (b - 1))))
     \<and> queue_at sieve_view E W (c\<lparr>store := h\<rparr>) qh qt xs (fst (sieve_walk (pin E) es (hand_next es i) (b - 1)))
     \<and> snd (sieve_walk (pin E) es (hand_next es i) (b - 1)) < length xs"
      by (rule 1(1) [OF _ skip q nl]) (use 1(4) x(3) in simp)
    with skip st wk show ?thesis by simp
  next
    case visit
    let ?ob = "ob\<lparr>sieve_freq := sieve_freq ob - 1\<rparr>"
    let ?c = "c\<lparr>store := (store c)(xs ! i \<mapsto> ?ob)\<rparr>"
    have "queue_at sieve_view E W ?c qh qt xs (es[i := sieve_view ?ob])"
      by (rule sieve.queue_at_update [OF q 1(4) ob]) (simp_all add: core_def)
    then have q2: "queue_at sieve_view E W ?c qh qt xs (es[i := unvisit (es ! i)])"
      by (simp add: e sieve_view_def)
    have "\<exists>h. Sieve_evict_loop E (store ?c) qt (Some (xs ! hand_next es i)) b
         = Some (h, Some (xs ! snd (sieve_walk (pin E) (es[i := unvisit (es ! i)]) (hand_next es i) b)))
     \<and> queue_at sieve_view E W (?c\<lparr>store := h\<rparr>) qh qt xs
         (fst (sieve_walk (pin E) (es[i := unvisit (es ! i)]) (hand_next es i) b))
     \<and> snd (sieve_walk (pin E) (es[i := unvisit (es ! i)]) (hand_next es i) b) < length xs"
      by (rule 1(2) [OF _ visit(1) _ q2 nl]) (use 1(4) x(3) visit(2) fr in simp_all)
    with visit st wk show ?thesis by simp
  qed (use st wk q 1(4) in simp_all)
qed

lemma Sieve_find_refines:
  assumes "Sieve_R E W c s"
  shows "\<exists>c' p. Sieve_find E None c req True = Some (c', p) \<and> same_limits c c'
    \<and> admissioner c' = admissioner c
    \<and> (if req_obj_id req \<in> fst ` set (fst s) then p \<noteq> NULL \<and> Sieve_R E W c' (sieve_hit (req_obj_id req) s)
       else p = NULL \<and> Sieve_R E W c' s)"
proof -
  from assms obtain xs where at: "Sieve_at E W c xs s" by (auto simp: Sieve_R_def)
  note R = Sieve_at_queue [OF at]
  show ?thesis
  proof (cases "req_obj_id req \<in> fst ` set (fst s)")
    case False
    then show ?thesis using assms sieve.queue_find(1) [OF R False] by (simp add: Sieve_find_def)
  next
    case True
    from R True obtain a ob where x: "store c a = Some ob" "obj_id ob = req_obj_id req"
      by (elim sieve.queue_R_object)
    from at have q: "queue_at sieve_view E W c (Sieve_q_head (eviction_params c))
        (Sieve_q_tail (eviction_params c)) xs (fst s)" by (simp add: Sieve_at_def)
    then have ok: "cache_ok E W c (set xs)" "\<not> support_ttl E" "fst s = views sieve_view (store c) xs"
      by (auto simp: queue_at_def)
    have "a \<in> set xs" using x(1) cache_okD(2) [OF ok(1)] by blast
    then obtain i where i: "i < length xs" "xs ! i = a" by (auto simp: in_set_conv_nth)
    let ?ob = "(touched req ob)\<lparr>sieve_freq := 1\<rparr>"
    let ?c = "c\<lparr>store := (store c)(a \<mapsto> ?ob)\<rparr>"
    have "cache_find_base E None (Sieve_remove E) c req True
        = Some (c\<lparr>store := (store c)(a \<mapsto> touched req ob)\<rparr>, Some a)"
      using find_base_hit [OF ok(1) x, of "Sieve_remove E" True] ok(2) by (simp add: expired_def)
    then have f: "Sieve_find E None c req True = Some (?c, Some a)" by (simp add: Sieve_find_def)
    have q2: "queue_at sieve_view E W ?c (Sieve_q_head (eviction_params c))
        (Sieve_q_tail (eviction_params c)) xs ((fst s)[i := sieve_view ?ob])"
      using sieve.queue_at_update [OF q i(1), of ob ?ob] i(2) x(1) by (simp add: touched_def core_def)
    from R have d: "distinct (map fst (fst s))" by (elim sieve.queue_R_E)
    have l: "length (fst s) = length xs" "fst s ! i = sieve_view ob" using ok(3) i x(1) by simp_all
    obtain us vs where sp: "fst s = us @ sieve_view ob # vs" "length us = i"
    proof (rule that)
      show "fst s = take i (fst s) @ sieve_view ob # drop (Suc i) (fst s)"
        using id_take_nth_drop [of i "fst s"] i(1) l by simp
      show "length (take i (fst s)) = i" using i(1) l by simp
    qed
    have v: "sieve_view ?ob = (req_obj_id req, obj_size ob, 1)"
      by (simp add: sieve_view_def touched_def x(2))
    have "map (\<lambda>e. if fst e = req_obj_id req then (req_obj_id req, fst (snd e), 1) else e) (fst s)
        = us @ (req_obj_id req, obj_size ob, 1) # vs"
      using queue_map_split [OF d [unfolded sp(1)], of "\<lambda>e. (req_obj_id req, fst (snd e), 1)"] x(2)
      by (simp add: sp(1) sieve_view_def)
    then have upd: "(fst s)[i := sieve_view ?ob] = fst (sieve_hit (req_obj_id req) s)"
      unfolding v using sp by (simp add: sieve_hit_def list_update_append)
    have "Sieve_at E W ?c xs (sieve_hit (req_obj_id req) s)"
    proof -
      have "obj_id (the (store ?c b)) = obj_id (the (store c b))" for b
        using x by (simp add: touched_def)
      moreover have "\<forall>e \<in> set (fst (sieve_hit (req_obj_id req) s)). 0 \<le> snd (snd e) \<and> snd (snd e) \<le> 1"
        using at by (auto simp: sieve_hit_def Sieve_at_def)
      ultimately show ?thesis using q2 at by (simp add: Sieve_at_def upd) (simp add: sieve_hit_def)
    qed
    then show ?thesis using f True by (auto simp: Sieve_R_def)
  qed
qed

lemma Sieve_insert_refines:
  assumes "Sieve_R E W c s" and "req_obj_id req \<in> fst W" and "req_obj_id req \<notin> fst ` set (fst s)"
  shows "\<exists>c'. Sieve_insert E c req = Some (c', Some (brk c)) \<and> same_limits c c'
    \<and> admissioner c' = admissioner c
    \<and> Sieve_R E W c' ((req_obj_id req, req_obj_size req, 0) # fst s, snd s)"
proof -
  let ?qh = "Sieve_q_head (eviction_params c)" and ?qt = "Sieve_q_tail (eviction_params c)"
  from assms(1) obtain xs where at: "Sieve_at E W c xs s" by (auto simp: Sieve_R_def)
  then have q: "queue_at sieve_view E W c ?qh ?qt xs (fst s)" by (simp add: Sieve_at_def)
  from sieve.queue_at_insert [OF q assms(2,3)] obtain h ht h' qh qt ob where
    i: "cache_insert_base E c req = Some (grown c h ht (req_obj_size req), Some (brk c))"
    "prepend_obj_to_head h ?qh ?qt (Some (brk c)) = Some (h', qh, qt)"
    "queue_at sieve_view E W (grown c h' ht (req_obj_size req)) qh qt (brk c # xs)
       (sieve_view (inserted_obj E c req) # fst s)"
    "h' (brk c) = Some ob" "payload ob = inserted_obj E c req" by blast
  let ?c = "grown c h' ht (req_obj_size req)" and ?ob = "ob\<lparr>sieve_freq := 0\<rparr>"
  let ?p = "(eviction_params c)\<lparr>Sieve_q_head := qh, Sieve_q_tail := qt\<rparr>"
  let ?c' = "?c\<lparr>store := h'(brk c \<mapsto> ?ob), eviction_params := ?p\<rparr>"
  have id: "obj_id ob = req_obj_id req" "obj_size ob = req_obj_size req"
    using arg_cong [OF i(5), of obj_id] arg_cong [OF i(5), of obj_size] by simp_all
  have q2: "queue_at sieve_view E W ?c' qh qt (brk c # xs)
      ((req_obj_id req, req_obj_size req, 0) # fst s)"
    using sieve.queue_at_update [OF i(3), of 0 ob ?ob] i(4) id by (simp add: core_def sieve_view_def)
  have f: "Sieve_insert E c req = Some (?c', Some (brk c))"
    using i by (simp add: Sieve_insert_def)
  have "fst s = views sieve_view (store c) xs" "fst s = views sieve_view (store ?c') xs"
    using q q2 by (auto simp: queue_at_def)
  then have same: "obj_id (the (store ?c' b)) = obj_id (the (store c b))" if "b \<in> set xs" for b
    using that by (metis (no_types, lifting) map_eq_conv sieve.view_id)
  have "Sieve_at E W ?c' (brk c # xs) ((req_obj_id req, req_obj_size req, 0) # fst s, snd s)"
    using q2 at same by (auto simp: Sieve_at_def option.map_comp intro!: option.map_cong)
  then show ?thesis using f by (auto simp: Sieve_R_def same_limits_def)
qed

lemma queue_pos_nth:
  assumes "distinct (map fst es)" and "i < length es"
  shows "queue_pos (fst (es ! i)) es = i"
proof -
  have "distinct (map fst (take i es @ es ! i # drop (Suc i) es))"
    using assms id_take_nth_drop [OF assms(2)] by simp
  then have "\<forall>e \<in> set (take i es). fst e \<noteq> fst (es ! i)" by (auto simp: rev_image_eqI)
  then have "takeWhile (\<lambda>e. fst e \<noteq> fst (es ! i)) (take i es @ es ! i # drop (Suc i) es) = take i es"
    by (intro takeWhile_append2 [of "take i es", THEN trans]) auto
  then show ?thesis
    using assms(2) id_take_nth_drop [OF assms(2)] by (simp add: queue_pos_def)
qed

lemma queue_delete_nth:
  assumes "distinct (map fst es)" and "i < length es"
  shows "queue_delete (fst (es ! i)) es = take i es @ drop (Suc i) es"
  using queue_delete_split [of "take i es" "es ! i" "drop (Suc i) es"] assms
    id_take_nth_drop [OF assms(2)] by simp

text \<open>The position where the walk starts.\<close>

definition sieve_start :: "sieve \<Rightarrow> nat" where
  "sieve_start s = (case snd s of None \<Rightarrow> length (fst s) - 1 | Some h \<Rightarrow> queue_pos h (fst s))"

lemma Sieve_at_start:
  assumes "Sieve_at E W c xs s" and "fst s \<noteq> []"
  shows "sieve_start s < length xs"
    "(if pointer (eviction_params c) = NULL then Sieve_q_tail (eviction_params c)
      else pointer (eviction_params c)) = Some (xs ! sieve_start s)"
proof -
  have x: "dll (store c) (Sieve_q_head (eviction_params c)) (Sieve_q_tail (eviction_params c)) xs"
    "fst s = views sieve_view (store c) xs" using assms(1) by (auto simp: Sieve_at_def queue_at_def)
  have d: "distinct (map fst (fst s))" using Sieve_at_queue [OF assms(1)] by (elim sieve.queue_R_E)
  have ne: "xs \<noteq> []" using assms(2) x(2) by simp
  have "sieve_start s < length xs \<and> (if pointer (eviction_params c) = NULL
      then Sieve_q_tail (eviction_params c) else pointer (eviction_params c)) = Some (xs ! sieve_start s)"
  proof (cases "pointer (eviction_params c)")
    case None
    then have "snd s = None" using assms(1) by (simp add: Sieve_at_def)
    then show ?thesis using None dll_tail [OF x(1) ne] ne x(2) by (simp add: sieve_start_def)
  next
    case (Some a)
    then have a: "a \<in> set xs" "snd s = Some (obj_id (the (store c a)))"
      using assms(1) by (auto simp: Sieve_at_def)
    then obtain i where i: "i < length xs" "xs ! i = a" by (auto simp: in_set_conv_nth)
    have "queue_pos (obj_id (the (store c a))) (fst s) = i"
      using queue_pos_nth [OF d, of i] i x(2) by (simp add: sieve.view_id)
    then show ?thesis using a(2) i Some by (simp add: sieve_start_def)
  qed
  then show "sieve_start s < length xs"
    "(if pointer (eviction_params c) = NULL then Sieve_q_tail (eviction_params c)
      else pointer (eviction_params c)) = Some (xs ! sieve_start s)" by auto
qed

lemma Sieve_evict_refines:
  assumes "Sieve_R E W c s" and "fst s \<noteq> []"
  shows "\<exists>c'. Sieve_evict E None c req = Some c' \<and> same_limits c c' \<and> admissioner c' = admissioner c
    \<and> Sieve_R E W c' (sieve_evict (pin E) s)"
proof -
  let ?P = "eviction_params c"
  from assms(1) obtain xs where at: "Sieve_at E W c xs s" by (auto simp: Sieve_R_def)
  note start = Sieve_at_start [OF at assms(2)]
  let ?i = "sieve_start s" and ?b = "int (length (fst s)) + 1"
  define es where "es = fst (sieve_walk (pin E) (fst s) ?i ?b)"
  define j where "j = snd (sieve_walk (pin E) (fst s) ?i ?b)"
  from at have q: "queue_at sieve_view E W c (Sieve_q_head ?P) (Sieve_q_tail ?P) xs (fst s)"
    by (simp add: Sieve_at_def)
  have n: "n_obj c + 1 = ?b" using sieve.queue_R_bytes(2) [OF Sieve_at_queue [OF at]] by simp
  from Sieve_evict_loop_walk [OF q start(1), of ?b] obtain h where
    l: "Sieve_evict_loop E (store c) (Sieve_q_tail ?P) (Some (xs ! ?i)) ?b = Some (h, Some (xs ! j))"
    "queue_at sieve_view E W (c\<lparr>store := h\<rparr>) (Sieve_q_head ?P) (Sieve_q_tail ?P) xs es" "j < length xs"
    unfolding es_def j_def by blast
  have x: "dll h (Sieve_q_head ?P) (Sieve_q_tail ?P) xs" "es = views sieve_view h xs"
    using l(2) by (auto simp: queue_at_def)
  from dll_live [OF x(1) nth_mem [OF l(3)]] obtain ob where ob: "h (xs ! j) = Some ob" by blast
  have prev: "q_prev ob = (if j = 0 then NULL else Some (xs ! (j - 1)))" by (rule dll_prev [OF x(1) l(3) ob])
  have ej: "es ! j = sieve_view ob" using x(2) l(3) ob by simp
  have sp: "xs = take j xs @ xs ! j # drop (Suc j) xs" by (rule id_take_nth_drop [OF l(3)])
  have d: "distinct (map fst es)"
    using l(2) sieve.queue_R_E [of E W "c\<lparr>store := h\<rparr>"] unfolding queue_R_def by blast
  have del: "queue_delete (obj_id ob) es = take j es @ drop (Suc j) es"
    using queue_delete_nth [OF d, of j] l(3) x(2) ej by (simp add: sieve_view_def)
  let ?p = "\<lambda>qh qt. ?P\<lparr>pointer := q_prev ob, Sieve_q_head := qh, Sieve_q_tail := qt\<rparr>"
  have q2: "queue_at sieve_view E W (c\<lparr>store := h\<rparr>) (Sieve_q_head ?P) (Sieve_q_tail ?P)
      (take j xs @ xs ! j # drop (Suc j) xs) es" using l(2) sp by simp
  from sieve.queue_at_unlink_remove [OF q2, of ob] ob obtain h2 qh qt where
    u: "remove_obj_from_list h (Sieve_q_head ?P) (Sieve_q_tail ?P) (Some (xs ! j)) = Some (h2, qh, qt)"
    and rm: "\<exists>h' ht. cache_remove_obj_base E (c\<lparr>store := h2, eviction_params := p\<rparr>) (Some (xs ! j)) True
      = Some (shrunk (c\<lparr>store := h2, eviction_params := p\<rparr>) h' ht (obj_size ob))
    \<and> queue_at sieve_view E W (shrunk (c\<lparr>store := h2, eviction_params := p\<rparr>) h' ht (obj_size ob)) qh qt
        (take j xs @ drop (Suc j) xs) (queue_delete (obj_id ob) es)" for p by auto
  from rm [of "?p qh qt"] obtain h3 ht where
    r: "cache_remove_obj_base E (c\<lparr>store := h2, eviction_params := ?p qh qt\<rparr>) (Some (xs ! j)) True
      = Some (shrunk (c\<lparr>store := h2, eviction_params := ?p qh qt\<rparr>) h3 ht (obj_size ob))"
    "queue_at sieve_view E W (shrunk (c\<lparr>store := h2, eviction_params := ?p qh qt\<rparr>) h3 ht (obj_size ob)) qh qt
        (take j xs @ drop (Suc j) xs) (queue_delete (obj_id ob) es)" by blast
  let ?c = "shrunk (c\<lparr>store := h2, eviction_params := ?p qh qt\<rparr>) h3 ht (obj_size ob)"
  have ev: "Sieve_evict E None c req = Some ?c"
    unfolding Sieve_evict_def Let_def start(2) using l(1) n u r(1) ob by simp
  have abs: "sieve_evict (pin E) s = (queue_delete (obj_id ob) es, if j = 0 then None else Some (fst (es ! (j - 1))))"
    unfolding sieve_evict_def Let_def es_def j_def sieve_start_def [symmetric]
    using ej by (simp add: es_def j_def sieve_view_def case_prod_beta)
  have "\<forall>e \<in> set es. 0 \<le> snd (snd e) \<and> snd (snd e) \<le> 1"
    unfolding es_def by (rule sieve_walk_bits) (use at in \<open>simp add: Sieve_at_def\<close>)
  then have bits: "\<forall>e \<in> set (queue_delete (obj_id ob) es). 0 \<le> snd (snd e) \<and> snd (snd e) \<le> 1"
    by (simp add: queue_delete_def)
  have hand: "obj_id (the (h3 (xs ! (j - 1)))) = fst (es ! (j - 1))" if "j \<noteq> 0"
  proof -
    have "take j es @ drop (Suc j) es = views sieve_view h3 (take j xs @ drop (Suc j) xs)"
      using r(2) del by (simp add: queue_at_def)
    then have "(take j es @ drop (Suc j) es) ! (j - 1) = sieve_view (the (h3 (xs ! (j - 1))))"
      using that l(3) by (simp add: nth_append)
    then show ?thesis using that l(3) x(2) by (simp add: nth_append sieve.view_id flip: sieve.view_id)
  qed
  have "xs ! (j - 1) \<in> set (take j xs)" if "j \<noteq> 0"
    using that l(3) by (auto simp: in_set_conv_nth intro!: exI [of _ "j - 1"])
  then have "Sieve_at E W ?c (take j xs @ drop (Suc j) xs) (sieve_evict (pin E) s)"
    using r(2) abs bits hand prev by (auto simp: Sieve_at_def)
  with ev show ?thesis by (auto simp: Sieve_R_def same_limits_def)
qed

lemma sieve_evict_ids:
  assumes "distinct (map fst (fst s))" and "sieve_start s < length (fst s)"
  shows "fst ` set (fst (sieve_evict pn s)) \<subset> fst ` set (fst s)"
proof -
  let ?w = "sieve_walk pn (fst s) (sieve_start s) (int (length (fst s)) + 1)"
  have p: "length (fst ?w) = length (fst s)" "snd ?w < length (fst s)" "map fst (fst ?w) = map fst (fst s)"
    using sieve_walk_props [OF assms(2), of pn "int (length (fst s)) + 1" 0] by auto
  then have ids: "fst ` set (fst ?w) = fst ` set (fst s)" by (metis image_set)
  have "fst (fst ?w ! snd ?w) \<in> fst ` set (fst ?w)" using p(1,2) by simp
  moreover have "fst ` set (fst (sieve_evict pn s)) = fst ` set (fst ?w) - {fst (fst ?w ! snd ?w)}"
    by (simp add: sieve_evict_def sieve_start_def [symmetric] case_prod_beta Let_def)
  ultimately show ?thesis using ids by auto
qed

lemma Sieve_R_start:
  assumes "Sieve_R E W c s" and "fst s \<noteq> []"
  shows "distinct (map fst (fst s))" "sieve_start s < length (fst s)"
proof -
  from assms(1) obtain xs where at: "Sieve_at E W c xs s" by (auto simp: Sieve_R_def)
  show "distinct (map fst (fst s))" using Sieve_at_queue [OF at] by (elim sieve.queue_R_E)
  have "length (fst s) = length xs" using at by (auto simp: Sieve_at_def queue_at_def)
  then show "sieve_start s < length (fst s)" using Sieve_at_start(1) [OF at assms(2)] by simp
qed

lemma Sieve_R_queue:
  "Sieve_R E W c s \<Longrightarrow> queue_R sieve_view E W c (Sieve_q_head (eviction_params c))
     (Sieve_q_tail (eviction_params c)) (fst s)"
  by (auto simp: Sieve_R_def intro: Sieve_at_queue)

lemma sieve_hit_simps [simp]:
  "fst ` set (fst (sieve_hit i s)) = fst ` set (fst s)"
  "view_bytes fst md (fst (sieve_hit i s)) = view_bytes fst md (fst s)"
proof -
  have "fst ` set (fst (sieve_hit i (es, h))) = fst ` set es
      \<and> view_bytes fst md (fst (sieve_hit i (es, h))) = view_bytes fst md es" for es h
    by (induction es) (auto simp: sieve_hit_def)
  then show "fst ` set (fst (sieve_hit i s)) = fst ` set (fst s)"
    "view_bytes fst md (fst (sieve_hit i s)) = view_bytes fst md (fst s)" by (metis prod.collapse)+
qed

interpretation sieve_policy: refined_policy "Sieve_ops E None" "Sieve_R E W" "sieve_machine (pin E)"
  "\<lambda>req. req_obj_id req \<in> fst W" for E W
proof (standard, goal_cases)
  case (3 c s)
  then show ?case using sieve.queue_R_resident [OF Sieve_R_queue] by (simp add: sieve_machine_def)
next
  case (4 c s)
  then show ?case using sieve.queue_R_bytes(1) [OF Sieve_R_queue]
    by (simp add: sieve_machine_def Sieve_ops_def cache_get_occupied_byte_default_def)
next
  case (6 c s req)
  then show ?case using Sieve_find_refines [of E W c s req]
    by (cases "req_obj_id req \<in> fst ` set (fst s)") (simp_all add: Sieve_ops_def sieve_machine_def)
next
  case (7 c s req)
  then show ?case using Sieve_evict_refines [of E W c s req]
    by (simp add: Sieve_ops_def sieve_machine_def)
next
  case (8 c s req)
  then show ?case using Sieve_insert_refines [of E W c s req]
    by (auto simp: Sieve_ops_def sieve_machine_def)
next
  case (11 c s)
  then have ne: "fst s \<noteq> []" by (auto simp: sieve_machine_def)
  show ?case using sieve_evict_ids [OF Sieve_R_start [OF 11(1) ne]] by (simp add: sieve_machine_def)
qed (auto simp: Sieve_R_def Sieve_at_def Sieve_ops_def sieve_machine_def)


lemma Sieve_init_R:
  assumes "spread E W" "\<not> support_ttl E" "0 < ccp_hashpower p" "ccp_hashpower p < 40"
    "int (snd W) \<le> ccp_hashpower p"
  shows "Sieve_R E W (Sieve_init pf0 p s) ([], None)"
    "cache_size (Sieve_init pf0 p s) = ccp_cache_size p"
    "obj_md_size (Sieve_init pf0 p s) = (if ccp_consider_obj_metadata p then 1 else 0)"
    "admissioner (Sieve_init pf0 p s) = None"
proof -
  have "cache_ok E W (Sieve_init pf0 p s) {}"
    unfolding Sieve_init_def using cache_ok_init [OF assms(3-5)] by (simp split del: if_split)
  then show "Sieve_R E W (Sieve_init pf0 p s) ([], None)"
    using assms(1,2) by (auto simp: Sieve_R_def Sieve_at_def queue_at_def Sieve_init_def intro!: exI [of _ "[]"])
qed (simp_all add: Sieve_init_def)

section \<open>Removal\<close>

text \<open>Removing an object moves the hand off it first, to the object that the walk would visit next.\<close>

definition sieve_remove :: "obj_id_t \<Rightarrow> sieve \<Rightarrow> sieve" where
  "sieve_remove i s =
    (queue_delete i (fst s),
     if snd s = Some i then
       (let j = queue_pos i (fst s) in if j = 0 then None else Some (fst (fst s ! (j - 1))))
     else snd s)"

lemma Sieve_remove_obj_refines:
  assumes at: "Sieve_at E W c xs s" and j: "j < length xs" and ob: "store c (xs ! j) = Some ob"
  shows "\<exists>c'. Sieve_remove_obj E c (Some (xs ! j)) = Some c' \<and> Sieve_R E W c' (sieve_remove (obj_id ob) s)"
proof -
  let ?P = "eviction_params c"
  let ?q = "if Some (xs ! j) = pointer ?P then ?P\<lparr>pointer := q_prev ob\<rparr> else ?P"
  from at have q: "queue_at sieve_view E W c (Sieve_q_head ?P) (Sieve_q_tail ?P)
      (take j xs @ xs ! j # drop (Suc j) xs) (fst s)"
    by (simp add: Sieve_at_def id_take_nth_drop [OF j, symmetric])
  have x: "dll (store c) (Sieve_q_head ?P) (Sieve_q_tail ?P) xs" "fst s = views sieve_view (store c) xs"
    using at by (auto simp: Sieve_at_def queue_at_def)
  have prev: "q_prev ob = (if j = 0 then NULL else Some (xs ! (j - 1)))" by (rule dll_prev [OF x(1) j ob])
  have d: "distinct (map fst (fst s))" using Sieve_at_queue [OF at] by (elim sieve.queue_R_E)
  have dx: "distinct xs" by (rule dll_distinct [OF x(1)])
  have ej: "fst s ! j = sieve_view ob" using x(2) j ob by simp
  have del: "queue_delete (obj_id ob) (fst s) = take j (fst s) @ drop (Suc j) (fst s)"
    using queue_delete_nth [OF d, of j] j x(2) ej by (simp add: sieve_view_def)
  have pos: "queue_pos (obj_id ob) (fst s) = j"
    using queue_pos_nth [OF d, of j] j x(2) ej by (simp add: sieve_view_def)
  from sieve.queue_at_unlink_remove [OF q ob] obtain h2 qh qt where
    u: "remove_obj_from_list (store c) (Sieve_q_head ?P) (Sieve_q_tail ?P) (Some (xs ! j)) = Some (h2, qh, qt)"
    and rm: "\<exists>h' ht. cache_remove_obj_base E (c\<lparr>store := h2, eviction_params := p\<rparr>) (Some (xs ! j)) True
      = Some (shrunk (c\<lparr>store := h2, eviction_params := p\<rparr>) h' ht (obj_size ob))
    \<and> queue_at sieve_view E W (shrunk (c\<lparr>store := h2, eviction_params := p\<rparr>) h' ht (obj_size ob)) qh qt
        (take j xs @ drop (Suc j) xs) (queue_delete (obj_id ob) (fst s))" for p by auto
  let ?p = "?q\<lparr>Sieve_q_head := qh, Sieve_q_tail := qt\<rparr>"
  from rm [of ?p] obtain h3 ht where
    r: "cache_remove_obj_base E (c\<lparr>store := h2, eviction_params := ?p\<rparr>) (Some (xs ! j)) True
      = Some (shrunk (c\<lparr>store := h2, eviction_params := ?p\<rparr>) h3 ht (obj_size ob))"
    "queue_at sieve_view E W (shrunk (c\<lparr>store := h2, eviction_params := ?p\<rparr>) h3 ht (obj_size ob)) qh qt
        (take j xs @ drop (Suc j) xs) (queue_delete (obj_id ob) (fst s))" by blast
  let ?c = "shrunk (c\<lparr>store := h2, eviction_params := ?p\<rparr>) h3 ht (obj_size ob)"
  have ev: "Sieve_remove_obj E c (Some (xs ! j)) = Some ?c"
  proof -
    have "(pointer ?P = Some (xs ! j)) = (Some (xs ! j) = pointer ?P)" by auto
    then show ?thesis using u r(1) ob
      by (cases "pointer ?P = Some (xs ! j)") (simp_all add: Sieve_remove_obj_def Let_def)
  qed
  have "take j (fst s) @ drop (Suc j) (fst s) = views sieve_view h3 (take j xs @ drop (Suc j) xs)"
    using r(2) del by (simp add: queue_at_def)
  then have "views sieve_view (store c) (take j xs @ drop (Suc j) xs) = views sieve_view h3 (take j xs @ drop (Suc j) xs)"
    by (simp add: x(2) take_map drop_map)
  then have same: "obj_id (the (h3 b)) = obj_id (the (store c b))" if "b \<in> set (take j xs @ drop (Suc j) xs)" for b
    using that by (metis (no_types, lifting) map_eq_conv sieve.view_id)
  have rest: "b \<in> set (take j xs @ drop (Suc j) xs)" if "b \<in> set xs" "b \<noteq> xs ! j" for b
    using that id_take_nth_drop [OF j] by (metis Un_iff set_ConsD set_append)
  have left: "xs ! (j - 1) \<in> set (take j xs @ drop (Suc j) xs)" if "j \<noteq> 0"
    using that j by (auto simp: in_set_conv_nth intro!: exI [of _ "j - 1"])
  have left_id: "fst (fst s ! (j - 1)) = obj_id (the (store c (xs ! (j - 1))))"
    using x(2) j by (simp add: sieve.view_id)
  have inj: "obj_id (the (store c b)) \<noteq> obj_id ob" if "b \<in> set xs" "b \<noteq> xs ! j" for b
  proof
    assume eq: "obj_id (the (store c b)) = obj_id ob"
    from that obtain k where k: "k < length xs" "xs ! k = b" by (auto simp: in_set_conv_nth)
    have "map fst (fst s) ! k = map fst (fst s) ! j" using k j x(2) ob eq by (simp add: sieve.view_id)
    then show False using d k j that(2) x(2) by (auto simp: distinct_conv_nth)
  qed
  have hand: "snd (sieve_remove (obj_id ob) s) = map_option (\<lambda>a. obj_id (the (h3 a))) (pointer ?p)
      \<and> (\<forall>a. pointer ?p = Some a \<longrightarrow> a \<in> set (take j xs @ drop (Suc j) xs))"
  proof (cases "pointer ?P = Some (xs ! j)")
    case True
    then have "snd s = Some (obj_id ob)" using at ob by (simp add: Sieve_at_def)
    then show ?thesis using True prev pos same [OF left] left left_id
      by (auto simp: sieve_remove_def Let_def)
  next
    case False
    show ?thesis
    proof (cases "pointer ?P")
      case None
      then show ?thesis using at by (simp add: Sieve_at_def sieve_remove_def)
    next
      case (Some b)
      then have b: "b \<in> set xs" "b \<noteq> xs ! j" "snd s = Some (obj_id (the (store c b)))"
        using at False by (auto simp: Sieve_at_def)
      have "obj_id (the (h3 b)) = obj_id (the (store c b))" by (rule same [OF rest [OF b(1,2)]])
      then show ?thesis using Some b inj [OF b(1,2)] rest [OF b(1,2)] False
        by (auto simp: sieve_remove_def)
    qed
  qed
  have "\<forall>e \<in> set (queue_delete (obj_id ob) (fst s)). 0 \<le> snd (snd e) \<and> snd (snd e) \<le> 1"
    using at by (simp add: Sieve_at_def queue_delete_def)
  then have "Sieve_at E W ?c (take j xs @ drop (Suc j) xs) (sieve_remove (obj_id ob) s)"
    using r(2) hand unfolding Sieve_at_def by (simp add: sieve_remove_def)
  with ev show ?thesis by (auto simp: Sieve_R_def)
qed

lemma Sieve_remove_refines:
  assumes "Sieve_R E W c s"
  shows "\<exists>c'. Sieve_remove E c i = Some (c', i \<in> fst ` set (fst s))
    \<and> Sieve_R E W c' (if i \<in> fst ` set (fst s) then sieve_remove i s else s)"
proof -
  note R = Sieve_R_queue [OF assms]
  show ?thesis
  proof (cases "i \<in> fst ` set (fst s)")
    case True
    from assms obtain xs where at: "Sieve_at E W c xs s" by (auto simp: Sieve_R_def)
    from sieve.queue_R_object [OF R True] obtain a ob where x: "store c a = Some ob" "obj_id ob = i" by metis
    have "cache_ok E W c (set xs)" using at by (simp add: Sieve_at_def queue_at_def)
    from cache_okD(2) [OF this] x(1) have "a \<in> set xs" by blast
    then obtain j where j: "j < length xs" "xs ! j = a" by (auto simp: in_set_conv_nth)
    with Sieve_remove_obj_refines [OF at j(1)] x obtain c' where
      "Sieve_remove_obj E c (Some a) = Some c'" "Sieve_R E W c' (sieve_remove i s)" by auto
    then show ?thesis using True sieve.queue_lookup(2) [OF R x] by (auto simp: Sieve_remove_def)
  next
    case False
    then show ?thesis using sieve.queue_lookup(1) [OF R False] assms by (auto simp: Sieve_remove_def)
  qed
qed

section \<open>Properties\<close>

text \<open>
  C9: a Sieve cache behaves, on every trace from its initialisation, like the queue of its objects
  with their visited bits and the id under the hand: a hit sets the bit and moves nothing, an
  eviction walks from the hand towards the head, clears the bits it passes and removes the first
  object that is not visited, and the hand rests on its neighbour.  The code returns for every
  request, so the walk ends, and the hand never dangles.
\<close>

theorem Sieve_serve_refines:
  fixes pf0 :: 'f
  assumes "spread E W" and "\<not> support_ttl E"
    and "0 < ccp_hashpower p" and "ccp_hashpower p < 40" and "int (snd W) \<le> ccp_hashpower p"
    and "\<forall>req \<in> set reqs. req_obj_id req \<in> fst W"
  shows "\<exists>(c :: ('a, 'f, Sieve_params_t) cache_t) s hits.
    serve (Sieve_ops E None) None (Sieve_init pf0 p sp) reqs = Some (c, hits)
    \<and> spec_serve (sieve_machine (pin E)) (ccp_cache_size p)
        (if ccp_consider_obj_metadata p then 1 else 0) ([], None) reqs = Some (s, hits)
    \<and> queue_R sieve_view E W c (Sieve_q_head (eviction_params c)) (Sieve_q_tail (eviction_params c)) (fst s)
    \<and> snd s = map_option (\<lambda>a. obj_id (the (store c a))) (pointer (eviction_params c))
    \<and> (\<forall>a. pointer (eviction_params c) = Some a \<longrightarrow> a \<in> dom (store c))"
proof -
  let ?c0 = "Sieve_init pf0 p sp :: ('a, 'f, Sieve_params_t) cache_t"
  have i: "Sieve_R E W ?c0 ([], None)" "cache_size ?c0 = ccp_cache_size p"
    "obj_md_size ?c0 = (if ccp_consider_obj_metadata p then 1 else 0)" "admissioner ?c0 = None"
    by (rule Sieve_init_R [OF assms(1-5)])+
  from sieve_policy.serve_refines [OF i(1) assms(6) i(4)] i(2,3) obtain c s hits where
    c: "serve (Sieve_ops E None) None ?c0 reqs = Some (c, hits)"
    "spec_serve (sieve_machine (pin E)) (ccp_cache_size p)
        (if ccp_consider_obj_metadata p then 1 else 0) ([], None) reqs = Some (s, hits)"
    and R: "Sieve_R E W c s" by auto
  from R obtain xs where at: "Sieve_at E W c xs s" by (auto simp: Sieve_R_def)
  from at have "queue_at sieve_view E W c (Sieve_q_head (eviction_params c))
      (Sieve_q_tail (eviction_params c)) xs (fst s)" by (simp add: Sieve_at_def)
  then have "cache_ok E W c (set xs)" by (simp add: queue_at_def)
  then have "dom (store c) = set xs" by (rule cache_okD(2))
  then show ?thesis using c Sieve_R_queue [OF R] at by (auto simp: Sieve_at_def)
qed

text \<open>The object 1, hit once, survives the eviction that takes the younger object 2.\<close>

theorem Sieve_serve_refines_witness:
  "\<exists>c :: (unit, unit, Sieve_params_t) cache_t.
     serve (Sieve_ops sample_env None) None (Sieve_init () (sample_params 2) None)
       [sample_req 1 1, sample_req 2 1, sample_req 1 1, sample_req 3 1, sample_req 1 1, sample_req 2 1]
       = Some (c, [False, False, True, False, True, False])"
proof -
  let ?reqs = "[sample_req 1 1, sample_req 2 1, sample_req 1 1, sample_req 3 1, sample_req 1 1, sample_req 2 1]"
  have "spec_serve (sieve_machine None) 2 0 ([], None) ?reqs
      = Some (([(2, 1, 0), (1, 1, 0)], None), [False, False, True, False, True, False])"
    by (simp add: spec_get_def spec_evict.simps sieve_machine_def sieve_hit_def sieve_evict_def
        sieve_walk.simps queue_delete_def queue_pos_def pinned_id_def Let_def)
  with Sieve_serve_refines [of sample_env sample_ids "sample_params 2" ?reqs "()" None] show ?thesis
    by (auto simp del: serve.simps spec_serve.simps)
qed

text \<open>
  C24: with pinned objects the walk of the eviction can give up too early.  Its budget, one more
  than the number of objects, is spent on every pinned object it meets, also when the walk comes
  by a second time after clearing the bit of an unpinned object: a cache is reached in which the
  objects 1 and 2 are pinned, the object 3 is not, and the eviction removes the pinned object 2.
\<close>

theorem Sieve_evict_takes_pinned:
  "\<exists>(c :: (unit, unit, Sieve_params_t) cache_t) hits c'.
     serve (Sieve_ops (sample_env\<lparr>pin := Some (\<lambda>i. i \<noteq> 3)\<rparr>) None) None (Sieve_init () (sample_params 3) None)
       [sample_req 1 1, sample_req 2 1, sample_req 3 1, sample_req 3 1] = Some (c, hits)
     \<and> resident c = {1, 2, 3}
     \<and> Sieve_evict (sample_env\<lparr>pin := Some (\<lambda>i. i \<noteq> 3)\<rparr>) None c (sample_req 4 1) = Some c'
     \<and> resident c' = {1, 3}"
proof -
  let ?E = "sample_env\<lparr>pin := Some (\<lambda>i. i \<noteq> 3)\<rparr>" and ?es = "[(3, 1, 1), (2, 1, 0), (1, 1, 0)]"
  let ?c0 = "Sieve_init () (sample_params 3) None :: (unit, unit, Sieve_params_t) cache_t"
  let ?reqs = "[sample_req 1 1, sample_req 2 1, sample_req 3 1, sample_req 3 1]"
  have i: "Sieve_R ?E sample_ids ?c0 ([], None)" "cache_size ?c0 = 3" "obj_md_size ?c0 = 0" "admissioner ?c0 = None"
    using Sieve_init_R [of ?E sample_ids "sample_params 3" "()" None] by simp_all
  have "spec_serve (sieve_machine (pin ?E)) 3 0 ([], None) ?reqs
      = Some ((?es, None), [False, False, False, True])"
    by (simp add: spec_get_def spec_evict.simps sieve_machine_def sieve_hit_def)
  with sieve_policy.serve_refines [OF i(1) _ i(4), of ?reqs] i(2,3) obtain c hits where
    c: "serve (Sieve_ops ?E None) None ?c0 ?reqs = Some (c, hits)" "Sieve_R ?E sample_ids c (?es, None)"
    by (auto simp del: serve.simps spec_serve.simps)
  from Sieve_evict_refines [OF c(2)] obtain c' where
    c': "Sieve_evict ?E None c (sample_req 4 1) = Some c'"
    "Sieve_R ?E sample_ids c' (sieve_evict (pin ?E) (?es, None))" by auto
  have "sieve_evict (pin ?E) (?es, None) = ([(3, 1, 0), (1, 1, 0)], Some 3)"
    by (simp add: sieve_evict_def sieve_walk.simps queue_delete_def pinned_id_def Let_def)
  with c' have "resident c' = {1, 3}" using sieve.queue_R_resident [OF Sieve_R_queue [OF c'(2)]] by auto
  moreover have "resident c = {1, 2, 3}" using sieve.queue_R_resident [OF Sieve_R_queue [OF c(2)]] by auto
  ultimately show ?thesis using c(1) c'(1) by blast
qed

text \<open>
  A removal takes exactly the object it names out of a Sieve cache, reports whether there was
  one, and moves the hand off the object first, so that it never dangles: the hand rests on the
  neighbour towards the head, or is reset at the head.
\<close>

theorem Sieve_remove_hand:
  assumes "Sieve_R E W c s"
  shows "\<exists>c' s'. Sieve_remove E c i = Some (c', i \<in> resident c) \<and> resident c' = resident c - {i}
    \<and> Sieve_R E W c' s' \<and> fst s' = queue_delete i (fst s)
    \<and> (snd s \<noteq> Some i \<longrightarrow> snd s' = snd s)
    \<and> (\<forall>us e e' vs. snd s = Some i \<longrightarrow> fst s = us @ e # e' # vs \<longrightarrow> fst e' = i \<longrightarrow> snd s' = Some (fst e))
    \<and> (\<forall>e vs. snd s = Some i \<longrightarrow> fst s = e # vs \<longrightarrow> fst e = i \<longrightarrow> snd s' = None)"
proof -
  note res = sieve.queue_R_resident [OF Sieve_R_queue]
  from Sieve_remove_refines [OF assms, of i] obtain c' s' where
    c': "Sieve_remove E c i = Some (c', i \<in> fst ` set (fst s))" "Sieve_R E W c' s'"
    and s': "s' = (if i \<in> fst ` set (fst s) then sieve_remove i s else s)" by blast
  have del: "fst s' = queue_delete i (fst s)" by (simp add: s' sieve_remove_def queue_delete_absent)
  have d: "distinct (map fst (fst s))" using Sieve_R_queue [OF assms] by (elim sieve.queue_R_E)
  have "snd s' = Some (fst e)"
    if "snd s = Some i" "fst s = us @ e # e' # vs" "fst e' = i" for us e e' vs
    using queue_pos_nth [OF d, of "Suc (length us)"] that by (auto simp: s' sieve_remove_def nth_append)
  moreover have "snd s' = None" if "snd s = Some i" "fst s = e # vs" "fst e = i" for e vs
    using queue_pos_nth [OF d, of 0] that by (auto simp: s' sieve_remove_def)
  moreover have "snd s' = snd s" if "snd s \<noteq> Some i" using that by (simp add: s' sieve_remove_def)
  moreover have "resident c' = resident c - {i}" using res [OF c'(2)] res [OF assms] del by simp
  moreover have "Sieve_remove E c i = Some (c', i \<in> resident c)" using c'(1) res [OF assms] by simp
  ultimately show ?thesis using c'(2) del by blast
qed

text \<open>Removing the object 2 under the hand moves the hand to the object 3.\<close>

theorem Sieve_remove_hand_witness:
  "\<exists>(c :: (unit, unit, Sieve_params_t) cache_t) c' s'. resident c = {2, 3, 4}
     \<and> Sieve_remove sample_env c 2 = Some (c', True) \<and> resident c' = {3, 4}
     \<and> Sieve_R sample_env sample_ids c' s' \<and> snd s' = Some 3"
proof -
  let ?c0 = "Sieve_init () (sample_params 3) None :: (unit, unit, Sieve_params_t) cache_t"
  let ?reqs = "[sample_req 1 1, sample_req 2 1, sample_req 3 1, sample_req 4 1]"
  let ?es = "[(4, 1, 0), (3, 1, 0), (2, 1, 0)]"
  have i: "Sieve_R sample_env sample_ids ?c0 ([], None)" "cache_size ?c0 = 3" "obj_md_size ?c0 = 0"
    "admissioner ?c0 = None"
    using Sieve_init_R [of sample_env sample_ids "sample_params 3" "()" None] by simp_all
  have "spec_serve (sieve_machine None) 3 0 ([], None) ?reqs
      = Some ((?es, Some 2), [False, False, False, False])"
    by (simp add: spec_get_def spec_evict.simps sieve_machine_def sieve_evict_def
        sieve_walk.simps queue_delete_def pinned_id_def Let_def)
  with sieve_policy.serve_refines [OF i(1) _ i(4), of ?reqs] i(2,3) obtain c :: "(unit, unit, Sieve_params_t) cache_t"
    where c: "Sieve_R sample_env sample_ids c (?es, Some 2)" by (auto simp del: serve.simps spec_serve.simps)
  have res: "resident c = {2, 3, 4}" using sieve.queue_R_resident [OF Sieve_R_queue [OF c]] by auto
  from Sieve_remove_hand [OF c, of 2] show ?thesis
  proof (elim exE conjE)
    fix c' s'
    assume r: "Sieve_remove sample_env c 2 = Some (c', 2 \<in> resident c)" "resident c' = resident c - {2}"
      "Sieve_R sample_env sample_ids c' s'"
      and hand: "\<forall>us e e' vs. snd (?es, Some 2) = Some 2 \<longrightarrow> fst (?es, Some 2) = us @ e # e' # vs \<longrightarrow>
       fst e' = 2 \<longrightarrow> snd s' = Some (fst e)"
    have "snd s' = Some 3" using hand [rule_format, of "[(4, 1, 0)]" "(3, 1, 0)" "(2, 1, 0)" "[]"] by simp
    with r res show ?thesis by (intro exI [of _ c] exI [of _ c'] exI [of _ s']) auto
  qed
qed

end
