(* ===== verification/S3FIFO.thy ===== *)
theory S3FIFO
  imports Sub_Cache Double
begin

text \<open>
  S3-FIFO (\<open>cache/eviction/S3FIFO.c\<close>): a small and a main FIFO cache and a ghost FIFO cache that
  remembers ids only.  The three are FIFO caches of their own, with their own tables, and the
  model keeps them as such; the abstract machine has three lists and the two flags.
\<close>

section \<open>Model\<close>

record ('a, 'f) S3FIFO_params_t =
  small_fifo :: "('a, 'f, FIFO_params_t) cache_t"
  ghost_fifo :: "('a, 'f, FIFO_params_t) cache_t option"
  main_fifo :: "('a, 'f, FIFO_params_t) cache_t"
  hit_on_ghost :: bool
  move_to_main_threshold :: int
  small_size_ratio :: double
  ghost_size_ratio :: double
  has_evicted :: bool
  req_local :: request

type_synonym ('a, 'f) s3fifo_cache = "('a, 'f, ('a, 'f) S3FIFO_params_t) cache_t"

subsection \<open>Parameters\<close>

text \<open>The parsed settings: the small and the ghost ratio and the threshold.\<close>

type_synonym s3_settings = "double \<times> double \<times> int"

definition S3FIFO_param :: "string \<Rightarrow> string option \<Rightarrow> s3_settings \<Rightarrow> s3_settings option" where
  "S3FIFO_param key val p = (case p of (sr, gr, th) \<Rightarrow>
     if strcasecmp_eq key ''fifo-size-ratio'' \<or> strcasecmp_eq key ''small-size-ratio''
     then map_option (\<lambda>s. (strtod s, gr, th)) val
     else if strcasecmp_eq key ''ghost-size-ratio'' then map_option (\<lambda>s. (sr, strtod s, th)) val
     else if strcasecmp_eq key ''move-to-main-threshold'' then map_option (\<lambda>s. (sr, gr, atoi s)) val
     else None)"

definition S3FIFO_parse_params :: "s3_settings \<Rightarrow> string option \<Rightarrow> s3_settings option" where
  "S3FIFO_parse_params = parse_loop S3FIFO_param"

definition S3FIFO_DEFAULT_CACHE_PARAMS :: string where
  "S3FIFO_DEFAULT_CACHE_PARAMS =
     ''small-size-ratio=0.10,ghost-size-ratio=0.90,move-to-main-threshold=2''"

definition S3FIFO_current_params :: "s3_settings \<Rightarrow> string" where
  "S3FIFO_current_params p = (case p of (sr, gr, th) \<Rightarrow>
     take 127 (''small-size-ratio='' @ show_fixed 4 sr @ '',ghost-size-ratio='' @ show_fixed 4 gr
       @ '',move-to-main-threshold='' @ show_int th @ [CHR 0x0A]))"

subsection \<open>Initialisation\<close>

text \<open>The loop that raises \<open>hp\<close> while the table has fewer slots than the cache may need.\<close>

function s3fifo_hp_loop :: "int \<Rightarrow> int \<Rightarrow> int" where
  "s3fifo_hp_loop hp slots =
    (if 2 ^ nat hp < slots \<and> hp < HASH_POWER_DEFAULT then s3fifo_hp_loop (hp + 1) slots else hp)"
  by pat_completeness auto
termination
  by (relation "measure (\<lambda>(hp, slots). nat (HASH_POWER_DEFAULT - hp))") auto

declare s3fifo_hp_loop.simps [simp del]

definition s3fifo_hashpower_for_size :: "int \<Rightarrow> int" where
  "s3fifo_hashpower_for_size size_bytes =
    (if size_bytes \<le> 0 then 1 else s3fifo_hp_loop 1 (size_bytes div 8))"

definition s3fifo_child_hashpower :: "int \<Rightarrow> int \<Rightarrow> int" where
  "s3fifo_child_hashpower requested size_bytes =
    (let hp = s3fifo_hashpower_for_size size_bytes
     in if requested > 0 \<and> requested < hp then requested else hp)"

definition s3fifo_child ::
    "'f \<Rightarrow> common_cache_params_t \<Rightarrow> int \<Rightarrow> ('a, 'f, FIFO_params_t) cache_t" where
  "s3fifo_child pf0 p n =
    FIFO_init pf0 (p\<lparr>ccp_cache_size := n, ccp_hashpower := s3fifo_child_hashpower (ccp_hashpower p) n\<rparr>) None"

text \<open>A configuration that leaves no room in one of the queues is an \<open>ERROR\<close>, which aborts.\<close>

definition S3FIFO_init ::
    "'f \<Rightarrow> common_cache_params_t \<Rightarrow> string option \<Rightarrow> ('a, 'f) s3fifo_cache option" where
  "S3FIFO_init pf0 ccache_params cache_specific_params = do {
     params \<leftarrow> S3FIFO_parse_params (0, 0, 0) (Some S3FIFO_DEFAULT_CACHE_PARAMS);
     (sr, gr, th) \<leftarrow> (if cache_specific_params \<noteq> None
        then S3FIFO_parse_params params cache_specific_params else Some params);
     let small_fifo_size = scale_int (ccp_cache_size ccache_params) sr;
     let main_fifo_size = ccp_cache_size ccache_params - small_fifo_size;
     let ghost_fifo_size = scale_int (ccp_cache_size ccache_params) gr;
     if small_fifo_size \<le> 0 \<or> main_fifo_size \<le> 0 then None
     else (let ghost = (if ghost_fifo_size > 0
             then Some ((s3fifo_child pf0 ccache_params ghost_fifo_size)\<lparr>cache_name := ''FIFO-ghost''\<rparr>)
             else None);
           params = \<lparr>small_fifo = s3fifo_child pf0 ccache_params small_fifo_size, ghost_fifo = ghost,
             main_fifo = s3fifo_child pf0 ccache_params main_fifo_size, hit_on_ghost = False,
             move_to_main_threshold = th, small_size_ratio = sr, ghost_size_ratio = gr,
             has_evicted = False, req_local = new_request\<rparr>
       in Some ((cache_struct_init ''S3FIFO'' ccache_params cache_specific_params pf0 params)
            \<lparr>obj_md_size := 0,
             cache_name := take 63 (''S3FIFO-'' @ show_fixed 4 sr @ ''-'' @ show_int th)\<rparr>)) }"

subsection \<open>Operations\<close>

abbreviation fifo_byte :: "('a, 'f, FIFO_params_t) cache_t \<Rightarrow> int" where
  "fifo_byte c \<equiv> cache_get_occupied_byte_default c"

text \<open>The increment of the counter of an object that was found.\<close>

definition S3FIFO_bump ::
    "('a, 'f, FIFO_params_t) cache_t \<Rightarrow> ptr \<Rightarrow> ('a, 'f, FIFO_params_t) cache_t option" where
  "S3FIFO_bump c obj = do {
     h \<leftarrow> upd_obj (store c) obj (\<lambda>ob. ob\<lparr>S3FIFO_freq := S3FIFO_freq ob + 1\<rparr>);
     Some (c\<lparr>store := h\<rparr>) }"

definition S3FIFO_find ::
    "env \<Rightarrow> ('a, 'f) s3fifo_cache \<Rightarrow> request \<Rightarrow> bool \<Rightarrow> (('a, 'f) s3fifo_cache \<times> ptr) option" where
  "S3FIFO_find E c req update_cache = (let params = eviction_params c in
     if \<not> update_cache then do {
       (small, obj) \<leftarrow> FIFO_find E None (small_fifo params) req False;
       let params = params\<lparr>small_fifo := small\<rparr>;
       if obj \<noteq> NULL then Some (c\<lparr>eviction_params := params\<rparr>, obj)
       else do {
         (main, obj) \<leftarrow> FIFO_find E None (main_fifo params) req False;
         Some (c\<lparr>eviction_params := params\<lparr>main_fifo := main\<rparr>\<rparr>, obj) } }
     else do {
       let params = params\<lparr>hit_on_ghost := False\<rparr>;
       (small, obj) \<leftarrow> FIFO_find E None (small_fifo params) req True;
       if obj \<noteq> NULL then do {
         small \<leftarrow> S3FIFO_bump small obj;
         Some (c\<lparr>eviction_params := params\<lparr>small_fifo := small\<rparr>\<rparr>, obj) }
       else do {
         let params = params\<lparr>small_fifo := small\<rparr>;
         params \<leftarrow> (case ghost_fifo params of None \<Rightarrow> Some params
           | Some g \<Rightarrow> do {
               (g, removed) \<leftarrow> FIFO_remove E g (req_obj_id req);
               Some (params\<lparr>ghost_fifo := Some g,
                 hit_on_ghost := (if removed then True else hit_on_ghost params)\<rparr>) });
         (main, obj) \<leftarrow> FIFO_find E None (main_fifo params) req True;
         main \<leftarrow> (if obj \<noteq> NULL then S3FIFO_bump main obj else Some main);
         Some (c\<lparr>eviction_params := params\<lparr>main_fifo := main\<rparr>\<rparr>, obj) } })"

text \<open>The insertion into one of the queues, and \<open>obj->S3FIFO.freq = 0\<close> behind it.\<close>

definition S3FIFO_put ::
    "env \<Rightarrow> ('a, 'f, FIFO_params_t) cache_t \<Rightarrow> request \<Rightarrow>
     (('a, 'f, FIFO_params_t) cache_t \<times> ptr) option" where
  "S3FIFO_put E q req = do {
     (q, obj) \<leftarrow> FIFO_insert E q req;
     h \<leftarrow> upd_obj (store q) obj (\<lambda>ob. ob\<lparr>S3FIFO_freq := 0\<rparr>);
     Some (q\<lparr>store := h\<rparr>, obj) }"

definition S3FIFO_insert ::
    "env \<Rightarrow> ('a, 'f) s3fifo_cache \<Rightarrow> request \<Rightarrow> (('a, 'f) s3fifo_cache \<times> ptr) option" where
  "S3FIFO_insert E c req = (let params = eviction_params c in
     if hit_on_ghost params then do {
       let params = params\<lparr>hit_on_ghost := False\<rparr>;
       (q, obj) \<leftarrow> S3FIFO_put E (main_fifo params) req;
       Some (c\<lparr>eviction_params := params\<lparr>main_fifo := q\<rparr>\<rparr>, obj) }
     else if req_obj_size req \<ge> cache_size (small_fifo params) then Some (c, NULL)
     else if \<not> has_evicted params
         \<and> fifo_byte (small_fifo params) \<ge> cache_size (small_fifo params) then do {
       (q, obj) \<leftarrow> S3FIFO_put E (main_fifo params) req;
       Some (c\<lparr>eviction_params := params\<lparr>main_fifo := q\<rparr>\<rparr>, obj) }
     else do {
       (q, obj) \<leftarrow> S3FIFO_put E (small_fifo params) req;
       Some (c\<lparr>eviction_params := params\<lparr>small_fifo := q\<rparr>\<rparr>, obj) })"

text \<open>\<open>assert(false)\<close>.\<close>

definition S3FIFO_to_evict ::
    "('a, 'f) s3fifo_cache \<Rightarrow> request \<Rightarrow> (('a, 'f) s3fifo_cache \<times> ptr) option" where
  "S3FIFO_to_evict c req = None"

text \<open>In a build with \<open>SUPPORT_TTL\<close> a moved object keeps its expiry time.\<close>

definition keep_exp_time :: "env \<Rightarrow> heap \<Rightarrow> ptr \<Rightarrow> 32 word \<Rightarrow> heap option" where
  "keep_exp_time E h obj t =
     (if support_ttl E then upd_obj h obj (\<lambda>ob. ob\<lparr>exp_time := t\<rparr>) else Some h)"

text \<open>The victim of the small queue goes to the main queue, or to the ghost.\<close>

definition S3FIFO_move_to_main ::
    "env \<Rightarrow> ('a, 'f) S3FIFO_params_t \<Rightarrow> cache_obj \<Rightarrow> ('a, 'f) S3FIFO_params_t option" where
  "S3FIFO_move_to_main E params ob = do {
     (q, new_obj) \<leftarrow> FIFO_insert E (main_fifo params) (req_local params);
     h \<leftarrow> keep_exp_time E (store q) new_obj (exp_time ob);
     Some (params\<lparr>main_fifo := q\<lparr>store := h\<rparr>\<rparr>) }"

definition S3FIFO_move_to_ghost ::
    "env \<Rightarrow> ('a, 'f) S3FIFO_params_t \<Rightarrow> ('a, 'f) S3FIFO_params_t option" where
  "S3FIFO_move_to_ghost E params =
    (case ghost_fifo params of None \<Rightarrow> Some params
     | Some g \<Rightarrow> do {
         (g, hit) \<leftarrow> FIFO_get E None g (req_local params);
         Some (params\<lparr>ghost_fifo := Some g\<rparr>) })"

partial_function (option) S3FIFO_evict_small ::
    "env \<Rightarrow> ('a, 'f) S3FIFO_params_t \<Rightarrow> request \<Rightarrow> ('a, 'f) S3FIFO_params_t option" where
  "S3FIFO_evict_small E params req =
    (if fifo_byte (small_fifo params) > 0 then
       Option.bind (FIFO_to_evict E (small_fifo params) req) (\<lambda>(small, obj).
       Option.bind (deref (store small) obj) (\<lambda>ob.
         let params = params\<lparr>small_fifo := small,
           req_local := copy_cache_obj_to_request (req_local params) ob\<rparr> in
         if S3FIFO_freq ob \<ge> move_to_main_threshold params then
           Option.bind (S3FIFO_move_to_main E params ob) (\<lambda>params.
           Option.bind (FIFO_remove E (small_fifo params) (req_obj_id (req_local params))) (\<lambda>(small, removed).
             S3FIFO_evict_small E (params\<lparr>small_fifo := small\<rparr>) req))
         else
           Option.bind (S3FIFO_move_to_ghost E params) (\<lambda>params.
           Option.bind (FIFO_remove E (small_fifo params) (req_obj_id (req_local params))) (\<lambda>(small, removed).
             Some (params\<lparr>small_fifo := small\<rparr>)))))
     else Some params)"

text \<open>The reinsertion into the main queue, with the counter capped at 3 and lowered by one.\<close>

definition S3FIFO_reinsert ::
    "env \<Rightarrow> ('a, 'f) S3FIFO_params_t \<Rightarrow> cache_obj \<Rightarrow> ('a, 'f) S3FIFO_params_t option" where
  "S3FIFO_reinsert E params ob = do {
     (q, removed) \<leftarrow> FIFO_remove E (main_fifo params) (obj_id ob);
     (q, new_obj) \<leftarrow> FIFO_insert E q (req_local params);
     h \<leftarrow> upd_obj (store q) new_obj (\<lambda>nob. nob\<lparr>S3FIFO_freq := min (S3FIFO_freq ob) 3 - 1\<rparr>);
     h \<leftarrow> keep_exp_time E h new_obj (exp_time ob);
     Some (params\<lparr>main_fifo := q\<lparr>store := h\<rparr>\<rparr>) }"

partial_function (option) S3FIFO_evict_main ::
    "env \<Rightarrow> ('a, 'f) S3FIFO_params_t \<Rightarrow> request \<Rightarrow> ('a, 'f) S3FIFO_params_t option" where
  "S3FIFO_evict_main E params req =
    (if fifo_byte (main_fifo params) > 0 then
       Option.bind (FIFO_to_evict E (main_fifo params) req) (\<lambda>(main, obj).
       Option.bind (deref (store main) obj) (\<lambda>ob.
         let params = params\<lparr>main_fifo := main,
           req_local := copy_cache_obj_to_request (req_local params) ob\<rparr> in
         if S3FIFO_freq ob \<ge> 1 then
           Option.bind (S3FIFO_reinsert E params ob) (\<lambda>params. S3FIFO_evict_main E params req)
         else
           Option.bind (FIFO_remove E (main_fifo params) (obj_id ob)) (\<lambda>(main, removed).
             Some (params\<lparr>main_fifo := main\<rparr>))))
     else Some params)"

definition S3FIFO_evict ::
    "env \<Rightarrow> ('a, 'f) s3fifo_cache \<Rightarrow> request \<Rightarrow> ('a, 'f) s3fifo_cache option" where
  "S3FIFO_evict E c req = do {
     let params = (eviction_params c)\<lparr>has_evicted := True\<rparr>;
     params \<leftarrow>
       (if fifo_byte (main_fifo params) > cache_size (main_fifo params)
           \<or> fifo_byte (small_fifo params) = 0
        then S3FIFO_evict_main E params req else S3FIFO_evict_small E params req);
     Some (c\<lparr>eviction_params := params\<rparr>) }"

text \<open>The disjunctions are lazy: the first queue that has the object ends the search.\<close>

definition S3FIFO_remove ::
    "env \<Rightarrow> ('a, 'f) s3fifo_cache \<Rightarrow> obj_id_t \<Rightarrow> (('a, 'f) s3fifo_cache \<times> bool) option" where
  "S3FIFO_remove E c i = do {
     let params = eviction_params c;
     (q, removed) \<leftarrow> FIFO_remove E (small_fifo params) i;
     let params = params\<lparr>small_fifo := q\<rparr>;
     (params, removed) \<leftarrow> (if removed then Some (params, removed)
       else (case ghost_fifo params of None \<Rightarrow> Some (params, False)
         | Some g \<Rightarrow> do {
             (g, removed) \<leftarrow> FIFO_remove E g i;
             Some (params\<lparr>ghost_fifo := Some g\<rparr>, removed) }));
     (params, removed) \<leftarrow> (if removed then Some (params, removed)
       else do {
         (q, removed) \<leftarrow> FIFO_remove E (main_fifo params) i;
         Some (params\<lparr>main_fifo := q\<rparr>, removed) });
     Some (c\<lparr>eviction_params := params\<rparr>, removed) }"

definition S3FIFO_get_occupied_byte :: "('a, 'f) s3fifo_cache \<Rightarrow> int" where
  "S3FIFO_get_occupied_byte c =
     fifo_byte (small_fifo (eviction_params c)) + fifo_byte (main_fifo (eviction_params c))"

definition S3FIFO_get_n_obj :: "('a, 'f) s3fifo_cache \<Rightarrow> int" where
  "S3FIFO_get_n_obj c = cache_get_n_obj_default (small_fifo (eviction_params c))
     + cache_get_n_obj_default (main_fifo (eviction_params c))"

definition S3FIFO_can_insert ::
    "('a, 'f) s3fifo_cache \<Rightarrow> request \<Rightarrow> (('a, 'f) s3fifo_cache \<times> bool) option" where
  "S3FIFO_can_insert c req =
    (if req_obj_size req \<le> cache_size (small_fifo (eviction_params c))
     then cache_can_insert_default c req else Some (c, False))"

definition S3FIFO_ops :: "env \<Rightarrow> ('a, 'f) s3fifo_cache cache_ops" where
  "S3FIFO_ops E = \<lparr>op_find = S3FIFO_find E, op_can_insert = S3FIFO_can_insert,
     op_insert = S3FIFO_insert E, op_evict = S3FIFO_evict E, op_remove = S3FIFO_remove E,
     op_to_evict = S3FIFO_to_evict, op_get_occupied_byte = S3FIFO_get_occupied_byte,
     op_get_n_obj = S3FIFO_get_n_obj\<rparr>"

definition S3FIFO_get ::
    "env \<Rightarrow> ('a, 'f) s3fifo_cache prefetcher_t option \<Rightarrow> ('a, 'f) s3fifo_cache \<Rightarrow> request \<Rightarrow>
     (('a, 'f) s3fifo_cache \<times> bool) option" where
  "S3FIFO_get E pf c req = cache_get_base (S3FIFO_ops E) pf c req"

section \<open>The abstract machine\<close>

type_synonym freq_queue = "(int \<times> int) queue"

record s3 =
  s3_small :: freq_queue
  s3_main :: freq_queue
  s3_ghost :: "int queue option"
  s3_hit_on_ghost :: bool
  s3_has_evicted :: bool

record s3_conf =
  small_size :: int
  main_size :: int
  ghost_size :: int
  threshold :: int

abbreviation fbytes :: "freq_queue \<Rightarrow> int" where
  "fbytes \<equiv> view_bytes fst 0"

abbreviation e_size :: "obj_id_t \<times> int \<times> int \<Rightarrow> int" where
  "e_size e \<equiv> fst (snd e)"

abbreviation e_freq :: "obj_id_t \<times> int \<times> int \<Rightarrow> int" where
  "e_freq e \<equiv> snd (snd e)"

definition s3_bump :: "obj_id_t \<Rightarrow> freq_queue \<Rightarrow> freq_queue" where
  "s3_bump i es = map (\<lambda>e. if fst e = i then (i, e_size e, e_freq e + 1) else e) es"

definition s3_find :: "request \<Rightarrow> s3 \<Rightarrow> s3" where
  "s3_find req s = (let i = req_obj_id req in
     if i \<in> fst ` set (s3_small s)
     then s\<lparr>s3_hit_on_ghost := False, s3_small := s3_bump i (s3_small s)\<rparr>
     else s\<lparr>s3_hit_on_ghost := (case s3_ghost s of None \<Rightarrow> False | Some g \<Rightarrow> i \<in> fst ` set g),
            s3_ghost := map_option (queue_delete i) (s3_ghost s),
            s3_main := s3_bump i (s3_main s)\<rparr>)"

definition s3_insert :: "s3_conf \<Rightarrow> request \<Rightarrow> s3 \<Rightarrow> s3" where
  "s3_insert cf req s = (let e = (req_obj_id req, req_obj_size req, 0) in
     if s3_hit_on_ghost s then s\<lparr>s3_hit_on_ghost := False, s3_main := e # s3_main s\<rparr>
     else if req_obj_size req \<ge> small_size cf then s
     else if \<not> s3_has_evicted s \<and> fbytes (s3_small s) \<ge> small_size cf
     then s\<lparr>s3_main := e # s3_main s\<rparr>
     else s\<lparr>s3_small := e # s3_small s\<rparr>)"

text \<open>The main queue is a clock with counters up to 3.\<close>

abbreviation s3_weight :: "freq_queue \<Rightarrow> nat" where
  "s3_weight es \<equiv> sum_list (map (\<lambda>e. nat (min (e_freq e) 3)) es)"

abbreviation s3_requeue :: "obj_id_t \<times> int \<times> int \<Rightarrow> freq_queue \<Rightarrow> freq_queue" where
  "s3_requeue e es \<equiv> (fst e, e_size e, min (e_freq e) 3 - 1) # queue_delete (fst e) es"

lemma s3_weight_requeue:
  assumes "e \<in> set es" and "1 \<le> e_freq e"
  shows "s3_weight (s3_requeue e es) < s3_weight es"
proof -
  have del: "s3_weight (queue_delete i xs) \<le> s3_weight xs" for i xs
    by (induction xs) (auto simp: queue_delete_def)
  have "s3_weight (queue_delete (fst e) es) + nat (min (e_freq e) 3) \<le> s3_weight es"
    using assms(1)
  proof (induction es)
    case (Cons d es)
    show ?case
    proof (cases "e = d")
      case True
      then show ?thesis using del [of "fst e" es] by (simp add: queue_delete_def)
    next
      case False
      then show ?thesis using Cons by (auto simp: queue_delete_def)
    qed
  qed simp
  then show ?thesis using assms(2) by simp
qed

function s3_main_sweep :: "pin_pred \<Rightarrow> freq_queue \<Rightarrow> freq_queue" where
  "s3_main_sweep pn es =
    (if es = [] then []
     else if e_freq (queue_victim pn es) \<ge> 1 then s3_main_sweep pn (s3_requeue (queue_victim pn es) es)
     else queue_delete (fst (queue_victim pn es)) es)"
  by pat_completeness auto
termination
  by (relation "measure (\<lambda>(pn, es). s3_weight es)")
    (simp, simp only: in_measure prod.case, rule s3_weight_requeue, auto intro: queue_victim_mem)

declare s3_main_sweep.simps [simp del]

definition s3_ghost_get :: "pin_pred \<Rightarrow> int \<Rightarrow> obj_id_t \<times> int \<times> int \<Rightarrow> int queue option \<Rightarrow> int queue option" where
  "s3_ghost_get pn cap e g =
     map_option (\<lambda>g. fst (queue_get pn False cap 0
       (new_request\<lparr>req_obj_id := fst e, req_obj_size := e_size e\<rparr>) g)) g"

function s3_small_sweep ::
    "pin_pred \<Rightarrow> s3_conf \<Rightarrow> freq_queue \<times> freq_queue \<times> int queue option \<Rightarrow>
     freq_queue \<times> freq_queue \<times> int queue option" where
  "s3_small_sweep pn cf (es, ms, g) =
    (if es = [] \<or> fbytes es \<le> 0 then (es, ms, g)
     else (let e = queue_victim pn es in
       if e_freq e \<ge> threshold cf
       then s3_small_sweep pn cf (queue_delete (fst e) es, (fst e, e_size e, 0) # ms, g)
       else (queue_delete (fst e) es, ms, s3_ghost_get pn (ghost_size cf) e g)))"
  by pat_completeness auto
termination
  by (relation "measure (\<lambda>(pn, cf, es, ms, g). length es)") (auto simp: queue_evict_shorter)

declare s3_small_sweep.simps [simp del]

definition s3_evict :: "pin_pred \<Rightarrow> s3_conf \<Rightarrow> s3 \<Rightarrow> s3" where
  "s3_evict pn cf s = (let s = s\<lparr>s3_has_evicted := True\<rparr> in
     if fbytes (s3_main s) > main_size cf \<or> fbytes (s3_small s) = 0
     then s\<lparr>s3_main := s3_main_sweep pn (s3_main s)\<rparr>
     else (let (es, ms, g) = s3_small_sweep pn cf (s3_small s, s3_main s, s3_ghost s)
           in s\<lparr>s3_small := es, s3_main := ms, s3_ghost := g\<rparr>))"

definition s3_machine :: "pin_pred \<Rightarrow> s3_conf \<Rightarrow> s3 spec" where
  "s3_machine pn cf = \<lparr>s_ids = \<lambda>s. fst ` set (s3_small s) \<union> fst ` set (s3_main s),
     s_bytes = \<lambda>s. fbytes (s3_small s) + fbytes (s3_main s), s_find = s3_find,
     s_admit = \<lambda>req s. req_obj_size req \<le> small_size cf \<and> req_obj_size req \<le> small_size cf + main_size cf,
     s_evict = \<lambda>req. s3_evict pn cf, s_insert = s3_insert cf\<rparr>"

lemma s3_machine_simps [simp]:
  "s_ids (s3_machine pn cf) s = fst ` set (s3_small s) \<union> fst ` set (s3_main s)"
  "s_bytes (s3_machine pn cf) s = fbytes (s3_small s) + fbytes (s3_main s)"
  "s_find (s3_machine pn cf) = s3_find"
  "s_admit (s3_machine pn cf) req s \<longleftrightarrow>
     req_obj_size req \<le> small_size cf \<and> req_obj_size req \<le> small_size cf + main_size cf"
  "s_evict (s3_machine pn cf) req = s3_evict pn cf" "s_insert (s3_machine pn cf) = s3_insert cf"
  by (simp_all add: s3_machine_def)

section \<open>Refinement\<close>

definition s3_view :: "cache_obj \<Rightarrow> obj_id_t \<times> int \<times> int" where
  "s3_view ob = (obj_id ob, obj_size ob, S3FIFO_freq ob)"

interpretation s3: object_view s3_view fst
  by unfold_locales (simp_all add: s3_view_def touched_def)

lemma s3_view_inserted [simp]: "s3_view (inserted_obj E c req) = (req_obj_id req, req_obj_size req, 0)"
  by (simp add: s3_view_def inserted_obj_def copy_request_to_cache_obj_def zero_obj_def Let_def)

text \<open>One of the two queues with counters, of a given size.\<close>

definition sub_R :: "env \<Rightarrow> trace_ids \<Rightarrow> int \<Rightarrow> ('a, 'f, FIFO_params_t) cache_t \<Rightarrow> freq_queue \<Rightarrow> bool" where
  "sub_R E W n q es \<longleftrightarrow> FIFO_R s3_view E W q es \<and> cache_size q = n \<and> obj_md_size q = 0"

abbreviation ghost_R :: "env \<Rightarrow> trace_ids \<Rightarrow> int \<Rightarrow> ('a, 'f, FIFO_params_t) cache_t \<Rightarrow> int queue \<Rightarrow> bool" where
  "ghost_R E W \<equiv> child_R (FIFO_R basic_view E W)"

lemma sub_R_facts:
  assumes "sub_R E W n q es"
  shows "distinct (map fst es)" "fst ` set es \<subseteq> fst W" "fifo_byte q = fbytes es"
    "cache_get_n_obj_default q = int (length es)" "\<not> support_ttl E" "cache_size q = n"
  using assms s3.FIFO_R_facts [of E W q es]
  by (auto simp: sub_R_def cache_get_occupied_byte_default_def cache_get_n_obj_default_def)

lemma sub_put:
  assumes "sub_R E W n q es" and "req_obj_id req \<in> fst W" and "req_obj_id req \<notin> fst ` set es"
  shows "\<exists>q' p h. FIFO_insert E q req = Some (q', p) \<and> upd_obj (store q') p (\<lambda>ob. ob\<lparr>S3FIFO_freq := f\<rparr>) = Some h
    \<and> sub_R E W n (q'\<lparr>store := h\<rparr>) ((req_obj_id req, req_obj_size req, f) # es) \<and> p \<noteq> NULL
    \<and> sub_R E W n q' ((req_obj_id req, req_obj_size req, 0) # es)"
proof -
  from s3.FIFO_insert_refines [of E W q es req] assms obtain q' ob where
    i: "FIFO_insert E q req = Some (q', Some (brk q))" "same_limits q q'"
    "FIFO_R s3_view E W q' ((req_obj_id req, req_obj_size req, 0) # es)"
    "store q' (brk q) = Some ob" "obj_id ob = req_obj_id req" by (auto simp: sub_R_def)
  have v: "s3_view ob = (req_obj_id req, req_obj_size req, 0)"
  proof -
    have "s3_view ob \<in> set ((req_obj_id req, req_obj_size req, 0) # es)"
      by (rule s3.queue_R_entry(1) [OF i(3) [unfolded FIFO_R_def] i(4)])
    then show ?thesis using i(5) assms(3) by (force simp: s3_view_def)
  qed
  have "map (\<lambda>e. if fst e = req_obj_id req then s3_view (ob\<lparr>S3FIFO_freq := f\<rparr>) else e) es = es"
    using assms(3) by (force intro: map_idI)
  then have "FIFO_R s3_view E W (q'\<lparr>store := (store q')(brk q \<mapsto> ob\<lparr>S3FIFO_freq := f\<rparr>)\<rparr>)
      ((req_obj_id req, req_obj_size req, f) # es)"
    using s3.FIFO_update [OF i(3,4), of "ob\<lparr>S3FIFO_freq := f\<rparr>"] i(5) v
    by (simp add: core_def s3_view_def)
  then show ?thesis using i assms(1) by (auto simp: sub_R_def same_limits_def)
qed

lemma sub_remove:
  assumes "sub_R E W n q es"
  shows "\<exists>q'. FIFO_remove E q i = Some (q', i \<in> fst ` set es) \<and> sub_R E W n q' (queue_delete i es)"
  using s3.FIFO_remove_refines [of E W q es i] assms by (auto simp: sub_R_def same_limits_def)

lemma sub_find:
  assumes "sub_R E W n q es"
  shows "req_obj_id req \<notin> fst ` set es \<Longrightarrow> FIFO_find E None q req True = Some (q, NULL)"
    and "req_obj_id req \<in> fst ` set es \<Longrightarrow> \<exists>q1 q' a. FIFO_find E None q req True = Some (q1, Some a)
      \<and> S3FIFO_bump q1 (Some a) = Some q' \<and> sub_R E W n q' (s3_bump (req_obj_id req) es)"
proof -
  from assms have R: "FIFO_R s3_view E W q es" by (simp add: sub_R_def)
  show "req_obj_id req \<notin> fst ` set es \<Longrightarrow> FIFO_find E None q req True = Some (q, NULL)"
    by (rule s3.FIFO_find_refines(1) [OF R])
  assume "req_obj_id req \<in> fst ` set es"
  from s3.FIFO_find_refines(2) [OF R this] obtain a h ob where
    f: "FIFO_find E None q req True = Some (q\<lparr>store := h\<rparr>, Some a)" "FIFO_R s3_view E W (q\<lparr>store := h\<rparr>) es"
    "h a = Some ob" "obj_id ob = req_obj_id req" by blast
  let ?ob = "ob\<lparr>S3FIFO_freq := S3FIFO_freq ob + 1\<rparr>"
  have u: "FIFO_R s3_view E W (q\<lparr>store := h(a \<mapsto> ?ob)\<rparr>)
      (map (\<lambda>e. if fst e = req_obj_id req then s3_view ?ob else e) es)"
    using s3.FIFO_update [OF f(2), of a ob ?ob] f(3,4) by (simp add: core_def)
  have "distinct (map fst es)" by (rule sub_R_facts(1) [OF assms])
  moreover from s3.queue_R_entry(1) [OF f(2) [unfolded FIFO_R_def], of a ob] f(3)
  have "s3_view ob \<in> set es" by simp
  ultimately have "map (\<lambda>e. if fst e = req_obj_id req then s3_view ?ob else e) es = s3_bump (req_obj_id req) es"
    using f(4) by (auto simp: s3_bump_def s3_view_def dest: eq_key_imp_eq_value)
  then show "\<exists>q1 q' a. FIFO_find E None q req True = Some (q1, Some a)
      \<and> S3FIFO_bump q1 (Some a) = Some q' \<and> sub_R E W n q' (s3_bump (req_obj_id req) es)"
    using f u assms by (auto simp: S3FIFO_bump_def sub_R_def)
qed

lemma sub_to_evict:
  assumes "sub_R E W n q es" and "0 < fbytes es"
  shows "\<exists>a ob. FIFO_to_evict E q req = Some (q, Some a) \<and> store q a = Some ob
    \<and> queue_victim (pin E) es = s3_view ob \<and> s3_view ob \<in> set es"
proof -
  have "es \<noteq> []" using assms(2) by auto
  then show ?thesis
    using s3.FIFO_to_evict_refines [of E W q es req] queue_victim_mem [of es "pin E"] assms(1)
    by (force simp: sub_R_def)
qed

definition s3_ok :: "s3_conf \<Rightarrow> s3 \<Rightarrow> bool" where
  "s3_ok cf s \<longleftrightarrow> 0 < small_size cf \<and> 0 < main_size cf
     \<and> fst ` set (s3_small s) \<inter> fst ` set (s3_main s) = {}
     \<and> (\<forall>e \<in> set (s3_small s) \<union> set (s3_main s). 0 \<le> e_size e)"

definition s3_params_R ::
    "env \<Rightarrow> trace_ids \<Rightarrow> s3_conf \<Rightarrow> ('a, 'f) S3FIFO_params_t \<Rightarrow> s3 \<Rightarrow> bool" where
  "s3_params_R E W cf P s \<longleftrightarrow> sub_R E W (small_size cf) (small_fifo P) (s3_small s)
     \<and> sub_R E W (main_size cf) (main_fifo P) (s3_main s)
     \<and> rel_option (ghost_R E W (ghost_size cf)) (ghost_fifo P) (s3_ghost s)
     \<and> hit_on_ghost P = s3_hit_on_ghost s \<and> has_evicted P = s3_has_evicted s
     \<and> move_to_main_threshold P = threshold cf \<and> s3_ok cf s"

definition S3FIFO_R :: "env \<Rightarrow> trace_ids \<Rightarrow> s3_conf \<Rightarrow> ('a, 'f) s3fifo_cache \<Rightarrow> s3 \<Rightarrow> bool" where
  "S3FIFO_R E W cf c s \<longleftrightarrow> s3_params_R E W cf (eviction_params c) s \<and> obj_md_size c = 0
     \<and> cache_size c = small_size cf + main_size cf"

lemma fbytes_nonneg: "\<forall>e \<in> set es. 0 \<le> e_size e \<Longrightarrow> 0 \<le> fbytes es"
  by (induction es) auto

lemma fbytes_delete:
  assumes "distinct (map fst es)" and "e \<in> set es"
  shows "fbytes es = e_size e + fbytes (queue_delete (fst e) es)"
proof -
  from assms(2) obtain us vs where sp: "es = us @ e # vs" by (auto dest: split_list)
  then show ?thesis using queue_delete_split [of us e vs] assms(1) by simp
qed

subsection \<open>The main queue\<close>

lemma s3_main_sweep_ids:
  "es \<noteq> [] \<Longrightarrow> set (map (\<lambda>e. (fst e, e_size e)) (s3_main_sweep pn es)) \<subseteq> set (map (\<lambda>e. (fst e, e_size e)) es)
    \<and> length (s3_main_sweep pn es) < length es"
proof (induction pn es rule: s3_main_sweep.induct)
  case (1 pn es)
  let ?e = "queue_victim pn es"
  have mem: "?e \<in> set es" by (rule queue_victim_mem [OF 1(2)])
  have shorter: "length (queue_delete (fst ?e) es) < length es" by (rule queue_evict_shorter [OF 1(2)])
  show ?case
  proof (cases "e_freq ?e \<ge> 1")
    case True
    have sw: "s3_main_sweep pn es = s3_main_sweep pn (s3_requeue ?e es)"
      using True 1(2) by (subst s3_main_sweep.simps) simp
    have sub: "set (map (\<lambda>e. (fst e, e_size e)) (s3_requeue ?e es)) \<subseteq> set (map (\<lambda>e. (fst e, e_size e)) es)"
      using mem by (force simp: queue_delete_def)
    have ih: "set (map (\<lambda>e. (fst e, e_size e)) (s3_main_sweep pn (s3_requeue ?e es)))
          \<subseteq> set (map (\<lambda>e. (fst e, e_size e)) (s3_requeue ?e es))
        \<and> length (s3_main_sweep pn (s3_requeue ?e es)) < length (s3_requeue ?e es)"
      by (rule 1(1) [OF 1(2) True]) simp
    show ?thesis unfolding sw
      by (rule conjI [OF subset_trans [OF conjunct1 [OF ih] sub]]) (use conjunct2 [OF ih] shorter in simp)
  next
    case False
    then have "s3_main_sweep pn es = queue_delete (fst ?e) es" using 1(2) by (simp add: s3_main_sweep.simps)
    then show ?thesis using shorter by (auto simp: queue_delete_def)
  qed
qed

lemma s3_pairs_ids:
  assumes "set (map (\<lambda>e. (fst e, e_size e)) es) \<subseteq> set (map (\<lambda>e. (fst e, e_size e)) es')"
  shows "fst ` set es \<subseteq> fst ` set es'" "\<forall>e \<in> set es'. 0 \<le> e_size e \<Longrightarrow> \<forall>e \<in> set es. 0 \<le> e_size e"
  using assms by force+

lemma S3FIFO_evict_main_refines:
  "s3_params_R E W cf P s \<Longrightarrow> 0 < fbytes (s3_main s) \<Longrightarrow>
   \<exists>P'. S3FIFO_evict_main E P req = Some P'
     \<and> s3_params_R E W cf P' (s\<lparr>s3_main := s3_main_sweep (pin E) (s3_main s)\<rparr>)"
proof (induction "pin E" "s3_main s" arbitrary: P s rule: s3_main_sweep.induct)
  case 1
  let ?es = "s3_main s" and ?e = "queue_victim (pin E) (s3_main s)"
  from 1(2) have R: "sub_R E W (main_size cf) (main_fifo P) ?es" by (simp add: s3_params_R_def)
  note F = sub_R_facts [OF R]
  from sub_to_evict [OF R 1(3)] obtain a ob where
    v: "FIFO_to_evict E (main_fifo P) req = Some (main_fifo P, Some a)" "store (main_fifo P) a = Some ob"
    "?e = s3_view ob" "s3_view ob \<in> set ?es" by blast
  have ne: "?es \<noteq> []" using 1(3) by auto
  have id: "fst ?e = obj_id ob" "e_size ?e = obj_size ob" "e_freq ?e = S3FIFO_freq ob"
    by (simp_all add: v(3) s3_view_def)
  have mem: "obj_id ob \<in> fst ` set ?es" using v(4) by (force simp: s3_view_def)
  let ?r = "copy_cache_obj_to_request (req_local P) ob"
  from sub_remove [OF R, of "obj_id ob"] obtain q1 where
    q1: "FIFO_remove E (main_fifo P) (obj_id ob) = Some (q1, True)"
    "sub_R E W (main_size cf) q1 (queue_delete (obj_id ob) ?es)" using mem by auto
  have pos: "fifo_byte (main_fifo P) > 0" using F(3) 1(3) by simp
  show ?case
  proof (cases "S3FIFO_freq ob \<ge> 1")
    case False
    then have sw: "s3_main_sweep (pin E) ?es = queue_delete (obj_id ob) ?es"
      using ne id by (simp add: s3_main_sweep.simps)
    have "S3FIFO_evict_main E P req = Some (P\<lparr>main_fifo := q1, req_local := ?r\<rparr>)"
      using v q1(1) False pos by (subst S3FIFO_evict_main.simps) simp
    moreover have "s3_params_R E W cf (P\<lparr>main_fifo := q1, req_local := ?r\<rparr>) (s\<lparr>s3_main := queue_delete (obj_id ob) ?es\<rparr>)"
      using 1(2) q1(2) by (auto simp: s3_params_R_def s3_ok_def queue_delete_def)
    ultimately show ?thesis using sw by simp
  next
    case True
    let ?es' = "s3_requeue ?e ?es" and ?f = "min (S3FIFO_freq ob) 3 - 1"
    have eq: "?es' = (obj_id ob, obj_size ob, ?f) # queue_delete (obj_id ob) ?es" by (simp add: id)
    have sw: "s3_main_sweep (pin E) ?es = s3_main_sweep (pin E) ?es'"
      using True ne id by (subst s3_main_sweep.simps) simp
    have "req_obj_id ?r \<in> fst W" "req_obj_id ?r \<notin> fst ` set (queue_delete (obj_id ob) ?es)"
      using F(2) mem by auto
    from sub_put [OF q1(2) this, of ?f] obtain q2 p h where
      q2: "FIFO_insert E q1 ?r = Some (q2, p)" "upd_obj (store q2) p (\<lambda>nob. nob\<lparr>S3FIFO_freq := ?f\<rparr>) = Some h"
      "sub_R E W (main_size cf) (q2\<lparr>store := h\<rparr>) ?es'" unfolding eq by auto
    let ?P = "P\<lparr>main_fifo := q2\<lparr>store := h\<rparr>, req_local := ?r\<rparr>" and ?s = "s\<lparr>s3_main := ?es'\<rparr>"
    have "S3FIFO_reinsert E (P\<lparr>main_fifo := main_fifo P, req_local := ?r\<rparr>) ob = Some ?P"
      using q1(1) q2(1,2) F(5) by (simp add: S3FIFO_reinsert_def keep_exp_time_def)
    then have ev: "S3FIFO_evict_main E P req = S3FIFO_evict_main E ?P req"
      using v True pos by (subst S3FIFO_evict_main.simps) simp
    have mem': "?e \<in> set ?es" using v(3,4) by simp
    have ids: "fst ` set ?es' = fst ` set ?es" using mem id(1) by auto
    have R': "s3_params_R E W cf ?P ?s"
      using 1(2) q2(3) ids mem' by (auto simp: s3_params_R_def s3_ok_def queue_delete_def)
    have "0 < fbytes ?es'" using fbytes_delete [OF F(1) mem'] 1(3) by simp
    with 1(1) [of ?s ?P] True ne id R' show ?thesis unfolding ev sw by simp
  qed
qed

subsection \<open>The small queue\<close>

lemma ghost_get:
  assumes "rel_option (ghost_R E W (ghost_size cf)) (ghost_fifo P) g" and "obj_id ob \<in> fst W"
    and "req_obj_id (req_local P) = obj_id ob" "req_obj_size (req_local P) = obj_size ob"
  shows "\<exists>g'. S3FIFO_move_to_ghost E P = Some (P\<lparr>ghost_fifo := g'\<rparr>)
    \<and> rel_option (ghost_R E W (ghost_size cf)) g' (s3_ghost_get (pin E) (ghost_size cf) (s3_view ob) g)"
proof (cases "ghost_fifo P")
  case None
  then show ?thesis using assms(1)
    by (intro exI [of _ None]) (simp add: S3FIFO_move_to_ghost_def s3_ghost_get_def)
next
  case (Some q)
  then obtain es where es: "g = Some es" "ghost_R E W (ghost_size cf) q es" using assms(1) by (auto simp: option_rel_Some1)
  have "req_obj_id (req_local P) \<in> fst W" using assms(2,3) by simp
  from fifo_child.get [OF es(2) this] obtain q' hit where
    q': "cache_get_base (FIFO_ops E None) None q (req_local P) = Some (q', hit)"
    "ghost_R E W (ghost_size cf) q' (fst (queue_get (pin E) False (ghost_size cf) 0 (req_local P) es))" by blast
  have "queue_get (pin E) False (ghost_size cf) 0 (req_local P) es = queue_get (pin E) False (ghost_size cf) 0
      (new_request\<lparr>req_obj_id := fst (s3_view ob), req_obj_size := e_size (s3_view ob)\<rparr>) es"
    using assms(3,4) by (intro queue_get_fields) (simp_all add: s3_view_def)
  with q' es Some show ?thesis
    by (intro exI [of _ "Some q'"]) (simp add: S3FIFO_move_to_ghost_def FIFO_get_def s3_ghost_get_def)
qed

lemma s3_small_sweep_ids:
  assumes "s3_small_sweep pn cf (es, ms, g) = (es', ms', g')" and "0 < fbytes es"
  shows "2 * length es' + length ms' < 2 * length es + length ms"
    and "fst ` set es' \<union> fst ` set ms' \<subseteq> fst ` set es \<union> fst ` set ms"
proof -
  have "2 * length es' + length ms' < 2 * length es + length ms + (if fbytes es \<le> 0 then 1 else 0)
      \<and> fst ` set es' \<union> fst ` set ms' \<subseteq> fst ` set es \<union> fst ` set ms"
    using assms(1)
  proof (induction pn cf "(es, ms, g)" arbitrary: es ms g rule: s3_small_sweep.induct)
    case (1 pn cf es ms g)
    let ?e = "queue_victim pn es"
    show ?case
    proof (cases "es = [] \<or> fbytes es \<le> 0")
      case True
      then show ?thesis using 1(2) by (subst (asm) s3_small_sweep.simps) auto
    next
      case False
      then have mem: "?e \<in> set es" and shorter: "length (queue_delete (fst ?e) es) < length es"
        by (auto intro: queue_victim_mem queue_evict_shorter)
      show ?thesis
      proof (cases "e_freq ?e \<ge> threshold cf")
        case True
        then have "s3_small_sweep pn cf (queue_delete (fst ?e) es, (fst ?e, e_size ?e, 0) # ms, g) = (es', ms', g')"
          using False 1(2) by (subst (asm) s3_small_sweep.simps) (simp add: Let_def)
        from 1(1) [OF False refl True this] show ?thesis using shorter mem False by (auto split: if_splits)
      next
        case below: False
        then have "es' = queue_delete (fst ?e) es" "ms' = ms"
          using False 1(2) by (subst (asm) s3_small_sweep.simps, simp add: Let_def)+
        then show ?thesis using shorter by auto
      qed
    qed
  qed
  then show "2 * length es' + length ms' < 2 * length es + length ms"
    "fst ` set es' \<union> fst ` set ms' \<subseteq> fst ` set es \<union> fst ` set ms" using assms(2) by auto
qed

lemma S3FIFO_evict_small_refines:
  "s3_params_R E W cf P s \<Longrightarrow> s3_small_sweep (pin E) cf (s3_small s, s3_main s, s3_ghost s) = (es', ms', g') \<Longrightarrow>
   \<exists>P'. S3FIFO_evict_small E P req = Some P'
     \<and> s3_params_R E W cf P' (s\<lparr>s3_small := es', s3_main := ms', s3_ghost := g'\<rparr>)"
proof (induction "pin E" cf "(s3_small s, s3_main s, s3_ghost s)" arbitrary: P s rule: s3_small_sweep.induct)
  case (1 cf)
  let ?es = "s3_small s" and ?ms = "s3_main s" and ?e = "queue_victim (pin E) (s3_small s)"
  from 1(2) have R: "sub_R E W (small_size cf) (small_fifo P) ?es"
    and Rm: "sub_R E W (main_size cf) (main_fifo P) ?ms"
    and Rg: "rel_option (ghost_R E W (ghost_size cf)) (ghost_fifo P) (s3_ghost s)"
    and thr: "move_to_main_threshold P = threshold cf" and ok: "s3_ok cf s"
    by (auto simp: s3_params_R_def)
  note F = sub_R_facts [OF R]
  show ?case
  proof (cases "0 < fbytes ?es")
    case False
    then have "es' = ?es" "ms' = ?ms" "g' = s3_ghost s" using 1(3) by (auto simp: s3_small_sweep.simps)
    then show ?thesis using False F(3) 1(2) by (simp add: S3FIFO_evict_small.simps)
  next
    case True
    then have ne: "\<not> (?es = [] \<or> fbytes ?es \<le> 0)" by auto
    from sub_to_evict [OF R True] obtain a ob where
      v: "FIFO_to_evict E (small_fifo P) req = Some (small_fifo P, Some a)" "store (small_fifo P) a = Some ob"
      "?e = s3_view ob" "s3_view ob \<in> set ?es" by blast
    have id: "fst ?e = obj_id ob" "e_size ?e = obj_size ob" "e_freq ?e = S3FIFO_freq ob"
      by (simp_all add: v(3) s3_view_def)
    have mem: "obj_id ob \<in> fst ` set ?es" using v(4) by (force simp: s3_view_def)
    from sub_remove [OF R, of "obj_id ob"] obtain q where
      q: "FIFO_remove E (small_fifo P) (obj_id ob) = Some (q, True)"
      "sub_R E W (small_size cf) q (queue_delete (obj_id ob) ?es)" using mem by auto
    let ?r = "copy_cache_obj_to_request (req_local P) ob"
    let ?P = "P\<lparr>small_fifo := small_fifo P, req_local := ?r\<rparr>"
    have W: "obj_id ob \<in> fst W" using F(2) mem by auto
    show ?thesis
    proof (cases "S3FIFO_freq ob \<ge> threshold cf")
      case False
      then have eq: "es' = queue_delete (obj_id ob) ?es" "ms' = ?ms"
        "g' = s3_ghost_get (pin E) (ghost_size cf) (s3_view ob) (s3_ghost s)"
        using 1(3) ne id v(3) by (subst (asm) s3_small_sweep.simps, simp add: Let_def)+
      from ghost_get [of E W cf ?P "s3_ghost s" ob] Rg W obtain gq where
        g: "S3FIFO_move_to_ghost E ?P = Some (?P\<lparr>ghost_fifo := gq\<rparr>)"
        "rel_option (ghost_R E W (ghost_size cf)) gq g'" unfolding eq by auto
      have "S3FIFO_evict_small E P req = Some (?P\<lparr>ghost_fifo := gq, small_fifo := q\<rparr>)"
        using v g(1) q(1) False thr True F(3) by (subst S3FIFO_evict_small.simps) simp
      moreover have "s3_params_R E W cf (?P\<lparr>ghost_fifo := gq, small_fifo := q\<rparr>) (s\<lparr>s3_small := es', s3_main := ms', s3_ghost := g'\<rparr>)"
        using 1(2) q(2) g(2) unfolding eq(1,2) by (auto simp: s3_params_R_def s3_ok_def queue_delete_def)
      ultimately show ?thesis by blast
    next
      case move: True
      have "req_obj_id ?r \<notin> fst ` set ?ms" using ok mem by (auto simp: s3_ok_def)
      from sub_put [OF Rm _ this, of 0] W obtain m p where
        m: "FIFO_insert E (main_fifo P) ?r = Some (m, p)"
        "sub_R E W (main_size cf) m ((obj_id ob, obj_size ob, 0) # ?ms)" by auto
      let ?s = "s\<lparr>s3_small := queue_delete (obj_id ob) ?es, s3_main := (obj_id ob, obj_size ob, 0) # ?ms\<rparr>"
      let ?P' = "?P\<lparr>main_fifo := m, small_fifo := q\<rparr>"
      have "S3FIFO_move_to_main E ?P ob = Some (?P\<lparr>main_fifo := m\<rparr>)"
        using m(1) F(5) by (simp add: S3FIFO_move_to_main_def keep_exp_time_def)
      then have ev: "S3FIFO_evict_small E P req = S3FIFO_evict_small E ?P' req"
        using v q(1) move thr True F(3) by (subst S3FIFO_evict_small.simps) simp
      have sz: "0 \<le> obj_size ob" using v(4) ok by (force simp: s3_ok_def s3_view_def)
      have R': "s3_params_R E W cf ?P' ?s"
        using 1(2) q(2) m(2) sz by (auto simp: s3_params_R_def s3_ok_def queue_delete_def)
      have sw: "s3_small_sweep (pin E) cf (s3_small ?s, s3_main ?s, s3_ghost ?s) = (es', ms', g')"
        using 1(3) ne id move by (subst (asm) s3_small_sweep.simps) (simp add: Let_def)
      have "\<exists>P''. S3FIFO_evict_small E ?P' req = Some P''
          \<and> s3_params_R E W cf P'' (?s\<lparr>s3_small := es', s3_main := ms', s3_ghost := g'\<rparr>)"
        by (rule 1(1) [OF ne refl _ _ _ _ R' sw]) (use move id in simp_all)
      then show ?thesis unfolding ev by simp
    qed
  qed
qed

subsection \<open>The operations\<close>

lemma s3_bump_simps [simp]:
  "fst ` set (s3_bump i es) = fst ` set es" "fbytes (s3_bump i es) = fbytes es"
  "(\<forall>e \<in> set (s3_bump i es). 0 \<le> e_size e) = (\<forall>e \<in> set es. 0 \<le> e_size e)"
  by (induction es) (auto simp: s3_bump_def)

lemma s3_bump_absent: "i \<notin> fst ` set es \<Longrightarrow> s3_bump i es = es"
  by (force simp: s3_bump_def intro: map_idI)

lemma s3_ok_bump:
  "s3_ok cf s \<Longrightarrow> s3_ok cf (s\<lparr>s3_hit_on_ghost := b, s3_small := s3_bump i (s3_small s)\<rparr>)"
  "s3_ok cf s \<Longrightarrow> s3_ok cf (s\<lparr>s3_hit_on_ghost := b, s3_ghost := g, s3_main := s3_bump i (s3_main s)\<rparr>)"
  by (simp_all add: s3_ok_def ball_Un)

lemma ghost_remove:
  assumes "rel_option (ghost_R E W n) (ghost_fifo P) g" and "\<not> hit_on_ghost P"
  shows "\<exists>g'. (case ghost_fifo P of None \<Rightarrow> Some P
      | Some q \<Rightarrow> Option.bind (FIFO_remove E q i) (\<lambda>(q, removed). Some (P\<lparr>ghost_fifo := Some q,
          hit_on_ghost := (if removed then True else hit_on_ghost P)\<rparr>)))
      = Some (P\<lparr>ghost_fifo := g', hit_on_ghost := (case g of None \<Rightarrow> False | Some es \<Rightarrow> i \<in> fst ` set es)\<rparr>)
    \<and> rel_option (ghost_R E W n) g' (map_option (queue_delete i) g)"
proof (cases "ghost_fifo P")
  case None
  then show ?thesis using assms by (intro exI [of _ None]) simp
next
  case (Some q)
  then obtain es where es: "g = Some es" "ghost_R E W n q es" using assms(1) by (auto simp: option_rel_Some1)
  from fifo_child.remove [OF es(2), of i] obtain q' where
    "FIFO_remove E q i = Some (q', i \<in> fst ` set es)" "ghost_R E W n q' (queue_delete i es)"
    by (auto simp: FIFO_ops_def)
  then show ?thesis using Some es assms(2) by (intro exI [of _ "Some q'"]) auto
qed

lemma S3FIFO_find_refines:
  assumes "S3FIFO_R E W cf c s"
  shows "\<exists>P p. S3FIFO_find E c req True = Some (c\<lparr>eviction_params := P\<rparr>, p)
    \<and> (p \<noteq> NULL \<longleftrightarrow> req_obj_id req \<in> fst ` set (s3_small s) \<union> fst ` set (s3_main s))
    \<and> s3_params_R E W cf P (s3_find req s)"
proof -
  let ?i = "req_obj_id req" and ?P = "(eviction_params c)\<lparr>hit_on_ghost := False\<rparr>"
  from assms have R: "sub_R E W (small_size cf) (small_fifo ?P) (s3_small s)"
    "sub_R E W (main_size cf) (main_fifo ?P) (s3_main s)"
    "rel_option (ghost_R E W (ghost_size cf)) (ghost_fifo ?P) (s3_ghost s)"
    and rest: "has_evicted ?P = s3_has_evicted s" "move_to_main_threshold ?P = threshold cf" "s3_ok cf s"
    by (auto simp: S3FIFO_R_def s3_params_R_def)
  show ?thesis
  proof (cases "?i \<in> fst ` set (s3_small s)")
    case True
    from sub_find(2) [OF R(1) True] obtain q1 q a where
      f: "FIFO_find E None (small_fifo ?P) req True = Some (q1, Some a)" "S3FIFO_bump q1 (Some a) = Some q"
      "sub_R E W (small_size cf) q (s3_bump ?i (s3_small s))" by blast
    have "s3_params_R E W cf (?P\<lparr>small_fifo := q\<rparr>) (s3_find req s)"
      using True f(3) R rest s3_ok_bump(1) by (simp add: s3_params_R_def s3_find_def Let_def)
    then show ?thesis using True f(1,2) by (auto simp: S3FIFO_find_def Let_def)
  next
    case False
    note f = sub_find(1) [OF R(1) False]
    from ghost_remove [OF R(3), of ?i] obtain g' where
      g: "(case ghost_fifo ?P of None \<Rightarrow> Some ?P
      | Some q \<Rightarrow> Option.bind (FIFO_remove E q ?i) (\<lambda>(q, removed). Some (?P\<lparr>ghost_fifo := Some q,
          hit_on_ghost := (if removed then True else hit_on_ghost ?P)\<rparr>)))
      = Some (?P\<lparr>ghost_fifo := g', hit_on_ghost := (case s3_ghost s of None \<Rightarrow> False | Some es \<Rightarrow> ?i \<in> fst ` set es)\<rparr>)"
      "rel_option (ghost_R E W (ghost_size cf)) g' (map_option (queue_delete ?i) (s3_ghost s))" by auto
    have "\<exists>q1 q p. FIFO_find E None (main_fifo ?P) req True = Some (q1, p)
        \<and> (if p \<noteq> NULL then S3FIFO_bump q1 p else Some q1) = Some q
        \<and> sub_R E W (main_size cf) q (s3_bump ?i (s3_main s)) \<and> (p \<noteq> NULL \<longleftrightarrow> ?i \<in> fst ` set (s3_main s))"
    proof (cases "?i \<in> fst ` set (s3_main s)")
      case True
      then show ?thesis using sub_find(2) [OF R(2) True] by fastforce
    next
      case False
      then show ?thesis using sub_find(1) [OF R(2) False] R(2) by (simp add: s3_bump_absent)
    qed
    then obtain q1 q p where
      m: "FIFO_find E None (main_fifo ?P) req True = Some (q1, p)"
      "(if p \<noteq> NULL then S3FIFO_bump q1 p else Some q1) = Some q"
      "sub_R E W (main_size cf) q (s3_bump ?i (s3_main s))" "p \<noteq> NULL \<longleftrightarrow> ?i \<in> fst ` set (s3_main s)" by blast
    let ?P' = "?P\<lparr>ghost_fifo := g', hit_on_ghost := (case s3_ghost s of None \<Rightarrow> False | Some es \<Rightarrow> ?i \<in> fst ` set es),
      main_fifo := q\<rparr>"
    have "?P\<lparr>small_fifo := small_fifo ?P\<rparr> = ?P" by simp
    then have "S3FIFO_find E c req True = Some (c\<lparr>eviction_params := ?P'\<rparr>, p)"
      using f g(1) m(1,2) by (simp add: S3FIFO_find_def Let_def)
    moreover have "s3_params_R E W cf ?P' (s3_find req s)"
      using False R rest g(2) m(3) s3_ok_bump(2) by (simp add: s3_params_R_def s3_find_def Let_def)
    ultimately show ?thesis using m(4) False by blast
  qed
qed

lemma S3FIFO_insert_refines:
  assumes "S3FIFO_R E W cf c s" and "req_obj_id req \<in> fst W" and "0 \<le> req_obj_size req"
    and "req_obj_id req \<notin> fst ` set (s3_small s) \<union> fst ` set (s3_main s)"
  shows "\<exists>P p. S3FIFO_insert E c req = Some (c\<lparr>eviction_params := P\<rparr>, p)
    \<and> s3_params_R E W cf P (s3_insert cf req s)"
proof -
  let ?P = "eviction_params c" and ?e = "(req_obj_id req, req_obj_size req, 0)"
  from assms(1) have R: "sub_R E W (small_size cf) (small_fifo ?P) (s3_small s)"
    "sub_R E W (main_size cf) (main_fifo ?P) (s3_main s)" and P: "s3_params_R E W cf ?P s"
    by (auto simp: S3FIFO_R_def s3_params_R_def)
  from sub_put [OF R(1) assms(2), of 0] assms(4) obtain q p where
    q: "S3FIFO_put E (small_fifo ?P) req = Some (q, p)" "sub_R E W (small_size cf) q (?e # s3_small s)"
    by (auto simp: S3FIFO_put_def)
  from sub_put [OF R(2) assms(2), of 0] assms(4) obtain m p' where
    m: "S3FIFO_put E (main_fifo ?P) req = Some (m, p')" "sub_R E W (main_size cf) m (?e # s3_main s)"
    by (auto simp: S3FIFO_put_def)
  have small: "s3_params_R E W cf (?P\<lparr>small_fifo := q\<rparr>) (s\<lparr>s3_small := ?e # s3_small s\<rparr>)"
    and main: "s3_params_R E W cf (?P\<lparr>main_fifo := m\<rparr>) (s\<lparr>s3_main := ?e # s3_main s\<rparr>)"
    and ghost: "s3_params_R E W cf (?P\<lparr>hit_on_ghost := False, main_fifo := m\<rparr>)
      (s\<lparr>s3_hit_on_ghost := False, s3_main := ?e # s3_main s\<rparr>)"
    using P q(2) m(2) assms(3,4) by (auto simp: s3_params_R_def s3_ok_def)
  have fl: "hit_on_ghost ?P = s3_hit_on_ghost s" "has_evicted ?P = s3_has_evicted s"
    using P by (auto simp: s3_params_R_def)
  note facts = fl sub_R_facts(3,6) [OF R(1)] Let_def
  show ?thesis
  proof (cases "\<not> s3_hit_on_ghost s \<and> small_size cf \<le> req_obj_size req")
    case True
    then have "S3FIFO_insert E c req = Some (c\<lparr>eviction_params := ?P\<rparr>, NULL)" "s3_insert cf req s = s"
      by (simp_all add: S3FIFO_insert_def s3_insert_def facts)
    then show ?thesis using P by (intro exI [of _ ?P] exI [of _ NULL]) simp
  next
    case False
    then show ?thesis using q(1) m(1) small main ghost
      by (auto simp: S3FIFO_insert_def s3_insert_def facts)
  qed
qed

abbreviation s3_measure :: "s3 \<Rightarrow> nat" where
  "s3_measure s \<equiv> 2 * length (s3_small s) + length (s3_main s)"

lemma S3FIFO_evict_refines:
  assumes "S3FIFO_R E W cf c s" and "0 < fbytes (s3_small s) + fbytes (s3_main s)"
  shows "\<exists>P. S3FIFO_evict E c req = Some (c\<lparr>eviction_params := P\<rparr>)
      \<and> s3_params_R E W cf P (s3_evict (pin E) cf s)"
    and "s3_measure (s3_evict (pin E) cf s) < s3_measure s"
    and "fst ` set (s3_small (s3_evict (pin E) cf s)) \<union> fst ` set (s3_main (s3_evict (pin E) cf s))
      \<subseteq> fst ` set (s3_small s) \<union> fst ` set (s3_main s)"
proof -
  let ?P = "(eviction_params c)\<lparr>has_evicted := True\<rparr>" and ?s = "s\<lparr>s3_has_evicted := True\<rparr>"
  from assms(1) have P: "s3_params_R E W cf ?P ?s" and ok: "s3_ok cf s"
    by (auto simp: S3FIFO_R_def s3_params_R_def s3_ok_def)
  then have R: "sub_R E W (small_size cf) (small_fifo ?P) (s3_small s)"
    "sub_R E W (main_size cf) (main_fifo ?P) (s3_main s)" by (auto simp: s3_params_R_def)
  note bytes = sub_R_facts(3) [OF R(1)] sub_R_facts(3,6) [OF R(2)]
  have pos: "0 \<le> fbytes (s3_small s)" "0 \<le> fbytes (s3_main s)" "0 < main_size cf"
    using ok by (auto simp: s3_ok_def intro: fbytes_nonneg)
  let ?E = "s3_evict (pin E) cf s"
  have "(\<exists>P. S3FIFO_evict E c req = Some (c\<lparr>eviction_params := P\<rparr>) \<and> s3_params_R E W cf P ?E)
      \<and> s3_measure ?E < s3_measure s
      \<and> fst ` set (s3_small ?E) \<union> fst ` set (s3_main ?E) \<subseteq> fst ` set (s3_small s) \<union> fst ` set (s3_main s)"
  proof (cases "fbytes (s3_main s) > main_size cf \<or> fbytes (s3_small s) = 0")
    case True
    then have m: "0 < fbytes (s3_main s)" using pos assms(2) by auto
    then have ne: "s3_main s \<noteq> []" by auto
    from S3FIFO_evict_main_refines [OF P] m obtain P' where
      P': "S3FIFO_evict_main E ?P req = Some P'"
      "s3_params_R E W cf P' (?s\<lparr>s3_main := s3_main_sweep (pin E) (s3_main s)\<rparr>)" by auto
    have ev: "?E = ?s\<lparr>s3_main := s3_main_sweep (pin E) (s3_main s)\<rparr>"
      using True by (simp add: s3_evict_def Let_def)
    have "S3FIFO_evict E c req = Some (c\<lparr>eviction_params := P'\<rparr>)"
      using True P'(1) bytes by (simp add: S3FIFO_evict_def Let_def)
    then show ?thesis unfolding ev
      using P'(2) s3_main_sweep_ids [OF ne, of "pin E"] s3_pairs_ids(1) [of "s3_main_sweep (pin E) (s3_main s)" "s3_main s"]
      by auto
  next
    case False
    obtain es' ms' g' where sw: "s3_small_sweep (pin E) cf (s3_small s, s3_main s, s3_ghost s) = (es', ms', g')"
      by (cases "s3_small_sweep (pin E) cf (s3_small s, s3_main s, s3_ghost s)") auto
    have small: "0 < fbytes (s3_small s)" using False pos by auto
    from S3FIFO_evict_small_refines [OF P, of es' ms' g'] sw obtain P' where
      P': "S3FIFO_evict_small E ?P req = Some P'"
      "s3_params_R E W cf P' (?s\<lparr>s3_small := es', s3_main := ms', s3_ghost := g'\<rparr>)" by auto
    have ev: "?E = ?s\<lparr>s3_small := es', s3_main := ms', s3_ghost := g'\<rparr>"
      using False sw by (simp add: s3_evict_def Let_def)
    have "S3FIFO_evict E c req = Some (c\<lparr>eviction_params := P'\<rparr>)"
      using False P'(1) bytes by (simp add: S3FIFO_evict_def Let_def)
    then show ?thesis unfolding ev using P'(2) s3_small_sweep_ids [OF sw small] by auto
  qed
  then show "\<exists>P. S3FIFO_evict E c req = Some (c\<lparr>eviction_params := P\<rparr>) \<and> s3_params_R E W cf P ?E"
    "s3_measure ?E < s3_measure s"
    "fst ` set (s3_small ?E) \<union> fst ` set (s3_main ?E) \<subseteq> fst ` set (s3_small s) \<union> fst ` set (s3_main s)"
    by blast+
qed

interpretation s3fifo: simulated_policy "S3FIFO_ops E" "S3FIFO_R E W cf" "s3_machine (pin E) cf"
  "\<lambda>req. req_obj_id req \<in> fst W \<and> 0 \<le> req_obj_size req" s3_measure for E W cf
proof (standard, goal_cases)
  case (2 c s)
  then show ?case
    by (auto simp: S3FIFO_ops_def S3FIFO_get_occupied_byte_def S3FIFO_R_def s3_params_R_def dest!: sub_R_facts(3))
next
  case (3 c s req)
  from S3FIFO_find_refines [OF 3(1), of req] obtain P p where
    f: "S3FIFO_find E c req True = Some (c\<lparr>eviction_params := P\<rparr>, p)"
    "p \<noteq> NULL \<longleftrightarrow> req_obj_id req \<in> fst ` set (s3_small s) \<union> fst ` set (s3_main s)"
    "s3_params_R E W cf P (s3_find req s)" by blast
  then show ?case using 3(1) by (auto simp: S3FIFO_ops_def S3FIFO_R_def s3_find_def Let_def)
next
  case (4 c s req)
  then show ?case using sub_R_facts(6) [of E W "small_size cf" "small_fifo (eviction_params c)" "s3_small s"]
    by (auto simp: S3FIFO_ops_def S3FIFO_can_insert_def cache_can_insert_default_def S3FIFO_R_def s3_params_R_def)
next
  case (6 c s req)
  then show ?case using S3FIFO_evict_refines(1) [OF 6(1), of req] S3FIFO_evict_refines(2,3) [OF 6(1)]
    by (auto simp: S3FIFO_ops_def S3FIFO_R_def)
next
  case (7 c s req)
  then show ?case using S3FIFO_insert_refines [OF 7(1), of req]
    by (auto simp: S3FIFO_ops_def S3FIFO_R_def s3_insert_def Let_def)
qed (auto simp: S3FIFO_R_def)

section \<open>Initialisation\<close>

lemma s3fifo_hp_loop_bounds:
  "1 \<le> hp \<Longrightarrow> hp \<le> HASH_POWER_DEFAULT \<Longrightarrow> 1 \<le> s3fifo_hp_loop hp slots
    \<and> s3fifo_hp_loop hp slots \<le> HASH_POWER_DEFAULT
    \<and> (s3fifo_hp_loop hp slots = HASH_POWER_DEFAULT \<or> slots \<le> 2 ^ nat (s3fifo_hp_loop hp slots))"
proof (induction hp slots rule: s3fifo_hp_loop.induct)
  case (1 hp slots)
  then show ?case
    using s3fifo_hp_loop.simps [of hp slots]
    by (cases "2 ^ nat hp < slots \<and> hp < HASH_POWER_DEFAULT") auto
qed

lemma s3fifo_child_hashpower_range:
  "1 \<le> s3fifo_child_hashpower r n" "s3fifo_child_hashpower r n \<le> 23"
  using s3fifo_hp_loop_bounds [of 1 "n div 8"]
  by (auto simp: s3fifo_child_hashpower_def s3fifo_hashpower_for_size_def HASH_POWER_DEFAULT_def Let_def)

lemma s3fifo_child_fields [simp]:
  "cache_size (s3fifo_child pf0 p n) = n" "obj_md_size (s3fifo_child pf0 p n) = 0"
  "admissioner (s3fifo_child pf0 p n) = None"
  "int (hashpower (hashtable (s3fifo_child pf0 p n))) = s3fifo_child_hashpower (ccp_hashpower p) n"
  using s3fifo_child_hashpower_range [of "ccp_hashpower p" n]
  by (simp_all add: s3fifo_child_def FIFO_init_def cache_struct_init_def create_chained_hashtable_v2_def Let_def)

lemma s3fifo_child_R:
  assumes "q = s3fifo_child pf0 p n" "spread E W" "\<not> support_ttl E" "snd W \<le> hashpower (hashtable q)"
  shows "FIFO_R v E W q []"
proof -
  have "int (hashpower (hashtable q)) = s3fifo_child_hashpower (ccp_hashpower p) n" by (simp add: assms(1))
  then have "int (snd W) \<le> s3fifo_child_hashpower (ccp_hashpower p) n" using assms(4) by simp
  then show ?thesis
    using assms(2,3) s3fifo_child_hashpower_range [of "ccp_hashpower p" n]
    by (simp add: assms(1) s3fifo_child_def FIFO_R_def FIFO_init_def queue_R_empty cache_ok_init)
qed

definition s3_conf_of :: "('a, 'f) s3fifo_cache \<Rightarrow> s3_conf" where
  "s3_conf_of c = (let P = eviction_params c in
     \<lparr>small_size = cache_size (small_fifo P), main_size = cache_size (main_fifo P),
      ghost_size = (case ghost_fifo P of None \<Rightarrow> 0 | Some g \<Rightarrow> cache_size g),
      threshold = move_to_main_threshold P\<rparr>)"

definition s3_empty :: "('a, 'f) s3fifo_cache \<Rightarrow> s3" where
  "s3_empty c = \<lparr>s3_small = [], s3_main = [], s3_ghost = map_option (\<lambda>_. []) (ghost_fifo (eviction_params c)),
     s3_hit_on_ghost = False, s3_has_evicted = False\<rparr>"

abbreviation s3_tables :: "('a, 'f) s3fifo_cache \<Rightarrow> hashtable_t set" where
  "s3_tables c \<equiv> hashtable ` ({small_fifo (eviction_params c), main_fifo (eviction_params c)}
     \<union> set_option (ghost_fifo (eviction_params c)))"

lemma S3FIFO_init_R:
  assumes "S3FIFO_init pf0 p sp = Some c" and "spread E W" and "\<not> support_ttl E"
    and "\<forall>ht \<in> s3_tables c. snd W \<le> hashpower ht"
  shows "S3FIFO_R E W (s3_conf_of c) c (s3_empty c)" "admissioner c = None" "cache_size c = ccp_cache_size p"
    "obj_md_size c = 0"
proof -
  let ?n = "scale_int (ccp_cache_size p)"
  from assms(1) obtain sr gr th where
    sz: "0 < ?n sr" "?n sr < ccp_cache_size p"
    and c: "eviction_params c = \<lparr>small_fifo = s3fifo_child pf0 p (?n sr), ghost_fifo =
        (if ?n gr > 0 then Some ((s3fifo_child pf0 p (?n gr))\<lparr>cache_name := ''FIFO-ghost''\<rparr>) else None),
      main_fifo = s3fifo_child pf0 p (ccp_cache_size p - ?n sr), hit_on_ghost = False,
      move_to_main_threshold = th, small_size_ratio = sr, ghost_size_ratio = gr, has_evicted = False,
      req_local = new_request\<rparr>"
    "cache_size c = ccp_cache_size p" "obj_md_size c = 0" "admissioner c = None"
    by (auto simp: S3FIFO_init_def Let_def not_le if_None_eq_Some elim!: bind_SomeE split del: if_split)
  define q where "q = small_fifo (eviction_params c)"
  define m where "m = main_fifo (eviction_params c)"
  have qm: "q = s3fifo_child pf0 p (?n sr)" "m = s3fifo_child pf0 p (ccp_cache_size p - ?n sr)"
    by (simp_all add: q_def m_def c(1))
  have hp: "snd W \<le> hashpower (hashtable q)" "snd W \<le> hashpower (hashtable m)"
    using assms(4) unfolding q_def m_def by auto
  have "rel_option (ghost_R E W (ghost_size (s3_conf_of c))) (ghost_fifo (eviction_params c))
      (map_option (\<lambda>_. []) (ghost_fifo (eviction_params c)))"
  proof (cases "ghost_fifo (eviction_params c)")
    case (Some g)
    then have g: "g = (s3fifo_child pf0 p (?n gr))\<lparr>cache_name := ''FIFO-ghost''\<rparr>"
      "snd W \<le> hashpower (hashtable g)" using c(1) assms(4) by (auto split: if_splits)
    obtain g0 where g0: "g0 = s3fifo_child pf0 p (?n gr)" "g = g0\<lparr>cache_name := ''FIFO-ghost''\<rparr>"
      using g(1) by blast
    have "FIFO_R basic_view E W g0 []" by (rule s3fifo_child_R [OF g0(1) assms(2,3)]) (use g g0 in simp)
    then have "FIFO_R basic_view E W g []"
      by (auto simp: g0(2) FIFO_R_def queue_R_def queue_at_def cache_ok_def obj_bytes_def)
    then show ?thesis using Some g(1) by (simp add: child_R_def s3_conf_of_def Let_def)
  qed simp
  then show "S3FIFO_R E W (s3_conf_of c) c (s3_empty c)"
    using s3fifo_child_R [OF qm(1) assms(2,3) hp(1), of s3_view] s3fifo_child_R [OF qm(2) assms(2,3) hp(2), of s3_view]
      sz c(2,3) qm
    by (simp add: S3FIFO_R_def s3_params_R_def s3_empty_def s3_conf_of_def sub_R_def s3_ok_def Let_def
        q_def [symmetric] m_def [symmetric]) (simp add: c(1))
  show "admissioner c = None" "cache_size c = ccp_cache_size p" "obj_md_size c = 0" by (rule c)+
qed

section \<open>Properties\<close>

text \<open>
  C8: an S3-FIFO cache behaves, on every trace from its initialisation and for every setting of its
  parameters, like three lists: a small queue and a main queue of ids with counters and a ghost
  queue of ids.  The code returns for every request, so the two eviction loops and the loop around
  them end; the hits agree with the lists; no object is in both queues; and the bytes of both
  queues never exceed the size of the cache.
\<close>

theorem S3FIFO_serve_refines:
  assumes "S3FIFO_init pf0 p sp = Some c0" and "spread E W" and "\<not> support_ttl E"
    and "\<forall>ht \<in> s3_tables c0. snd W \<le> hashpower ht"
    and "\<forall>req \<in> set reqs. req_obj_id req \<in> fst W \<and> 0 \<le> req_obj_size req" and "0 \<le> ccp_cache_size p"
  shows "\<exists>c s hits. serve (S3FIFO_ops E) None c0 reqs = Some (c, hits)
    \<and> sim_serve (s3_machine (pin E) (s3_conf_of c0)) (ccp_cache_size p) (s3_empty c0) reqs = Some (s, hits)
    \<and> s3_params_R E W (s3_conf_of c0) (eviction_params c) s
    \<and> fst ` set (s3_small s) \<inter> fst ` set (s3_main s) = {}
    \<and> S3FIFO_get_occupied_byte c \<le> ccp_cache_size p"
proof -
  note i = S3FIFO_init_R [OF assms(1-4)]
  have "s_bytes (s3_machine (pin E) (s3_conf_of c0)) (s3_empty c0) \<le> cache_size c0"
    using assms(6) i(3) by (simp add: s3_empty_def)
  from s3fifo.serve_simulates [OF i(1) assms(5) i(2) this] i(3,4) show ?thesis
    by (auto simp: S3FIFO_R_def s3_params_R_def s3_ok_def S3FIFO_ops_def)
qed

lemma S3FIFO_default_params:
  "S3FIFO_parse_params (0, 0, 0) (Some S3FIFO_DEFAULT_CACHE_PARAMS)
    = Some (3602879701896397 / 2 ^ 55, 8106479329266893 / 2 ^ 53, 2)"
  by code_simp

lemma S3FIFO_sample:
  obtains c0 :: "(unit, unit) s3fifo_cache" where
    "S3FIFO_init () (sample_params 3) (Some ''small-size-ratio=0.67'') = Some c0"
    "s3_conf_of c0 = \<lparr>small_size = 2, main_size = 1, ghost_size = 2, threshold = 2\<rparr>"
    "s3_empty c0 = \<lparr>s3_small = [], s3_main = [], s3_ghost = Some [], s3_hit_on_ghost = False, s3_has_evicted = False\<rparr>"
    "\<forall>ht \<in> s3_tables c0. hashpower ht = 1"
proof -
  let ?r = "6034823500676465 / 2 ^ 53"
  have parse: "S3FIFO_parse_params (3602879701896397 / 2 ^ 55, 8106479329266893 / 2 ^ 53, 2)
      (Some ''small-size-ratio=0.67'') = Some (?r, 8106479329266893 / 2 ^ 53, 2)" by code_simp
  have sizes: "scale_int 3 ?r = 2" "scale_int 3 (8106479329266893 / 2 ^ 53) = 2" by code_simp+
  have hp: "s3fifo_child_hashpower 2 1 = 1" "s3fifo_child_hashpower 2 2 = 1" by code_simp+
  have "hashpower (hashtable (s3fifo_child () (sample_params 3) n :: (unit, unit, FIFO_params_t) cache_t)) = Suc 0"
    if "n = 1 \<or> n = 2" for n
  proof -
    have "int (hashpower (hashtable (s3fifo_child () (sample_params 3) n :: (unit, unit, FIFO_params_t) cache_t))) = 1"
      using that hp by auto
    then show ?thesis by (simp del: s3fifo_child_fields)
  qed
  then show ?thesis
    using that parse sizes
    by (simp add: S3FIFO_init_def S3FIFO_default_params s3_conf_of_def s3_empty_def Let_def)
qed

text \<open>
  The object 1 is evicted to the ghost by the object 4 and comes back into the main queue, where
  the object 3 still is.
\<close>

theorem S3FIFO_serve_refines_witness:
  "\<exists>(c0 :: (unit, unit) s3fifo_cache) c.
     S3FIFO_init () (sample_params 3) (Some ''small-size-ratio=0.67'') = Some c0
     \<and> serve (S3FIFO_ops sample_env) None c0 [sample_req 1 1, sample_req 2 1, sample_req 3 1,
         sample_req 4 1, sample_req 1 1, sample_req 3 1] = Some (c, [False, False, False, False, False, True])
     \<and> S3FIFO_get_occupied_byte c \<le> 3"
proof -
  let ?reqs = "[sample_req 1 1, sample_req 2 1, sample_req 3 1, sample_req 4 1, sample_req 1 1, sample_req 3 1]"
  obtain c0 :: "(unit, unit) s3fifo_cache" where
    c0: "S3FIFO_init () (sample_params 3) (Some ''small-size-ratio=0.67'') = Some c0"
    "s3_conf_of c0 = \<lparr>small_size = 2, main_size = 1, ghost_size = 2, threshold = 2\<rparr>"
    "s3_empty c0 = \<lparr>s3_small = [], s3_main = [], s3_ghost = Some [], s3_hit_on_ghost = False, s3_has_evicted = False\<rparr>"
    "\<forall>ht \<in> s3_tables c0. hashpower ht = 1" by (rule S3FIFO_sample)
  have "\<exists>s. sim_serve (s3_machine None (s3_conf_of c0)) 3 (s3_empty c0) ?reqs
      = Some (s, [False, False, False, False, False, True])"
    unfolding c0(2,3)
    by (simp add: sim_get_def sim_evict.simps s3_find_def s3_insert_def s3_evict_def s3_bump_def
        s3_small_sweep.simps s3_ghost_get_def queue_get_def queue_trim.simps queue_delete_def Let_def)
  with S3FIFO_serve_refines [OF c0(1), of sample_env "({1, 2, 3, 4}, 1)" ?reqs] c0(1,4) show ?thesis
    by (auto simp del: serve.simps sim_serve.simps)
qed

text \<open>
  A sub-cache of S3-FIFO gets a table of between 2 and \<open>2 ^ 23\<close> slots, never more than the
  caller asked for, and, unless one of these two bounds cut it, one slot for every 8 bytes.
\<close>

theorem s3fifo_child_hashpower_bounds:
  "1 \<le> s3fifo_child_hashpower r n \<and> s3fifo_child_hashpower r n \<le> 23
   \<and> (0 < r \<longrightarrow> s3fifo_child_hashpower r n \<le> r)
   \<and> (s3fifo_child_hashpower r n = r \<or> s3fifo_child_hashpower r n = 23
      \<or> n div 8 \<le> 2 ^ nat (s3fifo_child_hashpower r n))"
  using s3fifo_hp_loop_bounds [of 1 "n div 8"]
  by (auto simp: s3fifo_child_hashpower_def s3fifo_hashpower_for_size_def HASH_POWER_DEFAULT_def Let_def)

theorem s3fifo_child_hashpower_bounds_witness:
  "s3fifo_child_hashpower 12 (2 ^ 20) \<le> 12"
  using s3fifo_child_hashpower_bounds [of 12 "2 ^ 20"] by simp

lemma s3_evict_flag [simp]: "s3_hit_on_ghost (s3_evict pn cf s) = s3_hit_on_ghost s"
  by (simp add: s3_evict_def Let_def split: prod.split)

text \<open>
  C25: \<open>S3FIFO_can_insert\<close> and \<open>S3FIFO_insert\<close> disagree on an object whose size equals the size of the
  small queue.  The object is admitted, so objects are evicted until there is room for it, but it
  is not stored: the request leaves the room empty and the next request of the object misses.
\<close>

theorem S3FIFO_drops_admitted:
  assumes "S3FIFO_R E W cf c s" and "admissioner c = None" and "S3FIFO_get_occupied_byte c \<le> cache_size c"
    and "req_obj_id req \<in> fst W" and "req_obj_size req = small_size cf"
    and "req_obj_id req \<notin> fst ` set (s3_small s) \<union> fst ` set (s3_main s)"
    and "\<forall>g. s3_ghost s = Some g \<longrightarrow> req_obj_id req \<notin> fst ` set g"
  shows "S3FIFO_can_insert c req = Some (c, True)
    \<and> (\<exists>c' s'. cache_get_base (S3FIFO_ops E) None c req = Some (c', False) \<and> S3FIFO_R E W cf c' s'
        \<and> req_obj_id req \<notin> fst ` set (s3_small s') \<union> fst ` set (s3_main s')
        \<and> S3FIFO_get_occupied_byte c' + req_obj_size req \<le> cache_size c')"
proof -
  let ?M = "s3_machine (pin E) cf" and ?i = "req_obj_id req" and ?s = "s3_find req s"
  from assms(1) have pos: "0 < small_size cf" "0 < main_size cf" "cache_size c = small_size cf + main_size cf"
    "obj_md_size c = 0" by (auto simp: S3FIFO_R_def s3_params_R_def s3_ok_def)
  then have ok: "?i \<in> fst W \<and> 0 \<le> req_obj_size req" using assms(4,5) by simp
  note bytes = s3fifo.S_bytes [where W = W and cf = cf]
  have occ: "s_bytes ?M s \<le> cache_size c" using assms(3) bytes [OF assms(1)] by (simp add: S3FIFO_ops_def)
  have can: "S3FIFO_can_insert c req = Some (c, True)"
    using s3fifo.S_admit [OF assms(1,2)] assms(5) pos by (simp add: S3FIFO_ops_def)
  from s3fifo.get_simulates [OF assms(1) ok assms(2) occ] pos(4) obtain c' s' hit where
    g: "cache_get_base (S3FIFO_ops E) None c req = Some (c', hit)" "S3FIFO_R E W cf c' s'"
    "sim_get ?M (cache_size c) req s = Some (s', hit)" "same_limits c c'" by auto
  have adm: "s_admit ?M req ?s" using assms(5) pos by simp
  with g(3) assms(6) obtain s2 where s2: "sim_evict ?M (cache_size c) req ?s = Some s2" "s' = s3_insert cf req s2"
    "\<not> hit" by (auto simp: sim_get_def)
  have flag: "\<not> s3_hit_on_ghost ?s" using assms(6,7) by (auto simp: s3_find_def Let_def split: option.split)
  have "\<not> s3_hit_on_ghost s2" by (rule sim_evict_invariant [OF s2(1), where I = "\<lambda>s. \<not> s3_hit_on_ghost s"]) (simp_all add: flag)
  then have eq: "s' = s2" using s2(2) assms(5) by (simp add: s3_insert_def Let_def)
  from s3fifo.S_find [OF assms(1) ok] obtain c1 where
    c1: "S3FIFO_R E W cf c1 ?s" "same_limits c c1" "s_ids ?M ?s \<subseteq> s_ids ?M s" by auto
  have lim: "cache_size c1 - obj_md_size c1 = cache_size c" using c1(2) pos(4) by (simp add: same_limits_def)
  from s3fifo.evict_simulates [OF c1(1) ok] lim s2(1) assms(5) pos
  have sub: "s_ids ?M s2 \<subseteq> s_ids ?M ?s" and fits: "s_bytes ?M s2 + req_obj_size req \<le> cache_size c" by auto
  have "?i \<notin> s_ids ?M s" using assms(6) by simp
  then have "?i \<notin> s_ids ?M s'" unfolding eq using subset_trans [OF sub c1(3)] by blast
  moreover have "S3FIFO_get_occupied_byte c' + req_obj_size req \<le> cache_size c'"
    using eq fits bytes [OF g(2)] g(4) by (simp add: S3FIFO_ops_def same_limits_def)
  ultimately have "?i \<notin> s_ids ?M s'" "S3FIFO_get_occupied_byte c' + req_obj_size req \<le> cache_size c'" by blast+
  then show ?thesis using can g(1,2) s2(3) by auto
qed

theorem S3FIFO_drops_admitted_witness:
  "\<exists>(c :: (unit, unit) s3fifo_cache) c' s'. S3FIFO_can_insert c (sample_req 1 2) = Some (c, True)
     \<and> cache_get_base (S3FIFO_ops sample_env) None c (sample_req 1 2) = Some (c', False)
     \<and> s3_params_R sample_env ({1, 2, 3, 4}, 1)
         \<lparr>small_size = 2, main_size = 1, ghost_size = 2, threshold = 2\<rparr> (eviction_params c') s'
     \<and> 1 \<notin> fst ` set (s3_small s') \<union> fst ` set (s3_main s')"
proof -
  obtain c0 :: "(unit, unit) s3fifo_cache" where
    c0: "S3FIFO_init () (sample_params 3) (Some ''small-size-ratio=0.67'') = Some c0"
    "s3_conf_of c0 = \<lparr>small_size = 2, main_size = 1, ghost_size = 2, threshold = 2\<rparr>"
    "s3_empty c0 = \<lparr>s3_small = [], s3_main = [], s3_ghost = Some [], s3_hit_on_ghost = False, s3_has_evicted = False\<rparr>"
    "\<forall>ht \<in> s3_tables c0. hashpower ht = 1" by (rule S3FIFO_sample)
  note i = S3FIFO_init_R [OF c0(1), of sample_env "({1, 2, 3, 4}, 1)"]
  have R: "S3FIFO_R sample_env ({1, 2, 3, 4}, 1) (s3_conf_of c0) c0 (s3_empty c0)" "admissioner c0 = None"
    "cache_size c0 = 3" using i c0(4) by auto
  have "S3FIFO_get_occupied_byte c0 = 0"
    using s3fifo.S_bytes [OF R(1)] c0(3) by (simp add: S3FIFO_ops_def)
  with S3FIFO_drops_admitted [OF R(1,2), of "sample_req 1 2"] R(3) c0(2,3) show ?thesis
    by - (rule exI [of _ c0], auto simp: S3FIFO_R_def)
qed

section \<open>Removal\<close>

definition s3_remove :: "obj_id_t \<Rightarrow> s3 \<Rightarrow> s3" where
  "s3_remove i s =
    (if i \<in> fst ` set (s3_small s) then s\<lparr>s3_small := queue_delete i (s3_small s)\<rparr>
     else if (\<exists>g. s3_ghost s = Some g \<and> i \<in> fst ` set g)
     then s\<lparr>s3_ghost := map_option (queue_delete i) (s3_ghost s)\<rparr>
     else s\<lparr>s3_main := queue_delete i (s3_main s)\<rparr>)"

lemma s3_ok_delete:
  assumes "s3_ok cf s"
  shows "s3_ok cf (s\<lparr>s3_small := queue_delete i (s3_small s)\<rparr>)"
    "s3_ok cf (s\<lparr>s3_main := queue_delete i (s3_main s)\<rparr>)" "s3_ok cf (s\<lparr>s3_ghost := g\<rparr>)"
  using assms by (auto simp: s3_ok_def queue_delete_def)

lemma ghost_delete:
  assumes "ghost_R E W n q es"
  shows "\<exists>q'. FIFO_remove E q i = Some (q', i \<in> fst ` set es) \<and> ghost_R E W n q' (queue_delete i es)"
  using basic.FIFO_remove_refines [of E W q es i] assms by (auto simp: child_R_def same_limits_def)

text \<open>
  \<open>S3FIFO_remove\<close> takes the object out of the first of the small, the ghost and the main queue
  that has it, and reports whether one had it: also an object of which only the ghost knows the
  id, which is not in the cache, is reported as removed.
\<close>

theorem S3FIFO_remove_refines:
  assumes "S3FIFO_R E W cf c s"
  shows "\<exists>c'. S3FIFO_remove E c i = Some (c', i \<in> fst ` set (s3_small s)
      \<or> (\<exists>g. s3_ghost s = Some g \<and> i \<in> fst ` set g) \<or> i \<in> fst ` set (s3_main s))
    \<and> S3FIFO_R E W cf c' (s3_remove i s)"
proof -
  let ?P = "eviction_params c"
  from assms have P: "s3_params_R E W cf ?P s" by (simp add: S3FIFO_R_def)
  then have R: "sub_R E W (small_size cf) (small_fifo ?P) (s3_small s)"
    "sub_R E W (main_size cf) (main_fifo ?P) (s3_main s)"
    "rel_option (ghost_R E W (ghost_size cf)) (ghost_fifo ?P) (s3_ghost s)" and ok: "s3_ok cf s"
    by (auto simp: s3_params_R_def)
  note ok' = s3_ok_delete [OF ok]
  from sub_remove [OF R(1), of i] obtain q where
    q: "FIFO_remove E (small_fifo ?P) i = Some (q, i \<in> fst ` set (s3_small s))"
    "sub_R E W (small_size cf) q (queue_delete i (s3_small s))" by blast
  from sub_remove [OF R(2), of i] obtain m where
    m: "FIFO_remove E (main_fifo ?P) i = Some (m, i \<in> fst ` set (s3_main s))"
    "sub_R E W (main_size cf) m (queue_delete i (s3_main s))" by blast
  show ?thesis
  proof (cases "i \<in> fst ` set (s3_small s)")
    case True
    then have "s3_params_R E W cf (?P\<lparr>small_fifo := q\<rparr>) (s3_remove i s)"
      using P q(2) ok' by (simp add: s3_params_R_def s3_remove_def)
    then show ?thesis using True q(1) assms by (auto simp: S3FIFO_remove_def S3FIFO_R_def Let_def)
  next
    case small: False
    then have q': "sub_R E W (small_size cf) q (s3_small s)" using q(2) by (simp add: queue_delete_absent)
    show ?thesis
    proof (cases "ghost_fifo ?P")
      case None
      then have "s3_ghost s = None" using R(3) by simp
      then have "s3_params_R E W cf (?P\<lparr>small_fifo := q, main_fifo := m\<rparr>) (s3_remove i s)"
        using P q' m(2) ok' small by (simp add: s3_params_R_def s3_remove_def)
      then show ?thesis using \<open>s3_ghost s = None\<close> None small q(1) m(1) assms
        by (auto simp: S3FIFO_remove_def S3FIFO_R_def Let_def)
    next
      case (Some g)
      then obtain es where es: "s3_ghost s = Some es" "ghost_R E W (ghost_size cf) g es"
        using R(3) by (auto simp: option_rel_Some1)
      from ghost_delete [OF es(2), of i] obtain g' where
        g': "FIFO_remove E g i = Some (g', i \<in> fst ` set es)" "ghost_R E W (ghost_size cf) g' (queue_delete i es)"
        by blast
      have "s3_params_R E W cf (?P\<lparr>small_fifo := q, ghost_fifo := Some g'\<rparr>) (s3_remove i s)" if "i \<in> fst ` set es"
        using P q' g'(2) ok' small es(1) that by (simp add: s3_params_R_def s3_remove_def)
      moreover have "s3_params_R E W cf (?P\<lparr>small_fifo := q, ghost_fifo := Some g', main_fifo := m\<rparr>) (s3_remove i s)"
        if "i \<notin> fst ` set es"
        using P q' g'(2) m(2) ok' small es(1) that by (simp add: s3_params_R_def s3_remove_def queue_delete_absent)
      ultimately show ?thesis using Some es(1) small q(1) m(1) g'(1) assms
        by (cases "i \<in> fst ` set es") (auto simp: S3FIFO_remove_def S3FIFO_R_def Let_def)
    qed
  qed
qed

theorem S3FIFO_remove_refines_witness:
  "\<exists>(c :: (unit, unit) s3fifo_cache) c'. S3FIFO_remove sample_env c 1 = Some (c', False)"
proof -
  obtain c0 :: "(unit, unit) s3fifo_cache" where
    c0: "S3FIFO_init () (sample_params 3) (Some ''small-size-ratio=0.67'') = Some c0"
    "s3_empty c0 = \<lparr>s3_small = [], s3_main = [], s3_ghost = Some [], s3_hit_on_ghost = False, s3_has_evicted = False\<rparr>"
    "\<forall>ht \<in> s3_tables c0. hashpower ht = 1" by (rule S3FIFO_sample)
  note i = S3FIFO_init_R [OF c0(1), of sample_env "({1, 2, 3, 4}, 1)"]
  have R: "S3FIFO_R sample_env ({1, 2, 3, 4}, 1) (s3_conf_of c0) c0 (s3_empty c0)" using i c0(3) by auto
  from S3FIFO_remove_refines [OF R, of 1] c0(2) show ?thesis by auto
qed

end
