(* ===== verification/Splay.thy ===== *)
theory Splay
  imports Prelude
begin

text \<open>
  The splay tree of the stack-distance computation (\<open>dataStructure/splay.c\<close>, \<open>splay.h\<close>): top-down
  splaying with the size of each subtree in its root.  A tree is a \<open>datatype\<close>; the two trees that
  the loop of \<open>splay\<close> builds by hanging nodes on \<open>l->right\<close> and \<open>r->left\<close> are the lists of the nodes
  on these paths, the last one first.  The abstraction of a tree is the list of its keys in order.
\<close>

section \<open>Model\<close>

datatype sTree = Leaf | Node (left: sTree) (key: int) (val: int) (right: sTree)

text \<open>\<open>node_value\<close>, and the keys in order.\<close>

fun node_value :: "sTree \<Rightarrow> int" where
  "node_value Leaf = 0"
| "node_value (Node l k v r) = v"

fun keys :: "sTree \<Rightarrow> int list" where
  "keys Leaf = []"
| "keys (Node l k v r) = keys l @ k # keys r"

type_synonym l_path = "(sTree \<times> int) list"
type_synonym r_path = "(int \<times> sTree) list"

text \<open>
  The loop.  A round either stops, or links the node (after a rotation, when the key lies two
  levels down on the same side) and goes on below it; the \<open>value\<close> of a linked node is stale until
  the correction behind the loop writes it, so the paths do not keep it.
\<close>

fun splay_loop :: "int \<Rightarrow> sTree \<Rightarrow> l_path \<Rightarrow> r_path \<Rightarrow> int \<Rightarrow> int \<Rightarrow> sTree \<times> l_path \<times> r_path \<times> int \<times> int" where
  "splay_loop i Leaf ls rs l_size r_size = (Leaf, ls, rs, l_size, r_size)"
| "splay_loop i (Node l k v r) ls rs l_size r_size =
    (if i < k then
       (case l of Leaf \<Rightarrow> (Node l k v r, ls, rs, l_size, r_size)
        | Node ll lk lv lr \<Rightarrow>
            if i < lk then
              (let t = Node lr k (node_value lr + node_value r + 1) r
               in if ll = Leaf then (Node ll lk lv t, ls, rs, l_size, r_size)
                  else splay_loop i ll ls ((lk, t) # rs) l_size (r_size + (1 + node_value t)))
            else splay_loop i (Node ll lk lv lr) ls ((k, r) # rs) l_size (r_size + (1 + node_value r)))
     else if i > k then
       (case r of Leaf \<Rightarrow> (Node l k v r, ls, rs, l_size, r_size)
        | Node rl rk rv rr \<Rightarrow>
            if i > rk then
              (let t = Node l k (node_value l + node_value rl + 1) rl
               in if rr = Leaf then (Node t rk rv rr, ls, rs, l_size, r_size)
                  else splay_loop i rr ((t, rk) # ls) rs (l_size + (1 + node_value t)) r_size)
            else splay_loop i (Node rl rk rv rr) ((l, k) # ls) rs (l_size + (1 + node_value l)) r_size)
     else (Node l k v r, ls, rs, l_size, r_size))"

declare splay_loop.simps(2) [simp del]

text \<open>The correction of the sizes down the two paths, with the subtree \<open>b\<close> assembled at their ends.\<close>

fun hang_left :: "l_path \<Rightarrow> int \<Rightarrow> sTree \<Rightarrow> sTree" where
  "hang_left [] n b = b"
| "hang_left ((l, k) # ls) n b = Node l k n (hang_left ls (n - (1 + node_value l)) b)"

fun hang_right :: "r_path \<Rightarrow> int \<Rightarrow> sTree \<Rightarrow> sTree" where
  "hang_right [] n b = b"
| "hang_right ((k, r) # rs) n b = Node (hang_right rs (n - (1 + node_value r)) b) k n r"

definition splay :: "int \<Rightarrow> sTree \<Rightarrow> sTree" where
  "splay i t =
    (case splay_loop i t [] [] 0 0 of
       (Leaf, ls, rs, l_size, r_size) \<Rightarrow> Leaf
     | (Node l k v r, ls, rs, l_size, r_size) \<Rightarrow>
         (let l_size = l_size + node_value l; r_size = r_size + node_value r
          in Node (hang_left (rev ls) l_size l) k (l_size + r_size + 1) (hang_right (rev rs) r_size r)))"

text \<open>\<open>sedgewickized_splay\<close>: the rotation comes before the test, and no size is kept.\<close>

definition rotate_right :: "int \<Rightarrow> sTree \<Rightarrow> sTree" where
  "rotate_right i t = (case t of
       Node (Node ll lk lv lr) k v r \<Rightarrow>
         if i < lk then Node ll lk lv (Node lr k v r) else t
     | _ \<Rightarrow> t)"

definition rotate_left :: "int \<Rightarrow> sTree \<Rightarrow> sTree" where
  "rotate_left i t = (case t of
       Node l k v (Node rl rk rv rr) \<Rightarrow>
         if i > rk then Node (Node l k v rl) rk rv rr else t
     | _ \<Rightarrow> t)"

lemma rotate_smaller:
  "size (left (rotate_right i (Node l k v r))) < size (Node l k v r)"
  "size (right (rotate_left i (Node l k v r))) < size (Node l k v r)"
  by (auto simp: rotate_right_def rotate_left_def split: sTree.split)

function sedgewick_loop :: "int \<Rightarrow> sTree \<Rightarrow> (sTree \<times> int \<times> int) list \<Rightarrow> (int \<times> int \<times> sTree) list \<Rightarrow>
    sTree \<times> (sTree \<times> int \<times> int) list \<times> (int \<times> int \<times> sTree) list" where
  "sedgewick_loop i Leaf ls rs = (Leaf, ls, rs)"
| "sedgewick_loop i (Node l k v r) ls rs =
    (if i < k then
       (let t = rotate_right i (Node l k v r)
        in if left t = Leaf then (t, ls, rs)
           else sedgewick_loop i (left t) ls ((key t, val t, right t) # rs))
     else if i > k then
       (let t = rotate_left i (Node l k v r)
        in if right t = Leaf then (t, ls, rs)
           else sedgewick_loop i (right t) ((left t, key t, val t) # ls) rs)
     else (Node l k v r, ls, rs))"
  by pat_completeness auto
termination
  by (relation "measure (\<lambda>(i, t, ls, rs). size t)") (simp_all only: wf_measure in_measure prod.case rotate_smaller)

declare sedgewick_loop.simps(2) [simp del]

fun assemble_left :: "(sTree \<times> int \<times> int) list \<Rightarrow> sTree \<Rightarrow> sTree" where
  "assemble_left [] b = b"
| "assemble_left ((l, k, v) # ls) b = Node l k v (assemble_left ls b)"

fun assemble_right :: "(int \<times> int \<times> sTree) list \<Rightarrow> sTree \<Rightarrow> sTree" where
  "assemble_right [] b = b"
| "assemble_right ((k, v, r) # rs) b = Node (assemble_right rs b) k v r"

definition sedgewickized_splay :: "int \<Rightarrow> sTree \<Rightarrow> sTree" where
  "sedgewickized_splay i t =
    (case sedgewick_loop i t [] [] of
       (Leaf, ls, rs) \<Rightarrow> Leaf
     | (Node l k v r, ls, rs) \<Rightarrow> Node (assemble_left (rev ls) l) k v (assemble_right (rev rs) r))"

text \<open>
  Insertion and deletion; a failed \<open>assert\<close> is \<open>None\<close>.  The root of the tree that \<open>splay\<close> returns for
  a non-empty tree is read by pattern matching.
\<close>

definition insert :: "int \<Rightarrow> sTree \<Rightarrow> sTree option" where
  "insert i t = (case splay i t of
       Leaf \<Rightarrow> Some (Node Leaf i 1 Leaf)
     | Node l k v r \<Rightarrow>
         if i < k then
           (let t = Node Leaf k (1 + node_value r) r
            in Some (Node l i (1 + node_value l + node_value t) t))
         else if i > k then
           (let t = Node l k (1 + node_value l) Leaf
            in Some (Node t i (1 + node_value t + node_value r) r))
         else if v = 1 + node_value l + node_value r then Some (Node l k v r) else None)"

definition splay_delete :: "int \<Rightarrow> sTree \<Rightarrow> sTree" where
  "splay_delete i t =
    (let root_value = node_value t
     in case splay i t of
          Leaf \<Rightarrow> Leaf
        | Node l k v r \<Rightarrow>
            if i = k then
              (case (if l = Leaf then r
                     else (case splay i l of Leaf \<Rightarrow> Leaf | Node xl xk xv xr \<Rightarrow> Node xl xk xv r)) of
                 Leaf \<Rightarrow> Leaf
               | Node xl xk xv xr \<Rightarrow> Node xl xk (root_value - 1) xr)
            else Node l k v r)"

text \<open>\<open>check_sTree\<close> asserts that the sizes are right.\<close>

fun check_sTree :: "sTree \<Rightarrow> bool" where
  "check_sTree Leaf = True"
| "check_sTree (Node l k v r) \<longleftrightarrow> v = node_value l + node_value r + 1 \<and> check_sTree l \<and> check_sTree r"

section \<open>Sizes and keys\<close>

lemma check_size: "check_sTree t \<Longrightarrow> node_value t = int (length (keys t))"
  by (induction t) auto

fun l_keys :: "l_path \<Rightarrow> int list" where
  "l_keys [] = []"
| "l_keys ((l, k) # ls) = l_keys ls @ keys l @ [k]"

fun r_keys :: "r_path \<Rightarrow> int list" where
  "r_keys [] = []"
| "r_keys ((k, r) # rs) = k # keys r @ r_keys rs"

abbreviation l_total :: "l_path \<Rightarrow> int" where
  "l_total ls \<equiv> (\<Sum>(l, k) \<leftarrow> ls. 1 + node_value l)"

abbreviation r_total :: "r_path \<Rightarrow> int" where
  "r_total rs \<equiv> (\<Sum>(k, r) \<leftarrow> rs. 1 + node_value r)"

abbreviation paths_ok :: "l_path \<Rightarrow> r_path \<Rightarrow> bool" where
  "paths_ok ls rs \<equiv> (\<forall>(l, k) \<in> set ls. check_sTree l) \<and> (\<forall>(k, r) \<in> set rs. check_sTree r)"

text \<open>
  Every round of the loop is a rotation or none, followed by a link or the end.  What rotations and
  links keep, the loop keeps; and it ends at the key or above a missing child.
\<close>

lemma splay_loop_invariant:
  assumes "splay_loop i t ls rs n m = (t', ls', rs', n', m')" and "t \<noteq> Leaf" and "I t ls rs n m"
    and rot_r: "\<And>ll lk lv lr k v r ls rs n m. I (Node (Node ll lk lv lr) k v r) ls rs n m \<Longrightarrow> i < k \<Longrightarrow> i < lk \<Longrightarrow>
      I (Node ll lk lv (Node lr k (node_value lr + node_value r + 1) r)) ls rs n m"
    and rot_l: "\<And>l k v rl rk rv rr ls rs n m. I (Node l k v (Node rl rk rv rr)) ls rs n m \<Longrightarrow> k < i \<Longrightarrow> rk < i \<Longrightarrow>
      I (Node (Node l k (node_value l + node_value rl + 1) rl) rk rv rr) ls rs n m"
    and link_r: "\<And>l k v r ls rs n m. I (Node l k v r) ls rs n m \<Longrightarrow> i < k \<Longrightarrow> l \<noteq> Leaf \<Longrightarrow>
      I l ls ((k, r) # rs) n (m + (1 + node_value r))"
    and link_l: "\<And>l k v r ls rs n m. I (Node l k v r) ls rs n m \<Longrightarrow> k < i \<Longrightarrow> r \<noteq> Leaf \<Longrightarrow>
      I r ((l, k) # ls) rs (n + (1 + node_value l)) m"
  shows "I t' ls' rs' n' m' \<and> (\<exists>l k v r. t' = Node l k v r \<and> (i < k \<longrightarrow> l = Leaf) \<and> (k < i \<longrightarrow> r = Leaf))"
  using assms(1-3)
proof (induction t arbitrary: ls rs n m rule: measure_induct_rule [of size])
  case (less t)
  then obtain l k v r where t: "t = Node l k v r" by (cases t) auto
  note run = trans [OF splay_loop.simps(2) [symmetric] less.prems(1) [unfolded t]] and inv = less.prems(3) [unfolded t]
  consider (stop) "\<not> i < k" "\<not> k < i" | (end_l) "i < k" "l = Leaf" | (end_r) "k < i" "r = Leaf"
    | (zig_l) ll lk lv lr where "i < k" "l = Node ll lk lv lr" "\<not> i < lk"
    | (zigzig_l) ll lk lv lr where "i < k" "l = Node ll lk lv lr" "i < lk"
    | (zig_r) rl rk rv rr where "k < i" "r = Node rl rk rv rr" "\<not> rk < i"
    | (zigzig_r) rl rk rv rr where "k < i" "r = Node rl rk rv rr" "rk < i"
    by (metis sTree.exhaust)
  then show ?case
  proof cases
    case zig_l
    have s: "splay_loop i l ls ((k, r) # rs) n (m + (1 + node_value r)) = (t', ls', rs', n', m')"
      using run zig_l by simp
    show ?thesis by (rule less.IH [OF _ s]) (use t zig_l link_r [OF inv] in simp_all)
  next
    case zig_r
    have s: "splay_loop i r ((l, k) # ls) rs (n + (1 + node_value l)) m = (t', ls', rs', n', m')"
      using run zig_r by simp
    show ?thesis by (rule less.IH [OF _ s]) (use t zig_r link_l [OF inv] in simp_all)
  next
    case zigzig_l
    let ?t = "Node lr k (node_value lr + node_value r + 1) r"
    have rot: "I (Node ll lk lv ?t) ls rs n m" using rot_r [OF inv [unfolded zigzig_l(2)] zigzig_l(1,3)] .
    show ?thesis
    proof (cases "ll = Leaf")
      case True
      then show ?thesis using run zigzig_l rot by (auto simp: Let_def)
    next
      case False
      have s: "splay_loop i ll ls ((lk, ?t) # rs) n (m + (1 + node_value ?t)) = (t', ls', rs', n', m')"
        using run zigzig_l False by (simp add: Let_def)
      show ?thesis by (rule less.IH [OF _ s False]) (use t zigzig_l link_r [OF rot _ False] in simp_all)
    qed
  next
    case zigzig_r
    let ?t = "Node l k (node_value l + node_value rl + 1) rl"
    have rot: "I (Node ?t rk rv rr) ls rs n m" using rot_l [OF inv [unfolded zigzig_r(2)] zigzig_r(1,3)] .
    show ?thesis
    proof (cases "rr = Leaf")
      case True
      then show ?thesis using run zigzig_r rot by (auto simp: Let_def)
    next
      case False
      have s: "splay_loop i rr ((?t, rk) # ls) rs (n + (1 + node_value ?t)) m = (t', ls', rs', n', m')"
        using run zigzig_r False by (simp add: Let_def)
      show ?thesis by (rule less.IH [OF _ s False]) (use t zigzig_r link_l [OF rot _ False] in simp_all)
    qed
  qed (use run inv t in auto)
qed

text \<open>Rotations and links keep the keys in order, the sizes below the root and the two counters.\<close>

definition loop_inv :: "int \<Rightarrow> int list \<Rightarrow> sTree \<Rightarrow> l_path \<Rightarrow> r_path \<Rightarrow> int \<Rightarrow> int \<Rightarrow> bool" where
  "loop_inv i ks t ls rs n m \<longleftrightarrow> ks = l_keys ls @ keys t @ r_keys rs
     \<and> (sorted_wrt (<) ks \<longrightarrow> (\<forall>x \<in> set (l_keys ls). x < i) \<and> (\<forall>x \<in> set (r_keys rs). i < x))"

definition size_inv :: "sTree \<Rightarrow> l_path \<Rightarrow> r_path \<Rightarrow> int \<Rightarrow> int \<Rightarrow> bool" where
  "size_inv t ls rs n m \<longleftrightarrow> paths_ok ls rs \<and> n = l_total ls \<and> m = r_total rs
     \<and> check_sTree (left t) \<and> check_sTree (right t)"

lemma check_children: "check_sTree t \<Longrightarrow> t \<noteq> Leaf \<Longrightarrow> check_sTree (left t) \<and> check_sTree (right t)"
  by (cases t) auto

lemma sorted_mid:
  assumes "sorted_wrt (<) (as @ (l @ k # r) @ bs)"
  shows "\<forall>x \<in> set l. x < k" "\<forall>x \<in> set r. k < (x :: int)"
  using assms by (simp_all add: sorted_wrt_append)

lemma splay_loop_keys:
  assumes "splay_loop i t [] [] 0 0 = (t', ls, rs, n, m)" and "t \<noteq> Leaf"
  shows "loop_inv i (keys t) t' ls rs n m"
    "\<exists>l k v r. t' = Node l k v r \<and> (i < k \<longrightarrow> l = Leaf) \<and> (k < i \<longrightarrow> r = Leaf)"
proof -
  have "loop_inv i (keys t) t' ls rs n m
      \<and> (\<exists>l k v r. t' = Node l k v r \<and> (i < k \<longrightarrow> l = Leaf) \<and> (k < i \<longrightarrow> r = Leaf))"
  proof (rule splay_loop_invariant [OF assms, of "loop_inv i (keys t)"], goal_cases)
    case (4 l k v r ls rs n m)
    then show ?case using sorted_mid(2) [of "l_keys ls" "keys l" k "keys r" "r_keys rs"]
      by (auto simp: loop_inv_def intro: less_trans [of i k])
  next
    case (5 l k v r ls rs n m)
    then show ?case using sorted_mid(1) [of "l_keys ls" "keys l" k "keys r" "r_keys rs"]
      by (auto simp: loop_inv_def intro: less_trans [of _ k i])
  qed (auto simp: loop_inv_def)
  then show "loop_inv i (keys t) t' ls rs n m"
    "\<exists>l k v r. t' = Node l k v r \<and> (i < k \<longrightarrow> l = Leaf) \<and> (k < i \<longrightarrow> r = Leaf)" by blast+
qed

lemma splay_loop_sizes:
  assumes "splay_loop i t [] [] 0 0 = (t', ls, rs, n, m)" and "t \<noteq> Leaf" and "check_sTree t"
  shows "size_inv t' ls rs n m"
proof -
  have "size_inv t [] [] 0 0" using check_children [OF assms(3,2)] by (simp add: size_inv_def)
  then show ?thesis
    using splay_loop_invariant [OF assms(1,2), of size_inv]
    by (auto simp: size_inv_def check_children)
qed

lemma l_keys_append [simp]: "l_keys (xs @ ys) = l_keys ys @ l_keys xs"
  by (induction xs rule: l_keys.induct) auto

lemma r_keys_append [simp]: "r_keys (xs @ ys) = r_keys xs @ r_keys ys"
  by (induction xs rule: r_keys.induct) auto

lemma keys_hang_left: "keys (hang_left ls n b) = l_keys (rev ls) @ keys b"
  by (induction ls n b rule: hang_left.induct) auto

lemma keys_hang_right: "keys (hang_right rs n b) = keys b @ r_keys (rev rs)"
  by (induction rs n b rule: hang_right.induct) auto

lemma check_hang_left:
  "paths_ok ls [] \<Longrightarrow> check_sTree b \<Longrightarrow> n = l_total ls + node_value b \<Longrightarrow>
   check_sTree (hang_left ls n b) \<and> node_value (hang_left ls n b) = n"
  by (induction ls n b rule: hang_left.induct) auto

lemma check_hang_right:
  "paths_ok [] rs \<Longrightarrow> check_sTree b \<Longrightarrow> n = r_total rs + node_value b \<Longrightarrow>
   check_sTree (hang_right rs n b) \<and> node_value (hang_right rs n b) = n"
  by (induction rs n b rule: hang_right.induct) auto

section \<open>The operations\<close>

lemma splay_Leaf [simp]: "splay i Leaf = Leaf"
  by (simp add: splay_def)

lemma splay_correct:
  assumes "t \<noteq> Leaf"
  obtains l k v r where "splay i t = Node l k v r" "keys t = keys l @ k # keys r"
    "check_sTree t \<Longrightarrow> check_sTree (Node l k v r)"
    "sorted_wrt (<) (keys t) \<Longrightarrow> \<forall>x \<in> set (keys l). x < i"
    "sorted_wrt (<) (keys t) \<Longrightarrow> \<forall>x \<in> set (keys r). i < x"
proof -
  obtain t' ls rs n m where run: "splay_loop i t [] [] 0 0 = (t', ls, rs, n, m)"
    by (cases "splay_loop i t [] [] 0 0") auto
  from splay_loop_keys(2) [OF run assms] obtain l k v r where
    t': "t' = Node l k v r" "i < k \<longrightarrow> l = Leaf" "k < i \<longrightarrow> r = Leaf" by blast
  have inv: "keys t = l_keys ls @ keys t' @ r_keys rs"
    "sorted_wrt (<) (keys t) \<longrightarrow> (\<forall>x \<in> set (l_keys ls). x < i) \<and> (\<forall>x \<in> set (r_keys rs). i < x)"
    using splay_loop_keys(1) [OF run assms] by (auto simp: loop_inv_def)
  let ?l = "hang_left (rev ls) (n + node_value l) l" and ?r = "hang_right (rev rs) (m + node_value r) r"
  let ?v = "(n + node_value l) + (m + node_value r) + 1"
  show ?thesis
  proof (rule that [of ?l k ?v ?r])
    show "splay i t = Node ?l k ?v ?r" using run t'(1) by (simp add: splay_def Let_def)
    show "keys t = keys ?l @ k # keys ?r"
      using inv(1) t'(1) by (simp add: keys_hang_left keys_hang_right)
    show "check_sTree (Node ?l k ?v ?r)" if "check_sTree t"
      using splay_loop_sizes [OF run assms that] t'(1) check_hang_left [of "rev ls" l] check_hang_right [of "rev rs" r]
      by (simp add: size_inv_def rev_map [symmetric] sum_list_rev)
    have mid: "\<forall>x \<in> set (keys l). x < k" "\<forall>x \<in> set (keys r). k < x" if "sorted_wrt (<) (keys t)"
      using sorted_mid [of "l_keys ls" "keys l" k "keys r" "r_keys rs"] that inv(1) t'(1) by simp_all
    show "\<forall>x \<in> set (keys ?l). x < i" if "sorted_wrt (<) (keys t)"
      using mid(1) [OF that] inv(2) that t'(2) by (cases "i < k") (auto simp: keys_hang_left)
    show "\<forall>x \<in> set (keys ?r). i < x" if "sorted_wrt (<) (keys t)"
      using mid(2) [OF that] inv(2) that t'(3) by (cases "k < i") (auto simp: keys_hang_right)
  qed
qed

text \<open>A search tree with correct sizes.\<close>

definition sTree_ok :: "sTree \<Rightarrow> bool" where
  "sTree_ok t \<longleftrightarrow> sorted_wrt (<) (keys t) \<and> check_sTree t"

lemma splay_ok:
  assumes "sTree_ok t" and "t \<noteq> Leaf"
  obtains l k v r where "splay i t = Node l k v r" "keys t = keys l @ k # keys r"
    "check_sTree (Node l k v r)" "\<forall>x \<in> set (keys l). x < i" "\<forall>x \<in> set (keys r). i < x"
proof (rule splay_correct [OF assms(2), of i])
  fix l k v r
  assume "splay i t = Node l k v r" "keys t = keys l @ k # keys r"
    and "check_sTree t \<Longrightarrow> check_sTree (Node l k v r)"
    and "sorted_wrt (<) (keys t) \<Longrightarrow> \<forall>x \<in> set (keys l). x < i"
    and "sorted_wrt (<) (keys t) \<Longrightarrow> \<forall>x \<in> set (keys r). i < x"
  with assms(1) show thesis unfolding sTree_ok_def by (intro that) blast+
qed

lemma splay_insert_correct:
  assumes "sTree_ok t"
  shows "\<exists>t'. insert i t = Some t' \<and> sTree_ok t' \<and> set (keys t') = Set.insert i (set (keys t))"
proof (cases "t = Leaf")
  case True
  then show ?thesis by (simp add: insert_def sTree_ok_def)
next
  case False
  from splay_ok [OF assms False, of i] obtain l k v r where
    s: "splay i t = Node l k v r" "keys t = keys l @ k # keys r" "check_sTree (Node l k v r)"
    "\<forall>x \<in> set (keys l). x < i" "\<forall>x \<in> set (keys r). i < x" by blast
  have ks: "set (keys t) = set (keys l) \<union> {k} \<union> set (keys r)"
    "sorted_wrt (<) (keys l @ k # keys r)" using assms s(2) by (auto simp: sTree_ok_def)
  consider "i < k" | "k < i" | "i = k" by linarith
  then show ?thesis using s(1,3-) ks
    by cases (auto simp: insert_def sTree_ok_def sorted_wrt_append Let_def)
qed

lemma splay_rank:
  assumes "sTree_ok t" and "i \<in> set (keys t)"
  shows "\<exists>l v r. splay i t = Node l i v r \<and> keys t = keys l @ i # keys r \<and> check_sTree (Node l i v r)
    \<and> node_value r = int (card {x \<in> set (keys t). i < x})"
proof -
  have "t \<noteq> Leaf" using assms(2) by auto
  from splay_ok [OF assms(1) this, of i] obtain l k v r where
    s: "splay i t = Node l k v r" "keys t = keys l @ k # keys r" "check_sTree (Node l k v r)"
    "\<forall>x \<in> set (keys l). x < i" "\<forall>x \<in> set (keys r). i < x" by blast
  have mem: "i \<in> set (keys l @ k # keys r)" using assms(2) s(2) by simp
  then have k: "k = i" using s(4,5) by auto
  have "{x \<in> set (keys l @ k # keys r). i < x} = set (keys r)" using s(4,5) k by auto
  moreover have "distinct (keys r)"
    using assms(1) s(2) by (auto simp: sTree_ok_def sorted_wrt_append strict_sorted_iff)
  ultimately have "card {x \<in> set (keys t). i < x} = length (keys r)" by (simp only: s(2) distinct_card)
  then show ?thesis using s k check_size [of r] by simp
qed

lemma splay_delete_correct:
  assumes "sTree_ok t" and "i \<in> set (keys t)"
  shows "sTree_ok (splay_delete i t) \<and> set (keys (splay_delete i t)) = set (keys t) - {i}"
proof -
  from splay_rank [OF assms] obtain l v r where
    s: "splay i t = Node l i v r" "keys t = keys l @ i # keys r" "check_sTree (Node l i v r)" by blast
  have so: "sorted_wrt (<) (keys l @ i # keys r)" using assms(1) s(2) by (simp add: sTree_ok_def)
  have root: "node_value t = 1 + node_value l + node_value r"
  proof -
    have "node_value t = int (length (keys l @ i # keys r))"
      using check_size [of t] assms(1) s(2) by (simp add: sTree_ok_def)
    then show ?thesis using check_size [of l] check_size [of r] s(3) by simp
  qed
  have set: "set (keys t) - {i} = set (keys l) \<union> set (keys r)"
    using so by (auto simp: sorted_wrt_append s(2))
  show ?thesis
  proof (cases "l = Leaf")
    case True
    then show ?thesis using s so root set
      by (cases r) (auto simp: splay_delete_def sTree_ok_def)
  next
    case False
    have "sTree_ok l" using so s(3) by (simp add: sTree_ok_def sorted_wrt_append)
    then obtain xl xk xv xr where
      x: "splay i l = Node xl xk xv xr" "keys l = keys xl @ xk # keys xr" "check_sTree (Node xl xk xv xr)"
      "\<forall>y \<in> set (keys xl). y < i" "\<forall>y \<in> set (keys xr). i < y" by (rule splay_ok [OF _ False, of i])
    have "\<forall>y \<in> set (keys l). y < i" using so by (simp add: sorted_wrt_append)
    then have "\<forall>y \<in> set (keys xr). y < i \<and> i < y" using x(2,5) by simp
    then have "xr = Leaf" by (cases xr) auto
    then show ?thesis
      using s x so root set False check_size [of l] check_size [of xl]
      by (auto simp: splay_delete_def sTree_ok_def sorted_wrt_append)
  qed
qed

section \<open>The two versions of the splay\<close>

text \<open>A tree without its sizes.\<close>

fun strip :: "sTree \<Rightarrow> sTree" where
  "strip Leaf = Leaf"
| "strip (Node l k v r) = Node (strip l) k 0 (strip r)"

lemma strip_cases:
  "strip t = Leaf \<longleftrightarrow> t = Leaf" "Leaf = strip t \<longleftrightarrow> t = Leaf"
  "strip t = Node l k v r \<longleftrightarrow> (\<exists>l' v' r'. t = Node l' k v' r' \<and> strip l' = l \<and> v = 0 \<and> strip r' = r)"
  by (cases t; auto)+

abbreviation same_l :: "l_path \<Rightarrow> (sTree \<times> int \<times> int) list \<Rightarrow> bool" where
  "same_l ls ls2 \<equiv> map (\<lambda>(l, k). (strip l, k)) ls = map (\<lambda>(l, k, v). (strip l, k)) ls2"

abbreviation same_r :: "r_path \<Rightarrow> (int \<times> int \<times> sTree) list \<Rightarrow> bool" where
  "same_r rs rs2 \<equiv> map (\<lambda>(k, r). (k, strip r)) rs = map (\<lambda>(k, v, r). (k, strip r)) rs2"

lemma sedgewick_loop_same:
  "splay_loop i t ls rs n m = (t', ls', rs', n', m') \<Longrightarrow> sedgewick_loop i s ls2 rs2 = (s', ls2', rs2') \<Longrightarrow>
   strip t = strip s \<Longrightarrow> same_l ls ls2 \<Longrightarrow> same_r rs rs2 \<Longrightarrow>
   strip t' = strip s' \<and> same_l ls' ls2' \<and> same_r rs' rs2'"
proof (induction t arbitrary: s ls rs ls2 rs2 n m rule: measure_induct_rule [of size])
  case (less t)
  show ?case
  proof (cases t)
    case Leaf
    then show ?thesis using less.prems by (auto simp: strip_cases)
  next
    case t: (Node l k v r)
    then obtain l2 v2 r2 where s: "s = Node l2 k v2 r2" "strip l2 = strip l" "strip r2 = strip r"
      using less.prems(3) by (auto simp: strip_cases dest!: sym [of "Node _ _ _ _"])
    note run = trans [OF splay_loop.simps(2) [symmetric] less.prems(1) [unfolded t]]
      and run2 = trans [OF sedgewick_loop.simps(2) [symmetric] less.prems(2) [unfolded s(1)]]
      and paths = less.prems(4,5)
    consider (stop) "\<not> i < k" "\<not> k < i" | (end_l) "i < k" "l = Leaf" | (end_r) "k < i" "r = Leaf"
      | (left) ll lk lv lr where "i < k" "l = Node ll lk lv lr"
      | (right) rl rk rv rr where "k < i" "r = Node rl rk rv rr" by (metis sTree.exhaust)
    then show ?thesis
    proof cases
      case left
      then obtain ll2 lv2 lr2 where l2: "l2 = Node ll2 lk lv2 lr2" "strip ll2 = strip ll" "strip lr2 = strip lr"
        using s(2) by (auto simp: strip_cases)
      have leaf: "ll2 = Leaf \<longleftrightarrow> ll = Leaf" using l2(2) by (metis strip_cases(1,2))
      show ?thesis
      proof (cases "i < lk")
        case True
        let ?t = "Node lr k (node_value lr + node_value r + 1) r"
        show ?thesis
        proof (cases "ll = Leaf")
          case True
          then show ?thesis using run run2 left l2 leaf \<open>i < lk\<close> paths s(3) by (auto simp: rotate_right_def Let_def)
        next
          case False
          have r1: "splay_loop i ll ls ((lk, ?t) # rs) n (m + (1 + node_value ?t)) = (t', ls', rs', n', m')"
            using run left True False by (simp add: Let_def)
          have r2: "sedgewick_loop i ll2 ls2 ((lk, lv2, Node lr2 k v2 r2) # rs2) = (s', ls2', rs2')"
            using run2 left(1) l2(1) True False leaf by (simp add: rotate_right_def Let_def)
          show ?thesis by (rule less.IH [OF _ r1 r2]) (use t left l2 s paths in simp_all)
        qed
      next
        case False
        have r1: "splay_loop i l ls ((k, r) # rs) n (m + (1 + node_value r)) = (t', ls', rs', n', m')"
          using run left False by simp
        have r2: "sedgewick_loop i l2 ls2 ((k, v2, r2) # rs2) = (s', ls2', rs2')"
          using run2 left(1) l2(1) False by (simp add: rotate_right_def Let_def)
        show ?thesis by (rule less.IH [OF _ r1 r2]) (use t left s paths in simp_all)
      qed
    next
      case right
      then obtain rl2 rv2 rr2 where l2: "r2 = Node rl2 rk rv2 rr2" "strip rl2 = strip rl" "strip rr2 = strip rr"
        using s(3) by (auto simp: strip_cases)
      have leaf: "rr2 = Leaf \<longleftrightarrow> rr = Leaf" using l2(3) by (metis strip_cases(1,2))
      show ?thesis
      proof (cases "rk < i")
        case True
        let ?t = "Node l k (node_value l + node_value rl + 1) rl"
        show ?thesis
        proof (cases "rr = Leaf")
          case True
          then show ?thesis using run run2 right l2 leaf \<open>rk < i\<close> paths s(2) by (auto simp: rotate_left_def Let_def)
        next
          case False
          have r1: "splay_loop i rr ((?t, rk) # ls) rs (n + (1 + node_value ?t)) m = (t', ls', rs', n', m')"
            using run right True False by (simp add: Let_def)
          have r2: "sedgewick_loop i rr2 ((Node l2 k v2 rl2, rk, rv2) # ls2) rs2 = (s', ls2', rs2')"
            using run2 right(1) l2(1) True False leaf by (simp add: rotate_left_def Let_def)
          show ?thesis by (rule less.IH [OF _ r1 r2]) (use t right l2 s paths in simp_all)
        qed
      next
        case False
        have r1: "splay_loop i r ((l, k) # ls) rs (n + (1 + node_value l)) m = (t', ls', rs', n', m')"
          using run right False by simp
        have r2: "sedgewick_loop i r2 ((l2, k, v2) # ls2) rs2 = (s', ls2', rs2')"
          using run2 right(1) l2(1) False by (simp add: rotate_left_def Let_def)
        show ?thesis by (rule less.IH [OF _ r1 r2]) (use t right s paths in simp_all)
      qed
    qed (use run run2 s paths in \<open>auto simp: rotate_left_def rotate_right_def strip_cases Let_def split: sTree.splits\<close>)
  qed
qed

lemma strip_hang:
  "same_l ls ls2 \<Longrightarrow> strip b = strip b2 \<Longrightarrow> strip (hang_left ls n b) = strip (assemble_left ls2 b2)"
  "same_r rs rs2 \<Longrightarrow> strip b = strip b2 \<Longrightarrow> strip (hang_right rs m b) = strip (assemble_right rs2 b2)"
proof -
  show "same_l ls ls2 \<Longrightarrow> strip b = strip b2 \<Longrightarrow> strip (hang_left ls n b) = strip (assemble_left ls2 b2)"
    by (induction ls n b arbitrary: ls2 rule: hang_left.induct) auto
  show "same_r rs rs2 \<Longrightarrow> strip b = strip b2 \<Longrightarrow> strip (hang_right rs m b) = strip (assemble_right rs2 b2)"
    by (induction rs m b arbitrary: rs2 rule: hang_right.induct) auto
qed

section \<open>Properties\<close>

text \<open>
  C27: a splay keeps the keys in order and all subtree sizes correct, and brings the key to the root
  when the tree has it; otherwise the root separates the smaller from the larger keys.
\<close>

theorem splay_functional:
  assumes "sTree_ok t" and "t \<noteq> Leaf"
  shows "\<exists>l k v r. splay i t = Node l k v r \<and> keys (splay i t) = keys t \<and> sTree_ok (splay i t)
    \<and> (i \<in> set (keys t) \<longrightarrow> k = i) \<and> (\<forall>x \<in> set (keys l). x < i) \<and> (\<forall>x \<in> set (keys r). i < x)"
proof -
  obtain l k v r where
    s: "splay i t = Node l k v r" "keys t = keys l @ k # keys r" "check_sTree (Node l k v r)"
    "\<forall>x \<in> set (keys l). x < i" "\<forall>x \<in> set (keys r). i < x" by (rule splay_ok [OF assms])
  moreover have "k = i" if "i \<in> set (keys t)" using that s by auto
  ultimately show ?thesis using assms(1) by (simp add: sTree_ok_def)
qed

theorem splay_functional_witness:
  "\<exists>l v r. splay 2 (Node (Node (Node Leaf 1 1 Leaf) 2 3 (Node Leaf 3 1 Leaf)) 4 4 Leaf) = Node l 2 v r"
  using splay_functional [of "Node (Node (Node Leaf 1 1 Leaf) 2 3 (Node Leaf 3 1 Leaf)) 4 4 Leaf" 2]
  by (auto simp: sTree_ok_def)


end
