(* ===== verification/Stack_Dist.thy ===== *)
theory Stack_Dist
  imports LRU Splay Double GLib
begin

text \<open>
  Reuse distances (\<open>profiler/dist.c\<close>) and the LRU profiler (\<open>profiler/profilerLRU.c\<close>).  The reader of
  a trace is the list of its requests.  The hash table of GLib, which is not part of this program,
  is a parameter: a record of its operations, with the hypothesis \<open>ghash_ok\<close> for what GLib documents
  of \<open>g_hash_table_lookup\<close> and \<open>g_hash_table_insert\<close>.  Its values are pointers, and the number 0 stored
  as a pointer is \<open>NULL\<close>, which a lookup also returns for a missing key.
\<close>

section \<open>Model\<close>

datatype dist_type_e = DIST_SINCE_LAST_ACCESS | DIST_SINCE_FIRST_ACCESS | STACK_DIST | FUTURE_STACK_DIST

subsection \<open>Access distance\<close>

definition get_access_dist_add_req ::
    "('t, obj_id_t) ghash \<Rightarrow> request \<Rightarrow> 't \<Rightarrow> int \<Rightarrow> dist_type_e \<Rightarrow> (int \<times> 't) option" where
  "get_access_dist_add_req G req hash_table curr_ts dist_type =
    (let gp = g_lookup G hash_table (req_obj_id req);
         ret = (if gp = 0 then - 1 else curr_ts - gp)
     in case dist_type of
          DIST_SINCE_LAST_ACCESS \<Rightarrow> Some (ret, g_insert G hash_table (req_obj_id req) curr_ts)
        | DIST_SINCE_FIRST_ACCESS \<Rightarrow> Some (ret, hash_table)
        | _ \<Rightarrow> None)"

definition UINT32_MAX :: int where
  "UINT32_MAX = 2 ^ 32 - 1"

text \<open>
  The loops over the trace fill an array that \<open>malloc\<close> left uninitialised: \<open>None\<close> is an entry not
  yet written.  A distance above \<open>UINT32_MAX\<close> aborts, and an entry is an \<open>int32_t\<close>.
\<close>

fun access_dist_loop ::
    "('t, obj_id_t) ghash \<Rightarrow> dist_type_e \<Rightarrow> request list \<Rightarrow> 't \<Rightarrow> nat \<Rightarrow> int option list \<Rightarrow> int option list option" where
  "access_dist_loop G dist_type [] hash_table curr_ts dist_array = Some dist_array"
| "access_dist_loop G dist_type (req # reqs) hash_table curr_ts dist_array = do {
     (dist, hash_table) \<leftarrow> get_access_dist_add_req G req hash_table (int curr_ts) dist_type;
     if dist > UINT32_MAX then None
     else access_dist_loop G dist_type reqs hash_table (curr_ts + 1)
       (dist_array[curr_ts := Some (to_int32 dist)]) }"

definition get_access_dist :: "('t, obj_id_t) ghash \<Rightarrow> request list \<Rightarrow> dist_type_e \<Rightarrow> int option list option" where
  "get_access_dist G reader dist_type =
     access_dist_loop G dist_type reader (g_new G) 0 (replicate (length reader) None)"

subsection \<open>Stack distance\<close>

text \<open>The distance, the time of the last access, the tree and the table.\<close>

definition get_stack_dist_add_req ::
    "('t, obj_id_t) ghash \<Rightarrow> request \<Rightarrow> sTree \<Rightarrow> 't \<Rightarrow> int \<Rightarrow> (int \<times> int \<times> sTree \<times> 't) option" where
  "get_stack_dist_add_req G req splay_tree hash_table curr_ts = do {
     let gp = g_lookup G hash_table (req_obj_id req);
     (ret, last_access_ts, newtree) \<leftarrow>
       (if gp = 0 then do {
          newtree \<leftarrow> insert curr_ts splay_tree;
          Some (- 1, - 1, newtree) }
        else (case splay gp splay_tree of
            Leaf \<Rightarrow> None
          | Node l k v r \<Rightarrow> do {
              newtree \<leftarrow> insert curr_ts (splay_delete gp (Node l k v r));
              Some (node_value r, gp, newtree) }));
     Some (ret, last_access_ts, newtree, g_insert G hash_table (req_obj_id req) curr_ts) }"

fun stack_dist_loop ::
    "('t, obj_id_t) ghash \<Rightarrow> dist_type_e \<Rightarrow> request list \<Rightarrow> sTree \<Rightarrow> 't \<Rightarrow> nat \<Rightarrow> int option list \<Rightarrow> int option list option" where
  "stack_dist_loop G dist_type [] splay_tree hash_table curr_ts stack_dist_array = Some stack_dist_array"
| "stack_dist_loop G dist_type (req # reqs) splay_tree hash_table curr_ts stack_dist_array = do {
     (stack_dist, last_access_ts, splay_tree, hash_table) \<leftarrow>
       get_stack_dist_add_req G req splay_tree hash_table (int curr_ts);
     if stack_dist > UINT32_MAX then None
     else do {
       stack_dist_array \<leftarrow> (case dist_type of
           STACK_DIST \<Rightarrow> Some (stack_dist_array[curr_ts := Some (to_int32 stack_dist)])
         | FUTURE_STACK_DIST \<Rightarrow> Some (if last_access_ts \<noteq> - 1
             then stack_dist_array[nat last_access_ts := Some (to_int32 stack_dist)] else stack_dist_array)
         | _ \<Rightarrow> None);
       stack_dist_loop G dist_type reqs splay_tree hash_table (curr_ts + 1) stack_dist_array } }"

definition get_stack_dist :: "('t, obj_id_t) ghash \<Rightarrow> request list \<Rightarrow> dist_type_e \<Rightarrow> int option list option" where
  "get_stack_dist G reader dist_type =
     stack_dist_loop G dist_type reader Leaf (g_new G) 0
       (replicate (length reader) (if dist_type = FUTURE_STACK_DIST then Some (- 1) else None))"

subsection \<open>Counting distances\<close>

definition INT64_MAX :: int where
  "INT64_MAX = 2 ^ 63 - 1"

fun cnt_dist :: "('t, obj_id_t) ghash \<Rightarrow> int list \<Rightarrow> 't \<Rightarrow> 't" where
  "cnt_dist G [] hash_table = hash_table"
| "cnt_dist G (d # dist_array) hash_table =
    (let gp_dist = word_of_int (if d = - 1 then INT64_MAX else d);
         old_cnt = g_lookup G hash_table gp_dist
     in cnt_dist G dist_array (g_insert G hash_table gp_dist (old_cnt + 1)))"

subsection \<open>The LRU profiler\<close>

fun lru_hit_loop ::
    "('t, obj_id_t) ghash \<Rightarrow> request list \<Rightarrow> sTree \<Rightarrow> 't \<Rightarrow> int \<Rightarrow> int \<Rightarrow> int list \<Rightarrow> int list option" where
  "lru_hit_loop G [] splay_tree hash_table ts n hit_count_array = Some hit_count_array"
| "lru_hit_loop G (req # reqs) splay_tree hash_table ts n hit_count_array = do {
     (stack_dist, last_access_ts, splay_tree, hash_table) \<leftarrow>
       get_stack_dist_add_req G req splay_tree hash_table ts;
     lru_hit_loop G reqs splay_tree hash_table (ts + 1) n
       (if stack_dist = - 1 then hit_count_array
        else if stack_dist + 1 \<le> n
        then hit_count_array[nat (stack_dist + 1) := hit_count_array ! nat (stack_dist + 1) + 1]
        else hit_count_array) }"

text \<open>The prefix sums, in place.\<close>

fun accumulate :: "nat \<Rightarrow> nat \<Rightarrow> int list \<Rightarrow> int list" where
  "accumulate i 0 a = a"
| "accumulate i (Suc n) a = accumulate (i + 1) n (a[i := a ! i + a ! (i - 1)])"

definition get_lru_hit_cnt :: "('t, obj_id_t) ghash \<Rightarrow> request list \<Rightarrow> int \<Rightarrow> int list option" where
  "get_lru_hit_cnt G reader n = do {
     hit_count_array \<leftarrow> lru_hit_loop G reader Leaf (g_new G) 0 n (replicate (nat (n + 1)) 0);
     Some (accumulate 1 (nat n) hit_count_array) }"

definition get_lru_miss_cnt :: "('t, obj_id_t) ghash \<Rightarrow> request list \<Rightarrow> int \<Rightarrow> int list option" where
  "get_lru_miss_cnt G reader n =
     map_option (map (\<lambda>h. int (length reader) - h)) (get_lru_hit_cnt G reader n)"

definition get_lru_obj_miss_ratio :: "('t, obj_id_t) ghash \<Rightarrow> request list \<Rightarrow> int \<Rightarrow> double list option" where
  "get_lru_obj_miss_ratio G reader n = do {
     miss_count_array \<leftarrow> get_lru_miss_cnt G reader n;
     if miss_count_array ! 0 = int (length reader)
     then Some (map (\<lambda>m. double_div (double_of_int m) (double_of_int (int (length reader)))) miss_count_array)
     else None }"

definition get_lru_obj_miss_ratio_curve :: "('t, obj_id_t) ghash \<Rightarrow> request list \<Rightarrow> int \<Rightarrow> double list option" where
  "get_lru_obj_miss_ratio_curve G reader n = get_lru_obj_miss_ratio G reader n"

section \<open>The abstract distances\<close>

text \<open>
  The LRU stack of the ids, and the id whose last access was at time 0: the table cannot tell it
  from an id that was never requested.
\<close>

definition queue_index :: "obj_id_t \<Rightarrow> 'x queue \<Rightarrow> nat" where
  "queue_index i es = length (takeWhile (\<lambda>e. fst e \<noteq> i) es)"

definition prof_dist :: "obj_id_t \<Rightarrow> int queue \<Rightarrow> obj_id_t option \<Rightarrow> int" where
  "prof_dist i S z = (if i \<in> fst ` set S \<and> z \<noteq> Some i then int (queue_index i S) else - 1)"

definition prof_zero :: "obj_id_t \<Rightarrow> int queue \<Rightarrow> obj_id_t option \<Rightarrow> obj_id_t option" where
  "prof_zero i S z = (if S = [] then Some i else if z = Some i then None else z)"

fun prof_dists :: "int queue \<Rightarrow> obj_id_t option \<Rightarrow> request list \<Rightarrow> int list" where
  "prof_dists S z [] = []"
| "prof_dists S z (req # reqs) =
    prof_dist (req_obj_id req) S z
      # prof_dists (stack_step (req_obj_id req) S) (prof_zero (req_obj_id req) S z) reqs"

text \<open>The times of the last accesses, by which the stack is ordered, and what the tree and the table hold.\<close>

definition prof_R ::
    "('t, obj_id_t) ghash \<Rightarrow> int \<Rightarrow> sTree \<Rightarrow> 't \<Rightarrow> (obj_id_t \<Rightarrow> int) \<Rightarrow> int queue \<Rightarrow> obj_id_t option \<Rightarrow> bool" where
  "prof_R G ts t tab la S z \<longleftrightarrow> sTree_ok t \<and> 0 \<le> ts \<and> (S = [] \<longleftrightarrow> ts = 0)
     \<and> sorted_wrt (\<lambda>a b. la (fst b) < la (fst a)) S
     \<and> (\<forall>e \<in> set S. 0 \<le> la (fst e) \<and> la (fst e) < ts)
     \<and> la ` fst ` set S \<subseteq> set (keys t) \<and> set (keys t) \<subseteq> la ` fst ` set S \<union> (if S = [] then {} else {0})
     \<and> (\<forall>i. g_lookup G tab i = (if i \<in> fst ` set S then la i else 0))
     \<and> (\<forall>i. z = Some i \<longleftrightarrow> i \<in> fst ` set S \<and> la i = 0)"

lemma index_split:
  assumes "distinct (map fst (us @ e # vs))"
  shows "queue_index (fst e) (us @ e # vs) = length us"
proof -
  have "\<forall>d \<in> set us. fst d \<noteq> fst e" using assms by (auto simp: rev_image_eqI)
  then have "takeWhile (\<lambda>d. fst d \<noteq> fst e) (us @ e # vs) = us" by (simp add: takeWhile_append2)
  then show ?thesis by (simp add: queue_index_def)
qed

lemma prof_R_distinct: "prof_R G ts t tab la S z \<Longrightarrow> distinct (map fst S)"
proof -
  have "sorted_wrt (\<lambda>a b. la (fst b) < la (fst a)) S \<Longrightarrow> distinct (map fst S)"
    by (induction S) (auto simp: image_iff)
  then show "prof_R G ts t tab la S z \<Longrightarrow> distinct (map fst S)" by (simp add: prof_R_def)
qed

lemma prof_R_inj:
  assumes "prof_R G ts t tab la S z" and "a \<in> fst ` set S" and "b \<in> fst ` set S" and "la a = la b"
  shows "a = b"
proof -
  have "sorted_wrt (\<lambda>a b. la (fst b) < la (fst a)) S" using assms(1) by (simp add: prof_R_def)
  then show ?thesis using assms(2-4) by (induction S) force+
qed

text \<open>The rank of the last access among the times in the tree is the position in the stack.\<close>

lemma prof_rank:
  assumes "prof_R G ts t tab la S z" and "i \<in> fst ` set S" and "la i \<noteq> 0"
  shows "card {x \<in> set (keys t). la i < x} = queue_index i S"
proof -
  from assms(2) obtain e where e: "e \<in> set S" "fst e = i" by auto
  then obtain us vs where S: "S = us @ e # vs" by (auto dest: split_list)
  from assms(1) have so: "sorted_wrt (\<lambda>a b. la (fst b) < la (fst a)) (us @ e # vs)"
    and nn: "\<forall>e \<in> set S. 0 \<le> la (fst e)" and k: "la ` fst ` set S \<subseteq> set (keys t)"
    "set (keys t) \<subseteq> la ` fst ` set S \<union> {0}"
    by (auto simp: prof_R_def S split: if_splits)
  have pos: "0 < la i" using nn e assms(3) by force
  have "{x \<in> set (keys t). la i < x} = la ` fst ` set us"
  proof (rule set_eqI, rule iffI)
    fix x assume "x \<in> {x \<in> set (keys t). la i < x}"
    then obtain d where d: "d \<in> set S" "x = la (fst d)" "la i < la (fst d)" using k(2) pos by auto
    then have "d \<in> set us" using so e(2) unfolding S by (auto simp: sorted_wrt_append)
    then show "x \<in> la ` fst ` set us" using d(2) by auto
  next
    fix x assume "x \<in> la ` fst ` set us"
    then show "x \<in> {x \<in> set (keys t). la i < x}" using so e(2) k(1) by (auto simp: sorted_wrt_append S)
  qed
  moreover have "distinct (map (\<lambda>d. la (fst d)) us)"
    using so unfolding sorted_wrt_append by (induction us) (auto simp: image_iff)
  then have "card (la ` fst ` set us) = length us"
    using distinct_card [of "map (\<lambda>d. la (fst d)) us"] by (simp add: image_image)
  ultimately show ?thesis using index_split [of us e vs] prof_R_distinct [OF assms(1)] e(2) S by simp
qed

lemma stack_step_sorted:
  assumes "sorted_wrt (\<lambda>a b. la (fst b) < la (fst a)) S" and "\<forall>e \<in> set S. la (fst e) < ts"
  shows "sorted_wrt (\<lambda>a b. (la(i := ts)) (fst b) < (la(i := ts)) (fst a)) (stack_step i S)"
proof -
  have "sorted_wrt (\<lambda>a b. (la(i := ts)) (fst b) < (la(i := ts)) (fst a)) (queue_delete i S)"
    using assms by (induction S) (auto simp: queue_delete_def)
  then show ?thesis using assms(2) by (auto simp: stack_step_def queue_delete_def)
qed

lemma stack_step_ids [simp]: "fst ` set (stack_step i S) = Set.insert i (fst ` set S)"
  by (auto simp: stack_step_def)

lemma prof_step:
  assumes "prof_R G ts t tab la S z" and "ghash_ok G"
  shows "\<exists>l t'. get_stack_dist_add_req G req t tab ts
        = Some (prof_dist (req_obj_id req) S z, l, t', g_insert G tab (req_obj_id req) ts)
    \<and> l = (if prof_dist (req_obj_id req) S z = - 1 then - 1 else la (req_obj_id req))
    \<and> prof_R G (ts + 1) t' (g_insert G tab (req_obj_id req) ts) (la(req_obj_id req := ts))
        (stack_step (req_obj_id req) S) (prof_zero (req_obj_id req) S z)"
proof -
  let ?i = "req_obj_id req"
  from assms(1) have R: "sTree_ok t" "0 \<le> ts" "S = [] \<longleftrightarrow> ts = 0"
    "sorted_wrt (\<lambda>a b. la (fst b) < la (fst a)) S" "\<forall>e \<in> set S. 0 \<le> la (fst e) \<and> la (fst e) < ts"
    "la ` fst ` set S \<subseteq> set (keys t)" "set (keys t) \<subseteq> la ` fst ` set S \<union> (if S = [] then {} else {0})"
    "\<forall>i. g_lookup G tab i = (if i \<in> fst ` set S then la i else 0)"
    "\<forall>i. z = Some i \<longleftrightarrow> i \<in> fst ` set S \<and> la i = 0"
    unfolding prof_R_def by blast+
  have new: "prof_R G (ts + 1) t' (g_insert G tab ?i ts) (la(?i := ts)) (stack_step ?i S) (prof_zero ?i S z)"
    if t': "sTree_ok t'" "set (keys t') = Set.insert ts K" and K: "la ` (fst ` set S - {?i}) \<subseteq> K"
      "K \<subseteq> la ` (fst ` set S - {?i}) \<union> (if S = [] then {} else {0})" for t' K
  proof -
    have so: "sorted_wrt (\<lambda>a b. (la(?i := ts)) (fst b) < (la(?i := ts)) (fst a)) (stack_step ?i S)"
      by (rule stack_step_sorted) (use R in auto)
    have rng: "\<forall>e \<in> set (stack_step ?i S). 0 \<le> (la(?i := ts)) (fst e) \<and> (la(?i := ts)) (fst e) < ts + 1"
      using R(2,5) by (force simp: stack_step_def queue_delete_def)
    have im: "(la(?i := ts)) ` fst ` set (stack_step ?i S) = Set.insert ts (la ` (fst ` set S - {?i}))"
      by (auto simp: image_iff)
    have ze: "\<forall>i. prof_zero ?i S z = Some i \<longleftrightarrow> i \<in> fst ` set (stack_step ?i S) \<and> (la(?i := ts)) i = 0"
    proof (cases "S = []")
      case False
      then have "(i \<in> fst ` set (stack_step ?i S) \<and> (la(?i := ts)) i = 0) \<longleftrightarrow> i \<noteq> ?i \<and> z = Some i" for i
        using R(2,3,9) by auto
      then show ?thesis using False by (auto simp: prof_zero_def)
    qed (use R(3) in \<open>simp add: prof_zero_def stack_step_def queue_delete_def\<close>)
    have ne: "stack_step ?i S \<noteq> []" by (simp add: stack_step_def)
    show ?thesis unfolding prof_R_def im t'(2)
    proof (intro conjI)
      show "\<forall>i. g_lookup G (g_insert G tab ?i ts) i
          = (if i \<in> fst ` set (stack_step ?i S) then (la(?i := ts)) i else 0)"
        using assms(2) R(8) by (simp add: ghash_ok_def)
      show "Set.insert ts (la ` (fst ` set S - {?i})) \<subseteq> Set.insert ts K" using K(1) by blast
    qed (use t'(1) R(2) so rng ze ne K in \<open>auto split: if_splits\<close>)
  qed
  show ?thesis
  proof (cases "?i \<in> fst ` set S \<and> la ?i \<noteq> 0")
    case False
    then have gp: "g_lookup G tab ?i = 0" and d: "prof_dist ?i S z = - 1"
      using R(8,9) by (auto simp: prof_dist_def)
    from splay_insert_correct [OF R(1), of ts] obtain t' where
      t': "insert ts t = Some t'" "sTree_ok t'" "set (keys t') = Set.insert ts (set (keys t))" by blast
    have "la j \<in> la ` (fst ` set S - {?i}) \<union> {0}" if "j \<in> fst ` set S" for j
      using that False by (cases "j = ?i") auto
    then have "set (keys t) \<subseteq> la ` (fst ` set S - {?i}) \<union> (if S = [] then {} else {0})"
      using R(7) by (cases "S = []") force+
    from new [OF t'(2,3) _ this] R(6) t'(1) gp d show ?thesis
      by (auto simp: get_stack_dist_add_req_def)
  next
    case True
    then have gp: "g_lookup G tab ?i = la ?i" and d: "prof_dist ?i S z = int (queue_index ?i S)"
      and mem: "la ?i \<in> set (keys t)" using R(6,8,9) by (auto simp: prof_dist_def)
    from splay_rank [OF R(1) mem] obtain l v r where
      s: "splay (la ?i) t = Node l (la ?i) v r" "keys t = keys l @ la ?i # keys r" "check_sTree (Node l (la ?i) v r)"
      "node_value r = int (card {x \<in> set (keys t). la ?i < x})" by blast
    let ?s = "Node l (la ?i) v r"
    have ok: "sTree_ok ?s" "la ?i \<in> set (keys ?s)" "set (keys ?s) = set (keys t)"
      using R(1) s(2,3) by (auto simp: sTree_ok_def)
    from splay_delete_correct [OF ok(1,2)] have del: "sTree_ok (splay_delete (la ?i) ?s)"
      "set (keys (splay_delete (la ?i) ?s)) = set (keys t) - {la ?i}" using ok(3) by auto
    from splay_insert_correct [OF del(1), of ts] del(2) obtain t' where
      t': "insert ts (splay_delete (la ?i) ?s) = Some t'" "sTree_ok t'"
      "set (keys t') = Set.insert ts (set (keys t) - {la ?i})" by auto
    have inj: "la j \<noteq> la ?i" if "j \<in> fst ` set S" "j \<noteq> ?i" for j
      using that True prof_R_inj [OF assms(1)] by blast
    have "la ` (fst ` set S - {?i}) \<subseteq> set (keys t) - {la ?i}" using R(6) inj by auto
    moreover have "set (keys t) - {la ?i} \<subseteq> la ` (fst ` set S - {?i}) \<union> (if S = [] then {} else {0})"
    proof (cases "S = []")
      case False
      then have "set (keys t) \<subseteq> la ` fst ` set S \<union> {0}" using R(7) by simp
      then have "x = 0 \<or> (\<exists>j \<in> fst ` set S. x = la j)" if "x \<in> set (keys t)" for x
        using that by auto
      then have "x = 0 \<or> (\<exists>j \<in> fst ` set S - {?i}. x = la j)" if "x \<in> set (keys t) - {la ?i}" for x
        using that by (metis Diff_iff singletonD singletonI)
      then show ?thesis using False by auto
    qed (use R(7) in auto)
    ultimately show ?thesis
      using new [OF t'(2,3)] gp d s(1,4) t'(1) prof_rank [OF assms(1)] True
      by (simp add: get_stack_dist_add_req_def)
  qed
qed

lemma prof_init: "ghash_ok G \<Longrightarrow> prof_R G 0 Leaf (g_new G) la [] None"
  by (simp add: prof_R_def ghash_ok_def sTree_ok_def)

section \<open>The hit counts\<close>

text \<open>The loop of the profiler adds one for each distance within the array.\<close>

fun tally :: "int \<Rightarrow> int list \<Rightarrow> int list \<Rightarrow> int list" where
  "tally n [] a = a"
| "tally n (d # ds) a = tally n ds
    (if d = - 1 then a else if d + 1 \<le> n then a[nat (d + 1) := a ! nat (d + 1) + 1] else a)"

lemma lru_hit_loop_tally:
  "prof_R G ts t tab la S z \<Longrightarrow> ghash_ok G \<Longrightarrow>
   lru_hit_loop G reqs t tab ts n a = Some (tally n (prof_dists S z reqs) a)"
proof (induction reqs arbitrary: ts t tab la S z a)
  case (Cons req reqs)
  from prof_step [OF Cons.prems] obtain l t' where
    "get_stack_dist_add_req G req t tab ts
        = Some (prof_dist (req_obj_id req) S z, l, t', g_insert G tab (req_obj_id req) ts)"
    "prof_R G (ts + 1) t' (g_insert G tab (req_obj_id req) ts) (la(req_obj_id req := ts))
        (stack_step (req_obj_id req) S) (prof_zero (req_obj_id req) S z)" by blast
  then show ?case using Cons.IH Cons.prems(2) by simp
qed simp

lemma tally_length [simp]: "length (tally n ds a) = length a"
  by (induction n ds a rule: tally.induct) auto

lemma tally_nth:
  "\<forall>d \<in> set ds. - 1 \<le> d \<Longrightarrow> length a = nat (n + 1) \<Longrightarrow> j < length a \<Longrightarrow>
   tally n ds a ! j = a ! j + int (length (filter (\<lambda>d. d \<noteq> - 1 \<and> nat (d + 1) = j) ds))"
proof (induction n ds a rule: tally.induct)
  case (2 n d ds a)
  let ?a = "if d = - 1 then a else if d + 1 \<le> n then a[nat (d + 1) := a ! nat (d + 1) + 1] else a"
  have "tally n ds ?a ! j = ?a ! j + int (length (filter (\<lambda>d. d \<noteq> - 1 \<and> nat (d + 1) = j) ds))"
    using 2 by auto
  moreover have "?a ! j = a ! j + (if d \<noteq> - 1 \<and> nat (d + 1) = j then 1 else 0)"
    using 2(2-4) by (auto simp: nth_list_update)
  ultimately show ?case by simp
qed simp

lemma accumulate_length [simp]: "length (accumulate i m a) = length a"
  by (induction i m a rule: accumulate.induct) auto

lemma accumulate_nth:
  "0 < i \<Longrightarrow> length a = i + m \<Longrightarrow> j < length a \<Longrightarrow>
   accumulate i m a ! j = (if j < i then a ! j else a ! (i - 1) + (\<Sum>x = i..j. a ! x))"
proof (induction i m a rule: accumulate.induct)
  case (2 i n a)
  let ?a = "a[i := a ! i + a ! (i - 1)]"
  have ih: "accumulate (i + 1) n ?a ! j = (if j < i + 1 then ?a ! j else ?a ! i + (\<Sum>x = i + 1..j. ?a ! x))"
    using 2 by simp
  have "(\<Sum>x = i + 1..j. ?a ! x) = (\<Sum>x = i + 1..j. a ! x)" by (rule sum.cong) auto
  moreover have "(\<Sum>x = i..j. a ! x) = a ! i + (\<Sum>x = i + 1..j. a ! x)" if "i \<le> j"
    using that by (simp add: sum.atLeast_Suc_atMost)
  ultimately show ?case using ih 2(2-4) by (auto simp: less_Suc_eq)
qed simp

lemma prof_dists_lower: "\<forall>d \<in> set (prof_dists S z reqs). - 1 \<le> d"
  by (induction S z reqs rule: prof_dists.induct) (auto simp: prof_dist_def)

text \<open>An entry is the number of the distances below it.\<close>

lemma hit_cnt_nth:
  assumes "ghash_ok G" and "0 \<le> n" and "k \<le> nat n"
  shows "\<exists>a. get_lru_hit_cnt G reqs n = Some a \<and> length a = nat (n + 1)
    \<and> a ! k = int (length (filter (\<lambda>d. d \<noteq> - 1 \<and> d < int k) (prof_dists [] None reqs)))"
proof -
  let ?ds = "prof_dists [] None reqs" and ?z = "replicate (nat (n + 1)) (0 :: int)"
  let ?t = "tally n ?ds ?z"
  have len: "length ?z = nat (n + 1)" by simp
  have entry: "?t ! j = int (length (filter (\<lambda>d. d \<noteq> - 1 \<and> nat (d + 1) = j) ?ds))" if "j \<le> nat n" for j
    using tally_nth [OF prof_dists_lower len, of j] that assms(2) by simp
  have sum: "(\<Sum>j = 0..m. int (length (filter (\<lambda>d. d \<noteq> - 1 \<and> nat (d + 1) = j) ds)))
      = int (length (filter (\<lambda>d. d \<noteq> - 1 \<and> d < int m) ds))" if "\<forall>d \<in> set ds. - 1 \<le> d" for ds m
    using that
  proof (induction ds)
    case (Cons d ds)
    have "(\<Sum>j = 0..m. if d \<noteq> - 1 \<and> nat (d + 1) = j then 1 else (0 :: int)) = (if d \<noteq> - 1 \<and> d < int m then 1 else 0)"
      using Cons.prems by (cases "d = - 1") (auto simp: sum.delta')
    moreover have "(\<Sum>j = 0..m. int (length (filter (\<lambda>d. d \<noteq> - 1 \<and> nat (d + 1) = j) (d # ds))))
        = (\<Sum>j = 0..m. if d \<noteq> - 1 \<and> nat (d + 1) = j then 1 else (0 :: int))
          + (\<Sum>j = 0..m. int (length (filter (\<lambda>d. d \<noteq> - 1 \<and> nat (d + 1) = j) ds)))"
      by (subst sum.distrib [symmetric], rule sum.cong) auto
    ultimately show ?case using Cons by simp
  qed simp
  have "accumulate 1 (nat n) ?t ! k = (\<Sum>j = 0..k. ?t ! j)"
    using accumulate_nth [of 1 ?t "nat n" k] assms(2,3) by (auto simp: sum.atLeast_Suc_atMost nat_add_distrib)
  also have "\<dots> = (\<Sum>j = 0..k. int (length (filter (\<lambda>d. d \<noteq> - 1 \<and> nat (d + 1) = j) ?ds)))"
    by (rule sum.cong) (use entry assms(3) in auto)
  also have "\<dots> = int (length (filter (\<lambda>d. d \<noteq> - 1 \<and> d < int k) ?ds))" by (rule sum [OF prof_dists_lower])
  finally show ?thesis
    using lru_hit_loop_tally [OF prof_init [OF assms(1)] assms(1), of reqs n ?z]
    by (simp add: get_lru_hit_cnt_def)
qed

subsection \<open>The requests the profiler misses\<close>

fun prof_skips :: "int queue \<Rightarrow> obj_id_t option \<Rightarrow> request list \<Rightarrow> bool list" where
  "prof_skips S z [] = []"
| "prof_skips S z (req # reqs) =
    (z = Some (req_obj_id req))
      # prof_skips (stack_step (req_obj_id req) S) (prof_zero (req_obj_id req) S z) reqs"

definition first_repeat :: "request list \<Rightarrow> nat \<Rightarrow> bool" where
  "first_repeat reqs t \<longleftrightarrow> 0 < t \<and> req_obj_id (reqs ! t) = req_obj_id (reqs ! 0)
     \<and> (\<forall>u. 0 < u \<and> u < t \<longrightarrow> req_obj_id (reqs ! u) \<noteq> req_obj_id (reqs ! 0))"

lemma prof_skips_length [simp]: "length (prof_skips S z reqs) = length reqs"
  by (induction S z reqs rule: prof_skips.induct) auto

lemma prof_skips_nth:
  "S \<noteq> [] \<Longrightarrow> t < length reqs \<Longrightarrow> prof_skips S z reqs ! t \<longleftrightarrow>
     z = Some (req_obj_id (reqs ! t)) \<and> (\<forall>u < t. req_obj_id (reqs ! u) \<noteq> req_obj_id (reqs ! t))"
proof (induction reqs arbitrary: S z t)
  case (Cons req reqs)
  show ?case
  proof (cases t)
    case (Suc t')
    have ne: "stack_step (req_obj_id req) S \<noteq> []" by (simp add: stack_step_def)
    have "prof_zero (req_obj_id req) S z = Some x \<longleftrightarrow> z = Some x \<and> x \<noteq> req_obj_id req" for x
      using Cons.prems(1) by (auto simp: prof_zero_def)
    then show ?thesis using Cons.IH [OF ne, of t'] Cons.prems Suc
      by (auto simp: less_Suc_eq_0_disj)
  qed simp
qed simp

lemma prof_skips_first_repeat:
  assumes "t < length reqs"
  shows "prof_skips [] None reqs ! t \<longleftrightarrow> first_repeat reqs t"
proof (cases reqs)
  case (Cons req rest)
  have ne: "stack_step (req_obj_id req) [] \<noteq> []" by (simp add: stack_step_def)
  show ?thesis
  proof (cases t)
    case (Suc t')
    then have "prof_skips [] None reqs ! t \<longleftrightarrow> req_obj_id (rest ! t') = req_obj_id req
        \<and> (\<forall>u < t'. req_obj_id (rest ! u) \<noteq> req_obj_id (rest ! t'))"
      using prof_skips_nth [OF ne, of t' rest] assms Cons by (auto simp: prof_zero_def)
    moreover have "(\<forall>u. 0 < u \<and> u < t \<longrightarrow> req_obj_id (reqs ! u) \<noteq> req_obj_id req)
        \<longleftrightarrow> (\<forall>u < t'. req_obj_id (rest ! u) \<noteq> req_obj_id req)"
      using Suc Cons by (auto simp: less_Suc_eq_0_disj gr0_conv_Suc)
    ultimately show ?thesis using Suc Cons by (auto simp: first_repeat_def)
  qed (simp add: first_repeat_def Cons)
qed (use assms in simp)

lemma index_in_take:
  assumes "distinct (map fst S)"
  shows "i \<in> fst ` set (take k S) \<longleftrightarrow> i \<in> fst ` set S \<and> queue_index i S < k"
proof (cases "i \<in> fst ` set S")
  case True
  then obtain e where e: "e \<in> set S" "fst e = i" by auto
  then obtain us vs where S: "S = us @ e # vs" by (auto dest: split_list)
  have idx: "queue_index i S = length us" using index_split [of us e vs] assms e(2) S by simp
  show ?thesis
  proof (cases "k \<le> length us")
    case True
    have "i \<notin> fst ` set us" using assms e(2) S by (auto simp: rev_image_eqI)
    then have "i \<notin> fst ` set (take k us)" by (auto dest: in_set_takeD)
    then show ?thesis using True idx S by simp
  next
    case False
    then show ?thesis using True idx S e(2) by (simp add: take_Cons')
  qed
qed (auto dest: in_set_takeD)

text \<open>Each entry counts the hits of a cache of that many objects, but for the skipped request.\<close>

lemma dists_count_hits:
  assumes "distinct (map fst S)" and "\<forall>e \<in> set S. snd e = 1" and "0 < k"
    and "\<forall>req \<in> set reqs. req_obj_size req = 1"
  shows "length (filter (\<lambda>d. d \<noteq> - 1 \<and> d < int k) (prof_dists S z reqs))
    = length (filter (\<lambda>(h, sk). h \<and> \<not> sk)
        (zip (snd (queue_serve None True (int k) 0 (take k S) reqs)) (prof_skips S z reqs)))"
  using assms(1,2,4)
proof (induction reqs arbitrary: S z)
  case (Cons req reqs)
  let ?i = "req_obj_id req"
  have sz: "req_obj_size req = 1" using Cons.prems(3) by simp
  note p = stack_step_props [OF Cons.prems(1,2), of ?i]
  have "?i \<in> fst ` set (take k S) \<and> z \<noteq> Some ?i \<longleftrightarrow> prof_dist ?i S z \<noteq> - 1 \<and> prof_dist ?i S z < int k"
    using index_in_take [OF Cons.prems(1), of ?i k] by (auto simp: prof_dist_def)
  then show ?case using Cons.IH [OF p, of "prof_zero ?i S z"] Cons.prems(3)
    by (auto simp: queue_get_stack [OF Cons.prems(1,2) assms(3) sz] split: prod.splits)
qed simp

lemma queue_serve_length: "length (snd (queue_serve pn pr cap md es reqs)) = length reqs"
proof (induction reqs arbitrary: es)
  case (Cons req reqs)
  obtain es' hit where "queue_get pn pr cap md req es = (es', hit)" by fastforce
  with Cons.IH [of es'] show ?case by (auto split: prod.split)
qed simp

lemma profile_hits:
  assumes "0 < k" and "\<forall>req \<in> set reqs. req_obj_size req = 1"
    and "hits = snd (queue_serve None True (int k) 0 [] reqs)"
  shows "length (filter (\<lambda>d. d \<noteq> - 1 \<and> d < int k) (prof_dists [] None reqs))
    = card {t. t < length reqs \<and> hits ! t \<and> \<not> first_repeat reqs t}"
proof -
  have len: "length hits = length reqs" by (simp add: assms(3) queue_serve_length)
  have "length (filter (\<lambda>d. d \<noteq> - 1 \<and> d < int k) (prof_dists [] None reqs))
      = length (filter (\<lambda>(h, sk). h \<and> \<not> sk) (zip hits (prof_skips [] None reqs)))"
    using dists_count_hits [of "[]" k reqs None] assms by simp
  also have "\<dots> = card {t. t < length reqs \<and> hits ! t \<and> \<not> prof_skips [] None reqs ! t}"
    by (subst length_filter_conv_card) (auto simp: len intro!: arg_cong [where f = card])
  also have "\<dots> = card {t. t < length reqs \<and> hits ! t \<and> \<not> first_repeat reqs t}"
    using prof_skips_first_repeat by (intro arg_cong [where f = card]) auto
  finally show ?thesis .
qed

section \<open>The arrays of distances\<close>

text \<open>
  The time of the last access before \<open>t\<close>, and the two distances.  An object whose only access was at
  time 0 looks like one that was never requested.
\<close>

definition last_access :: "request list \<Rightarrow> nat \<Rightarrow> obj_id_t \<Rightarrow> nat" where
  "last_access reqs t i = Max (Set.insert 0 {s. s < t \<and> req_obj_id (reqs ! s) = i})"

definition access_distance :: "request list \<Rightarrow> nat \<Rightarrow> int" where
  "access_distance reqs t = (let s = last_access reqs t (req_obj_id (reqs ! t)) in
     if s = 0 then - 1 else int t - int s)"

definition stack_distance :: "request list \<Rightarrow> nat \<Rightarrow> int" where
  "stack_distance reqs t = (let s = last_access reqs t (req_obj_id (reqs ! t)) in
     if s = 0 then - 1 else int (card ((\<lambda>u. req_obj_id (reqs ! u)) ` {s<..<t})))"

lemma last_access_0 [simp]: "last_access reqs 0 i = 0"
  by (simp add: last_access_def)

lemma last_access_Suc:
  "last_access reqs (Suc t) i = (if req_obj_id (reqs ! t) = i then t else last_access reqs t i)"
proof (cases "req_obj_id (reqs ! t) = i")
  case True
  show ?thesis unfolding last_access_def by (subst Max_eq_iff) (auto simp: True)
next
  case False
  then have "{s. s < Suc t \<and> req_obj_id (reqs ! s) = i} = {s. s < t \<and> req_obj_id (reqs ! s) = i}"
    by (auto simp: less_Suc_eq)
  then show ?thesis using False by (simp add: last_access_def)
qed

lemma last_access_le: "last_access reqs t i \<le> t"
  by (simp add: last_access_def)

lemma last_access_ge: "u < t \<Longrightarrow> req_obj_id (reqs ! u) = i \<Longrightarrow> u \<le> last_access reqs t i"
  by (simp add: last_access_def)

lemma last_access_hit: "last_access reqs t i \<noteq> 0 \<Longrightarrow>
  last_access reqs t i < t \<and> req_obj_id (reqs ! last_access reqs t i) = i"
proof -
  assume ne: "last_access reqs t i \<noteq> 0"
  have "Max (Set.insert 0 {s. s < t \<and> req_obj_id (reqs ! s) = i})
      \<in> Set.insert 0 {s. s < t \<and> req_obj_id (reqs ! s) = i}"
    by (rule Max_in) auto
  with ne show ?thesis by (auto simp: last_access_def)
qed

lemma last_access_upd:
  "(\<lambda>i. int (last_access reqs t i))(req_obj_id (reqs ! t) := int t) = (\<lambda>i. int (last_access reqs (Suc t) i))"
  by (rule ext) (simp add: last_access_Suc)

lemma access_distance_upper: "access_distance reqs t \<le> int t"
  by (simp add: access_distance_def Let_def)

lemma fill_entry: "t < length a \<Longrightarrow> length a = n \<Longrightarrow>
  take (Suc t) (a[t := f t]) @ map f [Suc t..<n] = take t a @ map f [t..<n]"
  by (simp add: take_Suc_conv_app_nth upt_conv_Cons)

lemma to_int32_small: "- 1 \<le> d \<Longrightarrow> d < 2 ^ 31 \<Longrightarrow> to_int32 d = d"
  by (rule to_int32_id) auto

lemma access_dist_loop_last:
  assumes "ghash_ok G" and "length reqs \<le> 2 ^ 31"
  shows "t \<le> length reqs \<Longrightarrow> length a = length reqs \<Longrightarrow> (\<forall>i. g_lookup G tab i = int (last_access reqs t i)) \<Longrightarrow>
    access_dist_loop G DIST_SINCE_LAST_ACCESS (drop t reqs) tab t a
      = Some (take t a @ map (\<lambda>u. Some (access_distance reqs u)) [t..<length reqs])"
proof (induction "drop t reqs" arbitrary: t tab a)
  case (Cons req rest)
  then have t: "t < length reqs" by (cases "t < length reqs") auto
  then have dr: "drop t reqs = reqs ! t # drop (Suc t) reqs" by (simp add: Cons_nth_drop_Suc)
  let ?i = "req_obj_id (reqs ! t)" and ?d = "access_distance reqs t"
  have add: "get_access_dist_add_req G (reqs ! t) tab (int t) DIST_SINCE_LAST_ACCESS
      = Some (?d, g_insert G tab ?i (int t))"
    using Cons.prems(3) by (simp add: get_access_dist_add_req_def access_distance_def Let_def)
  have "\<forall>i. g_lookup G (g_insert G tab ?i (int t)) i = int (last_access reqs (Suc t) i)"
    using assms(1) Cons.prems(3) by (simp add: ghash_ok_def last_access_Suc)
  with Cons.hyps(1) [of "Suc t"] Cons.hyps(2) Cons.prems t dr
  have "access_dist_loop G DIST_SINCE_LAST_ACCESS (drop (Suc t) reqs) (g_insert G tab ?i (int t)) (Suc t)
      (a[t := Some ?d]) = Some (take t a @ map (\<lambda>u. Some (access_distance reqs u)) [t..<length reqs])"
    using fill_entry [of t a "length reqs" "\<lambda>u. Some (access_distance reqs u)"] by simp
  moreover have "int t < 2 ^ 31" using t assms(2) by simp
  then have "to_int32 ?d = ?d" "\<not> UINT32_MAX < ?d"
    using access_distance_upper [of reqs t] last_access_le [of reqs t ?i]
    by (auto intro!: to_int32_small simp: access_distance_def UINT32_MAX_def Let_def)
  ultimately show ?case unfolding dr using add by simp
qed simp

lemma access_dist_loop_first:
  assumes "ghash_ok G"
  shows "t \<le> length reqs \<Longrightarrow> length a = length reqs \<Longrightarrow>
    access_dist_loop G DIST_SINCE_FIRST_ACCESS (drop t reqs) (g_new G) t a
      = Some (take t a @ map (\<lambda>u. Some (- 1)) [t..<length reqs])"
proof (induction "drop t reqs" arbitrary: t a)
  case (Cons req rest)
  then have t: "t < length reqs" by (cases "t < length reqs") auto
  then have dr: "drop t reqs = reqs ! t # drop (Suc t) reqs" by (simp add: Cons_nth_drop_Suc)
  have "get_access_dist_add_req G (reqs ! t) (g_new G) (int t) DIST_SINCE_FIRST_ACCESS = Some (- 1, g_new G)"
    using assms by (simp add: get_access_dist_add_req_def ghash_ok_def)
  then show ?case unfolding dr
    using Cons.hyps(1) [of "Suc t"] Cons.hyps(2) Cons.prems t dr
      fill_entry [of t a "length reqs" "\<lambda>u. Some (- 1)"]
    by (simp add: to_int32_small UINT32_MAX_def)
qed simp

text \<open>The position in the stack is the number of objects requested since the last access.\<close>

lemma prof_dist_stack_distance:
  assumes R: "prof_R G (int t) tr tab (\<lambda>i. int (last_access reqs t i)) S z"
    and ids: "fst ` set S = req_obj_id ` set (take t reqs)" and t: "t < length reqs"
  shows "prof_dist (req_obj_id (reqs ! t)) S z = stack_distance reqs t"
proof -
  let ?i = "req_obj_id (reqs ! t)" and ?la = "last_access reqs t"
  have mem: "j \<in> fst ` set S \<longleftrightarrow> (\<exists>u < t. req_obj_id (reqs ! u) = j)" for j
    using nth_image [of t reqs] t by (auto simp: ids image_iff simp flip: nth_image)
  have z: "z = Some ?i \<longleftrightarrow> ?i \<in> fst ` set S \<and> ?la ?i = 0" using R by (simp add: prof_R_def)
  show ?thesis
  proof (cases "?la ?i = 0")
    case True
    then show ?thesis using z by (auto simp: prof_dist_def stack_distance_def)
  next
    case False
    have i: "?i \<in> fst ` set S" using last_access_hit [OF False] mem by blast
    from i obtain e where e: "e \<in> set S" "fst e = ?i" by auto
    from split_list [OF e(1)] obtain us vs where S': "S = us @ e # vs" by blast
    note S = S' e(2)
    have so: "sorted_wrt (\<lambda>a b. ?la (fst b) < ?la (fst a)) (us @ e # vs)"
      using R by (simp add: prof_R_def S(1))
    have "fst ` set us = (\<lambda>u. req_obj_id (reqs ! u)) ` {?la ?i<..<t}"
    proof (rule set_eqI, rule iffI)
      fix j assume "j \<in> fst ` set us"
      then have "?la ?i < ?la j" using so S(2) by (auto simp: sorted_wrt_append)
      with last_access_hit [of reqs t j] show "j \<in> (\<lambda>u. req_obj_id (reqs ! u)) ` {?la ?i<..<t}"
        by (intro image_eqI [of _ _ "?la j"]) auto
    next
      fix j assume "j \<in> (\<lambda>u. req_obj_id (reqs ! u)) ` {?la ?i<..<t}"
      then obtain u where u: "?la ?i < u" "u < t" "req_obj_id (reqs ! u) = j" by auto
      then have "?la ?i < ?la j" using last_access_ge [of u t reqs j] by simp
      moreover obtain d where "d \<in> set S" "fst d = j" using mem [of j] u by auto
      ultimately show "j \<in> fst ` set us" using so S by (auto simp: sorted_wrt_append)
    qed
    moreover have "distinct (map fst us)" using prof_R_distinct [OF R] S(1) by simp
    then have "card (fst ` set us) = length us" by (metis distinct_card length_map list.set_map)
    moreover have "queue_index ?i S = length us"
      using index_split [of us e vs] prof_R_distinct [OF R] S by simp
    ultimately show ?thesis using i z False by (simp add: prof_dist_def stack_distance_def)
  qed
qed

lemma stack_distance_bounds: "- 1 \<le> stack_distance reqs t" "stack_distance reqs t \<le> int t"
proof -
  have "card ((\<lambda>u. req_obj_id (reqs ! u)) ` {s<..<t}) \<le> t" for s
    using card_image_le [of "{s<..<t}" "\<lambda>u. req_obj_id (reqs ! u)"] by simp
  then show "- 1 \<le> stack_distance reqs t" "stack_distance reqs t \<le> int t"
    by (auto simp: stack_distance_def Let_def)
qed

lemma stack_dist_loop_last:
  assumes "ghash_ok G" and "length reqs \<le> 2 ^ 31"
  shows "t \<le> length reqs \<Longrightarrow> length a = length reqs \<Longrightarrow>
    prof_R G (int t) tr tab (\<lambda>i. int (last_access reqs t i)) S z \<Longrightarrow>
    fst ` set S = req_obj_id ` set (take t reqs) \<Longrightarrow>
    stack_dist_loop G STACK_DIST (drop t reqs) tr tab t a
      = Some (take t a @ map (\<lambda>u. Some (stack_distance reqs u)) [t..<length reqs])"
proof (induction "drop t reqs" arbitrary: t tr tab S z a)
  case (Cons req rest)
  then have t: "t < length reqs" by (cases "t < length reqs") auto
  then have dr: "drop t reqs = reqs ! t # drop (Suc t) reqs" by (simp add: Cons_nth_drop_Suc)
  let ?i = "req_obj_id (reqs ! t)" and ?d = "stack_distance reqs t"
  from prof_step [OF Cons.prems(3) assms(1), of "reqs ! t"] obtain l tr' where
    add: "get_stack_dist_add_req G (reqs ! t) tr tab (int t) = Some (?d, l, tr', g_insert G tab ?i (int t))"
    and R: "prof_R G (int (Suc t)) tr' (g_insert G tab ?i (int t)) (\<lambda>i. int (last_access reqs (Suc t) i))
      (stack_step ?i S) (prof_zero ?i S z)"
    unfolding prof_dist_stack_distance [OF Cons.prems(3,4) t] last_access_upd by (auto simp: add.commute)
  have "fst ` set (stack_step ?i S) = req_obj_id ` set (take (Suc t) reqs)"
    using Cons.prems(4) t by (simp add: take_Suc_conv_app_nth)
  with Cons.hyps(1) [of "Suc t"] Cons.hyps(2) Cons.prems t dr R
  have "stack_dist_loop G STACK_DIST (drop (Suc t) reqs) tr' (g_insert G tab ?i (int t)) (Suc t)
      (a[t := Some ?d]) = Some (take t a @ map (\<lambda>u. Some (stack_distance reqs u)) [t..<length reqs])"
    using fill_entry [of t a "length reqs" "\<lambda>u. Some (stack_distance reqs u)"] by simp
  moreover have "int t < 2 ^ 31" using t assms(2) by simp
  then have "to_int32 ?d = ?d" "\<not> UINT32_MAX < ?d"
    using stack_distance_bounds [of reqs t] by (auto intro!: to_int32_small simp: UINT32_MAX_def)
  ultimately show ?case unfolding dr using add by simp
qed simp

lemma cnt_dist_lookup:
  "ghash_ok G \<Longrightarrow> g_lookup G (cnt_dist G ds tab) k = g_lookup G tab k
     + int (length (filter (\<lambda>d. word_of_int (if d = - 1 then INT64_MAX else d) = k) ds))"
  by (induction ds arbitrary: tab) (auto simp: ghash_ok_def Let_def)

lemma dist_key_inject:
  assumes "- (2 ^ 31) \<le> d" "d < 2 ^ 31" "- (2 ^ 31) \<le> e" "e < 2 ^ 31"
    and "(word_of_int (if d = - 1 then INT64_MAX else d) :: obj_id_t)
      = word_of_int (if e = - 1 then INT64_MAX else e)"
  shows "d = e"
proof -
  have "(if d = - 1 then INT64_MAX else d) mod 2 ^ 64 = (if e = - 1 then INT64_MAX else e) mod 2 ^ 64"
    using assms(5) by (simp add: word_of_int_eq_iff take_bit_eq_mod)
  moreover have "- (2 ^ 63) \<le> x \<Longrightarrow> x < 2 ^ 63 \<Longrightarrow> - (2 ^ 63) \<le> y \<Longrightarrow> y < 2 ^ 63 \<Longrightarrow>
      x mod 2 ^ 64 = y mod 2 ^ 64 \<Longrightarrow> x = y" for x y :: int
    using dvd_imp_le_int [of "x - y" "2 ^ 64"] by (cases "x = y") (auto simp: mod_eq_dvd_iff abs_if split: if_splits)
  ultimately have "(if d = - 1 then INT64_MAX else d) = (if e = - 1 then INT64_MAX else e)"
    using assms(1-4) by (simp add: INT64_MAX_def split: if_splits)
  then show ?thesis using assms(1-4) by (auto simp: INT64_MAX_def split: if_splits)
qed

section \<open>Properties\<close>

text \<open>
  C5: the LRU profiler counts the hits of the LRU cache.  For every trace of objects of size 1 and
  every size \<open>k\<close> up to the size of its array, entry \<open>k\<close>, which comes from distances measured with the
  splay tree and prefix sums, is the number of requests that the LRU cache of \<open>k\<close> bytes reports as
  hits when it serves the trace, with one exception: the first repetition of the object of the
  very first request is never counted, because its time 0 is stored as a null pointer.
\<close>

theorem lru_profile_counts_cache_hits:
  fixes pf0 :: 'f
  assumes "ghash_ok G" and "spread E W" and "\<not> support_ttl E" and "pin E = None"
    and "0 < ccp_hashpower p" and "ccp_hashpower p < 40" and "int (snd W) \<le> ccp_hashpower p"
    and "\<not> ccp_consider_obj_metadata p" and "0 < ccp_cache_size p" and "ccp_cache_size p \<le> n"
    and "\<forall>req \<in> set reqs. req_obj_id req \<in> fst W \<and> req_obj_size req = 1"
  shows "\<exists>(c :: ('a, 'f, LRU_params_t) cache_t) hits a.
    serve (LRU_ops E None) None (LRU_init pf0 p s) reqs = Some (c, hits)
    \<and> get_lru_hit_cnt G reqs n = Some a
    \<and> a ! nat (ccp_cache_size p) = int (card {t. t < length reqs \<and> hits ! t \<and> \<not> first_repeat reqs t})"
proof -
  let ?k = "nat (ccp_cache_size p)"
  have ids: "\<forall>req \<in> set reqs. req_obj_id req \<in> fst W" "\<forall>req \<in> set reqs. req_obj_size req = 1"
    using assms(11) by auto
  have R: "LRU_R E W (LRU_init pf0 p s :: ('a, 'f, LRU_params_t) cache_t) []"
    by (rule LRU_init_R [OF assms(2,3,5-7)])
  from lru.serve_refines [OF R ids(1)] assms(4,8) obtain c where
    c: "serve (LRU_ops E None) None (LRU_init pf0 p s :: ('a, 'f, LRU_params_t) cache_t) reqs
      = Some (c, snd (queue_serve None True (ccp_cache_size p) 0 [] reqs))"
    by (auto simp: spec_serve_queue)
  from hit_cnt_nth [OF assms(1), of n ?k reqs] assms(9,10) obtain a where
    a: "get_lru_hit_cnt G reqs n = Some a"
    "a ! ?k = int (length (filter (\<lambda>d. d \<noteq> - 1 \<and> d < int ?k) (prof_dists [] None reqs)))"
    by (auto simp: nat_mono)
  have "0 < ?k" "int ?k = ccp_cache_size p" using assms(9) by auto
  with profile_hits [OF _ ids(2) refl, of ?k] c a show ?thesis by auto
qed



theorem lru_profile_counts_cache_hits_witness:
  "\<exists>(c :: (unit, unit, LRU_params_t) cache_t) hits a.
     serve (LRU_ops sample_env None) None (LRU_init () (sample_params 2) None)
       [sample_req 1 1, sample_req 2 1, sample_req 1 1, sample_req 2 1] = Some (c, hits)
     \<and> get_lru_hit_cnt fun_ghash [sample_req 1 1, sample_req 2 1, sample_req 1 1, sample_req 2 1] 3 = Some a
     \<and> a ! nat 2 = int (card {t. t < 4 \<and> hits ! t
         \<and> \<not> first_repeat [sample_req 1 1, sample_req 2 1, sample_req 1 1, sample_req 2 1] t})"
  using lru_profile_counts_cache_hits [of fun_ghash sample_env sample_ids "sample_params 2" 3
      "[sample_req 1 1, sample_req 2 1, sample_req 1 1, sample_req 2 1]" "()" None]
  by (simp del: serve.simps add: eval_nat_numeral)



text \<open>
  The array of distances to the last access.  For every trace of at most \<open>2 ^ 31\<close> requests each
  entry is the number of requests since the last access to the requested object, and \<open>- 1\<close> when there
  was none or when it was the very first request.
\<close>

theorem get_access_dist_last:
  assumes "ghash_ok G" and "length reqs \<le> 2 ^ 31"
  shows "get_access_dist G reqs DIST_SINCE_LAST_ACCESS
    = Some (map (\<lambda>t. Some (access_distance reqs t)) [0..<length reqs])"
  using access_dist_loop_last [OF assms, of 0] assms(1)
  by (simp add: get_access_dist_def ghash_ok_def)

theorem get_access_dist_last_witness:
  "get_access_dist fun_ghash [sample_req 1 1, sample_req 2 1, sample_req 2 1] DIST_SINCE_LAST_ACCESS
     = Some [Some (access_distance [sample_req 1 1, sample_req 2 1, sample_req 2 1] 0),
         Some (access_distance [sample_req 1 1, sample_req 2 1, sample_req 2 1] 1),
         Some (access_distance [sample_req 1 1, sample_req 2 1, sample_req 2 1] 2)]"
proof -
  have "length [sample_req 1 1, sample_req 2 1, sample_req 2 1] \<le> 2 ^ 31" by simp
  from get_access_dist_last [OF fun_ghash_ok this] show ?thesis by (simp add: eval_nat_numeral)
qed

text \<open>
  The distances to the first access are never computed.  With \<open>DIST_SINCE_FIRST_ACCESS\<close> nothing is
  ever stored in the table, so every entry of the array is \<open>- 1\<close>, whatever the trace.
\<close>

theorem get_access_dist_first_is_lost:
  assumes "ghash_ok G"
  shows "get_access_dist G reqs DIST_SINCE_FIRST_ACCESS = Some (replicate (length reqs) (Some (- 1)))"
  using access_dist_loop_first [OF assms, of 0] by (simp add: get_access_dist_def map_replicate_const)

theorem get_access_dist_first_is_lost_witness:
  "get_access_dist fun_ghash [sample_req 1 1, sample_req 2 1, sample_req 2 1] DIST_SINCE_FIRST_ACCESS
     = Some [Some (- 1), Some (- 1), Some (- 1)]"
  using get_access_dist_first_is_lost [of fun_ghash "[sample_req 1 1, sample_req 2 1, sample_req 2 1]"]
  by simp

text \<open>
  Counting distances.  After \<open>cnt_dist\<close> on a new table, the entry under a distance, \<open>INT64_MAX\<close>
  standing for \<open>- 1\<close>, is the number of times it occurs in the array, for all \<open>int32_t\<close> values.
\<close>

theorem cnt_dist_counts:
  assumes "ghash_ok G" and "\<forall>e \<in> set ds. - (2 ^ 31) \<le> e \<and> e < 2 ^ 31" and "- (2 ^ 31) \<le> d" and "d < 2 ^ 31"
  shows "g_lookup G (cnt_dist G ds (g_new G)) (word_of_int (if d = - 1 then INT64_MAX else d))
    = int (count_list ds d)"
proof -
  have "filter (\<lambda>e. word_of_int (if e = - 1 then INT64_MAX else e)
      = (word_of_int (if d = - 1 then INT64_MAX else d) :: obj_id_t)) ds = filter (\<lambda>e. e = d) ds"
    using assms(2-4) dist_key_inject [OF _ _ assms(3,4)] by (intro filter_cong refl) metis
  moreover have "length (filter (\<lambda>e. e = d) ds) = count_list ds d" by (induction ds) auto
  ultimately show ?thesis using assms(1) by (simp add: cnt_dist_lookup) (simp add: ghash_ok_def)
qed

theorem cnt_dist_counts_witness:
  "g_lookup fun_ghash (cnt_dist fun_ghash [- 1, 3, - 1] (g_new fun_ghash)) (word_of_int INT64_MAX) = 2"
  using cnt_dist_counts [of fun_ghash "[- 1, 3, - 1]" "- 1"] by simp

end
