(* ===== verification/Pqueue.thy ===== *)
theory Pqueue
  imports Double
begin

text \<open>
  The priority queue (\<open>dataStructure/pqueue.c\<close>, \<open>pqueue.h\<close>): a binary heap of pointers to nodes that
  know their own position.  The nodes live in a store of their own, since the caller keeps pointers
  to them; the array \<open>d\<close> is a list of cells, \<open>None\<close> for a cell that has not been written.  The
  callbacks are those of \<open>pqueue_init\<close>, the only ones the program installs.  Allocation does not fail.

  \<open>pq_R q h C\<close> is the abstraction: the queue holds exactly the nodes of the map \<open>C\<close> from addresses to
  priorities and ids, every node knows its position, and the array is a heap.
\<close>

section \<open>Model\<close>

record pq_node_t =
  pri :: double
  pq_obj_id :: obj_id_t
  pos :: nat

type_synonym pq_store = "addr \<rightharpoonup> pq_node_t"

record pqueue_t =
  pq_size :: nat
  pq_avail :: nat
  pq_step :: nat
  pq_d :: "addr option list"

definition left_child :: "nat \<Rightarrow> nat" where
  "left_child i = i * 2"

definition right_child :: "nat \<Rightarrow> nat" where
  "right_child i = i * 2 + 1"

definition parent :: "nat \<Rightarrow> nat" where
  "parent i = i div 2"

definition cmp_pri :: "double \<Rightarrow> double \<Rightarrow> bool" where
  "cmp_pri next current \<longleftrightarrow> next < current"

definition get_pri :: "pq_store \<Rightarrow> addr \<Rightarrow> double option" where
  "get_pri h a = map_option pri (h a)"

definition set_pri :: "pq_store \<Rightarrow> addr \<Rightarrow> double \<Rightarrow> pq_store option" where
  "set_pri h a p = do { n \<leftarrow> h a; Some (h(a \<mapsto> n\<lparr>pri := p\<rparr>)) }"

definition get_pos :: "pq_store \<Rightarrow> addr \<Rightarrow> nat option" where
  "get_pos h a = map_option pos (h a)"

definition set_pos :: "pq_store \<Rightarrow> addr \<Rightarrow> nat \<Rightarrow> pq_store option" where
  "set_pos h a p = do { n \<leftarrow> h a; Some (h(a \<mapsto> n\<lparr>pos := p\<rparr>)) }"

text \<open>Reading and writing a cell; \<open>None\<close> outside of the array or in a cell never written.\<close>

definition d_get :: "pqueue_t \<Rightarrow> nat \<Rightarrow> addr option" where
  "d_get q i = (if i < length (pq_d q) then pq_d q ! i else None)"

definition d_set :: "pqueue_t \<Rightarrow> nat \<Rightarrow> addr \<Rightarrow> pqueue_t option" where
  "d_set q i a = (if i < length (pq_d q) then Some (q\<lparr>pq_d := (pq_d q)[i := Some a]\<rparr>) else None)"

definition pqueue_init :: "nat \<Rightarrow> pqueue_t" where
  "pqueue_init n = \<lparr>pq_size = 1, pq_avail = n + 1, pq_step = n + 1, pq_d = replicate (n + 1) None\<rparr>"

definition pqueue_size :: "pqueue_t \<Rightarrow> nat" where
  "pqueue_size q = pq_size q - 1"

fun bubble_up_loop :: "pqueue_t \<Rightarrow> pq_store \<Rightarrow> nat \<Rightarrow> double \<Rightarrow> (pqueue_t \<times> pq_store \<times> nat) option" where
  "bubble_up_loop q h i moving_pri =
    (if i > 1 then do {
       a \<leftarrow> d_get q (parent i);
       p \<leftarrow> get_pri h a;
       if cmp_pri p moving_pri then do {
         q \<leftarrow> d_set q i a;
         h \<leftarrow> set_pos h a i;
         bubble_up_loop q h (i div 2) moving_pri }
       else Some (q, h, i) }
     else Some (q, h, i))"

declare bubble_up_loop.simps [simp del]

definition bubble_up :: "pqueue_t \<Rightarrow> pq_store \<Rightarrow> nat \<Rightarrow> (pqueue_t \<times> pq_store) option" where
  "bubble_up q h i = do {
     moving_node \<leftarrow> d_get q i;
     moving_pri \<leftarrow> get_pri h moving_node;
     (q, h, i) \<leftarrow> bubble_up_loop q h i moving_pri;
     q \<leftarrow> d_set q i moving_node;
     h \<leftarrow> set_pos h moving_node i;
     Some (q, h) }"

definition maxchild :: "pqueue_t \<Rightarrow> pq_store \<Rightarrow> nat \<Rightarrow> nat option" where
  "maxchild q h i =
    (let child_node = left_child i
     in if child_node \<ge> pq_size q then Some 0
        else if child_node + 1 < pq_size q then do {
          a \<leftarrow> d_get q child_node;
          pa \<leftarrow> get_pri h a;
          b \<leftarrow> d_get q (child_node + 1);
          pb \<leftarrow> get_pri h b;
          Some (if cmp_pri pa pb then child_node + 1 else child_node) }
        else Some child_node)"

lemma maxchild_descends: "maxchild q h i = Some c \<Longrightarrow> c \<noteq> 0 \<Longrightarrow> i < c \<and> c < pq_size q"
  by (auto simp: maxchild_def left_child_def Let_def split: if_splits elim!: bind_SomeE)

lemma d_set_size: "d_set q i a = Some q' \<Longrightarrow> pq_size q' = pq_size q"
  by (auto simp: d_set_def split: if_splits)

function percolate_down_loop :: "pqueue_t \<Rightarrow> pq_store \<Rightarrow> nat \<Rightarrow> double \<Rightarrow> (pqueue_t \<times> pq_store \<times> nat) option" where
  "percolate_down_loop q h i moving_pri = do {
     child_node \<leftarrow> maxchild q h i;
     if child_node = 0 then Some (q, h, i)
     else do {
       a \<leftarrow> d_get q child_node;
       p \<leftarrow> get_pri h a;
       if cmp_pri moving_pri p then do {
         q \<leftarrow> d_set q i a;
         h \<leftarrow> set_pos h a i;
         percolate_down_loop q h child_node moving_pri }
       else Some (q, h, i) } }"
  by pat_completeness auto
termination
  by (relation "measure (\<lambda>(q, h, i, p). pq_size q - i)") (auto dest!: maxchild_descends d_set_size)

declare percolate_down_loop.simps [simp del]

definition percolate_down :: "pqueue_t \<Rightarrow> pq_store \<Rightarrow> nat \<Rightarrow> (pqueue_t \<times> pq_store) option" where
  "percolate_down q h i = do {
     moving_node \<leftarrow> d_get q i;
     moving_pri \<leftarrow> get_pri h moving_node;
     (q, h, i) \<leftarrow> percolate_down_loop q h i moving_pri;
     q \<leftarrow> d_set q i moving_node;
     h \<leftarrow> set_pos h moving_node i;
     Some (q, h) }"

text \<open>The array doubles when it is full; \<open>realloc\<close> keeps the cells.\<close>

definition pqueue_insert :: "pqueue_t \<Rightarrow> pq_store \<Rightarrow> addr \<Rightarrow> (pqueue_t \<times> pq_store) option" where
  "pqueue_insert q h a = do {
     let q = (if pq_size q \<ge> pq_avail q
              then q\<lparr>pq_d := pq_d q @ replicate (pq_avail q * 2 - pq_avail q) None, pq_avail := pq_avail q * 2\<rparr>
              else q);
     let i = pq_size q;
     q \<leftarrow> d_set (q\<lparr>pq_size := i + 1\<rparr>) i a;
     bubble_up q h i }"

definition pqueue_change_priority ::
    "pqueue_t \<Rightarrow> pq_store \<Rightarrow> double \<Rightarrow> addr \<Rightarrow> (pqueue_t \<times> pq_store) option" where
  "pqueue_change_priority q h new_pri a = do {
     old_pri \<leftarrow> get_pri h a;
     h \<leftarrow> set_pri h a new_pri;
     posn \<leftarrow> get_pos h a;
     if cmp_pri old_pri new_pri then bubble_up q h posn else percolate_down q h posn }"

text \<open>The size is not 0, where \<open>--q->size\<close> would wrap around.\<close>

definition pqueue_remove :: "pqueue_t \<Rightarrow> pq_store \<Rightarrow> addr \<Rightarrow> (pqueue_t \<times> pq_store) option" where
  "pqueue_remove q h a = do {
     posn \<leftarrow> get_pos h a;
     if pq_size q = 0 then None
     else do {
       let q = q\<lparr>pq_size := pq_size q - 1\<rparr>;
       l \<leftarrow> d_get q (pq_size q);
       q \<leftarrow> d_set q posn l;
       p \<leftarrow> get_pri h a;
       pl \<leftarrow> get_pri h l;
       if cmp_pri p pl then bubble_up q h posn else percolate_down q h posn } }"

definition pqueue_pop :: "pqueue_t \<Rightarrow> pq_store \<Rightarrow> (pqueue_t \<times> pq_store \<times> ptr) option" where
  "pqueue_pop q h =
    (if pq_size q = 1 then Some (q, h, NULL)
     else do {
       head \<leftarrow> d_get q 1;
       if pq_size q = 0 then None
       else do {
         let q = q\<lparr>pq_size := pq_size q - 1\<rparr>;
         l \<leftarrow> d_get q (pq_size q);
         q \<leftarrow> d_set q 1 l;
         (q, h) \<leftarrow> percolate_down q h 1;
         Some (q, h, Some head) } })"

definition pqueue_peek :: "pqueue_t \<Rightarrow> ptr option" where
  "pqueue_peek q = (if pq_size q = 1 then Some NULL else map_option Some (d_get q 1))"

text \<open>
  \<open>pqueue_print\<close> copies the array and pops the copy, whose nodes are those of the queue; the entries
  it prints are returned, and the store, where the pops write positions.  The loop ends because
  every round shrinks the copy.
\<close>

lemma percolate_down_loop_size:
  "percolate_down_loop q h i p = Some (q', h', j) \<Longrightarrow> pq_size q' = pq_size q"
proof (induction q h i p arbitrary: q' h' j rule: percolate_down_loop.induct)
  case (1 q h i p)
  from 1(2) show ?case
    by (subst (asm) percolate_down_loop.simps)
      (auto split: if_splits elim!: bind_SomeE, metis 1(1) d_set_size neq0_conv)
qed

lemma percolate_down_size: "percolate_down q h i = Some (q', h') \<Longrightarrow> pq_size q' = pq_size q"
  by (auto simp: percolate_down_def elim!: bind_SomeE dest!: percolate_down_loop_size d_set_size)

lemma pqueue_pop_size: "pqueue_pop q h = Some (q', h', Some a) \<Longrightarrow> pq_size q' < pq_size q"
  by (auto simp: pqueue_pop_def Let_def split: if_splits elim!: bind_SomeE dest!: percolate_down_size d_set_size)

function print_loop :: "pqueue_t \<Rightarrow> pq_store \<Rightarrow> (addr list \<times> pq_store) option" where
  "print_loop dup h = do {
     (dup, h, e) \<leftarrow> pqueue_pop dup h;
     case e of None \<Rightarrow> Some ([], h)
     | Some a \<Rightarrow> map_option (\<lambda>(out, h). (a # out, h)) (print_loop dup h) }"
  by pat_completeness auto
termination
  by (relation "measure (\<lambda>(q, h). pq_size q)") (auto dest: pqueue_pop_size)

declare print_loop.simps [simp del]

definition pqueue_print :: "pqueue_t \<Rightarrow> pq_store \<Rightarrow> (addr list \<times> pq_store) option" where
  "pqueue_print q h =
    (let dup = pqueue_init (pq_size q);
         dup = dup\<lparr>pq_size := pq_size q, pq_avail := pq_avail q, pq_step := pq_step q,
           pq_d := take (pq_size q) (pq_d q) @ drop (pq_size q) (pq_d dup)\<rparr>
     in print_loop dup h)"

text \<open>\<open>subtree_is_valid\<close> at the root 1; cell 0 is never written.\<close>

function subtree_is_valid :: "pqueue_t \<Rightarrow> pq_store \<Rightarrow> nat \<Rightarrow> bool option" where
  "subtree_is_valid q h p =
    (if p = 0 then None
     else do {
       l \<leftarrow> (if left_child p < pq_size q then do {
           a \<leftarrow> d_get q p; pa \<leftarrow> get_pri h a;
           b \<leftarrow> d_get q (left_child p); pb \<leftarrow> get_pri h b;
           if cmp_pri pa pb then Some False else subtree_is_valid q h (left_child p) }
         else Some True);
       if \<not> l then Some False
       else if right_child p < pq_size q then do {
           a \<leftarrow> d_get q p; pa \<leftarrow> get_pri h a;
           b \<leftarrow> d_get q (right_child p); pb \<leftarrow> get_pri h b;
           if cmp_pri pa pb then Some False else subtree_is_valid q h (right_child p) }
         else Some True })"
  by pat_completeness auto
termination
  by (relation "measure (\<lambda>(q, h, p). pq_size q - p)") (auto simp: left_child_def right_child_def)

declare subtree_is_valid.simps [simp del]

definition pqueue_is_valid :: "pqueue_t \<Rightarrow> pq_store \<Rightarrow> bool option" where
  "pqueue_is_valid q h = subtree_is_valid q h 1"

text \<open>Evaluation on a concrete queue.\<close>

lemma print_loop_step:
  "pqueue_pop q h = Some (q', h', NULL) \<Longrightarrow> print_loop q h = Some ([], h')"
  "pqueue_pop q h = Some (q', h', Some a) \<Longrightarrow>
    print_loop q h = map_option (\<lambda>(out, h). (a # out, h)) (print_loop q' h')"
  by (subst print_loop.simps, simp)+

lemmas pq_eval = pqueue_insert_def pqueue_init_def bubble_up_def bubble_up_loop.simps d_get_def d_set_def
  get_pri_def set_pos_def get_pos_def cmp_pri_def parent_def pqueue_pop_def percolate_down_def
  percolate_down_loop.simps maxchild_def left_child_def pqueue_remove_def pqueue_size_def pqueue_peek_def
  pqueue_print_def print_loop_step

section \<open>Heaps as functions\<close>

text \<open>
  A heap of \<open>n - 1\<close> values is a function on \<open>{1..<n}\<close>.  While a value moves up or down, the order
  holds but for one position, and the children of that position are below its parent.
\<close>

definition heap :: "nat \<Rightarrow> (nat \<Rightarrow> 'v :: linorder) \<Rightarrow> bool" where
  "heap n P \<longleftrightarrow> (\<forall>k \<in> {2..<n}. P k \<le> P (k div 2))"

definition bridged :: "nat \<Rightarrow> (nat \<Rightarrow> 'v :: linorder) \<Rightarrow> nat \<Rightarrow> bool" where
  "bridged n P i \<longleftrightarrow> (\<forall>k \<in> {2..<n}. k div 2 = i \<and> 2 \<le> i \<longrightarrow> P k \<le> P (i div 2))"

definition heap_up :: "nat \<Rightarrow> (nat \<Rightarrow> 'v :: linorder) \<Rightarrow> nat \<Rightarrow> bool" where
  "heap_up n P i \<longleftrightarrow> (\<forall>k \<in> {2..<n}. k \<noteq> i \<longrightarrow> P k \<le> P (k div 2)) \<and> bridged n P i"

definition heap_down :: "nat \<Rightarrow> (nat \<Rightarrow> 'v :: linorder) \<Rightarrow> nat \<Rightarrow> bool" where
  "heap_down n P i \<longleftrightarrow> (\<forall>k \<in> {2..<n}. k div 2 \<noteq> i \<longrightarrow> P k \<le> P (k div 2)) \<and> bridged n P i"

lemma heap_upD: "heap_up n P i \<Longrightarrow> k < n \<Longrightarrow> 2 \<le> k \<Longrightarrow> k \<noteq> i \<Longrightarrow> P k \<le> P (k div 2)"
  by (simp add: heap_up_def)

lemma heap_downD: "heap_down n P i \<Longrightarrow> k < n \<Longrightarrow> 2 \<le> k \<Longrightarrow> k div 2 \<noteq> i \<Longrightarrow> P k \<le> P (k div 2)"
  by (simp add: heap_down_def)

lemma bridgedD: "bridged n P (k div 2) \<Longrightarrow> k < n \<Longrightarrow> 4 \<le> k \<Longrightarrow> P k \<le> P (k div 2 div 2)"
  by (simp add: bridged_def)

lemma half_less: "2 \<le> k \<Longrightarrow> k div 2 < (k :: nat)" "2 \<le> k \<Longrightarrow> 1 \<le> (k :: nat) div 2"
  by auto

lemma heap_root: "heap n P \<Longrightarrow> 1 \<le> k \<Longrightarrow> k < n \<Longrightarrow> P k \<le> P 1"
proof (induction k rule: less_induct)
  case (less k)
  show ?case
  proof (cases "k = 1")
    case False
    then have "2 \<le> k" using less.prems by simp
    with less.IH [of "k div 2"] less.prems half_less [of k] have "P (k div 2) \<le> P 1" by auto
    moreover have "P k \<le> P (k div 2)" using less.prems \<open>2 \<le> k\<close> by (simp add: heap_def)
    ultimately show ?thesis by simp
  qed simp
qed

lemma heap_up_done: "heap_up n P i \<Longrightarrow> i \<le> 1 \<or> P i \<le> P (i div 2) \<Longrightarrow> heap n P"
  by (auto simp: heap_up_def heap_def)

lemma heap_down_done:
  "heap_down n P i \<Longrightarrow> (\<And>k. 2 \<le> k \<Longrightarrow> k < n \<Longrightarrow> k div 2 = i \<Longrightarrow> P k \<le> P i) \<Longrightarrow> heap n P"
  by (auto simp: heap_down_def heap_def)

lemma heap_up_step:
  assumes "heap_up n P i" and "2 \<le> i" and "i < n" and "P (i div 2) < P i"
  shows "heap_up n (P(i := P (i div 2), i div 2 := P i)) (i div 2)"
proof -
  let ?p = "i div 2" and ?P = "P(i := P (i div 2), i div 2 := P i)"
  have br: "bridged n P i" using assms(1) by (simp add: heap_up_def)
  have sib: "P k \<le> P ?p" if "2 \<le> k" "k < n" "k div 2 = ?p" "k \<noteq> i" for k
    using heap_upD [OF assms(1), of k] that by simp
  have "?P k \<le> ?P (k div 2)" if k: "2 \<le> k" "k < n" "k \<noteq> ?p" for k
  proof -
    consider "k = i" | "k \<noteq> i" "k div 2 = ?p" | "k div 2 = i" | "k \<noteq> i" "k div 2 \<noteq> ?p" "k div 2 \<noteq> i" by blast
    then show ?thesis
    proof cases
      case 1
      then show ?thesis using assms(4) by (simp add: less_imp_le)
    next
      case 2
      then show ?thesis using sib [OF k(1,2)] assms(4) k(3) by (simp add: order.strict_implies_order)
    next
      case 3
      then have "P k \<le> P (k div 2 div 2)" using bridgedD [of n P k] br k assms(2) by simp
      then show ?thesis using 3 k half_less [OF k(1)] half_less [OF assms(2)] by auto
    next
      case 4
      then show ?thesis using heap_upD [OF assms(1) k(2,1)] k(3) by simp
    qed
  qed
  moreover have "?P k \<le> ?P (?p div 2)" if k: "2 \<le> k" "k < n" "k div 2 = ?p" "2 \<le> ?p" for k
  proof -
    have "P ?p \<le> P (?p div 2)" using heap_upD [OF assms(1), of ?p] k(4) assms(3) by auto
    moreover have "?p div 2 < ?p" "?p < i" using half_less k(4) assms(2) by auto
    ultimately show ?thesis using sib [OF k(1-3)] k by (cases "k = i") auto
  qed
  ultimately show ?thesis by (auto simp: heap_up_def bridged_def)
qed

lemma heap_down_step:
  assumes "heap_down n P i" and "2 \<le> c" and "c < n" and "c div 2 = i" and "P i < P c"
    and "\<And>k. 2 \<le> k \<Longrightarrow> k < n \<Longrightarrow> k div 2 = i \<Longrightarrow> P k \<le> P c"
  shows "heap_down n (P(i := P c, c := P i)) c"
proof -
  let ?P = "P(i := P c, c := P i)"
  have ic: "i < c" "1 \<le> i" using assms(2,4) half_less [of c] by auto
  have "?P k \<le> ?P (k div 2)" if k: "2 \<le> k" "k < n" "k div 2 \<noteq> c" for k
  proof -
    consider "k = c" | "k \<noteq> c" "k div 2 = i" | "k = i" | "k \<noteq> c" "k \<noteq> i" "k div 2 \<noteq> i" by blast
    then show ?thesis
    proof cases
      case 1
      then show ?thesis using assms(4,5) ic by simp
    next
      case 2
      then show ?thesis using assms(6) [OF k(1,2)] ic half_less [OF k(1)] by auto
    next
      case 3
      have "P c \<le> P (i div 2)" using assms(1-4) k 3 by (auto simp: heap_down_def bridged_def)
      then show ?thesis using 3 k ic half_less [OF k(1)] by simp
    next
      case 4
      then show ?thesis using heap_downD [OF assms(1) k(2,1)] k(3) by simp
    qed
  qed
  moreover have "?P k \<le> ?P (c div 2)" if k: "2 \<le> k" "k < n" "k div 2 = c" for k
  proof -
    have "P k \<le> P c" using heap_downD [OF assms(1) k(2,1)] k(3) ic by simp
    then show ?thesis using k assms(2,4) ic half_less [OF k(1)] by auto
  qed
  ultimately show ?thesis by (auto simp: heap_down_def bridged_def)
qed

text \<open>Changing one value of a heap, and appending one.\<close>

lemma heap_update_bridged: "heap n P \<Longrightarrow> i < n \<Longrightarrow> bridged n (P(i := v)) i"
proof -
  assume h: "heap n P" and i: "i < n"
  have "P k \<le> P (i div 2)" if "2 \<le> k" "k < n" "k div 2 = i" "2 \<le> i" for k
    using h i that unfolding heap_def by (metis atLeastLessThan_iff order_trans)
  then show ?thesis using half_less by (fastforce simp: bridged_def)
qed

lemma heap_increase: "heap n P \<Longrightarrow> i < n \<Longrightarrow> P i < v \<Longrightarrow> heap_up n (P(i := v)) i"
  using heap_update_bridged [of n P i v] by (fastforce simp: heap_up_def heap_def)

lemma heap_decrease: "heap n P \<Longrightarrow> i < n \<Longrightarrow> v \<le> P i \<Longrightarrow> heap_down n (P(i := v)) i"
proof -
  assume h: "heap n P" and i: "i < n" and v: "v \<le> P i"
  have "(P(i := v)) k \<le> (P(i := v)) (k div 2)" if "2 \<le> k" "k < n" "k div 2 \<noteq> i" for k
  proof -
    have "P k \<le> P (k div 2)" using h that by (simp add: heap_def)
    then show ?thesis using that v by (auto intro: order_trans)
  qed
  then show ?thesis using heap_update_bridged [OF h i] by (simp add: heap_down_def)
qed

lemma heap_replace_root: "heap n P \<Longrightarrow> heap_down n (P(1 := v)) 1"
  by (auto simp: heap_down_def heap_def bridged_def)

lemma heap_append: "heap n P \<Longrightarrow> 1 \<le> n \<Longrightarrow> heap_up (Suc n) (P(n := v)) n"
  by (auto simp: heap_up_def heap_def bridged_def)

text \<open>Only the positions of the heap matter.\<close>

lemma heap_cong:
  assumes "heap n P" and eq: "\<And>k. 1 \<le> k \<Longrightarrow> k < n \<Longrightarrow> Q k = P k"
  shows "heap n Q"
  unfolding heap_def
proof
  fix k assume k: "k \<in> {2..<n}"
  then have "Q k = P k" "Q (k div 2) = P (k div 2)" by (auto intro!: eq)
  then show "Q k \<le> Q (k div 2)" using assms(1) k by (simp add: heap_def)
qed

lemma bridged_cong:
  assumes "bridged n P i" and "i < n" and eq: "\<And>k. 1 \<le> k \<Longrightarrow> k < n \<Longrightarrow> Q k = P k"
  shows "bridged n Q i"
  unfolding bridged_def
proof (intro ballI impI)
  fix k assume k: "k \<in> {2..<n}" "k div 2 = i \<and> 2 \<le> i"
  then have "Q k = P k" "Q (i div 2) = P (i div 2)" using assms(2) by (auto intro!: eq)
  then show "Q k \<le> Q (i div 2)" using assms(1) k by (simp add: bridged_def)
qed

lemma heap_up_cong:
  assumes "heap_up n P i" and "i < n" and eq: "\<And>k. 1 \<le> k \<Longrightarrow> k < n \<Longrightarrow> Q k = P k"
  shows "heap_up n Q i"
proof -
  have "Q k \<le> Q (k div 2)" if k: "k \<in> {2..<n}" "k \<noteq> i" for k
  proof -
    have "Q k = P k" "Q (k div 2) = P (k div 2)" using k by (auto intro!: eq)
    then show ?thesis using assms(1) k by (simp add: heap_up_def)
  qed
  then show ?thesis using assms(1) bridged_cong [OF _ assms(2) eq] by (auto simp: heap_up_def)
qed

lemma heap_down_cong:
  assumes "heap_down n P i" and "i < n" and eq: "\<And>k. 1 \<le> k \<Longrightarrow> k < n \<Longrightarrow> Q k = P k"
  shows "heap_down n Q i"
proof -
  have "Q k \<le> Q (k div 2)" if k: "k \<in> {2..<n}" "k div 2 \<noteq> i" for k
  proof -
    have "Q k = P k" "Q (k div 2) = P (k div 2)" using k by (auto intro!: eq)
    then show ?thesis using assms(1) k by (simp add: heap_down_def)
  qed
  then show ?thesis using assms(1) bridged_cong [OF _ assms(2) eq] by (auto simp: heap_down_def)
qed

lemma heap_prefix: "heap (Suc n) P \<Longrightarrow> heap n P"
  by (simp add: heap_def)

section \<open>The array and the nodes\<close>

definition node :: "(addr \<Rightarrow> double \<times> obj_id_t) \<Rightarrow> addr \<Rightarrow> nat \<Rightarrow> pq_node_t" where
  "node N a k = \<lparr>pri = fst (N a), pq_obj_id = snd (N a), pos = k\<rparr>"

lemma node_simps [simp]:
  "pri (node N a k) = fst (N a)" "pq_obj_id (node N a k) = snd (N a)" "pos (node N a k) = k"
  "(node N a k)\<lparr>pos := j\<rparr> = node N a j" "node N a k = node N a j \<longleftrightarrow> k = j"
  by (simp_all add: node_def)

text \<open>\<open>A\<close> gives the node at each position and \<open>N\<close> the priority and the id of each node.\<close>

definition pq_rep ::
    "pqueue_t \<Rightarrow> pq_store \<Rightarrow> (nat \<Rightarrow> addr) \<Rightarrow> (addr \<Rightarrow> double \<times> obj_id_t) \<Rightarrow> bool" where
  "pq_rep q h A N \<longleftrightarrow> 1 \<le> pq_size q \<and> pq_size q \<le> length (pq_d q)
     \<and> (\<forall>k \<in> {1..<pq_size q}. pq_d q ! k = Some (A k) \<and> h (A k) = Some (node N (A k) k))"

abbreviation pris :: "(nat \<Rightarrow> addr) \<Rightarrow> (addr \<Rightarrow> double \<times> obj_id_t) \<Rightarrow> nat \<Rightarrow> double" where
  "pris A N \<equiv> \<lambda>k. fst (N (A k))"

text \<open>The same while the node \<open>m\<close>, which belongs to position \<open>i\<close>, is in no cell.\<close>

definition pq_hole ::
    "pqueue_t \<Rightarrow> pq_store \<Rightarrow> nat \<Rightarrow> addr \<Rightarrow> (nat \<Rightarrow> addr) \<Rightarrow> (addr \<Rightarrow> double \<times> obj_id_t) \<Rightarrow> bool" where
  "pq_hole q h i m A N \<longleftrightarrow> 1 \<le> i \<and> i < pq_size q \<and> pq_size q \<le> length (pq_d q) \<and> A i = m
     \<and> (\<forall>k \<in> {1..<pq_size q} - {i}. pq_d q ! k = Some (A k) \<and> h (A k) = Some (node N (A k) k) \<and> A k \<noteq> m)
     \<and> (\<exists>p. h m = Some (node N m p))"

definition cells :: "pqueue_t \<Rightarrow> (nat \<Rightarrow> addr) \<Rightarrow> addr set" where
  "cells q A = A ` {1..<pq_size q}"

definition pq_frame :: "addr set \<Rightarrow> pq_store \<Rightarrow> pq_store \<Rightarrow> bool" where
  "pq_frame S h h' \<longleftrightarrow> (\<forall>x. x \<notin> S \<longrightarrow> h' x = h x)"

lemma pq_rep_cell:
  "pq_rep q h A N \<Longrightarrow> 1 \<le> k \<Longrightarrow> k < pq_size q \<Longrightarrow> d_get q k = Some (A k) \<and> h (A k) = Some (node N (A k) k)"
  by (auto simp: pq_rep_def d_get_def)

lemma pq_rep_inj:
  assumes "pq_rep q h A N" and "1 \<le> j" "j < pq_size q" "1 \<le> k" "k < pq_size q" and "A j = A k"
  shows "j = k"
  using pq_rep_cell [OF assms(1-3)] pq_rep_cell [OF assms(1,4,5)] unfolding assms(6) by simp

lemma pq_hole_cell:
  "pq_hole q h i m A N \<Longrightarrow> 1 \<le> k \<Longrightarrow> k < pq_size q \<Longrightarrow> k \<noteq> i \<Longrightarrow>
   d_get q k = Some (A k) \<and> h (A k) = Some (node N (A k) k) \<and> A k \<noteq> m"
  by (auto simp: pq_hole_def d_get_def)

lemma pq_hole_inj:
  assumes "pq_hole q h i m A N" and "1 \<le> j" "j < pq_size q" "1 \<le> k" "k < pq_size q" and "A j = A k"
  shows "j = k"
proof -
  have m: "A i = m" using assms(1) by (simp add: pq_hole_def)
  have j: "j \<noteq> i \<Longrightarrow> h (A j) = Some (node N (A j) j) \<and> A j \<noteq> m" using pq_hole_cell [OF assms(1-3)] by simp
  have k: "k \<noteq> i \<Longrightarrow> h (A k) = Some (node N (A k) k) \<and> A k \<noteq> m" using pq_hole_cell [OF assms(1,4,5)] by simp
  from m j k assms(6) show ?thesis by (metis node_simps(3) option.inject)
qed

lemma pq_rep_hole: "pq_rep q h A N \<Longrightarrow> 1 \<le> i \<Longrightarrow> i < pq_size q \<Longrightarrow> pq_hole q h i (A i) A N"
  using pq_rep_inj [of q h A N _ i] by (auto simp: pq_rep_def pq_hole_def)

text \<open>Moving the node at \<open>k\<close> into the hole, and filling the hole.\<close>

lemma pq_hole_move:
  assumes "pq_hole q h i m A N" and "1 \<le> k" and "k < pq_size q" and "k \<noteq> i"
  shows "\<exists>q' h'. d_set q i (A k) = Some q' \<and> set_pos h (A k) i = Some h'
    \<and> pq_hole q' h' k m (A(i := A k, k := m)) N \<and> pq_size q' = pq_size q
    \<and> length (pq_d q') = length (pq_d q) \<and> pq_avail q' = pq_avail q
    \<and> cells q' (A(i := A k, k := m)) = cells q A \<and> pq_frame (cells q A) h h'"
proof -
  note c = pq_hole_cell [OF assms]
  have i: "1 \<le> i" "i < pq_size q" "pq_size q \<le> length (pq_d q)" "A i = m"
    using assms(1) by (auto simp: pq_hole_def)
  let ?q = "q\<lparr>pq_d := (pq_d q)[i := Some (A k)]\<rparr>" and ?h = "h(A k \<mapsto> node N (A k) i)"
    and ?A = "A(i := A k, k := m)"
  have "?A j \<noteq> m \<and> pq_d ?q ! j = Some (?A j) \<and> ?h (?A j) = Some (node N (?A j) j)"
    if "1 \<le> j" "j < pq_size q" "j \<noteq> k" for j
    using that c i assms(2-4) pq_hole_cell [OF assms(1) that(1,2)] pq_hole_inj [OF assms(1) that(1,2) assms(2,3)]
    by (cases "j = i") (auto simp: d_get_def split: if_splits)
  moreover have "\<exists>p. ?h m = Some (node N m p)" using assms(1) c by (auto simp: pq_hole_def)
  ultimately have "pq_hole ?q ?h k m ?A N" using assms(2,3) i(3) by (simp add: pq_hole_def)
  moreover have "cells ?q ?A = cells q A"
    using i assms(2-4) by (auto simp: cells_def image_iff)
  moreover have "pq_frame (cells q A) h ?h" using assms(2,3) by (auto simp: pq_frame_def cells_def)
  ultimately show ?thesis using i c by (simp add: d_set_def set_pos_def)
qed

lemma pq_hole_fill:
  assumes "pq_hole q h i m A N"
  shows "\<exists>q' h'. d_set q i m = Some q' \<and> set_pos h m i = Some h' \<and> pq_rep q' h' A N
    \<and> pq_size q' = pq_size q \<and> length (pq_d q') = length (pq_d q) \<and> pq_avail q' = pq_avail q
    \<and> cells q' A = cells q A \<and> pq_frame (cells q A) h h'"
proof -
  obtain p where p: "h m = Some (node N m p)" using assms by (auto simp: pq_hole_def)
  let ?q = "q\<lparr>pq_d := (pq_d q)[i := Some m]\<rparr>" and ?h = "h(m \<mapsto> node N m i)"
  have "pq_rep ?q ?h A N"
    using assms by (auto simp: pq_hole_def pq_rep_def nth_list_update)
  moreover have "pq_frame (cells q A) h ?h" using assms by (auto simp: pq_frame_def cells_def pq_hole_def)
  ultimately show ?thesis using p assms
    by (simp add: d_set_def set_pos_def pq_hole_def cells_def)
qed

lemma pq_frame_trans: "pq_frame S h h' \<Longrightarrow> pq_frame S h' h'' \<Longrightarrow> pq_frame S h h''"
  by (simp add: pq_frame_def)

lemma pq_frame_mono: "pq_frame S h h' \<Longrightarrow> S \<subseteq> T \<Longrightarrow> pq_frame T h h'"
  by (auto simp: pq_frame_def)

lemma pq_frame_refl [simp]: "pq_frame S h h"
  by (simp add: pq_frame_def)

lemma pris_move: "A i = m \<Longrightarrow> pris (A(i := A k, k := m)) N = (pris A N)(i := pris A N k, k := pris A N i)"
  by (rule ext) simp

text \<open>What a loop yields: a hole at \<open>j\<close> whose filling is a heap of the same nodes.\<close>

definition settles ::
    "pqueue_t \<Rightarrow> pq_store \<Rightarrow> addr \<Rightarrow> (nat \<Rightarrow> addr) \<Rightarrow> (addr \<Rightarrow> double \<times> obj_id_t) \<Rightarrow>
     (pqueue_t \<times> pq_store \<times> nat) option \<Rightarrow> bool" where
  "settles q h m A N r \<longleftrightarrow> (\<exists>q' h' j A'. r = Some (q', h', j) \<and> pq_hole q' h' j m A' N
     \<and> heap (pq_size q') (pris A' N) \<and> pq_size q' = pq_size q \<and> length (pq_d q') = length (pq_d q)
     \<and> pq_avail q' = pq_avail q \<and> cells q' A' = cells q A \<and> pq_frame (cells q A) h h')"

lemma settles_here: "pq_hole q h i m A N \<Longrightarrow> heap (pq_size q) (pris A N) \<Longrightarrow> settles q h m A N (Some (q, h, i))"
  by (auto simp: settles_def)

lemma settles_after_move:
  assumes "settles q' h' m A' N r" and "pq_size q' = pq_size q" and "length (pq_d q') = length (pq_d q)"
    and "pq_avail q' = pq_avail q" and "cells q' A' = cells q A" and "pq_frame (cells q A) h h'"
  shows "settles q h m A N r"
proof -
  from assms(1) obtain q2 h2 j A2 where r: "r = Some (q2, h2, j)" "pq_hole q2 h2 j m A2 N"
    "heap (pq_size q2) (pris A2 N)" "pq_size q2 = pq_size q'" "length (pq_d q2) = length (pq_d q')"
    "pq_avail q2 = pq_avail q'" "cells q2 A2 = cells q' A'" "pq_frame (cells q' A') h' h2"
    unfolding settles_def by blast
  then have "pq_frame (cells q A) h h2" using assms(5,6) by (simp add: pq_frame_trans)
  then show ?thesis unfolding settles_def using r assms(2-5)
    by (intro exI [of _ q2] exI [of _ h2] exI [of _ j] exI [of _ A2]) simp
qed

lemma bubble_up_loop_settles:
  "pq_hole q h i m A N \<Longrightarrow> heap_up (pq_size q) (pris A N) i \<Longrightarrow> mp = fst (N m) \<Longrightarrow>
   settles q h m A N (bubble_up_loop q h i mp)"
proof (induction i arbitrary: q h A rule: less_induct)
  case (less i)
  have i: "1 \<le> i" "i < pq_size q" "A i = m" using less.prems(1) by (auto simp: pq_hole_def)
  show ?case
  proof (cases "1 < i")
    case False
    then show ?thesis using less.prems settles_here heap_up_done [OF less.prems(2)]
      by (subst bubble_up_loop.simps) auto
  next
    case True
    then have p: "1 \<le> i div 2" "i div 2 < i" "i div 2 < pq_size q" using i by auto
    note c = pq_hole_cell [OF less.prems(1) p(1,3)]
    show ?thesis
    proof (cases "pris A N (i div 2) < fst (N m)")
      case False
      then show ?thesis
        using True c p less.prems settles_here heap_up_done [OF less.prems(2)] i(3)
        by (subst bubble_up_loop.simps) (auto simp: parent_def get_pri_def cmp_pri_def not_less)
    next
      case lt: True
      from pq_hole_move [OF less.prems(1) p(1,3)] p(2) obtain q' h' where
        m: "d_set q i (A (i div 2)) = Some q'" "set_pos h (A (i div 2)) i = Some h'"
        "pq_hole q' h' (i div 2) m (A(i := A (i div 2), i div 2 := m)) N" "pq_size q' = pq_size q"
        "length (pq_d q') = length (pq_d q)" "pq_avail q' = pq_avail q"
        "cells q' (A(i := A (i div 2), i div 2 := m)) = cells q A" "pq_frame (cells q A) h h'" by auto
      have "heap_up (pq_size q') (pris (A(i := A (i div 2), i div 2 := m)) N) (i div 2)"
        unfolding pris_move [where A = A and i = i, OF i(3)] m(4) using True i lt
        by (intro heap_up_step [OF less.prems(2)]) auto
      from settles_after_move [OF less.IH [OF p(2) m(3) this less.prems(3)] m(4-8)]
      have "settles q h m A N (bubble_up_loop q' h' (i div 2) mp)" .
      then show ?thesis using True c p(2) lt m(1,2) less.prems(3)
        by (subst bubble_up_loop.simps) (simp add: parent_def get_pri_def cmp_pri_def)
    qed
  qed
qed

lemma maxchild_correct:
  assumes "pq_hole q h i m A N"
  shows "\<exists>c. maxchild q h i = Some c \<and> (c = 0 \<longrightarrow> pq_size q \<le> 2 * i)
    \<and> (c \<noteq> 0 \<longrightarrow> c div 2 = i \<and> 2 \<le> c \<and> c < pq_size q
        \<and> (\<forall>k. 2 \<le> k \<longrightarrow> k < pq_size q \<longrightarrow> k div 2 = i \<longrightarrow> pris A N k \<le> pris A N c))"
proof -
  have i: "1 \<le> i" "i < pq_size q" using assms by (auto simp: pq_hole_def)
  have kids: "k = 2 * i \<or> k = 2 * i + 1" if "k div 2 = i" for k using that by auto
  consider "2 * i \<ge> pq_size q" | "2 * i < pq_size q" "\<not> 2 * i + 1 < pq_size q" | "2 * i + 1 < pq_size q"
    by linarith
  then show ?thesis
  proof cases
    case 2
    have "maxchild q h i = Some (2 * i)" using 2 by (simp add: maxchild_def left_child_def mult.commute)
    moreover have "pris A N k \<le> pris A N (2 * i)" if "k < pq_size q" "k div 2 = i" for k
      using kids [OF that(2)] 2(2) that(1) by auto
    ultimately show ?thesis using 2(1) i by auto
  next
    case 3
    note l = pq_hole_cell [OF assms, of "2 * i"] and r = pq_hole_cell [OF assms, of "2 * i + 1"]
    show ?thesis
    proof (cases "pris A N (2 * i) < pris A N (2 * i + 1)")
      case True
      then have "maxchild q h i = Some (2 * i + 1)"
        using 3 l r i by (simp add: maxchild_def left_child_def get_pri_def cmp_pri_def mult.commute)
      moreover have "pris A N k \<le> pris A N (2 * i + 1)" if "k div 2 = i" for k
        using kids [OF that] True by auto
      ultimately show ?thesis using 3 i by auto
    next
      case False
      then have "maxchild q h i = Some (2 * i)"
        using 3 l r i by (simp add: maxchild_def left_child_def get_pri_def cmp_pri_def mult.commute)
      moreover have "pris A N k \<le> pris A N (2 * i)" if "k div 2 = i" for k
        using kids [OF that] False by auto
      ultimately show ?thesis using 3 i by auto
    qed
  qed (simp add: maxchild_def left_child_def mult.commute)
qed

lemma percolate_down_loop_settles:
  "pq_hole q h i m A N \<Longrightarrow> heap_down (pq_size q) (pris A N) i \<Longrightarrow> mp = fst (N m) \<Longrightarrow>
   settles q h m A N (percolate_down_loop q h i mp)"
proof (induction "pq_size q - i" arbitrary: q h i A rule: less_induct)
  case less
  have i: "1 \<le> i" "i < pq_size q" "A i = m" using less.prems(1) by (auto simp: pq_hole_def)
  from maxchild_correct [OF less.prems(1)] obtain c where
    mc: "maxchild q h i = Some c" "c = 0 \<longrightarrow> pq_size q \<le> 2 * i"
    "c \<noteq> 0 \<longrightarrow> c div 2 = i \<and> 2 \<le> c \<and> c < pq_size q
      \<and> (\<forall>k. 2 \<le> k \<longrightarrow> k < pq_size q \<longrightarrow> k div 2 = i \<longrightarrow> pris A N k \<le> pris A N c)" by blast
  show ?case
  proof (cases "c = 0")
    case True
    then have "heap (pq_size q) (pris A N)" using mc(2) by (intro heap_down_done [OF less.prems(2)]) auto
    then show ?thesis using mc(1) True settles_here [OF less.prems(1)] by (subst percolate_down_loop.simps) simp
  next
    case False
    with mc(3) have c: "c div 2 = i" "2 \<le> c" "1 \<le> c" "c < pq_size q" "c \<noteq> i"
      "\<And>k. 2 \<le> k \<Longrightarrow> k < pq_size q \<Longrightarrow> k div 2 = i \<Longrightarrow> pris A N k \<le> pris A N c" by auto
    note cc = pq_hole_cell [OF less.prems(1) c(3-5)]
    show ?thesis
    proof (cases "fst (N m) < pris A N c")
      case False
      then have "heap (pq_size q) (pris A N)"
        using c(6) i(3) by (intro heap_down_done [OF less.prems(2)]) (auto simp: not_less intro: order_trans)
      then show ?thesis using mc(1) \<open>c \<noteq> 0\<close> False cc less.prems(3) settles_here [OF less.prems(1)]
        by (subst percolate_down_loop.simps) (simp add: get_pri_def cmp_pri_def)
    next
      case lt: True
      from pq_hole_move [OF less.prems(1) c(3-5)] obtain q' h' where
        m: "d_set q i (A c) = Some q'" "set_pos h (A c) i = Some h'"
        "pq_hole q' h' c m (A(i := A c, c := m)) N" "pq_size q' = pq_size q"
        "length (pq_d q') = length (pq_d q)" "pq_avail q' = pq_avail q"
        "cells q' (A(i := A c, c := m)) = cells q A" "pq_frame (cells q A) h h'" by auto
      have down: "heap_down (pq_size q') (pris (A(i := A c, c := m)) N) c"
        unfolding pris_move [where A = A and i = i, OF i(3)] m(4) using lt i(3) c
        by (intro heap_down_step [OF less.prems(2)]) auto
      have "pq_size q' - c < pq_size q - i" using c m(4) by auto
      from settles_after_move [OF less.hyps [OF this m(3) down less.prems(3)] m(4-8)]
      have "settles q h m A N (percolate_down_loop q' h' c mp)" .
      then show ?thesis using mc(1) \<open>c \<noteq> 0\<close> cc lt m(1,2) less.prems(3)
        by (subst percolate_down_loop.simps) (simp add: get_pri_def cmp_pri_def)
    qed
  qed
qed

text \<open>A heap of the nodes of \<open>A\<close>: what both sifts yield.\<close>

definition sifted ::
    "pqueue_t \<Rightarrow> pq_store \<Rightarrow> (nat \<Rightarrow> addr) \<Rightarrow> (addr \<Rightarrow> double \<times> obj_id_t) \<Rightarrow>
     (pqueue_t \<times> pq_store) option \<Rightarrow> bool" where
  "sifted q h A N r \<longleftrightarrow> (\<exists>q' h' A'. r = Some (q', h') \<and> pq_rep q' h' A' N
     \<and> heap (pq_size q') (pris A' N) \<and> pq_size q' = pq_size q \<and> length (pq_d q') = length (pq_d q)
     \<and> pq_avail q' = pq_avail q \<and> cells q' A' = cells q A \<and> pq_frame (cells q A) h h')"

lemma settles_sifted:
  assumes "settles q h m A N r"
  shows "sifted q h A N (do { (q, h, i) \<leftarrow> r; q \<leftarrow> d_set q i m; h \<leftarrow> set_pos h m i; Some (q, h) })"
proof -
  from assms obtain q' h' j A' where r: "r = Some (q', h', j)" "pq_hole q' h' j m A' N"
    "heap (pq_size q') (pris A' N)" "pq_size q' = pq_size q" "length (pq_d q') = length (pq_d q)"
    "pq_avail q' = pq_avail q" "cells q' A' = cells q A" "pq_frame (cells q A) h h'"
    unfolding settles_def by blast
  from pq_hole_fill [OF r(2)] obtain q2 h2 where
    f: "d_set q' j m = Some q2" "set_pos h' m j = Some h2" "pq_rep q2 h2 A' N" "pq_size q2 = pq_size q'"
    "length (pq_d q2) = length (pq_d q')" "pq_avail q2 = pq_avail q'" "cells q2 A' = cells q' A'"
    "pq_frame (cells q' A') h' h2" by blast
  have "pq_frame (cells q A) h h2" using r(7,8) f(8) by (simp add: pq_frame_trans)
  then show ?thesis unfolding sifted_def using r f
    by (intro exI [of _ q2] exI [of _ h2] exI [of _ A']) simp
qed

lemma bubble_up_sifted:
  assumes "pq_hole q h i m A N" and "d_get q i = Some m" and "heap_up (pq_size q) (pris A N) i"
  shows "sifted q h A N (bubble_up q h i)"
proof -
  have "get_pri h m = Some (fst (N m))" using assms(1) by (auto simp: pq_hole_def get_pri_def)
  then show ?thesis
    using settles_sifted [OF bubble_up_loop_settles [OF assms(1,3) refl]] assms(2)
    by (simp add: bubble_up_def)
qed

lemma percolate_down_sifted:
  assumes "pq_hole q h i m A N" and "d_get q i = Some m" and "heap_down (pq_size q) (pris A N) i"
  shows "sifted q h A N (percolate_down q h i)"
proof -
  have "get_pri h m = Some (fst (N m))" using assms(1) by (auto simp: pq_hole_def get_pri_def)
  then show ?thesis
    using settles_sifted [OF percolate_down_loop_settles [OF assms(1,3) refl]] assms(2)
    by (simp add: percolate_down_def)
qed

text \<open>Behind the last node, as when the last node is removed, nothing moves.\<close>

lemma percolate_down_outside:
  assumes "pq_size q \<le> i" and "1 \<le> i" and "d_get q i = Some m" and "h m = Some n"
  shows "percolate_down q h i = Some (q, h(m \<mapsto> n\<lparr>pos := i\<rparr>))"
proof -
  have "(pq_d q)[i := Some m] = pq_d q" using assms(3) by (metis d_get_def list_update_id option.distinct(1))
  moreover have "i < length (pq_d q)" using assms(3) by (auto simp: d_get_def split: if_splits)
  moreover have "percolate_down_loop q h i p = Some (q, h, i)" for p
    using assms(1,2) by (subst percolate_down_loop.simps) (simp add: maxchild_def left_child_def)
  ultimately show ?thesis using assms(3,4)
    by (simp add: percolate_down_def get_pri_def d_set_def set_pos_def)
qed

section \<open>The abstraction\<close>

definition content ::
    "pqueue_t \<Rightarrow> (nat \<Rightarrow> addr) \<Rightarrow> (addr \<Rightarrow> double \<times> obj_id_t) \<Rightarrow> addr \<rightharpoonup> double \<times> obj_id_t" where
  "content q A N = (\<lambda>a. if a \<in> cells q A then Some (N a) else None)"

definition pq_at :: "pqueue_t \<Rightarrow> pq_store \<Rightarrow> (addr \<rightharpoonup> double \<times> obj_id_t) \<Rightarrow> bool" where
  "pq_at q h C \<longleftrightarrow> (\<exists>A N. pq_rep q h A N \<and> heap (pq_size q) (pris A N) \<and> C = content q A N)"

definition pq_R :: "pqueue_t \<Rightarrow> pq_store \<Rightarrow> (addr \<rightharpoonup> double \<times> obj_id_t) \<Rightarrow> bool" where
  "pq_R q h C \<longleftrightarrow> pq_at q h C \<and> length (pq_d q) = pq_avail q"

lemma dom_content [simp]: "dom (content q A N) = cells q A"
  by (auto simp: content_def dom_def)

lemma pq_atE:
  assumes "pq_at q h C"
  obtains A N where "pq_rep q h A N" "heap (pq_size q) (pris A N)" "C = content q A N"
  using assms by (auto simp: pq_at_def)

lemma content_cell:
  assumes "content q A N a = Some v"
  obtains k where "1 \<le> k" "k < pq_size q" "a = A k" "v = N (A k)"
  using assms by (auto simp: content_def cells_def split: if_splits)

text \<open>Every node of the queue is live, and the size counts them.\<close>

lemma pq_at_node: "pq_at q h C \<Longrightarrow> C a = Some (p, i) \<Longrightarrow> \<exists>n. h a = Some n \<and> pri n = p \<and> pq_obj_id n = i"
  by (elim pq_atE, hypsubst, elim content_cell) (metis fst_conv node_simps(1,2) pq_rep_cell snd_conv)

lemma pq_at_size:
  assumes "pq_at q h C"
  shows "pq_size q = Suc (card (dom C))" "finite (dom C)"
proof -
  from assms obtain A N where r: "pq_rep q h A N" "C = content q A N" by (auto elim: pq_atE)
  have "inj_on A {1..<pq_size q}" using pq_rep_inj [OF r(1)] by (auto intro: inj_onI)
  then show "pq_size q = Suc (card (dom C))" "finite (dom C)"
    using r by (auto simp: cells_def card_image pq_rep_def)
qed

lemma sifted_at:
  assumes "sifted q h A N r"
  shows "\<exists>q' h'. r = Some (q', h') \<and> pq_at q' h' (content q A N) \<and> pq_frame (cells q A) h h'
    \<and> length (pq_d q') = length (pq_d q) \<and> pq_avail q' = pq_avail q"
proof -
  from assms obtain q' h' A' where r: "r = Some (q', h')" "pq_rep q' h' A' N"
    "heap (pq_size q') (pris A' N)" "length (pq_d q') = length (pq_d q)"
    "pq_avail q' = pq_avail q" "cells q' A' = cells q A" "pq_frame (cells q A) h h'"
    unfolding sifted_def by blast
  have "content q A N = content q' A' N" using r(6) by (simp add: content_def)
  then have "pq_at q' h' (content q A N)" unfolding pq_at_def using r(2,3) by blast
  with r show ?thesis by blast
qed

lemma pqueue_init_R: "pq_R (pqueue_init n) h Map.empty"
  by (auto simp: pq_R_def pq_at_def pq_rep_def pqueue_init_def heap_def content_def cells_def)

subsection \<open>Insertion\<close>

lemma pq_rep_grow:
  assumes "pq_rep q h A N" and "length (pq_d q) = pq_avail q"
  shows "\<exists>q1. (if pq_size q \<ge> pq_avail q
      then q\<lparr>pq_d := pq_d q @ replicate (pq_avail q * 2 - pq_avail q) None, pq_avail := pq_avail q * 2\<rparr> else q) = q1
    \<and> pq_rep q1 h A N \<and> length (pq_d q1) = pq_avail q1 \<and> pq_size q1 < length (pq_d q1) \<and> pq_size q1 = pq_size q"
  using assms by (auto simp: pq_rep_def nth_append)

lemma pqueue_insert_correct:
  assumes "pq_R q h C" and "C a = None" and "h a = Some n"
  shows "\<exists>q' h'. pqueue_insert q h a = Some (q', h') \<and> pq_R q' h' (C(a \<mapsto> (pri n, pq_obj_id n)))
    \<and> pq_frame (insert a (dom C)) h h'"
proof -
  from assms(1) obtain A N where r: "pq_rep q h A N" "heap (pq_size q) (pris A N)" "C = content q A N"
    and len: "length (pq_d q) = pq_avail q" by (auto simp: pq_R_def elim: pq_atE)
  from pq_rep_grow [OF r(1) len] obtain q1 where
    q1: "(if pq_size q \<ge> pq_avail q
      then q\<lparr>pq_d := pq_d q @ replicate (pq_avail q * 2 - pq_avail q) None, pq_avail := pq_avail q * 2\<rparr> else q) = q1"
    "pq_rep q1 h A N" "length (pq_d q1) = pq_avail q1" "pq_size q1 < length (pq_d q1)" "pq_size q1 = pq_size q"
    by blast
  let ?i = "pq_size q" and ?A = "A(pq_size q := a)" and ?N = "N(a := (pri n, pq_obj_id n))"
  let ?q = "q1\<lparr>pq_size := ?i + 1, pq_d := (pq_d q1)[?i := Some a]\<rparr>"
  have fresh: "A k \<noteq> a" if "1 \<le> k" "k < ?i" for k
    using assms(2) r(3) that by (auto simp: content_def cells_def split: if_splits)
  have s1: "1 \<le> ?i" using r(1) by (simp add: pq_rep_def)
  have "pq_hole ?q h ?i a ?A ?N"
  proof -
    have "pq_d ?q ! k = Some (?A k) \<and> h (?A k) = Some (node ?N (?A k) k) \<and> ?A k \<noteq> a"
      if "1 \<le> k" "k < ?i" for k
      using pq_rep_cell [OF q1(2) that(1)] q1(4,5) that fresh [OF that]
      by (auto simp: d_get_def node_def split: if_splits)
    moreover have "h a = Some (node ?N a (pos n))" using assms(3) by (simp add: node_def)
    ultimately show ?thesis using s1 q1(4,5) by (auto simp: pq_hole_def)
  qed
  moreover have "d_get ?q ?i = Some a" using q1(4,5) by (simp add: d_get_def)
  moreover have "heap_up (pq_size ?q) (pris ?A ?N) ?i"
  proof -
    have "heap ?i (pris A ?N)" by (rule heap_cong [OF r(2)]) (simp add: fresh)
    moreover have "pris ?A ?N = (pris A ?N)(?i := pri n)" by (rule ext) simp
    ultimately show ?thesis using heap_append [OF _ s1, of "pris A ?N" "pri n"] by simp
  qed
  ultimately have "sifted ?q h ?A ?N (bubble_up ?q h ?i)" by (rule bubble_up_sifted)
  from sifted_at [OF this] obtain q' h' where
    b: "bubble_up ?q h ?i = Some (q', h')" "pq_at q' h' (content ?q ?A ?N)" "pq_frame (cells ?q ?A) h h'"
    "length (pq_d q') = length (pq_d ?q)" "pq_avail q' = pq_avail ?q" by blast
  have cells: "cells ?q ?A = insert a (cells q A)"
  proof -
    have "{1..<Suc ?i} = insert ?i {1..<?i}" using s1 by auto
    moreover have "?A ` {1..<?i} = A ` {1..<?i}" by (rule image_cong) auto
    ultimately show ?thesis by (simp add: cells_def del: fun_upd_apply) simp
  qed
  have "content ?q ?A ?N = C(a \<mapsto> (pri n, pq_obj_id n))"
    unfolding content_def r(3) cells by auto
  moreover have "pqueue_insert q h a = Some (q', h')"
    using b(1) q1 by (simp add: pqueue_insert_def d_set_def Let_def)
  ultimately show ?thesis using b q1(3) r(3) cells by (auto simp: pq_R_def)
qed

subsection \<open>Changing a priority\<close>

lemma pqueue_change_priority_correct:
  assumes "pq_R q h C" and "C a = Some (p, i)"
  shows "\<exists>q' h'. pqueue_change_priority q h p' a = Some (q', h') \<and> pq_R q' h' (C(a \<mapsto> (p', i)))
    \<and> pq_frame (dom C) h h'"
proof -
  from assms(1) obtain A N where r: "pq_rep q h A N" "heap (pq_size q) (pris A N)" "C = content q A N"
    and len: "length (pq_d q) = pq_avail q" by (auto simp: pq_R_def elim: pq_atE)
  from assms(2) r(3) obtain k where k: "1 \<le> k" "k < pq_size q" "a = A k" "N a = (p, i)"
    by (metis content_cell)
  note c = pq_rep_cell [OF r(1) k(1,2)]
  let ?N = "N(a := (p', i))" and ?h = "h(a \<mapsto> (node N a k)\<lparr>pri := p'\<rparr>)"
  have inj: "A j \<noteq> a" if "1 \<le> j" "j < pq_size q" "j \<noteq> k" for j
    using pq_rep_inj [OF r(1) that(1,2) k(1,2)] that(3) k(3) by auto
  have "pq_hole q ?h k a A ?N"
  proof -
    have "pq_d q ! j = Some (A j) \<and> ?h (A j) = Some (node ?N (A j) j) \<and> A j \<noteq> a"
      if "1 \<le> j" "j < pq_size q" "j \<noteq> k" for j
      using inj [OF that] r(1) that by (auto simp: pq_rep_def node_def)
    moreover have "\<exists>p. ?h a = Some (node ?N a p)" using k(4) by (simp add: node_def)
    ultimately show ?thesis using k(1-3) r(1) by (simp add: pq_hole_def pq_rep_def del: fun_upd_apply)
  qed
  note hole = this
  have eq: "pris A ?N j = ((pris A N)(k := p')) j" if "1 \<le> j" "j < pq_size q" for j
    using inj [OF that] k(3) by auto
  have get: "d_get q k = Some a" using c k(3) by simp
  have "sifted q ?h A ?N (if p < p' then bubble_up q ?h k else percolate_down q ?h k)"
  proof (cases "p < p'")
    case True
    have "heap_up (pq_size q) (pris A ?N) k"
      by (rule heap_up_cong [OF heap_increase [OF r(2) k(2)] k(2) eq]) (use True k in auto)
    from bubble_up_sifted [OF hole get this] show ?thesis using True by (simp only: if_True)
  next
    case False
    have "heap_down (pq_size q) (pris A ?N) k"
      by (rule heap_down_cong [OF heap_decrease [OF r(2) k(2)] k(2) eq]) (use False k in auto)
    from percolate_down_sifted [OF hole get this] show ?thesis using False by (simp only: if_False)
  qed
  from sifted_at [OF this] obtain q' h' where
    b: "(if p < p' then bubble_up q ?h k else percolate_down q ?h k) = Some (q', h')"
    "pq_at q' h' (content q A ?N)" "pq_frame (cells q A) ?h h'"
    "length (pq_d q') = length (pq_d q)" "pq_avail q' = pq_avail q" by blast
  have mem: "a \<in> cells q A" using k by (simp add: cells_def)
  have "content q A ?N = C(a \<mapsto> (p', i))" using mem by (auto simp: content_def r(3))
  moreover have "pqueue_change_priority q h p' a = Some (q', h')"
    using b(1) c k(4) unfolding k(3)
    by (simp add: pqueue_change_priority_def get_pri_def set_pri_def get_pos_def cmp_pri_def)
  moreover have "pq_frame (cells q A) h h'" using b(3) mem by (auto simp: pq_frame_def)
  ultimately show ?thesis using b len r(3) by (auto simp: pq_R_def)
qed

subsection \<open>Removal\<close>

text \<open>The last node takes the place of the node at position \<open>k\<close>.\<close>

lemma pq_take_last:
  assumes "pq_rep q h A N" and "1 \<le> k" and "k < l" and "pq_size q = Suc l"
  shows "pq_hole (q\<lparr>pq_size := l, pq_d := (pq_d q)[k := Some (A l)]\<rparr>) h k (A l) (A(k := A l)) N"
proof -
  have "pq_d q ! j = Some (A j) \<and> h (A j) = Some (node N (A j) j) \<and> A j \<noteq> A l"
    if "1 \<le> j" "j < l" for j
    using pq_rep_inj [OF assms(1), of j l] assms(1,4) that by (auto simp: pq_rep_def)
  moreover have "h (A l) = Some (node N (A l) l)" using pq_rep_cell [OF assms(1), of l] assms by simp
  ultimately show ?thesis using assms by (auto simp: pq_hole_def pq_rep_def)
qed

lemma cells_take_last:
  assumes "pq_rep q h A N" and "1 \<le> k" and "k < l" and "pq_size q = Suc l"
  shows "cells (q\<lparr>pq_size := l, pq_d := d\<rparr>) (A(k := A l)) = cells q A - {A k}"
proof -
  have "inj_on A {1..<Suc l}" using pq_rep_inj [OF assms(1)] assms(4) by (auto intro: inj_onI)
  then have "A ` {1..<Suc l} - {A k} = A ` ({1..<Suc l} - {k})"
    using assms(2,3) by (subst inj_on_image_set_diff [of A "{1..<Suc l}"]) auto
  also have "{1..<Suc l} - {k} = insert l ({1..<l} - {k})" using assms(2,3) by auto
  also have "A ` \<dots> = insert (A l) (A ` ({1..<l} - {k}))" by simp
  also have "\<dots> = (A(k := A l)) ` {1..<l}" using assms(2,3) by (subst fun_upd_image) simp
  finally show ?thesis by (simp add: cells_def assms(4))
qed

lemma cells_drop_last:
  assumes "pq_rep q h A N" and "1 \<le> l" and "pq_size q = Suc l"
  shows "cells (q\<lparr>pq_size := l\<rparr>) A = cells q A - {A l}"
proof -
  have "A j \<noteq> A l" if "1 \<le> j" "j < l" for j using pq_rep_inj [OF assms(1), of j l] assms that by auto
  then show ?thesis using assms(2) unfolding cells_def assms(3) by (auto simp: less_Suc_eq)
qed

lemma content_minus: "cells q' A' = cells q A - {a} \<Longrightarrow> content q' A' N = (content q A N)(a := None)"
  by (rule ext) (simp add: content_def)

text \<open>The node at \<open>k\<close> leaves the heap: either it was the last one, or a sift follows.\<close>

lemma pq_drop_last:
  assumes "pq_rep q h A N" and "heap (pq_size q) (pris A N)" and "1 \<le> l" and "pq_size q = Suc l"
  shows "pq_at (q\<lparr>pq_size := l\<rparr>) h ((content q A N)(A l := None))"
proof -
  have "pq_rep (q\<lparr>pq_size := l\<rparr>) h A N" using assms(1,3,4) by (auto simp: pq_rep_def)
  moreover have "heap l (pris A N)" using heap_prefix assms(2,4) by simp
  ultimately show ?thesis
    unfolding pq_at_def using content_minus [OF cells_drop_last [OF assms(1,3,4)], of N]
    by (intro exI [of _ A] exI [of _ N]) simp
qed

lemma pqueue_remove_correct:
  assumes "pq_R q h C" and "C a = Some v"
  shows "\<exists>q' h'. pqueue_remove q h a = Some (q', h') \<and> pq_R q' h' (C(a := None)) \<and> pq_frame (dom C - {a}) h h'"
proof -
  from assms(1) obtain A N where r: "pq_rep q h A N" "heap (pq_size q) (pris A N)" "C = content q A N"
    and len: "length (pq_d q) = pq_avail q" by (auto simp: pq_R_def elim: pq_atE)
  from assms(2) r(3) obtain k where k: "1 \<le> k" "k < pq_size q" "a = A k" by (metis content_cell)
  then obtain l where l: "pq_size q = Suc l" "k \<le> l" "1 \<le> l" by (cases "pq_size q") auto
  note ck = pq_rep_cell [OF r(1) k(1,2)] and cl = pq_rep_cell [OF r(1) l(3), unfolded l(1), simplified]
  have ll: "l < length (pq_d q)" using r(1) l(1) by (simp add: pq_rep_def)
  let ?q = "q\<lparr>pq_size := l, pq_d := (pq_d q)[k := Some (A l)]\<rparr>"
  have step: "pqueue_remove q h a
      = (if pris A N k < pris A N l then bubble_up ?q h k else percolate_down ?q h k)"
    using ck cl l ll k(3) by (simp add: pqueue_remove_def get_pos_def get_pri_def cmp_pri_def d_get_def d_set_def)
  have get: "d_get ?q k = Some (A l)" using ll l(2) by (simp add: d_get_def)
  show ?thesis
  proof (cases "k = l")
    case True
    have same: "?q = q\<lparr>pq_size := l\<rparr>" using cl ll True by (auto simp: d_get_def list_update_same_conv)
    have "percolate_down ?q h k = Some (?q, h)"
      using percolate_down_outside [of ?q k "A l" h "node N (A l) l"] get l True cl k(1)
      by (simp add: fun_upd_idem)
    moreover have "pq_at ?q h (C(a := None))"
      unfolding same using pq_drop_last [OF r(1,2) l(3,1)] True k(3) r(3) by simp
    ultimately show ?thesis using step True len by (simp add: pq_R_def)
  next
    case False
    with l(2) have kl: "k < l" by simp
    note hole = pq_take_last [OF r(1) k(1) kl l(1)]
    have hp: "heap l (pris A N)" using heap_prefix r(2) l(1) by simp
    have upd: "pris (A(k := A l)) N = (pris A N)(k := pris A N l)" by auto
    have "sifted ?q h (A(k := A l)) N (if pris A N k < pris A N l then bubble_up ?q h k else percolate_down ?q h k)"
    proof (cases "pris A N k < pris A N l")
      case True
      from bubble_up_sifted [OF hole get] heap_increase [OF hp kl True] True show ?thesis unfolding upd by simp
    next
      case False
      from percolate_down_sifted [OF hole get] heap_decrease [OF hp kl] False show ?thesis unfolding upd by simp
    qed
    from sifted_at [OF this] obtain q' h' where
      b: "pqueue_remove q h a = Some (q', h')" "pq_at q' h' (content ?q (A(k := A l)) N)"
      "pq_frame (cells ?q (A(k := A l))) h h'"
      "length (pq_d q') = length (pq_d ?q)" "pq_avail q' = pq_avail ?q" unfolding step by blast
    note cells = cells_take_last [OF r(1) k(1) kl l(1)]
    have "pq_at q' h' (C(a := None))" using b(2) unfolding content_minus [OF cells] r(3) k(3) .
    moreover have "pq_frame (dom C - {a}) h h'" using b(3) cells r(3) k(3) by simp
    ultimately show ?thesis using b len by (auto simp: pq_R_def)
  qed
qed

text \<open>\<open>pqueue_pop\<close> yields a node of the highest priority.\<close>

lemma pqueue_pop_correct:
  assumes "pq_at q h C" and "C \<noteq> Map.empty"
  shows "\<exists>q' h' a p i. pqueue_pop q h = Some (q', h', Some a) \<and> pq_at q' h' (C(a := None))
    \<and> C a = Some (p, i) \<and> (\<forall>b p' i'. C b = Some (p', i') \<longrightarrow> p' \<le> p) \<and> pq_frame (dom C - {a}) h h'
    \<and> length (pq_d q') = length (pq_d q) \<and> pq_avail q' = pq_avail q \<and> pqueue_peek q = Some (Some a)"
proof -
  from assms(1) obtain A N where r: "pq_rep q h A N" "heap (pq_size q) (pris A N)" "C = content q A N"
    by (auto elim: pq_atE)
  have "pq_size q \<noteq> 1" using assms(2) r(3) by (auto simp: content_def cells_def fun_eq_iff split: if_splits)
  then obtain l where l: "pq_size q = Suc l" "1 \<le> l" using r(1) by (cases "pq_size q") (auto simp: pq_rep_def)
  note c1 = pq_rep_cell [OF r(1), of 1, unfolded l(1)] and cl = pq_rep_cell [OF r(1) l(2), unfolded l(1), simplified]
  have ll: "l < length (pq_d q)" using r(1) l(1) by (simp add: pq_rep_def)
  let ?q = "q\<lparr>pq_size := l, pq_d := (pq_d q)[1 := Some (A l)]\<rparr>"
  have step: "pqueue_pop q h = map_option (\<lambda>(q, h). (q, h, Some (A 1))) (percolate_down ?q h 1)"
    using c1 cl l ll
    by (cases "percolate_down ?q h 1") (auto simp: pqueue_pop_def d_get_def d_set_def)
  have get: "d_get ?q 1 = Some (A l)" using ll l(2) by (simp add: d_get_def)
  have top: "C (A 1) = Some (N (A 1))" using l r(3) by (simp add: content_def cells_def)
  have best: "p' \<le> pris A N 1" if "C b = Some (p', i')" for b p' i'
    using that heap_root [OF r(2)] unfolding r(3) by (metis content_cell fst_conv)
  have peek: "pqueue_peek q = Some (Some (A 1))" using c1 l by (simp add: pqueue_peek_def)
  have "\<exists>q' h'. percolate_down ?q h 1 = Some (q', h') \<and> pq_at q' h' (C(A 1 := None)) \<and> pq_frame (dom C - {A 1}) h h'
    \<and> length (pq_d q') = length (pq_d q) \<and> pq_avail q' = pq_avail q"
  proof (cases "l = 1")
    case True
    have same: "?q = q\<lparr>pq_size := l\<rparr>" using cl ll True by (auto simp: d_get_def list_update_same_conv)
    have "percolate_down ?q h 1 = Some (?q, h)"
      using percolate_down_outside [of ?q 1 "A l" h "node N (A l) l"] get l True cl
      by (simp add: fun_upd_idem)
    moreover have "pq_at ?q h (C(A 1 := None))"
      unfolding same using pq_drop_last [OF r(1,2) l(2,1)] True r(3) by simp
    ultimately show ?thesis by simp
  next
    case False
    with l(2) have kl: "1 < l" by simp
    note hole = pq_take_last [OF r(1) le_refl kl l(1)]
    have "heap l (pris A N)" using heap_prefix r(2) l(1) by simp
    from heap_replace_root [OF this] have "heap_down l (pris (A(1 := A l)) N) 1"
      by (rule heap_down_cong) (use kl in auto)
    with percolate_down_sifted [OF hole get] have "sifted ?q h (A(1 := A l)) N (percolate_down ?q h 1)" by simp
    from sifted_at [OF this] obtain q' h' where
      b: "percolate_down ?q h 1 = Some (q', h')" "pq_at q' h' (content ?q (A(1 := A l)) N)"
      "pq_frame (cells ?q (A(1 := A l))) h h'"
      "length (pq_d q') = length (pq_d ?q)" "pq_avail q' = pq_avail ?q" by blast
    note cells = cells_take_last [OF r(1) le_refl kl l(1)]
    have "pq_at q' h' (C(A 1 := None))" using b(2) unfolding content_minus [OF cells] r(3) .
    moreover have "pq_frame (dom C - {A 1}) h h'" using b(3) cells r(3) by simp
    ultimately show ?thesis using b by auto
  qed
  then show ?thesis using step top best peek by (cases "N (A 1)") auto
qed

lemma pqueue_pop_empty: "pq_at q h Map.empty \<Longrightarrow> pqueue_pop q h = Some (q, h, NULL)"
  using pq_at_size(1) [of q h Map.empty] by (simp add: pqueue_pop_def)

section \<open>Printing\<close>

lemma print_loop_sorted:
  "pq_at q h C \<Longrightarrow> \<exists>out h'. print_loop q h = Some (out, h') \<and> distinct out \<and> set out = dom C
     \<and> sorted_wrt (\<lambda>a b. fst (the (C b)) \<le> fst (the (C a))) out"
proof (induction "card (dom C)" arbitrary: q h C)
  case 0
  then have "C = Map.empty" using pq_at_size(2) by (metis card_0_eq dom_eq_empty_conv)
  then show ?case using pqueue_pop_empty 0 by (subst print_loop.simps) simp
next
  case (Suc n)
  then have "C \<noteq> Map.empty" by auto
  from pqueue_pop_correct [OF Suc.prems this] obtain q1 h1 a p i where
    pop: "pqueue_pop q h = Some (q1, h1, Some a)" "pq_at q1 h1 (C(a := None))" "C a = Some (p, i)"
    "\<forall>b p' i'. C b = Some (p', i') \<longrightarrow> p' \<le> p" by blast
  have "n = card (dom (C(a := None)))" using Suc.hyps(2) pop(3) pq_at_size(2) [OF Suc.prems] by (auto simp: domI)
  from Suc.hyps(1) [OF this pop(2)] obtain out h' where
    o: "print_loop q1 h1 = Some (out, h')" "distinct out" "set out = dom (C(a := None))"
    "sorted_wrt (\<lambda>x y. fst (the ((C(a := None)) y)) \<le> fst (the ((C(a := None)) x))) out" by blast
  have "sorted_wrt (\<lambda>x y. fst (the (C y)) \<le> fst (the (C x))) out"
    using o(3) by (intro sorted_wrt_mono_rel [OF _ o(4)]) auto
  moreover have "fst (the (C b)) \<le> p" if "b \<in> set out" for b
  proof -
    from that o(3) have "b \<in> dom C" by auto
    then obtain p' i' where "C b = Some (p', i')" by (metis domD surj_pair)
    with pop(4) show ?thesis by auto
  qed
  ultimately show ?case using pop(1,3) o(1-3) by (subst print_loop.simps) auto
qed

lemma pq_at_copy:
  assumes "pq_at q h C"
  shows "pq_at (pqueue_init (pq_size q)\<lparr>pq_size := pq_size q, pq_avail := pq_avail q, pq_step := pq_step q,
    pq_d := take (pq_size q) (pq_d q) @ drop (pq_size q) (pq_d (pqueue_init (pq_size q)))\<rparr>) h C"
proof -
  from assms obtain A N where r: "pq_rep q h A N" "heap (pq_size q) (pris A N)" "C = content q A N"
    by (auto elim: pq_atE)
  let ?q = "pqueue_init (pq_size q)\<lparr>pq_size := pq_size q, pq_avail := pq_avail q, pq_step := pq_step q,
    pq_d := take (pq_size q) (pq_d q) @ drop (pq_size q) (pq_d (pqueue_init (pq_size q)))\<rparr>"
  have "pq_rep ?q h A N" using r(1) by (auto simp: pq_rep_def nth_append pqueue_init_def)
  moreover have "content ?q A N = C" by (simp add: r(3) content_def cells_def)
  ultimately show ?thesis unfolding pq_at_def using r(2) by (intro exI [of _ A] exI [of _ N]) simp
qed

section \<open>Validity\<close>

lemma subtree_is_valid_heap:
  "pq_rep q h A N \<Longrightarrow> heap (pq_size q) (pris A N) \<Longrightarrow> 1 \<le> k \<Longrightarrow> k < pq_size q \<Longrightarrow> subtree_is_valid q h k = Some True"
proof (induction "pq_size q - k" arbitrary: k rule: less_induct)
  case less
  have child: "\<exists>a pa b pb. d_get q k = Some a \<and> get_pri h a = Some pa \<and> d_get q j = Some b
      \<and> get_pri h b = Some pb \<and> \<not> cmp_pri pa pb \<and> subtree_is_valid q h j = Some True"
    if "j div 2 = k" "j < pq_size q" "k < j" for j
  proof -
    have "pris A N j \<le> pris A N k" using less.prems(2,3) that by (auto simp: heap_def)
    moreover have "subtree_is_valid q h j = Some True" using less that by simp
    ultimately show ?thesis
      using pq_rep_cell [OF less.prems(1,3,4)] pq_rep_cell [OF less.prems(1), of j] that less.prems(3)
      by (simp add: get_pri_def cmp_pri_def)
  qed
  show ?case using child [of "left_child k"] child [of "right_child k"] less.prems(3)
    by (subst subtree_is_valid.simps) (auto simp: left_child_def right_child_def)
qed

section \<open>Properties\<close>

text \<open>Inserting a list of nodes, one after the other.\<close>

fun insert_all :: "pqueue_t \<Rightarrow> pq_store \<Rightarrow> addr list \<Rightarrow> (pqueue_t \<times> pq_store) option" where
  "insert_all q h [] = Some (q, h)"
| "insert_all q h (a # as) = do { (q, h) \<leftarrow> pqueue_insert q h a; insert_all q h as }"

lemma insert_all_correct:
  "pq_R q h C \<Longrightarrow> distinct as \<Longrightarrow> set as \<inter> dom C = {} \<Longrightarrow> set as \<subseteq> dom h \<Longrightarrow>
   \<exists>q' h' C'. insert_all q h as = Some (q', h') \<and> pq_R q' h' C' \<and> dom C' = dom C \<union> set as
     \<and> (\<forall>a \<in> dom C. C' a = C a) \<and> (\<forall>a \<in> set as. C' a = Some (pri (the (h a)), pq_obj_id (the (h a))))"
proof (induction as arbitrary: q h C)
  case (Cons a as)
  then obtain n where n: "h a = Some n" by auto
  have "C a = None" using Cons.prems(3) by (auto simp: domIff)
  from pqueue_insert_correct [OF Cons.prems(1) this n] obtain q1 h1 where
    i: "pqueue_insert q h a = Some (q1, h1)" "pq_R q1 h1 (C(a \<mapsto> (pri n, pq_obj_id n)))"
    "pq_frame (insert a (dom C)) h h1" by blast
  have same: "h1 b = h b" if "b \<in> set as" for b
    using i(3) that Cons.prems(2,3) by (auto simp: pq_frame_def)
  then have live: "set as \<subseteq> dom h1" using Cons.prems(4) by (auto simp: dom_def)
  have "distinct as" "set as \<inter> dom (C(a \<mapsto> (pri n, pq_obj_id n))) = {}" using Cons.prems(2,3) by auto
  from Cons.IH [OF i(2) this live] obtain q' h' C' where
    r: "insert_all q1 h1 as = Some (q', h')" "pq_R q' h' C'" "dom C' = dom (C(a \<mapsto> (pri n, pq_obj_id n))) \<union> set as"
    "\<forall>b \<in> dom (C(a \<mapsto> (pri n, pq_obj_id n))). C' b = (C(a \<mapsto> (pri n, pq_obj_id n))) b"
    "\<forall>b \<in> set as. C' b = Some (pri (the (h1 b)), pq_obj_id (the (h1 b)))" by blast
  have "\<forall>b \<in> dom C. C' b = C b" using r(4) Cons.prems(3) by auto
  moreover have "C' a = Some (pri n, pq_obj_id n)" using r(4) by simp
  ultimately show ?case using i(1) r(1-3,5) n same by auto
qed auto

text \<open>
  C29: the priority queue sorts.  Any number of different nodes is inserted into a new queue of any
  initial capacity without a failure, growing the array as needed; the queue then passes
  \<open>pqueue_is_valid\<close>, and \<open>pqueue_print\<close> yields every node exactly once, by falling priority.
\<close>

theorem pqueue_sorts:
  assumes "distinct as" and "set as \<subseteq> dom h"
  shows "\<exists>q h1 out h2. insert_all (pqueue_init n) h as = Some (q, h1) \<and> pqueue_size q = length as
    \<and> pqueue_is_valid q h1 = Some True \<and> pqueue_print q h1 = Some (out, h2) \<and> distinct out
    \<and> set out = set as \<and> sorted_wrt (\<lambda>a b. pri (the (h b)) \<le> pri (the (h a))) out"
proof -
  from insert_all_correct [OF pqueue_init_R [of n] assms(1) _ assms(2)] obtain q h1 C where
    i: "insert_all (pqueue_init n) h as = Some (q, h1)" "pq_R q h1 C" "dom C = set as"
    "\<forall>a \<in> set as. C a = Some (pri (the (h a)), pq_obj_id (the (h a)))" by auto
  have at: "pq_at q h1 C" using i(2) by (simp add: pq_R_def)
  then obtain A N where r: "pq_rep q h1 A N" "heap (pq_size q) (pris A N)" by (auto elim: pq_atE)
  have valid: "pqueue_is_valid q h1 = Some True"
  proof (cases "pq_size q = 1")
    case True
    then show ?thesis
      by (simp add: pqueue_is_valid_def subtree_is_valid.simps left_child_def right_child_def)
  next
    case False
    then show ?thesis using subtree_is_valid_heap [OF r, of 1] r(1)
      by (simp add: pqueue_is_valid_def pq_rep_def)
  qed
  from print_loop_sorted [OF pq_at_copy [OF at]] obtain out h2 where
    p: "pqueue_print q h1 = Some (out, h2)" "distinct out" "set out = dom C"
    "sorted_wrt (\<lambda>a b. fst (the (C b)) \<le> fst (the (C a))) out"
    by (auto simp: pqueue_print_def Let_def)
  have "sorted_wrt (\<lambda>a b. pri (the (h b)) \<le> pri (the (h a))) out"
    using p(3) i(3,4) by (intro sorted_wrt_mono_rel [OF _ p(4)]) auto
  moreover have "pqueue_size q = length as"
    using pq_at_size(1) [OF at] i(3) distinct_card [OF assms(1)] by (simp add: pqueue_size_def)
  ultimately show ?thesis using i(1,3) valid p by auto
qed

definition sample_nodes :: pq_store where
  "sample_nodes = [1 \<mapsto> \<lparr>pri = 5, pq_obj_id = 1, pos = 0\<rparr>, 2 \<mapsto> \<lparr>pri = 9, pq_obj_id = 2, pos = 0\<rparr>,
     3 \<mapsto> \<lparr>pri = 7, pq_obj_id = 3, pos = 0\<rparr>]"

theorem pqueue_sorts_witness:
  "\<exists>q h1 out h2. insert_all (pqueue_init 1) sample_nodes [1, 2, 3] = Some (q, h1) \<and> pqueue_size q = 3
    \<and> pqueue_is_valid q h1 = Some True \<and> pqueue_print q h1 = Some (out, h2) \<and> distinct out
    \<and> set out = {1, 2, 3} \<and> sorted_wrt (\<lambda>a b. pri (the (sample_nodes b)) \<le> pri (the (sample_nodes a))) out"
proof -
  have "set [1, 2, 3] \<subseteq> dom sample_nodes" by (simp add: sample_nodes_def)
  from pqueue_sorts [OF _ this, of 1] show ?thesis by (simp add: numeral_3_eq_3 del: insert_all.simps)
qed

text \<open>
  \<open>pqueue_print\<close> breaks the queue it prints.  It pops a copy of the array, and the pops write the
  positions in the copy into the nodes, which the queue shares.  After printing a queue of the nodes
  1 and 2, \<open>pqueue_remove\<close> of node 2 looks at the wrong position: it drops node 1 and keeps node 2.
\<close>

theorem pqueue_print_breaks_remove:
  "do { (q, h) \<leftarrow> insert_all (pqueue_init 4) [1 \<mapsto> \<lparr>pri = 2, pq_obj_id = 1, pos = 0\<rparr>,
            2 \<mapsto> \<lparr>pri = 1, pq_obj_id = 2, pos = 0\<rparr>] [1, 2];
        (out, h) \<leftarrow> pqueue_print q h;
        (q, h) \<leftarrow> pqueue_remove q h 2;
        top \<leftarrow> pqueue_peek q;
        Some (out, pqueue_size q, top) } = Some ([1, 2], 1, Some 2)"
  by (simp add: pq_eval eval_nat_numeral)

text \<open>
  C30: removal and change of priority.  In a queue that holds the nodes of \<open>C\<close>, \<open>pqueue_remove\<close> takes
  out exactly the node it is given, and \<open>pqueue_change_priority\<close> changes the priority of this node
  and of no other, whichever way it moves; both leave a queue in which \<open>pqueue_pop\<close> yields a node of
  the highest priority.
\<close>

theorem pqueue_remove_change:
  assumes "pq_R q h C" and "C a = Some (p, i)"
  shows "\<exists>q1 h1 q2 h2. pqueue_remove q h a = Some (q1, h1) \<and> pq_R q1 h1 (C(a := None))
    \<and> pqueue_change_priority q h p' a = Some (q2, h2) \<and> pq_R q2 h2 (C(a \<mapsto> (p', i)))
    \<and> (\<exists>q3 h3 b. pqueue_pop q2 h2 = Some (q3, h3, Some b) \<and> b \<in> dom C
        \<and> (\<forall>c \<in> dom C. fst (the ((C(a \<mapsto> (p', i))) c)) \<le> fst (the ((C(a \<mapsto> (p', i))) b))))"
proof -
  from pqueue_remove_correct [OF assms] obtain q1 h1 where
    r: "pqueue_remove q h a = Some (q1, h1)" "pq_R q1 h1 (C(a := None))" by blast
  from pqueue_change_priority_correct [OF assms] obtain q2 h2 where
    c: "pqueue_change_priority q h p' a = Some (q2, h2)" "pq_R q2 h2 (C(a \<mapsto> (p', i)))" by blast
  have "C(a \<mapsto> (p', i)) \<noteq> Map.empty" by simp
  with c(2) pqueue_pop_correct [of q2 h2 "C(a \<mapsto> (p', i))"] obtain q3 h3 b pb ib where
    pop: "pqueue_pop q2 h2 = Some (q3, h3, Some b)" "(C(a \<mapsto> (p', i))) b = Some (pb, ib)"
    "\<forall>c pc ic. (C(a \<mapsto> (p', i))) c = Some (pc, ic) \<longrightarrow> pc \<le> pb"
    unfolding pq_R_def by (metis (no_types, lifting))
  have dom: "dom (C(a \<mapsto> (p', i))) = dom C" using assms(2) by auto
  have "fst (the ((C(a \<mapsto> (p', i))) c)) \<le> fst (the ((C(a \<mapsto> (p', i))) b))" if "c \<in> dom C" for c
  proof -
    from that dom obtain pc ic where "(C(a \<mapsto> (p', i))) c = Some (pc, ic)" by (metis domD surj_pair)
    with pop(2,3) show ?thesis by (metis fst_conv option.sel)
  qed
  moreover have "b \<in> dom C" using pop(2) dom by blast
  ultimately show ?thesis using r c pop(1) by blast
qed

lemma sample_queue_R:
  "pq_R \<lparr>pq_size = 3, pq_avail = 4, pq_step = 4, pq_d = [None, Some 2, Some 1, None]\<rparr>
     [1 \<mapsto> \<lparr>pri = 5, pq_obj_id = 1, pos = 2\<rparr>, 2 \<mapsto> \<lparr>pri = 9, pq_obj_id = 2, pos = 1\<rparr>]
     [1 \<mapsto> (5, 1), 2 \<mapsto> (9, 2)]"
proof -
  have "{Suc 0..<3} = {1, 2 :: nat}" "{2..<3} = {2 :: nat}" by auto
  then show ?thesis unfolding pq_R_def pq_at_def
    by (auto simp: pq_rep_def heap_def content_def cells_def node_def fun_eq_iff
        intro!: exI [of _ "\<lambda>k. if k = Suc 0 then 2 else Suc 0"] exI [of _ "\<lambda>a. if a = Suc 0 then (5, 1) else (9, 2)"])
qed

theorem pqueue_remove_change_witness:
  "\<exists>q1 h1 q2 h2. pqueue_remove \<lparr>pq_size = 3, pq_avail = 4, pq_step = 4, pq_d = [None, Some 2, Some 1, None]\<rparr>
       [1 \<mapsto> \<lparr>pri = 5, pq_obj_id = 1, pos = 2\<rparr>, 2 \<mapsto> \<lparr>pri = 9, pq_obj_id = 2, pos = 1\<rparr>] 1 = Some (q1, h1)
     \<and> pq_R q1 h1 [2 \<mapsto> (9, 2)]
     \<and> pqueue_change_priority \<lparr>pq_size = 3, pq_avail = 4, pq_step = 4, pq_d = [None, Some 2, Some 1, None]\<rparr>
       [1 \<mapsto> \<lparr>pri = 5, pq_obj_id = 1, pos = 2\<rparr>, 2 \<mapsto> \<lparr>pri = 9, pq_obj_id = 2, pos = 1\<rparr>] 11 1 = Some (q2, h2)
     \<and> pq_R q2 h2 [2 \<mapsto> (9, 2), 1 \<mapsto> (11, 1)]"
proof -
  have "[1 \<mapsto> (5 :: double, 1 :: obj_id_t), 2 \<mapsto> (9, 2)](1 := None) = [2 :: addr \<mapsto> (9, 2)]"
    "[1 \<mapsto> (5 :: double, 1 :: obj_id_t), 2 \<mapsto> (9, 2)](1 \<mapsto> (11, 1)) = [2 :: addr \<mapsto> (9, 2), 1 \<mapsto> (11, 1 :: obj_id_t)]"
    by auto
  then show ?thesis using pqueue_remove_change [OF sample_queue_R, of 1 5 1 11] by auto
qed

end
