(* ===== verification/Ranked_Cache.thy ===== *)
theory Ranked_Cache
  imports Policy Pqueue
begin

text \<open>
  What the algorithms that keep their objects in a priority queue share (\<open>Belady.c\<close>, \<open>Size.c\<close>): every
  object points to its node in the queue, and the node names the object.  \<open>ranked_R E W c K\<close> is the
  abstraction: the cache holds exactly the ids of \<open>K\<close>, with the priority and the size that \<open>K\<close> gives.

  The abstract machine \<open>rank_get\<close> is a relation, since the queue chooses among objects of equal
  priority: on a miss it drops objects of the highest priority until the new one fits.  The locale
  \<open>ranked_policy\<close> states the laws of an algorithm against this machine, and shows that every trace is
  served, with the hits of a run of the machine and within the capacity.
\<close>

section \<open>Parameters\<close>

text \<open>
  The nodes that the algorithm allocates are in a store of their own; \<open>node_brk\<close> is the next free
  address.
\<close>

record pq_params =
  params_pq :: pqueue_t
  nodes :: pq_store
  node_brk :: addr

section \<open>The abstract machine\<close>

type_synonym ranking = "obj_id_t \<rightharpoonup> double \<times> int"

definition rank_bytes :: "ranking \<Rightarrow> int" where
  "rank_bytes K = (\<Sum>i \<in> dom K. snd (the (K i)))"

definition top_ranked :: "ranking \<Rightarrow> obj_id_t \<Rightarrow> bool" where
  "top_ranked K i \<longleftrightarrow> i \<in> dom K \<and> (\<forall>j \<in> dom K. fst (the (K j)) \<le> fst (the (K i)))"

inductive rank_evict :: "int \<Rightarrow> request \<Rightarrow> ranking \<Rightarrow> ranking \<Rightarrow> bool" for cap req where
  rank_fits: "rank_bytes K + req_obj_size req \<le> cap \<Longrightarrow> rank_evict cap req K K"
| rank_drop: "rank_bytes K + req_obj_size req > cap \<Longrightarrow> top_ranked K i \<Longrightarrow>
    rank_evict cap req (K(i := None)) K' \<Longrightarrow> rank_evict cap req K K'"

inductive rank_get :: "(request \<Rightarrow> double) \<Rightarrow> int \<Rightarrow> request \<Rightarrow> ranking \<Rightarrow> ranking \<Rightarrow> bool \<Rightarrow> bool"
  for prio cap req where
  rank_hit: "K (req_obj_id req) = Some (p, n) \<Longrightarrow>
    rank_get prio cap req K (K(req_obj_id req \<mapsto> (prio req, n))) True"
| rank_big: "K (req_obj_id req) = None \<Longrightarrow> req_obj_size req > cap \<Longrightarrow> rank_get prio cap req K K False"
| rank_miss: "K (req_obj_id req) = None \<Longrightarrow> req_obj_size req \<le> cap \<Longrightarrow> rank_evict cap req K K' \<Longrightarrow>
    rank_get prio cap req K (K'(req_obj_id req \<mapsto> (prio req, req_obj_size req))) False"

inductive rank_serve :: "(request \<Rightarrow> double) \<Rightarrow> int \<Rightarrow> ranking \<Rightarrow> request list \<Rightarrow> ranking \<Rightarrow> bool list \<Rightarrow> bool"
  for prio cap where
  rank_nil: "rank_serve prio cap K [] K []"
| rank_cons: "rank_get prio cap req K K1 hit \<Longrightarrow> rank_serve prio cap K1 reqs K' hits \<Longrightarrow>
    rank_serve prio cap K (req # reqs) K' (hit # hits)"

inductive_cases rank_getE: "rank_get prio cap req K K' hit"
inductive_cases rank_serve_NilE: "rank_serve prio cap K [] K' hits"
inductive_cases rank_serve_ConsE: "rank_serve prio cap K (req # reqs) K' hits"

lemma rank_evict_subset: "rank_evict cap req K K' \<Longrightarrow> K' \<subseteq>\<^sub>m K"
proof (induction rule: rank_evict.induct)
  case (rank_drop K i K')
  then show ?case by (auto simp: map_le_def split: if_splits)
qed simp

lemma rank_evict_fits: "rank_evict cap req K K' \<Longrightarrow> rank_bytes K' + req_obj_size req \<le> cap"
  by (induction rule: rank_evict.induct)

lemma rank_bytes_empty [simp]: "rank_bytes Map.empty = 0"
  by (simp add: rank_bytes_def)

lemma rank_bytes_insert:
  assumes "finite (dom K)" and "K i = None"
  shows "rank_bytes (K(i \<mapsto> (p, n))) = rank_bytes K + n"
proof -
  have "i \<notin> dom K" using assms(2) by auto
  moreover have "(\<Sum>j \<in> dom K. snd (the ((K(i \<mapsto> (p, n))) j))) = (\<Sum>j \<in> dom K. snd (the (K j)))"
    by (rule sum.cong) (use assms(2) in auto)
  ultimately show ?thesis using assms(1) by (simp add: rank_bytes_def)
qed

lemma rank_bytes_change: "K i = Some (p, n) \<Longrightarrow> rank_bytes (K(i \<mapsto> (q, n))) = rank_bytes K"
proof -
  assume a: "K i = Some (p, n)"
  then have "dom (K(i \<mapsto> (q, n))) = dom K" by auto
  then show ?thesis unfolding rank_bytes_def by (intro sum.cong) (auto simp: a)
qed

section \<open>The contract\<close>

locale ranked_policy =
  fixes ops :: "('a, 'f, 'p) cache_t cache_ops"
    and R :: "('a, 'f, 'p) cache_t \<Rightarrow> ranking \<Rightarrow> bool"
    and prio :: "request \<Rightarrow> double"
    and ok_req :: "request \<Rightarrow> bool"
  assumes K_n_req: "R c K \<Longrightarrow> R (c\<lparr>n_req := n\<rparr>) K"
    and K_finite: "R c K \<Longrightarrow> finite (dom K)"
    and K_bytes: "R c K \<Longrightarrow> op_get_occupied_byte ops c = rank_bytes K \<and> obj_md_size c = 0"
    and K_can_insert: "R c K \<Longrightarrow> op_can_insert ops c req = cache_can_insert_default c req"
    and K_find: "R c K \<Longrightarrow> ok_req req \<Longrightarrow> \<exists>c' p. op_find ops c req True = Some (c', p)
        \<and> same_limits c c' \<and> admissioner c' = admissioner c
        \<and> (case K (req_obj_id req) of None \<Rightarrow> p = NULL \<and> R c' K
           | Some (q, n) \<Rightarrow> p \<noteq> NULL \<and> R c' (K(req_obj_id req \<mapsto> (prio req, n))))"
    and K_evict: "R c K \<Longrightarrow> K \<noteq> Map.empty \<Longrightarrow> \<exists>c' i. op_evict ops c req = Some c'
        \<and> same_limits c c' \<and> admissioner c' = admissioner c \<and> top_ranked K i \<and> R c' (K(i := None))"
    and K_insert: "R c K \<Longrightarrow> ok_req req \<Longrightarrow> K (req_obj_id req) = None \<Longrightarrow>
        \<exists>c' p. op_insert ops c req = Some (c', p) \<and> same_limits c c' \<and> admissioner c' = admissioner c
        \<and> R c' (K(req_obj_id req \<mapsto> (prio req, req_obj_size req)))"
begin

lemma evict_ranked:
  "R c K \<Longrightarrow> req_obj_size req \<le> cache_size c \<Longrightarrow>
   \<exists>c' K'. evict_until_fits ops c req = Some c' \<and> R c' K' \<and> rank_evict (cache_size c) req K K'
     \<and> same_limits c c' \<and> admissioner c' = admissioner c"
proof (induction "card (dom K)" arbitrary: c K rule: less_induct)
  case less
  note occ = K_bytes [OF less.prems(1)]
  show ?case
  proof (cases "rank_bytes K + req_obj_size req > cache_size c")
    case False
    then have "rank_evict (cache_size c) req K K" by (intro rank_fits) simp
    then show ?thesis using False less.prems occ by (subst evict_until_fits.simps) auto
  next
    case True
    then have "K \<noteq> Map.empty" using less.prems(2) by auto
    from K_evict [OF less.prems(1) this, of req] obtain c1 i where
      e: "op_evict ops c req = Some c1" "same_limits c c1" "admissioner c1 = admissioner c"
      "top_ranked K i" "R c1 (K(i := None))" by blast
    have "dom (K(i := None)) \<subset> dom K" using e(4) by (auto simp: top_ranked_def)
    then have "card (dom (K(i := None))) < card (dom K)" by (rule psubset_card_mono [OF K_finite [OF less.prems(1)]])
    from less.hyps [OF this e(5)] less.prems(2) e(2) obtain c' K' where
      r: "evict_until_fits ops c1 req = Some c'" "R c' K'" "rank_evict (cache_size c) req (K(i := None)) K'"
      "same_limits c1 c'" "admissioner c' = admissioner c1" by (auto simp: same_limits_def)
    have "evict_until_fits ops c req = Some c'" using True occ e(1) r(1) by (subst evict_until_fits.simps) simp
    then show ?thesis using r e rank_drop [OF True e(4) r(3)] by (auto simp: same_limits_def)
  qed
qed

lemma get_ranked:
  assumes "R c K" and "ok_req req" and "admissioner c = None" and "rank_bytes K \<le> cache_size c"
  shows "\<exists>c' K' hit. cache_get_base ops None c req = Some (c', hit) \<and> R c' K'
    \<and> rank_get prio (cache_size c) req K K' hit \<and> same_limits c c' \<and> admissioner c' = None
    \<and> rank_bytes K' \<le> cache_size c"
proof -
  let ?c0 = "c\<lparr>n_req := n_req c + 1\<rparr>" and ?i = "req_obj_id req"
  from K_find [OF K_n_req [OF assms(1)] assms(2), of "n_req c + 1"] assms(3) obtain c1 p where
    f: "op_find ops ?c0 req True = Some (c1, p)" "same_limits c c1" "admissioner c1 = None"
    "case K ?i of None \<Rightarrow> p = NULL \<and> R c1 K | Some (q, n) \<Rightarrow> p \<noteq> NULL \<and> R c1 (K(?i \<mapsto> (prio req, n)))"
    by (auto simp: same_limits_def)
  have upd: "call_admissioner_update c1 req = c1" using f(3) by (simp add: call_admissioner_update_def)
  have lim: "cache_size c1 = cache_size c" using f(2) by (simp add: same_limits_def)
  show ?thesis
  proof (cases "K ?i")
    case (Some v)
    then obtain q n where v: "K ?i = Some (q, n)" by (cases v) auto
    then have "cache_get_base ops None c req = Some (c1, True)"
      using f upd by (auto simp: cache_get_base_def Let_def)
    moreover have "rank_get prio (cache_size c) req K (K(?i \<mapsto> (prio req, n))) True" using v by (rule rank_hit)
    ultimately show ?thesis using v f assms(4) rank_bytes_change [where K = K and i = ?i and q = "prio req", OF v]
      by (intro exI [of _ c1] exI [of _ "K(?i \<mapsto> (prio req, n))"] exI [of _ True]) auto
  next
    case None
    then have r: "p = NULL" "R c1 K" using f(4) by auto
    have md: "obj_md_size c1 = 0" using K_bytes [OF r(2)] by simp
    show ?thesis
    proof (cases "req_obj_size req \<le> cache_size c")
      case False
      then have "op_can_insert ops c1 req = Some (c1, False)"
        using f(3) lim md by (simp add: K_can_insert [OF r(2)] cache_can_insert_default_def)
      then have "cache_get_base ops None c req = Some (c1, False)"
        using f(1) upd r(1) by (auto simp: cache_get_base_def Let_def)
      moreover have "rank_get prio (cache_size c) req K K False" using None False by (intro rank_big) auto
      ultimately show ?thesis using r f assms(4) by (intro exI [of _ c1] exI [of _ K] exI [of _ False]) simp
    next
      case True
      then have can: "op_can_insert ops c1 req = Some (c1, True)"
        using f(3) lim md by (simp add: K_can_insert [OF r(2)] cache_can_insert_default_def)
      from evict_ranked [OF r(2), of req] True lim f(3) obtain c2 K2 where
        e: "evict_until_fits ops c1 req = Some c2" "R c2 K2" "rank_evict (cache_size c) req K K2"
        "same_limits c1 c2" "admissioner c2 = None" by auto
      have miss: "K2 ?i = None" using rank_evict_subset [OF e(3)] None by (metis domIff map_le_def)
      from K_insert [OF e(2) assms(2) miss] e(5) obtain c3 q where
        i: "op_insert ops c2 req = Some (c3, q)" "same_limits c2 c3" "admissioner c3 = None"
        "R c3 (K2(?i \<mapsto> (prio req, req_obj_size req)))" by auto
      have "cache_get_base ops None c req = Some (c3, False)"
        using f(1) r(1) upd can e(1) i(1) by (auto simp: cache_get_base_def Let_def)
      moreover have "rank_bytes (K2(?i \<mapsto> (prio req, req_obj_size req))) \<le> cache_size c"
        using rank_evict_fits [OF e(3)] by (simp add: rank_bytes_insert [OF K_finite [OF e(2)] miss])
      ultimately show ?thesis using i f(2) e(4) rank_miss [OF None True e(3)]
        by (auto simp: same_limits_def)
    qed
  qed
qed

lemma serve_ranked:
  "R c K \<Longrightarrow> \<forall>req \<in> set reqs. ok_req req \<Longrightarrow> admissioner c = None \<Longrightarrow> rank_bytes K \<le> cache_size c \<Longrightarrow>
   \<exists>c' K' hits. serve ops None c reqs = Some (c', hits) \<and> R c' K'
     \<and> rank_serve prio (cache_size c) K reqs K' hits \<and> same_limits c c'
     \<and> op_get_occupied_byte ops c' \<le> cache_size c"
proof (induction reqs arbitrary: c K)
  case Nil
  then show ?case using K_bytes by (auto intro: rank_nil)
next
  case (Cons req reqs)
  from get_ranked [OF Cons.prems(1) _ Cons.prems(3,4), of req] Cons.prems(2) obtain c1 K1 hit where
    g: "cache_get_base ops None c req = Some (c1, hit)" "R c1 K1" "rank_get prio (cache_size c) req K K1 hit"
    "same_limits c c1" "admissioner c1 = None" "rank_bytes K1 \<le> cache_size c" by auto
  have lim: "cache_size c1 = cache_size c" using g(4) by (simp add: same_limits_def)
  from Cons.IH [OF g(2) _ g(5)] Cons.prems(2) g(6) lim obtain c' K' hits where
    "serve ops None c1 reqs = Some (c', hits)" "R c' K'" "rank_serve prio (cache_size c) K1 reqs K' hits"
    "same_limits c1 c'" "op_get_occupied_byte ops c' \<le> cache_size c" by auto
  then show ?case using g(1) rank_cons [OF g(3)] same_limits_trans [OF g(4)]
    by (intro exI [of _ c'] exI [of _ K'] exI [of _ "hit # hits"]) auto
qed

end

section \<open>Objects and nodes\<close>

text \<open>The fields of an object that tie it to its node.\<close>

definition tie :: "cache_obj \<Rightarrow> obj_id_t \<times> int \<times> ptr" where
  "tie ob = (obj_id ob, obj_size ob, pq_node ob)"

abbreviation ties :: "heap \<Rightarrow> addr \<Rightarrow> obj_id_t \<times> int \<times> ptr" where
  "ties h a \<equiv> tie (the (h a))"

text \<open>Every object has a node of its own with its id, every node and every ranked id has an object.\<close>

definition linked ::
    "(addr \<Rightarrow> obj_id_t \<times> int \<times> ptr) \<Rightarrow> addr set \<Rightarrow> (addr \<rightharpoonup> double \<times> obj_id_t) \<Rightarrow> ranking \<Rightarrow> bool" where
  "linked V A C K \<longleftrightarrow>
     (\<forall>a \<in> A. \<exists>i n x p. V a = (i, n, Some x) \<and> C x = Some (p, i) \<and> K i = Some (p, n))
     \<and> (\<forall>x \<in> dom C. \<exists>a \<in> A. snd (snd (V a)) = Some x) \<and> (\<forall>i \<in> dom K. \<exists>a \<in> A. fst (V a) = i)"

lemma linked_obj:
  assumes "linked V A C K" and "a \<in> A"
  obtains i n x p where "V a = (i, n, Some x)" "C x = Some (p, i)" "K i = Some (p, n)"
  using assms unfolding linked_def by blast

lemma linked_cong: "linked V A C K \<Longrightarrow> (\<And>a. a \<in> A \<Longrightarrow> V' a = V a) \<Longrightarrow> linked V' A C K"
  by (auto simp: linked_def)

lemma linked_node: "linked V A C K \<Longrightarrow> y \<in> dom C \<Longrightarrow> \<exists>a \<in> A. snd (snd (V a)) = Some y"
  by (simp add: linked_def)

lemma linked_id: "linked V A C K \<Longrightarrow> i \<in> dom K \<Longrightarrow> \<exists>a \<in> A. fst (V a) = i"
  by (simp add: linked_def)

lemma linked_ids: "linked V A C K \<Longrightarrow> dom K = (\<lambda>a. fst (V a)) ` A"
proof (rule set_eqI, rule iffI)
  fix i assume l: "linked V A C K" and "i \<in> (\<lambda>a. fst (V a)) ` A"
  then obtain a where "a \<in> A" "i = fst (V a)" by auto
  with linked_obj [OF l this(1)] show "i \<in> dom K" by (metis domI fst_conv)
qed (use linked_id in fastforce)

lemma linked_change:
  assumes "linked V A C K" and "inj_on (\<lambda>a. fst (V a)) A" and "a \<in> A" and "V a = (i, n, Some x)"
  shows "linked V A (C(x \<mapsto> (p, i))) (K(i \<mapsto> (p, n)))"
proof -
  have "\<exists>j m y q. V b = (j, m, Some y) \<and> (C(x \<mapsto> (p, i))) y = Some (q, j) \<and> (K(i \<mapsto> (p, n))) j = Some (q, m)"
    if "b \<in> A" for b
  proof (cases "b = a")
    case False
    from linked_obj [OF assms(1) that] obtain j m y q where
      b: "V b = (j, m, Some y)" "C y = Some (q, j)" "K j = Some (q, m)" by blast
    from linked_obj [OF assms(1,3)] assms(4) obtain q' where x: "C x = Some (q', i)" by auto
    have "j \<noteq> i" using inj_onD [OF assms(2) _ that assms(3)] False b(1) assms(4) by auto
    then have "y \<noteq> x" using b(2) x by auto
    with b \<open>j \<noteq> i\<close> show ?thesis by auto
  qed (use assms(4) in auto)
  moreover have "\<forall>y \<in> dom (C(x \<mapsto> (p, i))). \<exists>b \<in> A. snd (snd (V b)) = Some y"
    using assms(1,3,4) by (auto simp: linked_def intro: bexI [of _ a])
  moreover have "\<forall>j \<in> dom (K(i \<mapsto> (p, n))). \<exists>b \<in> A. fst (V b) = j"
    using assms(1,3,4) by (auto simp: linked_def intro: bexI [of _ a])
  ultimately show ?thesis by (simp add: linked_def)
qed

lemma linked_insert:
  assumes "linked V A C K" and "a \<notin> A" and "K i = None" and "C x = None"
    and "V' a = (i, n, Some x)" and "\<And>b. b \<in> A \<Longrightarrow> V' b = V b"
  shows "linked V' (insert a A) (C(x \<mapsto> (p, i))) (K(i \<mapsto> (p, n)))"
proof -
  have "\<exists>j m y q. V' b = (j, m, Some y) \<and> (C(x \<mapsto> (p, i))) y = Some (q, j) \<and> (K(i \<mapsto> (p, n))) j = Some (q, m)"
    if "b \<in> A" for b
    using linked_obj [OF assms(1) that] assms(3,4,6) that by (metis fun_upd_other option.distinct(1))
  then show ?thesis using assms(1,2,5,6) unfolding linked_def by auto
qed

lemma linked_remove:
  assumes "linked V A C K" and "inj_on (\<lambda>a. fst (V a)) A" and "a \<in> A" and "V a = (i, n, Some x)"
    and "\<And>b. b \<in> A - {a} \<Longrightarrow> V' b = V b"
  shows "linked V' (A - {a}) (C(x := None)) (K(i := None))"
proof -
  from linked_obj [OF assms(1,3)] assms(4) obtain q' where x: "C x = Some (q', i)" by auto
  have other: "\<exists>j m y q. V b = (j, m, Some y) \<and> C y = Some (q, j) \<and> K j = Some (q, m) \<and> j \<noteq> i \<and> y \<noteq> x"
    if "b \<in> A - {a}" for b
  proof -
    from that obtain j m y q where b: "V b = (j, m, Some y)" "C y = Some (q, j)" "K j = Some (q, m)"
      using linked_obj [OF assms(1)] by blast
    have "j \<noteq> i" using inj_onD [OF assms(2) _ _ assms(3)] that b(1) assms(4) by auto
    then show ?thesis using b x by auto
  qed
  then have "\<exists>j m y q. V' b = (j, m, Some y) \<and> (C(x := None)) y = Some (q, j) \<and> (K(i := None)) j = Some (q, m)"
    if "b \<in> A - {a}" for b using that assms(5) by (metis fun_upd_other)
  moreover have "\<exists>b \<in> A - {a}. snd (snd (V' b)) = Some y" if "y \<in> dom (C(x := None))" for y
  proof -
    from that have "y \<in> dom C" by (auto split: if_splits)
    from linked_node [OF assms(1) this] obtain b where b: "b \<in> A" "snd (snd (V b)) = Some y" by blast
    then have "b \<noteq> a" using that assms(4) by auto
    then show ?thesis using b assms(5) by auto
  qed
  moreover have "\<exists>b \<in> A - {a}. fst (V' b) = j" if "j \<in> dom (K(i := None))" for j
  proof -
    from that have "j \<in> dom K" by (auto split: if_splits)
    from linked_id [OF assms(1) this] obtain b where b: "b \<in> A" "fst (V b) = j" by blast
    then have "b \<noteq> a" using that assms(4) by auto
    then show ?thesis using b assms(5) by auto
  qed
  ultimately show ?thesis by (auto simp: linked_def)
qed

section \<open>The abstraction of a cache\<close>

definition pq_ok :: "pq_params \<Rightarrow> (addr \<rightharpoonup> double \<times> obj_id_t) \<Rightarrow> bool" where
  "pq_ok ep C \<longleftrightarrow> pq_R (params_pq ep) (nodes ep) C \<and> dom (nodes ep) = dom C \<and> (\<forall>x \<in> dom C. x < node_brk ep)"

definition ranked_at ::
    "env \<Rightarrow> trace_ids \<Rightarrow> ('a, 'f, pq_params) cache_t \<Rightarrow> addr set \<Rightarrow> (addr \<rightharpoonup> double \<times> obj_id_t) \<Rightarrow> ranking \<Rightarrow> bool" where
  "ranked_at E W c A C K \<longleftrightarrow> cache_ok E W c A \<and> obj_md_size c = 0 \<and> pq_ok (eviction_params c) C
     \<and> linked (ties (store c)) A C K"

definition ranked_R :: "env \<Rightarrow> trace_ids \<Rightarrow> ('a, 'f, pq_params) cache_t \<Rightarrow> ranking \<Rightarrow> bool" where
  "ranked_R E W c K \<longleftrightarrow> (\<exists>A C. ranked_at E W c A C K)"

lemma ranked_atD:
  assumes "ranked_at E W c A C K"
  shows "cache_ok E W c A" "obj_md_size c = 0" "pq_ok (eviction_params c) C" "linked (ties (store c)) A C K"
    "inj_on (\<lambda>a. fst (ties (store c) a)) A"
  using assms cache_ok_ids_inj [of E W c A] by (auto simp: ranked_at_def tie_def intro!: inj_onI)

lemma ranked_n_req: "ranked_R E W c K \<Longrightarrow> ranked_R E W (c\<lparr>n_req := n\<rparr>) K"
  by (simp add: ranked_R_def ranked_at_def)

lemma ranked_finite:
  assumes "ranked_R E W c K"
  shows "finite (dom K)"
proof -
  from assms obtain A C where r: "ranked_at E W c A C K" by (auto simp: ranked_R_def)
  show ?thesis unfolding linked_ids [OF ranked_atD(4) [OF r]]
    using cache_okD(6) [OF ranked_atD(1) [OF r]] by simp
qed

lemma ranked_bytes:
  assumes "ranked_R E W c K"
  shows "occupied_byte c = rank_bytes K" "obj_md_size c = 0"
proof -
  from assms obtain A C where r: "ranked_at E W c A C K" by (auto simp: ranked_R_def)
  note d = ranked_atD [OF r]
  show "obj_md_size c = 0" by (rule d(2))
  have "rank_bytes K = (\<Sum>a \<in> A. snd (the (K (fst (ties (store c) a)))))"
    unfolding rank_bytes_def linked_ids [OF d(4)] by (rule sum.reindex [OF d(5), unfolded comp_def])
  also have "\<dots> = (\<Sum>a \<in> A. obj_bytes c a)"
  proof (rule sum.cong [OF refl])
    fix a assume "a \<in> A"
    from linked_obj [OF d(4) this] obtain i n x p where
      "ties (store c) a = (i, n, Some x)" "C x = Some (p, i)" "K i = Some (p, n)" by blast
    then show "snd (the (K (fst (ties (store c) a)))) = obj_bytes c a"
      using d(2) by (simp add: obj_bytes_def tie_def)
  qed
  finally show "occupied_byte c = rank_bytes K" using cache_okD(5) [OF d(1)] by simp
qed

lemma ranked_init:
  assumes "0 < ccp_hashpower p" and "ccp_hashpower p < 40" and "int (snd W) \<le> ccp_hashpower p"
  shows "ranked_R E W (cache_struct_init name p s pf
    \<lparr>params_pq = pqueue_init n, nodes = Map.empty, node_brk = 0\<rparr>) Map.empty"
  unfolding ranked_R_def ranked_at_def pq_ok_def
  using cache_ok_init [OF assms] pqueue_init_R
  by (intro exI [of _ "{}"] exI [of _ Map.empty]) (simp add: linked_def)

lemma pq_R_dom: "pq_R q h C \<Longrightarrow> dom C \<subseteq> dom h"
  using pq_at_node by (fastforce simp: pq_R_def)

lemma pq_R_free:
  assumes "pq_R q h C" and "C x = None"
  shows "pq_R q (h(x := v)) C"
proof -
  from assms(1) obtain A N where r: "pq_rep q h A N" "heap (pq_size q) (pris A N)" "C = content q A N"
    and len: "length (pq_d q) = pq_avail q" by (auto simp: pq_R_def elim: pq_atE)
  have "A k \<noteq> x" if "1 \<le> k" "k < pq_size q" for k
    using assms(2) r(3) that by (auto simp: content_def cells_def split: if_splits)
  then have "pq_rep q (h(x := v)) A N" using r(1) by (auto simp: pq_rep_def)
  then show ?thesis using r len by (auto simp: pq_R_def pq_at_def)
qed

lemma cache_ok_tie:
  assumes "cache_ok E W c A" and "store c a = Some ob" and "core ob' = core ob"
  shows "cache_ok E W (c\<lparr>store := (store c)(a \<mapsto> ob')\<rparr>) A"
  by (rule cache_ok_store [OF assms(1)], rule same_core_upd) (use assms in auto)

subsection \<open>A hit\<close>

lemma ranked_rerank:
  assumes "ranked_at E W c A C K" and "store c a = Some ob" and "core (f ob) = core ob" and "tie (f ob) = tie ob"
  shows "\<exists>x q h p n. pq_node ob = Some x \<and> K (obj_id ob) = Some (p, n)
    \<and> pqueue_change_priority (params_pq (eviction_params c)) (nodes (eviction_params c)) p' x = Some (q, h)
    \<and> ranked_R E W (c\<lparr>store := (store c)(a \<mapsto> f ob),
        eviction_params := (eviction_params c)\<lparr>params_pq := q, nodes := h\<rparr>\<rparr>) (K(obj_id ob \<mapsto> (p', n)))"
proof -
  note d = ranked_atD [OF assms(1)]
  let ?ep = "eviction_params c" and ?h = "(store c)(a \<mapsto> f ob)"
  have a: "a \<in> A" using assms(2) cache_okD(2) [OF d(1)] by blast
  from linked_obj [OF d(4) a] assms(2) obtain x p n where
    x: "pq_node ob = Some x" "C x = Some (p, obj_id ob)" "K (obj_id ob) = Some (p, n)"
    "ties (store c) a = (obj_id ob, n, Some x)" by (simp add: tie_def) metis
  have pq: "pq_R (params_pq ?ep) (nodes ?ep) C" "dom (nodes ?ep) = dom C" "\<forall>x \<in> dom C. x < node_brk ?ep"
    using d(3) by (auto simp: pq_ok_def)
  from pqueue_change_priority_correct [OF pq(1) x(2)] obtain q h where
    ch: "pqueue_change_priority (params_pq ?ep) (nodes ?ep) p' x = Some (q, h)"
    "pq_R q h (C(x \<mapsto> (p', obj_id ob)))" "pq_frame (dom C) (nodes ?ep) h" by blast
  have "h y = nodes ?ep y" if "y \<notin> dom C" for y using ch(3) that by (simp add: pq_frame_def)
  then have "dom h \<subseteq> dom C" using pq(2) by (metis domIff subsetI)
  moreover have "dom C \<subseteq> dom h" using pq_R_dom [OF ch(2)] by auto
  ultimately have "dom h = dom C" by simp
  then have "pq_ok (?ep\<lparr>params_pq := q, nodes := h\<rparr>) (C(x \<mapsto> (p', obj_id ob)))"
    using ch(2) pq(3) x(2) by (auto simp: pq_ok_def)
  moreover have "linked (ties ?h) A (C(x \<mapsto> (p', obj_id ob))) (K(obj_id ob \<mapsto> (p', n)))"
    by (rule linked_cong [OF linked_change [OF d(4,5) a x(4)]]) (use assms(2,4) in auto)
  ultimately have "ranked_R E W (c\<lparr>store := ?h, eviction_params := ?ep\<lparr>params_pq := q, nodes := h\<rparr>\<rparr>)
      (K(obj_id ob \<mapsto> (p', n)))"
    unfolding ranked_R_def ranked_at_def using cache_ok_tie [OF d(1) assms(2,3)] d(2)
    by (intro exI [of _ A] exI [of _ "C(x \<mapsto> (p', obj_id ob))"]) simp
  then show ?thesis using x ch(1) by blast
qed

subsection \<open>An insertion\<close>

lemma ranked_insert:
  assumes "ranked_R E W c K" and "req_obj_id req \<in> fst W" and "K (req_obj_id req) = None"
    and mark: "\<And>ob x. tie (f x ob) = (obj_id ob, obj_size ob, Some x)" "\<And>ob x. core (f x ob) = core ob"
  shows "\<exists>c1 a ob q h. cache_insert_base E c req = Some (c1, Some a) \<and> store c1 a = Some ob
    \<and> eviction_params c1 = eviction_params c \<and> same_limits c c1 \<and> admissioner c1 = admissioner c
    \<and> (let ep = eviction_params c; x = node_brk ep;
           ns = (nodes ep)(x \<mapsto> \<lparr>pri = p, pq_obj_id = req_obj_id req, pos = 0\<rparr>)
       in pqueue_insert (params_pq ep) ns x = Some (q, h)
         \<and> ranked_R E W (c1\<lparr>store := (store c1)(a \<mapsto> f x ob),
             eviction_params := \<lparr>params_pq = q, nodes = h, node_brk = Suc x\<rparr>\<rparr>)
           (K(req_obj_id req \<mapsto> (p, req_obj_size req))))"
proof -
  from assms(1) obtain A C where r: "ranked_at E W c A C K" by (auto simp: ranked_R_def)
  note d = ranked_atD [OF r]
  let ?ep = "eviction_params c"
  define x where "x = node_brk ?ep"
  define nd where "nd = \<lparr>pri = p, pq_obj_id = req_obj_id req, pos = 0\<rparr>"
  define ns where "ns = (nodes ?ep)(x \<mapsto> nd)"
  have "req_obj_id req \<notin> ids_in (store c) A"
    using assms(3) linked_ids [OF d(4)] by (auto simp: ids_in_def tie_def)
  from insert_base_ok [OF d(1) assms(2) this] obtain h1 ht ob c1 where
    i: "cache_insert_base E c req = Some (c1, Some (brk c))" "cache_ok E W c1 (insert (brk c) A)"
    "hframe A (store c) (h1(brk c := None))" "h1 (brk c) = Some ob" "nohash ob = inserted_obj E c req"
    and c1: "c1 = c\<lparr>store := h1, brk := Suc (brk c), hashtable := ht,
              occupied_byte := occupied_byte c + (req_obj_size req + obj_md_size c), n_obj := n_obj c + 1\<rparr>" by blast
  have ob: "obj_id ob = req_obj_id req" "obj_size ob = req_obj_size req"
    using arg_cong [OF i(5), of obj_id] arg_cong [OF i(5), of obj_size] by simp_all
  have pq: "pq_R (params_pq ?ep) (nodes ?ep) C" "dom (nodes ?ep) = dom C" "\<forall>x \<in> dom C. x < node_brk ?ep"
    using d(3) by (auto simp: pq_ok_def)
  have xC: "C x = None" using pq(3) by (force simp: x_def)
  have new: "ns x = Some nd" by (simp add: ns_def)
  have old: "pq_R (params_pq ?ep) ns C" unfolding ns_def by (rule pq_R_free [OF pq(1) xC])
  have nd: "pri nd = p" "pq_obj_id nd = req_obj_id req" by (simp_all add: nd_def)
  from pqueue_insert_correct [where C = C and a = x and h = ns, OF old xC new, unfolded nd] obtain q h where
    ins: "pqueue_insert (params_pq ?ep) ns x = Some (q, h)" "pq_R q h (C(x \<mapsto> (p, req_obj_id req)))"
    "pq_frame (insert x (dom C)) ns h" by blast
  have "h y = ns y" if "y \<notin> insert x (dom C)" for y using ins(3) that by (simp add: pq_frame_def)
  then have "dom h \<subseteq> insert x (dom C)" using pq(2) by (auto simp: ns_def domIff)
  moreover have "insert x (dom C) \<subseteq> dom h" using pq_R_dom [OF ins(2)] by auto
  ultimately have "dom h = insert x (dom C)" by simp
  then have ok: "pq_ok \<lparr>params_pq = q, nodes = h, node_brk = Suc x\<rparr> (C(x \<mapsto> (p, req_obj_id req)))"
    using ins(2) pq(3) by (auto simp: pq_ok_def x_def less_Suc_eq)
  let ?h = "h1(brk c \<mapsto> f x ob)"
  have fresh: "brk c \<notin> A" by (rule cache_okD(8) [OF d(1)])
  have same: "ties ?h b = ties (store c) b" if "b \<in> A" for b
    using hframe_the [where f = tie and a = b, OF i(3)] that fresh cache_okD(2) [OF d(1)]
    by (auto simp: tie_def nohash_def)
  have "linked (ties ?h) (insert (brk c) A) (C(x \<mapsto> (p, req_obj_id req))) (K(req_obj_id req \<mapsto> (p, req_obj_size req)))"
    by (rule linked_insert [OF d(4) fresh assms(3) xC _ same]) (simp add: mark ob)
  moreover have "cache_ok E W (c1\<lparr>store := ?h\<rparr>) (insert (brk c) A)"
    using cache_ok_tie [OF i(2), of "brk c" ob "f x ob"] i(4) mark(2) c1 by simp
  ultimately have "ranked_R E W (c1\<lparr>store := ?h, eviction_params := \<lparr>params_pq = q, nodes = h, node_brk = Suc x\<rparr>\<rparr>)
      (K(req_obj_id req \<mapsto> (p, req_obj_size req)))"
    unfolding ranked_R_def ranked_at_def using ok d(2) c1
    by (intro exI [of _ "insert (brk c) A"] exI [of _ "C(x \<mapsto> (p, req_obj_id req))"]) simp
  then show ?thesis using i(1,4) ins(1) c1
    by (intro exI [of _ c1] exI [of _ "brk c"] exI [of _ ob] exI [of _ q] exI [of _ h])
      (simp add: x_def ns_def nd_def same_limits_def)
qed

subsection \<open>A removal\<close>

text \<open>The node has left the queue and is freed, and the object forgets it; the object is removed.\<close>

lemma ranked_remove:
  assumes "spread E W" and "ranked_at E W c A C K" and "store c a = Some ob" and "pq_node ob = Some x"
    and "pq_R q h (C(x := None))" and "pq_frame (dom C - {x}) (nodes (eviction_params c)) h"
  shows "\<exists>c'. cache_remove_obj_base E (c\<lparr>store := (store c)(a \<mapsto> ob\<lparr>pq_node := NULL\<rparr>),
        eviction_params := (eviction_params c)\<lparr>params_pq := q, nodes := h(x := None)\<rparr>\<rparr>) (Some a) True = Some c'
    \<and> ranked_R E W c' (K(obj_id ob := None)) \<and> same_limits c c' \<and> admissioner c' = admissioner c"
proof -
  note d = ranked_atD [OF assms(2)]
  let ?ep = "eviction_params c" and ?ob = "ob\<lparr>pq_node := NULL\<rparr>"
  let ?c = "c\<lparr>store := (store c)(a \<mapsto> ?ob), eviction_params := ?ep\<lparr>params_pq := q, nodes := h(x := None)\<rparr>\<rparr>"
  have a: "a \<in> A" using assms(3) cache_okD(2) [OF d(1)] by blast
  have ok: "cache_ok E W ?c A" using cache_ok_tie [OF d(1) assms(3), of ?ob] by (simp add: core_def)
  have "store ?c a = Some ?ob" by simp
  from remove_obj_base_ok [OF assms(1) ok this] obtain h' ht c' where
    rm: "cache_remove_obj_base E ?c (Some a) True = Some c'" "cache_ok E W c' (A - {a})"
    "hframe (A - {a}) ((store ?c)(a := None)) h'"
    and c': "c' = ?c\<lparr>occupied_byte := occupied_byte ?c - (obj_size ?ob + obj_md_size ?c),
              n_obj := n_obj ?c - 1, store := h', hashtable := ht\<rparr>" by blast
  have pq: "dom (nodes ?ep) = dom C" "\<forall>x \<in> dom C. x < node_brk ?ep"
    using d(3) by (auto simp: pq_ok_def)
  have free: "pq_R q (h(x := None)) (C(x := None))" by (rule pq_R_free [OF assms(5)]) simp
  have "h y = nodes ?ep y" if "y \<notin> dom C" for y using assms(6) that by (simp add: pq_frame_def)
  then have "dom h \<subseteq> dom C" using pq(1) by (metis domIff subsetI)
  then have "dom (h(x := None)) \<subseteq> dom (C(x := None))" by auto
  with pq_R_dom [OF free] free have pok: "pq_ok (?ep\<lparr>params_pq := q, nodes := h(x := None)\<rparr>) (C(x := None))"
    using pq(2) by (auto simp: pq_ok_def)
  have same: "ties h' b = ties (store c) b" if "b \<in> A - {a}" for b
    using hframe_the [where f = tie and a = b, OF rm(3)] that cache_okD(2) [OF d(1)]
    by (auto simp: tie_def nohash_def)
  have "ties (store c) a = (obj_id ob, obj_size ob, Some x)" using assms(3,4) by (simp add: tie_def)
  from linked_remove [OF d(4,5) a this same] have
    "linked (ties h') (A - {a}) (C(x := None)) (K(obj_id ob := None))" .
  then have "ranked_R E W c' (K(obj_id ob := None))"
    unfolding ranked_R_def ranked_at_def using rm(2) pok d(2) c'
    by (intro exI [of _ "A - {a}"] exI [of _ "C(x := None)"]) simp
  then show ?thesis using rm(1) c' by (auto simp: same_limits_def)
qed

lemma ranked_lookup:
  assumes "ranked_at E W c A C K" and "K i = Some (p, n)"
  shows "\<exists>a ob x. chained_hashtable_find_obj_id_v2 E (store c) (hashtable c) i = Some (Some a)
    \<and> store c a = Some ob \<and> obj_id ob = i \<and> pq_node ob = Some x \<and> C x = Some (p, i)"
proof -
  note d = ranked_atD [OF assms(1)]
  from linked_id [OF d(4)] assms(2) obtain a where a: "a \<in> A" "fst (ties (store c) a) = i" by blast
  then obtain ob where ob: "store c a = Some ob" using cache_okD(2) [OF d(1)] by blast
  have i: "obj_id ob = i" using a(2) ob by (simp add: tie_def)
  from linked_obj [OF d(4) a(1)] obtain j m x q where
    "ties (store c) a = (j, m, Some x)" "C x = Some (q, j)" "K j = Some (q, m)" by blast
  then have "pq_node ob = Some x" "C x = Some (p, i)" using ob i assms(2) by (auto simp: tie_def)
  moreover have "chained_hashtable_find_obj_id_v2 E (store c) (hashtable c) i = Some (Some a)"
    by (rule find_hit [OF cache_okD(1) [OF d(1)] a(1)]) (use ob i in simp)
  ultimately show ?thesis using ob i by blast
qed

lemma ranked_absent:
  assumes "ranked_at E W c A C K" and "K i = None"
  shows "chained_hashtable_find_obj_id_v2 E (store c) (hashtable c) i = Some NULL" "i \<notin> ids_in (store c) A"
proof -
  note d = ranked_atD [OF assms(1)]
  show "i \<notin> ids_in (store c) A" using assms(2) linked_ids [OF d(4)] by (auto simp: ids_in_def tie_def)
  then show "chained_hashtable_find_obj_id_v2 E (store c) (hashtable c) i = Some NULL"
    by (intro find_miss [OF cache_okD(1) [OF d(1)]]) (force simp: ids_in_def)
qed

text \<open>The steps of an eviction, up to the removal of the object; the node of the victim is the one at the top.\<close>

lemma ranked_evict:
  assumes "spread E W" and "ranked_R E W c K" and "K \<noteq> Map.empty"
  shows "\<exists>q ns x nd a ob c'. pqueue_pop (params_pq (eviction_params c)) (nodes (eviction_params c)) = Some (q, ns, Some x)
    \<and> ns x = Some nd \<and> chained_hashtable_find_obj_id_v2 E (store c) (hashtable c) (pq_obj_id nd) = Some (Some a)
    \<and> pqueue_peek (params_pq (eviction_params c)) = Some (Some x) \<and> nodes (eviction_params c) x = Some nd
    \<and> store c a = Some ob
    \<and> cache_remove_obj_base E (c\<lparr>store := (store c)(a \<mapsto> ob\<lparr>pq_node := NULL\<rparr>),
        eviction_params := (eviction_params c)\<lparr>params_pq := q, nodes := ns(x := None)\<rparr>\<rparr>) (Some a) True = Some c'
    \<and> top_ranked K (obj_id ob) \<and> ranked_R E W c' (K(obj_id ob := None))
    \<and> same_limits c c' \<and> admissioner c' = admissioner c"
proof -
  from assms(2) obtain A C where r: "ranked_at E W c A C K" by (auto simp: ranked_R_def)
  note d = ranked_atD [OF r]
  let ?ep = "eviction_params c"
  have pq: "pq_R (params_pq ?ep) (nodes ?ep) C" using d(3) by (simp add: pq_ok_def)
  then have at: "pq_at (params_pq ?ep) (nodes ?ep) C" and len: "length (pq_d (params_pq ?ep)) = pq_avail (params_pq ?ep)"
    by (auto simp: pq_R_def)
  from assms(3) obtain j where "j \<in> dom K" by fastforce
  then obtain b where "b \<in> A" using linked_id [OF d(4)] by blast
  then have "C \<noteq> Map.empty" using linked_obj [OF d(4)] by (metis option.distinct(1))
  from pqueue_pop_correct [OF at this] obtain q ns x p i where
    pop: "pqueue_pop (params_pq ?ep) (nodes ?ep) = Some (q, ns, Some x)" "pq_at q ns (C(x := None))"
    "C x = Some (p, i)" "\<forall>b p' i'. C b = Some (p', i') \<longrightarrow> p' \<le> p" "pq_frame (dom C - {x}) (nodes ?ep) ns"
    "length (pq_d q) = length (pq_d (params_pq ?ep))" "pq_avail q = pq_avail (params_pq ?ep)"
    "pqueue_peek (params_pq ?ep) = Some (Some x)" by blast
  from pq_at_node [OF at pop(3)] obtain nd where nd: "nodes ?ep x = Some nd" "pq_obj_id nd = i" by blast
  have ns: "ns x = Some nd" using pop(5) nd(1) by (simp add: pq_frame_def)
  from linked_node [OF d(4), of x] pop(3) obtain a where a: "a \<in> A" "snd (snd (ties (store c) a)) = Some x" by blast
  then obtain ob where ob: "store c a = Some ob" using cache_okD(2) [OF d(1)] by blast
  from linked_obj [OF d(4) a(1)] obtain j m y q' where
    l: "ties (store c) a = (j, m, Some y)" "C y = Some (q', j)" "K j = Some (q', m)" by blast
  have id: "obj_id ob = i" "pq_node ob = Some x" "K i = Some (p, m)"
    using l a(2) ob pop(3) by (auto simp: tie_def)
  have top: "top_ranked K i"
  proof -
    have "fst (the (K k)) \<le> p" if k: "k \<in> dom K" for k
    proof -
      from linked_id [OF d(4) k] obtain b where b: "b \<in> A" "fst (ties (store c) b) = k" by blast
      from linked_obj [OF d(4) b(1)] obtain j' m' y' p' where
        "ties (store c) b = (j', m', Some y')" "C y' = Some (p', j')" "K j' = Some (p', m')" by blast
      then show ?thesis using b(2) pop(4) by auto
    qed
    then show ?thesis using id(3) by (auto simp: top_ranked_def)
  qed
  have "pq_R q ns (C(x := None))" using pop(2,6,7) len by (simp add: pq_R_def)
  from ranked_remove [OF assms(1) r ob id(2) this pop(5)] obtain c' where
    c': "cache_remove_obj_base E (c\<lparr>store := (store c)(a \<mapsto> ob\<lparr>pq_node := NULL\<rparr>),
        eviction_params := ?ep\<lparr>params_pq := q, nodes := ns(x := None)\<rparr>\<rparr>) (Some a) True = Some c'"
    "ranked_R E W c' (K(obj_id ob := None))" "same_limits c c'" "admissioner c' = admissioner c" by blast
  have "chained_hashtable_find_obj_id_v2 E (store c) (hashtable c) i = Some (Some a)"
    by (rule find_hit [OF cache_okD(1) [OF d(1)] a(1)]) (use ob id(1) in simp)
  then show ?thesis using pop(1,8) ns nd ob c' top id(1)
    by (intro exI [of _ q] exI [of _ ns] exI [of _ x] exI [of _ nd] exI [of _ a] exI [of _ ob] exI [of _ c']) simp
qed

text \<open>The steps of a removal on request.\<close>

lemma ranked_remove_id:
  assumes "spread E W" and "ranked_R E W c K" and "K i = Some (p, n)"
  shows "\<exists>a ob x q ns c'. chained_hashtable_find_obj_id_v2 E (store c) (hashtable c) i = Some (Some a)
    \<and> store c a = Some ob \<and> pq_node ob = Some x
    \<and> pqueue_remove (params_pq (eviction_params c)) (nodes (eviction_params c)) x = Some (q, ns)
    \<and> cache_remove_obj_base E (c\<lparr>store := (store c)(a \<mapsto> ob\<lparr>pq_node := NULL\<rparr>),
        eviction_params := (eviction_params c)\<lparr>params_pq := q, nodes := ns(x := None)\<rparr>\<rparr>) (Some a) True = Some c'
    \<and> ranked_R E W c' (K(i := None)) \<and> same_limits c c' \<and> admissioner c' = admissioner c"
proof -
  from assms(2) obtain A C where r: "ranked_at E W c A C K" by (auto simp: ranked_R_def)
  from ranked_lookup [OF r assms(3)] obtain a ob x where
    l: "chained_hashtable_find_obj_id_v2 E (store c) (hashtable c) i = Some (Some a)"
    "store c a = Some ob" "obj_id ob = i" "pq_node ob = Some x" "C x = Some (p, i)" by blast
  have pq: "pq_R (params_pq (eviction_params c)) (nodes (eviction_params c)) C"
    using ranked_atD(3) [OF r] by (simp add: pq_ok_def)
  from pqueue_remove_correct [OF pq l(5)] obtain q ns where
    rm: "pqueue_remove (params_pq (eviction_params c)) (nodes (eviction_params c)) x = Some (q, ns)"
    "pq_R q ns (C(x := None))" "pq_frame (dom C - {x}) (nodes (eviction_params c)) ns" by blast
  from ranked_remove [OF assms(1) r l(2,4) rm(2,3)] l rm(1) show ?thesis by blast
qed

end
