(* ===== verification/Belady.thy ===== *)
theory Belady
  imports Ranked_Cache
begin

text \<open>
  Belady's algorithm (\<open>cache/eviction/Belady.c\<close>): a priority queue ordered by the time of the next
  access, from which the object that is needed last is evicted.  The times become \<open>double\<close>.
\<close>

section \<open>Model\<close>

text \<open>\<open>(512UL << 10) / sizeof(void *)\<close>.\<close>

definition Belady_kInitialPQCapacity :: nat where
  "Belady_kInitialPQCapacity = 524288 div 8"

definition Belady_init ::
    "'f \<Rightarrow> common_cache_params_t \<Rightarrow> string option \<Rightarrow> ('a, 'f, pq_params) cache_t" where
  "Belady_init pf0 ccache_params cache_specific_params =
     cache_struct_init ''Belady'' ccache_params cache_specific_params pf0
       \<lparr>params_pq = pqueue_init Belady_kInitialPQCapacity, nodes = Map.empty, node_brk = 0\<rparr>"

definition Belady_remove_obj ::
    "env \<Rightarrow> ('a, 'f, pq_params) cache_t \<Rightarrow> ptr \<Rightarrow> ('a, 'f, pq_params) cache_t option" where
  "Belady_remove_obj E c obj = do {
     let params = eviction_params c;
     ob \<leftarrow> deref (store c) obj;
     c \<leftarrow> (case pq_node ob of
         None \<Rightarrow> Some c
       | Some x \<Rightarrow> do {
           (q, ns) \<leftarrow> pqueue_remove (params_pq params) (nodes params) x;
           h \<leftarrow> upd_obj (store c) obj (\<lambda>ob. ob\<lparr>pq_node := NULL\<rparr>);
           Some (c\<lparr>store := h, eviction_params := params\<lparr>params_pq := q, nodes := ns(x := None)\<rparr>\<rparr>) });
     cache_remove_obj_base E c obj True }"

definition Belady_remove ::
    "env \<Rightarrow> ('a, 'f, pq_params) cache_t \<Rightarrow> obj_id_t \<Rightarrow> (('a, 'f, pq_params) cache_t \<times> bool) option" where
  "Belady_remove E c i = do {
     obj \<leftarrow> chained_hashtable_find_obj_id_v2 E (store c) (hashtable c) i;
     if obj = NULL then Some (c, False)
     else do { c \<leftarrow> Belady_remove_obj E c obj; Some (c, True) } }"

definition Belady_find ::
    "env \<Rightarrow> ('a, 'f, pq_params) cache_t prefetcher_t option \<Rightarrow> ('a, 'f, pq_params) cache_t \<Rightarrow>
     request \<Rightarrow> bool \<Rightarrow> (('a, 'f, pq_params) cache_t \<times> ptr) option" where
  "Belady_find E pf c req update_cache = do {
     (c, cached_obj) \<leftarrow> cache_find_base E pf (Belady_remove E) c req update_cache;
     if \<not> update_cache then Some (c, cached_obj)
     else if cached_obj = NULL then Some (c, NULL)
     else do {
       h \<leftarrow> upd_obj (store c) cached_obj (\<lambda>ob. ob\<lparr>Belady_next_access_vtime := req_next_access_vtime req\<rparr>);
       ob \<leftarrow> deref h cached_obj;
       x \<leftarrow> pq_node ob;
       let params = eviction_params c;
       (q, ns) \<leftarrow> pqueue_change_priority (params_pq params) (nodes params) (double_of_int (req_next_access_vtime req)) x;
       Some (c\<lparr>store := h, eviction_params := params\<lparr>params_pq := q, nodes := ns\<rparr>\<rparr>, cached_obj) } }"

text \<open>
  The position of a new node, which \<open>malloc\<close> leaves unset and \<open>bubble_up\<close> writes before it is read,
  is 0 here.  A request whose next access is \<open>- 1\<close> is an error, which aborts.
\<close>

definition Belady_insert ::
    "env \<Rightarrow> ('a, 'f, pq_params) cache_t \<Rightarrow> request \<Rightarrow> (('a, 'f, pq_params) cache_t \<times> ptr) option" where
  "Belady_insert E c req = (if req_next_access_vtime req = - 1 then None else do {
     (c, cached_obj) \<leftarrow> cache_insert_base E c req;
     let params = eviction_params c;
     let x = node_brk params;
     let ns = (nodes params)(x \<mapsto> \<lparr>pri = double_of_int (req_next_access_vtime req), pq_obj_id = req_obj_id req, pos = 0\<rparr>);
     (q, ns) \<leftarrow> pqueue_insert (params_pq params) ns x;
     h \<leftarrow> upd_obj (store c) cached_obj (\<lambda>ob. ob\<lparr>pq_node := Some x,
       Belady_next_access_vtime := req_next_access_vtime req\<rparr>);
     Some (c\<lparr>store := h, eviction_params := \<lparr>params_pq = q, nodes = ns, node_brk = Suc x\<rparr>\<rparr>, cached_obj) })"

definition Belady_to_evict ::
    "env \<Rightarrow> ('a, 'f, pq_params) cache_t \<Rightarrow> request \<Rightarrow> (('a, 'f, pq_params) cache_t \<times> ptr) option" where
  "Belady_to_evict E c req = do {
     node \<leftarrow> pqueue_peek (params_pq (eviction_params c));
     x \<leftarrow> node;
     nd \<leftarrow> nodes (eviction_params c) x;
     obj \<leftarrow> chained_hashtable_find_obj_id_v2 E (store c) (hashtable c) (pq_obj_id nd);
     Some (c, obj) }"

definition Belady_evict ::
    "env \<Rightarrow> ('a, 'f, pq_params) cache_t prefetcher_t option \<Rightarrow> ('a, 'f, pq_params) cache_t \<Rightarrow>
     request \<Rightarrow> ('a, 'f, pq_params) cache_t option" where
  "Belady_evict E pf c req = do {
     let params = eviction_params c;
     (q, ns, node) \<leftarrow> pqueue_pop (params_pq params) (nodes params);
     x \<leftarrow> node;
     nd \<leftarrow> ns x;
     obj_to_evict \<leftarrow> chained_hashtable_find_obj_id_v2 E (store c) (hashtable c) (pq_obj_id nd);
     h \<leftarrow> upd_obj (store c) obj_to_evict (\<lambda>ob. ob\<lparr>pq_node := NULL\<rparr>);
     cache_evict_base E pf
       (c\<lparr>store := h, eviction_params := params\<lparr>params_pq := q, nodes := ns(x := None)\<rparr>\<rparr>) obj_to_evict True }"

definition Belady_ops ::
    "env \<Rightarrow> ('a, 'f, pq_params) cache_t prefetcher_t option \<Rightarrow> ('a, 'f, pq_params) cache_t cache_ops" where
  "Belady_ops E pf = \<lparr>op_find = Belady_find E pf, op_can_insert = cache_can_insert_default,
     op_insert = Belady_insert E, op_evict = Belady_evict E pf, op_remove = Belady_remove E,
     op_to_evict = Belady_to_evict E, op_get_occupied_byte = cache_get_occupied_byte_default,
     op_get_n_obj = cache_get_n_obj_default\<rparr>"

definition Belady_get ::
    "env \<Rightarrow> ('a, 'f, pq_params) cache_t prefetcher_t option \<Rightarrow> ('a, 'f, pq_params) cache_t \<Rightarrow>
     request \<Rightarrow> (('a, 'f, pq_params) cache_t \<times> bool) option" where
  "Belady_get E pf c req = cache_get_base (Belady_ops E pf) pf c req"

section \<open>Refinement\<close>

definition Belady_prio :: "request \<Rightarrow> double" where
  "Belady_prio req = double_of_int (req_next_access_vtime req)"

lemma Belady_find_ranked:
  assumes "ranked_R E W c K" and "\<not> support_ttl E"
  shows "\<exists>c' p. Belady_find E None c req True = Some (c', p) \<and> same_limits c c' \<and> admissioner c' = admissioner c
    \<and> (case K (req_obj_id req) of None \<Rightarrow> p = NULL \<and> ranked_R E W c' K
       | Some (q, n) \<Rightarrow> p \<noteq> NULL \<and> ranked_R E W c' (K(req_obj_id req \<mapsto> (Belady_prio req, n))))"
proof -
  from assms(1) obtain A C where r: "ranked_at E W c A C K" by (auto simp: ranked_R_def)
  note d = ranked_atD [OF r]
  show ?thesis
  proof (cases "K (req_obj_id req)")
    case None
    then have "Belady_find E None c req True = Some (c, NULL)"
      using find_base_miss [OF d(1) ranked_absent(2) [OF r None]] by (simp add: Belady_find_def)
    then show ?thesis using None assms(1) by simp
  next
    case (Some v)
    obtain p n where v: "v = (p, n)" by (cases v)
    from ranked_lookup [OF r Some [unfolded v]] obtain a ob where
      ob: "store c a = Some ob" "obj_id ob = req_obj_id req" by blast
    have find: "cache_find_base E None (Belady_remove E) c req True
        = Some (c\<lparr>store := (store c)(a \<mapsto> touched req ob)\<rparr>, Some a)"
      using find_base_hit [OF d(1) ob(1,2)] assms(2) by (simp add: expired_def)
    let ?f = "\<lambda>ob. (touched req ob)\<lparr>Belady_next_access_vtime := req_next_access_vtime req\<rparr>"
    have "core (?f ob) = core ob" "tie (?f ob) = tie ob" by (simp_all add: core_def tie_def touched_def)
    from ranked_rerank [where f = ?f, OF r ob(1) this, of "Belady_prio req"] ob(2) Some v obtain x q h where
      ch: "pq_node ob = Some x"
      "pqueue_change_priority (params_pq (eviction_params c)) (nodes (eviction_params c)) (Belady_prio req) x = Some (q, h)"
      "ranked_R E W (c\<lparr>store := (store c)(a \<mapsto> ?f ob),
        eviction_params := (eviction_params c)\<lparr>params_pq := q, nodes := h\<rparr>\<rparr>) (K(req_obj_id req \<mapsto> (Belady_prio req, n)))"
      by auto
    have "pq_node (touched req ob) = Some x" using ch(1) by (simp add: touched_def)
    then have "Belady_find E None c req True = Some (c\<lparr>store := (store c)(a \<mapsto> ?f ob),
        eviction_params := (eviction_params c)\<lparr>params_pq := q, nodes := h\<rparr>\<rparr>, Some a)"
      using find ch(2) by (simp add: Belady_find_def Belady_prio_def upd_obj_def)
    then show ?thesis using ch(3) Some v by simp
  qed
qed

lemma Belady_insert_ranked:
  assumes "ranked_R E W c K" and "req_obj_id req \<in> fst W" and "K (req_obj_id req) = None"
    and "req_next_access_vtime req \<noteq> - 1"
  shows "\<exists>c' p. Belady_insert E c req = Some (c', p) \<and> same_limits c c' \<and> admissioner c' = admissioner c
    \<and> ranked_R E W c' (K(req_obj_id req \<mapsto> (Belady_prio req, req_obj_size req)))"
proof -
  let ?f = "\<lambda>x ob. ob\<lparr>pq_node := Some x, Belady_next_access_vtime := req_next_access_vtime req\<rparr>"
  have f: "tie (?f x ob) = (obj_id ob, obj_size ob, Some x)" "core (?f x ob) = core ob" for x ob
    by (simp_all add: tie_def core_def)
  from ranked_insert [where f = ?f and p = "Belady_prio req", OF assms(1-3) f] show ?thesis
    using assms by (auto simp: Belady_insert_def Belady_prio_def Let_def upd_obj_def same_limits_def)
qed

lemma Belady_evict_ranked:
  assumes "spread E W" and "ranked_R E W c K" and "K \<noteq> Map.empty"
  shows "\<exists>c' i. Belady_evict E None c req = Some c' \<and> same_limits c c' \<and> admissioner c' = admissioner c
    \<and> top_ranked K i \<and> ranked_R E W c' (K(i := None))"
proof -
  from ranked_evict [OF assms] obtain q ns x nd a ob c' where
    e: "pqueue_pop (params_pq (eviction_params c)) (nodes (eviction_params c)) = Some (q, ns, Some x)"
    "ns x = Some nd" "chained_hashtable_find_obj_id_v2 E (store c) (hashtable c) (pq_obj_id nd) = Some (Some a)"
    "store c a = Some ob"
    "cache_remove_obj_base E (c\<lparr>store := (store c)(a \<mapsto> ob\<lparr>pq_node := NULL\<rparr>),
        eviction_params := (eviction_params c)\<lparr>params_pq := q, nodes := ns(x := None)\<rparr>\<rparr>) (Some a) True = Some c'"
    "top_ranked K (obj_id ob)" "ranked_R E W c' (K(obj_id ob := None))" "same_limits c c'"
    "admissioner c' = admissioner c" by blast
  then have "Belady_evict E None c req = Some c'" by (simp add: Belady_evict_def upd_obj_def)
  with e show ?thesis by blast
qed

abbreviation Belady_request :: "trace_ids \<Rightarrow> request \<Rightarrow> bool" where
  "Belady_request W req \<equiv> req_obj_id req \<in> fst W \<and> req_next_access_vtime req \<noteq> - 1"

interpretation belady: ranked_policy "Belady_ops E None"
    "\<lambda>c K. spread E W \<and> \<not> support_ttl E \<and> ranked_R E W c K" Belady_prio "Belady_request W"
  for E W
proof
  fix c :: "('a, 'b, pq_params) cache_t" and K req n
  assume R: "spread E W \<and> \<not> support_ttl E \<and> ranked_R E W c K"
  show "spread E W \<and> \<not> support_ttl E \<and> ranked_R E W (c\<lparr>n_req := n\<rparr>) K" using R ranked_n_req by blast
  show "finite (dom K)" using R ranked_finite by blast
  show "op_get_occupied_byte (Belady_ops E None) c = rank_bytes K \<and> obj_md_size c = 0"
    using R ranked_bytes [of E W c K] by (simp add: Belady_ops_def cache_get_occupied_byte_default_def)
  show "op_can_insert (Belady_ops E None) c req = cache_can_insert_default c req" by (simp add: Belady_ops_def)
  show "\<exists>c' p. op_find (Belady_ops E None) c req True = Some (c', p) \<and> same_limits c c' \<and> admissioner c' = admissioner c
        \<and> (case K (req_obj_id req) of None \<Rightarrow> p = NULL \<and> spread E W \<and> \<not> support_ttl E \<and> ranked_R E W c' K
           | Some (q, n) \<Rightarrow> p \<noteq> NULL \<and> spread E W \<and> \<not> support_ttl E
               \<and> ranked_R E W c' (K(req_obj_id req \<mapsto> (Belady_prio req, n))))"
    using Belady_find_ranked [of E W c K req] R by (auto simp: Belady_ops_def split: option.splits)
  show "\<exists>c' i. op_evict (Belady_ops E None) c req = Some c' \<and> same_limits c c' \<and> admissioner c' = admissioner c
      \<and> top_ranked K i \<and> spread E W \<and> \<not> support_ttl E \<and> ranked_R E W c' (K(i := None))" if "K \<noteq> Map.empty"
    using Belady_evict_ranked [of E W c K req] R that by (simp add: Belady_ops_def)
  show "\<exists>c' p. op_insert (Belady_ops E None) c req = Some (c', p) \<and> same_limits c c' \<and> admissioner c' = admissioner c
      \<and> spread E W \<and> \<not> support_ttl E \<and> ranked_R E W c' (K(req_obj_id req \<mapsto> (Belady_prio req, req_obj_size req)))"
    if "Belady_request W req" "K (req_obj_id req) = None"
    using Belady_insert_ranked [of E W c K req] R that by (simp add: Belady_ops_def)
qed

lemma Belady_remove_ranked:
  assumes "spread E W" and "ranked_R E W c K"
  shows "\<exists>c'. Belady_remove E c i = Some (c', K i \<noteq> None) \<and> ranked_R E W c' (K(i := None)) \<and> same_limits c c'"
proof (cases "K i")
  case None
  from assms(2) obtain A C where r: "ranked_at E W c A C K" by (auto simp: ranked_R_def)
  have "K(i := None) = K" using None by auto
  then show ?thesis using ranked_absent(1) [OF r None] None assms(2) by (simp add: Belady_remove_def)
next
  case (Some v)
  from ranked_remove_id [OF assms, of i "fst v" "snd v"] Some obtain a ob x q ns c' where
    e: "chained_hashtable_find_obj_id_v2 E (store c) (hashtable c) i = Some (Some a)"
    "store c a = Some ob" "pq_node ob = Some x"
    "pqueue_remove (params_pq (eviction_params c)) (nodes (eviction_params c)) x = Some (q, ns)"
    "cache_remove_obj_base E (c\<lparr>store := (store c)(a \<mapsto> ob\<lparr>pq_node := NULL\<rparr>),
        eviction_params := (eviction_params c)\<lparr>params_pq := q, nodes := ns(x := None)\<rparr>\<rparr>) (Some a) True = Some c'"
    "ranked_R E W c' (K(i := None))" "same_limits c c'" by auto
  then show ?thesis using Some by (simp add: Belady_remove_def Belady_remove_obj_def upd_obj_def)
qed

lemma Belady_init_ranked:
  assumes "0 < ccp_hashpower p" and "ccp_hashpower p < 40" and "int (snd W) \<le> ccp_hashpower p"
  shows "ranked_R E W (Belady_init pf0 p s) Map.empty"
  unfolding Belady_init_def by (rule ranked_init [OF assms])

lemma Belady_init_fields [simp]:
  "cache_size (Belady_init pf0 p s) = ccp_cache_size p" "admissioner (Belady_init pf0 p s) = None"
  by (simp_all add: Belady_init_def)

section \<open>Properties\<close>



text \<open>
  The victim of Belady.  In every non-empty state the eviction succeeds, and the object it removes
  is the one that \<open>Belady_to_evict\<close> names and has the highest priority of all objects in the cache.
\<close>

theorem Belady_evicts_top:
  assumes "spread E W" and "ranked_R E W c K" and "K \<noteq> Map.empty"
  shows "\<exists>c' a ob. Belady_evict E None c req = Some c' \<and> Belady_to_evict E c req = Some (c, Some a)
    \<and> store c a = Some ob \<and> top_ranked K (obj_id ob) \<and> ranked_R E W c' (K(obj_id ob := None))"
proof -
  from ranked_evict [OF assms] obtain q ns x nd a ob c' where
    e: "pqueue_pop (params_pq (eviction_params c)) (nodes (eviction_params c)) = Some (q, ns, Some x)"
    "ns x = Some nd" "chained_hashtable_find_obj_id_v2 E (store c) (hashtable c) (pq_obj_id nd) = Some (Some a)"
    "pqueue_peek (params_pq (eviction_params c)) = Some (Some x)" "nodes (eviction_params c) x = Some nd"
    "store c a = Some ob"
    "cache_remove_obj_base E (c\<lparr>store := (store c)(a \<mapsto> ob\<lparr>pq_node := NULL\<rparr>),
        eviction_params := (eviction_params c)\<lparr>params_pq := q, nodes := ns(x := None)\<rparr>\<rparr>) (Some a) True = Some c'"
    "top_ranked K (obj_id ob)" "ranked_R E W c' (K(obj_id ob := None))" by blast
  have "Belady_evict E None c req = Some c'" using e by (simp add: Belady_evict_def upd_obj_def)
  moreover have "Belady_to_evict E c req = Some (c, Some a)" using e by (simp add: Belady_to_evict_def)
  ultimately show ?thesis using e by blast
qed

theorem Belady_evicts_top_witness:
  "\<exists>(c :: (unit, unit, pq_params) cache_t) c' a ob K. Belady_evict sample_env None c (sample_req 2 1) = Some c'
    \<and> Belady_to_evict sample_env c (sample_req 2 1) = Some (c, Some a) \<and> store c a = Some ob \<and> top_ranked K (obj_id ob)
    \<and> ranked_R sample_env sample_ids c' (K(obj_id ob := None))"
proof -
  have R: "ranked_R sample_env sample_ids (Belady_init () (sample_params 2) None :: (unit, unit, pq_params) cache_t) Map.empty"
    by (rule Belady_init_ranked) simp_all
  have "req_obj_id (sample_req 1 1) \<in> fst sample_ids" by simp
  from Belady_insert_ranked [OF R this] obtain c where
    "ranked_R sample_env sample_ids (c :: (unit, unit, pq_params) cache_t) [1 \<mapsto> (Belady_prio (sample_req 1 1), 1)]"
    by (auto simp: sample_req_def new_request_def)
  from Belady_evicts_top [OF sample_spread(2) this, of "sample_req 2 1"] show ?thesis by (metis map_upd_nonempty)
qed

end
