(* ===== verification/Belady_Opt.thy ===== *)
theory Belady_Opt
  imports Belady LRU FIFO
begin

text \<open>
  Belady's algorithm is optimal.  On a trace of objects of one size whose requests carry the position
  of the next request for the same object, no way of running a cache of the same size that stores
  every requested object has more hits than the code of \<open>Belady.c\<close>; in particular the code of
  \<open>LRU.c\<close> and of \<open>FIFO.c\<close> has not.  The first part is the exchange argument on sets of ids, the second
  relates it to the ranking that the priority queue keeps.
\<close>

section \<open>Runs of a cache\<close>

text \<open>
  A run keeps at most \<open>k\<close> objects; after a request the requested object is among them, and every
  other one was there before.  It may drop what it likes.
\<close>

inductive demand_run :: "nat \<Rightarrow> 'i set \<Rightarrow> 'i list \<Rightarrow> nat \<Rightarrow> bool" for k where
  run_nil: "demand_run k S [] 0"
| run_step: "r \<in> S' \<Longrightarrow> S' \<subseteq> Set.insert r S \<Longrightarrow> finite S' \<Longrightarrow> card S' \<le> k \<Longrightarrow> demand_run k S' rs n \<Longrightarrow>
    demand_run k S (r # rs) ((if r \<in> S then 1 else 0) + n)"

inductive_cases run_nilE: "demand_run k S [] n"
inductive_cases run_consE: "demand_run k S (r # rs) n"

lemma run_step_ge:
  assumes "r \<in> S'" and "S' \<subseteq> Set.insert r S" and "finite S'" and "card S' \<le> k" and "demand_run k S' rs m"
    and "n \<le> (if r \<in> S then 1 else 0) + m + d"
  shows "\<exists>m. demand_run k S (r # rs) m \<and> n \<le> m + d"
  using run_step [OF assms(1-5)] assms(6) by (intro exI [of _ "(if r \<in> S then 1 else 0) + m"]) simp

text \<open>More objects do not hurt.\<close>

lemma run_mono:
  assumes "demand_run k S rs n" and "S \<subseteq> T"
  shows "\<exists>m. demand_run k T rs m \<and> n \<le> m"
  using assms(1)
proof cases
  case run_nil
  then show ?thesis using demand_run.run_nil by blast
next
  case (run_step r S' rs' n')
  have "S' \<subseteq> Set.insert r T" using run_step(4) assms(2) by blast
  from run_step_ge [OF run_step(3) this run_step(5-7), of n 0] show ?thesis
    using run_step(1,2) assms(2) by auto
qed

text \<open>One object less costs at most one hit.\<close>

lemma run_without:
  "demand_run k (Set.insert x U) rs n \<Longrightarrow> \<exists>m. demand_run k U rs m \<and> n \<le> Suc m"
proof (induction rs arbitrary: U n)
  case Nil
  then show ?case by (auto elim: run_nilE intro: run_nil)
next
  case (Cons r rs)
  from Cons.prems obtain S' n' where
    s: "r \<in> S'" "S' \<subseteq> Set.insert r (Set.insert x U)" "finite S'" "card S' \<le> k" "demand_run k S' rs n'"
    "n = (if r \<in> Set.insert x U then 1 else 0) + n'" by (elim run_consE) auto
  show ?case
  proof (cases "r = x \<or> x \<notin> S'")
    case True
    then have "S' \<subseteq> Set.insert r U" using s(2) by auto
    from run_step_ge [OF s(1) this s(3-5), of n 1] show ?thesis using s(6) by (auto split: if_splits)
  next
    case False
    let ?T = "S' - {x}"
    have "demand_run k (Set.insert x ?T) rs n'" using s(5) False by (simp add: insert_absorb)
    from Cons.IH [OF this] obtain m where m: "demand_run k ?T rs m" "n' \<le> Suc m" by blast
    have "r \<in> ?T" "?T \<subseteq> Set.insert r U" "finite ?T" "card ?T \<le> k"
      using s(1-4) False card_Diff1_le [of S' x] by auto
    from run_step_ge [OF this m(1), of n 1] show ?thesis using s(6) m(2) False by (auto split: if_splits)
  qed
qed

text \<open>Of two objects, the one that is needed first is the better one to have.\<close>

lemma run_exchange:
  "demand_run k (Set.insert x T) rs n \<Longrightarrow> x \<notin> set (takeWhile (\<lambda>r. r \<noteq> y) rs) \<Longrightarrow> x \<noteq> y \<Longrightarrow> y \<notin> T \<Longrightarrow>
   \<exists>m. demand_run k (Set.insert y T) rs m \<and> n \<le> m"
proof (induction rs arbitrary: T n)
  case Nil
  then show ?case by (auto elim: run_nilE intro: run_nil)
next
  case (Cons r rs)
  from Cons.prems(1) obtain S' n' where
    s: "r \<in> S'" "S' \<subseteq> Set.insert r (Set.insert x T)" "finite S'" "card S' \<le> k" "demand_run k S' rs n'"
    "n = (if r \<in> Set.insert x T then 1 else 0) + n'" by (elim run_consE) auto
  show ?case
  proof (cases "r = y")
    case True
    then have n: "n = n'" using s(6) Cons.prems(3,4) by auto
    show ?thesis
    proof (cases "x \<in> S'")
      case False
      then have "S' \<subseteq> Set.insert r (Set.insert y T)" using s(2) by auto
      from run_step_ge [OF s(1) this s(3-5), of n 0] show ?thesis using n by simp
    next
      case x: True
      let ?T = "S' - {x}"
      have "demand_run k (Set.insert x ?T) rs n'" using s(5) x by (simp add: insert_absorb)
      from run_without [OF this] obtain m where m: "demand_run k ?T rs m" "n' \<le> Suc m" by blast
      have "r \<in> ?T" "?T \<subseteq> Set.insert r (Set.insert y T)" "finite ?T" "card ?T \<le> k"
        using s(1-4) True Cons.prems(3) card_Diff1_le [of S' x] by auto
      from run_step_ge [OF this m(1), of n 0] show ?thesis using n m(2) True by simp
    qed
  next
    case False
    then have rx: "r \<noteq> x" and rest: "x \<notin> set (takeWhile (\<lambda>r. r \<noteq> y) rs)" using Cons.prems(2) by auto
    show ?thesis
    proof (cases "x \<in> S'")
      case out: False
      then have "S' \<subseteq> Set.insert r (Set.insert y T)" using s(2) by auto
      from run_step_ge [OF s(1) this s(3-5), of n 0] show ?thesis using s(6) False rx by simp
    next
      case True
      let ?T = "S' - {x}"
      have y: "y \<notin> ?T" using s(2) Cons.prems(3,4) False by auto
      have "demand_run k (Set.insert x ?T) rs n'" using s(5) True by (simp add: insert_absorb)
      from Cons.IH [OF this rest Cons.prems(3) y] obtain m where
        m: "demand_run k (Set.insert y ?T) rs m" "n' \<le> m" by blast
      have "card (Set.insert y ?T) = card S'" using y s(3) card_Suc_Diff1 [OF s(3) True] by simp
      then have "r \<in> Set.insert y ?T" "Set.insert y ?T \<subseteq> Set.insert r (Set.insert y T)"
        "finite (Set.insert y ?T)" "card (Set.insert y ?T) \<le> k" using s(1-4) rx by auto
      from run_step_ge [OF this m(1), of n 0] show ?thesis using s(6) m(2) False rx by simp
    qed
  qed
qed

text \<open>
  A cache that drops, when it is full, an object that is needed after all others: after each of its
  steps it can do at least as well as after any other step.
\<close>

lemma furthest_step:
  assumes "demand_run k S' rs n" and "r \<in> S'" and "S' \<subseteq> Set.insert r S" and "card S' \<le> k"
    and "finite S" and "card S = k" and "r \<notin> S" and "x \<in> S"
    and "\<And>y. y \<in> S \<Longrightarrow> y \<noteq> x \<Longrightarrow> x \<notin> set (takeWhile (\<lambda>r. r \<noteq> y) rs)"
  shows "\<exists>m. demand_run k (Set.insert r (S - {x})) rs m \<and> n \<le> m"
proof -
  have "\<not> Set.insert r S \<subseteq> S'"
  proof
    assume "Set.insert r S \<subseteq> S'"
    then have "card (Set.insert r S) \<le> card S'"
      using assms(3,5) by (meson card_mono finite_insert finite_subset)
    then show False using assms(4-7) by simp
  qed
  then obtain z where z: "z \<in> S" "z \<notin> S'" using assms(2) by auto
  then have "S' \<subseteq> Set.insert r (S - {z})" using assms(3) by auto
  from run_mono [OF assms(1) this] obtain m where m: "demand_run k (Set.insert r (S - {z})) rs m" "n \<le> m" by blast
  show ?thesis
  proof (cases "z = x")
    case True
    then show ?thesis using m by blast
  next
    case False
    let ?T = "Set.insert r (S - {x, z})"
    have e: "Set.insert r (S - {z}) = Set.insert x ?T" "Set.insert r (S - {x}) = Set.insert z ?T"
      using assms(8) z(1) False by auto
    have "z \<notin> ?T" using z(1) assms(7) by auto
    from run_exchange [OF m(1) [unfolded e(1)] assms(9) [OF z(1) False] _ this] False m(2)
    show ?thesis unfolding e(2) by (metis order_trans)
  qed
qed

section \<open>The next access\<close>

definition INT64_MAX :: int where
  "INT64_MAX = 2 ^ 63 - 1"

text \<open>The position of the next request for an object, counted from \<open>t\<close>, and a trace that carries it.\<close>

fun next_from :: "nat \<Rightarrow> request list \<Rightarrow> obj_id_t \<Rightarrow> int" where
  "next_from t [] i = INT64_MAX"
| "next_from t (req # reqs) i = (if req_obj_id req = i then int t else next_from (t + 1) reqs i)"

fun annotated :: "nat \<Rightarrow> request list \<Rightarrow> bool" where
  "annotated t [] = True"
| "annotated t (req # reqs) \<longleftrightarrow>
    req_next_access_vtime req = next_from (t + 1) reqs (req_obj_id req) \<and> annotated (t + 1) reqs"

lemma next_from_cases: "next_from t reqs i = INT64_MAX \<or> int t \<le> next_from t reqs i \<and> next_from t reqs i < int (t + length reqs)"
  by (induction t reqs i rule: next_from.induct) auto

lemma double_INT64_MAX: "double_of_int INT64_MAX = 2 ^ 63"
  unfolding INT64_MAX_def by code_simp

lemma next_from_order:
  assumes "t + length reqs < 2 ^ 53" and "next_from t reqs i < next_from t reqs j"
  shows "double_of_int (next_from t reqs i) < double_of_int (next_from t reqs j)"
proof -
  have small: "double_of_int (next_from t reqs i) = of_int (next_from t reqs i)"
    if "next_from t reqs i \<noteq> INT64_MAX" for i
  proof -
    have "next_from t reqs i < int (t + length reqs)" "0 \<le> next_from t reqs i"
      using next_from_cases [of t reqs i] that by auto
    moreover have "int (t + length reqs) < 2 ^ 53" using assms(1) by (metis of_nat_less_iff of_nat_numeral of_nat_power)
    ultimately show ?thesis by (intro double_of_int_exact) auto
  qed
  have lt: "next_from t reqs i < 2 ^ 53" "next_from t reqs i \<noteq> INT64_MAX"
    using next_from_cases [of t reqs i] next_from_cases [of t reqs j] assms by (auto simp: INT64_MAX_def)
  show ?thesis
  proof (cases "next_from t reqs j = INT64_MAX")
    case True
    have "(of_int (next_from t reqs i) :: double) < of_int (2 ^ 53)" using lt(1) by (simp only: of_int_less_iff)
    then show ?thesis using small [OF lt(2)] True by (simp add: double_INT64_MAX)
  next
    case False
    then show ?thesis using small [OF lt(2)] small [OF False] assms(2) by simp
  qed
qed

text \<open>An object whose next access is not earlier is not requested before the other one.\<close>

lemma next_from_furthest:
  "next_from t reqs y \<le> next_from t reqs x \<Longrightarrow> x \<noteq> y \<Longrightarrow> t + length reqs < 2 ^ 53 \<Longrightarrow>
   x \<notin> set (takeWhile (\<lambda>r. r \<noteq> y) (map req_obj_id reqs))"
proof (induction t reqs y rule: next_from.induct)
  case (2 t req reqs y)
  show ?case
  proof (cases "req_obj_id req = y")
    case False
    have "req_obj_id req \<noteq> x"
    proof
      assume "req_obj_id req = x"
      then have "next_from (t + 1) reqs y \<le> int t" using 2(2,3) by auto
      then show False using next_from_cases [of "t + 1" reqs y] 2(4) by (auto simp: INT64_MAX_def)
    qed
    then show ?thesis using 2 False by auto
  qed simp
qed simp

section \<open>The ranking\<close>

text \<open>The priorities are the next accesses, and all sizes are 1.\<close>

definition ranks_next :: "nat \<Rightarrow> request list \<Rightarrow> ranking \<Rightarrow> bool" where
  "ranks_next t reqs K \<longleftrightarrow> (\<forall>i \<in> dom K. K i = Some (double_of_int (next_from t reqs i), 1))"

lemma ranks_next_bytes: "ranks_next t reqs K \<Longrightarrow> rank_bytes K = int (card (dom K))"
  by (auto simp: ranks_next_def rank_bytes_def intro!: sum.cong [of _ _ _ "\<lambda>_. 1", THEN trans])

lemma ranks_next_subset: "ranks_next t reqs K \<Longrightarrow> K' \<subseteq>\<^sub>m K \<Longrightarrow> ranks_next t reqs K'"
  by (auto simp: ranks_next_def map_le_def dom_def)

lemma top_ranked_furthest:
  assumes "ranks_next t reqs K" and "top_ranked K x" and "y \<in> dom K" and "y \<noteq> x" and "t + length reqs < 2 ^ 53"
  shows "x \<notin> set (takeWhile (\<lambda>r. r \<noteq> y) (map req_obj_id reqs))"
proof (rule next_from_furthest)
  have "fst (the (K y)) \<le> fst (the (K x))" "x \<in> dom K" using assms(2,3) by (auto simp: top_ranked_def)
  then have "double_of_int (next_from t reqs y) \<le> double_of_int (next_from t reqs x)"
    using assms(1,3) by (auto simp: ranks_next_def)
  then show "next_from t reqs y \<le> next_from t reqs x" using next_from_order [OF assms(5), of x y] by linarith
qed (use assms in auto)

text \<open>An eviction for an object of size 1 drops at most one object.\<close>

lemma rank_evict_unit:
  assumes "rank_evict (int k) req K K'" and "ranks_next t reqs K" and "req_obj_size req = 1"
    and "finite (dom K)" and "card (dom K) \<le> k" and "0 < k"
  shows "(card (dom K) < k \<and> K' = K) \<or> (card (dom K) = k \<and> (\<exists>x. top_ranked K x \<and> K' = K(x := None)))"
  using assms(1)
proof cases
  case rank_fits
  then show ?thesis using ranks_next_bytes [OF assms(2)] assms(3) by auto
next
  case (rank_drop x)
  note b = ranks_next_bytes [OF assms(2)]
  have full: "card (dom K) = k" using rank_drop(1) b assms(3,5) by auto
  have x: "x \<in> dom K" using rank_drop(2) by (simp add: top_ranked_def)
  have "ranks_next t reqs (K(x := None))" by (rule ranks_next_subset [OF assms(2)]) (simp add: map_le_def)
  from ranks_next_bytes [OF this] have "rank_bytes (K(x := None)) = int k - 1"
    using x assms(4,6) full by (simp add: card_Diff_singleton of_nat_diff)
  with rank_drop(3) have "K' = K(x := None)" by (cases rule: rank_evict.cases) (use assms(3) in auto)
  then show ?thesis using full rank_drop(2) by blast
qed

text \<open>After a request to the ranked cache, it can do at least as well as after any other step.\<close>

lemma rank_get_best:
  assumes "rank_get Belady_prio (int k) req K K1 hit" and "ranks_next t (req # reqs) K" and "annotated t (req # reqs)"
    and "req_obj_size req = 1" and "finite (dom K)" and "card (dom K) \<le> k" and "0 < k"
    and "t + length (req # reqs) < 2 ^ 53"
  shows "hit \<longleftrightarrow> req_obj_id req \<in> dom K" and "ranks_next (t + 1) reqs K1" and "finite (dom K1)"
    and "card (dom K1) \<le> k" and "req_obj_id req \<in> dom K1" and "dom K1 \<subseteq> Set.insert (req_obj_id req) (dom K)"
    and "\<And>S' n. req_obj_id req \<in> S' \<Longrightarrow> S' \<subseteq> Set.insert (req_obj_id req) (dom K) \<Longrightarrow> card S' \<le> k \<Longrightarrow>
      demand_run k S' (map req_obj_id reqs) n \<Longrightarrow> \<exists>m. demand_run k (dom K1) (map req_obj_id reqs) m \<and> n \<le> m"
proof -
  let ?i = "req_obj_id req" and ?rs = "map req_obj_id reqs"
  have prio: "Belady_prio req = double_of_int (next_from (t + 1) reqs ?i)"
    using assms(3) by (simp add: Belady_prio_def)
  have keep: "ranks_next (t + 1) reqs (K'(?i \<mapsto> (Belady_prio req, 1)))" if "K' \<subseteq>\<^sub>m K" for K'
    using ranks_next_subset [OF assms(2) that] prio by (auto simp: ranks_next_def)
  have "(hit \<longleftrightarrow> ?i \<in> dom K) \<and> ranks_next (t + 1) reqs K1 \<and> finite (dom K1) \<and> card (dom K1) \<le> k \<and> ?i \<in> dom K1
    \<and> dom K1 \<subseteq> Set.insert ?i (dom K)
    \<and> (\<forall>S' n. ?i \<in> S' \<longrightarrow> S' \<subseteq> Set.insert ?i (dom K) \<longrightarrow> card S' \<le> k \<longrightarrow> demand_run k S' ?rs n \<longrightarrow>
      (\<exists>m. demand_run k (dom K1) ?rs m \<and> n \<le> m))"
    using assms(1)
  proof (cases rule: rank_get.cases)
    case (rank_hit p n)
    have "?i \<in> dom K" using rank_hit(3) by blast
    then have "K ?i = Some (double_of_int (next_from t (req # reqs) ?i), 1)" using assms(2) by (simp add: ranks_next_def)
    then have n: "n = 1" "K1 = K(?i \<mapsto> (Belady_prio req, 1))" "dom K1 = dom K" using rank_hit by auto
    have "\<exists>m. demand_run k (dom K1) ?rs m \<and> n \<le> m" if "S' \<subseteq> Set.insert ?i (dom K)" "demand_run k S' ?rs n" for S' n
      using run_mono [OF that(2), of "dom K1"] that(1) \<open>?i \<in> dom K\<close> n(3) by auto
    then show ?thesis using keep [of K] n rank_hit(2) \<open>?i \<in> dom K\<close> assms(5,6) by auto
  next
    case rank_big
    then show ?thesis using assms(4,7) by simp
  next
    case (rank_miss K2)
    have new: "?i \<notin> dom K" using rank_miss(3) by auto
    from rank_evict_unit [OF rank_miss(5) assms(2,4,5,6,7)] consider
      (room) "card (dom K) < k" "K2 = K" | (full) x where "card (dom K) = k" "top_ranked K x" "K2 = K(x := None)" by blast
    then show ?thesis
    proof cases
      case room
      have dom: "dom K1 = Set.insert ?i (dom K)" using rank_miss(1) room(2) by simp
      have "\<exists>m. demand_run k (dom K1) ?rs m \<and> n \<le> m" if "S' \<subseteq> Set.insert ?i (dom K)" "demand_run k S' ?rs n" for S' n
        using run_mono [OF that(2), of "dom K1"] that(1) dom by auto
      then show ?thesis using keep [of K] rank_miss(1,2) room dom new assms(4,5) by auto
    next
      case full
      have x: "x \<in> dom K" using full(2) by (simp add: top_ranked_def)
      have dom: "dom K1 = Set.insert ?i (dom K - {x})" using rank_miss(1) full(3) by simp
      have "\<exists>m. demand_run k (dom K1) ?rs m \<and> n \<le> m"
        if "?i \<in> S'" "S' \<subseteq> Set.insert ?i (dom K)" "card S' \<le> k" "demand_run k S' ?rs n" for S' n
        unfolding dom
      proof (rule furthest_step [OF that(4,1,2,3) assms(5) full(1) new x])
        fix y assume y: "y \<in> dom K" "y \<noteq> x"
        from top_ranked_furthest [OF assms(2) full(2) y assms(8)] new y x
        show "x \<notin> set (takeWhile (\<lambda>r. r \<noteq> y) ?rs)" by auto
      qed
      moreover have "card (dom K1) \<le> k" unfolding dom using new x full(1) assms(5) card_Suc_Diff1 [OF assms(5) x] by simp
      moreover have "ranks_next (t + 1) reqs K1"
        using keep [of "K(x := None)"] rank_miss(1) full(3) assms(4) by (simp add: map_le_def)
      ultimately show ?thesis using rank_miss(2) new dom assms(5) by auto
    qed
  qed
  then show "hit \<longleftrightarrow> ?i \<in> dom K" "ranks_next (t + 1) reqs K1" "finite (dom K1)" "card (dom K1) \<le> k" "?i \<in> dom K1"
    "dom K1 \<subseteq> Set.insert ?i (dom K)"
    "\<And>S' n. ?i \<in> S' \<Longrightarrow> S' \<subseteq> Set.insert ?i (dom K) \<Longrightarrow> card S' \<le> k \<Longrightarrow>
      demand_run k S' ?rs n \<Longrightarrow> \<exists>m. demand_run k (dom K1) ?rs m \<and> n \<le> m" by blast+
qed

abbreviation n_hits :: "bool list \<Rightarrow> nat" where
  "n_hits hits \<equiv> length (filter (\<lambda>h. h) hits)"

lemma rank_serve_optimal:
  "rank_serve Belady_prio (int k) K reqs K' hits \<Longrightarrow> ranks_next t reqs K \<Longrightarrow> annotated t reqs \<Longrightarrow>
   \<forall>req \<in> set reqs. req_obj_size req = 1 \<Longrightarrow> finite (dom K) \<Longrightarrow> card (dom K) \<le> k \<Longrightarrow> 0 < k \<Longrightarrow>
   t + length reqs < 2 ^ 53 \<Longrightarrow>
   demand_run k (dom K) (map req_obj_id reqs) (n_hits hits)
     \<and> (\<forall>n. demand_run k (dom K) (map req_obj_id reqs) n \<longrightarrow> n \<le> n_hits hits)"
proof (induction reqs arbitrary: t K hits)
  case Nil
  then have "hits = []" by (auto elim: rank_serve_NilE)
  then show ?case by (auto elim: run_nilE intro: run_nil)
next
  case (Cons req reqs)
  let ?i = "req_obj_id req" and ?rs = "map req_obj_id reqs"
  from Cons.prems(1) obtain K1 hit hits' where
    g: "rank_get Belady_prio (int k) req K K1 hit" "rank_serve Belady_prio (int k) K1 reqs K' hits'" "hits = hit # hits'"
    by (auto elim: rank_serve_ConsE)
  note b = rank_get_best [OF g(1) Cons.prems(2,3) _ Cons.prems(5-8)]
  have unit: "req_obj_size req = 1" "\<forall>req \<in> set reqs. req_obj_size req = 1" using Cons.prems(4) by auto
  have "annotated (t + 1) reqs" "t + 1 + length reqs < 2 ^ 53" using Cons.prems(3,8) by auto
  from Cons.IH [OF g(2) b(2) [OF unit(1)] this(1) unit(2) b(3) [OF unit(1)] b(4) [OF unit(1)] Cons.prems(7) this(2)] have
    ih: "demand_run k (dom K1) ?rs (n_hits hits')" "\<forall>n. demand_run k (dom K1) ?rs n \<longrightarrow> n \<le> n_hits hits'" by auto
  have n: "n_hits hits = (if ?i \<in> dom K then 1 else 0) + n_hits hits'" using b(1) [OF unit(1)] g(3) by simp
  have "demand_run k (dom K) (?i # ?rs) (n_hits hits)"
    unfolding n by (rule run_step [OF b(5) b(6) b(3) b(4) ih(1)]) (use unit in auto)
  moreover have "m \<le> n_hits hits" if run: "demand_run k (dom K) (?i # ?rs) m" for m
  proof -
    from run obtain S' n' where
      s: "?i \<in> S'" "S' \<subseteq> Set.insert ?i (dom K)" "card S' \<le> k" "demand_run k S' ?rs n'"
      "m = (if ?i \<in> dom K then 1 else 0) + n'" by (elim run_consE) auto
    from b(7) [OF unit(1) s(1-4)] obtain n2 where "demand_run k (dom K1) ?rs n2" "n' \<le> n2" by blast
    then show ?thesis using ih(2) s(5) n by fastforce
  qed
  ultimately show ?case by simp
qed

section \<open>The queues\<close>

lemma queue_ids_card: "distinct (map fst es) \<Longrightarrow> card (fst ` set es) = length es"
  by (metis distinct_card length_map set_map)

lemma queue_get_unit:
  assumes "distinct (map fst es)" and "\<forall>e \<in> set es. snd e = 1" and "length es \<le> k" and "0 < k"
    and "req_obj_size req = 1" and "queue_get None pr (int k) 0 req es = (es', hit)"
  shows "hit \<longleftrightarrow> req_obj_id req \<in> fst ` set es" and "distinct (map fst es')" and "\<forall>e \<in> set es'. snd e = 1"
    and "length es' \<le> k" and "req_obj_id req \<in> fst ` set es'"
    and "fst ` set es' \<subseteq> Set.insert (req_obj_id req) (fst ` set es)"
proof -
  let ?i = "req_obj_id req"
  have "(hit \<longleftrightarrow> ?i \<in> fst ` set es) \<and> distinct (map fst es') \<and> (\<forall>e \<in> set es'. snd e = 1) \<and> length es' \<le> k
    \<and> ?i \<in> fst ` set es' \<and> fst ` set es' \<subseteq> Set.insert ?i (fst ` set es)"
  proof (cases "?i \<in> fst ` set es")
    case True
    then have e: "hit" "es' = (if pr then queue_promote ?i es else es)" using assms(6) by (auto simp: queue_get_def)
    from True obtain us n vs where s: "es = us @ (?i, n) # vs" by (metis (no_types, lifting) imageE prod.collapse split_list)
    have "queue_promote ?i es = (?i, n) # us @ vs" using queue_promote_split [of us "(?i, n)" vs] assms(1) s by simp
    then show ?thesis using e assms(1-3) s by auto
  next
    case False
    have "queue_trim None (int k - 1) 0 es = take (k - 1) es"
      using queue_trim_unit [OF assms(1,2), of "int k - 1"] assms(4) by (simp add: nat_diff_distrib)
    then have e: "\<not> hit" "es' = (?i, 1) # take (k - 1) es"
      using assms(4,5,6) False by (auto simp: queue_get_def)
    have "set (take (k - 1) es) \<subseteq> set es" by (rule set_take_subset)
    moreover have "distinct (map fst (take (k - 1) es))" using assms(1) by (metis distinct_take take_map)
    ultimately show ?thesis using e False assms(2,4) by auto
  qed
  then show "hit \<longleftrightarrow> ?i \<in> fst ` set es" "distinct (map fst es')" "\<forall>e \<in> set es'. snd e = 1" "length es' \<le> k"
    "?i \<in> fst ` set es'" "fst ` set es' \<subseteq> Set.insert ?i (fst ` set es)" by blast+
qed

lemma queue_serve_run:
  "distinct (map fst es) \<Longrightarrow> \<forall>e \<in> set es. snd e = 1 \<Longrightarrow> length es \<le> k \<Longrightarrow> 0 < k \<Longrightarrow>
   \<forall>req \<in> set reqs. req_obj_size req = 1 \<Longrightarrow>
   demand_run k (fst ` set es) (map req_obj_id reqs) (n_hits (snd (queue_serve None pr (int k) 0 es reqs)))"
proof (induction reqs arbitrary: es)
  case Nil
  then show ?case by (simp add: run_nil)
next
  case (Cons req reqs)
  obtain es' hit where g: "queue_get None pr (int k) 0 req es = (es', hit)" by fastforce
  obtain es'' hits where h: "queue_serve None pr (int k) 0 es' reqs = (es'', hits)" by fastforce
  from Cons.prems(5) have unit: "req_obj_size req = 1" by simp
  note q = queue_get_unit [OF Cons.prems(1-4) unit g]
  have "demand_run k (fst ` set es') (map req_obj_id reqs) (n_hits hits)"
    using Cons.IH [OF q(2,3,4) Cons.prems(4)] Cons.prems(5) h by simp
  from run_step [OF q(5,6) _ _ this] q(4) queue_ids_card [OF q(2)] q(1) g h show ?case
    by (cases "req_obj_id req \<in> fst ` set es") auto
qed

section \<open>Properties\<close>

lemma annotated_next: "annotated t reqs \<Longrightarrow> \<forall>req \<in> set reqs. req_next_access_vtime req \<noteq> - 1"
proof (induction t reqs rule: annotated.induct)
  case (2 t req reqs)
  have "next_from (t + 1) reqs (req_obj_id req) \<noteq> - 1"
    using next_from_cases [of "t + 1" reqs "req_obj_id req"] by (auto simp: INT64_MAX_def)
  then show ?case using 2 by simp
qed simp

lemma Belady_serve_optimal:
  fixes pf0 :: 'f
  assumes "spread E W" and "\<not> support_ttl E" and "0 < ccp_hashpower p" and "ccp_hashpower p < 40"
    and "int (snd W) \<le> ccp_hashpower p" and "0 < ccp_cache_size p"
    and "\<forall>req \<in> set reqs. req_obj_id req \<in> fst W \<and> req_obj_size req = 1"
    and "annotated 0 reqs" and "length reqs < 2 ^ 53"
  shows "\<exists>(c :: ('a, 'f, pq_params) cache_t) hits. serve (Belady_ops E None) None (Belady_init pf0 p s) reqs = Some (c, hits)
    \<and> demand_run (nat (ccp_cache_size p)) {} (map req_obj_id reqs) (n_hits hits)
    \<and> (\<forall>n. demand_run (nat (ccp_cache_size p)) {} (map req_obj_id reqs) n \<longrightarrow> n \<le> n_hits hits)"
proof -
  let ?k = "nat (ccp_cache_size p)"
  have R: "spread E W \<and> \<not> support_ttl E \<and> ranked_R E W (Belady_init pf0 p s :: ('a, 'f, pq_params) cache_t) Map.empty"
    using assms(1,2) Belady_init_ranked [OF assms(3-5)] by auto
  have ok: "\<forall>req \<in> set reqs. Belady_request W req" using assms(7) annotated_next [OF assms(8)] by blast
  from belady.serve_ranked [OF R ok] assms(6) obtain c :: "('a, 'f, pq_params) cache_t" and K hits where
    sv: "serve (Belady_ops E None) None (Belady_init pf0 p s) reqs = Some (c, hits)"
    "rank_serve Belady_prio (ccp_cache_size p) Map.empty reqs K hits" by auto
  have "rank_serve Belady_prio (int ?k) Map.empty reqs K hits" "0 < ?k" using sv(2) assms(6) by auto
  moreover have "ranks_next 0 reqs Map.empty" by (simp add: ranks_next_def)
  ultimately show ?thesis using rank_serve_optimal [of ?k Map.empty reqs K hits 0] assms(7-9) sv(1)
    by (intro exI [of _ c] exI [of _ hits]) auto
qed

text \<open>
  C1: Belady's algorithm is optimal.  On every trace of objects of size 1 whose requests carry the
  position of the next request for their object (\<open>INT64_MAX\<close> if there is none), the code of
  \<open>Belady.c\<close> returns, and its number of hits is the largest that any way of running a cache of this
  size can reach that stores every requested object.  The positions are converted to \<open>double\<close>, which
  is exact below \<open>2 ^ 53\<close>.
\<close>

theorem Belady_optimal:
  fixes pf0 :: 'f
  assumes "spread E W" and "\<not> support_ttl E" and "0 < ccp_hashpower p" and "ccp_hashpower p < 40"
    and "int (snd W) \<le> ccp_hashpower p" and "0 < ccp_cache_size p"
    and "\<forall>req \<in> set reqs. req_obj_id req \<in> fst W \<and> req_obj_size req = 1"
    and "annotated 0 reqs" and "length reqs < 2 ^ 53"
  shows "\<exists>(c :: ('a, 'f, pq_params) cache_t) hits. serve (Belady_ops E None) None (Belady_init pf0 p s) reqs = Some (c, hits)
    \<and> demand_run (nat (ccp_cache_size p)) {} (map req_obj_id reqs) (n_hits hits)
    \<and> (\<forall>n. demand_run (nat (ccp_cache_size p)) {} (map req_obj_id reqs) n \<longrightarrow> n \<le> n_hits hits)"
  by (rule Belady_serve_optimal [OF assms])

definition sample_trace :: "request list" where
  "sample_trace = [(sample_req 1 1)\<lparr>req_next_access_vtime := 3\<rparr>, (sample_req 2 1)\<lparr>req_next_access_vtime := INT64_MAX\<rparr>,
     (sample_req 3 1)\<lparr>req_next_access_vtime := INT64_MAX\<rparr>, (sample_req 1 1)\<lparr>req_next_access_vtime := INT64_MAX\<rparr>]"

lemma sample_trace_ok:
  "\<forall>req \<in> set sample_trace. req_obj_id req \<in> fst sample_ids \<and> req_obj_size req = 1"
  "annotated 0 sample_trace" "length sample_trace < 2 ^ 53" "map req_obj_id sample_trace = [1, 2, 3, 1]"
  by (simp_all add: sample_trace_def sample_req_def)

theorem Belady_optimal_witness:
  "\<exists>(c :: (unit, unit, pq_params) cache_t) hits. serve (Belady_ops sample_env None) None (Belady_init () (sample_params 2) None)
      sample_trace = Some (c, hits)
    \<and> demand_run (nat 2) {} [1, 2, 3, 1 :: obj_id_t] (n_hits hits)
    \<and> (\<forall>n. demand_run (nat 2) {} [1, 2, 3, 1 :: obj_id_t] n \<longrightarrow> n \<le> n_hits hits)"
  using Belady_optimal [OF sample_spread(2), of sample_env "sample_params 2" sample_trace "()" None] sample_trace_ok
  by simp

text \<open>
  C2: Belady's algorithm has at least as many hits as LRU and FIFO.  The code of \<open>Belady.c\<close>, \<open>LRU.c\<close>
  and \<open>FIFO.c\<close> serves every such trace in caches of the same size, and the first one never reports
  fewer hits than the other two.
\<close>

theorem Belady_beats_LRU_and_FIFO:
  fixes pf0 :: 'f
  assumes "spread E W" and "\<not> support_ttl E" and "pin E = None" and "0 < ccp_hashpower p" and "ccp_hashpower p < 40"
    and "int (snd W) \<le> ccp_hashpower p" and "0 < ccp_cache_size p" and "\<not> ccp_consider_obj_metadata p"
    and "\<forall>req \<in> set reqs. req_obj_id req \<in> fst W \<and> req_obj_size req = 1"
    and "annotated 0 reqs" and "length reqs < 2 ^ 53"
  shows "\<exists>(c :: ('a, 'f, pq_params) cache_t) (c1 :: ('a, 'f, LRU_params_t) cache_t)
      (c2 :: ('a, 'f, FIFO_params_t) cache_t) hits hits1 hits2.
    serve (Belady_ops E None) None (Belady_init pf0 p s) reqs = Some (c, hits)
    \<and> serve (LRU_ops E None) None (LRU_init pf0 p s) reqs = Some (c1, hits1)
    \<and> serve (FIFO_ops E None) None (FIFO_init pf0 p s) reqs = Some (c2, hits2)
    \<and> n_hits hits1 \<le> n_hits hits \<and> n_hits hits2 \<le> n_hits hits"
proof -
  let ?k = "nat (ccp_cache_size p)"
  have k: "int ?k = ccp_cache_size p" "0 < ?k" using assms(7) by auto
  have ids: "\<forall>req \<in> set reqs. req_obj_id req \<in> fst W" "\<forall>req \<in> set reqs. req_obj_size req = 1" using assms(9) by auto
  from Belady_serve_optimal [OF assms(1,2,4-7,9-11), where s = s and ?pf0.0 = pf0 and ?'a = 'a] obtain c :: "('a, 'f, pq_params) cache_t" and hits where
    b: "serve (Belady_ops E None) None (Belady_init pf0 p s) reqs = Some (c, hits)"
    "\<forall>n. demand_run ?k {} (map req_obj_id reqs) n \<longrightarrow> n \<le> n_hits hits" by blast
  have R: "LRU_R E W (LRU_init pf0 p s :: ('a, 'f, LRU_params_t) cache_t) []"
    "FIFO_R basic_view E W (FIFO_init pf0 p s :: ('a, 'f, FIFO_params_t) cache_t) []"
    by (rule LRU_init_R [OF assms(1,2,4-6)], rule FIFO_init_R [OF assms(1,2,4-6)])
  from lru.serve_refines [OF R(1) ids(1)] assms(3,8) obtain c1 where
    l: "serve (LRU_ops E None) None (LRU_init pf0 p s :: ('a, 'f, LRU_params_t) cache_t) reqs
      = Some (c1, snd (queue_serve None True (ccp_cache_size p) 0 [] reqs))" by (auto simp: spec_serve_queue)
  from fifo.serve_refines [OF R(2) ids(1)] assms(3) obtain c2 where
    f: "serve (FIFO_ops E None) None (FIFO_init pf0 p s :: ('a, 'f, FIFO_params_t) cache_t) reqs
      = Some (c2, snd (queue_serve None False (ccp_cache_size p) 0 [] reqs))" by (auto simp: spec_serve_queue)
  have "n_hits (snd (queue_serve None pr (ccp_cache_size p) 0 [] reqs)) \<le> n_hits hits" for pr
    using queue_serve_run [of "[]" ?k reqs pr] k ids(2) b(2) by simp
  with b l f show ?thesis by blast
qed

theorem Belady_beats_LRU_and_FIFO_witness:
  "\<exists>(c :: (unit, unit, pq_params) cache_t) (c1 :: (unit, unit, LRU_params_t) cache_t)
      (c2 :: (unit, unit, FIFO_params_t) cache_t) hits hits1 hits2.
    serve (Belady_ops sample_env None) None (Belady_init () (sample_params 2) None) sample_trace = Some (c, hits)
    \<and> serve (LRU_ops sample_env None) None (LRU_init () (sample_params 2) None) sample_trace = Some (c1, hits1)
    \<and> serve (FIFO_ops sample_env None) None (FIFO_init () (sample_params 2) None) sample_trace = Some (c2, hits2)
    \<and> n_hits hits1 \<le> n_hits hits \<and> n_hits hits2 \<le> n_hits hits"
  using Belady_beats_LRU_and_FIFO [OF sample_spread(2), of sample_env "sample_params 2" sample_trace "()" None]
    sample_trace_ok by simp

end
