(* ===== verification/Size_Cache.thy ===== *)
theory Size_Cache
  imports Ranked_Cache
begin

text \<open>
  The size-based algorithm (\<open>cache/eviction/Size.c\<close>): a priority queue ordered by the size of the last
  request for the object, from which the largest is evicted.
\<close>

section \<open>Model\<close>

text \<open>\<open>(512UL << 10) / sizeof(void *)\<close>.\<close>

definition Size_kInitialPQCapacity :: nat where
  "Size_kInitialPQCapacity = 524288 div 8"

definition Size_init ::
    "'f \<Rightarrow> common_cache_params_t \<Rightarrow> string option \<Rightarrow> ('a, 'f, pq_params) cache_t" where
  "Size_init pf0 ccache_params cache_specific_params =
     cache_struct_init ''Size'' ccache_params cache_specific_params pf0
       \<lparr>params_pq = pqueue_init Size_kInitialPQCapacity, nodes = Map.empty, node_brk = 0\<rparr>"

definition Size_remove_obj ::
    "env \<Rightarrow> ('a, 'f, pq_params) cache_t \<Rightarrow> ptr \<Rightarrow> ('a, 'f, pq_params) cache_t option" where
  "Size_remove_obj E c obj = do {
     let params = eviction_params c;
     ob \<leftarrow> deref (store c) obj;
     c \<leftarrow> (case pq_node ob of
         None \<Rightarrow> Some c
       | Some x \<Rightarrow> do {
           (q, ns) \<leftarrow> pqueue_remove (params_pq params) (nodes params) x;
           h \<leftarrow> upd_obj (store c) obj (\<lambda>ob. ob\<lparr>pq_node := NULL\<rparr>);
           Some (c\<lparr>store := h, eviction_params := params\<lparr>params_pq := q, nodes := ns(x := None)\<rparr>\<rparr>) });
     cache_remove_obj_base E c obj True }"

definition Size_remove ::
    "env \<Rightarrow> ('a, 'f, pq_params) cache_t \<Rightarrow> obj_id_t \<Rightarrow> (('a, 'f, pq_params) cache_t \<times> bool) option" where
  "Size_remove E c i = do {
     obj \<leftarrow> chained_hashtable_find_obj_id_v2 E (store c) (hashtable c) i;
     if obj = NULL then Some (c, False)
     else do { c \<leftarrow> Size_remove_obj E c obj; Some (c, True) } }"

definition Size_find ::
    "env \<Rightarrow> ('a, 'f, pq_params) cache_t prefetcher_t option \<Rightarrow> ('a, 'f, pq_params) cache_t \<Rightarrow>
     request \<Rightarrow> bool \<Rightarrow> (('a, 'f, pq_params) cache_t \<times> ptr) option" where
  "Size_find E pf c req update_cache = do {
     (c, cached_obj) \<leftarrow> cache_find_base E pf (Size_remove E) c req update_cache;
     if \<not> update_cache then Some (c, cached_obj)
     else if cached_obj = NULL then Some (c, NULL)
     else do {
       ob \<leftarrow> deref (store c) cached_obj;
       x \<leftarrow> pq_node ob;
       let params = eviction_params c;
       (q, ns) \<leftarrow> pqueue_change_priority (params_pq params) (nodes params) (double_of_int (req_obj_size req)) x;
       Some (c\<lparr>eviction_params := params\<lparr>params_pq := q, nodes := ns\<rparr>\<rparr>, cached_obj) } }"

text \<open>
  The position of a new node, which \<open>malloc\<close> leaves unset and \<open>bubble_up\<close> writes before it is read,
  is 0 here.
\<close>

definition Size_insert ::
    "env \<Rightarrow> ('a, 'f, pq_params) cache_t \<Rightarrow> request \<Rightarrow> (('a, 'f, pq_params) cache_t \<times> ptr) option" where
  "Size_insert E c req = do {
     (c, cached_obj) \<leftarrow> cache_insert_base E c req;
     let params = eviction_params c;
     let x = node_brk params;
     let ns = (nodes params)(x \<mapsto> \<lparr>pri = double_of_int (req_obj_size req), pq_obj_id = req_obj_id req, pos = 0\<rparr>);
     (q, ns) \<leftarrow> pqueue_insert (params_pq params) ns x;
     h \<leftarrow> upd_obj (store c) cached_obj (\<lambda>ob. ob\<lparr>pq_node := Some x\<rparr>);
     Some (c\<lparr>store := h, eviction_params := \<lparr>params_pq = q, nodes = ns, node_brk = Suc x\<rparr>\<rparr>, cached_obj) }"

definition Size_to_evict ::
    "env \<Rightarrow> ('a, 'f, pq_params) cache_t \<Rightarrow> request \<Rightarrow> (('a, 'f, pq_params) cache_t \<times> ptr) option" where
  "Size_to_evict E c req = do {
     node \<leftarrow> pqueue_peek (params_pq (eviction_params c));
     x \<leftarrow> node;
     nd \<leftarrow> nodes (eviction_params c) x;
     obj \<leftarrow> chained_hashtable_find_obj_id_v2 E (store c) (hashtable c) (pq_obj_id nd);
     Some (c, obj) }"

definition Size_evict ::
    "env \<Rightarrow> ('a, 'f, pq_params) cache_t prefetcher_t option \<Rightarrow> ('a, 'f, pq_params) cache_t \<Rightarrow>
     request \<Rightarrow> ('a, 'f, pq_params) cache_t option" where
  "Size_evict E pf c req = do {
     let params = eviction_params c;
     (q, ns, node) \<leftarrow> pqueue_pop (params_pq params) (nodes params);
     x \<leftarrow> node;
     nd \<leftarrow> ns x;
     obj_to_evict \<leftarrow> chained_hashtable_find_obj_id_v2 E (store c) (hashtable c) (pq_obj_id nd);
     h \<leftarrow> upd_obj (store c) obj_to_evict (\<lambda>ob. ob\<lparr>pq_node := NULL\<rparr>);
     cache_evict_base E pf
       (c\<lparr>store := h, eviction_params := params\<lparr>params_pq := q, nodes := ns(x := None)\<rparr>\<rparr>) obj_to_evict True }"

definition Size_ops ::
    "env \<Rightarrow> ('a, 'f, pq_params) cache_t prefetcher_t option \<Rightarrow> ('a, 'f, pq_params) cache_t cache_ops" where
  "Size_ops E pf = \<lparr>op_find = Size_find E pf, op_can_insert = cache_can_insert_default,
     op_insert = Size_insert E, op_evict = Size_evict E pf, op_remove = Size_remove E,
     op_to_evict = Size_to_evict E, op_get_occupied_byte = cache_get_occupied_byte_default,
     op_get_n_obj = cache_get_n_obj_default\<rparr>"

definition Size_get ::
    "env \<Rightarrow> ('a, 'f, pq_params) cache_t prefetcher_t option \<Rightarrow> ('a, 'f, pq_params) cache_t \<Rightarrow>
     request \<Rightarrow> (('a, 'f, pq_params) cache_t \<times> bool) option" where
  "Size_get E pf c req = cache_get_base (Size_ops E pf) pf c req"

section \<open>Refinement\<close>

definition Size_prio :: "request \<Rightarrow> double" where
  "Size_prio req = double_of_int (req_obj_size req)"

lemma Size_find_ranked:
  assumes "ranked_R E W c K" and "\<not> support_ttl E"
  shows "\<exists>c' p. Size_find E None c req True = Some (c', p) \<and> same_limits c c' \<and> admissioner c' = admissioner c
    \<and> (case K (req_obj_id req) of None \<Rightarrow> p = NULL \<and> ranked_R E W c' K
       | Some (q, n) \<Rightarrow> p \<noteq> NULL \<and> ranked_R E W c' (K(req_obj_id req \<mapsto> (Size_prio req, n))))"
proof -
  from assms(1) obtain A C where r: "ranked_at E W c A C K" by (auto simp: ranked_R_def)
  note d = ranked_atD [OF r]
  show ?thesis
  proof (cases "K (req_obj_id req)")
    case None
    then have "Size_find E None c req True = Some (c, NULL)"
      using find_base_miss [OF d(1) ranked_absent(2) [OF r None]] by (simp add: Size_find_def)
    then show ?thesis using None assms(1) by simp
  next
    case (Some v)
    obtain p n where v: "v = (p, n)" by (cases v)
    from ranked_lookup [OF r Some [unfolded v]] obtain a ob where
      ob: "store c a = Some ob" "obj_id ob = req_obj_id req" by blast
    have find: "cache_find_base E None (Size_remove E) c req True
        = Some (c\<lparr>store := (store c)(a \<mapsto> touched req ob)\<rparr>, Some a)"
      using find_base_hit [OF d(1) ob(1,2)] assms(2) by (simp add: expired_def)
    let ?f = "\<lambda>ob. touched req ob"
    have "core (?f ob) = core ob" "tie (?f ob) = tie ob" by (simp_all add: core_def tie_def touched_def)
    from ranked_rerank [where f = ?f, OF r ob(1) this, of "Size_prio req"] ob(2) Some v obtain x q h where
      ch: "pq_node ob = Some x"
      "pqueue_change_priority (params_pq (eviction_params c)) (nodes (eviction_params c)) (Size_prio req) x = Some (q, h)"
      "ranked_R E W (c\<lparr>store := (store c)(a \<mapsto> ?f ob),
        eviction_params := (eviction_params c)\<lparr>params_pq := q, nodes := h\<rparr>\<rparr>) (K(req_obj_id req \<mapsto> (Size_prio req, n)))"
      by auto
    have "pq_node (touched req ob) = Some x" using ch(1) by (simp add: touched_def)
    then have "Size_find E None c req True = Some (c\<lparr>store := (store c)(a \<mapsto> ?f ob),
        eviction_params := (eviction_params c)\<lparr>params_pq := q, nodes := h\<rparr>\<rparr>, Some a)"
      using find ch(2) by (simp add: Size_find_def Size_prio_def upd_obj_def)
    then show ?thesis using ch(3) Some v by simp
  qed
qed

lemma Size_insert_ranked:
  assumes "ranked_R E W c K" and "req_obj_id req \<in> fst W" and "K (req_obj_id req) = None"
  shows "\<exists>c' p. Size_insert E c req = Some (c', p) \<and> same_limits c c' \<and> admissioner c' = admissioner c
    \<and> ranked_R E W c' (K(req_obj_id req \<mapsto> (Size_prio req, req_obj_size req)))"
proof -
  let ?f = "\<lambda>x ob. ob\<lparr>pq_node := Some x\<rparr>"
  have f: "tie (?f x ob) = (obj_id ob, obj_size ob, Some x)" "core (?f x ob) = core ob" for x ob
    by (simp_all add: tie_def core_def)
  from ranked_insert [where f = ?f and p = "Size_prio req", OF assms(1-3) f] show ?thesis
    using assms by (auto simp: Size_insert_def Size_prio_def Let_def upd_obj_def same_limits_def)
qed

lemma Size_evict_ranked:
  assumes "spread E W" and "ranked_R E W c K" and "K \<noteq> Map.empty"
  shows "\<exists>c' i. Size_evict E None c req = Some c' \<and> same_limits c c' \<and> admissioner c' = admissioner c
    \<and> top_ranked K i \<and> ranked_R E W c' (K(i := None))"
proof -
  from ranked_evict [OF assms] obtain q ns x nd a ob c' where
    e: "pqueue_pop (params_pq (eviction_params c)) (nodes (eviction_params c)) = Some (q, ns, Some x)"
    "ns x = Some nd" "chained_hashtable_find_obj_id_v2 E (store c) (hashtable c) (pq_obj_id nd) = Some (Some a)"
    "store c a = Some ob"
    "cache_remove_obj_base E (c\<lparr>store := (store c)(a \<mapsto> ob\<lparr>pq_node := NULL\<rparr>),
        eviction_params := (eviction_params c)\<lparr>params_pq := q, nodes := ns(x := None)\<rparr>\<rparr>) (Some a) True = Some c'"
    "top_ranked K (obj_id ob)" "ranked_R E W c' (K(obj_id ob := None))" "same_limits c c'"
    "admissioner c' = admissioner c" by blast
  then have "Size_evict E None c req = Some c'" by (simp add: Size_evict_def upd_obj_def)
  with e show ?thesis by blast
qed

abbreviation Size_request :: "trace_ids \<Rightarrow> request \<Rightarrow> bool" where
  "Size_request W req \<equiv> req_obj_id req \<in> fst W"

interpretation size: ranked_policy "Size_ops E None"
    "\<lambda>c K. spread E W \<and> \<not> support_ttl E \<and> ranked_R E W c K" Size_prio "Size_request W"
  for E W
proof
  fix c :: "('a, 'b, pq_params) cache_t" and K req n
  assume R: "spread E W \<and> \<not> support_ttl E \<and> ranked_R E W c K"
  show "spread E W \<and> \<not> support_ttl E \<and> ranked_R E W (c\<lparr>n_req := n\<rparr>) K" using R ranked_n_req by blast
  show "finite (dom K)" using R ranked_finite by blast
  show "op_get_occupied_byte (Size_ops E None) c = rank_bytes K \<and> obj_md_size c = 0"
    using R ranked_bytes [of E W c K] by (simp add: Size_ops_def cache_get_occupied_byte_default_def)
  show "op_can_insert (Size_ops E None) c req = cache_can_insert_default c req" by (simp add: Size_ops_def)
  show "\<exists>c' p. op_find (Size_ops E None) c req True = Some (c', p) \<and> same_limits c c' \<and> admissioner c' = admissioner c
        \<and> (case K (req_obj_id req) of None \<Rightarrow> p = NULL \<and> spread E W \<and> \<not> support_ttl E \<and> ranked_R E W c' K
           | Some (q, n) \<Rightarrow> p \<noteq> NULL \<and> spread E W \<and> \<not> support_ttl E
               \<and> ranked_R E W c' (K(req_obj_id req \<mapsto> (Size_prio req, n))))"
    using Size_find_ranked [of E W c K req] R by (auto simp: Size_ops_def split: option.splits)
  show "\<exists>c' i. op_evict (Size_ops E None) c req = Some c' \<and> same_limits c c' \<and> admissioner c' = admissioner c
      \<and> top_ranked K i \<and> spread E W \<and> \<not> support_ttl E \<and> ranked_R E W c' (K(i := None))" if "K \<noteq> Map.empty"
    using Size_evict_ranked [of E W c K req] R that by (simp add: Size_ops_def)
  show "\<exists>c' p. op_insert (Size_ops E None) c req = Some (c', p) \<and> same_limits c c' \<and> admissioner c' = admissioner c
      \<and> spread E W \<and> \<not> support_ttl E \<and> ranked_R E W c' (K(req_obj_id req \<mapsto> (Size_prio req, req_obj_size req)))"
    if "Size_request W req" "K (req_obj_id req) = None"
    using Size_insert_ranked [of E W c K req] R that by (simp add: Size_ops_def)
qed

lemma Size_remove_ranked:
  assumes "spread E W" and "ranked_R E W c K"
  shows "\<exists>c'. Size_remove E c i = Some (c', K i \<noteq> None) \<and> ranked_R E W c' (K(i := None)) \<and> same_limits c c'"
proof (cases "K i")
  case None
  from assms(2) obtain A C where r: "ranked_at E W c A C K" by (auto simp: ranked_R_def)
  have "K(i := None) = K" using None by auto
  then show ?thesis using ranked_absent(1) [OF r None] None assms(2) by (simp add: Size_remove_def)
next
  case (Some v)
  from ranked_remove_id [OF assms, of i "fst v" "snd v"] Some obtain a ob x q ns c' where
    e: "chained_hashtable_find_obj_id_v2 E (store c) (hashtable c) i = Some (Some a)"
    "store c a = Some ob" "pq_node ob = Some x"
    "pqueue_remove (params_pq (eviction_params c)) (nodes (eviction_params c)) x = Some (q, ns)"
    "cache_remove_obj_base E (c\<lparr>store := (store c)(a \<mapsto> ob\<lparr>pq_node := NULL\<rparr>),
        eviction_params := (eviction_params c)\<lparr>params_pq := q, nodes := ns(x := None)\<rparr>\<rparr>) (Some a) True = Some c'"
    "ranked_R E W c' (K(i := None))" "same_limits c c'" by auto
  then show ?thesis using Some by (simp add: Size_remove_def Size_remove_obj_def upd_obj_def)
qed

lemma Size_init_ranked:
  assumes "0 < ccp_hashpower p" and "ccp_hashpower p < 40" and "int (snd W) \<le> ccp_hashpower p"
  shows "ranked_R E W (Size_init pf0 p s) Map.empty"
  unfolding Size_init_def by (rule ranked_init [OF assms])

lemma Size_init_fields [simp]:
  "cache_size (Size_init pf0 p s) = ccp_cache_size p" "admissioner (Size_init pf0 p s) = None"
  by (simp_all add: Size_init_def)

section \<open>Properties\<close>

text \<open>
  C32: the Size cache on every trace.  A new cache serves every trace without a failure and within
  its size, and the hits it reports are those of a run of the abstract machine that, on a miss,
  drops objects of the highest priority (the largest size in a request for them)
  until the new object fits.
\<close>

theorem Size_serve_refines:
  fixes pf0 :: 'f
  assumes "spread E W" and "\<not> support_ttl E" and "0 < ccp_hashpower p" and "ccp_hashpower p < 40"
    and "int (snd W) \<le> ccp_hashpower p" and "0 \<le> ccp_cache_size p"
    and "\<forall>req \<in> set reqs. req_obj_id req \<in> fst W"
  shows "\<exists>(c :: ('a, 'f, pq_params) cache_t) K hits. serve (Size_ops E None) None (Size_init pf0 p s) reqs = Some (c, hits)
    \<and> rank_serve Size_prio (ccp_cache_size p) Map.empty reqs K hits \<and> occupied_byte c \<le> ccp_cache_size p"
proof -
  have R: "spread E W \<and> \<not> support_ttl E \<and> ranked_R E W (Size_init pf0 p s :: ('a, 'f, pq_params) cache_t) Map.empty"
    using assms(1,2) Size_init_ranked [OF assms(3-5)] by auto
  from size.serve_ranked [OF R, of reqs] assms(6,7) show ?thesis
    by (auto simp: Size_ops_def cache_get_occupied_byte_default_def)
qed

theorem Size_serve_refines_witness:
  "\<exists>(c :: (unit, unit, pq_params) cache_t) K hits. serve (Size_ops sample_env None) None (Size_init () (sample_params 2) None)
      [sample_req 1 1, sample_req 2 1, sample_req 3 1, sample_req 1 1] = Some (c, hits)
    \<and> rank_serve Size_prio 2 Map.empty [sample_req 1 1, sample_req 2 1, sample_req 3 1, sample_req 1 1] K hits
    \<and> occupied_byte c \<le> 2"
  using Size_serve_refines [of sample_env sample_ids "sample_params 2"
      "[sample_req 1 1, sample_req 2 1, sample_req 3 1, sample_req 1 1]" "()" None]
  by (simp add: sample_req_def new_request_def del: serve.simps)

text \<open>
  The victim of Size.  In every non-empty state the eviction succeeds, and the object it removes
  is the one that \<open>Size_to_evict\<close> names and has the highest priority of all objects in the cache.
\<close>

theorem Size_evicts_top:
  assumes "spread E W" and "ranked_R E W c K" and "K \<noteq> Map.empty"
  shows "\<exists>c' a ob. Size_evict E None c req = Some c' \<and> Size_to_evict E c req = Some (c, Some a)
    \<and> store c a = Some ob \<and> top_ranked K (obj_id ob) \<and> ranked_R E W c' (K(obj_id ob := None))"
proof -
  from ranked_evict [OF assms] obtain q ns x nd a ob c' where
    e: "pqueue_pop (params_pq (eviction_params c)) (nodes (eviction_params c)) = Some (q, ns, Some x)"
    "ns x = Some nd" "chained_hashtable_find_obj_id_v2 E (store c) (hashtable c) (pq_obj_id nd) = Some (Some a)"
    "pqueue_peek (params_pq (eviction_params c)) = Some (Some x)" "nodes (eviction_params c) x = Some nd"
    "store c a = Some ob"
    "cache_remove_obj_base E (c\<lparr>store := (store c)(a \<mapsto> ob\<lparr>pq_node := NULL\<rparr>),
        eviction_params := (eviction_params c)\<lparr>params_pq := q, nodes := ns(x := None)\<rparr>\<rparr>) (Some a) True = Some c'"
    "top_ranked K (obj_id ob)" "ranked_R E W c' (K(obj_id ob := None))" by blast
  have "Size_evict E None c req = Some c'" using e by (simp add: Size_evict_def upd_obj_def)
  moreover have "Size_to_evict E c req = Some (c, Some a)" using e by (simp add: Size_to_evict_def)
  ultimately show ?thesis using e by blast
qed

theorem Size_evicts_top_witness:
  "\<exists>(c :: (unit, unit, pq_params) cache_t) c' a ob K. Size_evict sample_env None c (sample_req 2 1) = Some c'
    \<and> Size_to_evict sample_env c (sample_req 2 1) = Some (c, Some a) \<and> store c a = Some ob \<and> top_ranked K (obj_id ob)
    \<and> ranked_R sample_env sample_ids c' (K(obj_id ob := None))"
proof -
  have R: "ranked_R sample_env sample_ids (Size_init () (sample_params 2) None :: (unit, unit, pq_params) cache_t) Map.empty"
    by (rule Size_init_ranked) simp_all
  have "req_obj_id (sample_req 1 1) \<in> fst sample_ids" by simp
  from Size_insert_ranked [OF R this] obtain c where
    "ranked_R sample_env sample_ids (c :: (unit, unit, pq_params) cache_t) [1 \<mapsto> (Size_prio (sample_req 1 1), 1)]"
    by (auto simp: sample_req_def new_request_def)
  from Size_evicts_top [OF sample_spread(2) this, of "sample_req 2 1"] show ?thesis by (metis map_upd_nonempty)
qed

end
