(* ===== verification/Sampler.thy ===== *)
theory Sampler
  imports Cache_Base Double
begin

text \<open>
  The samplers of \<open>traceReader/sampling\<close> (\<open>spatial.c\<close>, \<open>temporal.c\<close>, \<open>SHARD.c\<close>), which choose the requests
  of a trace that the reader delivers.  The hash of an object id is the parameter \<open>hash64\<close>.
\<close>

section \<open>Samplers\<close>

datatype sampler_type = SPATIAL_SAMPLER | TEMPORAL_SAMPLER | SHARDS_SAMPLER

text \<open>The parameters of the temporal sampler are the field \<open>n_samples\<close>.\<close>

record sampler_t =
  s_type :: sampler_type
  sampling_ratio_inv :: int
  sampling_ratio :: double
  sampling_salt :: int
  n_samples :: int

definition spatial_sample :: "env \<Rightarrow> sampler_t \<Rightarrow> request \<Rightarrow> (sampler_t \<times> request \<times> bool) option" where
  "spatial_sample E s req =
    (let (hv, req) =
       (if sampling_salt s = 0
        then (if req_hv req = 0
              then (let h = hash64 E (req_obj_id req) in (h, req\<lparr>req_hv := h\<rparr>))
              else (req_hv req, req))
        else (hash64 E (req_obj_id req XOR word_of_int (sampling_salt s)), req))
     in if sampling_ratio_inv s = 0 then None
        else Some (s, req, hv mod word_of_int (sampling_ratio_inv s) = 0))"

definition temporal_sample :: "sampler_t \<Rightarrow> request \<Rightarrow> (sampler_t \<times> request \<times> bool) option" where
  "temporal_sample s req =
    (let s = s\<lparr>n_samples := n_samples s + 1\<rparr>
     in if n_samples s = sampling_ratio_inv s then Some (s\<lparr>n_samples := 0\<rparr>, req, True)
        else Some (s, req, False))"

definition SHARDS_threshold :: "double \<Rightarrow> int" where
  "SHARDS_threshold r = int_of_double (double_round (double_mult r (2 ^ 24) + 1 / 2))"

definition SHARDS_sample :: "env \<Rightarrow> sampler_t \<Rightarrow> request \<Rightarrow> (sampler_t \<times> request \<times> bool) option" where
  "SHARDS_sample E s req =
    (let (hv, req) = (if req_hv req = 0
           then (let h = hash64 E (req_obj_id req) in (h, req\<lparr>req_hv := h\<rparr>))
           else (req_hv req, req))
     in Some (s, req, uint (hv AND (2 ^ 24 - 1)) < SHARDS_threshold (sampling_ratio s)))"

definition sample :: "env \<Rightarrow> sampler_t \<Rightarrow> request \<Rightarrow> (sampler_t \<times> request \<times> bool) option" where
  "sample E s req = (case s_type s of
       SPATIAL_SAMPLER \<Rightarrow> spatial_sample E s req
     | TEMPORAL_SAMPLER \<Rightarrow> temporal_sample s req
     | SHARDS_SAMPLER \<Rightarrow> SHARDS_sample E s req)"

definition clone_sampler :: "sampler_t \<Rightarrow> sampler_t" where
  "clone_sampler s = (case s_type s of TEMPORAL_SAMPLER \<Rightarrow> s\<lparr>n_samples := 0\<rparr> | _ \<Rightarrow> s)"

text \<open>
  \<open>ERROR\<close> aborts, so that the ratio 1, which the code means to treat as no sampling, is refused by
  the test for ratios above one half that stands before it.
\<close>

definition create_spatial_sampler :: "double \<Rightarrow> sampler_t option" where
  "create_spatial_sampler r =
    (if r > 1 \<or> r \<le> 0 then None else if r > 1 / 2 then None
     else do {
       inv \<leftarrow> int32_of_double (double_div 1 r);
       Some \<lparr>s_type = SPATIAL_SAMPLER, sampling_ratio_inv = inv, sampling_ratio = r,
             sampling_salt = 0, n_samples = 0\<rparr> })"

definition set_spatial_sampler_salt :: "sampler_t \<Rightarrow> 64 word \<Rightarrow> sampler_t option" where
  "set_spatial_sampler_salt s salt =
    (if s_type s \<noteq> SPATIAL_SAMPLER then None else Some (s\<lparr>sampling_salt := to_int32 (uint salt)\<rparr>))"

definition create_temporal_sampler :: "double \<Rightarrow> sampler_t option" where
  "create_temporal_sampler r =
    (if r > 1 \<or> r \<le> 0 then None else if r > 1 / 2 then None
     else do {
       inv \<leftarrow> int32_of_double (double_div 1 r);
       Some \<lparr>s_type = TEMPORAL_SAMPLER, sampling_ratio_inv = inv, sampling_ratio = r,
             sampling_salt = 0, n_samples = 0\<rparr> })"

definition create_SHARDS_sampler :: "double \<Rightarrow> sampler_t option" where
  "create_SHARDS_sampler r =
    (if r > 1 \<or> r \<le> 0 then None
     else do {
       inv \<leftarrow> int32_of_double (double_div 1 r);
       Some \<lparr>s_type = SHARDS_SAMPLER, sampling_ratio_inv = inv, sampling_ratio = r,
             sampling_salt = 0, n_samples = 0\<rparr> })"

end
