(* ===== verification/Reader.thy ===== *)
theory Reader
  imports Sampler
begin

text \<open>
  Trace readers: \<open>traceReader/readerRequest.c\<close>, \<open>traceReader/reader.c\<close>, the binary formats of
  \<open>traceReader/customizedReader\<close> and \<open>traceReader/generalReader/binary.c\<close>.

  A trace file is its list of bytes, mapped into memory.  A read behind the end of the file is a
  read of zeros up to the end of the last page, as \<open>mmap\<close> promises, and a fault (\<open>None\<close>) behind it.
  The machine is little-endian.  The text formats, \<open>lcp\<close> and the synthetic traces are parameters of
  the dispatch (the record \<open>other_formats\<close>); zstd traces are not supported by the build that is
  modelled.  Offsets are natural numbers.
\<close>

section \<open>Bytes\<close>

type_synonym bytes = "8 word list"

definition mapped_byte :: "nat \<Rightarrow> bytes \<Rightarrow> nat \<Rightarrow> 8 word option" where
  "mapped_byte page m i =
    (if i < length m then Some (m ! i)
     else if i < page * ((length m + page - 1) div page) then Some 0 else None)"

fun load_bytes :: "nat \<Rightarrow> bytes \<Rightarrow> nat \<Rightarrow> nat \<Rightarrow> bytes option" where
  "load_bytes page m i 0 = Some []"
| "load_bytes page m i (Suc n) = do {
     b \<leftarrow> mapped_byte page m i;
     bs \<leftarrow> load_bytes page m (Suc i) n;
     Some (b # bs) }"

fun le_value :: "bytes \<Rightarrow> int" where
  "le_value [] = 0"
| "le_value (b # bs) = uint b + 256 * le_value bs"

definition to_int8 :: "int \<Rightarrow> int" where
  "to_int8 x = sint (word_of_int x :: 8 word)"

definition to_int16 :: "int \<Rightarrow> int" where
  "to_int16 x = sint (word_of_int x :: 16 word)"

definition to_int64 :: "int \<Rightarrow> int" where
  "to_int64 x = sint (word_of_int x :: 64 word)"

definition uint_at :: "nat \<Rightarrow> bytes \<Rightarrow> nat \<Rightarrow> nat \<Rightarrow> int option" where
  "uint_at page m i n = map_option le_value (load_bytes page m i n)"

text \<open>
  The value of an IEEE number of \<open>eb\<close> exponent and \<open>mb\<close> fraction bits, when it is finite.
\<close>

definition ieee_value :: "nat \<Rightarrow> nat \<Rightarrow> int \<Rightarrow> rat option" where
  "ieee_value eb mb v =
    (let m = v mod 2 ^ mb; e = (v div 2 ^ mb) mod 2 ^ eb; bias = 2 ^ (eb - 1) - 1;
         sgn = (if v div 2 ^ (mb + eb) = 0 then 1 else - 1)
     in if e = 2 ^ eb - 1 then None
        else if e = 0 then Some (sgn * of_int m * pow2 (1 - bias - int mb))
        else Some (sgn * of_int (2 ^ mb + m) * pow2 (e - bias - int mb)))"

definition int64_of_double :: "double \<Rightarrow> int option" where
  "int64_of_double q =
    (let n = int_of_double q in if - (2 ^ 63) \<le> n \<and> n < 2 ^ 63 then Some n else None)"

definition MAX_REUSE_DISTANCE :: int where
  "MAX_REUSE_DISTANCE = 2 ^ 63 - 1"

definition next_vtime :: "int \<Rightarrow> int" where
  "next_vtime v = (if v = - 1 \<or> v = 2 ^ 63 - 1 then MAX_REUSE_DISTANCE else v)"

text \<open>The enumeration is an unsigned 32-bit number.\<close>

definition op_of_int :: "int \<Rightarrow> req_op_e" where
  "op_of_int x = (let n = x mod 2 ^ 32 in
     if n = 0 then OP_NOP else if n = 1 then OP_GET else if n = 2 then OP_GETS
     else if n = 3 then OP_SET else if n = 4 then OP_ADD else if n = 5 then OP_CAS
     else if n = 6 then OP_REPLACE else if n = 7 then OP_APPEND else if n = 8 then OP_PREPEND
     else if n = 9 then OP_DELETE else if n = 10 then OP_INCR else if n = 11 then OP_DECR
     else if n = 12 then OP_READ else if n = 13 then OP_WRITE else if n = 14 then OP_UPDATE
     else if n = 255 then OP_INVALID else OP_OTHER n)"

section \<open>Readers\<close>

datatype trace_type_e = CSV_TRACE | BIN_TRACE | PLAIN_TXT_TRACE | ORACLE_GENERAL_TRACE | LCS_TRACE
  | VSCSI_TRACE | TWR_TRACE | TWRNS_TRACE | ORACLE_SIM_TWR_TRACE | ORACLE_SYS_TWR_TRACE
  | ORACLE_SIM_TWRNS_TRACE | ORACLE_SYS_TWRNS_TRACE | VALPIN_TRACE | LCP_TRACE | UNKNOWN_TRACE
  | SYNTHETIC_TRACE

datatype trace_format_e = BINARY_TRACE_FORMAT | TXT_TRACE_FORMAT | INVALID_TRACE_FORMAT
  | SYNTHETIC_TRACE_FORMAT

datatype read_direction = READ_FORWARD | READ_BACKWARD

datatype vscsi_version_e = VSCSI1 | VSCSI2 | UNKNOWN

text \<open>The fields that the binary formats and the shared code read.\<close>

record reader_init_param_t =
  ip_ignore_obj_size :: bool
  ip_ignore_size_zero_req :: bool
  ip_cap_at_n_req :: int
  time_field :: int
  obj_id_field :: int
  obj_size_field :: int
  obj_cost_field :: int
  op_field :: int
  ttl_field :: int
  next_access_vtime_field :: int
  ip_trace_start_offset :: nat
  binary_fmt_str :: "string option"
  ip_sampler :: "sampler_t option"
  require_valid_next_access :: bool
  ignore_ttl :: bool

definition default_reader_init_params :: reader_init_param_t where
  "default_reader_init_params = \<lparr>ip_ignore_obj_size = False, ip_ignore_size_zero_req = True,
     ip_cap_at_n_req = - 1, time_field = 0, obj_id_field = 0, obj_size_field = 0, obj_cost_field = 0,
     op_field = 0, ttl_field = 0, next_access_vtime_field = 0, ip_trace_start_offset = 0,
     binary_fmt_str = None, ip_sampler = None, require_valid_next_access = False,
     ignore_ttl = False\<rparr>"

text \<open>What \<open>memset\<close> leaves when \<open>setup_reader\<close> is called without parameters.\<close>

definition zero_init_params :: reader_init_param_t where
  "zero_init_params = default_reader_init_params\<lparr>ip_ignore_size_zero_req := False, ip_cap_at_n_req := 0\<rparr>"

text \<open>A field of the generic binary format: its index, its format character and its offset.\<close>

record bin_field =
  field_idx :: int
  field_format :: char
  field_offset :: int

record binary_params_t =
  bp_obj_id :: bin_field
  bp_time :: bin_field
  bp_obj_size :: bin_field
  bp_obj_cost :: bin_field
  bp_op :: bin_field
  bp_ttl :: bin_field
  bp_next_access_vtime :: bin_field
  n_fields :: int
  bp_item_size :: nat
  fmt_str :: string

datatype 'p reader_params_t = No_params | Binary_params binary_params_t
  | Vscsi_params vscsi_version_e | Other_params 'p

record 'p reader_t =
  n_read_req :: int
  rd_n_total_req :: int
  file_size :: nat
  rd_init_params :: reader_init_param_t
  reader_params :: "'p reader_params_t"
  trace_type :: trace_type_e
  trace_format :: trace_format_e
  cap_at_n_req :: int
  trace_start_offset :: nat
  mapped_file :: bytes
  mmap_offset :: nat
  item_size :: nat
  ignore_size_zero_req :: bool
  ignore_obj_size :: bool
  n_req_left :: int
  last_req_clock_time :: int
  lcs_ver :: int
  sampler :: "sampler_t option"
  read_direction :: read_direction
  warned_oracle_zero_size :: bool

text \<open>The result of a read: the reader, the request and the status.\<close>

type_synonym 'p read_result = "('p reader_t \<times> request \<times> int) option"

record 'p other_formats =
  other_setup :: "'p reader_t \<Rightarrow> 'p reader_t option"
  other_has_next :: "'p reader_t \<Rightarrow> bool"
  other_read :: "'p reader_t \<Rightarrow> request \<Rightarrow> 'p read_result"
  other_go_back :: "'p reader_t \<Rightarrow> ('p reader_t \<times> int) option"
  other_skip :: "'p reader_t \<Rightarrow> int \<Rightarrow> ('p reader_t \<times> int) option"
  other_reset :: "'p reader_t \<Rightarrow> 'p reader_t option"
  other_set_pos :: "'p reader_t \<Rightarrow> double \<Rightarrow> 'p reader_t option"

record 'p renv =
  base_env :: env
  page_size :: nat
  others :: "'p other_formats"

definition read_bytes :: "'p reader_t \<Rightarrow> nat \<Rightarrow> 'p reader_t \<times> nat option" where
  "read_bytes r n =
    (if file_size r \<le> mmap_offset r then (r, None)
     else (r\<lparr>mmap_offset := mmap_offset r + n\<rparr>, Some (mmap_offset r)))"

definition rd_uint :: "'p renv \<Rightarrow> 'p reader_t \<Rightarrow> nat \<Rightarrow> nat \<Rightarrow> int option" where
  "rd_uint R r i n = uint_at (page_size R) (mapped_file r) i n"

definition oracle_warn_zero_size :: "'p reader_t \<Rightarrow> 'p reader_t option" where
  "oracle_warn_zero_size r =
    (if require_valid_next_access (rd_init_params r) then None
     else Some (r\<lparr>warned_oracle_zero_size := True\<rparr>))"

section \<open>Fixed formats\<close>

text \<open>
  For each format, \<open>..._decode\<close> is its assignments from the record at an offset, and the read
  function is the code around them.  A C function that calls itself for the next record is a
  recursive function here as well.
\<close>

definition not_valid :: "request \<Rightarrow> request" where
  "not_valid req = req\<lparr>req_valid := False\<rparr>"

definition oracleGeneralBin_setup :: "'p reader_t \<Rightarrow> 'p reader_t" where
  "oracleGeneralBin_setup r =
    r\<lparr>trace_type := ORACLE_GENERAL_TRACE, trace_format := BINARY_TRACE_FORMAT, item_size := 24\<rparr>"

definition oracleGeneral_decode :: "'p renv \<Rightarrow> 'p reader_t \<Rightarrow> nat \<Rightarrow> request \<Rightarrow> request option" where
  "oracleGeneral_decode R r record req = do {
     t \<leftarrow> rd_uint R r record 4;
     i \<leftarrow> rd_uint R r (record + 4) 8;
     n \<leftarrow> rd_uint R r (record + 12) 4;
     v \<leftarrow> rd_uint R r (record + 16) 8;
     Some (req\<lparr>req_clock_time := t, req_obj_id := word_of_int i, req_obj_size := n,
       req_next_access_vtime := next_vtime (to_int64 v)\<rparr>) }"

definition zero_size_skipped :: "'p reader_t \<Rightarrow> request \<Rightarrow> bool" where
  "zero_size_skipped r req \<longleftrightarrow>
    req_obj_size req = 0 \<and> ignore_size_zero_req r \<and> read_direction r = READ_FORWARD"

partial_function (option) oracleGeneralBin_read_one_req ::
    "'p renv \<Rightarrow> 'p reader_t \<Rightarrow> request \<Rightarrow> 'p read_result" where
  "oracleGeneralBin_read_one_req R r req =
    (case read_bytes r (item_size r) of
       (r, None) \<Rightarrow> Some (r, not_valid req, 1)
     | (r, Some record) \<Rightarrow> do {
         req \<leftarrow> oracleGeneral_decode R r record req;
         if zero_size_skipped r req
         then do { r \<leftarrow> oracle_warn_zero_size r; oracleGeneralBin_read_one_req R r req }
         else Some (r, req, 0) })"

definition twrReader_setup :: "'p reader_t \<Rightarrow> 'p reader_t" where
  "twrReader_setup r =
    r\<lparr>trace_type := TWR_TRACE, trace_format := BINARY_TRACE_FORMAT, item_size := 20\<rparr>"

text \<open>The two packed words of the Twitter formats.\<close>

definition twr_kv_op_ttl :: "int \<Rightarrow> int \<Rightarrow> request \<Rightarrow> request" where
  "twr_kv_op_ttl kv_size op_ttl req =
    (let key_size = (kv_size div 2 ^ 22) mod 2 ^ 10; val_size = kv_size mod 2 ^ 22;
         op = (op_ttl div 2 ^ 24) mod 2 ^ 8; ttl = op_ttl mod 2 ^ 24
     in req\<lparr>req_key_size := key_size, req_val_size := val_size, req_obj_size := key_size + val_size,
            req_op := op_of_int op, req_ttl := ttl\<rparr>)"

definition twr_decode :: "'p renv \<Rightarrow> 'p reader_t \<Rightarrow> nat \<Rightarrow> request \<Rightarrow> request option" where
  "twr_decode R r record req = do {
     t \<leftarrow> rd_uint R r record 4;
     i \<leftarrow> rd_uint R r (record + 4) 8;
     kv_size \<leftarrow> rd_uint R r (record + 12) 4;
     op_ttl \<leftarrow> rd_uint R r (record + 16) 4;
     Some (twr_kv_op_ttl kv_size op_ttl (req\<lparr>req_clock_time := t, req_obj_id := word_of_int i\<rparr>)) }"

definition zero_val_skipped :: "'p reader_t \<Rightarrow> request \<Rightarrow> bool" where
  "zero_val_skipped r req \<longleftrightarrow>
    req_val_size req = 0 \<and> ignore_size_zero_req r \<and> (req_op req = OP_GET \<or> req_op req = OP_GETS)
    \<and> read_direction r = READ_FORWARD"

partial_function (option) twr_read_one_req ::
    "'p renv \<Rightarrow> 'p reader_t \<Rightarrow> request \<Rightarrow> 'p read_result" where
  "twr_read_one_req R r req =
    (case read_bytes r (item_size r) of
       (r, None) \<Rightarrow> Some (r, not_valid req, 1)
     | (r, Some record) \<Rightarrow> do {
         req \<leftarrow> twr_decode R r record req;
         if zero_val_skipped r req then twr_read_one_req R r req else Some (r, req, 0) })"

definition twrNSReader_setup :: "'p reader_t \<Rightarrow> 'p reader_t" where
  "twrNSReader_setup r =
    r\<lparr>trace_type := TWRNS_TRACE, trace_format := BINARY_TRACE_FORMAT, item_size := 22\<rparr>"

definition twrNS_decode :: "'p renv \<Rightarrow> 'p reader_t \<Rightarrow> nat \<Rightarrow> request \<Rightarrow> request option" where
  "twrNS_decode R r record req = do {
     t \<leftarrow> rd_uint R r record 4;
     i \<leftarrow> rd_uint R r (record + 4) 8;
     kv_size \<leftarrow> rd_uint R r (record + 12) 4;
     op_ttl \<leftarrow> rd_uint R r (record + 16) 4;
     n \<leftarrow> rd_uint R r (record + 20) 2;
     Some (twr_kv_op_ttl kv_size op_ttl
       (req\<lparr>req_clock_time := t, req_obj_id := word_of_int i, req_ns := n\<rparr>)) }"

partial_function (option) twrNS_read_one_req ::
    "'p renv \<Rightarrow> 'p reader_t \<Rightarrow> request \<Rightarrow> 'p read_result" where
  "twrNS_read_one_req R r req =
    (case read_bytes r (item_size r) of
       (r, None) \<Rightarrow> Some (r, not_valid req, 1)
     | (r, Some record) \<Rightarrow> do {
         req \<leftarrow> twrNS_decode R r record req;
         if zero_val_skipped r req then twrNS_read_one_req R r req else Some (r, req, 0) })"

text \<open>\<open>oracleSimTwrBin_setup\<close> aborts: no reader of this format is ever set up.\<close>

definition oracleSimTwrBin_setup :: "'p reader_t \<Rightarrow> 'p reader_t option" where
  "oracleSimTwrBin_setup r = None"

definition oracleSimTwr_decode :: "'p renv \<Rightarrow> 'p reader_t \<Rightarrow> nat \<Rightarrow> request \<Rightarrow> request option" where
  "oracleSimTwr_decode R r record req = do {
     t \<leftarrow> rd_uint R r record 4;
     i \<leftarrow> rd_uint R r (record + 4) 8;
     n \<leftarrow> rd_uint R r (record + 12) 2;
     ttl \<leftarrow> rd_uint R r (record + 16) 2;
     v \<leftarrow> rd_uint R r (record + 20) 8;
     Some (req\<lparr>req_clock_time := t, req_obj_id := word_of_int i, req_obj_size := n, req_ttl := ttl,
       req_next_access_vtime := next_vtime (to_int64 v)\<rparr>) }"

partial_function (option) oracleSimTwrBin_read_one_req ::
    "'p renv \<Rightarrow> 'p reader_t \<Rightarrow> request \<Rightarrow> 'p read_result" where
  "oracleSimTwrBin_read_one_req R r req =
    (case read_bytes r (item_size r) of
       (r, None) \<Rightarrow> Some (r, not_valid req, 1)
     | (r, Some record) \<Rightarrow> do {
         req \<leftarrow> oracleSimTwr_decode R r record req;
         if zero_val_skipped r req
         then do { r \<leftarrow> oracle_warn_zero_size r; oracleSimTwrBin_read_one_req R r req }
         else Some (r, req, 0) })"

definition oracleSimTwrNSBin_setup :: "'p reader_t \<Rightarrow> 'p reader_t" where
  "oracleSimTwrNSBin_setup r =
    r\<lparr>trace_type := ORACLE_SIM_TWRNS_TRACE, trace_format := BINARY_TRACE_FORMAT, item_size := 30\<rparr>"

definition oracleSimTwrNS_decode :: "'p renv \<Rightarrow> 'p reader_t \<Rightarrow> nat \<Rightarrow> request \<Rightarrow> request option" where
  "oracleSimTwrNS_decode R r record req = do {
     t \<leftarrow> rd_uint R r record 4;
     i \<leftarrow> rd_uint R r (record + 4) 8;
     n \<leftarrow> rd_uint R r (record + 12) 4;
     ttl \<leftarrow> rd_uint R r (record + 16) 4;
     k \<leftarrow> rd_uint R r (record + 20) 2;
     v \<leftarrow> rd_uint R r (record + 22) 8;
     Some (req\<lparr>req_clock_time := t, req_obj_id := word_of_int i, req_obj_size := n,
       req_ttl := to_int32 ttl, req_ns := k, req_next_access_vtime := next_vtime (to_int64 v)\<rparr>) }"

partial_function (option) oracleSimTwrNSBin_read_one_req ::
    "'p renv \<Rightarrow> 'p reader_t \<Rightarrow> request \<Rightarrow> 'p read_result" where
  "oracleSimTwrNSBin_read_one_req R r req =
    (case read_bytes r (item_size r) of
       (r, None) \<Rightarrow> Some (r, not_valid req, 1)
     | (r, Some record) \<Rightarrow> do {
         req \<leftarrow> oracleSimTwrNS_decode R r record req;
         if zero_val_skipped r req
         then do { r \<leftarrow> oracle_warn_zero_size r; oracleSimTwrNSBin_read_one_req R r req }
         else Some (r, req, 0) })"

definition oracleSysTwrNSBin_setup :: "'p reader_t \<Rightarrow> 'p reader_t" where
  "oracleSysTwrNSBin_setup r =
    r\<lparr>trace_type := ORACLE_SYS_TWRNS_TRACE, trace_format := BINARY_TRACE_FORMAT, item_size := 34\<rparr>"

definition oracleSysTwrNS_decode :: "'p renv \<Rightarrow> 'p reader_t \<Rightarrow> nat \<Rightarrow> request \<Rightarrow> request option" where
  "oracleSysTwrNS_decode R r record req = do {
     t \<leftarrow> rd_uint R r record 4;
     i \<leftarrow> rd_uint R r (record + 4) 8;
     ks \<leftarrow> rd_uint R r (record + 12) 2;
     vs \<leftarrow> rd_uint R r (record + 14) 4;
     op \<leftarrow> rd_uint R r (record + 18) 2;
     k \<leftarrow> rd_uint R r (record + 20) 2;
     ttl \<leftarrow> rd_uint R r (record + 22) 4;
     v \<leftarrow> rd_uint R r (record + 26) 8;
     Some (req\<lparr>req_clock_time := t, req_obj_id := word_of_int i, req_key_size := ks,
       req_val_size := vs, req_obj_size := ks + vs, req_op := op_of_int op, req_ns := k,
       req_ttl := to_int32 ttl, req_next_access_vtime := next_vtime (to_int64 v)\<rparr>) }"

text \<open>A record of size zero is an \<open>ERROR\<close>, which aborts; the read behind it is never reached.\<close>

definition oracleSysTwrNSBin_read_one_req ::
    "'p renv \<Rightarrow> 'p reader_t \<Rightarrow> request \<Rightarrow> 'p read_result" where
  "oracleSysTwrNSBin_read_one_req R r req =
    (case read_bytes r (item_size r) of
       (r, None) \<Rightarrow> Some (r, not_valid req, 1)
     | (r, Some record) \<Rightarrow> do {
         req \<leftarrow> oracleSysTwrNS_decode R r record req;
         if zero_val_skipped r req then None else Some (r, req, 0) })"

definition valpinReader_setup :: "'p reader_t \<Rightarrow> 'p reader_t" where
  "valpinReader_setup r =
    r\<lparr>trace_type := VALPIN_TRACE, trace_format := BINARY_TRACE_FORMAT, item_size := 8\<rparr>"

definition valpin_read_one_req :: "'p renv \<Rightarrow> 'p reader_t \<Rightarrow> request \<Rightarrow> 'p read_result" where
  "valpin_read_one_req R r req =
    (case read_bytes r (item_size r) of
       (r, None) \<Rightarrow> Some (r, not_valid req, 1)
     | (r, Some record) \<Rightarrow> do {
         i \<leftarrow> rd_uint R r record 8;
         Some (r, req\<lparr>req_obj_id := word_of_int i, req_obj_size := 1\<rparr>, 0) })"

section \<open>The lcs format\<close>

definition LCS_HEADER_SIZE :: nat where
  "LCS_HEADER_SIZE = 8192"

definition LCS_MAGIC :: int where
  "LCS_MAGIC = 0x123456789abcdef0"

text \<open>
  In the header, the version stands at byte 8, the statistics at byte 16 with the numbers of
  requests and objects in their second and third word, and the second magic number at byte 8184.
\<close>

definition verify_lcs_header :: "'p renv \<Rightarrow> 'p reader_t \<Rightarrow> nat \<Rightarrow> bool option" where
  "verify_lcs_header R r header = do {
     start_magic \<leftarrow> rd_uint R r header 8;
     end_magic \<leftarrow> rd_uint R r (header + 8184) 8;
     n_req \<leftarrow> rd_uint R r (header + 24) 8;
     n_obj \<leftarrow> rd_uint R r (header + 32) 8;
     if start_magic \<noteq> LCS_MAGIC \<or> end_magic \<noteq> LCS_MAGIC
        \<or> to_int64 n_req < 0 \<or> to_int64 n_obj < 0 then None
     else Some True }"

definition LCS_VER_TO_N_FEATURES :: "int list" where
  "LCS_VER_TO_N_FEATURES = [0, 0, 0, 0, 1, 2, 4, 8, 16, 0]"

definition lcs_item_size :: "int \<Rightarrow> nat option" where
  "lcs_item_size ver =
    (if ver = 1 then Some 24 else if ver = 2 then Some 28 else if ver = 3 then Some 36
     else if ver = 4 then Some 40 else if ver = 5 then Some 44 else if ver = 6 then Some 52
     else if ver = 7 then Some 68 else if ver = 8 then Some 100 else None)"

definition lcsReader_setup :: "'p renv \<Rightarrow> 'p reader_t \<Rightarrow> 'p reader_t option" where
  "lcsReader_setup R r =
    (case read_bytes r LCS_HEADER_SIZE of
       (r, None) \<Rightarrow> None
     | (r, Some header) \<Rightarrow> do {
         ok \<leftarrow> verify_lcs_header R r header;
         version \<leftarrow> rd_uint R r (header + 8) 8;
         n_req \<leftarrow> rd_uint R r (header + 24) 8;
         let r = r\<lparr>lcs_ver := to_int64 version, trace_type := LCS_TRACE,
           trace_format := BINARY_TRACE_FORMAT, trace_start_offset := LCS_HEADER_SIZE,
           rd_n_total_req := to_int64 n_req\<rparr>;
         n \<leftarrow> lcs_item_size (lcs_ver r);
         Some (r\<lparr>item_size := n\<rparr>) })"

definition lcs_v1 :: "'p renv \<Rightarrow> 'p reader_t \<Rightarrow> nat \<Rightarrow> request \<Rightarrow> request option" where
  "lcs_v1 R r record req = do {
     t \<leftarrow> rd_uint R r record 4;
     i \<leftarrow> rd_uint R r (record + 4) 8;
     n \<leftarrow> rd_uint R r (record + 12) 4;
     v \<leftarrow> rd_uint R r (record + 16) 8;
     Some (req\<lparr>req_clock_time := t, req_obj_id := word_of_int i, req_obj_size := n,
       req_next_access_vtime := to_int64 v\<rparr>) }"

definition lcs_v2 :: "'p renv \<Rightarrow> 'p reader_t \<Rightarrow> nat \<Rightarrow> request \<Rightarrow> request option" where
  "lcs_v2 R r record req = do {
     t \<leftarrow> rd_uint R r record 4;
     i \<leftarrow> rd_uint R r (record + 4) 8;
     n \<leftarrow> rd_uint R r (record + 12) 4;
     w \<leftarrow> rd_uint R r (record + 16) 4;
     v \<leftarrow> rd_uint R r (record + 20) 8;
     Some (req\<lparr>req_clock_time := t, req_obj_id := word_of_int i, req_obj_size := n,
       req_next_access_vtime := to_int64 v, req_tenant_id := w div 2 ^ 8,
       req_op := op_of_int (w mod 2 ^ 8)\<rparr>) }"

definition lcs_v3 :: "'p renv \<Rightarrow> 'p reader_t \<Rightarrow> nat \<Rightarrow> request \<Rightarrow> request option" where
  "lcs_v3 R r record req = do {
     t \<leftarrow> rd_uint R r record 4;
     i \<leftarrow> rd_uint R r (record + 4) 8;
     n \<leftarrow> rd_uint R r (record + 12) 8;
     w \<leftarrow> rd_uint R r (record + 20) 4;
     ttl \<leftarrow> rd_uint R r (record + 24) 4;
     v \<leftarrow> rd_uint R r (record + 28) 8;
     Some (req\<lparr>req_clock_time := t, req_obj_id := word_of_int i, req_obj_size := to_int64 n,
       req_next_access_vtime := to_int64 v, req_tenant_id := w div 2 ^ 8,
       req_op := op_of_int (w mod 2 ^ 8), req_ttl := to_int32 ttl\<rparr>) }"

fun lcs_features :: "'p renv \<Rightarrow> 'p reader_t \<Rightarrow> nat \<Rightarrow> nat \<Rightarrow> int list option" where
  "lcs_features R r i 0 = Some []"
| "lcs_features R r i (Suc n) = do {
     f \<leftarrow> rd_uint R r i 4;
     fs \<leftarrow> lcs_features R r (i + 4) n;
     Some (to_int32 f # fs) }"

text \<open>The records of the versions 4 to 8: those of version 3 and features.\<close>

definition lcs_v4 :: "'p renv \<Rightarrow> 'p reader_t \<Rightarrow> nat \<Rightarrow> request \<Rightarrow> request option" where
  "lcs_v4 R r record req = do {
     req \<leftarrow> lcs_v3 R r record req;
     let n_features = LCS_VER_TO_N_FEATURES ! nat (lcs_ver r);
     fs \<leftarrow> lcs_features R r (record + 36) (nat n_features);
     Some (req\<lparr>req_n_features := n_features,
       req_features := fs @ drop (nat n_features) (req_features req)\<rparr>) }"

definition lcs_decode :: "'p renv \<Rightarrow> 'p reader_t \<Rightarrow> nat \<Rightarrow> request \<Rightarrow> request option" where
  "lcs_decode R r record req = do {
     req \<leftarrow>
       (if lcs_ver r = 1 then lcs_v1 R r record req
        else if lcs_ver r = 2 then lcs_v2 R r record req
        else if lcs_ver r = 3 then lcs_v3 R r record req
        else if lcs_ver r \<ge> 4 \<and> lcs_ver r \<le> 8 then lcs_v4 R r record req
        else None);
     Some (req\<lparr>req_next_access_vtime := next_vtime (req_next_access_vtime req)\<rparr>) }"

partial_function (option) lcs_read_one_req ::
    "'p renv \<Rightarrow> 'p reader_t \<Rightarrow> request \<Rightarrow> 'p read_result" where
  "lcs_read_one_req R r req =
    (case read_bytes r (item_size r) of
       (r, None) \<Rightarrow> Some (r, not_valid req, 1)
     | (r, Some record) \<Rightarrow> do {
         req \<leftarrow> lcs_decode R r record req;
         if zero_size_skipped r req
         then do { r \<leftarrow> oracle_warn_zero_size r; lcs_read_one_req R r req }
         else Some (r, req, 0) })"

section \<open>The vscsi format\<close>

definition vscsi_ver_at :: "'p renv \<Rightarrow> 'p reader_t \<Rightarrow> nat \<Rightarrow> int option" where
  "vscsi_ver_at R r i = map_option (\<lambda>v. v div 2 ^ 8) (rd_uint R r i 2)"

definition test_vscsi_version :: "'p renv \<Rightarrow> 'p reader_t \<Rightarrow> vscsi_version_e option" where
  "test_vscsi_version R r = do {
     a \<leftarrow> vscsi_ver_at R r 2;
     b \<leftarrow> vscsi_ver_at R r 42;
     if a = 2 \<and> b = 2 then Some VSCSI2
     else do {
       a \<leftarrow> vscsi_ver_at R r 14;
       b \<leftarrow> vscsi_ver_at R r 46;
       Some (if a = 1 \<and> b = 1 then VSCSI1 else UNKNOWN) } }"

definition vscsiReader_setup :: "'p renv \<Rightarrow> 'p reader_t \<Rightarrow> 'p reader_t option" where
  "vscsiReader_setup R r =
    (let r = r\<lparr>trace_format := BINARY_TRACE_FORMAT\<rparr>
     in if file_size r < 40 * 2 then None
        else do {
          ver \<leftarrow> test_vscsi_version R r;
          (case ver of
             VSCSI1 \<Rightarrow> Some (r\<lparr>item_size := 32, reader_params := Vscsi_params VSCSI1\<rparr>)
           | VSCSI2 \<Rightarrow> Some (r\<lparr>item_size := 40, reader_params := Vscsi_params VSCSI2\<rparr>)
           | UNKNOWN \<Rightarrow> None) })"

definition vscsi_op :: "int \<Rightarrow> req_op_e" where
  "vscsi_op cmd =
    (if cmd = 40 \<or> cmd = 8 \<or> cmd = 136 \<or> cmd = 45 \<or> cmd = 168 then OP_READ
     else if cmd = 42 \<or> cmd = 63 \<or> cmd = 138 \<or> cmd = 142 \<or> cmd = 154 \<or> cmd = 156 \<or> cmd = 170
       \<or> cmd = 174 then OP_WRITE
     else OP_INVALID)"

definition vscsi_read_ver1 :: "'p renv \<Rightarrow> 'p reader_t \<Rightarrow> request \<Rightarrow> 'p read_result" where
  "vscsi_read_ver1 R r req = do {
     let record = mmap_offset r;
     ts \<leftarrow> rd_uint R r (record + 24) 8;
     len \<leftarrow> rd_uint R r (record + 4) 4;
     cmd \<leftarrow> rd_uint R r (record + 12) 2;
     lbn \<leftarrow> rd_uint R r (record + 16) 8;
     Some (r\<lparr>mmap_offset := mmap_offset r + item_size r\<rparr>,
       req\<lparr>req_clock_time := ts div 1000000, req_obj_size := len, req_op := vscsi_op cmd,
         req_obj_id := word_of_int lbn\<rparr>, 0) }"

definition vscsi_read_ver2 :: "'p renv \<Rightarrow> 'p reader_t \<Rightarrow> request \<Rightarrow> 'p read_result" where
  "vscsi_read_ver2 R r req = do {
     let record = mmap_offset r;
     ts \<leftarrow> rd_uint R r (record + 24) 8;
     len \<leftarrow> rd_uint R r (record + 8) 4;
     cmd \<leftarrow> rd_uint R r record 2;
     lbn \<leftarrow> rd_uint R r (record + 16) 8;
     Some (r\<lparr>mmap_offset := mmap_offset r + item_size r\<rparr>,
       req\<lparr>req_clock_time := ts div 1000000, req_obj_size := len, req_op := vscsi_op cmd,
         req_obj_id := word_of_int lbn\<rparr>, 0) }"

definition vscsi_read_one_req :: "'p renv \<Rightarrow> 'p reader_t \<Rightarrow> request \<Rightarrow> 'p read_result" where
  "vscsi_read_one_req R r req =
    (if int (mmap_offset r) \<ge> rd_n_total_req r * int (item_size r)
     then Some (r, not_valid req, 1)
     else (case reader_params r of
             Vscsi_params VSCSI1 \<Rightarrow> vscsi_read_ver1 R r req
           | Vscsi_params VSCSI2 \<Rightarrow> vscsi_read_ver2 R r req
           | _ \<Rightarrow> None))"

section \<open>The generic binary format\<close>

definition format_to_size :: "char \<Rightarrow> int option" where
  "format_to_size c =
    (if c \<in> set ''cbB'' then Some 1 else if c \<in> set ''hH'' then Some 2
     else if c \<in> set ''iIlLf'' then Some 4 else if c \<in> set ''qQd'' then Some 8 else None)"

text \<open>A character of a C string: the terminating zero stands at its end, nothing behind it.\<close>

definition char_at :: "string \<Rightarrow> int \<Rightarrow> char option" where
  "char_at s i = (if 0 \<le> i \<and> i < int (length s) then Some (s ! nat i)
     else if i = int (length s) then Some (CHR 0x00) else None)"

fun cal_offset_loop :: "string \<Rightarrow> nat \<Rightarrow> int option" where
  "cal_offset_loop s 0 = Some 0"
| "cal_offset_loop s (Suc n) = do {
     k \<leftarrow> cal_offset_loop s n;
     c \<leftarrow> char_at s (int n);
     m \<leftarrow> format_to_size c;
     Some (k + m) }"

definition cal_offset :: "string \<Rightarrow> int \<Rightarrow> int option" where
  "cal_offset s idx = cal_offset_loop s (nat (idx - 1))"

definition required_field :: "string \<Rightarrow> int \<Rightarrow> bin_field option" where
  "required_field s field = do {
     let idx = to_int8 field;
     c \<leftarrow> char_at s (idx - 1);
     k \<leftarrow> cal_offset s idx;
     Some \<lparr>field_idx = idx, field_format = c, field_offset = k\<rparr> }"

definition optional_field :: "string \<Rightarrow> int \<Rightarrow> bin_field option" where
  "optional_field s field =
    (if to_int8 field > 0 then required_field s field
     else Some \<lparr>field_idx = to_int8 field, field_format = CHR 0x00, field_offset = - 1\<rparr>)"

definition data_requests :: "'p reader_t \<Rightarrow> int" where
  "data_requests r =
    to_int64 (((int (file_size r) - int (trace_start_offset r)) mod 2 ^ 64) div int (item_size r))"

text \<open>
  The debug string at the end of the set-up calls \<open>format_to_size\<close> on the format of the object id
  and of each field that is given, which stops at an unknown one.
\<close>

definition known_format :: "bin_field \<Rightarrow> bool" where
  "known_format f \<longleftrightarrow> field_idx f \<le> 0 \<or> format_to_size (field_format f) \<noteq> None"

definition binaryReader_setup :: "'p reader_t \<Rightarrow> 'p reader_t option" where
  "binaryReader_setup r = do {
     let r = r\<lparr>trace_type := BIN_TRACE, trace_format := BINARY_TRACE_FORMAT, item_size := 0\<rparr>;
     let ip = rd_init_params r;
     fmt \<leftarrow> binary_fmt_str ip;
     c \<leftarrow> char_at fmt 0;
     if c \<noteq> CHR ''<'' then None
     else do {
       let s = tl fmt;
       i \<leftarrow> required_field s (obj_id_field ip);
       t \<leftarrow> optional_field s (time_field ip);
       n \<leftarrow> optional_field s (obj_size_field ip);
       k \<leftarrow> optional_field s (obj_cost_field ip);
       op \<leftarrow> optional_field s (op_field ip);
       ttl \<leftarrow> optional_field s (ttl_field ip);
       v \<leftarrow> optional_field s (next_access_vtime_field ip);
       m \<leftarrow> cal_offset s (int (length s) + 1);
       if m = 0 \<or> format_to_size (field_format i) = None
          \<or> \<not> list_all known_format [t, n, k, op, ttl, v] then None
       else (let r = r\<lparr>item_size := nat m, reader_params := Binary_params \<lparr>bp_obj_id = i, bp_time = t,
               bp_obj_size = n, bp_obj_cost = k, bp_op = op, bp_ttl = ttl, bp_next_access_vtime = v,
               n_fields = int (length s), bp_item_size = nat m, fmt_str = s\<rparr>\<rparr>
             in Some (r\<lparr>rd_n_total_req := data_requests r\<rparr>)) } }"

text \<open>The unsigned formats \<open>B\<close>, \<open>H\<close>, \<open>I\<close> and \<open>L\<close> are read as signed numbers.\<close>

definition read_data :: "'p renv \<Rightarrow> 'p reader_t \<Rightarrow> nat \<Rightarrow> char \<Rightarrow> int option" where
  "read_data R r src format =
    (if format \<in> set ''bBc'' then map_option to_int8 (rd_uint R r src 1)
     else if format \<in> set ''hH'' then map_option to_int16 (rd_uint R r src 2)
     else if format \<in> set ''ilIL'' then map_option to_int32 (rd_uint R r src 4)
     else if format \<in> set ''qQ'' then map_option to_int64 (rd_uint R r src 8)
     else if format = CHR ''f'' then do {
       w \<leftarrow> rd_uint R r src 4; q \<leftarrow> ieee_value 8 23 w; int64_of_double q }
     else if format = CHR ''d'' then do {
       w \<leftarrow> rd_uint R r src 8; q \<leftarrow> ieee_value 11 52 w; int64_of_double q }
     else None)"

definition read_field ::
    "'p renv \<Rightarrow> 'p reader_t \<Rightarrow> bin_field \<Rightarrow> (int \<Rightarrow> request \<Rightarrow> request) \<Rightarrow> request \<Rightarrow> request option" where
  "read_field R r f set_field req =
    (if field_idx f > 0 then do {
       x \<leftarrow> read_data R r (mmap_offset r + nat (field_offset f)) (field_format f);
       Some (set_field x req) }
     else Some req)"

definition binary_read_one_req :: "'p renv \<Rightarrow> 'p reader_t \<Rightarrow> request \<Rightarrow> 'p read_result" where
  "binary_read_one_req R r req =
    (case reader_params r of
       Binary_params p \<Rightarrow> do {
         i \<leftarrow> read_data R r (mmap_offset r + nat (field_offset (bp_obj_id p))) (field_format (bp_obj_id p));
         let req = req\<lparr>req_obj_id := word_of_int i\<rparr>;
         req \<leftarrow> read_field R r (bp_time p) (\<lambda>x req. req\<lparr>req_clock_time := x\<rparr>) req;
         req \<leftarrow> read_field R r (bp_obj_size p) (\<lambda>x req. req\<lparr>req_obj_size := x\<rparr>) req;
         req \<leftarrow> read_field R r (bp_obj_cost p) (\<lambda>x req. req\<lparr>req_obj_cost := x\<rparr>) req;
         req \<leftarrow> read_field R r (bp_op p) (\<lambda>x req. req\<lparr>req_op := op_of_int x\<rparr>) req;
         req \<leftarrow> (if support_ttl (base_env R)
           then read_field R r (bp_ttl p) (\<lambda>x req. req\<lparr>req_ttl := to_int32 x\<rparr>) req else Some req);
         req \<leftarrow> read_field R r (bp_next_access_vtime p)
           (\<lambda>x req. req\<lparr>req_next_access_vtime := if x = - 1 then MAX_REUSE_DISTANCE else x\<rparr>) req;
         Some (r\<lparr>mmap_offset := mmap_offset r + item_size r\<rparr>, req, 0) }
     | _ \<Rightarrow> None)"

section \<open>Setting up a reader\<close>

definition setup_format :: "'p renv \<Rightarrow> 'p reader_t \<Rightarrow> 'p reader_t option" where
  "setup_format R r = (case trace_type r of
       BIN_TRACE \<Rightarrow> binaryReader_setup r
     | VSCSI_TRACE \<Rightarrow> vscsiReader_setup R r
     | TWR_TRACE \<Rightarrow> Some (twrReader_setup r)
     | TWRNS_TRACE \<Rightarrow> Some (twrNSReader_setup r)
     | ORACLE_GENERAL_TRACE \<Rightarrow> Some (oracleGeneralBin_setup r)
     | ORACLE_SIM_TWR_TRACE \<Rightarrow> oracleSimTwrBin_setup r
     | ORACLE_SYS_TWRNS_TRACE \<Rightarrow> Some (oracleSysTwrNSBin_setup r)
     | ORACLE_SIM_TWRNS_TRACE \<Rightarrow> Some (oracleSimTwrNSBin_setup r)
     | LCS_TRACE \<Rightarrow> lcsReader_setup R r
     | VALPIN_TRACE \<Rightarrow> Some (valpinReader_setup r)
     | ORACLE_SYS_TWR_TRACE \<Rightarrow> None
     | UNKNOWN_TRACE \<Rightarrow> None
     | _ \<Rightarrow> other_setup (others R) r)"

text \<open>The reader before its file is opened.\<close>

definition initial_reader :: "trace_type_e \<Rightarrow> reader_init_param_t option \<Rightarrow> 'p reader_t" where
  "initial_reader type init =
    (let r = \<lparr>n_read_req = 0, rd_n_total_req = 0, file_size = 0, rd_init_params = zero_init_params,
       reader_params = No_params, trace_type = type, trace_format = INVALID_TRACE_FORMAT,
       cap_at_n_req = 0, trace_start_offset = 0, mapped_file = [], mmap_offset = 0, item_size = 0,
       ignore_size_zero_req = True, ignore_obj_size = False, n_req_left = 0,
       last_req_clock_time = - 1, lcs_ver = 0, sampler = None, read_direction = READ_FORWARD,
       warned_oracle_zero_size = False\<rparr>
     in (case init of None \<Rightarrow> r
       | Some ip \<Rightarrow> r\<lparr>rd_init_params := ip, ignore_obj_size := ip_ignore_obj_size ip,
           ignore_size_zero_req := ip_ignore_size_zero_req ip,
           trace_start_offset := ip_trace_start_offset ip, mmap_offset := ip_trace_start_offset ip,
           cap_at_n_req := ip_cap_at_n_req ip, sampler := map_option clone_sampler (ip_sampler ip)\<rparr>))"

text \<open>
  \<open>file\<close> is the content of the file at the path, \<open>None\<close> when it cannot be opened; an empty file
  cannot be mapped.  The reader of a text format does not map its file, and a synthetic trace has
  none.
\<close>

definition setup_reader ::
    "'p renv \<Rightarrow> bytes option \<Rightarrow> trace_type_e \<Rightarrow> reader_init_param_t option \<Rightarrow> 'p reader_t option" where
  "setup_reader R file type init =
    (let r = initial_reader type init
     in if type = SYNTHETIC_TRACE then other_setup (others R) r
        else do {
          m \<leftarrow> file;
          let r = r\<lparr>file_size := length m\<rparr>;
          if type \<noteq> CSV_TRACE \<and> type \<noteq> PLAIN_TXT_TRACE \<and> m = [] then None
          else do {
            let r = (if type = CSV_TRACE \<or> type = PLAIN_TXT_TRACE then r else r\<lparr>mapped_file := m\<rparr>);
            r \<leftarrow> setup_format R r;
            let r = (if trace_format r = BINARY_TRACE_FORMAT \<and> rd_n_total_req r = 0
                     then r\<lparr>rd_n_total_req := data_requests r\<rparr> else r);
            if trace_format r = INVALID_TRACE_FORMAT then None else Some r } })"

text \<open>A clone sets up the same file with the stored parameters; it shares the mapping.\<close>

definition clone_reader :: "'p renv \<Rightarrow> bytes option \<Rightarrow> 'p reader_t \<Rightarrow> 'p reader_t option" where
  "clone_reader R file r = do {
     let ip = (if trace_type r = SYNTHETIC_TRACE then (rd_init_params r)\<lparr>ip_sampler := sampler r\<rparr>
               else rd_init_params r);
     q \<leftarrow> setup_reader R file (trace_type r) (Some ip);
     let q = q\<lparr>rd_n_total_req := rd_n_total_req r\<rparr>;
     Some (if trace_format q = BINARY_TRACE_FORMAT then q\<lparr>mapped_file := mapped_file r\<rparr> else q) }"

section \<open>Reading\<close>

definition read_switch :: "'p renv \<Rightarrow> 'p reader_t \<Rightarrow> request \<Rightarrow> 'p read_result" where
  "read_switch R r req = (case trace_type r of
       BIN_TRACE \<Rightarrow> binary_read_one_req R r req
     | VSCSI_TRACE \<Rightarrow> vscsi_read_one_req R r req
     | TWR_TRACE \<Rightarrow> twr_read_one_req R r req
     | TWRNS_TRACE \<Rightarrow> twrNS_read_one_req R r req
     | ORACLE_GENERAL_TRACE \<Rightarrow> oracleGeneralBin_read_one_req R r req
     | ORACLE_SIM_TWR_TRACE \<Rightarrow> oracleSimTwrBin_read_one_req R r req
     | ORACLE_SYS_TWRNS_TRACE \<Rightarrow> oracleSysTwrNSBin_read_one_req R r req
     | ORACLE_SIM_TWRNS_TRACE \<Rightarrow> oracleSimTwrNSBin_read_one_req R r req
     | LCS_TRACE \<Rightarrow> lcs_read_one_req R r req
     | VALPIN_TRACE \<Rightarrow> valpin_read_one_req R r req
     | ORACLE_SYS_TWR_TRACE \<Rightarrow> None
     | UNKNOWN_TRACE \<Rightarrow> None
     | _ \<Rightarrow> other_read (others R) r req)"

text \<open>
  The first half of \<open>read_one_req\<close>, up to the test for a sampler; the last component says that it
  has returned.
\<close>

definition read_next :: "'p renv \<Rightarrow> 'p reader_t \<Rightarrow> request \<Rightarrow> ('p reader_t \<times> request \<times> int \<times> bool) option" where
  "read_next R r req =
    (if file_size r \<le> mmap_offset r
        \<and> (trace_type r \<noteq> SYNTHETIC_TRACE \<or> \<not> other_has_next (others R) r)
     then Some (r, not_valid req, 1, True)
     else if cap_at_n_req r > 1 \<and> n_read_req r \<ge> cap_at_n_req r
     then Some (r, not_valid req, 1, True)
     else if n_req_left r > 0
     then Some (r\<lparr>n_req_left := n_req_left r - 1\<rparr>, req\<lparr>req_clock_time := last_req_clock_time r\<rparr>, 0, False)
     else do {
       (r, req, status) \<leftarrow> read_switch R (r\<lparr>n_read_req := n_read_req r + 1\<rparr>)
         (req\<lparr>req_hv := 0, req_ttl := 0, req_obj_size := 1, req_obj_cost := 1, req_valid := True\<rparr>);
       Some (r, req, status, False) })"

text \<open>The last part of \<open>read_one_req\<close>, behind the sampler.\<close>

definition read_finish :: "'p reader_t \<Rightarrow> request \<Rightarrow> request" where
  "read_finish r req =
    (let req = (if ignore_obj_size r then req\<lparr>req_obj_size := 1\<rparr> else req);
         req = (if ignore_ttl (rd_init_params r) then req\<lparr>req_ttl := 0\<rparr> else req)
     in if obj_cost_field (rd_init_params r) \<le> 0 \<and> trace_type r \<noteq> LCP_TRACE
        then req\<lparr>req_obj_cost := 1\<rparr> else req)"

text \<open>\<open>read_one_req\<close> for a reader without a sampler, as the sampling loop calls it.\<close>

definition read_unsampled :: "'p renv \<Rightarrow> 'p reader_t \<Rightarrow> request \<Rightarrow> 'p read_result" where
  "read_unsampled R r req = do {
     (r, req, status, returned) \<leftarrow> read_next R r req;
     Some (r, if returned then req else read_finish r req, status) }"

definition go_back_one_req :: "'p renv \<Rightarrow> 'p reader_t \<Rightarrow> ('p reader_t \<times> int) option" where
  "go_back_one_req R r = (case trace_format r of
       BINARY_TRACE_FORMAT \<Rightarrow>
         (if mmap_offset r \<ge> trace_start_offset r + item_size r
          then Some (r\<lparr>mmap_offset := mmap_offset r - item_size r\<rparr>, 0) else Some (r, 1))
     | INVALID_TRACE_FORMAT \<Rightarrow> None
     | _ \<Rightarrow> other_go_back (others R) r)"

definition go_back_two_req :: "'p renv \<Rightarrow> 'p reader_t \<Rightarrow> ('p reader_t \<times> int) option" where
  "go_back_two_req R r = do {
     (r, status) \<leftarrow> go_back_one_req R r;
     if status = 0 then go_back_one_req R r else Some (r, 1) }"

text \<open>\<open>read_one_req_above\<close>, over the read that follows the step back.\<close>

definition read_above_with ::
    "('p renv \<Rightarrow> 'p reader_t \<Rightarrow> request \<Rightarrow> 'p read_result) \<Rightarrow>
     'p renv \<Rightarrow> 'p reader_t \<Rightarrow> request \<Rightarrow> 'p read_result" where
  "read_above_with read R r req =
    (if n_req_left r > 0
     then Some (r\<lparr>n_req_left := n_req_left r - 1\<rparr>, req\<lparr>req_clock_time := last_req_clock_time r\<rparr>, 0)
     else do {
       (r, status) \<leftarrow> go_back_two_req R r;
       if status = 0 then read R r req else Some (r, not_valid req, 1) })"

text \<open>The loop around the sampler, which is not in the reader while it runs.\<close>

partial_function (option) sample_loop ::
    "'p renv \<Rightarrow> sampler_t \<Rightarrow> 'p reader_t \<Rightarrow> request \<Rightarrow> int \<Rightarrow> 'p read_result" where
  "sample_loop R s r req status = do {
     (s, req, keep) \<leftarrow> sample (base_env R) s req;
     if keep then Some (r\<lparr>sampler := Some s\<rparr>, read_finish r req, status)
     else do {
       (r, req, status) \<leftarrow> (if read_direction r = READ_FORWARD then read_unsampled R r req
         else read_above_with read_unsampled R r req);
       if status \<noteq> 0 then Some (r\<lparr>sampler := Some s\<rparr>, req, status)
       else sample_loop R s r req status } }"

definition read_one_req :: "'p renv \<Rightarrow> 'p reader_t \<Rightarrow> request \<Rightarrow> 'p read_result" where
  "read_one_req R r req = do {
     (r, req, status, returned) \<leftarrow> read_next R r req;
     if returned then Some (r, req, status)
     else (case sampler r of
         None \<Rightarrow> Some (r, read_finish r req, status)
       | Some s \<Rightarrow> sample_loop R s (r\<lparr>sampler := None\<rparr>) req status) }"

definition read_one_req_above :: "'p renv \<Rightarrow> 'p reader_t \<Rightarrow> request \<Rightarrow> 'p read_result" where
  "read_one_req_above = read_above_with read_one_req"

section \<open>Positions\<close>

text \<open>\<open>N * item_size\<close> is computed in \<open>size_t\<close>, where a negative \<open>N\<close> is a large number.\<close>

definition skip_n_req :: "'p renv \<Rightarrow> 'p reader_t \<Rightarrow> int \<Rightarrow> ('p reader_t \<times> int) option" where
  "skip_n_req R r N = (case trace_format r of
       BINARY_TRACE_FORMAT \<Rightarrow>
         (let target = nat ((int (mmap_offset r) + N * int (item_size r)) mod 2 ^ 64)
          in if target \<le> file_size r then Some (r\<lparr>mmap_offset := target\<rparr>, N)
             else if item_size r = 0 then None
             else Some (r\<lparr>mmap_offset := file_size r\<rparr>,
               to_int32 (((int (file_size r) - int (mmap_offset r)) mod 2 ^ 64) div int (item_size r))))
     | INVALID_TRACE_FORMAT \<Rightarrow> None
     | _ \<Rightarrow> other_skip (others R) r N)"

definition reset_reader :: "'p renv \<Rightarrow> 'p reader_t \<Rightarrow> 'p reader_t option" where
  "reset_reader R r =
    (let r = r\<lparr>n_read_req := 0\<rparr>
     in if trace_type r \<in> {SYNTHETIC_TRACE, PLAIN_TXT_TRACE, CSV_TRACE, LCP_TRACE}
        then other_reset (others R) r
        else Some (r\<lparr>mmap_offset := trace_start_offset r\<rparr>))"

partial_function (option) count_requests :: "'p renv \<Rightarrow> 'p reader_t \<Rightarrow> request \<Rightarrow> int \<Rightarrow> int option" where
  "count_requests R r req n = do {
     (r, req, status) \<leftarrow> read_one_req R r req;
     if status = 0 then count_requests R r req (n + 1) else Some n }"

definition get_num_of_req :: "'p renv \<Rightarrow> bytes option \<Rightarrow> 'p reader_t \<Rightarrow> ('p reader_t \<times> int) option" where
  "get_num_of_req R file r =
    (if rd_n_total_req r > 0 then Some (r, rd_n_total_req r)
     else if trace_format r = TXT_TRACE_FORMAT then do {
       q \<leftarrow> clone_reader R file r;
       n \<leftarrow> count_requests R (q\<lparr>mmap_offset := 0\<rparr>) new_request 0;
       Some (r\<lparr>rd_n_total_req := n\<rparr>, n) }
     else None)"

definition reader_set_read_pos :: "'p renv \<Rightarrow> 'p reader_t \<Rightarrow> double \<Rightarrow> 'p reader_t option" where
  "reader_set_read_pos R r pos =
    (if trace_type r = SYNTHETIC_TRACE \<or> trace_format r = TXT_TRACE_FORMAT
     then other_set_pos (others R) r pos
     else do {
       let pos = (if pos > 1 then 1 else pos);
       let offset = int_of_double (double_mult (double_of_int (int (file_size r))) pos);
       if offset < 0 \<or> item_size r = 0 then None
       else Some (r\<lparr>mmap_offset := nat offset - nat offset mod item_size r\<rparr>) })"

text \<open>For a synthetic trace the two functions below read from a clone.\<close>

definition read_first_req :: "'p renv \<Rightarrow> bytes option \<Rightarrow> 'p reader_t \<Rightarrow> request \<Rightarrow> ('p reader_t \<times> request) option" where
  "read_first_req R file r req =
    (if trace_type r = SYNTHETIC_TRACE then do {
       copy \<leftarrow> clone_reader R file r;
       (copy, req, status) \<leftarrow> read_one_req R copy req;
       Some (r, req) }
     else do {
       let offset = mmap_offset r;
       r \<leftarrow> reset_reader R r;
       (r, req, status) \<leftarrow> read_one_req R r req;
       Some (r\<lparr>mmap_offset := offset\<rparr>, req) })"

definition read_last_req :: "'p renv \<Rightarrow> bytes option \<Rightarrow> 'p reader_t \<Rightarrow> request \<Rightarrow> ('p reader_t \<times> request) option" where
  "read_last_req R file r req =
    (if trace_type r = SYNTHETIC_TRACE then do {
       copy \<leftarrow> clone_reader R file r;
       copy \<leftarrow> reader_set_read_pos R copy 1;
       (copy, status) \<leftarrow> go_back_one_req R copy;
       (copy, req, status) \<leftarrow> read_one_req R (copy\<lparr>read_direction := READ_BACKWARD\<rparr>) req;
       Some (r, req) }
     else do {
       let offset = mmap_offset r;
       r \<leftarrow> reset_reader R r;
       r \<leftarrow> reader_set_read_pos R r 1;
       (r, status) \<leftarrow> go_back_one_req R r;
       (r, req, status) \<leftarrow> read_one_req R r req;
       Some (r\<lparr>mmap_offset := offset\<rparr>, req) })"

end
