(* ===== verification/Reader_Trace.thy ===== *)
theory Reader_Trace
  imports Reader
begin

text \<open>
  What a reader delivers.  The locale \<open>record_format\<close> is the contract of a format with records of
  fixed size: one step of its read function decodes the record at the offset, a record overwrites
  what the record before it wrote, and a record that is skipped leads to the next one.  From it the
  locale derives that \<open>read_one_req\<close> delivers the records of the file in order, without those that
  are skipped and up to the cap, and ends; with a sampler, it delivers the requests that the
  sampler chooses from these.  The formats of the library interpret the locale.
\<close>

section \<open>Delivered requests\<close>

text \<open>Reading until a request is not valid, as the simulator does.\<close>

partial_function (option) read_all :: "'p renv \<Rightarrow> 'p reader_t \<Rightarrow> request \<Rightarrow> request list option" where
  "read_all R r req = do {
     (r, req, status) \<leftarrow> read_one_req R r req;
     if req_valid req then do { reqs \<leftarrow> read_all R r req; Some (req # reqs) } else Some [] }"

text \<open>What \<open>read_one_req\<close> writes into a request before it is read.\<close>

definition reset_req :: "request \<Rightarrow> request" where
  "reset_req req =
    req\<lparr>req_hv := 0, req_ttl := 0, req_obj_size := 1, req_obj_cost := 1, req_valid := True\<rparr>"

text \<open>A reader but for what a read changes, the sampler apart.\<close>

definition static :: "'p reader_t \<Rightarrow> 'p reader_t" where
  "static r = r\<lparr>mmap_offset := 0, n_read_req := 0, warned_oracle_zero_size := False\<rparr>"

definition advance :: "'p reader_t \<Rightarrow> 'p reader_t" where
  "advance r = r\<lparr>mmap_offset := mmap_offset r + item_size r\<rparr>"

definition capped :: "'p reader_t \<Rightarrow> 'a list \<Rightarrow> 'a list" where
  "capped r xs = (if cap_at_n_req r > 1 then take (nat (cap_at_n_req r - n_read_req r)) xs else xs)"

lemma reset_req_simps [simp]:
  "reset_req (reset_req q) = reset_req q" "reset_req (not_valid q) = reset_req q"
  "reset_req (read_finish r q) = reset_req q" "reset_req (q\<lparr>req_hv := h\<rparr>) = reset_req q"
  "req_hv (reset_req q) = 0" "req_valid (reset_req q)"
  by (simp_all add: reset_req_def not_valid_def read_finish_def Let_def)

lemma read_finish_simps [simp]:
  "req_valid (read_finish r q) = req_valid q" "req_obj_id (read_finish r q) = req_obj_id q"
  "req_hv (read_finish r q) = req_hv q" "req_clock_time (read_finish r q) = req_clock_time q"
  "read_finish r (read_finish r q) = read_finish r q"
  "read_finish r (q\<lparr>req_hv := h\<rparr>) = (read_finish r q)\<lparr>req_hv := h\<rparr>"
  by (simp_all add: read_finish_def Let_def)

lemma not_valid_simps [simp]: "\<not> req_valid (not_valid q)" "\<not> req_valid (read_finish r (not_valid q))"
  by (simp_all add: not_valid_def)

lemma static_fields:
  assumes "static r' = static r"
  shows "file_size r' = file_size r" "item_size r' = item_size r" "trace_type r' = trace_type r"
    "trace_format r' = trace_format r" "mapped_file r' = mapped_file r" "cap_at_n_req r' = cap_at_n_req r"
    "n_req_left r' = n_req_left r" "rd_init_params r' = rd_init_params r"
    "ignore_obj_size r' = ignore_obj_size r" "ignore_size_zero_req r' = ignore_size_zero_req r"
    "read_direction r' = read_direction r" "lcs_ver r' = lcs_ver r" "reader_params r' = reader_params r"
    "sampler r' = sampler r" "trace_start_offset r' = trace_start_offset r"
  using assms by (cases r; cases r'; simp add: static_def)+

lemma static_simps [simp]:
  "static (advance r) = static r" "static (r\<lparr>n_read_req := k\<rparr>) = static r"
  "static (r\<lparr>mmap_offset := x\<rparr>) = static r" "static (r\<lparr>warned_oracle_zero_size := b\<rparr>) = static r"
  by (simp_all add: static_def advance_def)

lemma advance_simps [simp]:
  "mmap_offset (advance r) = mmap_offset r + item_size r" "n_read_req (advance r) = n_read_req r"
  by (simp_all add: advance_def)

lemma read_finish_static:
  assumes "static r' = static r"
  shows "read_finish r' = read_finish r"
  by (intro ext) (simp add: read_finish_def Let_def static_fields [OF assms])

lemma read_finish_sampler [simp]: "read_finish (r\<lparr>sampler := x\<rparr>) = read_finish r"
  by (intro ext) (simp add: read_finish_def)

lemma capped_Nil [simp]: "capped r [] = []"
  by (simp add: capped_def)

section \<open>Sampling a list\<close>

text \<open>The requests of a list that a sampler keeps, with the hash value it stores in them.\<close>

fun sampled :: "env \<Rightarrow> sampler_t \<Rightarrow> request list \<Rightarrow> request list option" where
  "sampled E s [] = Some []"
| "sampled E s (q # qs) = do {
     (s, q, keep) \<leftarrow> sample E s q;
     out \<leftarrow> sampled E s qs;
     Some (if keep then q # out else out) }"

definition sampler_ok :: "sampler_t \<Rightarrow> bool" where
  "sampler_ok s \<longleftrightarrow> s_type s = SPATIAL_SAMPLER \<longrightarrow> sampling_ratio_inv s \<noteq> 0"

lemma spatial_sample_eq:
  "sampling_ratio_inv s \<noteq> 0 \<Longrightarrow> spatial_sample E s q = Some (s,
     q\<lparr>req_hv := if sampling_salt s = 0 \<and> req_hv q = 0 then hash64 E (req_obj_id q) else req_hv q\<rparr>,
     (if sampling_salt s \<noteq> 0 then hash64 E (req_obj_id q XOR word_of_int (sampling_salt s))
      else if req_hv q = 0 then hash64 E (req_obj_id q) else req_hv q)
     mod word_of_int (sampling_ratio_inv s) = 0)"
  by (cases "sampling_salt s = 0"; cases "req_hv q = 0") (simp_all add: spatial_sample_def Let_def)

lemma SHARDS_sample_eq:
  "SHARDS_sample E s q = Some (s,
     q\<lparr>req_hv := if req_hv q = 0 then hash64 E (req_obj_id q) else req_hv q\<rparr>,
     uint ((if req_hv q = 0 then hash64 E (req_obj_id q) else req_hv q) AND (2 ^ 24 - 1))
       < SHARDS_threshold (sampling_ratio s))"
  by (cases "req_hv q = 0") (simp_all add: SHARDS_sample_def Let_def)

lemma temporal_sample_eq:
  "temporal_sample s q = Some (s\<lparr>n_samples := if n_samples s + 1 = sampling_ratio_inv s then 0
       else n_samples s + 1\<rparr>, q\<lparr>req_hv := req_hv q\<rparr>, n_samples s + 1 = sampling_ratio_inv s)"
  by (simp add: temporal_sample_def)

lemma sample_total:
  assumes "sampler_ok s"
  obtains s' h keep where "sample E s q = Some (s', q\<lparr>req_hv := h\<rparr>, keep)" "sampler_ok s'"
proof (cases "s_type s")
  case TEMPORAL_SAMPLER
  then have "sample E s q = temporal_sample s q" by (simp add: sample_def)
  from this [unfolded temporal_sample_eq] show thesis
    by (rule that) (use TEMPORAL_SAMPLER in \<open>simp add: sampler_ok_def\<close>)
qed (use assms that in \<open>auto simp: sample_def spatial_sample_eq SHARDS_sample_eq sampler_ok_def\<close>)

lemma sample_finish:
  "sample E s (read_finish r q) = map_option (\<lambda>(s, q, keep). (s, read_finish r q, keep)) (sample E s q)"
  by (cases "sampling_ratio_inv s = 0"; cases "s_type s")
    (simp_all add: sample_def spatial_sample_eq SHARDS_sample_eq temporal_sample_eq,
      simp add: spatial_sample_def Let_def split: prod.split)

lemma sampled_Cons:
  "sample E s q = Some (s', q', keep) \<Longrightarrow>
   sampled E s (q # qs) = map_option (\<lambda>out. if keep then q' # out else out) (sampled E s' qs)"
  by (cases "sampled E s' qs") auto

lemma sampled_total:
  assumes "sampler_ok s"
  shows "\<exists>out. sampled E s qs = Some out"
  using assms
proof (induction qs arbitrary: s)
  case (Cons q qs)
  obtain s' h keep where "sample E s q = Some (s', q\<lparr>req_hv := h\<rparr>, keep)" "sampler_ok s'"
    using sample_total [OF Cons.prems] .
  with Cons.IH [of s'] show ?case by auto
qed simp

section \<open>A source of requests\<close>

text \<open>
  What the code that reads a trace relies on: \<open>pending r req qs\<close> says that the reader \<open>r\<close> will fill
  \<open>req\<close> with the requests \<open>qs\<close>, one after the other, and then report the end.
\<close>

locale request_source =
  fixes R :: "'p renv" and pending :: "'p reader_t \<Rightarrow> request \<Rightarrow> request list \<Rightarrow> bool"
  assumes pending_Nil: "pending r req [] \<Longrightarrow> \<exists>r' q b. read_next R r req = Some (r', q, 1, b)
      \<and> \<not> req_valid q \<and> static r' = static r \<and> pending r' q []"
    and pending_Cons: "pending r req (d # qs) \<Longrightarrow> \<exists>r'. read_next R r req = Some (r', d, 0, False)
      \<and> req_valid d \<and> req_hv d = 0 \<and> static r' = static r \<and> pending r' d qs"
    and pending_reset: "pending r req qs \<Longrightarrow> reset_req q = reset_req req \<Longrightarrow> pending r q qs"
    and pending_sampler: "pending r req qs \<Longrightarrow> pending (r\<lparr>sampler := s\<rparr>) req qs"
begin

lemma read_one_unsampled_Nil:
  assumes "pending r req []" and "sampler r = None"
  shows "\<exists>r' q. read_one_req R r req = Some (r', q, 1) \<and> \<not> req_valid q \<and> static r' = static r
    \<and> pending r' q []"
proof -
  obtain r' q b where r: "read_next R r req = Some (r', q, 1, b)" "\<not> req_valid q"
    "static r' = static r" "pending r' q []" using pending_Nil [OF assms(1)] by blast
  have "sampler r' = None" using assms(2) by (simp add: static_fields [OF r(3)])
  with r pending_reset [OF r(4), of "read_finish r' q"] show ?thesis
    by (cases b) (auto simp: read_one_req_def)
qed

lemma read_one_unsampled_Cons:
  assumes "pending r req (d # qs)" and "sampler r = None"
  shows "\<exists>r'. read_one_req R r req = Some (r', read_finish r d, 0) \<and> req_valid d
    \<and> static r' = static r \<and> pending r' (read_finish r d) qs"
proof -
  obtain r' where r: "read_next R r req = Some (r', d, 0, False)" "req_valid d"
    "static r' = static r" "pending r' d qs" using pending_Cons [OF assms(1)] by blast
  have "sampler r' = None" "read_finish r' d = read_finish r d"
    using assms(2) by (simp_all add: static_fields [OF r(3)] read_finish_static [OF r(3)])
  with r pending_reset [OF r(4), of "read_finish r d"] show ?thesis
    by (auto simp: read_one_req_def)
qed

lemma read_unsampled_Nil:
  assumes "pending r req []"
  shows "\<exists>r' q. read_unsampled R r req = Some (r', q, 1) \<and> \<not> req_valid q \<and> static r' = static r
    \<and> pending r' q []"
proof -
  obtain r' q b where r: "read_next R r req = Some (r', q, 1, b)" "\<not> req_valid q"
    "static r' = static r" "pending r' q []" using pending_Nil [OF assms(1)] by blast
  with pending_reset [OF r(4), of "read_finish r' q"] show ?thesis
    by (cases b) (auto simp: read_unsampled_def)
qed

lemma read_unsampled_Cons:
  assumes "pending r req (d # qs)"
  shows "\<exists>r'. read_unsampled R r req = Some (r', read_finish r d, 0) \<and> req_valid d \<and> req_hv d = 0
    \<and> static r' = static r \<and> pending r' (read_finish r d) qs"
proof -
  obtain r' where r: "read_next R r req = Some (r', d, 0, False)" "req_valid d" "req_hv d = 0"
    "static r' = static r" "pending r' d qs" using pending_Cons [OF assms(1)] by blast
  have "read_finish r' d = read_finish r d" by (simp add: read_finish_static [OF r(4)])
  with r pending_reset [OF r(5), of "read_finish r d"] show ?thesis
    by (auto simp: read_unsampled_def)
qed

text \<open>Without a sampler every pending request is delivered, and the reading ends.\<close>

lemma read_all_pending:
  assumes "pending r req qs" and "sampler r = None"
  shows "read_all R r req = Some (map (read_finish r) qs)"
  using assms
proof (induction qs arbitrary: r req)
  case Nil
  then obtain r' q where "read_one_req R r req = Some (r', q, 1)" "\<not> req_valid q"
    using read_one_unsampled_Nil by blast
  then show ?case by (simp add: read_all.simps)
next
  case (Cons d qs)
  then obtain r' where r: "read_one_req R r req = Some (r', read_finish r d, 0)" "req_valid d"
    "static r' = static r" "pending r' (read_finish r d) qs"
    using read_one_unsampled_Cons by blast
  have "read_all R r' (read_finish r d) = Some (map (read_finish r') qs)"
    using Cons.IH r(4) Cons.prems(2) by (simp add: static_fields [OF r(3)])
  then show ?case using r by (subst read_all.simps) (simp add: read_finish_static [OF r(3)])
qed

text \<open>The loop around the sampler, at a request that has been read.\<close>

lemma sample_loop_pending:
  assumes "pending r d qs" and "sampler_ok s" and "req_valid d" and "read_direction r = READ_FORWARD"
    and "sampled (base_env R) s (map (read_finish r) (d # qs)) = Some out"
  shows "case out of
      [] \<Rightarrow> \<exists>r' q st. sample_loop R s r d 0 = Some (r', q, st) \<and> \<not> req_valid q
    | x # rest \<Rightarrow> \<exists>r' s' qs'. sample_loop R s r d 0 = Some (r', x, 0) \<and> req_valid x \<and> sampler_ok s'
        \<and> static r' = static (r\<lparr>sampler := Some s'\<rparr>) \<and> pending r' x qs'
        \<and> sampled (base_env R) s' (map (read_finish r) qs') = Some rest"
  using assms
proof (induction qs arbitrary: r d s)
  case Nil
  obtain s' h keep where s: "sample (base_env R) s d = Some (s', d\<lparr>req_hv := h\<rparr>, keep)" "sampler_ok s'"
    using sample_total [OF Nil.prems(2)] .
  show ?case
  proof (cases keep)
    case True
    then have "out = [(read_finish r d)\<lparr>req_hv := h\<rparr>]" using Nil.prems(5) s by (simp add: sample_finish)
    with True s Nil.prems pending_sampler [OF pending_reset [OF Nil.prems(1), of "(read_finish r d)\<lparr>req_hv := h\<rparr>"]]
    show ?thesis by (subst sample_loop.simps) (auto intro!: exI [of _ "[]"])
  next
    case False
    obtain r' q where q: "read_unsampled R r (d\<lparr>req_hv := h\<rparr>) = Some (r', q, 1)" "\<not> req_valid q"
      using read_unsampled_Nil [OF pending_reset [OF Nil.prems(1), of "d\<lparr>req_hv := h\<rparr>"]] by auto
    with False s Nil.prems show ?thesis by (subst sample_loop.simps) (auto simp: sample_finish)
  qed
next
  case (Cons e qs)
  obtain s' h keep where s: "sample (base_env R) s d = Some (s', d\<lparr>req_hv := h\<rparr>, keep)" "sampler_ok s'"
    using sample_total [OF Cons.prems(2)] .
  obtain out' where out': "sampled (base_env R) s' (map (read_finish r) (e # qs)) = Some out'"
    using sampled_total [OF s(2)] by blast
  have "sample (base_env R) s (read_finish r d) = Some (s', (read_finish r d)\<lparr>req_hv := h\<rparr>, keep)"
    using s by (simp add: sample_finish)
  from sampled_Cons [OF this, of "map (read_finish r) (e # qs)"] Cons.prems(5) out'
  have o: "out = (if keep then (read_finish r d)\<lparr>req_hv := h\<rparr> # out' else out')" by (simp del: sampled.simps)
  show ?case
  proof (cases keep)
    case True
    then have "out = (read_finish r d)\<lparr>req_hv := h\<rparr> # out'" using o by simp
    with True s out' Cons.prems pending_sampler [OF pending_reset [OF Cons.prems(1), of "(read_finish r d)\<lparr>req_hv := h\<rparr>"]]
    show ?thesis by (subst sample_loop.simps) (auto intro!: exI [of _ "e # qs"])
  next
    case False
    have out: "out = out'" using False o by simp
    obtain r' where q: "read_unsampled R r (d\<lparr>req_hv := h\<rparr>) = Some (r', read_finish r e, 0)" "req_valid e"
      "static r' = static r" "pending r' (read_finish r e) qs"
      using read_unsampled_Cons [OF pending_reset [OF Cons.prems(1), of "d\<lparr>req_hv := h\<rparr>"]] by auto
    have loop: "sample_loop R s r d 0 = sample_loop R s' r' (read_finish r e) 0"
      using False s q Cons.prems(4) by (subst sample_loop.simps) simp
    have fin: "read_finish r' = read_finish r" using read_finish_static [OF q(3)] .
    have sm: "static (r'\<lparr>sampler := x\<rparr>) = static (r\<lparr>sampler := x\<rparr>)" for x
      using q(3) by (cases r; cases r') (simp add: static_def)
    show ?thesis
      using Cons.IH [OF q(4) s(2)] q(2) out' Cons.prems(4)
      unfolding out loop fin sm by (simp add: static_fields [OF q(3)])
  qed
qed

text \<open>With a sampler the requests it keeps are delivered, and the reading ends.\<close>

lemma read_all_sampled:
  assumes "pending r req qs" and "sampler r = Some s" and "sampler_ok s"
    and "read_direction r = READ_FORWARD"
    and "sampled (base_env R) s (map (read_finish r) qs) = Some out"
  shows "read_all R r req = Some out"
  using assms
proof (induction out arbitrary: r req qs s)
  case Nil
  have "\<exists>r' q st. read_one_req R r req = Some (r', q, st) \<and> \<not> req_valid q"
  proof (cases qs)
    case Nil2: Nil
    obtain r' q b where r: "read_next R r req = Some (r', q, 1, b)" "\<not> req_valid q"
      "static r' = static r" "pending r' q []" using pending_Nil Nil.prems(1) Nil2 by blast
    let ?r = "r'\<lparr>sampler := None\<rparr>"
    obtain s' h keep where s: "sample (base_env R) s q = Some (s', q\<lparr>req_hv := h\<rparr>, keep)"
      using sample_total [OF Nil.prems(3)] .
    have "pending ?r (q\<lparr>req_hv := h\<rparr>) []"
      using pending_sampler [OF pending_reset [OF r(4), of "q\<lparr>req_hv := h\<rparr>"]] by simp
    then obtain r'' q' where "read_unsampled R ?r (q\<lparr>req_hv := h\<rparr>) = Some (r'', q', 1)" "\<not> req_valid q'"
      using read_unsampled_Nil by blast
    then show ?thesis using r s Nil.prems(2,4)
      by (cases b; cases keep) (simp_all add: read_one_req_def sample_loop.simps static_fields [OF r(3)])
  next
    case (Cons d qs')
    obtain r' where r: "read_next R r req = Some (r', d, 0, False)" "req_valid d"
      "static r' = static r" "pending r' d qs'" using pending_Cons Nil.prems(1) Cons by blast
    have "read_finish (r'\<lparr>sampler := None\<rparr>) = read_finish r"
      using read_finish_static [OF r(3)] by simp
    then show ?thesis
      using r Nil.prems sample_loop_pending [OF pending_sampler [OF r(4), of None] Nil.prems(3) r(2)] Cons
      by (auto simp: read_one_req_def static_fields [OF r(3)])
  qed
  then show ?case by (subst read_all.simps) auto
next
  case (Cons x rest)
  then obtain d qs' where qs: "qs = d # qs'" by (cases qs) auto
  obtain r' where r: "read_next R r req = Some (r', d, 0, False)" "req_valid d"
    "static r' = static r" "pending r' d qs'" using pending_Cons Cons.prems(1) qs by blast
  obtain r'' s' qs'' where l: "sample_loop R s (r'\<lparr>sampler := None\<rparr>) d 0 = Some (r'', x, 0)" "req_valid x"
    "sampler_ok s'" "static r'' = static (r'\<lparr>sampler := Some s'\<rparr>)" "pending r'' x qs''"
    "sampled (base_env R) s' (map (read_finish r) qs'') = Some rest"
    using sample_loop_pending [OF pending_sampler [OF r(4), of None] Cons.prems(3) r(2), of "x # rest"]
      Cons.prems(4,5) qs by (auto simp: read_finish_static [OF r(3)] static_fields [OF r(3)] simp del: sampled.simps)
  have f: "sampler r'' = Some s'" "read_direction r'' = READ_FORWARD" "read_finish r'' = read_finish r"
    using Cons.prems(4) by (simp_all add: static_fields [OF l(4)] static_fields [OF r(3)]
        read_finish_static [OF l(4)] read_finish_static [OF r(3)])
  have "read_one_req R r req = Some (r'', x, 0)"
    using r l(1) Cons.prems(2) by (simp add: read_one_req_def static_fields [OF r(3)])
  with Cons.IH [OF l(5) f(1) l(3) f(2)] l(2,6) f(3) show ?case by (subst read_all.simps) simp
qed

end

section \<open>Formats with records of fixed size\<close>

text \<open>
  \<open>decode\<close> is what a record at an offset writes into a request, \<open>skipped\<close> the test for a record that
  the reader leaves out, \<open>warn\<close> what it does then (\<open>None\<close>: it stops the program).
\<close>

locale record_format =
  fixes R :: "'p renv" and tt :: trace_type_e
    and decode :: "'p reader_t \<Rightarrow> nat \<Rightarrow> request \<Rightarrow> request option"
    and skipped :: "'p reader_t \<Rightarrow> request \<Rightarrow> bool" and warn :: "'p reader_t \<Rightarrow> 'p reader_t option"
  assumes not_synthetic: "tt \<noteq> SYNTHETIC_TRACE"
    and read_step: "trace_type r = tt \<Longrightarrow> mmap_offset r < file_size r \<Longrightarrow>
      read_switch R r req = do {
        req \<leftarrow> decode r (mmap_offset r) req;
        if skipped r req then do {
          r \<leftarrow> warn (advance r);
          if file_size r \<le> mmap_offset r then Some (r, not_valid req, 1) else read_switch R r req }
        else Some (advance r, req, 0) }"
    and decode_static: "static r' = static r \<Longrightarrow> decode r' = decode r"
    and skipped_static: "static r' = static r \<Longrightarrow> skipped r' = skipped r"
    and decode_sampler: "decode (r\<lparr>sampler := x\<rparr>) = decode r"
    and skipped_sampler: "skipped (r\<lparr>sampler := x\<rparr>) = skipped r"
    and warn_cases: "warn r = None \<or> (\<exists>w. warn r = Some (r\<lparr>warned_oracle_zero_size := w\<rparr>))"
    and warn_static: "static (r'\<lparr>sampler := None\<rparr>) = static (r\<lparr>sampler := None\<rparr>) \<Longrightarrow> (warn r' = None) = (warn r = None)"
    and decode_overwrites: "decode r i q = Some q' \<Longrightarrow> decode r j q' = decode r j q"
    and decode_again: "decode r i (reset_req q) = Some q' \<Longrightarrow> decode r j (reset_req q') = decode r j (reset_req q)"
    and decode_keeps: "decode r i q = Some q' \<Longrightarrow> req_hv q' = req_hv q \<and> req_valid q' = req_valid q"
begin

text \<open>The records between the offset and the end of the file.\<close>

fun view :: "'p reader_t \<Rightarrow> request \<Rightarrow> request list \<Rightarrow> bool" where
  "view r q [] \<longleftrightarrow> file_size r \<le> mmap_offset r"
| "view r q (d # ds) \<longleftrightarrow> mmap_offset r < file_size r
     \<and> decode r (mmap_offset r) q = Some d \<and> view (advance r) q ds"

definition kept :: "'p reader_t \<Rightarrow> request list \<Rightarrow> request list" where
  "kept r ds = capped r (filter (\<lambda>d. \<not> skipped r d) ds)"

definition pending :: "'p reader_t \<Rightarrow> request \<Rightarrow> request list \<Rightarrow> bool" where
  "pending r q qs \<longleftrightarrow> trace_type r = tt \<and> n_req_left r = 0 \<and> (\<exists>ds. view r (reset_req q) ds
     \<and> (warn r \<noteq> None \<or> (\<forall>d \<in> set ds. \<not> skipped r d)) \<and> qs = kept r ds)"

lemma view_cong: "(\<And>j. decode r j q' = decode r j q) \<Longrightarrow> view r q' ds = view r q ds"
proof (induction ds arbitrary: r)
  case (Cons d ds)
  have "view (advance r) q' ds = view (advance r) q ds"
    using Cons by (simp add: decode_static [of "advance r" r])
  with Cons.prems show ?case by simp
qed simp

lemma view_static:
  assumes "static r' = static r" and "mmap_offset r' = mmap_offset r"
  shows "view r' q ds = view r q ds"
  using assms
proof (induction ds arbitrary: r r')
  case Nil
  then show ?case by (simp add: static_fields(1) [OF Nil(1)])
next
  case (Cons d ds)
  have "view (advance r') q ds = view (advance r) q ds"
    by (rule Cons.IH) (simp_all add: Cons.prems static_fields(2) [OF Cons.prems(1)])
  then show ?case
    by (simp add: decode_static [OF Cons.prems(1)] Cons.prems static_fields(1) [OF Cons.prems(1)])
qed

lemma view_sampler: "view (r\<lparr>sampler := x\<rparr>) q ds = view r q ds"
proof (induction ds arbitrary: r)
  case (Cons d ds)
  have "advance (r\<lparr>sampler := x\<rparr>) = (advance r)\<lparr>sampler := x\<rparr>" by (simp add: advance_def)
  with Cons show ?case by (simp add: decode_sampler)
qed simp

text \<open>One call of the read function of the format.\<close>

lemma read_switch_view:
  assumes "trace_type r = tt" and "view r q0 ds" and "ds \<noteq> []"
    and "\<And>j. decode r j q = decode r j q0"
    and "warn r \<noteq> None \<or> (\<forall>d \<in> set ds. \<not> skipped r d)"
  shows "case dropWhile (skipped r) ds of
      [] \<Rightarrow> \<exists>r' q'. read_switch R r q = Some (r', not_valid q', 1) \<and> static r' = static r
        \<and> (\<exists>j. decode r j q0 = Some q') \<and> view r' q0 []
    | d # rest \<Rightarrow> \<exists>r'. read_switch R r q = Some (r', d, 0) \<and> static r' = static r
        \<and> n_read_req r' = n_read_req r \<and> (\<exists>j. decode r j q0 = Some d) \<and> view r' q0 rest"
  using assms
proof (induction ds arbitrary: r q)
  case (Cons d ds)
  have d: "mmap_offset r < file_size r" "decode r (mmap_offset r) q = Some d" "view (advance r) q0 ds"
    "decode r (mmap_offset r) q0 = Some d"
    using Cons.prems(2,4) by auto
  note IH = Cons.IH
  note step = read_step [OF Cons.prems(1) d(1), of q, unfolded d(2)]
  show ?case
  proof (cases "skipped r d")
    case False
    with step d show ?thesis by auto
  next
    case True
    have "warn (advance r) \<noteq> None"
      using Cons.prems(5) True warn_static [of "advance r" r] by (auto simp: advance_def static_def)
    then obtain w where w: "warn (advance r) = Some ((advance r)\<lparr>warned_oracle_zero_size := w\<rparr>)"
      using warn_cases [of "advance r"] by auto
    let ?r = "(advance r)\<lparr>warned_oracle_zero_size := w\<rparr>"
    have st: "static ?r = static r" by simp
    have v: "view ?r q0 ds" using d(3) view_static [of ?r "advance r"] by simp
    have f: "trace_type ?r = tt" "n_read_req ?r = n_read_req r" "file_size ?r = file_size r"
      using Cons.prems(1) static_fields [OF st] by (simp_all add: advance_def)
    have dj: "decode ?r j d = decode ?r j q0" for j
      using decode_overwrites [OF d(4)] by (simp add: decode_static [OF st])
    have sk: "skipped ?r = skipped r" using skipped_static [OF st] .
    have wa: "warn ?r \<noteq> None \<or> (\<forall>d \<in> set ds. \<not> skipped ?r d)"
      using Cons.prems(5) True warn_static [of ?r r] by (auto simp: advance_def static_def)
    show ?thesis
    proof (cases ds)
      case Nil
      with step True w v d(4) f show ?thesis by (auto simp: advance_def static_def intro!: exI [of _ d])
    next
      case (Cons e ds')
      then have "mmap_offset ?r < file_size ?r" using v by simp
      with step True w f(3) have eq: "read_switch R r q = read_switch R ?r d" by simp
      have dw: "dropWhile (skipped r) (d # ds) = dropWhile (skipped r) ds" using True by simp
      have "ds \<noteq> []" using Cons by simp
      from IH [OF f(1) v this dj wa] show ?thesis
        unfolding dw eq sk st f(2) decode_static [OF st] .
    qed
  qed
qed simp

lemma kept_skipped:
  "dropWhile (skipped r) ds = [] \<Longrightarrow> kept r ds = []"
  "dropWhile (skipped r) ds = d # rest \<Longrightarrow>
     filter (\<lambda>d. \<not> skipped r d) ds = d # filter (\<lambda>d. \<not> skipped r d) rest"
proof (induction ds)
  case (Cons e ds)
  { case 1 with Cons show ?case by (simp add: kept_def split: if_splits) }
  { case 2 with Cons show ?case by (simp split: if_splits) }
qed (simp_all add: kept_def)

lemma kept_static:
  assumes "static r' = static r" and "n_read_req r' = n_read_req r"
  shows "kept r' ds = kept r ds"
  by (simp add: kept_def capped_def skipped_static [OF assms(1)] static_fields [OF assms(1)] assms(2))

lemma capped_drop_first:
  assumes "static r' = static r" and "n_read_req r' = n_read_req r + 1"
    and "\<not> (cap_at_n_req r > 1 \<and> n_read_req r \<ge> cap_at_n_req r)"
  shows "capped r (x # xs) = x # capped r' xs"
proof (cases "cap_at_n_req r > 1")
  case True
  then have "nat (cap_at_n_req r - n_read_req r) = Suc (nat (cap_at_n_req r - n_read_req r'))"
    using assms(2,3) by simp
  with True show ?thesis by (simp add: capped_def static_fields [OF assms(1)])
qed (simp add: capped_def static_fields [OF assms(1)])

lemma read_next_end:
  assumes "file_size r \<le> mmap_offset r \<or> cap_at_n_req r > 1 \<and> n_read_req r \<ge> cap_at_n_req r"
    and "trace_type r = tt"
  shows "read_next R r req = Some (r, not_valid req, 1, True)"
  using assms not_synthetic by (auto simp: read_next_def)

lemma read_next_goes:
  assumes "mmap_offset r < file_size r" "\<not> (cap_at_n_req r > 1 \<and> n_read_req r \<ge> cap_at_n_req r)"
    and "n_req_left r = 0"
  shows "read_next R r req = do {
    (r, req, status) \<leftarrow> read_switch R (r\<lparr>n_read_req := n_read_req r + 1\<rparr>) (reset_req req);
    Some (r, req, status, False) }"
  using assms by (auto simp: read_next_def reset_req_def)

lemma view_again:
  assumes "decode r i (reset_req q) = Some d" and "static r' = static r"
  shows "view r' (reset_req d) ds = view r' (reset_req q) ds"
  by (rule view_cong) (simp add: decode_static [OF assms(2)] decode_again [OF assms(1)])

lemma warn_same: "static r' = static r \<Longrightarrow> (warn r' = None) = (warn r = None)"
  by (rule warn_static) (cases r; cases r'; simp add: static_def)

lemma set_dropWhile_Cons: "dropWhile P xs = y # ys \<Longrightarrow> set ys \<subseteq> set xs"
  by (metis set_dropWhileD list.set_intros(2) subsetI)

lemma records_end:
  assumes "pending r req []"
  shows "\<exists>r' q b. read_next R r req = Some (r', q, 1, b) \<and> \<not> req_valid q
    \<and> static r' = static r \<and> pending r' q []"
proof (cases "file_size r \<le> mmap_offset r \<or> cap_at_n_req r > 1 \<and> n_read_req r \<ge> cap_at_n_req r")
  case True
  with assms show ?thesis using read_next_end [OF True] by (auto simp: pending_def)
next
  case False
  from assms obtain ds where ds: "trace_type r = tt" "n_req_left r = 0" "view r (reset_req req) ds"
    "warn r \<noteq> None \<or> (\<forall>d \<in> set ds. \<not> skipped r d)" "kept r ds = []" by (auto simp: pending_def)
  let ?r = "r\<lparr>n_read_req := n_read_req r + 1\<rparr>"
  have st: "static ?r = static r" by simp
  have "dropWhile (skipped r) ds = []"
  proof (rule ccontr)
    assume "dropWhile (skipped r) ds \<noteq> []"
    then obtain d rest where "dropWhile (skipped r) ds = d # rest" by (cases "dropWhile (skipped r) ds") auto
    then have "kept r ds \<noteq> []" using kept_skipped(2) [of r ds] False
      by (simp add: kept_def capped_drop_first [OF st])
    with ds(5) show False by simp
  qed
  moreover have "ds \<noteq> []" using False ds(3) by auto
  moreover have "view ?r (reset_req req) ds" using ds(3) view_static [OF st] by simp
  moreover have "warn ?r \<noteq> None \<or> (\<forall>d \<in> set ds. \<not> skipped ?r d)"
    using ds(4) warn_same [OF st] skipped_static [OF st] by simp
  moreover have "dropWhile (skipped ?r) ds = []" using calculation(1) skipped_static [OF st] by simp
  ultimately obtain r' q where r: "read_switch R ?r (reset_req req) = Some (r', not_valid q, 1)"
    "static r' = static ?r" "view r' (reset_req req) []"
    using read_switch_view [of ?r "reset_req req" ds "reset_req req"] ds(1)
    by (auto simp del: dropWhile_eq_Nil_conv)
  then have "pending r' (not_valid q) []"
    using ds(1,2) static_fields(3,7) [OF r(2)] by (auto simp: pending_def kept_def intro!: exI [of _ "[]"])
  then show ?thesis using read_next_goes [of r req] False ds(2) r(1,2) by auto
qed

lemma records_next:
  assumes "pending r req (d # qs)"
  shows "\<exists>r'. read_next R r req = Some (r', d, 0, False) \<and> req_valid d \<and> req_hv d = 0
    \<and> static r' = static r \<and> pending r' d qs"
proof -
  from assms obtain ds where ds: "trace_type r = tt" "n_req_left r = 0" "view r (reset_req req) ds"
    "warn r \<noteq> None \<or> (\<forall>d \<in> set ds. \<not> skipped r d)" "kept r ds = d # qs" by (auto simp: pending_def)
  have "ds \<noteq> []" using ds(5) by (auto simp: kept_def)
  then have off: "mmap_offset r < file_size r" using ds(3) by (cases ds) auto
  have cap: "\<not> (cap_at_n_req r > 1 \<and> n_read_req r \<ge> cap_at_n_req r)"
    using ds(5) by (auto simp: kept_def capped_def)
  let ?r = "r\<lparr>n_read_req := n_read_req r + 1\<rparr>"
  have st: "static ?r = static r" by simp
  obtain e rest where dw: "dropWhile (skipped r) ds = e # rest"
    using kept_skipped(1) [of r ds] ds(5) by (cases "dropWhile (skipped r) ds") auto
  have "view ?r (reset_req req) ds" using ds(3) view_static [OF st] by simp
  moreover have "warn ?r \<noteq> None \<or> (\<forall>d \<in> set ds. \<not> skipped ?r d)"
    using ds(4) warn_same [OF st] skipped_static [OF st] by simp
  ultimately obtain r' i where r: "read_switch R ?r (reset_req req) = Some (r', e, 0)"
    "static r' = static ?r" "n_read_req r' = n_read_req r + 1" "decode r i (reset_req req) = Some e"
    "view r' (reset_req req) rest"
    using read_switch_view [of ?r "reset_req req" ds "reset_req req"] ds(1) \<open>ds \<noteq> []\<close> dw
      skipped_static [OF st] decode_static [OF st] by auto
  have st': "static r' = static r" using r(2) by simp
  have "d # qs = e # kept r' rest"
    using kept_skipped(2) [OF dw] ds(5)
    by (simp add: kept_def skipped_static [OF st'] capped_drop_first [OF st' r(3) cap])
  then have "d = e" "qs = kept r' rest" by simp_all
  moreover have "warn r' \<noteq> None \<or> (\<forall>d \<in> set rest. \<not> skipped r' d)"
    using ds(4) set_dropWhile_Cons [OF dw] warn_same [OF st'] skipped_static [OF st'] by auto
  ultimately have "pending r' d qs"
    using ds(1,2) static_fields(3,7) [OF st'] r(5) view_again [OF r(4) st'] by (auto simp: pending_def)
  with \<open>d = e\<close> decode_keeps [OF r(4)] show ?thesis
    using read_next_goes [OF off cap ds(2), of req] r(1) st' by auto
qed

text \<open>A file whose records can all be decoded has a view, with one entry per record.\<close>

lemma view_exists:
  assumes "0 < item_size r"
    and "\<And>i. mmap_offset r + i * item_size r < file_size r \<Longrightarrow> decode r (mmap_offset r + i * item_size r) q \<noteq> None"
  shows "\<exists>ds. view r q ds"
  using assms
proof (induction "file_size r - mmap_offset r" arbitrary: r rule: less_induct)
  case less
  show ?case
  proof (cases "mmap_offset r < file_size r")
    case True
    then obtain d where d: "decode r (mmap_offset r) q = Some d" using less.prems(2) [of 0] by auto
    have f: "item_size (advance r) = item_size r" "file_size (advance r) = file_size r"
      by (simp_all add: advance_def)
    have "\<exists>ds. view (advance r) q ds"
    proof (rule less.hyps)
      fix i assume "mmap_offset (advance r) + i * item_size (advance r) < file_size (advance r)"
      then show "decode (advance r) (mmap_offset (advance r) + i * item_size (advance r)) q \<noteq> None"
        using less.prems(2) [of "Suc i"] by (simp add: f add.assoc decode_static [of "advance r" r])
    qed (use True less.prems(1) f in simp_all)
    with True d show ?thesis by (metis view.simps(2))
  qed (use view.simps(1) in \<open>auto intro: exI [of _ "[]"]\<close>)
qed

lemma view_length:
  assumes "view r q ds" and "mmap_offset r \<le> file_size r" and "item_size r dvd file_size r - mmap_offset r"
  shows "item_size r * length ds = file_size r - mmap_offset r"
  using assms
proof (induction ds arbitrary: r)
  case (Cons d ds)
  have "mmap_offset r < file_size r" using Cons.prems(1) by simp
  then have "mmap_offset r + item_size r \<le> file_size r" using dvd_imp_le [OF Cons.prems(3)] by linarith
  moreover have "item_size r dvd file_size r - (mmap_offset r + item_size r)"
    using dvd_diff_nat [OF Cons.prems(3) dvd_refl] by (simp add: diff_diff_left)
  ultimately have "item_size r * length ds = file_size r - mmap_offset r - item_size r"
    using Cons.IH [of "advance r"] Cons.prems by (simp add: advance_def)
  with \<open>mmap_offset r + item_size r \<le> _\<close> show ?case by simp
qed simp

lemma length_kept: "length (kept r ds) \<le> length ds"
  using length_filter_le [of "\<lambda>d. \<not> skipped r d" ds]
  by (auto simp: kept_def capped_def intro: min.coboundedI1)

lemma records_reset: "pending r req qs \<Longrightarrow> reset_req q = reset_req req \<Longrightarrow> pending r q qs"
  by (simp add: pending_def)

lemma records_sampler: "pending r req qs \<Longrightarrow> pending (r\<lparr>sampler := s\<rparr>) req qs"
  using warn_static [of "r\<lparr>sampler := s\<rparr>" r]
  by (auto simp: pending_def view_sampler skipped_sampler kept_def capped_def)

end

sublocale record_format \<subseteq> request_source R pending
  by unfold_locales (fact records_end records_next records_reset records_sampler)+

end
