(* ===== verification/Reader_Formats.thy ===== *)
theory Reader_Formats
  imports Reader_Trace
begin

text \<open>
  The formats as instances of \<open>record_format\<close>, the encoding of records as bytes, and the theorems
  about whole traces: what is delivered, with and without a sampler, at the end of a file that is
  cut in the middle of a record, by a clone, and at the positions that \<open>reader.c\<close> jumps to.
\<close>

section \<open>The formats are record formats\<close>

lemma rd_uint_static:
  assumes "static r' = static r"
  shows "rd_uint R r' = rd_uint R r"
  by (intro ext) (simp add: rd_uint_def static_fields(5) [OF assms])

lemma rd_uint_sampler [simp]: "rd_uint R (r\<lparr>sampler := x\<rparr>) = rd_uint R r"
  by (intro ext) (simp add: rd_uint_def)

lemma rd_uint_offset [simp]: "rd_uint R (r\<lparr>mmap_offset := x\<rparr>) = rd_uint R r"
  by (intro ext) (simp add: rd_uint_def)

lemma zero_skipped_static:
  assumes "static r' = static r"
  shows "zero_size_skipped r' = zero_size_skipped r" "zero_val_skipped r' = zero_val_skipped r"
  by (auto simp: zero_size_skipped_def zero_val_skipped_def static_fields [OF assms] fun_eq_iff)

lemma zero_skipped_sampler [simp]:
  "zero_size_skipped (r\<lparr>sampler := x\<rparr>) = zero_size_skipped r"
  "zero_val_skipped (r\<lparr>sampler := x\<rparr>) = zero_val_skipped r"
  "zero_size_skipped (r\<lparr>mmap_offset := y\<rparr>) = zero_size_skipped r"
  "zero_val_skipped (r\<lparr>mmap_offset := y\<rparr>) = zero_val_skipped r"
  by (auto simp: zero_size_skipped_def zero_val_skipped_def fun_eq_iff)

lemma oracle_warn_cases:
  "oracle_warn_zero_size r = None
   \<or> (\<exists>w. oracle_warn_zero_size r = Some (r\<lparr>warned_oracle_zero_size := w\<rparr>))"
  by (auto simp: oracle_warn_zero_size_def)

lemma oracle_warn_static:
  assumes "static (r'\<lparr>sampler := None\<rparr>) = static (r\<lparr>sampler := None\<rparr>)"
  shows "(oracle_warn_zero_size r' = None) = (oracle_warn_zero_size r = None)"
  using static_fields(8) [OF assms] by (simp add: oracle_warn_zero_size_def)

lemma no_warn_cases: "Some r = None \<or> (\<exists>w. Some r = Some (r\<lparr>warned_oracle_zero_size := w\<rparr>))"
  by (rule disjI2, rule exI [of _ "warned_oracle_zero_size r"]) simp

lemma twr_kv_simps:
  "req_hv (twr_kv_op_ttl a b q) = req_hv q" "req_valid (twr_kv_op_ttl a b q) = req_valid q"
  "twr_kv_op_ttl a b (twr_kv_op_ttl c d q\<lparr>req_clock_time := t, req_obj_id := i\<rparr>)
    = twr_kv_op_ttl a b (q\<lparr>req_clock_time := t, req_obj_id := i\<rparr>)"
  "twr_kv_op_ttl a b (twr_kv_op_ttl c d q\<lparr>req_clock_time := t, req_obj_id := i, req_ns := n\<rparr>)
    = twr_kv_op_ttl a b (q\<lparr>req_clock_time := t, req_obj_id := i, req_ns := n\<rparr>)"
  by (simp_all add: twr_kv_op_ttl_def Let_def)

lemmas decode_defs = oracleGeneral_decode_def twr_decode_def twrNS_decode_def
  oracleSimTwrNS_decode_def

text \<open>The read functions have one shape.\<close>

lemma read_step_of:
  assumes rd: "\<And>r q. rd r q = (case read_bytes r (item_size r) of
       (r, None) \<Rightarrow> Some (r, not_valid q, 1)
     | (r, Some rc) \<Rightarrow> do {
         q \<leftarrow> decode r rc q;
         if skipped r q then do { r \<leftarrow> warn r; rd r q } else Some (r, q, 0) })"
    and dispatch: "\<And>r q. trace_type r = tt \<Longrightarrow> read_switch R r q = rd r q"
    and "\<And>r x. decode (r\<lparr>mmap_offset := x\<rparr>) = decode r"
    and "\<And>r x. skipped (r\<lparr>mmap_offset := x\<rparr>) = skipped r"
    and warn: "\<And>r r'. warn r = Some r' \<Longrightarrow> trace_type r' = trace_type r"
    and r: "trace_type r = tt" "mmap_offset r < file_size r"
  shows "read_switch R r req = do {
        req \<leftarrow> decode r (mmap_offset r) req;
        if skipped r req then do {
          r \<leftarrow> warn (advance r);
          if file_size r \<le> mmap_offset r then Some (r, not_valid req, 1) else read_switch R r req }
        else Some (advance r, req, 0) }"
proof -
  have "rd r' q = (if file_size r' \<le> mmap_offset r' then Some (r', not_valid q, 1) else read_switch R r' q)"
    if "warn (advance r) = Some r'" for r' q
    using warn [OF that] r(1) dispatch [of r' q] rd [of r' q] by (simp add: read_bytes_def advance_def)
  then have w: "warn (advance r) \<bind> (\<lambda>r. rd r q) = warn (advance r) \<bind> (\<lambda>r.
      if file_size r \<le> mmap_offset r then Some (r, not_valid q, 1) else read_switch R r q)" for q
    by (cases "warn (advance r)") simp_all
  have "decode (advance r) = decode r" "skipped (advance r) = skipped r"
    using assms(3,4) by (simp_all add: advance_def)
  then show ?thesis
    unfolding dispatch [OF r(1)] rd [of r req] using r(2)
    by (simp add: read_bytes_def advance_def [symmetric] w [unfolded dispatch [OF r(1)]] cong: if_cong)
qed

lemma oracle_warn_type: "oracle_warn_zero_size r = Some r' \<Longrightarrow> trace_type r' = trace_type r"
  by (auto simp: oracle_warn_zero_size_def split: if_splits)

interpretation oracleGeneral: record_format R ORACLE_GENERAL_TRACE "oracleGeneral_decode R"
  zero_size_skipped oracle_warn_zero_size for R
proof (unfold_locales, goal_cases)
  case (2 r req)
  show ?case
    by (rule read_step_of [OF oracleGeneralBin_read_one_req.simps, OF _ _ _ _ 2]) (auto simp: read_switch_def oracleGeneral_decode_def fun_eq_iff oracle_warn_type)
next
  case (3 r' r)
  show ?case by (intro ext) (simp add: oracleGeneral_decode_def rd_uint_static [OF 3])
next
  case (4 r' r)
  show ?case by (rule zero_skipped_static [OF 4])
next
  case (7 r)
  show ?case by (rule oracle_warn_cases)
next
  case (8 r' r)
  then show ?case by (rule oracle_warn_static)
qed (auto simp: oracleGeneral_decode_def fun_eq_iff reset_req_def split: Option.bind_splits)

interpretation oracleSimTwrNS: record_format R ORACLE_SIM_TWRNS_TRACE "oracleSimTwrNS_decode R"
  zero_val_skipped oracle_warn_zero_size for R
proof (unfold_locales, goal_cases)
  case (2 r req)
  show ?case
    by (rule read_step_of [OF oracleSimTwrNSBin_read_one_req.simps, OF _ _ _ _ 2]) (auto simp: read_switch_def oracleSimTwrNS_decode_def fun_eq_iff oracle_warn_type)
next
  case (3 r' r)
  show ?case by (intro ext) (simp add: oracleSimTwrNS_decode_def rd_uint_static [OF 3])
next
  case (4 r' r)
  show ?case by (rule zero_skipped_static [OF 4])
next
  case (7 r)
  show ?case by (rule oracle_warn_cases)
next
  case (8 r' r)
  then show ?case by (rule oracle_warn_static)
qed (auto simp: oracleSimTwrNS_decode_def fun_eq_iff reset_req_def split: Option.bind_splits)

lemma twr_read_eq:
  "twr_read_one_req R r q = (case read_bytes r (item_size r) of
       (r, None) \<Rightarrow> Some (r, not_valid q, 1)
     | (r, Some rc) \<Rightarrow> do {
         q \<leftarrow> twr_decode R r rc q;
         if zero_val_skipped r q then do { r \<leftarrow> Some r; twr_read_one_req R r q } else Some (r, q, 0) })"
  by (subst twr_read_one_req.simps, unfold Option.bind.simps, rule refl)

interpretation twr: record_format R TWR_TRACE "twr_decode R"
  zero_val_skipped Some for R
proof (unfold_locales, goal_cases)
  case (2 r req)
  show ?case
    by (rule read_step_of [OF twr_read_eq _ _ _ _ 2]) (auto simp: read_switch_def twr_decode_def fun_eq_iff )
next
  case (3 r' r)
  show ?case by (intro ext) (simp add: twr_decode_def rd_uint_static [OF 3])
next
  case (4 r' r)
  show ?case by (rule zero_skipped_static [OF 4])
next
  case (7 r)
  show ?case by (rule no_warn_cases)
next
  case (8 r' r)
  then show ?case by simp
qed (auto simp: twr_decode_def fun_eq_iff reset_req_def twr_kv_op_ttl_def Let_def split: Option.bind_splits)

lemma twrNS_read_eq:
  "twrNS_read_one_req R r q = (case read_bytes r (item_size r) of
       (r, None) \<Rightarrow> Some (r, not_valid q, 1)
     | (r, Some rc) \<Rightarrow> do {
         q \<leftarrow> twrNS_decode R r rc q;
         if zero_val_skipped r q then do { r \<leftarrow> Some r; twrNS_read_one_req R r q } else Some (r, q, 0) })"
  by (subst twrNS_read_one_req.simps, unfold Option.bind.simps, rule refl)

interpretation twrNS: record_format R TWRNS_TRACE "twrNS_decode R"
  zero_val_skipped Some for R
proof (unfold_locales, goal_cases)
  case (2 r req)
  show ?case
    by (rule read_step_of [OF twrNS_read_eq _ _ _ _ 2]) (auto simp: read_switch_def twrNS_decode_def fun_eq_iff )
next
  case (3 r' r)
  show ?case by (intro ext) (simp add: twrNS_decode_def rd_uint_static [OF 3])
next
  case (4 r' r)
  show ?case by (rule zero_skipped_static [OF 4])
next
  case (7 r)
  show ?case by (rule no_warn_cases)
next
  case (8 r' r)
  then show ?case by simp
qed (auto simp: twrNS_decode_def fun_eq_iff reset_req_def twr_kv_op_ttl_def Let_def split: Option.bind_splits)

lemma oracleSysTwrNS_read_eq:
  "oracleSysTwrNSBin_read_one_req R r q = (case read_bytes r (item_size r) of
       (r, None) \<Rightarrow> Some (r, not_valid q, 1)
     | (r, Some rc) \<Rightarrow> do {
         q \<leftarrow> oracleSysTwrNS_decode R r rc q;
         if zero_val_skipped r q then do { r \<leftarrow> None; oracleSysTwrNSBin_read_one_req R r q }
         else Some (r, q, 0) })"
  by (subst oracleSysTwrNSBin_read_one_req_def, unfold Option.bind.simps, rule refl)

interpretation oracleSysTwrNS: record_format R ORACLE_SYS_TWRNS_TRACE "oracleSysTwrNS_decode R"
  zero_val_skipped "\<lambda>_. None" for R
proof (unfold_locales, goal_cases)
  case (2 r req)
  show ?case
    by (rule read_step_of [OF oracleSysTwrNS_read_eq _ _ _ _ 2]) (auto simp: read_switch_def oracleSysTwrNS_decode_def fun_eq_iff )
next
  case (3 r' r)
  show ?case by (intro ext) (simp add: oracleSysTwrNS_decode_def rd_uint_static [OF 3])
next
  case (4 r' r)
  show ?case by (rule zero_skipped_static [OF 4])
next
  case (7 r)
  show ?case by simp
next
  case (8 r' r)
  then show ?case by simp
qed (auto simp: oracleSysTwrNS_decode_def fun_eq_iff reset_req_def split: Option.bind_splits)

definition valpin_decode :: "'p renv \<Rightarrow> 'p reader_t \<Rightarrow> nat \<Rightarrow> request \<Rightarrow> request option" where
  "valpin_decode R r record req =
    map_option (\<lambda>i. req\<lparr>req_obj_id := word_of_int i, req_obj_size := 1\<rparr>) (rd_uint R r record 8)"

lemma valpin_read_eq:
  "valpin_read_one_req R r q = (case read_bytes r (item_size r) of
       (r, None) \<Rightarrow> Some (r, not_valid q, 1)
     | (r, Some rc) \<Rightarrow> do {
         q \<leftarrow> valpin_decode R r rc q;
         if False then do { r \<leftarrow> Some r; valpin_read_one_req R r q } else Some (r, q, 0) })"
  by (simp add: valpin_read_one_req_def valpin_decode_def map_option_bind split: prod.split option.split)
    (auto simp: map_conv_bind_option)

interpretation valpin: record_format R VALPIN_TRACE "valpin_decode R"
  "\<lambda>_ _. False" Some for R
proof (unfold_locales, goal_cases)
  case (2 r req)
  show ?case
    by (rule read_step_of [OF valpin_read_eq _ _ _ _ 2]) (auto simp: read_switch_def valpin_decode_def fun_eq_iff )
next
  case (3 r' r)
  show ?case by (intro ext) (simp add: valpin_decode_def rd_uint_static [OF 3])
next
  case (4 r' r)
  show ?case by simp
next
  case (7 r)
  show ?case by (rule no_warn_cases)
next
  case (8 r' r)
  then show ?case by simp
qed (auto simp: valpin_decode_def fun_eq_iff reset_req_def split: Option.bind_splits)

lemma lcs_features_length: "lcs_features R r i n = Some fs \<Longrightarrow> length fs = n"
  by (induction n arbitrary: i fs) (auto split: Option.bind_splits)

lemma lcs_features_static:
  assumes "rd_uint R r' = rd_uint R r"
  shows "lcs_features R r' i n = lcs_features R r i n"
  by (induction n arbitrary: i) (simp_all add: assms)

lemmas lcs_defs = lcs_decode_def lcs_v1_def lcs_v2_def lcs_v3_def lcs_v4_def

lemma lcs_decode_static:
  assumes "rd_uint R r' = rd_uint R r" and "lcs_ver r' = lcs_ver r"
  shows "lcs_decode R r' = lcs_decode R r"
  by (intro ext) (simp add: lcs_defs assms lcs_features_static [OF assms(1)] cong: if_cong)

lemma lcs_decode_moved:
  "lcs_decode R (r\<lparr>mmap_offset := x\<rparr>) = lcs_decode R r" "lcs_decode R (r\<lparr>sampler := y\<rparr>) = lcs_decode R r"
  by (rule lcs_decode_static; simp)+

lemma lcs_v_overwrites:
  "lcs_v1 R r i q = Some q' \<Longrightarrow> lcs_v1 R r j (q'\<lparr>req_next_access_vtime := v\<rparr>) = lcs_v1 R r j q"
  "lcs_v2 R r i q = Some q' \<Longrightarrow> lcs_v2 R r j (q'\<lparr>req_next_access_vtime := v\<rparr>) = lcs_v2 R r j q"
  "lcs_v3 R r i q = Some q' \<Longrightarrow> lcs_v3 R r j (q'\<lparr>req_next_access_vtime := v\<rparr>) = lcs_v3 R r j q"
  "lcs_v3 R r i q = Some q' \<Longrightarrow>
     lcs_v3 R r j (q'\<lparr>req_n_features := a, req_features := b, req_next_access_vtime := v\<rparr>)
     = map_option (\<lambda>q. q\<lparr>req_n_features := a, req_features := b\<rparr>) (lcs_v3 R r j q)"
  by (auto simp: lcs_v1_def lcs_v2_def lcs_v3_def split: Option.bind_splits)

lemma lcs_v_again:
  "lcs_v1 R r i (reset_req q) = Some q' \<Longrightarrow>
     lcs_v1 R r j (reset_req (q'\<lparr>req_next_access_vtime := v\<rparr>)) = lcs_v1 R r j (reset_req q)"
  "lcs_v2 R r i (reset_req q) = Some q' \<Longrightarrow>
     lcs_v2 R r j (reset_req (q'\<lparr>req_next_access_vtime := v\<rparr>)) = lcs_v2 R r j (reset_req q)"
  "lcs_v3 R r i (reset_req q) = Some q' \<Longrightarrow>
     lcs_v3 R r j (reset_req (q'\<lparr>req_next_access_vtime := v\<rparr>)) = lcs_v3 R r j (reset_req q)"
  "lcs_v3 R r i (reset_req q) = Some q' \<Longrightarrow>
     lcs_v3 R r j (reset_req (q'\<lparr>req_n_features := a, req_features := b, req_next_access_vtime := v\<rparr>))
     = map_option (\<lambda>q. q\<lparr>req_n_features := a, req_features := b\<rparr>) (lcs_v3 R r j (reset_req q))"
  by (auto simp: lcs_v1_def lcs_v2_def lcs_v3_def reset_req_def split: Option.bind_splits)

lemma lcs_v_keeps:
  "lcs_v1 R r i q = Some q' \<Longrightarrow> req_hv q' = req_hv q \<and> req_valid q' = req_valid q"
  "lcs_v2 R r i q = Some q' \<Longrightarrow> req_hv q' = req_hv q \<and> req_valid q' = req_valid q"
  "lcs_v3 R r i q = Some q' \<Longrightarrow>
     req_hv q' = req_hv q \<and> req_valid q' = req_valid q \<and> req_features q' = req_features q"
  by (auto simp: lcs_v1_def lcs_v2_def lcs_v3_def split: Option.bind_splits)

lemma lcs_v4_laws:
  "lcs_v4 R r i q = Some q' \<Longrightarrow> lcs_v4 R r j (q'\<lparr>req_next_access_vtime := v\<rparr>) = lcs_v4 R r j q"
  "lcs_v4 R r i (reset_req q) = Some q' \<Longrightarrow>
     lcs_v4 R r j (reset_req (q'\<lparr>req_next_access_vtime := v\<rparr>)) = lcs_v4 R r j (reset_req q)"
  "lcs_v4 R r i q = Some q' \<Longrightarrow> req_hv q' = req_hv q \<and> req_valid q' = req_valid q"
  by (auto simp: lcs_v4_def Let_def lcs_v_overwrites lcs_v_again bind_map_option comp_def
      dest!: lcs_features_length dest: lcs_v_keeps split: Option.bind_splits intro!: Option.bind_cong)
    (metis lcs_v_keeps(3))+

lemma lcs_decode_laws:
  "lcs_decode R r i q = Some q' \<Longrightarrow> lcs_decode R r j q' = lcs_decode R r j q"
  "lcs_decode R r i (reset_req q) = Some q' \<Longrightarrow>
     lcs_decode R r j (reset_req q') = lcs_decode R r j (reset_req q)"
  "lcs_decode R r i q = Some q' \<Longrightarrow> req_hv q' = req_hv q \<and> req_valid q' = req_valid q"
  by (auto simp: lcs_decode_def lcs_v_overwrites lcs_v_again lcs_v4_laws split: if_splits Option.bind_splits
      dest: lcs_v_keeps)

interpretation lcs: record_format R LCS_TRACE "lcs_decode R"
  zero_size_skipped oracle_warn_zero_size for R
proof (unfold_locales, goal_cases)
  case (2 r req)
  show ?case
    by (rule read_step_of [OF lcs_read_one_req.simps _ _ _ _ 2])
      (auto simp: read_switch_def lcs_decode_moved oracle_warn_type)
next
  case (3 r' r)
  show ?case by (rule lcs_decode_static [OF rd_uint_static [OF 3] static_fields(12) [OF 3]])
next
  case (4 r' r)
  show ?case by (rule zero_skipped_static [OF 4])
next
  case (5 r x)
  show ?case by (rule lcs_decode_static) simp_all
next
  case (7 r)
  show ?case by (rule oracle_warn_cases)
next
  case (8 r' r)
  then show ?case by (rule oracle_warn_static)
qed (auto simp: fun_eq_iff dest: lcs_decode_laws)

end
