(* ===== verification/Trace_File.thy ===== *)
theory Trace_File
  imports Reader_Formats
begin

text \<open>
  Theorems about trace files: the records of an oracleGeneral file are delivered as they were
  written, a file that is cut in the middle of a record delivers one request too many, every file
  of whole records is read to its end, samplers deliver the requests they choose, a clone reads
  what the original reads, and what goes wrong at the positions that \<open>reader.c\<close> jumps to.
\<close>

section \<open>Bytes of a record\<close>

fun le_bytes :: "nat \<Rightarrow> int \<Rightarrow> bytes" where
  "le_bytes 0 v = []"
| "le_bytes (Suc n) v = word_of_int v # le_bytes n (v div 256)"

definition holds :: "nat \<Rightarrow> bytes \<Rightarrow> nat \<Rightarrow> bytes \<Rightarrow> bool" where
  "holds page m i bs \<longleftrightarrow> (\<forall>j < length bs. mapped_byte page m (i + j) = Some (bs ! j))"

lemma length_le_bytes [simp]: "length (le_bytes n v) = n"
  by (induction n arbitrary: v) auto

lemma le_value_le_bytes: "le_value (le_bytes n v) = v mod 256 ^ n"
proof (induction n arbitrary: v)
  case (Suc n)
  have "uint (word_of_int v :: 8 word) = v mod 256"
    by (simp add: unsigned_of_int take_bit_eq_mod)
  moreover have "v mod 256 + 256 * (v div 256 mod 256 ^ n) = v mod (256 * 256 ^ n)"
    by (simp add: zmod_zmult2_eq)
  ultimately show ?case using Suc by simp
qed simp

lemma holds_Cons: "holds page m i (b # bs) \<longleftrightarrow> mapped_byte page m i = Some b \<and> holds page m (Suc i) bs"
  by (simp add: holds_def All_less_Suc2)

lemma holds_append: "holds page m i (xs @ ys) \<longleftrightarrow> holds page m i xs \<and> holds page m (i + length xs) ys"
  by (induction xs arbitrary: i) (auto simp: holds_Cons, simp_all add: holds_def)

lemma load_bytes_holds: "holds page m i bs \<Longrightarrow> load_bytes page m i (length bs) = Some bs"
  by (induction bs arbitrary: i) (auto simp: holds_Cons)

lemma uint_at_holds: "holds page m i (le_bytes n v) \<Longrightarrow> uint_at page m i n = Some (v mod 256 ^ n)"
  using load_bytes_holds [of page m i "le_bytes n v"] by (simp add: uint_at_def le_value_le_bytes)

lemma holds_file: "holds page (pre @ bs @ suf) (length pre) bs"
  by (auto simp: holds_def mapped_byte_def nth_append)

section \<open>The oracleGeneral format\<close>

text \<open>The record of a request, as the comment on the format lays it out.\<close>

definition oracleGeneral_bytes :: "request \<Rightarrow> bytes" where
  "oracleGeneral_bytes q = le_bytes 4 (req_clock_time q) @ le_bytes 8 (uint (req_obj_id q))
     @ le_bytes 4 (req_obj_size q) @ le_bytes 8 (req_next_access_vtime q)"

definition oracleGeneral_range :: "request \<Rightarrow> bool" where
  "oracleGeneral_range q \<longleftrightarrow> 0 \<le> req_clock_time q \<and> req_clock_time q < 2 ^ 32
     \<and> 0 \<le> req_obj_size q \<and> req_obj_size q < 2 ^ 32
     \<and> - (2 ^ 63) \<le> req_next_access_vtime q \<and> req_next_access_vtime q < 2 ^ 63"

definition oracleGeneral_write :: "request \<Rightarrow> request \<Rightarrow> request" where
  "oracleGeneral_write b q = b\<lparr>req_clock_time := req_clock_time q, req_obj_id := req_obj_id q,
     req_obj_size := req_obj_size q, req_next_access_vtime := next_vtime (req_next_access_vtime q)\<rparr>"

lemma length_oracleGeneral_bytes [simp]: "length (oracleGeneral_bytes q) = 24"
  by (simp add: oracleGeneral_bytes_def)

lemma length_concat_oracleGeneral [simp]:
  "length (concat (map oracleGeneral_bytes rs)) = 24 * length rs"
  by (induction rs) auto

lemma to_int64_id: "- (2 ^ 63) \<le> x \<Longrightarrow> x < 2 ^ 63 \<Longrightarrow> to_int64 x = x"
  by (simp add: to_int64_def sint_sbintrunc' signed_take_bit_int_eq_self)

lemma to_int64_mod:
  assumes "- (2 ^ 63) \<le> v" and "v < 2 ^ 63"
  shows "to_int64 (v mod 2 ^ 64) = v"
proof -
  have "(word_of_int (v mod 2 ^ 64) :: 64 word) = word_of_int v"
    by (simp add: word_of_int_eq_iff take_bit_eq_mod)
  then show ?thesis using to_int64_id [OF assms] by (simp add: to_int64_def)
qed

lemma oracleGeneral_decode_bytes:
  assumes "holds (page_size R) (mapped_file r) i (oracleGeneral_bytes q)" and "oracleGeneral_range q"
  shows "oracleGeneral_decode R r i b = Some (oracleGeneral_write b q)"
proof -
  note h = assms(1) [unfolded oracleGeneral_bytes_def holds_append length_le_bytes, simplified]
  have "rd_uint R r i 4 = Some (req_clock_time q)"
    using uint_at_holds [of "page_size R" "mapped_file r" "i" 4 "req_clock_time q"] h assms(2) by (simp add: rd_uint_def add.commute oracleGeneral_range_def)
  moreover have "rd_uint R r (i + 4) 8 = Some (uint (req_obj_id q))"
    using uint_at_holds [of "page_size R" "mapped_file r" "i + 4" 8 "uint (req_obj_id q)"] h uint_lt2p [of "req_obj_id q"] by (simp add: rd_uint_def add.commute)
  moreover have "rd_uint R r (i + 12) 4 = Some (req_obj_size q)"
    using uint_at_holds [of "page_size R" "mapped_file r" "i + 12" 4 "req_obj_size q"] h assms(2) by (simp add: rd_uint_def add.commute oracleGeneral_range_def)
  moreover have "rd_uint R r (i + 16) 8 = Some (req_next_access_vtime q mod 2 ^ 64)"
    using uint_at_holds [of "page_size R" "mapped_file r" "i + 16" 8 "req_next_access_vtime q"] h by (simp add: rd_uint_def add.commute)
  ultimately show ?thesis using assms(2)
    by (simp add: oracleGeneral_decode_def oracleGeneral_write_def to_int64_mod [simplified] oracleGeneral_range_def)
qed

lemma oracleGeneral_view:
  assumes "holds (page_size R) (mapped_file r) (mmap_offset r) (concat (map oracleGeneral_bytes rs))"
    and "item_size r = 24" and "rs \<noteq> [] \<longrightarrow> mmap_offset r + 24 * (length rs - 1) < file_size r"
    and "file_size r \<le> mmap_offset r + 24 * length rs" and "\<forall>q \<in> set rs. oracleGeneral_range q"
  shows "oracleGeneral.view R r b (map (oracleGeneral_write b) rs)"
  using assms
proof (induction rs arbitrary: r)
  case (Cons q rs)
  have "oracleGeneral_decode R r (mmap_offset r) b = Some (oracleGeneral_write b q)"
    using Cons.prems by (intro oracleGeneral_decode_bytes) (simp_all add: holds_append)
  moreover have "mmap_offset r < file_size r" using Cons.prems(3) by simp
  moreover have "oracleGeneral.view R (advance r) b (map (oracleGeneral_write b) rs)"
  proof (rule Cons.IH)
    show "holds (page_size R) (mapped_file (advance r)) (mmap_offset (advance r))
        (concat (map oracleGeneral_bytes rs))"
      using Cons.prems(1,2) by (simp add: holds_append advance_def)
    show "rs \<noteq> [] \<longrightarrow> mmap_offset (advance r) + 24 * (length rs - 1) < file_size (advance r)"
      using Cons.prems(2,3) by (cases rs) (simp_all add: advance_def)
  qed (use Cons.prems in \<open>simp_all add: advance_def\<close>)
  ultimately show ?case by simp
qed simp

text \<open>A reader of the format that has just been set up.\<close>

lemma oracleGeneral_setup:
  assumes "setup_reader R (Some m) ORACLE_GENERAL_TRACE (Some ip) = Some r"
  shows "trace_type r = ORACLE_GENERAL_TRACE" "item_size r = 24" "mapped_file r = m" "file_size r = length m"
    "mmap_offset r = ip_trace_start_offset ip" "n_req_left r = 0" "n_read_req r = 0"
    "cap_at_n_req r = ip_cap_at_n_req ip" "sampler r = map_option clone_sampler (ip_sampler ip)"
    "ignore_size_zero_req r = ip_ignore_size_zero_req ip" "ignore_obj_size r = ip_ignore_obj_size ip"
    "rd_init_params r = ip" "read_direction r = READ_FORWARD" "m \<noteq> []" "trace_format r = BINARY_TRACE_FORMAT"
    "trace_start_offset r = ip_trace_start_offset ip" "rd_n_total_req r = data_requests r"
  using assms
  by (auto simp: setup_reader_def initial_reader_def setup_format_def oracleGeneralBin_setup_def Let_def data_requests_def
      split: if_splits)

text \<open>What a reader with the parameters \<open>ip\<close> delivers for a record.\<close>

definition oracleGeneral_request :: "reader_init_param_t \<Rightarrow> request \<Rightarrow> request" where
  "oracleGeneral_request ip q =
    (let d = oracleGeneral_write new_request q
     in if ip_ignore_obj_size ip then d\<lparr>req_obj_size := 1\<rparr> else d)"

lemma reset_new_request [simp]: "reset_req new_request = new_request"
  by (simp add: reset_req_def new_request_def)

lemma read_finish_oracleGeneral:
  assumes "setup_reader R (Some m) ORACLE_GENERAL_TRACE (Some ip) = Some r"
  shows "read_finish r (oracleGeneral_write new_request q) = oracleGeneral_request ip q"
  using oracleGeneral_setup [OF assms]
  by (simp add: read_finish_def oracleGeneral_request_def oracleGeneral_write_def new_request_def Let_def)

lemma oracleGeneral_pending:
  assumes "setup_reader R (Some m) ORACLE_GENERAL_TRACE (Some ip) = Some r"
    and "ip_trace_start_offset ip = 0"
    and "holds (page_size R) m 0 (concat (map oracleGeneral_bytes rs))"
    and "rs \<noteq> []" and "24 * (length rs - 1) < length m" and "length m \<le> 24 * length rs"
    and "\<forall>q \<in> set rs. oracleGeneral_range q"
    and "\<not> require_valid_next_access ip \<or> (\<forall>q \<in> set rs. req_obj_size q \<noteq> 0)"
  shows "oracleGeneral.pending R r new_request (capped r (map (oracleGeneral_write new_request)
    (filter (\<lambda>q. req_obj_size q \<noteq> 0 \<or> \<not> ip_ignore_size_zero_req ip) rs)))"
proof -
  note r = oracleGeneral_setup [OF assms(1)]
  have "oracleGeneral.view R r new_request (map (oracleGeneral_write new_request) rs)"
    by (rule oracleGeneral_view) (use assms r in simp_all)
  moreover have sk: "zero_size_skipped r (oracleGeneral_write new_request q)
      \<longleftrightarrow> req_obj_size q = 0 \<and> ip_ignore_size_zero_req ip" for q
    using r by (simp add: zero_size_skipped_def oracleGeneral_write_def)
  moreover have "oracle_warn_zero_size r \<noteq> None \<or> (\<forall>q \<in> set rs. req_obj_size q \<noteq> 0)"
    using assms(8) r(12) by (auto simp: oracle_warn_zero_size_def)
  ultimately show ?thesis
    using r by (auto simp: oracleGeneral.pending_def oracleGeneral.kept_def filter_map comp_def
        intro!: exI [of _ "map (oracleGeneral_write new_request) rs"])
qed

lemma capped_new:
  "n_read_req r = 0 \<Longrightarrow> capped r xs = (if cap_at_n_req r > 1 then take (nat (cap_at_n_req r)) xs else xs)"
  by (simp add: capped_def)

lemma capped_map: "map f (capped r xs) = capped r (map f xs)"
  by (simp add: capped_def take_map)

lemma data_requests_div:
  assumes "trace_start_offset r = 0" and "file_size r < 2 ^ 63"
  shows "data_requests r = int (file_size r div item_size r)"
proof -
  have "file_size r div item_size r < 2 ^ 63" using assms(2) by (meson div_le_dividend le_less_trans)
  then have "int (file_size r div item_size r) < 2 ^ 63" by (metis of_nat_less_iff of_nat_numeral of_nat_power)
  then have "to_int64 (int (file_size r div item_size r)) = int (file_size r div item_size r)"
    by (intro to_int64_id) simp_all
  with assms show ?thesis by (simp add: data_requests_def zdiv_int)
qed


text \<open>A reader environment for the examples: no other formats, pages of 4096 bytes.\<close>

definition no_other_formats :: "unit other_formats" where
  "no_other_formats = \<lparr>other_setup = \<lambda>r. None, other_has_next = \<lambda>r. False, other_read = \<lambda>r q. None,
     other_go_back = \<lambda>r. None, other_skip = \<lambda>r n. None, other_reset = \<lambda>r. None,
     other_set_pos = \<lambda>r p. None\<rparr>"

definition sample_renv :: "unit renv" where
  "sample_renv = \<lparr>base_env = sample_env, page_size = 4096, others = no_other_formats\<rparr>"

lemma oracleGeneral_setup_Some:
  "m \<noteq> [] \<Longrightarrow> \<exists>r. setup_reader R (Some m) ORACLE_GENERAL_TRACE (Some ip) = Some r"
  by (simp add: setup_reader_def initial_reader_def setup_format_def oracleGeneralBin_setup_def Let_def)

lemma oracleGeneral_bytes_ne [simp]: "oracleGeneral_bytes q \<noteq> []"
  using length_oracleGeneral_bytes [of q] by fastforce

lemma sample_req_range [simp]:
  "0 \<le> n \<Longrightarrow> n < 2 ^ 32 \<Longrightarrow> oracleGeneral_range (sample_req i n)"
  by (simp add: oracleGeneral_range_def sample_req_def new_request_def)


section \<open>A file that is cut\<close>

lemma holds_cut:
  assumes "n \<le> length bs" and "\<forall>i. n \<le> i \<and> i < length bs \<longrightarrow> bs ! i = 0"
    and "length bs \<le> page * ((n + page - 1) div page)"
  shows "holds page (take n bs) 0 bs"
  using assms by (auto simp: holds_def mapped_byte_def not_less)

text \<open>
  C37: a trace that is cut in the middle of a record delivers one request too many.  The file holds
  the records of \<open>rs\<close> and the first bytes of a record, as of a file whose copy was interrupted; the
  missing bytes are read as the zeros behind the end of the file, so that the request \<open>q\<close>, the
  record filled up with zeros, is delivered as well, although the number of requests of the reader
  is that of the whole records.
\<close>

theorem oracleGeneral_cut_file:
  assumes "setup_reader R (Some (take n (concat (map oracleGeneral_bytes (rs @ [q])))))
      ORACLE_GENERAL_TRACE (Some default_reader_init_params) = Some r"
    and "24 * length rs < n" and "n < 24 * length rs + 24" and "n < 2 ^ 63"
    and "24 * length rs + 24 \<le> page_size R * ((n + page_size R - 1) div page_size R)"
    and "\<forall>i < 24. n - 24 * length rs \<le> i \<longrightarrow> oracleGeneral_bytes q ! i = 0"
    and "\<forall>q \<in> set (rs @ [q]). oracleGeneral_range q \<and> req_obj_size q \<noteq> 0"
  shows "read_all R r new_request
      = Some (map (oracleGeneral_request default_reader_init_params) (rs @ [q]))
    \<and> rd_n_total_req r = int (length rs)"
proof
  let ?bs = "concat (map oracleGeneral_bytes (rs @ [q]))" and ?ip = default_reader_init_params
  note r = oracleGeneral_setup [OF assms(1)]
  have ip: "ip_trace_start_offset ?ip = 0" "ip_sampler ?ip = None" "ip_cap_at_n_req ?ip = - 1"
    "ip_ignore_size_zero_req ?ip" by (simp_all add: default_reader_init_params_def)
  have len: "length (take n ?bs) = n" using assms(3) by simp
  have "holds (page_size R) (take n ?bs) 0 ?bs"
  proof (rule holds_cut)
    show "\<forall>i. n \<le> i \<and> i < length ?bs \<longrightarrow> ?bs ! i = 0"
      using assms(2,6) by (auto simp: nth_append)
  qed (use assms(3,5) in simp_all)
  then have "oracleGeneral.pending R r new_request (capped r (map (oracleGeneral_write new_request)
      (filter (\<lambda>q. req_obj_size q \<noteq> 0 \<or> \<not> ip_ignore_size_zero_req ?ip) (rs @ [q]))))"
    using assms(2,3,7) len ip by (intro oracleGeneral_pending [OF assms(1)]) auto
  moreover have "filter (\<lambda>q. req_obj_size q \<noteq> 0 \<or> \<not> ip_ignore_size_zero_req ?ip) (rs @ [q]) = rs @ [q]"
    using assms(7) by (intro filter_True) auto
  ultimately have "oracleGeneral.pending R r new_request
      (capped r (map (oracleGeneral_write new_request) (rs @ [q])))" by (simp only:)
  from oracleGeneral.read_all_pending [OF this] r(8,9) ip
  show "read_all R r new_request = Some (map (oracleGeneral_request ?ip) (rs @ [q]))"
    by (simp add: capped_new [OF r(7)] comp_def read_finish_oracleGeneral [OF assms(1)])
  have "n div 24 = length rs" using assms(2,3) by simp
  then show "rd_n_total_req r = int (length rs)"
    using data_requests_div [of r] r(2,4,16,17) ip assms(4) len by simp
qed

lemma le_bytes_zero [simp]: "le_bytes n 0 = replicate n 0"
  by (induction n) auto

theorem oracleGeneral_cut_file_witness:
  "\<exists>r. setup_reader sample_renv
      (Some (take 40 (concat (map oracleGeneral_bytes
        ([sample_req 1 7] @ [(sample_req 2 9)\<lparr>req_next_access_vtime := 0\<rparr>])))))
      ORACLE_GENERAL_TRACE (Some default_reader_init_params) = Some r
    \<and> read_all sample_renv r new_request
        = Some [sample_req 1 7, (sample_req 2 9)\<lparr>req_next_access_vtime := 0\<rparr>]
    \<and> rd_n_total_req r = 1"
proof -
  let ?q = "(sample_req 2 9)\<lparr>req_next_access_vtime := 0\<rparr>"
  let ?m = "take 40 (concat (map oracleGeneral_bytes ([sample_req 1 7] @ [?q])))"
  obtain r where r: "setup_reader sample_renv (Some ?m)
      ORACLE_GENERAL_TRACE (Some default_reader_init_params) = Some r"
    using oracleGeneral_setup_Some [of ?m] by auto
  have "\<forall>i < 24. 16 \<le> i \<longrightarrow> oracleGeneral_bytes ?q ! i = 0"
    by (auto simp: oracleGeneral_bytes_def nth_append)
  with oracleGeneral_cut_file [OF r] show ?thesis
    using r by (simp add: sample_renv_def default_reader_init_params_def oracleGeneral_request_def
        oracleGeneral_write_def sample_req_def new_request_def next_vtime_def oracleGeneral_range_def)
qed

section \<open>Files of whole records\<close>

lemma load_bytes_inside: "i + n \<le> length m \<Longrightarrow> \<exists>bs. load_bytes page m i n = Some bs"
proof (induction n arbitrary: i)
  case (Suc n)
  then have "Suc i + n \<le> length m" by simp
  from Suc.IH [OF this] obtain bs where "load_bytes page m (Suc i) n = Some bs" by blast
  with Suc.prems show ?case by (simp add: mapped_byte_def)
qed simp

lemma rd_uint_inside: "i + n \<le> length (mapped_file r) \<Longrightarrow> \<exists>v. rd_uint R r i n = Some v"
  using load_bytes_inside [of i n "mapped_file r" "page_size R"] by (auto simp: rd_uint_def uint_at_def)

text \<open>The formats whose records have one size.\<close>

definition record_size :: "trace_type_e \<Rightarrow> nat" where
  "record_size t = (case t of ORACLE_GENERAL_TRACE \<Rightarrow> 24 | ORACLE_SIM_TWRNS_TRACE \<Rightarrow> 30
     | TWR_TRACE \<Rightarrow> 20 | TWRNS_TRACE \<Rightarrow> 22 | VALPIN_TRACE \<Rightarrow> 8 | _ \<Rightarrow> 0)"

definition plain_reader :: "'p reader_t \<Rightarrow> bool" where
  "plain_reader r \<longleftrightarrow> 0 < record_size (trace_type r) \<and> item_size r = record_size (trace_type r)
     \<and> n_req_left r = 0 \<and> length (mapped_file r) = file_size r \<and> mmap_offset r \<le> file_size r
     \<and> item_size r dvd file_size r - mmap_offset r \<and> read_direction r = READ_FORWARD
     \<and> \<not> require_valid_next_access (rd_init_params r)"

lemma decode_inside:
  "i + 24 \<le> length (mapped_file r) \<Longrightarrow> oracleGeneral_decode R r i q \<noteq> None"
  "i + 30 \<le> length (mapped_file r) \<Longrightarrow> oracleSimTwrNS_decode R r i q \<noteq> None"
  "i + 20 \<le> length (mapped_file r) \<Longrightarrow> twr_decode R r i q \<noteq> None"
  "i + 22 \<le> length (mapped_file r) \<Longrightarrow> twrNS_decode R r i q \<noteq> None"
  "i + 8 \<le> length (mapped_file r) \<Longrightarrow> valpin_decode R r i q \<noteq> None"
  using rd_uint_inside [of i 4 r R] rd_uint_inside [of "i + 4" 8 r R] rd_uint_inside [of "i + 12" 4 r R]
    rd_uint_inside [of "i + 16" 8 r R] rd_uint_inside [of "i + 16" 4 r R] rd_uint_inside [of "i + 20" 2 r R]
    rd_uint_inside [of "i + 22" 8 r R] rd_uint_inside [of i 8 r R]
  by (auto simp: decode_defs valpin_decode_def add.assoc)

lemma grid_inside:
  assumes "a + i * k < n" and "k dvd n - a" and "a \<le> (n :: nat)"
  shows "a + i * k + k \<le> n"
proof -
  obtain c where "n - a = k * c" using assms(2) by (rule dvdE)
  then have "n = a + k * c" using assms(3) by simp
  with assms(1) have "i < c" by (simp add: mult.commute)
  then have "(i + 1) * k \<le> c * k" by (intro mult_le_mono1) simp
  with \<open>n = a + k * c\<close> show ?thesis by (simp add: algebra_simps)
qed

context record_format
begin

lemma plain_pending:
  assumes "plain_reader r" and "trace_type r = tt" and "warn r \<noteq> None"
    and "\<And>i q. i + item_size r \<le> length (mapped_file r) \<Longrightarrow> decode r i q \<noteq> None"
  shows "\<exists>qs. pending r req qs \<and> item_size r * length qs \<le> file_size r - mmap_offset r"
proof -
  have "\<exists>ds. view r (reset_req req) ds"
  proof (rule view_exists)
    fix i assume "mmap_offset r + i * item_size r < file_size r"
    then have "mmap_offset r + i * item_size r + item_size r \<le> file_size r"
      using assms(1) by (intro grid_inside) (auto simp: plain_reader_def)
    then show "decode r (mmap_offset r + i * item_size r) (reset_req req) \<noteq> None"
      using assms(1) by (intro assms(4)) (simp add: plain_reader_def)
  qed (use assms(1) in \<open>simp add: plain_reader_def\<close>)
  then obtain ds where ds: "view r (reset_req req) ds" by blast
  have "item_size r * length ds = file_size r - mmap_offset r"
    using assms(1) by (intro view_length [OF ds]) (auto simp: plain_reader_def)
  moreover have "item_size r * length (kept r ds) \<le> item_size r * length ds"
    using length_kept by simp
  ultimately have "item_size r * length (kept r ds) \<le> file_size r - mmap_offset r" by simp
  moreover have "pending r req (kept r ds)"
    using ds assms(1-3) by (auto simp: pending_def plain_reader_def)
  ultimately show ?thesis by blast
qed

end

text \<open>A file of whole records is a source of requests, whatever the format.\<close>

lemma plain_source:
  assumes "plain_reader r"
  shows "\<exists>P qs. request_source R P \<and> P r req qs \<and> item_size r * length qs \<le> file_size r - mmap_offset r"
proof -
  note p = assms [unfolded plain_reader_def record_size_def]
  have w: "oracle_warn_zero_size r \<noteq> None" using p by (simp add: oracle_warn_zero_size_def)
  consider "trace_type r = ORACLE_GENERAL_TRACE" "item_size r = 24"
    | "trace_type r = ORACLE_SIM_TWRNS_TRACE" "item_size r = 30"
    | "trace_type r = TWR_TRACE" "item_size r = 20" | "trace_type r = TWRNS_TRACE" "item_size r = 22"
    | "trace_type r = VALPIN_TRACE" "item_size r = 8"
    using p by (cases "trace_type r") auto
  then show ?thesis
  proof cases
    case 1
    with oracleGeneral.plain_pending [OF assms 1(1) w, of R req] decode_inside(1) [of _ r R]
      oracleGeneral.request_source_axioms show ?thesis by metis
  next
    case 2
    with oracleSimTwrNS.plain_pending [OF assms 2(1) w, of R req] decode_inside(2) [of _ r R]
      oracleSimTwrNS.request_source_axioms show ?thesis by metis
  next
    case 3
    with twr.plain_pending [OF assms 3(1), of R req] decode_inside(3) [of _ r R]
      twr.request_source_axioms show ?thesis by (metis option.distinct(1))
  next
    case 4
    with twrNS.plain_pending [OF assms 4(1), of R req] decode_inside(4) [of _ r R]
      twrNS.request_source_axioms show ?thesis by (metis option.distinct(1))
  next
    case 5
    with valpin.plain_pending [OF assms 5(1), of R req] decode_inside(5) [of _ r R]
      valpin.request_source_axioms show ?thesis by (metis option.distinct(1))
  qed
qed

lemma sampled_length: "sampled E s qs = Some out \<Longrightarrow> length out \<le> length qs"
proof (induction qs arbitrary: s out)
  case (Cons q qs)
  then obtain s' q' keep out' where "sample E s q = Some (s', q', keep)" "sampled E s' qs = Some out'"
    "out = (if keep then q' # out' else out')" by (auto elim!: bind_SomeE)
  with Cons.IH [of s' out'] show ?case by auto
qed simp

text \<open>
  C15: reading a trace ends.  For every reader at the start of whole records of the oracleGeneral,
  oracleSimTwrNS, twr, twrNS or valpin format, with any cap and with or without a sampler, the
  requests are delivered without a failure, and there are at most as many as the records.  This
  holds for runs of skipped records and for samplers that refuse every request.
\<close>

theorem whole_file_is_read:
  assumes "plain_reader r" and "\<forall>s. sampler r = Some s \<longrightarrow> sampler_ok s"
  shows "\<exists>reqs. read_all R r req = Some reqs
    \<and> item_size r * length reqs \<le> file_size r - mmap_offset r"
proof -
  obtain P qs where P: "request_source R P" "P r req qs"
    "item_size r * length qs \<le> file_size r - mmap_offset r" using plain_source [OF assms(1)] by blast
  show ?thesis
  proof (cases "sampler r")
    case None
    with request_source.read_all_pending [OF P(1,2)] P(3) show ?thesis by simp
  next
    case (Some s)
    then have s: "sampler_ok s" using assms(2) by simp
    obtain out where out: "sampled (base_env R) s (map (read_finish r) qs) = Some out"
      using sampled_total [OF s] by blast
    have "read_direction r = READ_FORWARD" using assms(1) by (simp add: plain_reader_def)
    from request_source.read_all_sampled [OF P(1,2) Some s this out]
    have "read_all R r req = Some out" .
    moreover have "item_size r * length out \<le> file_size r - mmap_offset r"
      using le_trans [OF mult_le_mono2 P(3)] sampled_length [OF out] by simp
    ultimately show ?thesis by auto
  qed
qed

text \<open>A reader on the bytes of two records of the valpin format, and one that refuses every request.\<close>

lemma sample_reader_exists:
  "\<exists>r. setup_reader sample_renv (Some (replicate 48 1)) VALPIN_TRACE
      (Some (default_reader_init_params\<lparr>ip_sampler := Some s\<rparr>)) = Some r
    \<and> plain_reader r \<and> sampler r = Some (clone_sampler s) \<and> file_size r = 48 \<and> mmap_offset r = 0 \<and> item_size r = 8"
  by (simp add: setup_reader_def initial_reader_def setup_format_def valpinReader_setup_def Let_def plain_reader_def
      record_size_def default_reader_init_params_def data_requests_def)

theorem whole_file_is_read_witness:
  "\<exists>r s reqs. setup_reader sample_renv (Some (replicate 48 1)) VALPIN_TRACE
      (Some (default_reader_init_params\<lparr>ip_sampler := Some s\<rparr>)) = Some r
    \<and> s_type s = TEMPORAL_SAMPLER \<and> read_all sample_renv r new_request = Some reqs \<and> length reqs \<le> 6"
proof -
  let ?s = "\<lparr>s_type = TEMPORAL_SAMPLER, sampling_ratio_inv = 2, sampling_ratio = 1 / 2,
    sampling_salt = 0, n_samples = 0\<rparr>"
  obtain r where r: "setup_reader sample_renv (Some (replicate 48 1)) VALPIN_TRACE
      (Some (default_reader_init_params\<lparr>ip_sampler := Some ?s\<rparr>)) = Some r" "plain_reader r"
    "sampler r = Some (clone_sampler ?s)" "file_size r = 48" "mmap_offset r = 0" "item_size r = 8"
    using sample_reader_exists by blast
  have "\<forall>s. sampler r = Some s \<longrightarrow> sampler_ok s" using r(3) by (simp add: sampler_ok_def clone_sampler_def)
  from whole_file_is_read [OF r(2) this, of sample_renv new_request] r show ?thesis
    by (intro exI [of _ r] exI [of _ ?s]) auto
qed

section \<open>Samplers\<close>

lemma sampled_filter:
  assumes "\<And>q. req_hv q = 0 \<Longrightarrow> sample E s q = Some (s, f q, P q)" and "\<forall>q \<in> set qs. req_hv q = 0"
  shows "sampled E s qs = Some (map f (filter P qs))"
  using assms(2) by (induction qs) (simp_all add: assms(1))

text \<open>The requests that a reader without a sampler delivers have no hash value.\<close>

lemma plain_pending_hv:
  assumes "request_source R P" and "P r req qs"
  shows "\<forall>q \<in> set qs. req_hv q = 0"
  using assms(2)
proof (induction qs arbitrary: r req)
  case (Cons q qs)
  with request_source.pending_Cons [OF assms(1) Cons.prems] show ?case by auto
qed simp

text \<open>A reader with a sampler delivers what the sampler keeps of the trace without it.\<close>

lemma read_all_sampler:
  assumes "plain_reader r" and "sampler_ok s"
  shows "\<exists>reqs. read_all R (r\<lparr>sampler := None\<rparr>) req = Some reqs \<and> (\<forall>q \<in> set reqs. req_hv q = 0)
    \<and> read_all R (r\<lparr>sampler := Some s\<rparr>) req = sampled (base_env R) s reqs"
proof -
  obtain P qs where P: "request_source R P" "P r req qs" using plain_source [OF assms(1)] by blast
  note p = request_source.pending_sampler [OF P]
  obtain out where out: "sampled (base_env R) s (map (read_finish r) qs) = Some out"
    using sampled_total [OF assms(2)] by blast
  have "read_all R (r\<lparr>sampler := None\<rparr>) req = Some (map (read_finish r) qs)"
    using request_source.read_all_pending [OF P(1) p, of None] by simp
  moreover have "read_all R (r\<lparr>sampler := Some s\<rparr>) req = Some out"
    using request_source.read_all_sampled [OF P(1) p, of "Some s" s out] assms out
    by (simp add: plain_reader_def)
  moreover have "\<forall>q \<in> set (map (read_finish r) qs). req_hv q = 0"
    using plain_pending_hv [OF P] by simp
  ultimately show ?thesis using out by auto
qed

text \<open>
  C36: a spatial sampler keeps all requests for an object or none.  A reader with the sampler
  delivers exactly the requests of the trace without it whose object id, mixed with the salt, has a
  hash that the inverse of the ratio divides; without a salt it stores the hash in them.
\<close>

theorem spatial_sampler_filters:
  assumes "plain_reader r" and "s_type s = SPATIAL_SAMPLER" and "sampling_ratio_inv s \<noteq> 0"
  shows "\<exists>reqs. read_all R (r\<lparr>sampler := None\<rparr>) req = Some reqs
    \<and> read_all R (r\<lparr>sampler := Some s\<rparr>) req = Some (
        map (\<lambda>q. if sampling_salt s = 0 then q\<lparr>req_hv := hash64 (base_env R) (req_obj_id q)\<rparr> else q)
         (filter (\<lambda>q. hash64 (base_env R) (req_obj_id q XOR word_of_int (sampling_salt s))
           mod word_of_int (sampling_ratio_inv s) = 0) reqs))"
proof -
  have "sampler_ok s" using assms(3) by (simp add: sampler_ok_def)
  from read_all_sampler [OF assms(1) this, of R req] obtain reqs
    where reqs: "read_all R (r\<lparr>sampler := None\<rparr>) req = Some reqs" "\<forall>q \<in> set reqs. req_hv q = 0"
      "read_all R (r\<lparr>sampler := Some s\<rparr>) req = sampled (base_env R) s reqs" by blast
  have "sample (base_env R) s q = Some (s,
      if sampling_salt s = 0 then q\<lparr>req_hv := hash64 (base_env R) (req_obj_id q)\<rparr> else q,
      hash64 (base_env R) (req_obj_id q XOR word_of_int (sampling_salt s))
        mod word_of_int (sampling_ratio_inv s) = 0)" if "req_hv q = 0" for q
    using assms(2,3) that by (simp add: sample_def spatial_sample_def Let_def)
  from sampled_filter [OF this reqs(2)] reqs(1,3) show ?thesis by simp
qed

theorem spatial_sampler_filters_witness:
  "\<exists>r reqs. plain_reader r \<and> file_size r = 48
    \<and> read_all sample_renv (r\<lparr>sampler := None\<rparr>) new_request = Some reqs
    \<and> read_all sample_renv (r\<lparr>sampler := Some \<lparr>s_type = SPATIAL_SAMPLER, sampling_ratio_inv = 2,
        sampling_ratio = 1 / 2, sampling_salt = 5, n_samples = 0\<rparr>\<rparr>) new_request
      = Some (filter (\<lambda>q. (req_obj_id q XOR 5) mod 2 = 0) reqs)"
proof -
  let ?s = "\<lparr>s_type = SPATIAL_SAMPLER, sampling_ratio_inv = 2, sampling_ratio = 1 / 2, sampling_salt = 5,
    n_samples = 0\<rparr>"
  obtain r :: "unit reader_t" where r: "plain_reader r" "file_size r = 48" using sample_reader_exists by blast
  from spatial_sampler_filters [OF r(1), of ?s sample_renv new_request] r show ?thesis
    by (auto simp: sample_renv_def intro!: exI [of _ r])
qed

lemma sampled_temporal:
  assumes "s_type s = TEMPORAL_SAMPLER" and "sampling_ratio_inv s = int k"
  shows "c < k \<Longrightarrow> sampled E (s\<lparr>n_samples := int c\<rparr>) qs = Some (nths qs {i. k dvd i + c + 1})"
proof (induction qs arbitrary: c)
  case (Cons q qs)
  show ?case
  proof (cases "c + 1 = k")
    case True
    have "sample E (s\<lparr>n_samples := int c\<rparr>) q = Some (s\<lparr>n_samples := int 0\<rparr>, q, True)"
      using assms True by (auto simp: sample_def temporal_sample_def Let_def)
    moreover have "k dvd Suc i + c + 1 \<longleftrightarrow> k dvd i + 0 + 1" for i
    proof -
      have "Suc i + c + 1 = (i + 0 + 1) + k" using True by simp
      then show ?thesis by (simp only: dvd_add_triv_right_iff)
    qed
    ultimately show ?thesis using Cons.IH [of 0] Cons.prems True
      by (simp add: sampled_Cons nths_Cons del: sampled.simps)
  next
    case False
    then have c: "c + 1 < k" using Cons.prems by simp
    have "sample E (s\<lparr>n_samples := int c\<rparr>) q = Some (s\<lparr>n_samples := int (c + 1)\<rparr>, q, False)"
      using assms False by (auto simp: sample_def temporal_sample_def Let_def)
    moreover have "\<not> k dvd c + 1" using c by (auto dest: dvd_imp_le)
    ultimately show ?thesis using Cons.IH [OF c]
      by (simp add: sampled_Cons nths_Cons del: sampled.simps)
  qed
qed simp

text \<open>
  A temporal sampler keeps every \<open>k\<close>-th request.  With the inverse ratio \<open>k\<close> and a counter
  that starts at zero, a reader with the sampler delivers the requests at the positions \<open>k\<close>,
  \<open>2 * k\<close> and so on of the trace without it, counted from one.
\<close>

theorem temporal_sampler_every_kth:
  assumes "plain_reader r" and "s_type s = TEMPORAL_SAMPLER" and "sampling_ratio_inv s = int k"
    and "0 < k" and "n_samples s = 0"
  shows "\<exists>reqs. read_all R (r\<lparr>sampler := None\<rparr>) req = Some reqs
    \<and> read_all R (r\<lparr>sampler := Some s\<rparr>) req = Some (nths reqs {i. k dvd i + 1})"
proof -
  have "sampler_ok s" using assms(2) by (simp add: sampler_ok_def)
  from read_all_sampler [OF assms(1) this, of R req] obtain reqs
    where reqs: "read_all R (r\<lparr>sampler := None\<rparr>) req = Some reqs"
      "read_all R (r\<lparr>sampler := Some s\<rparr>) req = sampled (base_env R) s reqs" by blast
  have "s\<lparr>n_samples := int 0\<rparr> = s" using assms(5) by simp
  with sampled_temporal [OF assms(2,3), of 0 "base_env R" reqs] assms(4) reqs show ?thesis by simp
qed

theorem temporal_sampler_every_kth_witness:
  "\<exists>r reqs. plain_reader r \<and> file_size r = 48
    \<and> read_all sample_renv (r\<lparr>sampler := None\<rparr>) new_request = Some reqs
    \<and> read_all sample_renv (r\<lparr>sampler := Some \<lparr>s_type = TEMPORAL_SAMPLER, sampling_ratio_inv = 3,
        sampling_ratio = 1 / 3, sampling_salt = 0, n_samples = 0\<rparr>\<rparr>) new_request
      = Some (nths reqs {i. 3 dvd i + 1})"
proof -
  let ?s = "\<lparr>s_type = TEMPORAL_SAMPLER, sampling_ratio_inv = 3, sampling_ratio = 1 / 3, sampling_salt = 0,
    n_samples = 0\<rparr>"
  obtain r :: "unit reader_t" where r: "plain_reader r" "file_size r = 48" using sample_reader_exists by blast
  from temporal_sampler_every_kth [OF r(1), of ?s 3 sample_renv new_request] r show ?thesis
    by (auto intro!: exI [of _ r])
qed

section \<open>Clones\<close>

definition modelled_type :: "trace_type_e \<Rightarrow> bool" where
  "modelled_type t \<longleftrightarrow> t \<in> {BIN_TRACE, VSCSI_TRACE, TWR_TRACE, TWRNS_TRACE, ORACLE_GENERAL_TRACE,
     ORACLE_SYS_TWRNS_TRACE, ORACLE_SIM_TWRNS_TRACE, LCS_TRACE, VALPIN_TRACE}"

definition set_up :: "'p reader_t \<Rightarrow> 'p reader_t \<Rightarrow> bool" where
  "set_up r r' \<longleftrightarrow> trace_type r' = trace_type r \<and> rd_init_params r' = rd_init_params r
     \<and> mapped_file r' = mapped_file r \<and> trace_format r' = BINARY_TRACE_FORMAT
     \<and> ignore_size_zero_req r' = ignore_size_zero_req r"

lemma lcsReader_setup_keeps:
  "lcsReader_setup R r = Some r' \<Longrightarrow> trace_type r = LCS_TRACE \<Longrightarrow> set_up r r'"
  by (auto simp: lcsReader_setup_def read_bytes_def set_up_def Let_def split: if_splits elim!: bind_SomeE)

lemma vscsiReader_setup_keeps: "vscsiReader_setup R r = Some r' \<Longrightarrow> set_up r r'"
  by (auto simp: vscsiReader_setup_def set_up_def Let_def split: if_splits vscsi_version_e.splits
      elim!: bind_SomeE)

lemma binaryReader_setup_keeps:
  "binaryReader_setup r = Some r' \<Longrightarrow> trace_type r = BIN_TRACE \<Longrightarrow> set_up r r'"
  unfolding binaryReader_setup_def Let_def
  by (elim bind_SomeE, simp split: if_splits, elim bind_SomeE, simp add: set_up_def split: if_splits)
    (auto simp: set_up_def)

lemma setup_format_keeps:
  assumes "setup_format R r = Some r'" and "modelled_type (trace_type r)"
  shows "set_up r r'"
  using assms
  by (cases "trace_type r") (auto simp: setup_format_def modelled_type_def twrReader_setup_def twrNSReader_setup_def
      oracleGeneralBin_setup_def oracleSysTwrNSBin_setup_def oracleSimTwrNSBin_setup_def valpinReader_setup_def
      set_up_def dest: lcsReader_setup_keeps vscsiReader_setup_keeps binaryReader_setup_keeps)

lemma setup_reader_keeps:
  assumes "setup_reader R (Some m) t init = Some r" and "modelled_type t"
  shows "trace_type r = t" "rd_init_params r = (case init of None \<Rightarrow> zero_init_params | Some ip \<Rightarrow> ip)"
    "mapped_file r = m" "trace_format r = BINARY_TRACE_FORMAT"
    "ignore_size_zero_req r = (case init of None \<Rightarrow> True | Some ip \<Rightarrow> ip_ignore_size_zero_req ip)"
proof -
  let ?r = "(initial_reader t init)\<lparr>file_size := length m, mapped_file := m\<rparr> :: 'a reader_t"
  have t: "t \<noteq> SYNTHETIC_TRACE" "t \<noteq> CSV_TRACE" "t \<noteq> PLAIN_TXT_TRACE"
    using assms(2) by (auto simp: modelled_type_def)
  then obtain r' where r': "setup_format R ?r = Some r'" "r = (if rd_n_total_req r' = 0
      \<and> trace_format r' = BINARY_TRACE_FORMAT then r'\<lparr>rd_n_total_req := data_requests r'\<rparr> else r')"
    using assms(1) by (auto simp: setup_reader_def Let_def split: if_splits elim!: bind_SomeE)
  have i: "trace_type ?r = t" "rd_init_params ?r = (case init of None \<Rightarrow> zero_init_params | Some ip \<Rightarrow> ip)"
    "mapped_file ?r = m" "ignore_size_zero_req ?r = (case init of None \<Rightarrow> True | Some ip \<Rightarrow> ip_ignore_size_zero_req ip)"
    by (simp_all add: initial_reader_def Let_def split: option.split)
  have "set_up ?r r'" using setup_format_keeps [OF r'(1)] i(1) assms(2) by simp
  then have "set_up ?r r" by (simp add: r'(2) set_up_def)
  with i show "trace_type r = t" "rd_init_params r = (case init of None \<Rightarrow> zero_init_params | Some ip \<Rightarrow> ip)"
    "mapped_file r = m" "trace_format r = BINARY_TRACE_FORMAT"
    "ignore_size_zero_req r = (case init of None \<Rightarrow> True | Some ip \<Rightarrow> ip_ignore_size_zero_req ip)"
    by (simp_all add: set_up_def)
qed

text \<open>
  A clone reads the trace of its original from the start.  The clone of a reader that has been
  set up with parameters is the reader itself as it was set up, so that every thread of the
  simulator reads the same requests.
\<close>

theorem clone_reader_same:
  assumes "setup_reader R (Some m) t (Some ip) = Some r" and "modelled_type t"
  shows "clone_reader R (Some m) r = Some r"
proof -
  note r = setup_reader_keeps [OF assms]
  have "t \<noteq> SYNTHETIC_TRACE" using assms(2) by (auto simp: modelled_type_def)
  with r assms(1) show ?thesis by (simp add: clone_reader_def)
qed

theorem clone_reader_same_witness:
  "\<exists>r. setup_reader sample_renv (Some (oracleGeneral_bytes (sample_req 1 7))) ORACLE_GENERAL_TRACE
      (Some default_reader_init_params) = Some r
    \<and> clone_reader sample_renv (Some (oracleGeneral_bytes (sample_req 1 7))) r = Some r"
  using oracleGeneral_setup_Some [of "oracleGeneral_bytes (sample_req 1 7)" sample_renv default_reader_init_params]
    clone_reader_same [of sample_renv "oracleGeneral_bytes (sample_req 1 7)" ORACLE_GENERAL_TRACE]
  by (auto simp: modelled_type_def)

text \<open>
  Without parameters a clone reads another trace.  A reader that has been set up without
  parameters skips records of size zero; its clone is set up with parameters that are all zero, and
  does not.
\<close>

theorem clone_without_params_differs:
  assumes "setup_reader R (Some m) t None = Some r" and "0 < record_size t"
  shows "\<exists>q. clone_reader R (Some m) r = Some q \<and> ignore_size_zero_req r \<and> \<not> ignore_size_zero_req q"
proof -
  have t: "modelled_type t" using assms(2) by (auto simp: modelled_type_def record_size_def split: trace_type_e.splits)
  note r = setup_reader_keeps [OF assms(1) t]
  have "\<exists>q. setup_reader R (Some m) t (Some zero_init_params) = Some q"
    using assms by (auto simp: setup_reader_def initial_reader_def setup_format_def record_size_def Let_def
        twrReader_setup_def twrNSReader_setup_def oracleGeneralBin_setup_def oracleSimTwrNSBin_setup_def
        valpinReader_setup_def split: trace_type_e.splits if_splits)
  then obtain q where q: "setup_reader R (Some m) t (Some zero_init_params) = Some q" by blast
  have "t \<noteq> SYNTHETIC_TRACE" using t by (auto simp: modelled_type_def)
  with r q setup_reader_keeps [OF q t] show ?thesis by (simp add: clone_reader_def zero_init_params_def)
qed

theorem clone_without_params_differs_witness:
  "\<exists>r q. setup_reader sample_renv (Some (oracleGeneral_bytes (sample_req 1 7))) ORACLE_GENERAL_TRACE None = Some r
    \<and> clone_reader sample_renv (Some (oracleGeneral_bytes (sample_req 1 7))) r = Some q
    \<and> ignore_size_zero_req r \<and> \<not> ignore_size_zero_req q"
proof -
  have "\<exists>r. setup_reader sample_renv (Some (oracleGeneral_bytes (sample_req 1 7))) ORACLE_GENERAL_TRACE None = Some r"
    by (simp add: setup_reader_def initial_reader_def setup_format_def oracleGeneralBin_setup_def Let_def)
  with clone_without_params_differs [of sample_renv "oracleGeneral_bytes (sample_req 1 7)" ORACLE_GENERAL_TRACE]
  show ?thesis by (auto simp: record_size_def)
qed

section \<open>Positions\<close>

lemma set_read_pos_end:
  assumes "trace_type r \<noteq> SYNTHETIC_TRACE" and "trace_format r = BINARY_TRACE_FORMAT"
    and "file_size r < 2 ^ 53" and "0 < item_size r"
  shows "reader_set_read_pos R r 1 = Some (r\<lparr>mmap_offset := file_size r - file_size r mod item_size r\<rparr>)"
proof -
  have "double_of_int (int (file_size r)) = of_int (int (file_size r))"
    using assms(3) by (intro double_of_int_exact) simp_all
  then have "int_of_double (double_mult (double_of_int (int (file_size r))) 1) = int (file_size r)"
    by (simp add: double_mult_def double_of_int_def int_of_double_def)
  with assms show ?thesis by (simp add: reader_set_read_pos_def)
qed

text \<open>
  C38: the last request of an lcs trace is read from the wrong place.  The position at the end of
  the file is rounded to a multiple of the record size from the start of the file, but the records
  start behind the header of 8192 bytes, which 24 does not divide: for a version 1 trace of more than
  one request \<open>read_last_req\<close> decodes a record that begins 8 bytes before the last one.
\<close>

theorem lcs_last_request_misplaced:
  assumes "trace_type r = LCS_TRACE" and "trace_format r = BINARY_TRACE_FORMAT" and "item_size r = 24"
    and "trace_start_offset r = 8192" and "file_size r = 8192 + 24 * n" and "1 < n" and "n < 2 ^ 48"
    and "n_req_left r = 0" and "cap_at_n_req r \<le> 1" and "sampler r = None"
    and "lcs_decode R r (8192 + 24 * (n - 1) - 8) (reset_req req) = Some q" and "\<not> zero_size_skipped r q"
  shows "\<exists>r'. read_last_req R file r req = Some (r', read_finish r q)"
proof -
  let ?o = "8192 + 24 * (n - 1) - 8"
  let ?r = "r\<lparr>n_read_req := 0, mmap_offset := ?o\<rparr>"
  have "file_size r - file_size r mod 24 = ?o + 24" using assms(5,6) by presburger
  then have "reader_set_read_pos R (r\<lparr>n_read_req := 0, mmap_offset := 8192\<rparr>) 1
      = Some (r\<lparr>n_read_req := 0, mmap_offset := ?o + 24\<rparr>)"
    using set_read_pos_end [of "r\<lparr>n_read_req := 0, mmap_offset := 8192\<rparr>" R] assms by simp
  moreover have "reset_reader R r = Some (r\<lparr>n_read_req := 0, mmap_offset := 8192\<rparr>)"
    using assms(1,4) by (simp add: reset_reader_def Let_def)
  moreover have "go_back_one_req R (r\<lparr>n_read_req := 0, mmap_offset := ?o + 24\<rparr>) = Some (?r, 0)"
    using assms(2-6) by (simp add: go_back_one_req_def)
  moreover have "\<exists>r'. read_one_req R ?r req = Some (r', read_finish r q, 0)"
  proof -
    let ?r1 = "r\<lparr>mmap_offset := ?o, n_read_req := 1\<rparr>"
    have st: "static ?r1 = static r" by (simp add: static_def)
    have d: "lcs_decode R ?r1 = lcs_decode R r" using lcs.decode_static [OF st] .
    have z: "zero_size_skipped ?r1 = zero_size_skipped r" using zero_skipped_static(1) [OF st] .
    have "read_switch R ?r1 (reset_req req) = Some (advance ?r1, q, 0)"
      using lcs.read_step [of ?r1 R "reset_req req"] assms d z by simp
    moreover have "?o < file_size r" using assms(5,6) by simp
    ultimately have "read_next R ?r req = Some (advance ?r1, q, 0, False)"
      using assms(1,8,9) by (simp add: read_next_def reset_req_def)
    moreover have "read_finish (advance ?r1) = read_finish r"
      by (rule read_finish_static) (simp add: static_def advance_def)
    ultimately show ?thesis using assms(3,10) by (simp add: read_one_req_def advance_def)
  qed
  ultimately show ?thesis using assms(1) by (auto simp: read_last_req_def)
qed

lemma lcs_v1_inside:
  assumes "lcs_ver r = 1" and "i + 24 \<le> length (mapped_file r)"
  shows "\<exists>q'. lcs_decode R r i q = Some q'"
  using assms rd_uint_inside [of i 4 r R] rd_uint_inside [of "i + 4" 8 r R]
    rd_uint_inside [of "i + 12" 4 r R] rd_uint_inside [of "i + 16" 8 r R]
  by (auto simp: lcs_decode_def lcs_v1_def add.assoc)

theorem lcs_last_request_misplaced_witness:
  "\<exists>(r :: unit reader_t) r' q. file_size r = 8192 + 24 * 2 \<and> trace_type r = LCS_TRACE
    \<and> lcs_decode sample_renv r 8208 (reset_req new_request) = Some q
    \<and> read_last_req sample_renv None r new_request = Some (r', read_finish r q)"
proof -
  let ?r = "(initial_reader LCS_TRACE None)\<lparr>trace_format := BINARY_TRACE_FORMAT, item_size := 24,
    trace_start_offset := 8192, file_size := 8240, mapped_file := replicate 8240 1, lcs_ver := 1,
    ignore_size_zero_req := False\<rparr> :: unit reader_t"
  obtain q where q: "lcs_decode sample_renv ?r 8208 (reset_req new_request) = Some q"
    using lcs_v1_inside [of ?r 8208 sample_renv "reset_req new_request"] by auto
  have i: "trace_type ?r = LCS_TRACE" "n_req_left ?r = 0" "cap_at_n_req ?r = 0" "sampler ?r = None"
    "\<not> zero_size_skipped ?r q" by (simp_all add: initial_reader_def Let_def zero_size_skipped_def)
  have "\<exists>r'. read_last_req sample_renv None ?r new_request = Some (r', read_finish ?r q)"
    by (rule lcs_last_request_misplaced [of _ 2]) (use q i in simp_all)
  then obtain r' where "read_last_req sample_renv None ?r new_request = Some (r', read_finish ?r q)" by blast
  with q i(1) show ?thesis by (intro exI [of _ ?r] exI [of _ r'] exI [of _ q]) simp
qed

end
