(* ===== verification/Simulator.thy ===== *)
theory Simulator
  imports Trace_File LRU Mymath
begin

text \<open>
  The simulator (\<open>profiler/simulator.c\<close>): one simulation reads a trace and calls the \<open>get\<close> of a cache
  for every request, after an optional warm-up, and counts requests and misses; the functions for
  several sizes or caches run one simulation per cache in a pool of threads.

  A simulation is over the function \<open>get\<close> of the cache.  \<open>seed\<close> puts the state of the thread's random
  number generator where the cache keeps it, and \<open>rnd\<close> is the result of \<open>rand\<close>.  The simulations of
  a pool share only the bytes of the trace, which they do not write, and each writes its own cache
  and its own entry of the results; the pool is modelled by the order in which it finishes them.
  Freeing, logging and the progress bar are not modelled.
\<close>

section \<open>Model\<close>

record cache_stat_t =
  st_n_warmup_req :: int
  st_n_req :: int
  st_n_req_byte :: int
  st_n_req_cost :: double
  st_n_miss :: int
  st_n_miss_byte :: int
  st_n_miss_cost :: double
  st_n_obj :: int
  st_occupied_byte :: int
  st_cache_size :: int
  st_sampler_ratio :: double
  st_curr_rtime :: int
  st_expired_obj_cnt :: int
  st_expired_bytes :: int
  st_cache_name :: string

definition zero_stat :: cache_stat_t where
  "zero_stat = \<lparr>st_n_warmup_req = 0, st_n_req = 0, st_n_req_byte = 0, st_n_req_cost = 0, st_n_miss = 0,
     st_n_miss_byte = 0, st_n_miss_cost = 0, st_n_obj = 0, st_occupied_byte = 0, st_cache_size = 0,
     st_sampler_ratio = 0, st_curr_rtime = 0, st_expired_obj_cnt = 0, st_expired_bytes = 0,
     st_cache_name = ''''\<rparr>"

text \<open>The fields of \<open>sim_mt_params_t\<close> that a simulation reads; a reader comes with its file.\<close>

record 'p sim_mt_params_t =
  sim_reader :: "'p reader_t \<times> bytes option"
  sim_warmup_reader :: "('p reader_t \<times> bytes option) option"
  sim_n_warmup_req :: int
  sim_warmup_sec :: int
  sim_use_random_seed :: bool

type_synonym 'c get_fn = "'c \<Rightarrow> request \<Rightarrow> ('c \<times> bool) option"

definition need_future :: "bool \<Rightarrow> 'p reader_t \<Rightarrow> 'p reader_t" where
  "need_future b r = r\<lparr>rd_init_params := (rd_init_params r)\<lparr>require_valid_next_access :=
     require_valid_next_access (rd_init_params r) \<or> b\<rparr>\<rparr>"

definition since_start :: "int \<Rightarrow> request \<Rightarrow> request" where
  "since_start start_ts req = req\<lparr>req_clock_time := req_clock_time req - start_ts\<rparr>"

text \<open>The loop over the warm-up trace.\<close>

partial_function (option) warmup_reader_loop ::
    "'p renv \<Rightarrow> 'c get_fn \<Rightarrow> 'p reader_t \<Rightarrow> request \<Rightarrow> 'c \<Rightarrow> int \<Rightarrow> (request \<times> 'c \<times> int) option" where
  "warmup_reader_loop R get r req c n =
    (if req_valid req then do {
       (c, hit) \<leftarrow> get c req;
       (r, req, status) \<leftarrow> read_one_req R r req;
       warmup_reader_loop R get r req c (n + 1) }
     else Some (req, c, n))"

text \<open>The loop over the first requests of the trace.\<close>

partial_function (option) warmup_loop ::
    "'p renv \<Rightarrow> 'c get_fn \<Rightarrow> int \<Rightarrow> int \<Rightarrow> int \<Rightarrow> 'p reader_t \<Rightarrow> request \<Rightarrow> 'c \<Rightarrow> int \<Rightarrow>
     ('p reader_t \<times> request \<times> 'c \<times> int) option" where
  "warmup_loop R get start_ts n_warmup_req warmup_sec r req c n_warmup =
    (if req_valid req \<and> (n_warmup < n_warmup_req \<or> req_clock_time req - start_ts < warmup_sec) then do {
       let req = since_start start_ts req;
       (c, hit) \<leftarrow> get c req;
       (r, req, status) \<leftarrow> read_one_req R r req;
       warmup_loop R get start_ts n_warmup_req warmup_sec r req c (n_warmup + 1) }
     else Some (r, req, c, n_warmup))"

definition count_req :: "request \<Rightarrow> cache_stat_t \<Rightarrow> cache_stat_t" where
  "count_req req res = res\<lparr>st_n_req := st_n_req res + 1, st_n_req_byte := st_n_req_byte res + req_obj_size req,
     st_n_req_cost := double_round (st_n_req_cost res + double_of_int (req_obj_cost req))\<rparr>"

definition count_miss :: "request \<Rightarrow> cache_stat_t \<Rightarrow> cache_stat_t" where
  "count_miss req res = res\<lparr>st_n_miss := st_n_miss res + 1, st_n_miss_byte := st_n_miss_byte res + req_obj_size req,
     st_n_miss_cost := double_round (st_n_miss_cost res + double_of_int (req_obj_cost req))\<rparr>"

partial_function (option) simulate_loop ::
    "'p renv \<Rightarrow> 'c get_fn \<Rightarrow> int \<Rightarrow> 'p reader_t \<Rightarrow> request \<Rightarrow> 'c \<Rightarrow> cache_stat_t \<Rightarrow>
     (request \<times> 'c \<times> cache_stat_t) option" where
  "simulate_loop R get start_ts r req c res =
    (if req_valid req then do {
       let res = count_req req res;
       let req = since_start start_ts req;
       (c, hit) \<leftarrow> get c req;
       let res = (if hit then res else count_miss req res);
       (r, req, status) \<leftarrow> read_one_req R r req;
       simulate_loop R get start_ts r req c res }
     else Some (req, c, res))"

definition simulate ::
    "'p renv \<Rightarrow> ('a, 'f, 'e) cache_t get_fn \<Rightarrow> (rand_state \<Rightarrow> ('a, 'f, 'e) cache_t \<Rightarrow> ('a, 'f, 'e) cache_t) \<Rightarrow>
     64 word \<Rightarrow> bool \<Rightarrow> 'p sim_mt_params_t \<Rightarrow> ('a, 'f, 'e) cache_t \<times> cache_stat_t \<Rightarrow>
     (('a, 'f, 'e) cache_t \<times> cache_stat_t) option" where
  "simulate R get seed rnd needs_future params job = do {
     let (c, res) = job;
     let c = seed (set_rand_seed (if sim_use_random_seed params then rnd else 1)) c;
     r \<leftarrow> clone_reader R (snd (sim_reader params)) (fst (sim_reader params));
     let r = need_future needs_future r;
     let res = res\<lparr>st_cache_name := cache_name c\<rparr>;
     (req, c, res) \<leftarrow> (case sim_warmup_reader params of
         None \<Rightarrow> Some (new_request, c, res)
       | Some (w, file) \<Rightarrow> do {
           w \<leftarrow> clone_reader R file w;
           (w, req, status) \<leftarrow> read_one_req R (need_future needs_future w) new_request;
           (req, c, n) \<leftarrow> warmup_reader_loop R get w req c 0;
           Some (req, c, res\<lparr>st_n_warmup_req := st_n_warmup_req res + n\<rparr>) });
     (r, req, status) \<leftarrow> read_one_req R r req;
     let start_ts = req_clock_time req;
     (r, req, c, res) \<leftarrow>
       (if sim_n_warmup_req params > 0 \<or> sim_warmup_sec params > 0 then do {
          (r, req, c, n) \<leftarrow> warmup_loop R get start_ts (sim_n_warmup_req params) (sim_warmup_sec params) r req c 0;
          Some (r, req, c, res\<lparr>st_n_warmup_req := st_n_warmup_req res + n\<rparr>) }
        else Some (r, req, c, res));
     (req, c, res) \<leftarrow> simulate_loop R get start_ts r req c res;
     Some (c, res\<lparr>st_curr_rtime := req_clock_time req, st_n_obj := n_obj c,
       st_occupied_byte := occupied_byte c\<rparr>) }"

text \<open>The thread pool: the jobs are finished in the order \<open>order\<close>, each replacing its entry.\<close>

fun run_pool :: "(nat \<Rightarrow> 'j \<Rightarrow> 'j option) \<Rightarrow> nat list \<Rightarrow> 'j list \<Rightarrow> 'j list option" where
  "run_pool job [] jobs = Some jobs"
| "run_pool job (i # order) jobs =
    (if i < length jobs then do { j \<leftarrow> job i (jobs ! i); run_pool job order (jobs[i := j]) } else None)"

definition warmup_requests :: "double \<Rightarrow> int \<Rightarrow> int" where
  "warmup_requests warmup_frac n = int_of_double (double_mult (double_of_int n) warmup_frac)"

definition simulate_with_multi_caches ::
    "'p renv \<Rightarrow> ('a, 'f, 'e) cache_t get_fn \<Rightarrow> (rand_state \<Rightarrow> ('a, 'f, 'e) cache_t \<Rightarrow> ('a, 'f, 'e) cache_t) \<Rightarrow>
     64 word \<Rightarrow> bool \<Rightarrow> nat list \<Rightarrow> 'p reader_t \<times> bytes option \<Rightarrow> ('a, 'f, 'e) cache_t list \<Rightarrow>
     ('p reader_t \<times> bytes option) option \<Rightarrow> double \<Rightarrow> int \<Rightarrow> bool \<Rightarrow>
     (('a, 'f, 'e) cache_t \<times> cache_stat_t) list option" where
  "simulate_with_multi_caches R get seed rnd needs_future order reader caches warmup_reader
     warmup_frac warmup_sec use_random_seed =
    (if caches = [] then None
     else do {
       (r, n) \<leftarrow> (if warmup_frac > double_round (1 / 10 ^ 6)
         then map_option (\<lambda>(r, n). (r, warmup_requests warmup_frac n)) (get_num_of_req R (snd reader) (fst reader))
         else Some (fst reader, 0));
       run_pool (\<lambda>i. simulate R get seed rnd needs_future
           \<lparr>sim_reader = (r, snd reader), sim_warmup_reader = warmup_reader, sim_n_warmup_req = n,
            sim_warmup_sec = warmup_sec, sim_use_random_seed = use_random_seed\<rparr>)
         order (map (\<lambda>c. (c, zero_stat\<lparr>st_cache_size := cache_size c\<rparr>)) caches) })"

definition simulate_at_multi_sizes ::
    "'p renv \<Rightarrow> ('a, 'f, 'e) cache_t get_fn \<Rightarrow> (rand_state \<Rightarrow> ('a, 'f, 'e) cache_t \<Rightarrow> ('a, 'f, 'e) cache_t) \<Rightarrow>
     64 word \<Rightarrow> bool \<Rightarrow> nat list \<Rightarrow> (int \<Rightarrow> ('a, 'f, 'e) cache_t) \<Rightarrow> 'p reader_t \<times> bytes option \<Rightarrow> int list \<Rightarrow>
     ('p reader_t \<times> bytes option) option \<Rightarrow> double \<Rightarrow> int \<Rightarrow> bool \<Rightarrow>
     (('a, 'f, 'e) cache_t \<times> cache_stat_t) list option" where
  "simulate_at_multi_sizes R get seed rnd needs_future order create reader cache_sizes warmup_reader
     warmup_frac warmup_sec use_random_seed =
    (if cache_sizes = [] then None
     else do {
       (r, n) \<leftarrow> get_num_of_req R (snd reader) (fst reader);
       run_pool (\<lambda>i. simulate R get seed rnd needs_future
           \<lparr>sim_reader = (r, snd reader), sim_warmup_reader = warmup_reader,
            sim_n_warmup_req = warmup_requests warmup_frac n,
            sim_warmup_sec = warmup_sec, sim_use_random_seed = use_random_seed\<rparr>)
         order (map (\<lambda>n. (create n, zero_stat\<lparr>st_cache_size := n\<rparr>)) cache_sizes) })"

definition step_sizes :: "int \<Rightarrow> int \<Rightarrow> int list" where
  "step_sizes capacity step = map (\<lambda>i. step * (int i + 1))
    [0..<nat \<lceil>double_div (double_of_int capacity) (double_of_int step)\<rceil>]"

definition simulate_at_multi_sizes_with_step_size ::
    "'p renv \<Rightarrow> ('a, 'f, 'e) cache_t get_fn \<Rightarrow> (rand_state \<Rightarrow> ('a, 'f, 'e) cache_t \<Rightarrow> ('a, 'f, 'e) cache_t) \<Rightarrow>
     64 word \<Rightarrow> bool \<Rightarrow> nat list \<Rightarrow> (int \<Rightarrow> ('a, 'f, 'e) cache_t) \<Rightarrow> 'p reader_t \<times> bytes option \<Rightarrow>
     ('a, 'f, 'e) cache_t \<Rightarrow> int \<Rightarrow> ('p reader_t \<times> bytes option) option \<Rightarrow> double \<Rightarrow> int \<Rightarrow> bool \<Rightarrow>
     (('a, 'f, 'e) cache_t \<times> cache_stat_t) list option" where
  "simulate_at_multi_sizes_with_step_size R get seed rnd needs_future order create reader cache step_size
     warmup_reader warmup_frac warmup_sec use_random_seed =
    (if step_size = 0 then None
     else do {
       (r, n) \<leftarrow> get_num_of_req R (snd reader) (fst reader);
       simulate_at_multi_sizes R get seed rnd needs_future order create (r, snd reader)
         (step_sizes (cache_size cache) step_size) warmup_reader warmup_frac warmup_sec use_random_seed })"

text \<open>The variant with a reader per cache; it reports the ratio of the sampler that each reader must have.\<close>

definition simulate_with_multi_caches_scaling ::
    "'p renv \<Rightarrow> ('a, 'f, 'e) cache_t get_fn \<Rightarrow> (rand_state \<Rightarrow> ('a, 'f, 'e) cache_t \<Rightarrow> ('a, 'f, 'e) cache_t) \<Rightarrow>
     64 word \<Rightarrow> bool \<Rightarrow> nat list \<Rightarrow> ('p reader_t \<times> bytes option) list \<Rightarrow> ('a, 'f, 'e) cache_t list \<Rightarrow>
     ('p reader_t \<times> bytes option) option \<Rightarrow> double \<Rightarrow> int \<Rightarrow>
     (('a, 'f, 'e) cache_t \<times> cache_stat_t) list option" where
  "simulate_with_multi_caches_scaling R get seed rnd needs_future order readers caches warmup_reader
     warmup_frac warmup_sec =
    (if caches = [] \<or> length readers < length caches then None
     else do {
       (r, n) \<leftarrow> (if warmup_frac > double_round (1 / 10 ^ 6)
         then map_option (\<lambda>(r, n). (r, warmup_requests warmup_frac n))
           (get_num_of_req R (snd (readers ! 0)) (fst (readers ! 0)))
         else Some (fst (readers ! 0), 0));
       let readers = readers[0 := (r, snd (readers ! 0))];
       jobs \<leftarrow> run_pool (\<lambda>i. simulate R get seed rnd needs_future
           \<lparr>sim_reader = readers ! i, sim_warmup_reader = warmup_reader, sim_n_warmup_req = n,
            sim_warmup_sec = warmup_sec, sim_use_random_seed = False\<rparr>)
         order (map (\<lambda>c. (c, zero_stat\<lparr>st_cache_size := cache_size c\<rparr>)) caches);
       if \<exists>i < length caches. sampler (fst (readers ! i)) = None then None
       else Some (map (\<lambda>i. (fst (jobs ! i), (snd (jobs ! i))\<lparr>st_sampler_ratio :=
           (case sampler (fst (readers ! i)) of None \<Rightarrow> 0 | Some s \<Rightarrow> sampling_ratio s)\<rparr>)) [0..<length caches]) })"

section \<open>The pool\<close>

lemma run_pool_each:
  assumes "distinct order" and "\<forall>i \<in> set order. i < length jobs"
    and "\<forall>i \<in> set order. job i (jobs ! i) = Some (res i)"
  shows "\<exists>jobs'. run_pool job order jobs = Some jobs' \<and> length jobs' = length jobs
    \<and> (\<forall>i < length jobs. jobs' ! i = (if i \<in> set order then res i else jobs ! i))"
  using assms
proof (induction order arbitrary: jobs)
  case (Cons k order)
  let ?jobs = "jobs[k := res k]"
  have "\<exists>jobs'. run_pool job order ?jobs = Some jobs' \<and> length jobs' = length ?jobs
    \<and> (\<forall>i < length ?jobs. jobs' ! i = (if i \<in> set order then res i else ?jobs ! i))"
    using Cons.prems by (intro Cons.IH) (auto simp: nth_list_update)
  then obtain jobs' where jobs': "run_pool job order ?jobs = Some jobs'" "length jobs' = length jobs"
    "\<forall>i < length jobs. jobs' ! i = (if i \<in> set order then res i else ?jobs ! i)" by auto
  have "jobs' ! i = (if i \<in> set (k # order) then res i else jobs ! i)" if "i < length jobs" for i
    using that jobs'(3) by (cases "i = k") auto
  with jobs'(1,2) Cons.prems show ?case by auto
qed simp

lemma run_pool_fails:
  assumes "distinct order" and "\<forall>i \<in> set order. i < length jobs"
    and "i \<in> set order" and "job i (jobs ! i) = None"
  shows "run_pool job order jobs = None"
  using assms
proof (induction order arbitrary: jobs)
  case (Cons k order)
  show ?case
  proof (cases "i = k")
    case False
    have "run_pool job order (jobs[k := j]) = None" for j
      using Cons.prems False by (intro Cons.IH) auto
    then show ?thesis by (cases "job k (jobs ! k)") simp_all
  qed (use Cons.prems in simp)
qed simp

lemma run_pool_order:
  assumes "distinct order" and "distinct order'" and "set order = {..<length jobs}" and "set order' = {..<length jobs}"
  shows "run_pool job order jobs = run_pool job order' jobs"
proof (cases "\<exists>i < length jobs. job i (jobs ! i) = None")
  case True
  then obtain i where "i < length jobs" "job i (jobs ! i) = None" by blast
  with assms run_pool_fails [of order jobs i job] run_pool_fails [of order' jobs i job] show ?thesis by simp
next
  case False
  then have j: "\<forall>i < length jobs. job i (jobs ! i) = Some (the (job i (jobs ! i)))" by auto
  obtain a where a: "run_pool job order jobs = Some a" "length a = length jobs"
    "\<forall>i < length jobs. a ! i = the (job i (jobs ! i))"
    using run_pool_each [OF assms(1), of jobs job "\<lambda>i. the (job i (jobs ! i))"] assms(3) j by auto
  obtain b where b: "run_pool job order' jobs = Some b" "length b = length jobs"
    "\<forall>i < length jobs. b ! i = the (job i (jobs ! i))"
    using run_pool_each [OF assms(2), of jobs job "\<lambda>i. the (job i (jobs ! i))"] assms(4) j by auto
  have "a = b" using a b by (intro nth_equalityI) auto
  with a b show ?thesis by simp
qed

lemma those_all: "those (map (\<lambda>x. Some (f x)) xs) = Some (map f xs)"
  by (induction xs) auto

lemma those_None: "None \<in> set ys \<Longrightarrow> those ys = None"
  by (induction ys) (auto split: option.splits)

lemma run_pool_those:
  assumes "distinct order" and "set order = {..<length jobs}"
  shows "run_pool (\<lambda>i. job) order jobs = those (map job jobs)"
proof (cases "\<exists>i < length jobs. job (jobs ! i) = None")
  case True
  then obtain i where i: "i < length jobs" "job (jobs ! i) = None" by blast
  then have "None \<in> set (map job jobs)" by (metis image_eqI list.set_map nth_mem)
  from those_None [OF this] i assms run_pool_fails [of order jobs i "\<lambda>i. job"] show ?thesis by simp
next
  case False
  let ?f = "\<lambda>j. the (job j)"
  have f: "\<forall>j \<in> set jobs. job j = Some (?f j)" using False by (auto simp: in_set_conv_nth)
  then have "those (map job jobs) = Some (map ?f jobs)"
    by (metis (no_types, lifting) map_cong those_all)
  moreover obtain a where a: "run_pool (\<lambda>i. job) order jobs = Some a" "length a = length jobs"
    "\<forall>i < length jobs. a ! i = ?f (jobs ! i)"
    using run_pool_each [OF assms(1), of jobs "\<lambda>i. job" "\<lambda>i. ?f (jobs ! i)"] assms(2) False by auto
  moreover have "a = map ?f jobs" using a by (intro nth_equalityI) auto
  ultimately show ?thesis by simp
qed



section \<open>One simulation\<close>

definition count_all :: "(request \<times> bool) list \<Rightarrow> cache_stat_t \<Rightarrow> cache_stat_t" where
  "count_all = fold (\<lambda>(q, hit) res. let res = count_req q res in if hit then res else count_miss q res)"

lemma count_miss_since [simp]: "count_miss (since_start ts q) res = count_miss q res"
  by (simp add: count_miss_def since_start_def)

definition missed :: "(request \<times> bool) list \<Rightarrow> request list" where
  "missed qhs = map fst (filter (\<lambda>(q, hit). \<not> hit) qhs)"

lemma count_all_fields:
  "st_n_req (count_all qhs res) = st_n_req res + int (length qhs)"
  "st_n_req_byte (count_all qhs res) = st_n_req_byte res + sum_list (map (req_obj_size \<circ> fst) qhs)"
  "st_n_miss (count_all qhs res) = st_n_miss res + int (length (missed qhs))"
  "st_n_miss_byte (count_all qhs res) = st_n_miss_byte res + sum_list (map req_obj_size (missed qhs))"
  "st_n_warmup_req (count_all qhs res) = st_n_warmup_req res"
  by (induction qhs arbitrary: res)
    (auto simp: count_all_def missed_def count_req_def count_miss_def Let_def)

lemma serve_length: "serve ops pf c reqs = Some (c', hits) \<Longrightarrow> length hits = length reqs"
  by (induction reqs arbitrary: c hits) (auto elim!: bind_SomeE)

text \<open>A source whose requests do not depend on the clock time that the simulator rewrites.\<close>

locale timed_source = request_source +
  assumes pending_clock: "pending r req qs \<Longrightarrow> pending r (req\<lparr>req_clock_time := t\<rparr>) qs"
begin

text \<open>\<open>req\<close> holds the first request of \<open>xs\<close>, and the reader will deliver the others.\<close>

definition ready :: "'a reader_t \<Rightarrow> request \<Rightarrow> request list \<Rightarrow> bool" where
  "ready r req xs \<longleftrightarrow> sampler r = None \<and> (case xs of [] \<Rightarrow> \<not> req_valid req
     | x # ys \<Rightarrow> req = x \<and> req_valid x \<and> (\<exists>qs. pending r x qs \<and> ys = map (read_finish r) qs))"

lemma ready_first:
  assumes "pending r req qs" and "sampler r = None"
  shows "\<exists>r' q st. read_one_req R r req = Some (r', q, st) \<and> ready r' q (map (read_finish r) qs)"
proof (cases qs)
  case Nil
  with read_one_unsampled_Nil [of r req] assms obtain r' q where
    r: "read_one_req R r req = Some (r', q, 1)" "\<not> req_valid q" "static r' = static r" by auto
  have "sampler r' = None" using static_fields(14) [OF r(3)] assms(2) by simp
  with r(1,2) Nil show ?thesis by (auto simp: ready_def)
next
  case (Cons d qs')
  with read_one_unsampled_Cons [of r req d qs'] assms obtain r' where
    r: "read_one_req R r req = Some (r', read_finish r d, 0)" "req_valid d" "static r' = static r"
      "pending r' (read_finish r d) qs'" by auto
  have "sampler r' = None" using static_fields(14) [OF r(3)] assms(2) by simp
  then have "ready r' (read_finish r d) (map (read_finish r) qs)"
    using r(2,4) Cons by (auto simp: ready_def read_finish_static [OF r(3)])
  with r(1) show ?thesis by auto
qed

lemma ready_next:
  assumes "ready r x (x # ys)"
  shows "\<exists>r' q st. read_one_req R r (since_start ts x) = Some (r', q, st) \<and> ready r' q ys"
proof -
  obtain qs where qs: "pending r x qs" "ys = map (read_finish r) qs" "sampler r = None"
    using assms by (auto simp: ready_def)
  from ready_first [OF pending_clock [OF qs(1)] qs(3)] qs(2) show ?thesis by (auto simp: since_start_def)
qed

text \<open>The requests that are served for warm-up, and those that are counted.\<close>

lemma warmup_loop_ready:
  assumes "ready r req xs" and "serve ops pf c (map (since_start ts) (take k xs)) = Some (c', hs)"
    and "\<forall>x \<in> set xs. ts \<le> req_clock_time x"
  shows "\<exists>r' req'. warmup_loop R (cache_get_base ops pf) ts (n + int k) 0 r req c n
      = Some (r', req', c', n + int (min k (length xs))) \<and> ready r' req' (drop k xs)"
  using assms
proof (induction xs arbitrary: r req c k n hs)
  case Nil
  then show ?case by (subst warmup_loop.simps) (simp add: ready_def)
next
  case (Cons x xs)
  have x: "req = x" "req_valid x" "ts \<le> req_clock_time x" using Cons.prems(1,3) by (auto simp: ready_def)
  show ?case
  proof (cases k)
    case 0
    with Cons.prems x show ?thesis by (subst warmup_loop.simps) simp
  next
    case (Suc k')
    then obtain c1 h hs' where s: "cache_get_base ops pf c (since_start ts x) = Some (c1, h)"
      "serve ops pf c1 (map (since_start ts) (take k' xs)) = Some (c', hs')"
      using Cons.prems(2) by (auto elim!: bind_SomeE)
    obtain r' q st where q: "read_one_req R r (since_start ts x) = Some (r', q, st)" "ready r' q xs"
      using ready_next Cons.prems(1) x(1) by blast
    have "\<exists>r'' req'. warmup_loop R (cache_get_base ops pf) ts (n + 1 + int k') 0 r' q c1 (n + 1)
        = Some (r'', req', c', n + 1 + int (min k' (length xs))) \<and> ready r'' req' (drop k' xs)"
      using Cons.IH [OF q(2) s(2)] Cons.prems(3) by simp
    with x q(1) s(1) Suc show ?thesis by (subst warmup_loop.simps) (simp add: add_ac)
  qed
qed

lemma simulate_loop_ready:
  assumes "ready r req xs" and "serve ops pf c (map (since_start ts) xs) = Some (c', hits)"
  shows "\<exists>req'. simulate_loop R (cache_get_base ops pf) ts r req c res
    = Some (req', c', count_all (zip xs hits) res)"
  using assms
proof (induction xs arbitrary: r req c hits res)
  case Nil
  then show ?case by (subst simulate_loop.simps) (simp add: ready_def count_all_def)
next
  case (Cons x xs)
  then obtain c1 h hs where s: "cache_get_base ops pf c (since_start ts x) = Some (c1, h)"
    "serve ops pf c1 (map (since_start ts) xs) = Some (c', hs)" "hits = h # hs" by (auto elim!: bind_SomeE)
  have x: "req = x" "req_valid x" using Cons.prems(1) by (auto simp: ready_def)
  obtain r' q st where q: "read_one_req R r (since_start ts x) = Some (r', q, st)" "ready r' q xs"
    using ready_next Cons.prems(1) x(1) by blast
  let ?res = "if h then count_req x res else count_miss x (count_req x res)"
  obtain req' where "simulate_loop R (cache_get_base ops pf) ts r' q c1 ?res
      = Some (req', c', count_all (zip xs hs) ?res)" using Cons.IH [OF q(2) s(2)] by blast
  with x q(1) s show ?case by (subst simulate_loop.simps) (cases h; simp add: Let_def count_all_def)
qed

text \<open>A simulation with a warm-up of \<open>k\<close> requests.\<close>

lemma simulate_ready:
  assumes "clone_reader R file r0 = Some r" and "pending r new_request qs" and "sampler r = None"
    and "\<And>g. seed g c = c" and "xs = map (read_finish r) qs" and "xs \<noteq> []"
    and "ts = req_clock_time (hd xs)" and "\<forall>x \<in> set xs. ts \<le> req_clock_time x"
    and "serve ops pf c (map (since_start ts) xs) = Some (c', hits)"
  shows "\<exists>rt. simulate R (cache_get_base ops pf) seed rnd False
      \<lparr>sim_reader = (r0, file), sim_warmup_reader = None, sim_n_warmup_req = int k, sim_warmup_sec = 0,
       sim_use_random_seed = b\<rparr> (c, res)
    = Some (c', (count_all (drop k (zip xs hits)) (res\<lparr>st_cache_name := cache_name c,
          st_n_warmup_req := st_n_warmup_req res + int (min k (length xs))\<rparr>))
        \<lparr>st_curr_rtime := rt, st_n_obj := n_obj c', st_occupied_byte := occupied_byte c'\<rparr>)"
proof -
  obtain r1 q st where r1: "read_one_req R r new_request = Some (r1, q, st)" "ready r1 q xs"
    using ready_first [OF assms(2,3)] assms(5) by blast
  have ts: "req_clock_time q = ts" using r1(2) assms(6,7) by (cases xs) (auto simp: ready_def)
  have "map (since_start ts) xs = map (since_start ts) (take k xs) @ map (since_start ts) (drop k xs)"
    by (simp flip: map_append)
  with assms(9) serve_append [of ops pf c "map (since_start ts) (take k xs)" "map (since_start ts) (drop k xs)"]
  obtain c1 hs1 hs2 where s: "serve ops pf c (map (since_start ts) (take k xs)) = Some (c1, hs1)"
    "serve ops pf c1 (map (since_start ts) (drop k xs)) = Some (c', hs2)" "hits = hs1 @ hs2"
    by (auto elim!: bind_SomeE)
  have z: "zip (drop k xs) hs2 = drop k (zip xs hits)"
    using serve_length [OF s(1)] serve_length [OF s(2)] s(3) by (simp add: drop_zip min_def)
  obtain r2 q2 where r2: "warmup_loop R (cache_get_base ops pf) ts (int k) 0 r1 q c 0
      = Some (r2, q2, c1, int (min k (length xs)))" "ready r2 q2 (drop k xs)"
    using warmup_loop_ready [OF r1(2) s(1) assms(8), of 0] by auto
  let ?res = "res\<lparr>st_cache_name := cache_name c, st_n_warmup_req := st_n_warmup_req res + int (min k (length xs))\<rparr>"
  obtain req' where l: "simulate_loop R (cache_get_base ops pf) ts r2 q2 c1 ?res
      = Some (req', c', count_all (drop k (zip xs hits)) ?res)"
    using simulate_loop_ready [OF r2(2) s(2)] z by metis
  have nf: "need_future False r = r" by (simp add: need_future_def)
  show ?thesis
  proof (cases "k = 0")
    case True
    then have "c1 = c" "hs1 = []" using s(1) by auto
    with True simulate_loop_ready [OF r1(2), of ops pf c ts c' hits "res\<lparr>st_cache_name := cache_name c\<rparr>"] assms(9)
    obtain req' where "simulate_loop R (cache_get_base ops pf) ts r1 q c (res\<lparr>st_cache_name := cache_name c\<rparr>)
        = Some (req', c', count_all (zip xs hits) (res\<lparr>st_cache_name := cache_name c\<rparr>))" by blast
    with True r1(1) ts assms(1,4) nf show ?thesis
      by (auto simp: simulate_def Let_def intro!: exI [of _ "req_clock_time req'"])
  next
    case False
    with r1(1) r2(1) l ts assms(1,4) nf show ?thesis
      by (auto simp: simulate_def Let_def intro!: exI [of _ "req_clock_time req'"])
  qed
qed

end

context record_format
begin

lemma pending_decode:
  assumes "pending r q qs" and "\<And>j. decode r j (reset_req q') = decode r j (reset_req q)"
  shows "pending r q' qs"
  using assms view_cong [of r "reset_req q'" "reset_req q"] by (simp add: pending_def)

end

interpretation oracleGeneral_clock: timed_source R "oracleGeneral.pending R" for R
proof
  fix r :: "'a reader_t" and req qs t
  assume "oracleGeneral.pending R r req qs"
  then show "oracleGeneral.pending R r (req\<lparr>req_clock_time := t\<rparr>) qs"
    by (rule oracleGeneral.pending_decode) (simp add: oracleGeneral_decode_def reset_req_def)
qed

interpretation twr_clock: timed_source R "twr.pending R" for R
proof
  fix r :: "'a reader_t" and req qs t
  assume "twr.pending R r req qs"
  then show "twr.pending R r (req\<lparr>req_clock_time := t\<rparr>) qs"
    by (rule twr.pending_decode) (simp add: twr_decode_def reset_req_def)
qed

interpretation twrNS_clock: timed_source R "twrNS.pending R" for R
proof
  fix r :: "'a reader_t" and req qs t
  assume "twrNS.pending R r req qs"
  then show "twrNS.pending R r (req\<lparr>req_clock_time := t\<rparr>) qs"
    by (rule twrNS.pending_decode) (simp add: twrNS_decode_def reset_req_def)
qed

section \<open>Simulating LRU on a trace file\<close>

lemma queue_serve_since: "queue_serve pn pr cap md es (map (since_start ts) reqs) = queue_serve pn pr cap md es reqs"
  by (induction reqs arbitrary: es) (simp_all add: queue_get_def since_start_def)

lemma queue_serve_request:
  "queue_serve pn pr cap md es (map (oracleGeneral_request default_reader_init_params) reqs)
   = queue_serve pn pr cap md es reqs"
  by (induction reqs arbitrary: es)
    (simp_all add: queue_get_def oracleGeneral_request_def oracleGeneral_write_def default_reader_init_params_def)

lemma LRU_serve_init:
  assumes "spread E W" and "\<not> support_ttl E" and "0 < ccp_hashpower p" and "ccp_hashpower p < 40"
    and "int (snd W) \<le> ccp_hashpower p" and "\<forall>req \<in> set reqs. req_obj_id req \<in> fst W"
  shows "\<exists>c. serve (LRU_ops E None) None (LRU_init pf0 p s) reqs
      = Some (c, snd (queue_serve (pin E) True (ccp_cache_size p) (if ccp_consider_obj_metadata p then 16 else 0) [] reqs))
    \<and> LRU_R E W c (fst (queue_serve (pin E) True (ccp_cache_size p) (if ccp_consider_obj_metadata p then 16 else 0) [] reqs))
    \<and> obj_md_size c = (if ccp_consider_obj_metadata p then 16 else 0)"
  using lru.serve_refines [OF LRU_init_R [OF assms(1-5), of pf0 s] assms(6)]
  by (auto simp: spec_serve_queue Let_def same_limits_def)

lemma missed_map: "missed (map (\<lambda>(q, h). (f q, h)) qhs) = map f (missed qhs)"
  by (induction qhs) (auto simp: missed_def)

lemma counted_requests:
  assumes "length hits = length rs" and "\<And>q. req_obj_size (f q) = req_obj_size q"
  shows "length (drop k (zip (map f rs) hits)) = length rs - k"
    "sum_list (map (req_obj_size \<circ> fst) (drop k (zip (map f rs) hits))) = sum_list (map req_obj_size (drop k rs))"
    "length (missed (drop k (zip (map f rs) hits))) = length (missed (drop k (zip rs hits)))"
    "sum_list (map req_obj_size (missed (drop k (zip (map f rs) hits))))
      = sum_list (map req_obj_size (missed (drop k (zip rs hits))))"
proof -
  have z: "drop k (zip (map f rs) hits) = map (\<lambda>(q, h). (f q, h)) (drop k (zip rs hits))"
    by (simp add: zip_map1 drop_map)
  have "map fst (drop k (zip (map f rs) hits)) = map f (drop k rs)"
    using assms(1) by (simp add: drop_zip drop_map)
  then have "map (req_obj_size \<circ> fst) (drop k (zip (map f rs) hits)) = map req_obj_size (map f (drop k rs))"
    by (simp only: map_map [symmetric])
  then show "sum_list (map (req_obj_size \<circ> fst) (drop k (zip (map f rs) hits))) = sum_list (map req_obj_size (drop k rs))"
    by (simp add: comp_def assms(2))
  show "length (drop k (zip (map f rs) hits)) = length rs - k" using assms(1) by simp
  show "length (missed (drop k (zip (map f rs) hits))) = length (missed (drop k (zip rs hits)))"
    "sum_list (map req_obj_size (missed (drop k (zip (map f rs) hits))))
      = sum_list (map req_obj_size (missed (drop k (zip rs hits))))"
    unfolding z missed_map by (simp_all add: comp_def assms(2))
qed

lemma oracleGeneral_default_pending:
  assumes "setup_reader R (Some (concat (map oracleGeneral_bytes rs))) ORACLE_GENERAL_TRACE
      (Some default_reader_init_params) = Some r"
    and "\<forall>q \<in> set rs. oracleGeneral_range q \<and> req_obj_size q \<noteq> 0"
  shows "oracleGeneral.pending R r new_request (map (oracleGeneral_write new_request) rs)" and "rs \<noteq> []"
proof -
  note r = oracleGeneral_setup [OF assms(1)]
  have ip: "ip_trace_start_offset default_reader_init_params = 0" "ip_cap_at_n_req default_reader_init_params = - 1"
    "ip_ignore_size_zero_req default_reader_init_params" by (simp_all add: default_reader_init_params_def)
  show ne: "rs \<noteq> []" using r(14) by auto
  have "filter (\<lambda>q. req_obj_size q \<noteq> 0 \<or> \<not> ip_ignore_size_zero_req default_reader_init_params) rs = rs"
    using assms(2) by (intro filter_True) auto
  moreover have "holds (page_size R) (concat (map oracleGeneral_bytes rs)) 0 (concat (map oracleGeneral_bytes rs))"
    using holds_file [of "page_size R" "[]" _ "[]"] by simp
  ultimately show "oracleGeneral.pending R r new_request (map (oracleGeneral_write new_request) rs)"
    using oracleGeneral_pending [OF assms(1) ip(1), of rs] assms(2) ne ip(2) r(8)
    by (simp add: capped_new [OF r(7)] Suc_le_eq)
qed

text \<open>
  C4: from the bytes of a trace to the statistics of a simulation.  Simulating an LRU cache on an
  oracleGeneral trace of the requests \<open>rs\<close>, with the first \<open>k\<close> as warm-up, returns and reports: the
  warm-up requests that there are, the number and the bytes of the requests behind them, the number
  and the bytes of the misses among these that a plain list of the objects by recency has, with the
  warm-up served before, and the objects and bytes that the list holds at the end.
\<close>

theorem simulate_LRU_on_trace:
  assumes "spread E W" and "\<not> support_ttl E" and "0 < ccp_hashpower p" and "ccp_hashpower p < 40"
    and "int (snd W) \<le> ccp_hashpower p"
    and "setup_reader R (Some (concat (map oracleGeneral_bytes rs))) ORACLE_GENERAL_TRACE
      (Some default_reader_init_params) = Some r"
    and "\<forall>q \<in> set rs. oracleGeneral_range q \<and> req_obj_size q \<noteq> 0 \<and> req_obj_id q \<in> fst W
      \<and> req_clock_time (hd rs) \<le> req_clock_time q"
  shows "let md = (if ccp_consider_obj_metadata p then 16 else 0);
      (es, hits) = queue_serve (pin E) True (ccp_cache_size p) md [] rs;
      counted = drop k (zip rs hits)
    in \<exists>c res. simulate R (LRU_get E None) (\<lambda>g c. c) rnd False
        \<lparr>sim_reader = (r, Some (concat (map oracleGeneral_bytes rs))), sim_warmup_reader = None,
         sim_n_warmup_req = int k, sim_warmup_sec = 0, sim_use_random_seed = b\<rparr>
        (LRU_init pf0 p s :: ('a, 'f, LRU_params_t) cache_t, zero_stat) = Some (c, res)
      \<and> st_n_warmup_req res = int (min k (length rs))
      \<and> st_n_req res = int (length rs - k) \<and> st_n_req_byte res = sum_list (map req_obj_size (drop k rs))
      \<and> st_n_miss res = int (length (missed counted))
      \<and> st_n_miss_byte res = sum_list (map req_obj_size (missed counted))
      \<and> st_n_obj res = int (length es) \<and> st_occupied_byte res = queue_bytes md es"
proof -
  let ?md = "if ccp_consider_obj_metadata p then 16 else 0" and ?f = "oracleGeneral_request default_reader_init_params"
  let ?c0 = "LRU_init pf0 p s :: ('a, 'f, LRU_params_t) cache_t"
  let ?xs = "map ?f rs" and ?ts = "req_clock_time (hd rs)"
  let ?sv = "queue_serve (pin E) True (ccp_cache_size p) ?md [] rs"
  note r = oracleGeneral_setup [OF assms(6)]
  have pend: "oracleGeneral.pending R r new_request (map (oracleGeneral_write new_request) rs)" and ne: "rs \<noteq> []"
    using oracleGeneral_default_pending [OF assms(6)] assms(7) by auto
  have f: "req_clock_time (?f q) = req_clock_time q" "req_obj_id (?f q) = req_obj_id q" "req_obj_size (?f q) = req_obj_size q" for q
    by (simp_all add: oracleGeneral_request_def oracleGeneral_write_def default_reader_init_params_def)
  have xs: "?xs = map (read_finish r) (map (oracleGeneral_write new_request) rs)"
    by (simp add: read_finish_oracleGeneral [OF assms(6)])
  have "\<forall>req \<in> set (map (since_start ?ts) ?xs). req_obj_id req \<in> fst W"
    using assms(7) f by (auto simp: since_start_def)
  from LRU_serve_init [OF assms(1-5) this, of pf0 s] obtain c where
    c: "serve (LRU_ops E None) None ?c0 (map (since_start ?ts) ?xs) = Some (c, snd ?sv)"
      "LRU_R E W c (fst ?sv)" "obj_md_size c = ?md"
    by (auto simp: queue_serve_since queue_serve_request simp del: list.map_comp map_map)
  have cl: "clone_reader R (Some (concat (map oracleGeneral_bytes rs))) r = Some r"
    using clone_reader_same [OF assms(6)] by (simp add: modelled_type_def)
  have h: "sampler r = None" "?xs \<noteq> []" "?ts = req_clock_time (hd ?xs)" "\<forall>x \<in> set ?xs. ?ts \<le> req_clock_time x"
    using r(9) ne assms(7) f by (auto simp: hd_map default_reader_init_params_def)
  obtain rt where sim: "simulate R (cache_get_base (LRU_ops E None) None) (\<lambda>g c. c) rnd False
        \<lparr>sim_reader = (r, Some (concat (map oracleGeneral_bytes rs))), sim_warmup_reader = None,
         sim_n_warmup_req = int k, sim_warmup_sec = 0, sim_use_random_seed = b\<rparr>
        (?c0, zero_stat)
    = Some (c, (count_all (drop k (zip ?xs (snd ?sv))) (zero_stat\<lparr>st_cache_name := cache_name ?c0,
          st_n_warmup_req := st_n_warmup_req zero_stat + int (min k (length ?xs))\<rparr>))
        \<lparr>st_curr_rtime := rt, st_n_obj := n_obj c, st_occupied_byte := occupied_byte c\<rparr>)"
    using oracleGeneral_clock.simulate_ready 
      [where seed = "\<lambda>g c. c" and rnd = rnd and k = k and b = b and res = zero_stat, OF cl pend h(1) refl xs h(2-4) c(1)] by blast
  have len: "length (snd ?sv) = length rs" using serve_length [OF c(1)] by simp
  have "n_obj c = int (length (fst ?sv))" "occupied_byte c = queue_bytes ?md (fst ?sv)"
    using basic.queue_R_bytes [OF c(2) [unfolded LRU_R_def]] by (simp_all only: c(3))
  with sim show ?thesis
    unfolding Let_def case_prod_unfold LRU_get_def [abs_def]
    by (intro exI [of _ c] exI conjI) (assumption, simp_all add: count_all_fields zero_stat_def counted_requests [OF len f(3)] len)
qed

theorem simulate_LRU_on_trace_witness:
  "\<exists>r (c :: (unit, unit, LRU_params_t) cache_t) res.
    setup_reader sample_renv (Some (concat (map oracleGeneral_bytes
        [sample_req 1 2, sample_req 2 2, sample_req 1 2, sample_req 3 1])))
      ORACLE_GENERAL_TRACE (Some default_reader_init_params) = Some r
    \<and> simulate sample_renv (LRU_get sample_env None) (\<lambda>g c. c) 0 False
        \<lparr>sim_reader = (r, Some (concat (map oracleGeneral_bytes
            [sample_req 1 2, sample_req 2 2, sample_req 1 2, sample_req 3 1]))), sim_warmup_reader = None,
         sim_n_warmup_req = int 1, sim_warmup_sec = 0, sim_use_random_seed = False\<rparr>
        (LRU_init () (sample_params 5) None, zero_stat) = Some (c, res)
    \<and> st_n_warmup_req res = 1 \<and> st_n_req res = 3 \<and> st_n_req_byte res = 5 \<and> st_n_miss res = 2
    \<and> st_n_miss_byte res = 3 \<and> st_n_obj res = 3 \<and> st_occupied_byte res = 5"
proof -
  let ?rs = "[sample_req 1 2, sample_req 2 2, sample_req 1 2, sample_req 3 1]"
  define m where "m = concat (map oracleGeneral_bytes ?rs)"
  obtain r where r: "setup_reader sample_renv (Some m) ORACLE_GENERAL_TRACE (Some default_reader_init_params) = Some r"
    using oracleGeneral_setup_Some [of m] by (auto simp: m_def)
  have ids: "\<forall>q \<in> set ?rs. oracleGeneral_range q \<and> req_obj_size q \<noteq> 0 \<and> req_obj_id q \<in> fst sample_ids
      \<and> req_clock_time (hd ?rs) \<le> req_clock_time q"
    by (simp add: oracleGeneral_range_def sample_req_def new_request_def)
  have sv: "queue_serve None True 5 0 [] ?rs = ([(3, 1), (1, 2), (2, 2)], [False, False, True, False])"
    by (simp add: queue_get_def queue_trim.simps queue_promote_def queue_delete_def Let_def)
  from simulate_LRU_on_trace [of sample_env sample_ids "sample_params 5" sample_renv ?rs r 1 0 False "()" None,
      folded m_def] r ids show ?thesis
    unfolding m_def [symmetric] by (simp add: sv missed_def view_bytes_def del: queue_serve.simps)
qed

end
