(* ===== verification/Spec2Isabelle.thy ===== *)
theory Spec2Isabelle
  imports Admission Filters LFU MRU SLRU_Policy TwoQ FIFO LRU Clock Sieve S3FIFO Stack_Dist Belady_Opt Size_Cache Simulator
begin

text \<open>
  libCacheSim: a verification of the core of the cache simulator.

  \<^bold>\<open>The program.\<close>  A cache is a structure with function pointers (\<open>include/libCacheSim/cache.h\<close>).  The
  simulator calls \<open>get\<close> for every request of a trace; \<open>get\<close> is \<open>cache_get_base\<close> of \<open>cache/cache.c\<close> for
  most algorithms, which calls the algorithm's \<open>find\<close>, asks the admission algorithm, calls \<open>evict\<close>
  until the object fits and then \<open>insert\<close>.  The algorithms (\<open>cache/eviction\<close>) keep their objects in a
  chained hash table (\<open>dataStructure/hashtable/chainedHashTableV2.c\<close>) and in intrusive lists
  (\<open>include/libCacheSim/cacheObj.h\<close>) or in a priority queue (\<open>dataStructure/pqueue.c\<close>) of the same
  objects; some are composed of smaller caches.  The profiler (\<open>profiler\<close>) computes reuse distances
  with a splay tree instead.  The requests come from a trace reader (\<open>traceReader\<close>), which maps a file
  and decodes one record for each call of \<open>read_one_req\<close>, skipping what its sampler does not take; the
  simulator (\<open>profiler/simulator.c\<close>) clones the reader for every cache of a pool of threads, warms the
  cache up and counts requests and misses.

  \<^bold>\<open>Reading the model.\<close>  Objects live in an explicit store, because one object is reached from a
  chain of the table and from a queue at the same time, and every pointer assignment of the code is
  a step.  A result \<open>None\<close> is a run that does not return: a read through \<open>NULL\<close> or a freed object, a
  failed \<open>assert\<close>, an \<open>ERROR\<close> or \<open>abort\<close>, or a loop that does not end; loops are
  \<open>partial_function (option)\<close>, or functions with a termination proof.  There is no fuel.  A theorem
  with \<open>Some\<close> in its conclusion is therefore also a theorem of memory safety and termination.
  Object ids and hashes are \<open>64 word\<close>, the state of the random numbers a \<open>128 word\<close>; counters and sizes
  are unbounded integers, as no counter is meant to overflow, and the narrowing conversions of the
  code are written out.  A \<open>double\<close> is the rational number it denotes, rounded as IEEE 754 does, without
  the limits of the exponent.  Names are cut to 63 and parameters to 255 characters, as \<open>strncpy\<close>
  does.  \<open>DEBUG_ASSERT\<close> is empty at the default log level.  Memory allocation does not fail.
  Parameters of the model are the hash function of the objects, the build switch \<open>SUPPORT_TTL\<close> and
  the pin predicate of the thread (the record \<open>env\<close>), the call-backs of a prefetcher, the hash table
  of GLib, the functions \<open>exp\<close> and \<open>log\<close>, the hash of the filters and, for the readers, the page size and
  the formats that are not modelled (the record \<open>renv\<close>).  A file is the list of
  its bytes; the bytes behind its end are zero up to the end of the page and a fault beyond.

  \<^bold>\<open>Theories.\<close>
  \<^item> \<open>Prelude\<close>: pointers, conversions, lemmas on options and lists.  \<open>Params\<close>: the string functions and
    the loop of the parameter parsers.  \<open>Double\<close>: rounding, \<open>strtod\<close>, \<open>%.4lf\<close>.  \<open>Mymath\<close>: the helpers of
    \<open>mymath.h\<close>.  \<open>GLib\<close>: the contract of \<open>GHashTable\<close>.
  \<^item> \<open>Cache_Obj\<close>: requests, objects, the linked lists and pinning (\<open>request.h\<close>, \<open>cacheObj.h\<close>);
    \<open>dll h qh qt xs\<close> relates a queue in the store to the list \<open>xs\<close>, and each list operation is shown to
    act on \<open>xs\<close> as its name says.
  \<^item> \<open>Hash_Table\<close>: the chained hash table; \<open>table_ok\<close> is its invariant, kept by insertion, the three
    deletions, expansion and shrinking; the locale \<open>object_table\<close> is its interface.  The invariant
    bounds the chains by 64 objects (\<open>spread\<close>), because the code overruns an array beyond that.
  \<^item> \<open>Cache_Base\<close>: \<open>cache_t\<close>, the request path and the accounting of \<open>cache.c\<close>.  \<open>Policy\<close>: the locales
    \<open>eviction_policy\<close> and \<open>storing_policy\<close>, the contract between \<open>cache_get_base\<close> and an algorithm, from
    which every trace is served within the capacity.  \<open>Queue_Cache\<close>: the locale \<open>refined_policy\<close>, an
    algorithm that simulates an abstract machine step by step, and that whole traces then have the
    hits of the machine.  \<open>Queue_Refine\<close>: the steps of the algorithms that keep one queue, for any view
    of the objects (the locale \<open>object_view\<close>).
  \<^item> \<open>FIFO\<close>, \<open>LRU\<close>, \<open>Clock\<close>, \<open>Sieve\<close>: one theory for each file of \<open>cache/eviction\<close>, with the operations
    as the code has them, the abstraction relation \<open>X_R\<close>, the interpretation of \<open>refined_policy\<close> and
    the properties.
  \<^item> \<open>MRU\<close>: the algorithm that evicts the newest object, and exactly when its code fails.
  \<^item> \<open>Bag_Cache\<close>, \<open>LFU\<close>: caches whose objects are spread over several queues, and the queues of the
    frequencies of \<open>LFU.c\<close>.  \<open>SLRU\<close>, \<open>SLRU_Refine\<close>, \<open>SLRU_Policy\<close>: the operations of \<open>SLRU.c\<close>, the steps of its
    cooling and promotion on a list of segments, and the properties.
  \<^item> \<open>Simulation\<close>, \<open>S3FIFO\<close>: S3-FIFO keeps its objects in three FIFO caches; the locale
    \<open>simulated_policy\<close> allows an algorithm that may not store an object it admitted.  \<open>Sub_Cache\<close>, \<open>TwoQ\<close>:
    a locale for a cache that is a part of another one, interpreted for FIFO and LRU, and 2Q over it.
  \<^item> \<open>Pqueue\<close>, \<open>Ranked_Cache\<close>, \<open>Belady\<close>, \<open>Size_Cache\<close>: the binary heap, with the multiset of its nodes as
    abstraction, and the two algorithms that evict by priority (the locale \<open>ranked_policy\<close>).
    \<open>Belady_Opt\<close>: the exchange argument, and that the Belady code has the most hits.
  \<^item> \<open>Splay\<close>, \<open>Stack_Dist\<close>: the splay tree with subtree sizes, the distances of \<open>dist.c\<close> and the LRU
    profiler, whose counts are compared with the hits of the LRU code.
  \<^item> \<open>Admission\<close>: the admission algorithms and, in the locale \<open>admitted_policy\<close>, what they do in front
    of an eviction algorithm.  \<open>Filters\<close>: the Bloom filter and the counting filter (\<open>bloom.c\<close>,
    \<open>minimalIncrementCBF.c\<close>): no false negatives, and bounds on the estimate.
  \<^item> \<open>Sampler\<close>: the three samplers (\<open>traceReader/sampling\<close>).  \<open>Reader\<close>: \<open>reader_t\<close>, set-up, cloning, reading
    in both directions and positions (\<open>reader.c\<close>, \<open>readerRequest.c\<close>) with the binary formats (\<open>oracle\<close>,
    \<open>twr\<close>, \<open>valpin\<close>, \<open>lcs\<close>, \<open>vscsi\<close> and the format string of \<open>binary.c\<close>).  \<open>Reader_Trace\<close>: the locales
    \<open>request_source\<close> and \<open>record_format\<close>, from which a reader delivers the list of its records;
    \<open>Reader_Formats\<close>: their interpretations for the formats.  \<open>Trace_File\<close>: what a reader delivers from the
    bytes of a file: the round trip, the end of reading, sampling, clones, and two files that are read
    wrongly.
  \<^item> \<open>Simulator\<close>: \<open>simulator.c\<close>; the locale \<open>timed_source\<close> joins a reader and the request path, and a
    simulation of LRU has the counts of a list of the objects by recency.

  \<^bold>\<open>Assumptions of the trace theorems.\<close>  The object ids come from a set \<open>fst W\<close> whose hashes are spread
  so that no chain of the table of the configured power gets longer than 64; the build has no TTL
  support (with it, \<open>cache_find_base\<close> writes through \<open>NULL\<close> for an expired object); no prefetcher is
  attached.

  \<^bold>\<open>Not modelled.\<close>  The other eviction algorithms; the prefetchers; the text, synthetic, compressed
  and prompt traces, the dumps of eviction ages and of distances (file input and output); the threads
  of the simulator within one job; freeing of caches and readers; random choice and iteration in the hash
  table; the profilers and tools in C++, the vendored hash functions and containers, the
  generated model of S4FIFO, the command line, the examples and the language bindings.
\<close>

end
